(* ===== verification/Prelude.thy ===== *)
theory Prelude
  imports Main "HOL-Library.Word" "HOL-Library.List_Lexorder"
begin

text \<open>
  Shared vocabulary of the development: the machine types of the C++ sources, byte strings
  (\<^verbatim>\<open>std::string\<close> and \<^verbatim>\<open>leveldb::Slice\<close> are both lists of bytes: a Slice is a window on
  memory that the callers keep alive, so only the bytes it shows matter), the collections of
  simplification rules that the components extend, and generic lemmas on lists and words.
\<close>

unbundle bit_operations_syntax

section \<open>Types\<close>

type_synonym byte = "8 word"
type_synonym u32 = "32 word"
type_synonym u64 = "64 word"
type_synonym bytes = "byte list"

text \<open>A C string literal as the bytes it denotes (without the terminating zero).\<close>

definition str :: "string \<Rightarrow> bytes" where
  "str s = map of_char s"

section \<open>Collections\<close>

named_theorems coding_simps \<open>encoders and decoders meeting each other\<close>
named_theorems size_simps \<open>lengths of encodings\<close>
named_theorems file_simps \<open>what a file holds after an operation\<close>

section \<open>Lists\<close>

lemma take_length_append [simp]: "take (length xs) (xs @ ys) = xs"
  by simp

lemma drop_length_append [simp]: "drop (length xs) (xs @ ys) = ys"
  by simp

lemma length4E:
  assumes "length xs = 4"
  obtains a b c d where "xs = [a, b, c, d]"
  using assms by (auto simp: numeral_eq_Suc length_Suc_conv)

lemma length8E:
  assumes "length xs = 8"
  obtains a b c d e f g h where "xs = [a, b, c, d, e, f, g, h]"
  using assms by (auto simp: numeral_eq_Suc length_Suc_conv)

lemma take_append_exact: "length xs = n \<Longrightarrow> take n (xs @ ys) = xs"
  by simp

lemma drop_append_exact: "length xs = n \<Longrightarrow> drop n (xs @ ys) = ys"
  by simp

lemma sorted_wrt_snoc:
  "sorted_wrt P (xs @ [x]) \<longleftrightarrow> sorted_wrt P xs \<and> (\<forall>y \<in> set xs. P y x)"
  by (auto simp: sorted_wrt_append)

lemma foldl_append_concat:
  assumes "\<And>dst x. f dst x = dst @ f [] x"
  shows "foldl f dst xs = dst @ concat (map (f []) xs)"
proof (induction xs arbitrary: dst)
  case (Cons x xs)
  then show ?case by (simp add: assms [of dst x])
qed simp

lemma proper_prefix_cases:
  assumes "x @ z = a @ b" and "z \<noteq> []"
  obtains (inside) z' where "z' \<noteq> []" and "x @ z' = a" | (past) x' where "x = a @ x'" and "x' @ z = b"
proof -
  from assms(1) obtain us where "x = a @ us \<and> us @ z = b \<or> x @ us = a \<and> z = us @ b"
    by (metis append_eq_append_conv2)
  then show ?thesis using assms(2) inside past by (cases "us = []") auto
qed

section \<open>Words\<close>

lemma of_nat_unat_ucast: "(of_nat (unat (x :: 'a::len word)) :: 'b::len word) = ucast x"
  by (simp add: unsigned_ucast_eq unsigned_of_nat word_of_nat_eq_iff flip: unsigned_word_eqI)

lemma unat_of_nat_small: "n < 2 ^ LENGTH('a) \<Longrightarrow> unat (of_nat n :: 'a::len word) = n"
  by (simp add: unat_of_nat take_bit_eq_mod)

lemma of_nat_OR_disjoint:
  "(of_nat (n mod 2 ^ k) :: 'a::len word) OR push_bit k (of_nat (n div 2 ^ k)) = of_nat n"
  by (rule bit_eqI)
    (auto simp: bit_simps possible_bit_def simp flip: take_bit_eq_mod drop_bit_eq_div)

lemma bit_128: "bit (128 :: 'a::semiring_bit_operations) n \<longleftrightarrow> possible_bit TYPE('a) n \<and> n = 7"
  using bit_exp_iff [of 7 n, where 'a = 'a] by auto

lemma bit_127: "bit (127 :: 'a::semiring_bit_operations) n \<longleftrightarrow> possible_bit TYPE('a) n \<and> n < 7"
  using bit_mask_iff [of 7 n, where 'a = 'a] by (simp add: mask_numeral)

lemma bit_255: "bit (255 :: 'a::semiring_bit_operations) n \<longleftrightarrow> possible_bit TYPE('a) n \<and> n < 8"
  using bit_mask_iff [of 8 n, where 'a = 'a] by (simp add: mask_numeral)

lemma bit_mod_128: "bit (n mod 128 :: nat) i \<longleftrightarrow> i < 7 \<and> bit n i"
  using bit_take_bit_iff [of 7 n i] by (simp add: take_bit_eq_mod)

lemma bit_div_128: "bit (n div 128 :: nat) i \<longleftrightarrow> bit n (7 + i)"
  using bit_drop_bit_eq [of 7 n] by (simp add: drop_bit_eq_div fun_eq_iff)

lemmas byte_bits = bit_simps bit_mod_128 bit_div_128 bit_128 bit_127 bit_255

lemma AND_128_eq_0_iff: "(x :: 'a::len word) AND 128 = 0 \<longleftrightarrow> \<not> bit x 7"
  unfolding bit_eq_iff by (auto simp: bit_simps bit_128 dest: bit_imp_le_length)

lemma unat_drop_bit_div: "unat (drop_bit k (v :: 'a::len word)) = unat v div 2 ^ k"
  by (rule trans [OF unat_drop_bit_eq drop_bit_eq_div])

lemma drop_bit_less_word:
  assumes "2 ^ k \<le> unat v" and "0 < k"
  shows "unat (drop_bit k v) < unat (v :: 'a::len word)"
proof -
  have "0 < unat v" using assms(1) by (rule less_le_trans [rotated]) simp
  moreover have "(1::nat) < 2 ^ k" using assms(2) by (rule one_less_power [rotated]) simp
  ultimately show ?thesis by (simp only: unat_drop_bit_div div_less_dividend)
qed

end
