(* ===== verification/Coding.thy ===== *)
theory Coding
  imports Prelude
begin

text \<open>
  The integer and string codings of \<^verbatim>\<open>util/coding.h\<close> and \<^verbatim>\<open>util/coding.cc\<close>. A decoder of the
  source takes the pointers \<open>p\<close> and \<open>limit\<close> and returns the advanced pointer or NULL; here it
  takes the bytes of the range \<open>[p, limit)\<close> and returns the value with the bytes left, or
  \<open>None\<close>. An encoder returns the bytes it writes. The two branches on
  \<^verbatim>\<open>port::kLittleEndian\<close> are separate definitions, proved equal.
\<close>

section \<open>Fixed-width integers\<close>

definition EncodeFixed32 :: "u32 \<Rightarrow> bytes" where
  "EncodeFixed32 value =
     [ucast (value AND 0xff), ucast (drop_bit 8 value AND 0xff),
      ucast (drop_bit 16 value AND 0xff), ucast (drop_bit 24 value AND 0xff)]"

definition EncodeFixed64 :: "u64 \<Rightarrow> bytes" where
  "EncodeFixed64 value =
     [ucast (value AND 0xff), ucast (drop_bit 8 value AND 0xff),
      ucast (drop_bit 16 value AND 0xff), ucast (drop_bit 24 value AND 0xff),
      ucast (drop_bit 32 value AND 0xff), ucast (drop_bit 40 value AND 0xff),
      ucast (drop_bit 48 value AND 0xff), ucast (drop_bit 56 value AND 0xff)]"

text \<open>The bytes in memory of a word on a little-endian machine: what \<^verbatim>\<open>memcpy\<close> copies.\<close>

definition memory_le :: "nat \<Rightarrow> 'a::len word \<Rightarrow> bytes" where
  "memory_le n value = map (\<lambda>i. ucast (drop_bit (8 * i) value)) [0..<n]"

definition load_le :: "bytes \<Rightarrow> 'a::len word" where
  "load_le bs = foldr (\<lambda>b acc. ucast b OR push_bit 8 acc) bs 0"

definition EncodeFixed32_le :: "u32 \<Rightarrow> bytes" where
  "EncodeFixed32_le value = memory_le 4 value"

definition EncodeFixed64_le :: "u64 \<Rightarrow> bytes" where
  "EncodeFixed64_le value = memory_le 8 value"

definition DecodeFixed32 :: "bytes \<Rightarrow> u32" where
  "DecodeFixed32 ptr =
     (ucast (ptr ! 0) OR push_bit 8 (ucast (ptr ! 1)) OR
      push_bit 16 (ucast (ptr ! 2)) OR push_bit 24 (ucast (ptr ! 3)))"

definition DecodeFixed64 :: "bytes \<Rightarrow> u64" where
  "DecodeFixed64 ptr =
     (let lo = ucast (DecodeFixed32 ptr); hi = ucast (DecodeFixed32 (drop 4 ptr))
      in push_bit 32 hi OR lo)"

definition DecodeFixed32_le :: "bytes \<Rightarrow> u32" where
  "DecodeFixed32_le ptr = load_le (take 4 ptr)"

definition DecodeFixed64_le :: "bytes \<Rightarrow> u64" where
  "DecodeFixed64_le ptr = load_le (take 8 ptr)"

definition PutFixed32 :: "bytes \<Rightarrow> u32 \<Rightarrow> bytes" where
  "PutFixed32 dst value = dst @ EncodeFixed32 value"

definition PutFixed64 :: "bytes \<Rightarrow> u64 \<Rightarrow> bytes" where
  "PutFixed64 dst value = dst @ EncodeFixed64 value"

section \<open>Varints\<close>

text \<open>
  A store of an integer into an \<^verbatim>\<open>unsigned char\<close> keeps its low eight bits, which is
  \<open>ucast\<close> to a byte.
\<close>

definition EncodeVarint32 :: "u32 \<Rightarrow> bytes" where
  "EncodeVarint32 v =
     (let B = 128 in
      if v < 2 ^ 7 then [ucast v]
      else if v < 2 ^ 14 then [ucast (v OR B), ucast (drop_bit 7 v)]
      else if v < 2 ^ 21 then
        [ucast (v OR B), ucast (drop_bit 7 v OR B), ucast (drop_bit 14 v)]
      else if v < 2 ^ 28 then
        [ucast (v OR B), ucast (drop_bit 7 v OR B), ucast (drop_bit 14 v OR B),
         ucast (drop_bit 21 v)]
      else
        [ucast (v OR B), ucast (drop_bit 7 v OR B), ucast (drop_bit 14 v OR B),
         ucast (drop_bit 21 v OR B), ucast (drop_bit 28 v)])"

definition PutVarint32 :: "bytes \<Rightarrow> u32 \<Rightarrow> bytes" where
  "PutVarint32 dst v = dst @ EncodeVarint32 v"

function EncodeVarint64 :: "u64 \<Rightarrow> bytes" where
  "EncodeVarint64 v =
     (if 128 \<le> v then ucast ((v AND (128 - 1)) OR 128) # EncodeVarint64 (drop_bit 7 v)
      else [ucast v])"
  by pat_completeness auto
termination
  by (relation "measure unat") (auto simp: word_le_nat_alt intro!: drop_bit_less_word)

declare EncodeVarint64.simps [simp del]

definition PutVarint64 :: "bytes \<Rightarrow> u64 \<Rightarrow> bytes" where
  "PutVarint64 dst v = dst @ EncodeVarint64 v"

text \<open>The size of a Slice is a \<^verbatim>\<open>size_t\<close>, cut to 32 bits at the call of \<open>PutVarint32\<close>.\<close>

definition PutLengthPrefixedSlice :: "bytes \<Rightarrow> bytes \<Rightarrow> bytes" where
  "PutLengthPrefixedSlice dst value =
     PutVarint32 dst (of_nat (length value)) @ value"

function VarintLength_loop :: "u64 \<Rightarrow> nat \<Rightarrow> nat" where
  "VarintLength_loop v len =
     (if 128 \<le> v then VarintLength_loop (drop_bit 7 v) (len + 1) else len)"
  by pat_completeness auto
termination
  by (relation "measure (unat \<circ> fst)") (auto simp: word_le_nat_alt intro!: drop_bit_less_word)

declare VarintLength_loop.simps [simp del]

definition VarintLength :: "u64 \<Rightarrow> nat" where
  "VarintLength v = VarintLength_loop v 1"

fun GetVarint32PtrFallback_loop :: "nat \<Rightarrow> u32 \<Rightarrow> bytes \<Rightarrow> (u32 \<times> bytes) option" where
  "GetVarint32PtrFallback_loop shift result [] = None"
| "GetVarint32PtrFallback_loop shift result (c # p) =
     (if shift \<le> 28 then
        (let byte = ucast c in
         if byte AND 128 \<noteq> 0
         then GetVarint32PtrFallback_loop (shift + 7)
                (result OR push_bit shift (byte AND 127)) p
         else Some (result OR push_bit shift byte, p))
      else None)"

definition GetVarint32PtrFallback :: "bytes \<Rightarrow> (u32 \<times> bytes) option" where
  "GetVarint32PtrFallback p = GetVarint32PtrFallback_loop 0 0 p"

definition GetVarint32Ptr :: "bytes \<Rightarrow> (u32 \<times> bytes) option" where
  "GetVarint32Ptr p =
     (case p of
        c # p' \<Rightarrow>
          (let result = ucast c in
           if result AND 128 = 0 then Some (result, p') else GetVarint32PtrFallback p)
      | [] \<Rightarrow> GetVarint32PtrFallback p)"

definition GetVarint32 :: "bytes \<Rightarrow> (u32 \<times> bytes) option" where
  "GetVarint32 input = GetVarint32Ptr input"

fun GetVarint64Ptr_loop :: "nat \<Rightarrow> u64 \<Rightarrow> bytes \<Rightarrow> (u64 \<times> bytes) option" where
  "GetVarint64Ptr_loop shift result [] = None"
| "GetVarint64Ptr_loop shift result (c # p) =
     (if shift \<le> 63 then
        (let byte = ucast c in
         if byte AND 128 \<noteq> 0
         then GetVarint64Ptr_loop (shift + 7) (result OR push_bit shift (byte AND 127)) p
         else Some (result OR push_bit shift byte, p))
      else None)"

definition GetVarint64Ptr :: "bytes \<Rightarrow> (u64 \<times> bytes) option" where
  "GetVarint64Ptr p = GetVarint64Ptr_loop 0 0 p"

definition GetVarint64 :: "bytes \<Rightarrow> (u64 \<times> bytes) option" where
  "GetVarint64 input = GetVarint64Ptr input"

definition GetLengthPrefixedSlicePtr :: "bytes \<Rightarrow> (bytes \<times> bytes) option" where
  "GetLengthPrefixedSlicePtr p =
     (case GetVarint32Ptr p of
        None \<Rightarrow> None
      | Some (len, p') \<Rightarrow>
          if unat len > length p' then None
          else Some (take (unat len) p', drop (unat len) p'))"

definition GetLengthPrefixedSlice :: "bytes \<Rightarrow> (bytes \<times> bytes) option" where
  "GetLengthPrefixedSlice input =
     (case GetVarint32 input of
        Some (len, input') \<Rightarrow>
          if unat len \<le> length input'
          then Some (take (unat len) input', drop (unat len) input') else None
      | None \<Rightarrow> None)"

section \<open>Specification of the varint coding\<close>

text \<open>
  A varint is the little-endian base-128 representation of a number; every byte but the last
  carries the continuation bit.
\<close>

fun varint :: "nat \<Rightarrow> bytes" where
  "varint n = (if n < 128 then [of_nat n] else (of_nat (n mod 128) OR 128) # varint (n div 128))"

declare varint.simps [simp del]

lemma varint_small: "n < 128 \<Longrightarrow> varint n = [of_nat n]"
  by (simp add: varint.simps)

lemma varint_big: "128 \<le> n \<Longrightarrow> varint n = (of_nat (n mod 128) OR 128) # varint (n div 128)"
  by (simp add: varint.simps [of n])

lemma varint_not_Nil [simp]: "varint n \<noteq> []"
  by (simp add: varint.simps [of n])

lemma length_varint_le: "n < 128 ^ Suc k \<Longrightarrow> length (varint n) \<le> Suc k"
proof (induction k arbitrary: n)
  case 0
  then show ?case by (simp add: varint_small)
next
  case (Suc k)
  show ?case
  proof (cases "n < 128")
    case False
    have "n div 128 < 128 ^ Suc k"
      using Suc.prems by (intro less_mult_imp_div_less) (simp add: mult.commute)
    with Suc.IH False show ?thesis by (simp add: varint_big)
  qed (simp add: varint_small)
qed

lemma length_varint_pos [simp]: "0 < length (varint n)"
  by simp

subsection \<open>The encoders compute it\<close>

lemma varint_byte64: "(ucast ((v AND 127) OR 128) :: byte) = of_nat (unat (v :: u64) mod 128) OR 128"
  by (rule bit_eqI) (auto simp: byte_bits)

lemma varint_byte32: "(ucast ((v :: u32) OR 128) :: byte) = of_nat (unat v mod 128) OR 128"
  by (rule bit_eqI) (auto simp: byte_bits)

lemma EncodeVarint64_varint: "EncodeVarint64 v = varint (unat v)"
proof (induction v rule: EncodeVarint64.induct)
  case (1 v)
  show ?case
  proof (cases "128 \<le> v")
    case True
    then have "128 \<le> unat v" by (simp add: word_le_nat_alt)
    with 1 True show ?thesis
      by (simp add: EncodeVarint64.simps [of v] varint_big varint_byte64 unat_drop_bit_div)
  next
    case False
    then have "unat v < 128" by (simp add: word_less_nat_alt not_le)
    with False show ?thesis
      by (simp add: EncodeVarint64.simps [of v] varint_small of_nat_unat_ucast)
  qed
qed

lemma VarintLength_loop_varint: "VarintLength_loop v len = len + length (varint (unat v)) - 1"
proof (induction v len rule: VarintLength_loop.induct)
  case (1 v len)
  show ?case
  proof (cases "128 \<le> v")
    case True
    then have "128 \<le> unat v" by (simp add: word_le_nat_alt)
    with 1 True show ?thesis
      by (simp add: VarintLength_loop.simps [of v] varint_big unat_drop_bit_div)
  next
    case False
    then have "unat v < 128" by (simp add: word_less_nat_alt not_le)
    with False show ?thesis
      by (simp add: VarintLength_loop.simps [of v] varint_small)
  qed
qed

lemma EncodeVarint32_varint: "EncodeVarint32 v = varint (unat v)"
proof -
  have lts: "v < 128 \<longleftrightarrow> unat v < 128" "v < 16384 \<longleftrightarrow> unat v < 16384"
    "v < 2097152 \<longleftrightarrow> unat v < 2097152" "v < 268435456 \<longleftrightarrow> unat v < 268435456"
    by (simp_all add: word_less_nat_alt)
  have v: "unat v < 4294967296" using unsigned_less [of v] by simp
  have low: "(ucast (drop_bit k v) :: byte) = of_nat (unat v div 2 ^ k)" for k
    by (simp only: unat_drop_bit_div [symmetric] of_nat_unat_ucast)
  have high: "(ucast (drop_bit k v OR 128) :: byte) = of_nat (unat v div 2 ^ k mod 128) OR 128" for k
    by (simp only: unat_drop_bit_div [symmetric] varint_byte32)
  note enc = EncodeVarint32_def Let_def lts low high [of 0, simplified] high [of 7, simplified]
    high [of 14, simplified] high [of 21, simplified] low [of 0, simplified]
  consider "unat v < 128" | "128 \<le> unat v" "unat v < 16384" | "16384 \<le> unat v" "unat v < 2097152"
    | "2097152 \<le> unat v" "unat v < 268435456" | "268435456 \<le> unat v" by linarith
  then show ?thesis
    by cases (use v in \<open>simp_all add: enc varint_big varint_small div_mult2_eq [symmetric]
      less_eq_div_iff_mult_less_eq div_less_iff_less_mult\<close>)
qed

lemma VarintLength_varint: "VarintLength v = length (varint (unat v))"
  by (simp add: VarintLength_def VarintLength_loop_varint)

subsection \<open>The decoders invert it\<close>

lemma varint_step:
  "(ucast (of_nat (n mod 128) OR (128 :: byte)) AND 127) OR push_bit 7 (of_nat (n div 128))
   = (of_nat n :: 'a::len word)"
proof (rule bit_eqI)
  fix i
  show "bit ((ucast (of_nat (n mod 128) OR (128 :: byte)) AND 127)
      OR push_bit 7 (of_nat (n div 128)) :: 'a word) i = bit (of_nat n :: 'a word) i"
    by (cases "i < 7") (auto simp: byte_bits)
qed

lemma varint_step_shift:
  "(result OR push_bit shift (ucast (of_nat (n mod 128) OR (128 :: byte)) AND 127))
     OR push_bit (shift + 7) (of_nat (n div 128))
   = (result :: 'a::len word) OR push_bit shift (of_nat n)"
proof -
  have "push_bit shift (ucast (of_nat (n mod 128) OR (128 :: byte)) AND 127)
     OR push_bit (shift + 7) (of_nat (n div 128)) = push_bit shift (of_nat n :: 'a word)"
    by (subst varint_step [of n, symmetric]) (simp only: push_bit_or push_bit_push_bit)
  then show ?thesis by (simp only: or.assoc)
qed

lemma byte_128_bit: "(ucast (of_nat (n mod 128) OR (128 :: byte)) :: 'a::len word) AND 128 \<noteq> 0"
  if "8 \<le> LENGTH('a)"
  using that by (simp add: AND_128_eq_0_iff byte_bits)

lemma bit_less_128: "(n :: nat) < 128 \<Longrightarrow> bit n i \<Longrightarrow> i < 7"
  using bit_mod_128 [of n i] by simp

lemma varint_last_byte: "n < 128 \<Longrightarrow> (ucast (of_nat n :: byte) :: 'a::len word) = of_nat n"
  by (rule bit_eqI) (auto simp: bit_simps dest: bit_less_128)

lemma varint_last_bit: "n < 128 \<Longrightarrow> \<not> bit (of_nat n :: 'a::len word) 7"
  by (auto simp: bit_simps dest: bit_less_128)

lemma varint_div_bound: "n < 128 ^ Suc (Suc k) \<Longrightarrow> n div 128 < 128 ^ Suc k" for n :: nat
  by (rule less_mult_imp_div_less) (simp add: mult.commute)

lemma GetVarint32_loop_varint:
  "n < 128 ^ Suc k \<Longrightarrow> shift + 7 * k \<le> 28 \<Longrightarrow>
   GetVarint32PtrFallback_loop shift result (varint n @ rest)
   = Some (result OR push_bit shift (of_nat n), rest)"
proof (induction k arbitrary: n shift result)
  case 0
  then show ?case
    by (simp add: varint_small varint_last_byte AND_128_eq_0_iff varint_last_bit)
next
  case (Suc k)
  show ?case
  proof (cases "n < 128")
    case True
    with Suc.prems show ?thesis
      by (simp add: varint_small varint_last_byte AND_128_eq_0_iff varint_last_bit)
  next
    case False
    from Suc.prems(2) have "shift + 7 + 7 * k \<le> 28" by simp
    from Suc.IH [OF varint_div_bound [OF Suc.prems(1)] this] Suc.prems(2) False show ?thesis
      by (simp add: varint_big Let_def byte_128_bit varint_step_shift del: push_bit_and)
  qed
qed

lemma GetVarint64_loop_varint:
  "n < 128 ^ Suc k \<Longrightarrow> shift + 7 * k \<le> 63 \<Longrightarrow>
   GetVarint64Ptr_loop shift result (varint n @ rest)
   = Some (result OR push_bit shift (of_nat n), rest)"
proof (induction k arbitrary: n shift result)
  case 0
  then show ?case
    by (simp add: varint_small varint_last_byte AND_128_eq_0_iff varint_last_bit)
next
  case (Suc k)
  show ?case
  proof (cases "n < 128")
    case True
    with Suc.prems show ?thesis
      by (simp add: varint_small varint_last_byte AND_128_eq_0_iff varint_last_bit)
  next
    case False
    from Suc.prems(2) have "shift + 7 + 7 * k \<le> 63" by simp
    from Suc.IH [OF varint_div_bound [OF Suc.prems(1)] this] Suc.prems(2) False show ?thesis
      by (simp add: varint_big Let_def byte_128_bit varint_step_shift del: push_bit_and)
  qed
qed

lemma unat_u32_bound: "unat (v :: u32) < 128 ^ Suc 4"
proof -
  have "unat v < 2 ^ 32" using unsigned_less [of v] by simp
  then show ?thesis by simp
qed

lemma unat_u64_bound: "unat (v :: u64) < 128 ^ Suc 9"
proof -
  have "unat v < 2 ^ 64" using unsigned_less [of v] by simp
  then show ?thesis by simp
qed

lemma GetVarint32Ptr_eq_Fallback: "GetVarint32Ptr p = GetVarint32PtrFallback p"
  by (cases p) (auto simp: GetVarint32Ptr_def GetVarint32PtrFallback_def Let_def)

lemma GetVarint32_varint [coding_simps]: "GetVarint32 (varint (unat v) @ rest) = Some (v, rest)"
  using GetVarint32_loop_varint [OF unat_u32_bound [of v], of 0 0 rest]
  by (simp add: GetVarint32_def GetVarint32Ptr_eq_Fallback GetVarint32PtrFallback_def)

lemma GetVarint64_varint [coding_simps]: "GetVarint64 (varint (unat v) @ rest) = Some (v, rest)"
  using GetVarint64_loop_varint [OF unat_u64_bound [of v], of 0 0 rest]
  by (simp add: GetVarint64_def GetVarint64Ptr_def)

text \<open>Every decoder consumes at least one byte: the loops that parse an input end.\<close>

lemma GetVarint32_loop_shrinks:
  "GetVarint32PtrFallback_loop shift result p = Some (v, p') \<Longrightarrow> length p' < length p"
proof (induction shift result p rule: GetVarint32PtrFallback_loop.induct)
  case (2 shift result c p)
  then show ?case by (auto simp: Let_def split: if_splits)
qed simp

lemma GetVarint32_shrinks: "GetVarint32 p = Some (v, p') \<Longrightarrow> length p' < length p"
  by (simp add: GetVarint32_def GetVarint32Ptr_eq_Fallback GetVarint32PtrFallback_def
      GetVarint32_loop_shrinks)

lemma GetVarint64_loop_shrinks:
  "GetVarint64Ptr_loop shift result p = Some (v, p') \<Longrightarrow> length p' < length p"
proof (induction shift result p rule: GetVarint64Ptr_loop.induct)
  case (2 shift result c p)
  then show ?case by (auto simp: Let_def split: if_splits)
qed simp

lemma GetVarint64_shrinks: "GetVarint64 p = Some (v, p') \<Longrightarrow> length p' < length p"
  by (simp add: GetVarint64_def GetVarint64Ptr_def GetVarint64_loop_shrinks)

lemma GetLengthPrefixedSlice_shrinks:
  "GetLengthPrefixedSlice p = Some (s, p') \<Longrightarrow> length p' < length p"
  by (fastforce simp: GetLengthPrefixedSlice_def split: option.splits if_splits
      dest: GetVarint32_shrinks)

lemma GetLengthPrefixedSlice_prefixed [coding_simps]:
  "length s < 2 ^ 32 \<Longrightarrow>
   GetLengthPrefixedSlice (varint (length s) @ s @ rest) = Some (s, rest)"
  using GetVarint32_varint [of "of_nat (length s)" "s @ rest"]
  by (simp add: GetLengthPrefixedSlice_def unat_of_nat_small)

lemma GetVarint64_empty [simp]: "GetVarint64 [] = None"
  by (simp add: GetVarint64_def GetVarint64Ptr_def)

lemma GetVarint32_empty [simp]: "GetVarint32 [] = None"
  by (simp add: GetVarint32_def GetVarint32Ptr_eq_Fallback GetVarint32PtrFallback_def)

lemma PutVarint32_varint [coding_simps]: "PutVarint32 dst v = dst @ varint (unat v)"
  by (simp add: PutVarint32_def EncodeVarint32_varint)

lemma PutVarint64_varint [coding_simps]: "PutVarint64 dst v = dst @ varint (unat v)"
  by (simp add: PutVarint64_def EncodeVarint64_varint)

lemma PutLengthPrefixedSlice_varint [coding_simps]:
  "length s < 2 ^ 32 \<Longrightarrow> PutLengthPrefixedSlice dst s = dst @ varint (length s) @ s"
  by (simp add: PutLengthPrefixedSlice_def PutVarint32_varint unat_of_nat_small)

section \<open>Fixed-width round trips\<close>

lemma length_EncodeFixed32 [simp]: "length (EncodeFixed32 v) = 4"
  by (simp add: EncodeFixed32_def)

lemma length_EncodeFixed64 [simp]: "length (EncodeFixed64 v) = 8"
  by (simp add: EncodeFixed64_def)

lemma DecodeFixed32_append: "length xs = 4 \<Longrightarrow> DecodeFixed32 (xs @ ys) = DecodeFixed32 xs"
  by (simp add: DecodeFixed32_def nth_append)

lemma DecodeFixed32_Encode [coding_simps, simp]: "DecodeFixed32 (EncodeFixed32 v @ rest) = v"
proof (rule bit_eqI)
  fix i assume "possible_bit TYPE(u32) i"
  then have "i < 32" by simp
  then consider "i < 8" | "8 \<le> i" "i < 16" | "16 \<le> i" "i < 24" | "24 \<le> i" "i < 32" by linarith
  then show "bit (DecodeFixed32 (EncodeFixed32 v @ rest)) i = bit v i"
    by cases (auto simp: DecodeFixed32_def EncodeFixed32_def numeral_eq_Suc [of "num.One"]
        byte_bits nth_Cons')
qed

lemma length_fixed32_array: "length (concat (map (\<lambda>i. EncodeFixed32 (f i)) xs)) = 4 * length xs"
  by (induction xs) auto

lemma drop_fixed32_array:
  "i < length xs \<Longrightarrow> drop (4 * i) (concat (map (\<lambda>i. EncodeFixed32 (f i)) xs)) =
     EncodeFixed32 (f (xs ! i)) @ concat (map (\<lambda>i. EncodeFixed32 (f i)) (drop (Suc i) xs))"
proof -
  assume "i < length xs"
  then have "concat (map (\<lambda>i. EncodeFixed32 (f i)) xs) = concat (map (\<lambda>i. EncodeFixed32 (f i)) (take i xs)) @
      EncodeFixed32 (f (xs ! i)) @ concat (map (\<lambda>i. EncodeFixed32 (f i)) (drop (Suc i) xs))"
    by (subst id_take_nth_drop [of i xs]) simp_all
  moreover have "length (concat (map (\<lambda>i. EncodeFixed32 (f i)) (take i xs))) = 4 * i"
    using \<open>i < length xs\<close> by (simp add: length_fixed32_array)
  ultimately show ?thesis by simp
qed

lemma EncodeFixed64_halves:
  "EncodeFixed64 v = EncodeFixed32 (ucast v) @ EncodeFixed32 (ucast (drop_bit 32 v))"
  unfolding EncodeFixed64_def EncodeFixed32_def
  by (auto intro!: bit_eqI simp: byte_bits ac_simps)

lemma DecodeFixed64_Encode [coding_simps, simp]: "DecodeFixed64 (EncodeFixed64 v @ rest) = v"
proof (rule bit_eqI)
  fix i assume "possible_bit TYPE(u64) i"
  show "bit (DecodeFixed64 (EncodeFixed64 v @ rest)) i = bit v i"
    by (cases "i < 32") (use \<open>possible_bit TYPE(u64) i\<close> in
      \<open>auto simp: DecodeFixed64_def EncodeFixed64_halves Let_def byte_bits dest: bit_imp_le_length\<close>)
qed

lemma DecodeFixed32_Encode_end [simp]: "DecodeFixed32 (EncodeFixed32 v) = v"
  using DecodeFixed32_Encode [of v "[]"] by simp

lemma DecodeFixed64_Encode_end [simp]: "DecodeFixed64 (EncodeFixed64 v) = v"
  using DecodeFixed64_Encode [of v "[]"] by simp

lemma EncodeFixed32_Decode:
  assumes "length p = 4"
  shows "EncodeFixed32 (DecodeFixed32 p) = p"
proof -
  obtain a b c d where p: "p = [a, b, c, d]" using assms by (rule length4E)
  show ?thesis unfolding p
    by (auto simp: EncodeFixed32_def DecodeFixed32_def intro!: bit_eqI)
      (auto simp: byte_bits dest: bit_imp_le_length)
qed

lemma EncodeFixed64_Decode:
  assumes "length p = 8"
  shows "EncodeFixed64 (DecodeFixed64 p) = p"
proof -
  have lo: "ucast (DecodeFixed64 p) = DecodeFixed32 p"
    by (rule bit_eqI) (auto simp: DecodeFixed64_def Let_def byte_bits dest: bit_imp_le_length)
  have hi: "ucast (drop_bit 32 (DecodeFixed64 p)) = DecodeFixed32 (drop 4 p)"
    by (rule bit_eqI) (auto simp: DecodeFixed64_def Let_def byte_bits dest: bit_imp_le_length)
  have "DecodeFixed32 p = DecodeFixed32 (take 4 p)"
    using assms DecodeFixed32_append [of "take 4 p" "drop 4 p"] by simp
  with assms show ?thesis
    by (simp add: EncodeFixed64_halves lo hi EncodeFixed32_Decode)
qed

lemma EncodeFixed32_le_eq: "EncodeFixed32_le v = EncodeFixed32 v"
  by (auto simp: EncodeFixed32_le_def EncodeFixed32_def memory_le_def upt_rec numeral_eq_Suc
      intro!: bit_eqI) (auto simp: byte_bits)

lemma EncodeFixed64_le_eq: "EncodeFixed64_le v = EncodeFixed64 v"
  by (auto simp: EncodeFixed64_le_def EncodeFixed64_def memory_le_def upt_rec numeral_eq_Suc
      intro!: bit_eqI) (auto simp: byte_bits)

lemma memory_le_Suc: "memory_le (Suc n) v = ucast v # memory_le n (drop_bit 8 v)"
  by (simp add: memory_le_def upt_conv_Cons map_Suc_upt [symmetric] comp_def ac_simps
      del: upt_Suc)

lemma load_le_memory_le: "load_le (memory_le n v) = take_bit (8 * n) (v :: 'a::len word)"
proof (induction n arbitrary: v)
  case 0
  show ?case by (simp add: memory_le_def load_le_def)
next
  case (Suc n)
  have "load_le (memory_le (Suc n) v) = ucast (ucast v :: byte) OR push_bit 8 (take_bit (8 * n) (drop_bit 8 v))"
    using Suc by (simp add: memory_le_Suc load_le_def)
  also have "\<dots> = take_bit (8 * Suc n) v"
  proof (rule bit_eqI)
    fix i
    show "bit (ucast (ucast v :: byte) OR push_bit 8 (take_bit (8 * n) (drop_bit 8 v))) i
        = bit (take_bit (8 * Suc n) v) i"
      by (cases "i < 8") (auto simp: bit_simps dest: bit_imp_le_length)
  qed
  finally show ?case .
qed

lemma DecodeFixed32_le_eq:
  assumes "length p = 4"
  shows "DecodeFixed32_le p = DecodeFixed32 p"
proof -
  have "p = memory_le 4 (DecodeFixed32 p)"
    using EncodeFixed32_Decode [OF assms] EncodeFixed32_le_eq [of "DecodeFixed32 p"]
    by (simp add: EncodeFixed32_le_def)
  then have "load_le p = take_bit (8 * 4) (DecodeFixed32 p)"
    using load_le_memory_le [of 4 "DecodeFixed32 p"] by simp
  with assms show ?thesis by (simp add: DecodeFixed32_le_def take_bit_word_eq_self)
qed

lemma DecodeFixed64_le_eq:
  assumes "length p = 8"
  shows "DecodeFixed64_le p = DecodeFixed64 p"
proof -
  have "p = memory_le 8 (DecodeFixed64 p)"
    using EncodeFixed64_Decode [OF assms] EncodeFixed64_le_eq [of "DecodeFixed64 p"]
    by (simp add: EncodeFixed64_le_def)
  then have "load_le p = take_bit (8 * 8) (DecodeFixed64 p)"
    using load_le_memory_le [of 8 "DecodeFixed64 p"] by simp
  with assms show ?thesis by (simp add: DecodeFixed64_le_def take_bit_word_eq_self)
qed

section \<open>What the varint decoder accepts\<close>

text \<open>At most five bytes, the high bit set in all but the last; seven bits of the value in each, the
  lowest first. The decoder does not insist on the shortest encoding, and drops bits above the 32nd.\<close>

definition is_varint32 :: "bytes \<Rightarrow> bool" where
  "is_varint32 cs \<longleftrightarrow> cs \<noteq> [] \<and> length cs \<le> 5 \<and> (\<forall>c \<in> set (butlast cs). 128 \<le> c) \<and> last cs < 128"

primrec varint_value :: "bytes \<Rightarrow> nat" where
  "varint_value [] = 0"
| "varint_value (c # cs) = unat c mod 128 + 128 * varint_value cs"

lemma high_bit: "128 \<le> c \<longleftrightarrow> bit c 7" for c :: byte
proof -
  have "unat c < 256" using unsigned_less [of c] by simp
  then have "unat c div 128 = (if 128 \<le> unat c then 1 else 0)" by (auto intro: div_nat_eqI)
  then have "128 \<le> unat c \<longleftrightarrow> bit (unat c) 7" by (simp add: bit_iff_odd)
  then show ?thesis by (simp add: word_le_nat_alt bit_unsigned_iff)
qed

lemma varint_value_step:
  "(result OR push_bit shift (ucast c AND 127)) OR push_bit (shift + 7) (of_nat n) =
     (result :: u32) OR push_bit shift (of_nat (unat (c :: byte) mod 128 + 128 * n))"
proof -
  have low: "(ucast c AND 127) OR push_bit 7 (of_nat n) = (of_nat (unat c mod 128 + 128 * n) :: u32)"
  proof -
    have "unat c mod 128 + 128 * n = unat c mod 128 OR push_bit 7 n"
      using disjunctive_add [of "unat c mod 128" "push_bit 7 n"]
      by (auto simp: bit_push_bit_iff bit_mod_128) (simp add: push_bit_eq_mult mult.commute)
    also have "of_nat \<dots> = (ucast c AND 127) OR push_bit 7 (of_nat n :: u32)"
      by (rule bit_eqI) (auto simp: byte_bits bit_simps bit_mod_128)
    finally show ?thesis ..
  qed
  have "push_bit shift (ucast c AND 127) OR push_bit (shift + 7) (of_nat n) = push_bit shift (of_nat (unat c mod 128 + 128 * n) :: u32)"
    unfolding low [symmetric] by (simp only: push_bit_or push_bit_push_bit)
  then show ?thesis by (simp only: or.assoc)
qed

lemma GetVarint32_loop_iff:
  "GetVarint32PtrFallback_loop (7 * k) result p = Some (v, rest) \<longleftrightarrow>
    (\<exists>cs. p = cs @ rest \<and> cs \<noteq> [] \<and> length cs + k \<le> 5 \<and> (\<forall>c \<in> set (butlast cs). 128 \<le> c) \<and> last cs < 128 \<and>
       v = result OR push_bit (7 * k) (of_nat (varint_value cs)))"
proof (induction p arbitrary: k result)
  case (Cons c p)
  have shift: "7 * k \<le> 28 \<longleftrightarrow> k < 5" by auto
  have split: "(\<exists>cs. c # p = cs @ rest \<and> cs \<noteq> [] \<and> Q cs) \<longleftrightarrow> p = rest \<and> Q [c] \<or> (\<exists>cs. p = cs @ rest \<and> cs \<noteq> [] \<and> Q (c # cs))" for Q
    by (auto simp: Cons_eq_append_conv)
  have bit: "(ucast c :: u32) AND 128 \<noteq> 0 \<longleftrightarrow> 128 \<le> c" by (simp add: AND_128_eq_0_iff bit_ucast_iff high_bit)
  show ?case
  proof (cases "128 \<le> c")
    case True
    have step: "(result OR push_bit (7 * k) (ucast c AND 127)) OR push_bit (7 * Suc k) (of_nat (varint_value cs)) =
        result OR push_bit (7 * k) (of_nat (varint_value (c # cs)))" for cs
      using varint_value_step [of result "7 * k" c "varint_value cs"] by (simp only: mult_Suc_right add.commute varint_value.simps)
    have "GetVarint32PtrFallback_loop (7 * k) result (c # p) = Some (v, rest) \<longleftrightarrow>
        k < 5 \<and> GetVarint32PtrFallback_loop (7 * Suc k) (result OR push_bit (7 * k) (ucast c AND 127)) p = Some (v, rest)"
      using True by (simp add: Let_def bit shift add.commute)
    also have "\<dots> \<longleftrightarrow> (\<exists>cs. p = cs @ rest \<and> cs \<noteq> [] \<and> length (c # cs) + k \<le> 5 \<and> (\<forall>c \<in> set (butlast (c # cs)). 128 \<le> c) \<and>
        last (c # cs) < 128 \<and> v = result OR push_bit (7 * k) (of_nat (varint_value (c # cs))))"
      unfolding Cons.IH step using True by auto
    finally have many: "GetVarint32PtrFallback_loop (7 * k) result (c # p) = Some (v, rest) \<longleftrightarrow> \<dots>" .
    have "\<not> last [c] < 128" using True by simp
    with many show ?thesis unfolding split by blast
  next
    case False
    then have "unat c < 128" by (simp add: word_le_nat_alt)
    then have low: "of_nat (unat c mod 128) = (ucast c :: u32)" by (simp add: of_nat_unat_ucast)
    have "GetVarint32PtrFallback_loop (7 * k) result (c # p) = Some (v, rest) \<longleftrightarrow>
        p = rest \<and> length [c] + k \<le> 5 \<and> (\<forall>c \<in> set (butlast [c]). 128 \<le> c) \<and> last [c] < 128 \<and>
        v = result OR push_bit (7 * k) (of_nat (varint_value [c]))"
      using False by (auto simp: Let_def bit shift low)
    moreover have "\<not> (\<forall>x \<in> set (butlast (c # cs)). 128 \<le> x)" if "cs \<noteq> []" for cs using that False by simp
    ultimately show ?thesis unfolding split by blast
  qed
qed simp

lemma GetVarint32_iff:
  "GetVarint32 p = Some (v, rest) \<longleftrightarrow> (\<exists>cs. is_varint32 cs \<and> p = cs @ rest \<and> v = of_nat (varint_value cs))"
  using GetVarint32_loop_iff [of 0 0 p v rest]
  by (auto simp: GetVarint32_def GetVarint32Ptr_eq_Fallback GetVarint32PtrFallback_def is_varint32_def)

lemma GetLengthPrefixedSlice_iff:
  "GetLengthPrefixedSlice p = Some (s, rest) \<longleftrightarrow>
    (\<exists>cs. is_varint32 cs \<and> length s = varint_value cs mod 2 ^ 32 \<and> p = cs @ s @ rest)"
proof -
  have "GetLengthPrefixedSlice p = Some (s, rest) \<longleftrightarrow>
      (\<exists>v p'. GetVarint32 p = Some (v, p') \<and> unat v = length s \<and> p' = s @ rest)"
    by (auto simp: GetLengthPrefixedSlice_def split: option.splits if_splits)
  also have "\<dots> \<longleftrightarrow> (\<exists>cs. is_varint32 cs \<and> length s = varint_value cs mod 2 ^ 32 \<and> p = cs @ s @ rest)"
    unfolding GetVarint32_iff by (auto simp: unat_of_nat)
  finally show ?thesis .
qed

section \<open>Properties\<close>

lemma GetVarint32_loop_truncated:
  "k < length (varint n) \<Longrightarrow> GetVarint32PtrFallback_loop shift result (take k (varint n)) = None"
proof (induction n arbitrary: k shift result rule: varint.induct)
  case (1 n)
  show ?case
  proof (cases "n < 128 \<or> k = 0")
    case True
    with 1 show ?thesis by (auto simp: varint_small)
  next
    case False
    then obtain k' where "k = Suc k'" by (cases k) auto
    with False 1 show ?thesis by (simp add: varint_big Let_def byte_128_bit)
  qed
qed

lemma GetVarint64_loop_truncated:
  "k < length (varint n) \<Longrightarrow> GetVarint64Ptr_loop shift result (take k (varint n)) = None"
proof (induction n arbitrary: k shift result rule: varint.induct)
  case (1 n)
  show ?case
  proof (cases "n < 128 \<or> k = 0")
    case True
    with 1 show ?thesis by (auto simp: varint_small)
  next
    case False
    then obtain k' where "k = Suc k'" by (cases k) auto
    with False 1 show ?thesis by (simp add: varint_big Let_def byte_128_bit)
  qed
qed

text \<open>Decoding the varint encoding of any 32-bit or 64-bit value gives the value back and
  leaves exactly the bytes that follow it; the encoding has the length \<open>VarintLength\<close> announces,
  at most the 5 and 10 bytes of the source's buffers.\<close>

theorem varint_round_trip:
  "GetVarint32 (PutVarint32 [] v @ rest) = Some (v, rest)
   \<and> length (PutVarint32 dst v) = length dst + VarintLength (ucast v)
   \<and> length (EncodeVarint32 v) \<le> 5
   \<and> GetVarint64 (PutVarint64 [] w @ rest) = Some (w, rest)
   \<and> length (PutVarint64 dst w) = length dst + VarintLength w
   \<and> length (EncodeVarint64 w) \<le> 10"
proof -
  have "unat v < 2 ^ 32" using unsigned_less [of v] by simp
  then have "unat (ucast v :: u64) = unat v"
    by (simp add: unsigned_ucast_eq take_bit_nat_eq_self_iff)
  then show ?thesis
    using length_varint_le [OF unat_u32_bound [of v]] length_varint_le [OF unat_u64_bound [of w]]
    by (simp add: coding_simps VarintLength_varint EncodeVarint32_varint EncodeVarint64_varint)
qed

text \<open>A varint cut short at any byte is rejected by the decoders, never misread.\<close>

theorem varint_truncated_rejected:
  assumes "k < length (EncodeVarint32 v)" and "m < length (EncodeVarint64 w)"
  shows "GetVarint32 (take k (EncodeVarint32 v)) = None
    \<and> GetVarint64 (take m (EncodeVarint64 w)) = None"
  using assms GetVarint32_loop_truncated GetVarint64_loop_truncated
  by (simp add: GetVarint32_def GetVarint32Ptr_eq_Fallback GetVarint32PtrFallback_def
      GetVarint64_def GetVarint64Ptr_def EncodeVarint32_varint EncodeVarint64_varint)

theorem varint_truncated_rejected_witness:
  "GetVarint32 (take 1 (EncodeVarint32 300)) = None
   \<and> GetVarint64 (take 1 (EncodeVarint64 300)) = None"
proof -
  have 1: "1 < length (EncodeVarint32 300)" by (simp add: EncodeVarint32_def)
  have 2: "1 < length (EncodeVarint64 300)" by (simp add: EncodeVarint64.simps [of 300] drop_bit_eq_div EncodeVarint64.simps [of 2])
  show ?thesis using varint_truncated_rejected [OF 1 2] .
qed

text \<open>A string shorter than 4 GiB stored with its length prefix is read back whole, with
  exactly the bytes that follow it left in the input.\<close>

theorem length_prefixed_round_trip:
  assumes "length s < 2 ^ 32"
  shows "GetLengthPrefixedSlice (PutLengthPrefixedSlice [] s @ rest) = Some (s, rest)"
  using assms by (simp add: coding_simps)

theorem length_prefixed_round_trip_witness:
  "GetLengthPrefixedSlice (PutLengthPrefixedSlice [] [1, 2, 3] @ [9]) = Some ([1, 2, 3], [9])"
  by (rule length_prefixed_round_trip) simp

text \<open>The fixed-width encoders and decoders are inverse to each other in both directions, and
  the branch that copies the bytes of a little-endian machine computes the same bytes as the
  portable shifts.\<close>

theorem fixed_round_trip:
  assumes "length p = 4" and "length q = 8"
  shows "DecodeFixed32 (EncodeFixed32 v @ rest) = v \<and> EncodeFixed32 (DecodeFixed32 p) = p
    \<and> DecodeFixed64 (EncodeFixed64 w @ rest) = w \<and> EncodeFixed64 (DecodeFixed64 q) = q
    \<and> EncodeFixed32_le v = EncodeFixed32 v \<and> EncodeFixed64_le w = EncodeFixed64 w
    \<and> DecodeFixed32_le p = DecodeFixed32 p \<and> DecodeFixed64_le q = DecodeFixed64 q"
  using assms by (simp add: EncodeFixed32_Decode EncodeFixed64_Decode EncodeFixed32_le_eq
      EncodeFixed64_le_eq DecodeFixed32_le_eq DecodeFixed64_le_eq)

theorem fixed_round_trip_witness:
  "EncodeFixed32 (DecodeFixed32 [1, 2, 3, 4]) = [1, 2, 3, 4]
   \<and> EncodeFixed64 (DecodeFixed64 [1, 2, 3, 4, 5, 6, 7, 8]) = [1, 2, 3, 4, 5, 6, 7, 8]"
  using fixed_round_trip [of "[1, 2, 3, 4]" "[1, 2, 3, 4, 5, 6, 7, 8]"] by simp

end
