(* ===== verification/Comparator.thy ===== *)
theory Comparator
  imports Prelude
begin

text \<open>
  \<^verbatim>\<open>include/leveldb/slice.h\<close> and \<^verbatim>\<open>util/comparator.cc\<close>: the three-way comparison of slices, the
  built-in bytewise comparator, and the interface \<^verbatim>\<open>include/leveldb/comparator.h\<close> promises to the
  rest of the program. The interface is stated as two locales; the bytewise comparator is their
  first interpretation, the internal-key comparator (theory \<open>Dbformat\<close>) the second.
\<close>

section \<open>Slices\<close>

text \<open>
  \<^verbatim>\<open>memcmp\<close> compares unsigned bytes up to the first difference; only the sign of its result is
  specified, and only the sign is used.
\<close>

fun memcmp :: "bytes \<Rightarrow> bytes \<Rightarrow> nat \<Rightarrow> int" where
  "memcmp (x # xs) (y # ys) (Suc n) =
     (if x < y then -1 else if y < x then 1 else memcmp xs ys n)"
| "memcmp _ _ _ = 0"

definition Slice_compare :: "bytes \<Rightarrow> bytes \<Rightarrow> int" where
  "Slice_compare a b =
     (let min_len = (if length a < length b then length a else length b);
          r = memcmp a b min_len
      in if r = 0 then
           (if length a < length b then -1 else if length a > length b then 1 else r)
         else r)"

definition Slice_starts_with :: "bytes \<Rightarrow> bytes \<Rightarrow> bool" where
  "Slice_starts_with s x \<longleftrightarrow> length x \<le> length s \<and> memcmp s x (length x) = 0"

definition Slice_eq :: "bytes \<Rightarrow> bytes \<Rightarrow> bool" where
  "Slice_eq x y \<longleftrightarrow> length x = length y \<and> memcmp x y (length x) = 0"

section \<open>The bytewise comparator\<close>

definition BytewiseCompare :: "bytes \<Rightarrow> bytes \<Rightarrow> int" where
  "BytewiseCompare a b = Slice_compare a b"

text \<open>The loop that advances \<^verbatim>\<open>diff_index\<close> over the common prefix.\<close>

fun diff_index :: "bytes \<Rightarrow> bytes \<Rightarrow> nat" where
  "diff_index (x # xs) (y # ys) = (if x = y then Suc (diff_index xs ys) else 0)"
| "diff_index _ _ = 0"

text \<open>
  \<^verbatim>\<open>diff_byte + 1\<close> is computed in \<^verbatim>\<open>int\<close> after promotion, so it does not wrap there; the
  increment of the character wraps, but only happens below 0xff.
\<close>

definition BytewiseFindShortestSeparator :: "bytes \<Rightarrow> bytes \<Rightarrow> bytes" where
  "BytewiseFindShortestSeparator start limit =
     (let min_length = min (length start) (length limit);
          d = diff_index start limit
      in if d \<ge> min_length then start
         else
           (let diff_byte = start ! d in
            if diff_byte < 0xff \<and> unat diff_byte + 1 < unat (limit ! d)
            then take (d + 1) (start[d := diff_byte + 1])
            else start))"

fun BytewiseFindShortSuccessor :: "bytes \<Rightarrow> bytes" where
  "BytewiseFindShortSuccessor [] = []"
| "BytewiseFindShortSuccessor (byte # key) =
     (if byte \<noteq> 0xff then [byte + 1] else byte # BytewiseFindShortSuccessor key)"

section \<open>The interface\<close>

text \<open>
  What \<^verbatim>\<open>Comparator::Compare\<close> promises: a three-way comparison by a total preorder on the keys
  the comparator is defined on (\<open>valid\<close>: the internal comparator needs the eight-byte tag).
\<close>

locale comparator =
  fixes Compare :: "bytes \<Rightarrow> bytes \<Rightarrow> int"
    and valid :: "bytes \<Rightarrow> bool"
  assumes Compare_self: "valid a \<Longrightarrow> Compare a a = 0"
    and Compare_flip: "valid a \<Longrightarrow> valid b \<Longrightarrow> sgn (Compare b a) = - sgn (Compare a b)"
    and Compare_trans: "valid a \<Longrightarrow> valid b \<Longrightarrow> valid c \<Longrightarrow>
      Compare a b \<le> 0 \<Longrightarrow> Compare b c \<le> 0 \<Longrightarrow> Compare a c \<le> 0"
begin

lemma Compare_less_flip: "valid a \<Longrightarrow> valid b \<Longrightarrow> Compare a b < 0 \<longleftrightarrow> Compare b a > 0"
  using Compare_flip [of a b] by (auto simp: sgn_if split: if_splits)

lemma Compare_le_flip: "valid a \<Longrightarrow> valid b \<Longrightarrow> Compare a b \<le> 0 \<longleftrightarrow> Compare b a \<ge> 0"
  using Compare_flip [of a b] by (auto simp: sgn_if split: if_splits)

lemma Compare_eq_flip: "valid a \<Longrightarrow> valid b \<Longrightarrow> Compare a b = 0 \<longleftrightarrow> Compare b a = 0"
  using Compare_flip [of a b] by (auto simp: sgn_if split: if_splits)

lemma Compare_less_le_trans:
  assumes "valid a" "valid b" "valid c" "Compare a b < 0" "Compare b c \<le> 0"
  shows "Compare a c < 0"
proof (rule ccontr)
  assume "\<not> Compare a c < 0"
  then have "Compare c a \<le> 0" using assms Compare_less_flip [of c a] Compare_le_flip [of c a] by auto
  then have "Compare b a \<le> 0" using assms Compare_trans [of b c a] by auto
  with assms show False using Compare_less_flip [of a b] by auto
qed

lemma Compare_le_less_trans:
  assumes "valid a" "valid b" "valid c" "Compare a b \<le> 0" "Compare b c < 0"
  shows "Compare a c < 0"
proof (rule ccontr)
  assume "\<not> Compare a c < 0"
  then have "Compare c a \<le> 0" using assms Compare_le_flip [of c a] by auto
  then have "Compare c b \<le> 0" using assms Compare_trans [of c a b] by auto
  with assms show False using Compare_less_flip [of b c] by auto
qed

lemma Compare_less_trans:
  "valid a \<Longrightarrow> valid b \<Longrightarrow> valid c \<Longrightarrow> Compare a b < 0 \<Longrightarrow> Compare b c < 0 \<Longrightarrow> Compare a c < 0"
  using Compare_less_le_trans [of a b c] by auto

lemma Compare_irrefl: "valid a \<Longrightarrow> \<not> Compare a a < 0"
  by (simp add: Compare_self)

end

text \<open>
  The index-key helpers: a separator lies in \<open>[start, limit)\<close>, a successor is not smaller than
  the key.
\<close>

locale separating_comparator = comparator +
  fixes FindShortestSeparator :: "bytes \<Rightarrow> bytes \<Rightarrow> bytes"
    and FindShortSuccessor :: "bytes \<Rightarrow> bytes"
  assumes Separator_valid: "valid a \<Longrightarrow> valid b \<Longrightarrow> valid (FindShortestSeparator a b)"
    and Separator_bounds: "valid a \<Longrightarrow> valid b \<Longrightarrow> Compare a b < 0 \<Longrightarrow>
      Compare a (FindShortestSeparator a b) \<le> 0 \<and> Compare (FindShortestSeparator a b) b < 0"
    and Successor_valid: "valid a \<Longrightarrow> valid (FindShortSuccessor a)"
    and Successor_bound: "valid a \<Longrightarrow> Compare a (FindShortSuccessor a) \<le> 0"

section \<open>The bytewise order is the lexicographic order\<close>

lemma memcmp_eq_0: "memcmp xs ys (min (length xs) (length ys)) = 0 \<Longrightarrow>
  take (min (length xs) (length ys)) xs = take (min (length xs) (length ys)) ys"
proof (induction xs arbitrary: ys)
  case (Cons x xs)
  then show ?case by (cases ys) (auto split: if_splits)
qed simp

lemma Slice_compare_Nil [simp]:
  "Slice_compare [] [] = 0" "Slice_compare [] (y # ys) = -1" "Slice_compare (x # xs) [] = 1"
  by (simp_all add: Slice_compare_def)

lemma Slice_compare_Cons [simp]:
  "Slice_compare (x # xs) (y # ys) =
     (if x < y then -1 else if y < x then 1 else Slice_compare xs ys)"
  by (simp add: Slice_compare_def Let_def)

lemma Slice_compare_less: "Slice_compare a b < 0 \<longleftrightarrow> a < b"
proof (induction a arbitrary: b)
  case Nil
  then show ?case by (cases b) auto
next
  case (Cons x a)
  then show ?case by (cases b) auto
qed

lemma Slice_compare_eq: "Slice_compare a b = 0 \<longleftrightarrow> a = b"
proof (induction a arbitrary: b)
  case Nil
  then show ?case by (cases b) auto
next
  case (Cons x a)
  then show ?case by (cases b) auto
qed

lemma Slice_compare_greater: "Slice_compare a b > 0 \<longleftrightarrow> b < a"
  using Slice_compare_less [of a b] Slice_compare_eq [of a b] by auto

lemma Slice_compare_le: "Slice_compare a b \<le> 0 \<longleftrightarrow> a \<le> b"
  using Slice_compare_greater [of a b] by auto

lemma Slice_compare_sgn: "sgn (Slice_compare b a) = - sgn (Slice_compare a b)"
  using Slice_compare_less [of a b] Slice_compare_less [of b a]
    Slice_compare_greater [of a b] Slice_compare_greater [of b a]
  by (auto simp: sgn_if Slice_compare_eq)

lemma memcmp_prefix: "length x \<le> length s \<Longrightarrow> memcmp s x (length x) = 0 \<longleftrightarrow> take (length x) s = x"
proof (induction x arbitrary: s)
  case (Cons b x)
  then show ?case by (cases s) (auto split: if_splits)
qed simp

lemma Slice_starts_with_iff: "Slice_starts_with s x \<longleftrightarrow> (\<exists>t. s = x @ t)"
  by (auto simp: Slice_starts_with_def memcmp_prefix) (metis append_take_drop_id)

lemma Slice_eq_iff: "Slice_eq x y \<longleftrightarrow> x = y"
  by (auto simp: Slice_eq_def memcmp_prefix)

section \<open>Separators and successors\<close>

lemma diff_index_props:
  "take (diff_index a b) a = take (diff_index a b) b \<and>
   diff_index a b \<le> length a \<and> diff_index a b \<le> length b \<and>
   (diff_index a b < length a \<longrightarrow> diff_index a b < length b \<longrightarrow> a ! diff_index a b \<noteq> b ! diff_index a b)"
  by (induction a b rule: diff_index.induct) auto

lemma Bytewise_separator_Cons:
  "BytewiseFindShortestSeparator (x # a) (x # b) = x # BytewiseFindShortestSeparator a b"
  by (simp add: BytewiseFindShortestSeparator_def Let_def)

lemma byte_less_succ: "(x :: byte) < 0xff \<Longrightarrow> x < x + 1"
  by (simp add: word_less_nat_alt unat_word_ariths)

lemma unat_byte_succ: "(x :: byte) < 0xff \<Longrightarrow> unat (x + 1) = unat x + 1"
  by (simp add: word_less_nat_alt unat_word_ariths)

lemma Bytewise_separator_bounds:
  "a < b \<Longrightarrow> a \<le> BytewiseFindShortestSeparator a b \<and> BytewiseFindShortestSeparator a b < b"
proof (induction a b rule: diff_index.induct)
  case (1 x a y b)
  show ?case
  proof (cases "x = y")
    case True
    with 1 show ?thesis by (auto simp: Bytewise_separator_Cons)
  next
    case False
    with 1 show ?thesis
      by (auto simp: BytewiseFindShortestSeparator_def Let_def byte_less_succ less_imp_le
          word_less_nat_alt [of "x + 1" y] unat_byte_succ)
  qed
qed (auto simp: BytewiseFindShortestSeparator_def)

lemma Bytewise_successor_bound: "a \<le> BytewiseFindShortSuccessor a"
proof (induction a)
  case (Cons x a)
  have "unat x < 256" using unsigned_less [of x] by simp
  then have "x \<noteq> 0xff \<Longrightarrow> x < 0xff" by (auto simp: word_less_nat_alt word_unat_eq_iff)
  with Cons show ?case by (auto simp: byte_less_succ)
qed simp

lemma Bytewise_separator_length: "length (BytewiseFindShortestSeparator a b) \<le> length a"
  by (auto simp: BytewiseFindShortestSeparator_def Let_def)

lemma Bytewise_successor_length: "length (BytewiseFindShortSuccessor a) \<le> length a"
  by (induction a) auto

interpretation bytewise: separating_comparator BytewiseCompare "\<lambda>_. True"
  BytewiseFindShortestSeparator BytewiseFindShortSuccessor
proof (unfold_locales, goal_cases)
  case (2 a b)
  show ?case unfolding BytewiseCompare_def by (rule Slice_compare_sgn)
qed (auto simp: BytewiseCompare_def Slice_compare_eq Slice_compare_le Slice_compare_less
    Bytewise_separator_bounds Bytewise_successor_bound)

section \<open>Properties\<close>

text \<open>Comparing two slices with \<open>memcmp\<close> on their common length and then by length is
  comparing them in the lexicographic order of unsigned bytes, and equality and prefix tests
  decide equality and prefixes.\<close>

theorem bytewise_compare_lexicographic:
  "(BytewiseCompare a b < 0 \<longleftrightarrow> a < b) \<and> (BytewiseCompare a b = 0 \<longleftrightarrow> a = b)
   \<and> (BytewiseCompare a b > 0 \<longleftrightarrow> b < a) \<and> (Slice_eq a b \<longleftrightarrow> a = b)
   \<and> (Slice_starts_with a b \<longleftrightarrow> (\<exists>t. a = b @ t))"
  by (simp add: BytewiseCompare_def Slice_compare_less Slice_compare_eq Slice_compare_greater
      Slice_eq_iff Slice_starts_with_iff)

text \<open>The index keys the bytewise comparator invents separate: for \<open>start < limit\<close> the
  separator lies in \<open>[start, limit)\<close>, and the successor of a key is not below it; neither is
  longer than the key it replaces.\<close>

theorem bytewise_separator_correct:
  assumes "BytewiseCompare start limit < 0"
  shows "BytewiseCompare start (BytewiseFindShortestSeparator start limit) \<le> 0
    \<and> BytewiseCompare (BytewiseFindShortestSeparator start limit) limit < 0
    \<and> length (BytewiseFindShortestSeparator start limit) \<le> length start
    \<and> BytewiseCompare key (BytewiseFindShortSuccessor key) \<le> 0
    \<and> length (BytewiseFindShortSuccessor key) \<le> length key"
  using bytewise.Separator_bounds [of start limit] bytewise.Successor_bound [of key] assms
  by (simp add: Bytewise_separator_length Bytewise_successor_length)

theorem bytewise_separator_correct_witness:
  "BytewiseCompare [1, 2, 3] [1, 9] < 0
   \<and> BytewiseFindShortestSeparator [1, 2, 3] [1, 9] = [1, 3]
   \<and> BytewiseCompare [1, 2, 3] (BytewiseFindShortestSeparator [1, 2, 3] [1, 9]) \<le> 0"
proof -
  have "BytewiseCompare [1, 2, 3] [1, 9] < 0" by (simp add: BytewiseCompare_def)
  with bytewise_separator_correct [OF this, of "[]"] show ?thesis
    by (simp add: BytewiseFindShortestSeparator_def Let_def)
qed

end
