(* ===== verification/Logging.thy ===== *)
theory Logging
  imports Comparator Coding
begin

text \<open>
  \<^verbatim>\<open>util/logging.cc\<close> (printing and parsing of decimal numbers, escaping of strings) and
  \<^verbatim>\<open>util/status.cc\<close> with \<^verbatim>\<open>include/leveldb/status.h\<close> (the error values that every fallible
  operation returns). The formats of \<^verbatim>\<open>snprintf\<close> that the sources use are written out.
\<close>

section \<open>Numbers\<close>

text \<open>The digits that the format \<^verbatim>\<open>%llu\<close> prints.\<close>

definition digit :: "nat \<Rightarrow> byte" where
  "digit d = of_nat (48 + d)"

fun decimal :: "nat \<Rightarrow> bytes" where
  "decimal n = (if n < 10 then [digit n] else decimal (n div 10) @ [digit (n mod 10)])"

declare decimal.simps [simp del]

definition AppendNumberTo :: "bytes \<Rightarrow> u64 \<Rightarrow> bytes" where
  "AppendNumberTo s num = s @ decimal (unat num)"

definition NumberToString :: "u64 \<Rightarrow> bytes" where
  "NumberToString num = AppendNumberTo [] num"

text \<open>The digits that \<^verbatim>\<open>%02x\<close> prints for a byte.\<close>

definition hex_digit :: "nat \<Rightarrow> byte" where
  "hex_digit d = (if d < 10 then of_nat (48 + d) else of_nat (87 + d))"

definition hex02 :: "byte \<Rightarrow> bytes" where
  "hex02 c = [hex_digit (unat c div 16), hex_digit (unat c mod 16)]"

fun AppendEscapedStringTo :: "bytes \<Rightarrow> bytes \<Rightarrow> bytes" where
  "AppendEscapedStringTo s [] = s"
| "AppendEscapedStringTo s (c # value) =
     (if 32 \<le> c \<and> c \<le> 126 then AppendEscapedStringTo (s @ [c]) value
      else AppendEscapedStringTo (s @ str [CHR 0x5C, CHR ''x''] @ hex02 c) value)"

definition EscapeString :: "bytes \<Rightarrow> bytes" where
  "EscapeString value = AppendEscapedStringTo [] value"

text \<open>
  \<open>ConsumeDecimalNumber\<close> returns whether it succeeded, the advanced input and the new content of
  \<^verbatim>\<open>*val\<close>, which an overflow leaves as it was.
\<close>

definition kMaxUint64 :: u64 where
  "kMaxUint64 = NOT 0"

fun ConsumeDecimalNumber_loop :: "bytes \<Rightarrow> u64 \<Rightarrow> nat \<Rightarrow> u64 \<Rightarrow> bool \<times> bytes \<times> u64" where
  "ConsumeDecimalNumber_loop [] v digits val = (digits > 0, [], v)"
| "ConsumeDecimalNumber_loop (c # input) v digits val =
     (if 48 \<le> c \<and> c \<le> 57 then
        (let delta = ucast (c - 48) :: u64 in
         if v > kMaxUint64 div 10 \<or> (v = kMaxUint64 div 10 \<and> delta > kMaxUint64 mod 10)
         then (False, c # input, val)
         else ConsumeDecimalNumber_loop input (v * 10 + delta) (digits + 1) val)
      else (digits > 0, c # input, v))"

definition ConsumeDecimalNumber :: "bytes \<Rightarrow> u64 \<Rightarrow> bool \<times> bytes \<times> u64" where
  "ConsumeDecimalNumber input val = ConsumeDecimalNumber_loop input 0 0 val"

section \<open>Status\<close>

text \<open>
  \<^verbatim>\<open>state_\<close> is NULL for success, else a buffer: four bytes of message length, one byte of code,
  the message.
\<close>

type_synonym Status = "bytes option"

definition kOk :: byte where "kOk = 0"
definition kNotFound :: byte where "kNotFound = 1"
definition kCorruption :: byte where "kCorruption = 2"
definition kNotSupported :: byte where "kNotSupported = 3"
definition kInvalidArgument :: byte where "kInvalidArgument = 4"
definition kIOError :: byte where "kIOError = 5"

definition Status_OK :: Status where
  "Status_OK = None"

definition Status_make :: "byte \<Rightarrow> bytes \<Rightarrow> bytes \<Rightarrow> Status" where
  "Status_make code msg msg2 =
     (let len1 = of_nat (length msg) :: u32;
          len2 = of_nat (length msg2) :: u32;
          size = len1 + (if len2 \<noteq> 0 then 2 + len2 else 0)
      in Some (memory_le 4 size @ [code] @ take (unat len1) msg @
               (if len2 \<noteq> 0 then str '': '' @ take (unat len2) msg2 else [])))"

definition NotFound :: "bytes \<Rightarrow> bytes \<Rightarrow> Status" where
  "NotFound msg msg2 = Status_make kNotFound msg msg2"

definition Corruption :: "bytes \<Rightarrow> bytes \<Rightarrow> Status" where
  "Corruption msg msg2 = Status_make kCorruption msg msg2"

definition NotSupported :: "bytes \<Rightarrow> bytes \<Rightarrow> Status" where
  "NotSupported msg msg2 = Status_make kNotSupported msg msg2"

definition InvalidArgument :: "bytes \<Rightarrow> bytes \<Rightarrow> Status" where
  "InvalidArgument msg msg2 = Status_make kInvalidArgument msg msg2"

definition IOError :: "bytes \<Rightarrow> bytes \<Rightarrow> Status" where
  "IOError msg msg2 = Status_make kIOError msg msg2"

definition ok :: "Status \<Rightarrow> bool" where
  "ok s \<longleftrightarrow> s = None"

definition Status_code :: "Status \<Rightarrow> byte" where
  "Status_code s = (case s of None \<Rightarrow> kOk | Some state \<Rightarrow> state ! 4)"

definition IsNotFound :: "Status \<Rightarrow> bool" where
  "IsNotFound s \<longleftrightarrow> Status_code s = kNotFound"

definition IsCorruption :: "Status \<Rightarrow> bool" where
  "IsCorruption s \<longleftrightarrow> Status_code s = kCorruption"

definition IsIOError :: "Status \<Rightarrow> bool" where
  "IsIOError s \<longleftrightarrow> Status_code s = kIOError"

definition CopyState :: "bytes \<Rightarrow> bytes" where
  "CopyState state = (let size = load_le (take 4 state) :: u32 in take (unat size + 5) state)"

definition Status_copy :: "Status \<Rightarrow> Status" where
  "Status_copy s = (case s of None \<Rightarrow> None | Some state \<Rightarrow> Some (CopyState state))"

text \<open>\<^verbatim>\<open>%d\<close> of a character, which is signed.\<close>

definition print_int :: "int \<Rightarrow> bytes" where
  "print_int i = (if i < 0 then str ''-'' @ decimal (nat (- i)) else decimal (nat i))"

definition Status_ToString :: "Status \<Rightarrow> bytes" where
  "Status_ToString s =
     (case s of
        None \<Rightarrow> str ''OK''
      | Some state \<Rightarrow>
          (let c = Status_code s;
               type = (if c = kOk then str ''OK''
                       else if c = kNotFound then str ''NotFound: ''
                       else if c = kCorruption then str ''Corruption: ''
                       else if c = kNotSupported then str ''Not implemented: ''
                       else if c = kInvalidArgument then str ''Invalid argument: ''
                       else if c = kIOError then str ''IO error: ''
                       else str ''Unknown code('' @ print_int (sint c) @ str ''): '');
               length = load_le (take 4 state) :: u32
           in type @ take (unat length) (drop 5 state)))"

section \<open>Lemmas\<close>

lemma decimal_digits: "set (decimal n) \<subseteq> digit ` {..<10}"
proof (induction n rule: decimal.induct)
  case (1 n)
  then show ?case by (cases "n < 10") (auto simp: decimal.simps [of n])
qed

lemma unat_digit: "d < 10 \<Longrightarrow> unat (digit d) = 48 + d"
  unfolding digit_def by (rule unat_of_nat_small) simp

lemma digit_range: "d < 10 \<Longrightarrow> 48 \<le> digit d \<and> digit d \<le> 57"
  by (simp add: word_le_nat_alt unat_digit)

lemma digit_value: "d < 10 \<Longrightarrow> (ucast (digit d - 48) :: u64) = of_nat d"
proof -
  assume d: "d < 10"
  have "digit d - 48 = of_nat d" by (simp add: digit_def)
  with d show ?thesis
    by (simp add: word_unat_eq_iff unsigned_ucast_eq unat_of_nat take_bit_eq_mod)
qed

text \<open>The loop never fails while the number it has read fits into 64 bits.\<close>

lemma Consume_no_overflow:
  assumes "unat v * 10 + d < 2 ^ 64" and "d < 10"
  shows "\<not> (v > kMaxUint64 div 10 \<or> (v = kMaxUint64 div 10 \<and> of_nat d > kMaxUint64 mod 10))"
    and "unat (v * 10 + of_nat d) = unat v * 10 + d"
proof -
  have d: "unat (of_nat d :: u64) = d" using assms(2) by (intro unat_of_nat_small) simp
  have max: "unat (kMaxUint64 div 10) = 1844674407370955161" "unat (kMaxUint64 mod 10) = 5"
    by (simp_all add: kMaxUint64_def unat_div_distrib unat_mod_distrib)
  show "\<not> (v > kMaxUint64 div 10 \<or> (v = kMaxUint64 div 10 \<and> of_nat d > kMaxUint64 mod 10))"
    using assms by (auto simp: word_less_nat_alt max d)
  show "unat (v * 10 + of_nat d) = unat v * 10 + d"
    using assms by (simp add: unat_word_ariths d)
qed

lemma Consume_overflow:
  assumes "unat v * 10 + d \<ge> 2 ^ 64" and "d < 10"
  shows "v > kMaxUint64 div 10 \<or> (v = kMaxUint64 div 10 \<and> of_nat d > kMaxUint64 mod 10)"
proof -
  have d: "unat (of_nat d :: u64) = d" using assms(2) by (intro unat_of_nat_small) simp
  have max: "unat (kMaxUint64 div 10) = 1844674407370955161" "unat (kMaxUint64 mod 10) = 5"
    by (simp_all add: kMaxUint64_def unat_div_distrib unat_mod_distrib)
  show ?thesis using assms by (auto simp: word_less_nat_alt word_unat_eq_iff max d)
qed

text \<open>The number a list of digits denotes, continuing one that has been read already.\<close>

definition digits_value :: "nat \<Rightarrow> nat list \<Rightarrow> nat" where
  "digits_value v ds = foldl (\<lambda>a d. a * 10 + d) v ds"

lemma digits_value_simps [simp]:
  "digits_value v [] = v" "digits_value v (d # ds) = digits_value (v * 10 + d) ds"
  "digits_value v (ds @ [e]) = digits_value v ds * 10 + e"
  by (simp_all add: digits_value_def)

lemma digits_value_ge: "v \<le> digits_value v ds"
proof (induction ds arbitrary: v)
  case (Cons d ds)
  have "v \<le> v * 10 + d" by simp
  also have "\<dots> \<le> digits_value (v * 10 + d) ds" by (rule Cons.IH)
  finally show ?case by simp
qed simp

lemma decimal_as_digits:
  "\<exists>ds. decimal n = map digit ds \<and> ds \<noteq> [] \<and> (\<forall>d \<in> set ds. d < 10) \<and> digits_value 0 ds = n"
proof (induction n rule: decimal.induct)
  case (1 n)
  show ?case
  proof (cases "n < 10")
    case True
    then show ?thesis by (intro exI [of _ "[n]"]) (simp add: decimal.simps)
  next
    case False
    with 1 obtain ds where "decimal (n div 10) = map digit ds" "\<forall>d \<in> set ds. d < 10"
      "digits_value 0 ds = n div 10" by blast
    with False show ?thesis
      by (intro exI [of _ "ds @ [n mod 10]"]) (simp add: decimal.simps [of n])
  qed
qed

lemma Consume_step:
  assumes "unat v * 10 + d < 2 ^ 64" and "d < 10"
  shows "ConsumeDecimalNumber_loop (digit d # rest) v k val
    = ConsumeDecimalNumber_loop rest (v * 10 + of_nat d) (k + 1) val"
  unfolding ConsumeDecimalNumber_loop.simps Let_def digit_value [OF assms(2)]
    if_not_P [OF Consume_no_overflow(1) [OF assms]]
  by (simp add: digit_range assms(2))

lemma Consume_step_overflow:
  assumes "2 ^ 64 \<le> unat v * 10 + d" and "d < 10"
  shows "ConsumeDecimalNumber_loop (digit d # rest) v k val = (False, digit d # rest, val)"
  unfolding ConsumeDecimalNumber_loop.simps Let_def digit_value [OF assms(2)]
    if_P [OF Consume_overflow [OF assms]]
  by (simp add: digit_range assms(2))

lemma Consume_loop_digits:
  "\<forall>d \<in> set ds. d < 10 \<Longrightarrow> digits_value (unat v) ds < 2 ^ 64 \<Longrightarrow>
   ConsumeDecimalNumber_loop (map digit ds @ rest) v k val
   = ConsumeDecimalNumber_loop rest (of_nat (digits_value (unat v) ds)) (k + length ds) val"
proof (induction ds arbitrary: v k)
  case (Cons d ds)
  have small: "unat v * 10 + d < 2 ^ 64"
    using Cons.prems(2) digits_value_ge [of "unat v * 10 + d" ds] by simp
  from Cons.prems(1) have d: "d < 10" by simp
  from Cons.IH [of "v * 10 + of_nat d" "k + 1"] Cons.prems show ?case
    by (simp add: Consume_step [OF small d] Consume_no_overflow(2) [OF small d]
        del: ConsumeDecimalNumber_loop.simps)
qed simp

lemma Consume_loop_overflow:
  "\<forall>d \<in> set ds. d < 10 \<Longrightarrow> 2 ^ 64 \<le> digits_value (unat v) ds \<Longrightarrow>
   \<exists>rest'. ConsumeDecimalNumber_loop (map digit ds @ rest) v k val = (False, rest', val)"
proof (induction ds arbitrary: v k)
  case Nil
  have "unat v < 2 ^ 64" using unsigned_less [of v] by simp
  with Nil show ?case by simp
next
  case (Cons d ds)
  from Cons.prems(1) have d: "d < 10" by simp
  show ?case
  proof (cases "unat v * 10 + d < 2 ^ 64")
    case True
    from Cons.IH [of "v * 10 + of_nat d" "k + 1"] Cons.prems show ?thesis
      by (simp add: Consume_step [OF True d] Consume_no_overflow(2) [OF True d]
          del: ConsumeDecimalNumber_loop.simps)
  next
    case False
    then have "2 ^ 64 \<le> unat v * 10 + d" by simp
    from Consume_step_overflow [OF this d] show ?thesis
      by (simp del: ConsumeDecimalNumber_loop.simps)
  qed
qed

lemma load_le_memory_le32 [simp]: "load_le (memory_le 4 (v :: u32)) = v"
  by (simp add: load_le_memory_le take_bit_word_eq_self)

lemma length_memory_le [simp]: "length (memory_le n v) = n"
  by (simp add: memory_le_def)

lemma Status_make_small:
  assumes "length msg + length msg2 + 2 < 2 ^ 32"
  shows "Status_make c msg msg2 =
    (let tail = (if msg2 = [] then [] else str '': '' @ msg2)
     in Some (memory_le 4 (of_nat (length msg + length tail) :: u32) @ [c] @ msg @ tail))"
proof -
  have l: "unat (of_nat (length msg) :: u32) = length msg" "unat (of_nat (length msg2) :: u32) = length msg2"
    using assms by (auto intro!: unat_of_nat_small)
  then have z: "(of_nat (length msg2) :: u32) = 0 \<longleftrightarrow> msg2 = []"
    by (auto simp del: of_nat_eq_0_iff)
  have two: "length (str '': '') = 2" by (simp add: str_def)
  show ?thesis
  proof (cases "msg2 = []")
    case True
    then show ?thesis unfolding Status_make_def Let_def l(1) by simp
  next
    case False
    then have "(of_nat (length msg) :: u32) + (2 + of_nat (length msg2))
        = of_nat (length msg + length (str '': '' @ msg2))"
      by (simp add: two)
    with False show ?thesis unfolding Status_make_def Let_def l z by simp
  qed
qed

lemma Status_code_make: "Status_code (Status_make c msg msg2) = c"
  by (simp add: Status_code_def Status_make_def Let_def nth_append)

lemma IsCorruption_Corruption [simp]: "IsCorruption (Corruption m m2)"
  by (simp add: IsCorruption_def Corruption_def Status_code_make)

lemma IsNotFound_NotFound [simp]: "IsNotFound (NotFound m m2)"
  by (simp add: IsNotFound_def NotFound_def Status_code_make)

lemma Status_ok_simps [simp]: "ok Status_OK" "ok None" "\<not> ok (Some st)"
  by (simp_all add: ok_def Status_OK_def)

lemma IsCorruption_not_ok: "IsCorruption s \<Longrightarrow> \<not> ok s"
  by (cases s) (auto simp: IsCorruption_def Status_code_def kOk_def kCorruption_def)

lemma Status_errors_not_ok [simp]:
  "\<not> ok (Corruption m m')" "\<not> ok (NotFound m m')" "\<not> ok (IOError m m')"
  "\<not> ok (InvalidArgument m m')" "\<not> ok (NotSupported m m')" "\<not> ok (Status_make c m m')"
  by (simp_all add: ok_def Corruption_def NotFound_def IOError_def InvalidArgument_def
      NotSupported_def Status_make_def Let_def)

section \<open>Properties\<close>

text \<open>A printed 64-bit number followed by anything that is not a digit is parsed back to the
  same number, and the rest of the input is left.\<close>

theorem number_round_trip:
  assumes "rest = [] \<or> hd rest < 48 \<or> 57 < hd rest"
  shows "ConsumeDecimalNumber (NumberToString n @ rest) val = (True, rest, n)"
proof -
  obtain ds where ds: "decimal (unat n) = map digit ds" "ds \<noteq> []" "\<forall>d \<in> set ds. d < 10"
    "digits_value 0 ds = unat n" using decimal_as_digits by blast
  have "unat n < 2 ^ 64" using unsigned_less [of n] by simp
  with ds Consume_loop_digits [OF ds(3), of 0 rest 0 val] assms show ?thesis
    by (cases rest) (auto simp: ConsumeDecimalNumber_def NumberToString_def AppendNumberTo_def)
qed

theorem number_round_trip_witness:
  "ConsumeDecimalNumber (NumberToString 18446744073709551615 @ str ''.log'') 0
   = (True, str ''.log'', 18446744073709551615)"
  by (rule number_round_trip) (simp add: str_def)

text \<open>A decimal number that does not fit into 64 bits is rejected, and the caller's variable
  keeps its old value.\<close>

theorem number_overflow_rejected:
  assumes "\<forall>d \<in> set ds. d < 10" and "2 ^ 64 \<le> digits_value 0 ds"
  shows "\<exists>rest'. ConsumeDecimalNumber (map digit ds @ rest) val = (False, rest', val)"
  using Consume_loop_overflow [OF assms(1), of 0 rest 0 val] assms(2)
  by (simp add: ConsumeDecimalNumber_def)

theorem number_overflow_rejected_witness:
  "\<exists>rest'. ConsumeDecimalNumber (map digit [1,8,4,4,6,7,4,4,0,7,3,7,0,9,5,5,1,6,1,6] @ []) 7
     = (False, rest', 7)"
  by (rule number_overflow_rejected) simp_all

text \<open>An error status prints as its kind, its message and, after a colon, the second message;
  its code is the code it was made with and its copy is equal to it.\<close>

theorem status_message:
  assumes "length msg + length msg2 + 2 < 2 ^ 32"
  shows "Status_ToString (Corruption msg msg2)
      = str ''Corruption: '' @ msg @ (if msg2 = [] then [] else str '': '' @ msg2)
    \<and> Status_ToString (NotFound msg msg2)
      = str ''NotFound: '' @ msg @ (if msg2 = [] then [] else str '': '' @ msg2)
    \<and> Status_ToString (IOError msg msg2)
      = str ''IO error: '' @ msg @ (if msg2 = [] then [] else str '': '' @ msg2)
    \<and> Status_copy (Status_make c msg msg2) = Status_make c msg msg2
    \<and> Status_code (Status_make c msg msg2) = c
    \<and> IsCorruption (Corruption msg msg2) \<and> IsNotFound (NotFound msg msg2)
    \<and> \<not> IsNotFound (Corruption msg msg2) \<and> \<not> ok (Status_make c msg msg2)"
proof -
  let ?tail = "if msg2 = [] then [] else str '': '' @ msg2"
  have tail: "length ?tail \<le> length msg2 + 2" by (simp add: str_def)
  have len: "unat (of_nat (length msg + length ?tail) :: u32) = length msg + length ?tail"
    using assms tail by (intro unat_of_nat_small) (simp del: length_append)
  have shown: "Status_ToString (Status_make c msg msg2) =
      Status_ToString (Some (memory_le 4 (0 :: u32) @ [c])) @ msg @ ?tail" for c
    using len unfolding Status_make_small [OF assms] Let_def Status_ToString_def Status_code_def
    by (simp add: nth_append)
  have cp: "Status_copy (Status_make c msg msg2) = Status_make c msg msg2" for c
    using len unfolding Status_make_small [OF assms] Let_def Status_copy_def CopyState_def
    by simp
  have codes: "Status_code (Some (memory_le 4 (0 :: u32) @ [c])) = c" for c
    by (simp add: Status_code_def nth_append)
  show ?thesis
    unfolding Corruption_def NotFound_def IOError_def shown cp
    by (simp add: Status_ToString_def codes IsCorruption_def IsNotFound_def
        Status_code_make kOk_def kCorruption_def kNotFound_def kIOError_def kNotSupported_def
        kInvalidArgument_def)
qed

theorem status_message_witness:
  "Status_ToString (Corruption (str ''bad'') (str ''x''))
   = str ''Corruption: '' @ str ''bad'' @ str '': '' @ str ''x''"
  using status_message [of "str ''bad''" "str ''x''"] by (simp add: str_def)

end
