(* ===== verification/Bloom.thy ===== *)
theory Bloom
  imports Coding
begin

text \<open>
  The hash function of \<open>util/hash.cc\<close>, the Bloom filter policy of \<open>util/bloom.cc\<close> and the random
  number generator of \<open>util/random.h\<close>. The locale \<open>filter_policy\<close> is the contract of
  \<open>include/leveldb/filter_policy.h\<close> (a filter never misses a key it was built from); the Bloom
  policy is proved to meet it for every number of bits per key.
\<close>

section \<open>Hash\<close>

definition Hash_m :: u32 where
  "Hash_m = 0xc6a4a793"

function Hash_words :: "u32 \<Rightarrow> bytes \<Rightarrow> u32 \<times> bytes" where
  "Hash_words h data =
     (if 4 \<le> length data
      then let w = DecodeFixed32 data;
               h = (h + w) * Hash_m
           in Hash_words (h XOR drop_bit 16 h) (drop 4 data)
      else (h, data))"
  by pat_completeness auto
termination
  by (relation "measure (length \<circ> snd)") auto

declare Hash_words.simps [simp del]

definition Hash_tail :: "u32 \<Rightarrow> bytes \<Rightarrow> u32" where
  "Hash_tail h data =
     (let h = (if length data = 3 then h + push_bit 16 (ucast (data ! 2)) else h);
          h = (if length data = 3 \<or> length data = 2 then h + push_bit 8 (ucast (data ! 1)) else h)
      in if length data = 3 \<or> length data = 2 \<or> length data = 1
         then (let h = (h + ucast (data ! 0)) * Hash_m in h XOR drop_bit 24 h)
         else h)"

definition Hash :: "bytes \<Rightarrow> u32 \<Rightarrow> u32" where
  "Hash data seed =
     (case Hash_words (seed XOR (of_nat (length data) * Hash_m)) data of (h, rest) \<Rightarrow> Hash_tail h rest)"

section \<open>BloomFilterPolicy\<close>

text \<open>
  The constructor multiplies by the double \<open>0.69\<close> and truncates. After the clamp to \<open>1..30\<close> this is
  the integer quotient: up to 43 bits per key the product is at least a hundredth away from an
  integer, and from 44 on both are at least 30.
\<close>

definition Bloom_k :: "nat \<Rightarrow> nat" where
  "Bloom_k bits_per_key =
     (let k = bits_per_key * 69 div 100
      in if k < 1 then 1 else if 30 < k then 30 else k)"

definition BloomHash :: "bytes \<Rightarrow> u32" where
  "BloomHash key = Hash key 0xbc9f1d34"

definition Bloom_delta :: "u32 \<Rightarrow> u32" where
  "Bloom_delta h = drop_bit 17 h OR push_bit 15 h"

definition Bloom_bitpos :: "u32 \<Rightarrow> u64 \<Rightarrow> u32" where
  "Bloom_bitpos h bits = ucast ((ucast h :: u64) mod bits)"

definition Bloom_set_bit :: "bytes \<Rightarrow> nat \<Rightarrow> bytes" where
  "Bloom_set_bit array bitpos =
     array[bitpos div 8 := array ! (bitpos div 8) OR push_bit (bitpos mod 8) 1]"

definition Bloom_test_bit :: "bytes \<Rightarrow> nat \<Rightarrow> bool" where
  "Bloom_test_bit array bitpos \<longleftrightarrow> array ! (bitpos div 8) AND push_bit (bitpos mod 8) 1 \<noteq> 0"

fun Bloom_add_probes :: "nat \<Rightarrow> u64 \<Rightarrow> u32 \<Rightarrow> u32 \<Rightarrow> bytes \<Rightarrow> bytes" where
  "Bloom_add_probes 0 bits delta h array = array"
| "Bloom_add_probes (Suc j) bits delta h array =
     Bloom_add_probes j bits delta (h + delta) (Bloom_set_bit array (unat (Bloom_bitpos h bits)))"

definition Bloom_add_key :: "nat \<Rightarrow> u64 \<Rightarrow> bytes \<Rightarrow> bytes \<Rightarrow> bytes" where
  "Bloom_add_key k bits array key =
     (let h = BloomHash key in Bloom_add_probes k bits (Bloom_delta h) h array)"

definition Bloom_bytes :: "nat \<Rightarrow> nat \<Rightarrow> u64" where
  "Bloom_bytes bits_per_key n =
     (let bits = of_nat n * of_nat bits_per_key :: u64;
          bits = (if bits < 64 then 64 else bits)
      in (bits + 7) div 8)"

definition Bloom_CreateFilter :: "nat \<Rightarrow> bytes list \<Rightarrow> bytes \<Rightarrow> bytes" where
  "Bloom_CreateFilter bits_per_key keys dst =
     (let n = Bloom_bytes bits_per_key (length keys);
          bits = n * 8;
          k = Bloom_k bits_per_key;
          array = replicate (unat n) 0
      in dst @ foldl (Bloom_add_key k bits) array keys @ [of_nat k])"

fun Bloom_match_probes :: "nat \<Rightarrow> u64 \<Rightarrow> u32 \<Rightarrow> u32 \<Rightarrow> bytes \<Rightarrow> bool" where
  "Bloom_match_probes 0 bits delta h array = True"
| "Bloom_match_probes (Suc j) bits delta h array =
     (if \<not> Bloom_test_bit array (unat (Bloom_bitpos h bits)) then False
      else Bloom_match_probes j bits delta (h + delta) array)"

definition Bloom_KeyMayMatch :: "bytes \<Rightarrow> bytes \<Rightarrow> bool" where
  "Bloom_KeyMayMatch key bloom_filter =
     (let len = length bloom_filter
      in if len < 2 then False
         else (let bits = of_nat ((len - 1) * 8) :: u64;
                   k = unat (bloom_filter ! (len - 1))
               in if 30 < k then True
                  else (let h = BloomHash key
                        in Bloom_match_probes k bits (Bloom_delta h) h bloom_filter)))"

section \<open>The contract of a filter policy\<close>

locale filter_policy =
  fixes CreateFilter :: "bytes list \<Rightarrow> bytes \<Rightarrow> bytes"
    and KeyMayMatch :: "bytes \<Rightarrow> bytes \<Rightarrow> bool"
    and admissible :: "bytes list \<Rightarrow> bool"
  assumes CreateFilter_appends: "CreateFilter keys dst = dst @ CreateFilter keys []"
    and KeyMayMatch_CreateFilter:
      "admissible keys \<Longrightarrow> key \<in> set keys \<Longrightarrow> KeyMayMatch key (CreateFilter keys [])"
begin

lemma no_match_not_in:
  assumes "admissible keys" and "\<not> KeyMayMatch key (CreateFilter keys [])"
  shows "key \<notin> set keys"
  using assms KeyMayMatch_CreateFilter by blast

lemma KeyMayMatch_appended:
  assumes "admissible keys" and "key \<in> set keys"
  shows "KeyMayMatch key (drop (length dst) (CreateFilter keys dst))"
  by (subst CreateFilter_appends) (simp add: assms KeyMayMatch_CreateFilter)

end

section \<open>The Bloom policy meets the contract\<close>

lemma length_Bloom_set_bit [simp]: "length (Bloom_set_bit a p) = length a"
  by (simp add: Bloom_set_bit_def)

lemma length_Bloom_add_probes [simp]: "length (Bloom_add_probes k bits d h a) = length a"
  by (induction k bits d h a rule: Bloom_add_probes.induct) simp_all

lemma length_Bloom_add_key [simp]: "length (Bloom_add_key k bits a key) = length a"
  by (simp add: Bloom_add_key_def Let_def)

lemma length_Bloom_add_keys [simp]: "length (foldl (Bloom_add_key k bits) a keys) = length a"
  by (induction keys arbitrary: a) simp_all

lemma Bloom_test_bit_iff: "Bloom_test_bit a p \<longleftrightarrow> bit (a ! (p div 8)) (p mod 8)"
proof -
  have "x AND push_bit n 1 \<noteq> 0 \<longleftrightarrow> bit x n" for x :: byte and n
    by (metis and_exp_eq_0_iff_not_bit push_bit_of_1)
  then show ?thesis by (simp add: Bloom_test_bit_def)
qed

lemma Bloom_test_set_bit:
  assumes "p div 8 < length a"
  shows "Bloom_test_bit (Bloom_set_bit a p) q \<longleftrightarrow> q = p \<or> Bloom_test_bit a q"
proof (cases "q div 8 = p div 8")
  case True
  then have "q mod 8 = p mod 8 \<longleftrightarrow> q = p" by (metis div_mult_mod_eq)
  with True assms show ?thesis
    by (auto simp: Bloom_test_bit_iff Bloom_set_bit_def bit_simps)
next
  case False
  with assms show ?thesis
    by (auto simp: Bloom_test_bit_iff Bloom_set_bit_def)
qed

text \<open>The probe positions of a hash value lie in the array when \<open>bits\<close> is eight times its length.\<close>

lemma unat_Bloom_bitpos:
  assumes "unat bits = 8 * n" and "0 < n"
  shows "unat (Bloom_bitpos h bits) div 8 < n"
proof -
  have "unat (Bloom_bitpos h bits) \<le> unat ((ucast h :: u64) mod bits)"
    unfolding Bloom_bitpos_def unsigned_ucast_eq by (rule take_bit_nat_less_eq_self)
  also have "\<dots> < unat bits"
    using assms by (simp add: unat_mod)
  finally show ?thesis using assms(1) by (simp add: less_mult_imp_div_less mult.commute)
qed

lemma Bloom_add_probes_keeps:
  assumes "unat bits = 8 * length a" and "0 < length a" and "Bloom_test_bit a q"
  shows "Bloom_test_bit (Bloom_add_probes k bits d h a) q"
  using assms
  by (induction k bits d h a rule: Bloom_add_probes.induct)
    (simp_all add: Bloom_test_set_bit unat_Bloom_bitpos)

lemma Bloom_match_probes_mono:
  assumes "Bloom_match_probes k bits d h a" and "\<And>q. Bloom_test_bit a q \<Longrightarrow> Bloom_test_bit b q"
  shows "Bloom_match_probes k bits d h b"
  using assms by (induction k bits d h a rule: Bloom_match_probes.induct) (auto split: if_splits)

lemma Bloom_match_add_probes:
  assumes "unat bits = 8 * length a" and "0 < length a"
  shows "Bloom_match_probes k bits d h (Bloom_add_probes k bits d h a)"
  using assms
  by (induction k bits d h a rule: Bloom_add_probes.induct)
    (simp_all add: Bloom_add_probes_keeps Bloom_test_set_bit unat_Bloom_bitpos)

lemma Bloom_add_keys_keeps:
  assumes "unat bits = 8 * length a" and "0 < length a" and "Bloom_test_bit a q"
  shows "Bloom_test_bit (foldl (Bloom_add_key k bits) a keys) q"
  using assms
proof (induction keys arbitrary: a)
  case (Cons key keys)
  have "Bloom_test_bit (Bloom_add_key k bits a key) q"
    using Cons.prems by (simp add: Bloom_add_key_def Let_def Bloom_add_probes_keeps)
  with Cons.IH [of "Bloom_add_key k bits a key"] Cons.prems show ?case by simp
qed simp

lemma Bloom_match_add_keys:
  assumes "unat bits = 8 * length a" and "0 < length a" and "key \<in> set keys"
  shows "Bloom_match_probes k bits (Bloom_delta (BloomHash key)) (BloomHash key)
    (foldl (Bloom_add_key k bits) a keys)"
proof -
  obtain xs ys where keys: "keys = xs @ key # ys" using assms(3) by (meson split_list)
  let ?a = "foldl (Bloom_add_key k bits) a xs"
  have "Bloom_match_probes k bits (Bloom_delta (BloomHash key)) (BloomHash key)
      (Bloom_add_key k bits ?a key)"
    using Bloom_match_add_probes [of bits ?a] assms(1,2) by (simp add: Bloom_add_key_def Let_def)
  then show ?thesis
    unfolding keys foldl_append foldl.simps
    using assms(1,2) by (elim Bloom_match_probes_mono) (rule Bloom_add_keys_keeps; simp)
qed

text \<open>The trailing byte of the filter is never probed.\<close>

lemma Bloom_match_probes_append:
  assumes "unat bits = 8 * length a" and "0 < length a"
  shows "Bloom_match_probes k bits d h (a @ b) = Bloom_match_probes k bits d h a"
proof (induction k arbitrary: h)
  case (Suc k)
  have "Bloom_test_bit (a @ b) (unat (Bloom_bitpos h bits)) = Bloom_test_bit a (unat (Bloom_bitpos h bits))"
    using unat_Bloom_bitpos [OF assms] by (simp add: Bloom_test_bit_def nth_append)
  with Suc show ?case by simp
qed simp

lemma Bloom_bytes_bounds:
  assumes "n < 2 ^ 31" and "bits_per_key < 2 ^ 31"
  shows "8 \<le> unat (Bloom_bytes bits_per_key n)" and "unat (Bloom_bytes bits_per_key n) < 2 ^ 60"
proof -
  define b where "b = n * bits_per_key"
  have "b \<le> 2 ^ 31 * 2 ^ 31" unfolding b_def using assms by (intro mult_le_mono) simp_all
  then have b: "b \<le> 2 ^ 62" by simp
  define w where "w = (of_nat b :: u64)"
  have w: "unat w = b" unfolding w_def using b by (intro unat_of_nat_small) simp
  define v where "v = (if w < 64 then 64 else w)"
  have v: "unat v = max 64 b"
    using w by (auto simp: v_def word_less_nat_alt)
  then have "unat (v + 7) = max 64 b + 7"
    using b by (simp add: unat_word_ariths take_bit_eq_mod)
  moreover have "Bloom_bytes bits_per_key n = (v + 7) div 8"
    by (simp add: Bloom_bytes_def Let_def v_def w_def b_def)
  ultimately have "unat (Bloom_bytes bits_per_key n) = (max 64 b + 7) div 8"
    by (simp add: unat_div)
  then show "8 \<le> unat (Bloom_bytes bits_per_key n)" and "unat (Bloom_bytes bits_per_key n) < 2 ^ 60"
    using b by auto
qed

lemma Bloom_k_bounds: "1 \<le> Bloom_k b \<and> Bloom_k b \<le> 30"
  by (simp add: Bloom_k_def Let_def)

lemma Bloom_no_false_negatives:
  assumes "length keys < 2 ^ 31" and "bits_per_key < 2 ^ 31" and "key \<in> set keys"
  shows "Bloom_KeyMayMatch key (Bloom_CreateFilter bits_per_key keys [])"
proof -
  define n where "n = Bloom_bytes bits_per_key (length keys)"
  define a where "a = foldl (Bloom_add_key (Bloom_k bits_per_key) (n * 8)) (replicate (unat n) 0) keys"
  have n: "8 \<le> unat n" "unat n < 2 ^ 60"
    unfolding n_def using Bloom_bytes_bounds [OF assms(1,2)] by simp_all
  have len: "length a = unat n" by (simp add: a_def)
  have bits: "unat (n * 8) = 8 * length a" "of_nat (unat n * 8) = n * 8"
    using n len by (simp_all add: unat_word_ariths take_bit_eq_mod)
  have "Bloom_match_probes (Bloom_k bits_per_key) (n * 8) (Bloom_delta (BloomHash key)) (BloomHash key) a"
    unfolding a_def using bits n len by (intro Bloom_match_add_keys assms(3)) (simp_all add: a_def)
  moreover have "unat (of_nat (Bloom_k bits_per_key) :: byte) = Bloom_k bits_per_key"
    using Bloom_k_bounds [of bits_per_key] by (intro unat_of_nat_small) simp
  moreover have "Bloom_CreateFilter bits_per_key keys [] = a @ [of_nat (Bloom_k bits_per_key)]"
    by (simp add: Bloom_CreateFilter_def Let_def a_def n_def)
  ultimately show ?thesis
    using n len bits Bloom_k_bounds [of bits_per_key]
    by (simp add: Bloom_KeyMayMatch_def Let_def nth_append Bloom_match_probes_append del: of_nat_mult)
qed

interpretation bloom: filter_policy "Bloom_CreateFilter bits_per_key" Bloom_KeyMayMatch
  "\<lambda>keys. length keys < 2 ^ 31 \<and> bits_per_key < 2 ^ 31" for bits_per_key
  by unfold_locales (simp_all add: Bloom_no_false_negatives, simp add: Bloom_CreateFilter_def Let_def)

section \<open>Random\<close>

definition Random_init :: "u32 \<Rightarrow> u32" where
  "Random_init s =
     (let seed = s AND 0x7fffffff in if seed = 0 \<or> seed = 2147483647 then 1 else seed)"

definition Random_Next :: "u32 \<Rightarrow> u32" where
  "Random_Next seed =
     (let product = ucast seed * 16807 :: u64;
          seed = ucast (drop_bit 31 product + (product AND 2147483647)) :: u32
      in if 2147483647 < seed then seed - 2147483647 else seed)"

definition Random_Uniform :: "u32 \<Rightarrow> nat \<Rightarrow> u32 \<times> u32" where
  "Random_Uniform seed n = (let seed = Random_Next seed in (seed, seed mod of_nat n))"

definition Random_OneIn :: "u32 \<Rightarrow> nat \<Rightarrow> u32 \<times> bool" where
  "Random_OneIn seed n = (let seed = Random_Next seed in (seed, seed mod of_nat n = 0))"

definition Random_Skewed :: "u32 \<Rightarrow> nat \<Rightarrow> u32 \<times> u32" where
  "Random_Skewed seed max_log =
     (case Random_Uniform seed (max_log + 1) of
        (seed, base) \<Rightarrow> Random_Uniform seed (2 ^ unat base))"

lemma mersenne_fold:
  assumes "p = q * 2 ^ 31 + r"
  shows "p mod 2147483647 = (q + r) mod (2147483647 :: nat)"
proof -
  have "p = (q + r) + 2147483647 * q" using assms by simp
  then show ?thesis by (simp only: mod_mult_self2)
qed

lemma Lehmer_not_dvd:
  assumes "0 < n" and "n < 2147483647"
  shows "\<not> 2147483647 dvd n * (16807 :: nat)"
proof
  assume "2147483647 dvd n * 16807"
  moreover have "coprime (2147483647 :: nat) 16807"
    by (simp add: coprime_iff_gcd_eq_1 gcd_non_0_nat)
  ultimately have "2147483647 dvd n" by (simp add: coprime_dvd_mult_left_iff)
  with assms show False by (simp add: nat_dvd_not_less)
qed

lemma Random_Next_mod:
  assumes "0 < unat seed" and "unat seed < 2147483647"
  shows "unat (Random_Next seed) = unat seed * 16807 mod 2147483647"
proof -
  define p where "p = unat seed * 16807"
  define q where "q = p div 2 ^ 31"
  define r where "r = p mod 2 ^ 31"
  have p: "p = q * 2 ^ 31 + r" by (simp add: q_def r_def)
  have bounds: "q < 16807" "r < 2 ^ 31" "p < 2 ^ 64"
    using assms(2) by (simp_all add: p_def q_def r_def less_mult_imp_div_less)
  define product where "product = (ucast seed * 16807 :: u64)"
  have product: "unat product = p"
    unfolding product_def using bounds(3)
    by (simp add: unat_word_ariths unsigned_ucast_eq p_def take_bit_eq_mod)
  have "unat (drop_bit 31 product) = q"
    by (simp add: unat_drop_bit_div product q_def)
  moreover have "unat (product AND 2147483647) = r"
  proof -
    have "product AND 2147483647 = take_bit 31 product"
      by (simp add: take_bit_eq_mask mask_numeral)
    then show ?thesis by (simp add: take_bit_eq_mod unat_mod product r_def)
  qed
  ultimately have "unat (drop_bit 31 product + (product AND 2147483647)) = q + r"
    using bounds by (simp add: unat_word_ariths take_bit_eq_mod)
  then have s: "unat (ucast (drop_bit 31 product + (product AND 2147483647)) :: u32) = q + r"
    using bounds by (simp add: unsigned_ucast_eq take_bit_eq_mod)
  have res: "unat (Random_Next seed) = (if 2147483647 < q + r then q + r - 2147483647 else q + r)"
    using s by (auto simp: Random_Next_def product_def [symmetric] Let_def word_less_nat_alt
        unat_sub word_le_nat_alt)
  have "p mod 2147483647 \<noteq> 0"
    using Lehmer_not_dvd [OF assms] by (simp add: p_def dvd_eq_mod_eq_0)
  with mersenne_fold [OF p] have "q + r \<noteq> 2147483647" by auto
  with res bounds mersenne_fold [OF p] show ?thesis
    by (cases "2147483647 < q + r") (simp_all add: p_def [symmetric] le_mod_geq)
qed

lemma Random_Next_nonzero:
  assumes "0 < unat seed" and "unat seed < 2147483647"
  shows "0 < unat (Random_Next seed) \<and> unat (Random_Next seed) < 2147483647"
  using Random_Next_mod [OF assms] Lehmer_not_dvd [OF assms] by (simp add: dvd_eq_mod_eq_0)

lemma Random_init_bounds: "0 < unat (Random_init s) \<and> unat (Random_init s) < 2147483647"
proof -
  have "s AND 0x7fffffff \<le> 0x7fffffff" by (rule word_and_le1)
  then have "unat (s AND 0x7fffffff) \<le> 2147483647" by (simp add: word_le_nat_alt)
  moreover have "unat (s AND 0x7fffffff) = 2147483647 \<longleftrightarrow> s AND 0x7fffffff = 2147483647"
    using unat_eq_nat_uint by (auto simp: word_unat_eq_iff)
  ultimately show ?thesis by (auto simp: Random_init_def Let_def unat_gt_0 le_less)
qed

section \<open>Properties\<close>

text \<open>C32: a Bloom filter has no false negatives: for every number of bits per key and every list of
  keys a C++ \<open>int\<close> can count, the bytes \<open>CreateFilter\<close> appends to \<open>dst\<close> match each key the filter
  was built from.\<close>

theorem bloom_no_false_negatives:
  assumes "length keys < 2 ^ 31" and "bits_per_key < 2 ^ 31" and "key \<in> set keys"
  shows "Bloom_KeyMayMatch key (drop (length dst) (Bloom_CreateFilter bits_per_key keys dst))"
  using assms by (intro bloom.KeyMayMatch_appended) simp_all

theorem bloom_no_false_negatives_witness:
  "Bloom_KeyMayMatch (str ''b'') (drop 0 (Bloom_CreateFilter 10 [str ''a'', str ''b''] []))"
  using bloom_no_false_negatives [of "[str ''a'', str ''b'']" 10 "str ''b''" "[]"] by simp

text \<open>The generator computes \<open>seed * 16807 mod (2\<^sup>31 - 1)\<close> with its shift-and-add reduction, and
  never reaches the absorbing seeds \<open>0\<close> and \<open>2\<^sup>31 - 1\<close>: the constructor avoids them and every
  number of steps keeps clear of them.\<close>

theorem random_next_is_lehmer:
  "let seed = (Random_Next ^^ n) (Random_init s)
   in 0 < unat seed \<and> unat seed < 2 ^ 31 - 1 \<and>
      unat (Random_Next seed) = unat seed * 16807 mod (2 ^ 31 - 1)"
proof -
  have "0 < unat ((Random_Next ^^ n) (Random_init s)) \<and> unat ((Random_Next ^^ n) (Random_init s)) < 2147483647"
    by (induction n) (simp_all add: Random_init_bounds Random_Next_nonzero)
  then show ?thesis by (simp add: Let_def Random_Next_mod)
qed

end
