(* ===== verification/Arena.thy ===== *)
theory Arena
  imports Prelude
begin

text \<open>
  The bump allocator below the memtable, \<open>util/arena.h\<close> and \<open>util/arena.cc\<close>. Addresses and sizes are
  64-bit words and their sums wrap around; \<open>new char[n]\<close> is a function of the blocks that are live,
  \<open>None\<close> when it throws, and what the standard promises of it is \<open>operator_new_ok\<close>. Whatever is
  allocated, no two allocations overlap, each lies in one block of the arena, and aligned ones are
  aligned, as long as no request is within seven bytes of \<open>2 ^ 64\<close>: there \<open>bytes + slop\<close> wraps.
\<close>

section \<open>Operations\<close>

text \<open>\<open>blocks_\<close> holds the pointers; the sizes passed to \<open>new\<close> are kept beside them.\<close>

record Arena =
  alloc_ptr :: u64
  alloc_bytes_remaining :: u64
  arena_blocks :: "(u64 \<times> u64) list"
  memory_usage :: u64

type_synonym operator_new = "(u64 \<times> u64) list \<Rightarrow> u64 \<Rightarrow> u64 option"

definition kArenaBlockSize :: u64 where
  "kArenaBlockSize = 4096"

definition Arena_new :: Arena where
  "Arena_new = \<lparr> alloc_ptr = 0, alloc_bytes_remaining = 0, arena_blocks = [], memory_usage = 0 \<rparr>"

definition MemoryUsage :: "Arena \<Rightarrow> u64" where
  "MemoryUsage a = memory_usage a"

definition AllocateNewBlock :: "operator_new \<Rightarrow> Arena \<Rightarrow> u64 \<Rightarrow> (u64 \<times> Arena) option" where
  "AllocateNewBlock New a block_bytes =
     map_option (\<lambda>result.
       (result, a\<lparr> arena_blocks := arena_blocks a @ [(result, block_bytes)],
                   memory_usage := MemoryUsage a + block_bytes + 8 \<rparr>))
       (New (arena_blocks a) block_bytes)"

definition AllocateFallback :: "operator_new \<Rightarrow> Arena \<Rightarrow> u64 \<Rightarrow> (u64 \<times> Arena) option" where
  "AllocateFallback New a bytes =
     (if bytes > kArenaBlockSize div 4 then AllocateNewBlock New a bytes
      else map_option (\<lambda>(block, a).
             (block, a\<lparr> alloc_ptr := block + bytes, alloc_bytes_remaining := kArenaBlockSize - bytes \<rparr>))
             (AllocateNewBlock New a kArenaBlockSize))"

definition Allocate :: "operator_new \<Rightarrow> Arena \<Rightarrow> u64 \<Rightarrow> (u64 \<times> Arena) option" where
  "Allocate New a bytes =
     (if bytes \<le> alloc_bytes_remaining a
      then Some (alloc_ptr a, a\<lparr> alloc_ptr := alloc_ptr a + bytes, alloc_bytes_remaining := alloc_bytes_remaining a - bytes \<rparr>)
      else AllocateFallback New a bytes)"

text \<open>\<open>align\<close> is 8, the larger of 8 and the size of a pointer.\<close>

definition AllocateAligned :: "operator_new \<Rightarrow> Arena \<Rightarrow> u64 \<Rightarrow> (u64 \<times> Arena) option" where
  "AllocateAligned New a bytes =
     (let current_mod = alloc_ptr a AND (8 - 1);
          slop = (if current_mod = 0 then 0 else 8 - current_mod);
          needed = bytes + slop
      in if needed \<le> alloc_bytes_remaining a
         then Some (alloc_ptr a + slop,
               a\<lparr> alloc_ptr := alloc_ptr a + needed, alloc_bytes_remaining := alloc_bytes_remaining a - needed \<rparr>)
         else AllocateFallback New a bytes)"

section \<open>Requests\<close>

datatype request = Plain u64 | Aligned u64

primrec request_bytes :: "request \<Rightarrow> u64" where
  "request_bytes (Plain n) = n"
| "request_bytes (Aligned n) = n"

primrec serve :: "operator_new \<Rightarrow> Arena \<Rightarrow> request \<Rightarrow> (u64 \<times> Arena) option" where
  "serve New a (Plain n) = Allocate New a n"
| "serve New a (Aligned n) = AllocateAligned New a n"

text \<open>The regions handed out until a request throws, and the arena then.\<close>

fun serve_all :: "operator_new \<Rightarrow> Arena \<Rightarrow> request list \<Rightarrow> (u64 \<times> u64) list \<times> Arena" where
  "serve_all New a [] = ([], a)"
| "serve_all New a (r # rs) =
     (case serve New a r of
        None \<Rightarrow> ([], a)
      | Some (p, a) \<Rightarrow> (let (ps, a) = serve_all New a rs in ((p, request_bytes r) # ps, a)))"

section \<open>The invariant\<close>

text \<open>Regions of memory, by the numbers their addresses stand for.\<close>

definition apart :: "u64 \<times> u64 \<Rightarrow> u64 \<times> u64 \<Rightarrow> bool" where
  "apart r s \<longleftrightarrow> unat (fst r) + unat (snd r) \<le> unat (fst s) \<or> unat (fst s) + unat (snd s) \<le> unat (fst r)"

definition inside :: "u64 \<times> u64 \<Rightarrow> u64 \<times> u64 \<Rightarrow> bool" where
  "inside r b \<longleftrightarrow> unat (fst b) \<le> unat (fst r) \<and> unat (fst r) + unat (snd r) \<le> unat (fst b) + unat (snd b)"

text \<open>What C++ promises of \<open>new char[n]\<close> when it returns: an aligned block that ends within the address space,
  apart from the live ones.\<close>

definition operator_new_ok :: "operator_new \<Rightarrow> bool" where
  "operator_new_ok New \<longleftrightarrow> (\<forall>live n p. New live n = Some p \<longrightarrow>
     8 dvd unat p \<and> unat p + unat n < 2 ^ 64 \<and> (\<forall>b \<in> set live. apart (p, n) b))"

definition arena_free :: "Arena \<Rightarrow> u64 \<times> u64" where
  "arena_free a = (alloc_ptr a, alloc_bytes_remaining a)"

text \<open>With the regions \<open>rs\<close> handed out so far.\<close>

definition arena_ok :: "Arena \<Rightarrow> (u64 \<times> u64) list \<Rightarrow> bool" where
  "arena_ok a rs \<longleftrightarrow>
     (\<forall>b \<in> set (arena_blocks a). unat (fst b) + unat (snd b) < 2 ^ 64) \<and>
     (\<forall>r \<in> set rs. (\<exists>b \<in> set (arena_blocks a). inside r b) \<and> (0 < alloc_bytes_remaining a \<longrightarrow> apart r (arena_free a))) \<and>
     (0 < alloc_bytes_remaining a \<longrightarrow> (\<exists>b \<in> set (arena_blocks a). inside (arena_free a) b)) \<and>
     sorted_wrt apart rs \<and> memory_usage a = (\<Sum>b \<leftarrow> arena_blocks a. snd b + 8)"

lemma arena_ok_new: "arena_ok Arena_new []"
  by (simp add: arena_ok_def Arena_new_def)

lemma apart_inside: "apart b c \<Longrightarrow> inside r b \<Longrightarrow> inside s c \<Longrightarrow> apart r s"
  by (auto simp: apart_def inside_def)

lemma inside_self: "inside r r"
  by (simp add: inside_def)

lemma inside_trans: "inside r s \<Longrightarrow> inside s b \<Longrightarrow> inside r b"
  by (simp add: inside_def)

lemma apart_sym: "apart r s \<Longrightarrow> apart s r"
  by (auto simp: apart_def)

lemma unat_add_small: "unat (x :: u64) + unat y < 2 ^ 64 \<Longrightarrow> unat (x + y) = unat x + unat y"
  by (simp add: unat_word_ariths)

lemma unat_pos: "0 < (x :: u64) \<longleftrightarrow> 0 < unat x"
  by (simp add: word_less_nat_alt)

text \<open>Taking the front of the free space, after a gap.\<close>

lemma arena_ok_bump:
  assumes "arena_ok a rs" and "0 < n" and "unat n + unat gap < 2 ^ 64" and "n + gap \<le> alloc_bytes_remaining a"
  shows "arena_ok (a\<lparr> alloc_ptr := alloc_ptr a + (n + gap), alloc_bytes_remaining := alloc_bytes_remaining a - (n + gap) \<rparr>)
    (rs @ [(alloc_ptr a + gap, n)])"
proof -
  let ?a = "a\<lparr> alloc_ptr := alloc_ptr a + (n + gap), alloc_bytes_remaining := alloc_bytes_remaining a - (n + gap) \<rparr>"
  have sum: "unat (n + gap) = unat n + unat gap" by (rule unat_add_small [OF assms(3)])
  have le: "unat n + unat gap \<le> unat (alloc_bytes_remaining a)" using assms(4) by (simp add: word_le_nat_alt sum)
  have pos: "0 < alloc_bytes_remaining a" using assms(2) le by (simp add: unat_pos)
  obtain b where b: "b \<in> set (arena_blocks a)" "inside (arena_free a) b" using assms(1) pos by (auto simp: arena_ok_def)
  then have fits: "unat (alloc_ptr a) + unat (alloc_bytes_remaining a) < 2 ^ 64"
    using assms(1) by (fastforce simp: arena_ok_def inside_def arena_free_def)
  have ptr: "unat (alloc_ptr a + (n + gap)) = unat (alloc_ptr a) + (unat n + unat gap)"
    "unat (alloc_ptr a + gap) = unat (alloc_ptr a) + unat gap"
    using fits le by (auto simp: unat_add_small sum)
  have rest: "unat (alloc_bytes_remaining a - (n + gap)) = unat (alloc_bytes_remaining a) - (unat n + unat gap)"
    using assms(4) by (simp add: unat_sub sum)
  have part: "inside (alloc_ptr a + gap, n) (arena_free a)" "inside (arena_free ?a) (arena_free a)"
    "apart (alloc_ptr a + gap, n) (arena_free ?a)"
    using le ptr rest by (auto simp: arena_free_def inside_def apart_def)
  have rs: "\<forall>r \<in> set rs. apart r (arena_free a)" using assms(1) pos by (simp add: arena_ok_def)
  have "inside (alloc_ptr a + gap, n) b" "inside (arena_free ?a) b" using inside_trans b(2) part(1,2) by blast+
  moreover have "\<forall>r \<in> set rs. apart r (alloc_ptr a + gap, n) \<and> apart r (arena_free ?a)"
    using rs part(1,2) inside_self by (meson apart_inside)
  ultimately show ?thesis using assms(1) b(1) part(3) by (auto simp: arena_ok_def sorted_wrt_append)
qed

lemma arena_ok_block:
  assumes "operator_new_ok New" and "arena_ok a rs" and "New (arena_blocks a) n = Some p"
  shows "\<forall>r \<in> set rs. apart r (p, n)" and "0 < alloc_bytes_remaining a \<Longrightarrow> apart (p, n) (arena_free a)"
    and "8 dvd unat p" and "unat p + unat n < 2 ^ 64"
proof -
  have new: "8 dvd unat p" "unat p + unat n < 2 ^ 64" "\<forall>b \<in> set (arena_blocks a). apart (p, n) b"
    using assms(1,3) by (auto simp: operator_new_ok_def)
  show "8 dvd unat p" "unat p + unat n < 2 ^ 64" by (rule new)+
  show "\<forall>r \<in> set rs. apart r (p, n)"
    using assms(2) new(3) inside_self unfolding arena_ok_def by (meson apart_inside apart_sym)
  show "0 < alloc_bytes_remaining a \<Longrightarrow> apart (p, n) (arena_free a)"
    using assms(2) new(3) inside_self unfolding arena_ok_def by (meson apart_inside)
qed

lemma AllocateFallback_ok:
  assumes "operator_new_ok New" and "arena_ok a rs" and "0 < n" and "AllocateFallback New a n = Some (p, a')"
  shows "arena_ok a' (rs @ [(p, n)])" and "8 dvd unat p"
proof -
  have "arena_ok a' (rs @ [(p, n)]) \<and> 8 dvd unat p"
  proof (cases "n > kArenaBlockSize div 4")
    case True
    with assms(4) have eq: "New (arena_blocks a) n = Some p"
        "a' = a\<lparr> arena_blocks := arena_blocks a @ [(p, n)], memory_usage := memory_usage a + n + 8 \<rparr>"
      by (auto simp: AllocateFallback_def AllocateNewBlock_def MemoryUsage_def)
    with arena_ok_block [OF assms(1,2) eq(1)] assms(2) show ?thesis
      by (auto simp: arena_ok_def arena_free_def sorted_wrt_append inside_def)
  next
    case False
    from False assms(4) have eq: "New (arena_blocks a) kArenaBlockSize = Some p"
        "a' = a\<lparr> alloc_ptr := p + n, alloc_bytes_remaining := kArenaBlockSize - n,
        arena_blocks := arena_blocks a @ [(p, kArenaBlockSize)], memory_usage := memory_usage a + kArenaBlockSize + 8 \<rparr>"
      by (auto simp: AllocateFallback_def AllocateNewBlock_def MemoryUsage_def)
    note b = arena_ok_block [OF assms(1,2) eq(1)]
    have "unat n \<le> 1024" using False by (simp add: kArenaBlockSize_def word_le_nat_alt not_less)
    then have n: "unat n < 4096" "n \<le> kArenaBlockSize" by (auto simp: kArenaBlockSize_def word_le_nat_alt)
    have k: "unat kArenaBlockSize = 4096" by (simp add: kArenaBlockSize_def)
    have w: "unat (p + n) = unat p + unat n" "unat (kArenaBlockSize - n) = 4096 - unat n"
      using n b(4) k by (auto simp: unat_add_small unat_sub)
    have "\<forall>r \<in> set rs. apart r (p, n) \<and> apart r (p + n, kArenaBlockSize - n)"
      using b(1) n(1) w k by (auto simp: apart_def)
    with b n w k assms(2) eq(2) show ?thesis
      by (auto simp: arena_ok_def arena_free_def sorted_wrt_append inside_def apart_def)
  qed
  then show "arena_ok a' (rs @ [(p, n)])" and "8 dvd unat p" by auto
qed

lemma slop_aligns:
  fixes p :: u64
  defines "slop \<equiv> if p AND (8 - 1) = 0 then 0 else 8 - (p AND (8 - 1))"
  shows "unat slop < 8" and "8 dvd unat p + unat slop"
proof -
  have "p AND (8 - 1) = take_bit 3 p" by (simp add: take_bit_eq_mask mask_eq_exp_minus_1)
  then have m: "unat (p AND (8 - 1)) = unat p mod 8" by (simp only: unsigned_take_bit_eq) (simp add: take_bit_eq_mod)
  then have "unat slop = (if unat p mod 8 = 0 then 0 else 8 - unat p mod 8)"
    by (auto simp: slop_def unat_sub word_le_nat_alt unat_eq_zero)
  then show "unat slop < 8" "8 dvd unat p + unat slop" by presburger+
qed

lemma serve_ok:
  assumes "operator_new_ok New" and "arena_ok a rs" and "0 < request_bytes r" and "unat (request_bytes r) + 7 < 2 ^ 64"
    and "serve New a r = Some (p, a')"
  shows "arena_ok a' (rs @ [(p, request_bytes r)])" and "\<And>n. r = Aligned n \<Longrightarrow> 8 dvd unat p"
proof -
  have "arena_ok a' (rs @ [(p, request_bytes r)]) \<and> (\<forall>n. r = Aligned n \<longrightarrow> 8 dvd unat p)"
  proof (cases r)
    case (Plain n)
    with assms arena_ok_bump [OF assms(2), of n 0] AllocateFallback_ok(1) [OF assms(1,2), of n p a'] show ?thesis
      by (auto simp: Allocate_def split: if_splits)
  next
    case (Aligned n)
    define slop where "slop = (if alloc_ptr a AND (8 - 1) = 0 then 0 else 8 - (alloc_ptr a AND (8 - 1)))"
    note al = slop_aligns [of "alloc_ptr a", folded slop_def]
    show ?thesis
    proof (cases "n + slop \<le> alloc_bytes_remaining a")
      case True
      then have eq: "p = alloc_ptr a + slop" "a' = a\<lparr> alloc_ptr := alloc_ptr a + (n + slop),
          alloc_bytes_remaining := alloc_bytes_remaining a - (n + slop) \<rparr>"
        using assms(5) Aligned by (auto simp: AllocateAligned_def Let_def slop_def)
      have small: "unat n + unat slop < 2 ^ 64" using assms(4) al(1) Aligned by simp
      have ok: "arena_ok a' (rs @ [(p, n)])"
        unfolding eq using assms(2,3) small True Aligned by (intro arena_ok_bump) simp_all
      then have "\<exists>b \<in> set (arena_blocks a'). inside (p, n) b \<and> unat (fst b) + unat (snd b) < 2 ^ 64"
        by (auto simp: arena_ok_def)
      have "unat (alloc_ptr a + slop) = unat (alloc_ptr a) + unat slop"
      proof (rule unat_add_small)
        have "0 < alloc_bytes_remaining a"
          using True assms(3) Aligned small by (auto simp: unat_pos word_le_nat_alt unat_add_small)
        then obtain b where "b \<in> set (arena_blocks a)" "inside (arena_free a) b"
          using assms(2) by (auto simp: arena_ok_def)
        then have "unat (alloc_ptr a) + unat (alloc_bytes_remaining a) < 2 ^ 64"
          using assms(2) by (fastforce simp: arena_ok_def inside_def arena_free_def)
        moreover have "unat slop \<le> unat (alloc_bytes_remaining a)"
          using True small by (simp add: word_le_nat_alt unat_add_small)
        ultimately show "unat (alloc_ptr a) + unat slop < 2 ^ 64" by simp
      qed
      with ok al(2) eq(1) Aligned show ?thesis by simp
    next
      case False
      then have "AllocateFallback New a n = Some (p, a')"
        using assms(5) unfolding Aligned serve.simps AllocateAligned_def Let_def slop_def [symmetric] by simp
      with Aligned assms(3) AllocateFallback_ok [OF assms(1,2), of n p a'] show ?thesis by auto
    qed
  qed
  then show "arena_ok a' (rs @ [(p, request_bytes r)])" and "\<And>n. r = Aligned n \<Longrightarrow> 8 dvd unat p" by auto
qed

text \<open>The requests served before one throws.\<close>

lemma serve_all_ok:
  assumes "operator_new_ok New" and "arena_ok a rs"
    and "\<forall>q \<in> set qs. 0 < request_bytes q \<and> unat (request_bytes q) + 7 < 2 ^ 64" and "serve_all New a qs = (ps, a')"
  shows "arena_ok a' (rs @ ps) \<and> length ps \<le> length qs \<and>
    list_all2 (\<lambda>q p. snd p = request_bytes q \<and> (q = Aligned (snd p) \<longrightarrow> 8 dvd unat (fst p))) (take (length ps) qs) ps \<and>
    (length ps < length qs \<longrightarrow> serve New a' (qs ! length ps) = None)"
  using assms(2-4)
proof (induction qs arbitrary: a rs ps)
  case (Cons q qs)
  show ?case
  proof (cases "serve New a q")
    case None
    with Cons.prems show ?thesis by auto
  next
    case (Some pa)
    obtain p a1 where s: "serve New a q = Some (p, a1)" using Some by (cases pa) auto
    obtain ps' where ps: "serve_all New a1 qs = (ps', a')" "ps = (p, request_bytes q) # ps'"
      using Cons.prems(3) s by (auto split: prod.splits)
    have q: "0 < request_bytes q" "unat (request_bytes q) + 7 < 2 ^ 64" using Cons.prems(2) by auto
    note ok = serve_ok [OF assms(1) Cons.prems(1) q s]
    from Cons.IH [OF ok(1) _ ps(1)] Cons.prems(2) ok(2) ps(2)
    show ?thesis by auto
  qed
qed simp

section \<open>Properties\<close>

text \<open>C34: whatever sequence of allocations a client of the arena makes, with whatever allocator below it, the
  memory handed out is sound. The requests are served in order until \<open>new\<close> throws; every allocation
  has the size asked for, lies in one block of the arena, overlaps no other allocation, and starts
  at a multiple of eight when it was asked aligned; the memory usage is the size of the blocks and
  one pointer for each. Requests are not empty, and smaller than \<open>2 ^ 64 - 7\<close> bytes: for a larger one the
  64-bit sum of size and padding wraps around.\<close>

theorem arena_allocations_sound:
  assumes "operator_new_ok New" and "\<forall>q \<in> set qs. 0 < request_bytes q \<and> unat (request_bytes q) + 7 < 2 ^ 64"
    and "serve_all New Arena_new qs = (ps, a)"
  shows "map snd ps = map request_bytes (take (length ps) qs) \<and>
    (length ps < length qs \<longrightarrow> serve New a (qs ! length ps) = None) \<and>
    sorted_wrt apart ps \<and> (\<forall>p \<in> set ps. \<exists>b \<in> set (arena_blocks a). inside p b) \<and>
    (\<forall>i < length ps. (case qs ! i of Aligned n \<Rightarrow> 8 dvd unat (fst (ps ! i)) | Plain n \<Rightarrow> True)) \<and>
    MemoryUsage a = (\<Sum>b \<leftarrow> arena_blocks a. snd b + 8)"
proof -
  have ok: "arena_ok a ps" and len: "length ps \<le> length qs"
    and l: "list_all2 (\<lambda>q p. snd p = request_bytes q \<and> (q = Aligned (snd p) \<longrightarrow> 8 dvd unat (fst p))) (take (length ps) qs) ps"
    and stop: "length ps < length qs \<longrightarrow> serve New a (qs ! length ps) = None"
    using serve_all_ok [OF assms(1) arena_ok_new assms(2,3)] by simp_all
  from l have "map snd ps = map request_bytes (take (length ps) qs)" by induction auto
  moreover have "\<forall>i < length ps. (case qs ! i of Aligned n \<Rightarrow> 8 dvd unat (fst (ps ! i)) | Plain n \<Rightarrow> True)"
    using list_all2_nthD [OF l] len by (auto split: request.splits)
  ultimately show ?thesis using ok stop by (auto simp: arena_ok_def MemoryUsage_def)
qed

text \<open>An allocator that meets the promise: it hands out a single block, then throws.\<close>

definition one_block_new :: operator_new where
  "one_block_new live n = (if live = [] \<and> n \<le> 65536 then Some 4096 else None)"

lemma one_block_new_ok: "operator_new_ok one_block_new"
  by (auto simp: operator_new_ok_def one_block_new_def word_le_nat_alt split: if_splits)

theorem arena_allocations_sound_witness:
  "let (ps, a) = serve_all one_block_new Arena_new [Plain 3, Aligned 16, Plain 5000, Aligned 1024]
   in map snd ps = [3, 16] \<and> sorted_wrt apart ps \<and> MemoryUsage a = 4104"
proof -
  let ?qs = "[Plain 3, Aligned 16, Plain 5000, Aligned 1024]"
  have run: "serve_all one_block_new Arena_new ?qs =
    ([(4096, 3), (4104, 16)], \<lparr> alloc_ptr = 4120, alloc_bytes_remaining = 4072, arena_blocks = [(4096, 4096)], memory_usage = 4104 \<rparr>)"
    by code_simp
  have "\<forall>q \<in> set ?qs. 0 < request_bytes q \<and> unat (request_bytes q) + 7 < 2 ^ 64" by simp
  from arena_allocations_sound [OF one_block_new_ok this run] run show ?thesis by simp
qed

end
