(* ===== verification/Dbformat.thy ===== *)
theory Dbformat
  imports Comparator Logging Bloom
begin

text \<open>
  Internal keys, \<open>db/dbformat.h\<close> and \<open>db/dbformat.cc\<close>: a user key followed by eight bytes that pack
  a 56-bit sequence number and the value type. The internal comparator orders by user key and then
  by decreasing tag. Every user comparator that meets its contract gives an internal comparator
  that meets the same contract on keys of at least eight bytes (a \<open>sublocale\<close>), and the same holds
  for filter policies.
\<close>

section \<open>Constants and types\<close>

definition kNumLevels :: nat where "kNumLevels = 7"
definition kL0_CompactionTrigger :: nat where "kL0_CompactionTrigger = 4"
definition kL0_SlowdownWritesTrigger :: nat where "kL0_SlowdownWritesTrigger = 8"
definition kL0_StopWritesTrigger :: nat where "kL0_StopWritesTrigger = 12"
definition kMaxMemCompactLevel :: nat where "kMaxMemCompactLevel = 2"
definition kReadBytesPeriod :: nat where "kReadBytesPeriod = 1048576"

datatype ValueType = kTypeDeletion | kTypeValue

definition ValueType_code :: "ValueType \<Rightarrow> u64" where
  "ValueType_code t = (case t of kTypeDeletion \<Rightarrow> 0 | kTypeValue \<Rightarrow> 1)"

definition kValueTypeForSeek :: ValueType where
  "kValueTypeForSeek = kTypeValue"

definition kMaxSequenceNumber :: u64 where
  "kMaxSequenceNumber = push_bit 56 1 - 1"

record ParsedInternalKey =
  user_key :: bytes
  sequence :: u64
  type :: ValueType

section \<open>Encoding\<close>

definition PackSequenceAndType :: "u64 \<Rightarrow> ValueType \<Rightarrow> u64" where
  "PackSequenceAndType seq t = push_bit 8 seq OR ValueType_code t"

definition InternalKeyEncodingLength :: "ParsedInternalKey \<Rightarrow> nat" where
  "InternalKeyEncodingLength key = length (user_key key) + 8"

definition AppendInternalKey :: "bytes \<Rightarrow> ParsedInternalKey \<Rightarrow> bytes" where
  "AppendInternalKey result key =
     PutFixed64 (result @ user_key key) (PackSequenceAndType (sequence key) (type key))"

definition ExtractUserKey :: "bytes \<Rightarrow> bytes" where
  "ExtractUserKey internal_key = take (length internal_key - 8) internal_key"

definition ExtractTag :: "bytes \<Rightarrow> u64" where
  "ExtractTag internal_key = DecodeFixed64 (drop (length internal_key - 8) internal_key)"

definition ExtractValueType :: "bytes \<Rightarrow> byte" where
  "ExtractValueType internal_key = ucast (ExtractTag internal_key AND 0xff)"

definition ParseInternalKey :: "bytes \<Rightarrow> ParsedInternalKey option" where
  "ParseInternalKey internal_key =
     (if length internal_key < 8 then None
      else (let num = ExtractTag internal_key;
                c = ucast (num AND 0xff) :: byte
            in if c \<le> 1
               then Some \<lparr> user_key = ExtractUserKey internal_key,
                           sequence = drop_bit 8 num,
                           type = (if c = 0 then kTypeDeletion else kTypeValue) \<rparr>
               else None))"

type_synonym InternalKey = bytes

definition InternalKey_make :: "bytes \<Rightarrow> u64 \<Rightarrow> ValueType \<Rightarrow> InternalKey" where
  "InternalKey_make u s t = AppendInternalKey [] \<lparr> user_key = u, sequence = s, type = t \<rparr>"

definition InternalKey_SetFrom :: "ParsedInternalKey \<Rightarrow> InternalKey" where
  "InternalKey_SetFrom p = AppendInternalKey [] p"

definition ParsedInternalKey_DebugString :: "ParsedInternalKey \<Rightarrow> bytes" where
  "ParsedInternalKey_DebugString p =
     str [CHR 0x27] @ EscapeString (user_key p) @ str [CHR 0x27] @ str '' @ '' @
     decimal (unat (sequence p)) @ str '' : '' @ decimal (unat (ValueType_code (type p)))"

definition InternalKey_DebugString :: "InternalKey \<Rightarrow> bytes" where
  "InternalKey_DebugString rep =
     (case ParseInternalKey rep of
        Some parsed \<Rightarrow> ParsedInternalKey_DebugString parsed
      | None \<Rightarrow> str ''(bad)'' @ EscapeString rep)"

section \<open>InternalKeyComparator\<close>

definition InternalKeyCompare :: "(bytes \<Rightarrow> bytes \<Rightarrow> int) \<Rightarrow> bytes \<Rightarrow> bytes \<Rightarrow> int" where
  "InternalKeyCompare Compare akey bkey =
     (let r = Compare (ExtractUserKey akey) (ExtractUserKey bkey)
      in if r = 0
         then (let anum = ExtractTag akey; bnum = ExtractTag bkey
               in if bnum < anum then - 1 else if anum < bnum then 1 else r)
         else r)"

definition InternalKeyFindShortestSeparator ::
  "(bytes \<Rightarrow> bytes \<Rightarrow> int) \<Rightarrow> (bytes \<Rightarrow> bytes \<Rightarrow> bytes) \<Rightarrow> bytes \<Rightarrow> bytes \<Rightarrow> bytes" where
  "InternalKeyFindShortestSeparator Compare FindShortestSeparator start limit =
     (let user_start = ExtractUserKey start;
          user_limit = ExtractUserKey limit;
          tmp = FindShortestSeparator user_start user_limit
      in if length tmp < length user_start \<and> Compare user_start tmp < 0
         then PutFixed64 tmp (PackSequenceAndType kMaxSequenceNumber kValueTypeForSeek)
         else start)"

definition InternalKeyFindShortSuccessor ::
  "(bytes \<Rightarrow> bytes \<Rightarrow> int) \<Rightarrow> (bytes \<Rightarrow> bytes) \<Rightarrow> bytes \<Rightarrow> bytes" where
  "InternalKeyFindShortSuccessor Compare FindShortSuccessor key =
     (let user_key = ExtractUserKey key;
          tmp = FindShortSuccessor user_key
      in if length tmp < length user_key \<and> Compare user_key tmp < 0
         then PutFixed64 tmp (PackSequenceAndType kMaxSequenceNumber kValueTypeForSeek)
         else key)"

section \<open>InternalFilterPolicy\<close>

definition InternalCreateFilter :: "(bytes list \<Rightarrow> bytes \<Rightarrow> bytes) \<Rightarrow> bytes list \<Rightarrow> bytes \<Rightarrow> bytes" where
  "InternalCreateFilter CreateFilter keys dst = CreateFilter (map ExtractUserKey keys) dst"

definition InternalKeyMayMatch :: "(bytes \<Rightarrow> bytes \<Rightarrow> bool) \<Rightarrow> bytes \<Rightarrow> bytes \<Rightarrow> bool" where
  "InternalKeyMayMatch KeyMayMatch key f = KeyMayMatch (ExtractUserKey key) f"

section \<open>LookupKey\<close>

text \<open>
  The characters from \<open>start_\<close> to \<open>end_\<close>, and the distance of \<open>kstart_\<close> from \<open>start_\<close>. \<open>needed\<close> is the
  size of the buffer the constructor writes into when the key is long.
\<close>

record LookupKey =
  space :: bytes
  kstart :: nat
  needed :: nat

definition LookupKey_make :: "bytes \<Rightarrow> u64 \<Rightarrow> LookupKey" where
  "LookupKey_make ukey s =
     (let usize = length ukey;
          prefix = EncodeVarint32 (of_nat (usize + 8))
      in \<lparr> space = prefix @ ukey @ EncodeFixed64 (PackSequenceAndType s kValueTypeForSeek),
           kstart = length prefix,
           needed = usize + 13 \<rparr>)"

definition LookupKey_memtable_key :: "LookupKey \<Rightarrow> bytes" where
  "LookupKey_memtable_key k = space k"

definition LookupKey_internal_key :: "LookupKey \<Rightarrow> bytes" where
  "LookupKey_internal_key k = drop (kstart k) (space k)"

definition LookupKey_user_key :: "LookupKey \<Rightarrow> bytes" where
  "LookupKey_user_key k = take (length (space k) - kstart k - 8) (drop (kstart k) (space k))"

section \<open>Tags\<close>

lemma unat_ValueType_code: "unat (ValueType_code t) < 256"
  by (cases t) (simp_all add: ValueType_code_def)

lemma ValueType_code_inject [simp]: "ValueType_code s = ValueType_code t \<longleftrightarrow> s = t"
  by (cases s; cases t) (simp_all add: ValueType_code_def)

lemma kMaxSequenceNumber_eq: "kMaxSequenceNumber = 0xffffffffffffff"
  by (simp add: kMaxSequenceNumber_def)

lemma unat_PackSequenceAndType:
  assumes "seq \<le> kMaxSequenceNumber"
  shows "unat (PackSequenceAndType seq t) = unat seq * 256 + unat (ValueType_code t)"
proof -
  have s: "unat seq < 2 ^ 56"
    using assms by (simp add: kMaxSequenceNumber_eq word_le_nat_alt)
  have disj: "push_bit 8 seq AND ValueType_code t = 0"
    by (rule bit_eqI) (cases t; auto simp: ValueType_code_def bit_simps)
  have "PackSequenceAndType seq t = push_bit 8 seq + ValueType_code t"
    unfolding PackSequenceAndType_def using disj by (simp add: disjunctive_add_eq_or)
  moreover have "unat (push_bit 8 seq) = unat seq * 256"
    using s by (simp add: push_bit_eq_mult unat_word_ariths take_bit_eq_mod)
  ultimately show ?thesis
    using s unat_ValueType_code [of t] by (simp add: unat_word_ariths take_bit_eq_mod)
qed

lemma PackSequenceAndType_type:
  "ucast (PackSequenceAndType seq t AND 0xff) = (ucast (ValueType_code t) :: byte)"
  by (rule bit_eqI) (cases t; auto simp: PackSequenceAndType_def ValueType_code_def byte_bits)

lemma PackSequenceAndType_seq:
  assumes "seq \<le> kMaxSequenceNumber"
  shows "drop_bit 8 (PackSequenceAndType seq t) = seq"
proof -
  have "unat (drop_bit 8 (PackSequenceAndType seq t)) = unat seq"
    using unat_ValueType_code [of t] by (simp add: unat_drop_bit_div unat_PackSequenceAndType assms)
  then show ?thesis by (simp add: word_unat_eq_iff)
qed

lemma PackSequenceAndType_split:
  assumes "ucast (num AND 0xff) = (ucast (ValueType_code t) :: byte)"
  shows "PackSequenceAndType (drop_bit 8 num) t = num"
proof (rule bit_eqI)
  fix n assume n: "possible_bit TYPE(u64) n"
  have low: "bit num n = bit (ValueType_code t) n" if "n < 8"
  proof -
    have "bit (ucast (num AND 0xff) :: byte) n = bit (ucast (ValueType_code t) :: byte) n"
      by (simp add: assms)
    then show ?thesis using that n by (simp add: byte_bits)
  qed
  have "\<not> bit (ValueType_code t) n" if "8 \<le> n"
    using that by (cases t) (auto simp: ValueType_code_def bit_simps)
  with low n show "bit (PackSequenceAndType (drop_bit 8 num) t) n = bit num n"
    by (cases "n < 8") (auto simp: PackSequenceAndType_def bit_simps)
qed

section \<open>Parsing and printing internal keys\<close>

lemma ExtractUserKey_append [simp]: "length t = 8 \<Longrightarrow> ExtractUserKey (u @ t) = u"
  by (simp add: ExtractUserKey_def)

lemma ExtractTag_append [simp]: "length t = 8 \<Longrightarrow> ExtractTag (u @ t) = DecodeFixed64 t"
  by (simp add: ExtractTag_def)

lemma AppendInternalKey_eq:
  "AppendInternalKey r p = r @ user_key p @ EncodeFixed64 (PackSequenceAndType (sequence p) (type p))"
  by (simp add: AppendInternalKey_def PutFixed64_def)

lemma InternalKey_make_eq:
  "InternalKey_make u s t = u @ EncodeFixed64 (PackSequenceAndType s t)"
  by (simp add: InternalKey_make_def AppendInternalKey_eq)

lemma length_InternalKey_make [simp]: "length (InternalKey_make u s t) = length u + 8"
  by (simp add: InternalKey_make_eq)

lemma ExtractUserKey_make [simp]: "ExtractUserKey (InternalKey_make u s t) = u"
  by (simp add: InternalKey_make_eq)

lemma ExtractTag_make [simp]: "ExtractTag (InternalKey_make u s t) = PackSequenceAndType s t"
  by (simp add: InternalKey_make_eq)

lemma internal_key_split:
  assumes "8 \<le> length k"
  shows "k = ExtractUserKey k @ EncodeFixed64 (ExtractTag k)"
  using assms by (simp add: ExtractUserKey_def ExtractTag_def EncodeFixed64_Decode)

lemma ParseInternalKey_make:
  assumes "s \<le> kMaxSequenceNumber"
  shows "ParseInternalKey (InternalKey_make u s t) = Some \<lparr> user_key = u, sequence = s, type = t \<rparr>"
  by (cases t)
    (simp_all add: ParseInternalKey_def PackSequenceAndType_type PackSequenceAndType_seq assms
      ValueType_code_def)

lemma ParseInternalKey_Some:
  assumes "ParseInternalKey k = Some p"
  shows "k = InternalKey_make (user_key p) (sequence p) (type p)"
    and "8 \<le> length k" and "sequence p \<le> kMaxSequenceNumber"
proof -
  let ?num = "ExtractTag k"
  show len: "8 \<le> length k" using assms by (auto simp: ParseInternalKey_def split: if_splits)
  from assms len have c: "(ucast (?num AND 0xff) :: byte) \<le> 1"
    and p: "p = \<lparr> user_key = ExtractUserKey k, sequence = drop_bit 8 ?num,
      type = (if (ucast (?num AND 0xff) :: byte) = 0 then kTypeDeletion else kTypeValue) \<rparr>"
    by (auto simp: ParseInternalKey_def Let_def split: if_splits)
  from c have "(ucast (?num AND 0xff) :: byte) = 0 \<or> (ucast (?num AND 0xff) :: byte) = 1"
    by (metis le_less word_less_1)
  then have "ucast (?num AND 0xff) = (ucast (ValueType_code (type p)) :: byte)"
    by (auto simp: p ValueType_code_def)
  then have "PackSequenceAndType (sequence p) (type p) = ?num"
    using PackSequenceAndType_split by (simp add: p)
  then show "k = InternalKey_make (user_key p) (sequence p) (type p)"
    using internal_key_split [OF len] by (simp add: InternalKey_make_eq p)
  have "unat ?num < 2 ^ 64" using unsigned_less [of ?num] by simp
  then have "unat (drop_bit 8 ?num) \<le> 2 ^ 56 - 1"
    by (simp add: unat_drop_bit_div less_mult_imp_div_less flip: less_eq_Suc_le)
  then show "sequence p \<le> kMaxSequenceNumber"
    by (simp add: p kMaxSequenceNumber_eq word_le_nat_alt)
qed

section \<open>The internal comparator\<close>

locale user_comparator = separating_comparator Compare "\<lambda>_. True" FindShortestSeparator FindShortSuccessor
  for Compare FindShortestSeparator FindShortSuccessor +
  assumes Separator_unchanged: "0 \<le> Compare a b \<Longrightarrow> FindShortestSeparator a b = a"
begin

lemma internal_less_iff:
  "InternalKeyCompare Compare a b < 0 \<longleftrightarrow>
     Compare (ExtractUserKey a) (ExtractUserKey b) < 0 \<or>
     Compare (ExtractUserKey a) (ExtractUserKey b) = 0 \<and> ExtractTag b < ExtractTag a"
  by (auto simp: InternalKeyCompare_def Let_def)

lemma internal_le_iff:
  "InternalKeyCompare Compare a b \<le> 0 \<longleftrightarrow>
     Compare (ExtractUserKey a) (ExtractUserKey b) < 0 \<or>
     Compare (ExtractUserKey a) (ExtractUserKey b) = 0 \<and> ExtractTag b \<le> ExtractTag a"
  by (auto simp: InternalKeyCompare_def Let_def)

lemma internal_self: "InternalKeyCompare Compare a a = 0"
  by (simp add: InternalKeyCompare_def Let_def Compare_self)

lemma internal_flip:
  "sgn (InternalKeyCompare Compare b a) = - sgn (InternalKeyCompare Compare a b)"
  using Compare_flip [of "ExtractUserKey a" "ExtractUserKey b"]
  by (auto simp: InternalKeyCompare_def Let_def sgn_if split: if_splits)

lemma internal_trans:
  assumes "InternalKeyCompare Compare a b \<le> 0" and "InternalKeyCompare Compare b c \<le> 0"
  shows "InternalKeyCompare Compare a c \<le> 0"
proof -
  let ?ab = "Compare (ExtractUserKey a) (ExtractUserKey b)"
  let ?bc = "Compare (ExtractUserKey b) (ExtractUserKey c)"
  let ?ac = "Compare (ExtractUserKey a) (ExtractUserKey c)"
  have le: "?ab \<le> 0" "?bc \<le> 0" using assms by (auto simp: internal_le_iff)
  then have "?ac \<le> 0" using Compare_trans by blast
  moreover have "?ac < 0" if "?ab < 0 \<or> ?bc < 0"
    using that le Compare_less_le_trans Compare_le_less_trans by blast
  ultimately show ?thesis using assms by (auto simp: internal_le_iff)
qed

lemma internal_separator:
  assumes "InternalKeyCompare Compare a b < 0"
  defines "s \<equiv> InternalKeyFindShortestSeparator Compare FindShortestSeparator a b"
  shows "InternalKeyCompare Compare a s \<le> 0 \<and> InternalKeyCompare Compare s b < 0"
proof (cases "Compare (ExtractUserKey a) (ExtractUserKey b) < 0")
  case True
  let ?t = "FindShortestSeparator (ExtractUserKey a) (ExtractUserKey b)"
  have t: "Compare ?t (ExtractUserKey b) < 0" using Separator_bounds True by simp
  show ?thesis
    using assms(1) t
    by (auto simp: s_def InternalKeyFindShortestSeparator_def Let_def internal_self
        internal_less_iff internal_le_iff PutFixed64_def Compare_self)
next
  case False
  then have "FindShortestSeparator (ExtractUserKey a) (ExtractUserKey b) = ExtractUserKey a"
    by (intro Separator_unchanged) simp
  then have "s = a" by (simp add: s_def InternalKeyFindShortestSeparator_def Let_def)
  with assms(1) show ?thesis by (simp add: internal_self)
qed

lemma internal_successor:
  "InternalKeyCompare Compare a (InternalKeyFindShortSuccessor Compare FindShortSuccessor a) \<le> 0"
  by (auto simp: InternalKeyFindShortSuccessor_def Let_def Compare_self internal_le_iff PutFixed64_def)

end

sublocale user_comparator \<subseteq> icmp: separating_comparator "InternalKeyCompare Compare"
  "\<lambda>k. 8 \<le> length k" "InternalKeyFindShortestSeparator Compare FindShortestSeparator"
  "InternalKeyFindShortSuccessor Compare FindShortSuccessor"
proof (unfold_locales, goal_cases)
  case (2 a b)
  show ?case by (rule internal_flip)
next
  case (3 a b c)
  then show ?case using internal_trans by blast
next
  case (5 a b)
  then show ?case using internal_separator by blast
next
  case (7 a)
  show ?case by (rule internal_successor)
qed (simp_all add: internal_self InternalKeyFindShortestSeparator_def
    InternalKeyFindShortSuccessor_def Let_def PutFixed64_def)

lemma Bytewise_separator_unchanged:
  "0 \<le> BytewiseCompare a b \<Longrightarrow> BytewiseFindShortestSeparator a b = a"
  unfolding BytewiseCompare_def
proof (induction a b rule: diff_index.induct)
  case (1 x a y b)
  then show ?case
    by (cases "x = y") (auto simp: Bytewise_separator_Cons BytewiseFindShortestSeparator_def Let_def
        word_less_nat_alt split: if_splits)
qed (auto simp: BytewiseFindShortestSeparator_def)

interpretation bytewise_user: user_comparator BytewiseCompare BytewiseFindShortestSeparator
  BytewiseFindShortSuccessor
  by unfold_locales (rule Bytewise_separator_unchanged)

section \<open>The internal filter policy\<close>

locale user_filter_policy = filter_policy

sublocale user_filter_policy \<subseteq> internal: filter_policy "InternalCreateFilter CreateFilter"
  "InternalKeyMayMatch KeyMayMatch" "\<lambda>keys. admissible (map ExtractUserKey keys)"
proof (unfold_locales, goal_cases)
  case (1 keys dst)
  show ?case unfolding InternalCreateFilter_def by (rule CreateFilter_appends)
next
  case (2 keys key)
  then show ?case by (simp add: InternalCreateFilter_def InternalKeyMayMatch_def KeyMayMatch_CreateFilter)
qed

interpretation bloom_user: user_filter_policy "Bloom_CreateFilter bits_per_key" Bloom_KeyMayMatch
  "\<lambda>keys. length keys < 2 ^ 31 \<and> bits_per_key < 2 ^ 31" for bits_per_key
  by unfold_locales

section \<open>LookupKey\<close>

lemma LookupKey_views:
  "LookupKey_internal_key (LookupKey_make u s) = InternalKey_make u s kValueTypeForSeek"
  "LookupKey_user_key (LookupKey_make u s) = u"
  by (simp_all add: LookupKey_internal_key_def LookupKey_user_key_def LookupKey_make_def Let_def
      InternalKey_make_eq)

lemma LookupKey_memtable_key_eq:
  assumes "length u + 8 < 2 ^ 32"
  shows "LookupKey_memtable_key (LookupKey_make u s) =
    varint (length u + 8) @ InternalKey_make u s kValueTypeForSeek"
proof -
  have "unat (of_nat (length u + 8) :: u32) = length u + 8"
    using assms by (intro unat_of_nat_small) simp
  then show ?thesis
    unfolding LookupKey_memtable_key_def LookupKey_make_def Let_def EncodeVarint32_varint
    by (simp only: LookupKey.simps InternalKey_make_eq)
qed

lemma LookupKey_fits: "length (space (LookupKey_make u s)) \<le> needed (LookupKey_make u s)"
proof -
  have "length (EncodeVarint32 v) \<le> 5" for v
    using length_varint_le [OF unat_u32_bound] by (simp add: EncodeVarint32_varint)
  then show ?thesis by (simp add: LookupKey_make_def Let_def)
qed

section \<open>Properties\<close>

text \<open>Internal keys round trip in both directions: parsing what \<open>AppendInternalKey\<close> wrote gives
  the user key, sequence number and type back, for every sequence number of at most 56 bits, and a
  key that parses is exactly the encoding of what was parsed.\<close>

theorem internal_key_round_trip:
  assumes "sequence p \<le> kMaxSequenceNumber"
  shows "ParseInternalKey (AppendInternalKey [] p) = Some p \<and>
    (\<forall>k q. ParseInternalKey k = Some q \<longrightarrow> AppendInternalKey [] q = k)"
  using assms ParseInternalKey_make [of "sequence p" "user_key p" "type p"] ParseInternalKey_Some
  by (auto simp: InternalKey_make_eq AppendInternalKey_eq)

theorem internal_key_round_trip_witness:
  "ParseInternalKey (AppendInternalKey [] \<lparr> user_key = str ''k'', sequence = 7, type = kTypeDeletion \<rparr>) =
     Some \<lparr> user_key = str ''k'', sequence = 7, type = kTypeDeletion \<rparr>"
  using internal_key_round_trip [of "\<lparr> user_key = str ''k'', sequence = 7, type = kTypeDeletion \<rparr>"]
  by (simp add: kMaxSequenceNumber_eq)

text \<open>The internal comparator sorts by increasing user key, then by decreasing sequence number,
  then by decreasing type (a value before a deletion).\<close>

theorem internal_key_order:
  assumes "s \<le> kMaxSequenceNumber" and "s' \<le> kMaxSequenceNumber"
  shows "InternalKeyCompare BytewiseCompare (InternalKey_make u s t) (InternalKey_make u' s' t') < 0 \<longleftrightarrow>
    u < u' \<or> u = u' \<and> (s' < s \<or> s = s' \<and> t = kTypeValue \<and> t' = kTypeDeletion)"
proof -
  have "PackSequenceAndType s' t' < PackSequenceAndType s t \<longleftrightarrow>
      s' < s \<or> s = s' \<and> t = kTypeValue \<and> t' = kTypeDeletion"
    unfolding word_less_nat_alt unat_PackSequenceAndType [OF assms(1)] unat_PackSequenceAndType [OF assms(2)]
    by (cases t; cases t') (auto simp: ValueType_code_def word_unat_eq_iff)
  then show ?thesis
    by (simp add: bytewise_user.internal_less_iff BytewiseCompare_def Slice_compare_less Slice_compare_eq)
qed

theorem internal_key_order_witness:
  "InternalKeyCompare BytewiseCompare (InternalKey_make [1] 9 kTypeDeletion) (InternalKey_make [1] 5 kTypeValue) < 0"
  using internal_key_order [of 9 5 "[1]" kTypeDeletion "[1]" kTypeValue] by (simp add: kMaxSequenceNumber_eq)

text \<open>C30: the index keys of a table of internal keys separate its blocks: whenever \<open>start\<close> is below
  \<open>limit\<close> in the internal order, the shortened separator is at least \<open>start\<close>, below \<open>limit\<close>, and
  still an internal key of at least eight bytes; the short successor is not below its key.\<close>

theorem internal_separator_correct:
  assumes "8 \<le> length start" and "8 \<le> length limit"
    and "InternalKeyCompare BytewiseCompare start limit < 0"
  shows "let s = InternalKeyFindShortestSeparator BytewiseCompare BytewiseFindShortestSeparator start limit;
             n = InternalKeyFindShortSuccessor BytewiseCompare BytewiseFindShortSuccessor start
    in 8 \<le> length s \<and> InternalKeyCompare BytewiseCompare start s \<le> 0 \<and>
       InternalKeyCompare BytewiseCompare s limit < 0 \<and>
       8 \<le> length n \<and> InternalKeyCompare BytewiseCompare start n \<le> 0"
  using assms bytewise_user.icmp.Separator_bounds [of start limit]
    bytewise_user.icmp.Separator_valid [of start limit] bytewise_user.icmp.Successor_valid [of start]
    bytewise_user.icmp.Successor_bound [of start]
  by (simp add: Let_def)

theorem internal_separator_correct_witness:
  "InternalKeyCompare BytewiseCompare (InternalKey_make [1, 2, 3] 5 kTypeValue)
     (InternalKeyFindShortestSeparator BytewiseCompare BytewiseFindShortestSeparator
        (InternalKey_make [1, 2, 3] 5 kTypeValue) (InternalKey_make [1, 9] 7 kTypeValue)) \<le> 0"
  using internal_separator_correct [of "InternalKey_make [1, 2, 3] 5 kTypeValue" "InternalKey_make [1, 9] 7 kTypeValue"]
  by (simp add: Let_def InternalKeyCompare_def BytewiseCompare_def)

end
