(* ===== verification/Memenv.thy ===== *)
theory Memenv
  imports Logging "HOL-Library.RBT" "HOL-Library.Multiset"
begin

text \<open>
  The file interfaces of \<open>include/leveldb/env.h\<close> as locales, and the in-memory implementation of
  \<open>helpers/memenv/memenv.cc\<close>: files as sequences of 8 KiB blocks with a reference count, the
  sequential, random-access and writable handles on them, and the environment that maps names to
  files. Files live in a heap indexed by addresses, because handles and the name map alias them.
\<close>

section \<open>The file interfaces\<close>

text \<open>
  A sequential file delivers the bytes that remain, fewer than asked for only at the end of the
  file; \<open>Skip\<close> is as good as reading and discarding. A writable file appends.
\<close>

locale sequential_file =
  fixes Read :: "'f \<Rightarrow> nat \<Rightarrow> Status \<times> bytes \<times> 'f"
    and Skip :: "'f \<Rightarrow> u64 \<Rightarrow> Status \<times> 'f"
    and remaining :: "'f \<Rightarrow> bytes"
    and readable :: "'f \<Rightarrow> bool"
  assumes Read_next: "readable f \<Longrightarrow>
      \<exists>f'. Read f n = (Status_OK, take n (remaining f), f') \<and> readable f' \<and>
        remaining f' = drop n (remaining f)"
    and Skip_next: "readable f \<Longrightarrow>
      \<exists>f'. Skip f k = (Status_OK, f') \<and> readable f' \<and> remaining f' = drop (unat k) (remaining f)"

locale random_access_file =
  fixes ReadAt :: "'f \<Rightarrow> u64 \<Rightarrow> nat \<Rightarrow> Status \<times> bytes"
    and contents :: "'f \<Rightarrow> bytes"
    and readable :: "'f \<Rightarrow> bool"
  assumes ReadAt_contents: "readable f \<Longrightarrow> unat offset \<le> length (contents f) \<Longrightarrow>
      ReadAt f offset n = (Status_OK, take n (drop (unat offset) (contents f)))"

locale writable_file =
  fixes Append :: "'f \<Rightarrow> bytes \<Rightarrow> Status \<times> 'f"
    and Flush :: "'f \<Rightarrow> Status \<times> 'f"
    and contents :: "'f \<Rightarrow> bytes"
    and writable :: "'f \<Rightarrow> bool"
  assumes Append_contents: "writable f \<Longrightarrow> Append f data = (s, f') \<Longrightarrow>
      writable f' \<and> (ok s \<longrightarrow> contents f' = contents f @ data)"
    and Flush_contents: "writable f \<Longrightarrow> Flush f = (s, f') \<Longrightarrow>
      writable f' \<and> contents f' = contents f"

text \<open>A file on which no operation fails.\<close>

locale reliable_file = writable_file Append Flush contents writable
  for Append :: "'f \<Rightarrow> bytes \<Rightarrow> Status \<times> 'f" and Flush contents writable +
  assumes Append_ok: "writable f \<Longrightarrow> ok (fst (Append f data))"
    and Flush_ok: "writable f \<Longrightarrow> ok (fst (Flush f))"
begin

lemma Append_next:
  assumes "writable f"
  obtains s f' where "Append f data = (s, f')" and "ok s" and "writable f'"
    and "contents f' = contents f @ data"
  using Append_contents [OF assms, of data] Append_ok [OF assms, of data]
  by (cases "Append f data") auto

lemma Flush_next:
  assumes "writable f"
  obtains s f' where "Flush f = (s, f')" and "ok s" and "writable f'" and "contents f' = contents f"
  using Flush_contents [OF assms] Flush_ok [OF assms] by (cases "Flush f") auto

end

section \<open>FileState\<close>

definition memenv_kBlockSize :: nat where
  "memenv_kBlockSize = 8 * 1024"

record FileState =
  refs :: int
  blocks :: "bytes list"
  file_size :: nat

definition FileState_new :: FileState where
  "FileState_new = \<lparr> refs = 0, blocks = [], file_size = 0 \<rparr>"

definition FileState_Size :: "FileState \<Rightarrow> nat" where
  "FileState_Size fs = file_size fs"

function FileState_Read_loop :: "bytes list \<Rightarrow> nat \<Rightarrow> nat \<Rightarrow> nat \<Rightarrow> bytes" where
  "FileState_Read_loop bs block block_offset bytes_to_copy =
     (if 0 < bytes_to_copy
      then (let avail = min (memenv_kBlockSize - block_offset) bytes_to_copy
            in take avail (drop block_offset (bs ! block)) @
               FileState_Read_loop bs (block + 1) 0 (bytes_to_copy - avail))
      else [])"
  by pat_completeness auto
termination
  by (relation "measure (\<lambda>(_, _, o', n). 2 * n + (if memenv_kBlockSize \<le> o' then 1 else 0))")
    (auto simp: memenv_kBlockSize_def min_def)

declare FileState_Read_loop.simps [simp del]

definition FileState_Read :: "FileState \<Rightarrow> nat \<Rightarrow> nat \<Rightarrow> Status \<times> bytes" where
  "FileState_Read fs offset n =
     (if file_size fs < offset then (IOError (str ''Offset greater than file size.'') [], [])
      else (let available = file_size fs - offset;
                n = (if available < n then available else n)
            in if n = 0 then (Status_OK, [])
               else (let block = offset div memenv_kBlockSize;
                         block_offset = offset mod memenv_kBlockSize
                     in if n \<le> memenv_kBlockSize - block_offset
                        then (Status_OK, take n (drop block_offset (blocks fs ! block)))
                        else (Status_OK, FileState_Read_loop (blocks fs) block block_offset n))))"

text \<open>A new block is modelled as zeros; \<open>new char[]\<close> leaves it indeterminate, and no read returns
  bytes past \<open>size_\<close>.\<close>

function FileState_Append_loop :: "FileState \<Rightarrow> bytes \<Rightarrow> FileState" where
  "FileState_Append_loop fs src =
     (if 0 < length src
      then (let offset = file_size fs mod memenv_kBlockSize;
                bs = (if offset \<noteq> 0 then blocks fs else blocks fs @ [replicate memenv_kBlockSize 0]);
                avail = min (if offset \<noteq> 0 then memenv_kBlockSize - offset else memenv_kBlockSize)
                  (length src);
                b = last bs;
                b = take offset b @ take avail src @ drop (offset + avail) b
            in FileState_Append_loop
                 (fs\<lparr> blocks := butlast bs @ [b], file_size := file_size fs + avail \<rparr>) (drop avail src))
      else fs)"
  by pat_completeness auto
termination
  by (relation "measure (\<lambda>(_, src). length src)") (auto simp: memenv_kBlockSize_def)

declare FileState_Append_loop.simps [simp del]

definition FileState_Append :: "FileState \<Rightarrow> bytes \<Rightarrow> Status \<times> FileState" where
  "FileState_Append fs data = (Status_OK, FileState_Append_loop fs data)"

subsection \<open>A file state is its contents\<close>

definition FileState_wf :: "FileState \<Rightarrow> bool" where
  "FileState_wf fs \<longleftrightarrow> (\<forall>b \<in> set (blocks fs). length b = memenv_kBlockSize) \<and>
     length (blocks fs) = (file_size fs + memenv_kBlockSize - 1) div memenv_kBlockSize"

definition FileState_contents :: "FileState \<Rightarrow> bytes" where
  "FileState_contents fs = take (file_size fs) (concat (blocks fs))"

lemma length_concat_blocks:
  "\<forall>b \<in> set bs. length b = k \<Longrightarrow> length (concat bs) = length bs * k"
  by (induction bs) auto

lemma ceil_div:
  fixes k m q :: nat
  assumes "m \<le> k" and "0 < k"
  shows "(q * k + m + k - 1) div k = q + (if 0 < m then 1 else 0)"
  using assms by (intro div_nat_eqI) (auto simp: algebra_simps)

lemma drop_concat_blocks:
  "\<forall>b \<in> set bs. length b = k \<Longrightarrow> drop (n * k) (concat bs) = concat (drop n bs)"
proof (induction bs arbitrary: n)
  case (Cons b bs)
  then show ?case by (cases n) auto
qed simp

text \<open>What \<open>Append\<close> sees: the blocks before the last one are full, and the last one (pushed if there is
  no room) holds \<open>size_ mod kBlockSize\<close> bytes.\<close>

lemma FileState_wf_last:
  assumes "FileState_wf fs" and "offset = file_size fs mod memenv_kBlockSize"
    and "bs = (if offset \<noteq> 0 then blocks fs else blocks fs @ [replicate memenv_kBlockSize 0])"
  obtains ps b where "bs = ps @ [b]" and "length b = memenv_kBlockSize"
    and "\<forall>p \<in> set ps. length p = memenv_kBlockSize"
    and "file_size fs = length ps * memenv_kBlockSize + offset"
    and "FileState_contents fs = concat ps @ take offset b"
proof -
  define k where "k = memenv_kBlockSize"
  have k: "0 < k" by (simp add: k_def memenv_kBlockSize_def)
  define ps where "ps = butlast bs"
  define b where "b = last bs"
  have len: "length (blocks fs) = (file_size fs + k - 1) div k"
    and all: "\<forall>b \<in> set (blocks fs). length b = k"
    using assms(1) by (simp_all add: FileState_wf_def k_def)
  define q where "q = file_size fs div k"
  have fsize: "file_size fs = q * k + offset" and off: "offset \<le> k"
    using assms(2) k by (simp_all add: q_def k_def less_imp_le)
  have ceil: "length (blocks fs) = q + (if offset \<noteq> 0 then 1 else 0)"
    unfolding len fsize using ceil_div [OF off k] by simp
  have ne: "bs \<noteq> []" using ceil assms(3) by (auto split: if_splits)
  then have bs: "bs = ps @ [b]" by (simp add: ps_def b_def)
  have lens: "\<forall>x \<in> set bs. length x = k" using all assms(3) by (auto simp: k_def)
  have lps: "length ps = q"
    using ceil assms(3) by (auto simp: ps_def split: if_splits)
  then have size: "file_size fs = length ps * k + offset" using fsize by simp
  have lcp: "length (concat ps) = length ps * k" using lens bs by (intro length_concat_blocks) simp
  have "FileState_contents fs = concat ps @ take offset b"
  proof (cases "offset = 0")
    case True
    then have "blocks fs = ps" using assms(3) by (simp add: ps_def)
    then show ?thesis using True lcp size by (simp add: FileState_contents_def)
  next
    case False
    then have "blocks fs = ps @ [b]" using assms(3) bs by simp
    then show ?thesis using lcp size by (simp add: FileState_contents_def)
  qed
  then show ?thesis using that [of ps b] bs lens size by (simp add: k_def)
qed

lemma FileState_wf_bounds:
  assumes "FileState_wf fs"
  shows "file_size fs \<le> length (concat (blocks fs))"
proof -
  define offset where "offset = file_size fs mod memenv_kBlockSize"
  define bs where "bs = (if offset \<noteq> 0 then blocks fs else blocks fs @ [replicate memenv_kBlockSize 0])"
  obtain ps b where pb: "bs = ps @ [b]" "length b = memenv_kBlockSize" "\<forall>p \<in> set ps. length p = memenv_kBlockSize"
    "file_size fs = length ps * memenv_kBlockSize + offset" "FileState_contents fs = concat ps @ take offset b"
    using FileState_wf_last [OF assms offset_def bs_def] .
  have "offset \<le> memenv_kBlockSize" by (simp add: offset_def memenv_kBlockSize_def less_imp_le)
  then have "length (FileState_contents fs) = file_size fs"
    unfolding pb(4,5) using pb(2) length_concat_blocks [OF pb(3)] by simp
  then show ?thesis by (simp add: FileState_contents_def)
qed

lemma length_FileState_contents: "FileState_wf fs \<Longrightarrow> length (FileState_contents fs) = file_size fs"
  using FileState_wf_bounds by (simp add: FileState_contents_def)

lemma FileState_wf_I:
  assumes "\<forall>p \<in> set ps. length p = memenv_kBlockSize" and "length b = memenv_kBlockSize"
    and "n = length ps * memenv_kBlockSize + m" and "0 < m" and "m \<le> memenv_kBlockSize"
  shows "FileState_wf (fs\<lparr> blocks := ps @ [b], file_size := n \<rparr>)"
proof -
  have "(n + memenv_kBlockSize - 1) div memenv_kBlockSize = length ps + 1"
    using ceil_div [of m memenv_kBlockSize "length ps"] assms(3-5) by simp
  then show ?thesis using assms(1,2) by (simp add: FileState_wf_def)
qed

lemma FileState_Append_loop_contents:
  "FileState_wf fs \<Longrightarrow> FileState_wf (FileState_Append_loop fs src) \<and>
    FileState_contents (FileState_Append_loop fs src) = FileState_contents fs @ src \<and>
    refs (FileState_Append_loop fs src) = refs fs"
proof (induction fs src rule: FileState_Append_loop.induct)
  case (1 fs src)
  define offset where "offset = file_size fs mod memenv_kBlockSize"
  define bs where "bs = (if offset \<noteq> 0 then blocks fs else blocks fs @ [replicate memenv_kBlockSize 0])"
  define avail where "avail = min (if offset \<noteq> 0 then memenv_kBlockSize - offset else memenv_kBlockSize) (length src)"
  define b' where "b' = take offset (last bs) @ take avail src @ drop (offset + avail) (last bs)"
  define fs' where "fs' = fs\<lparr> blocks := butlast bs @ [b'], file_size := file_size fs + avail \<rparr>"
  obtain ps b where pb: "bs = ps @ [b]" "length b = memenv_kBlockSize"
      "\<forall>p \<in> set ps. length p = memenv_kBlockSize" "file_size fs = length ps * memenv_kBlockSize + offset"
      "FileState_contents fs = concat ps @ take offset b"
    using FileState_wf_last [OF 1(2) offset_def bs_def] .
  show ?case
  proof (cases "0 < length src")
    case True
    have off: "offset < memenv_kBlockSize" by (simp add: offset_def memenv_kBlockSize_def)
    have av: "0 < avail" "offset + avail \<le> memenv_kBlockSize" "avail \<le> length src"
      using True off by (auto simp: avail_def)
    have b': "length b' = memenv_kBlockSize" using pb av by (simp add: b'_def)
    have wf: "FileState_wf fs'"
      unfolding fs'_def using pb av b' by (intro FileState_wf_I [where m = "offset + avail"]) simp_all
    have lps: "length (concat ps) = length ps * memenv_kBlockSize"
      using pb(3) by (rule length_concat_blocks)
    have "FileState_contents fs' = concat ps @ take (offset + avail) b'"
      using pb lps by (simp add: FileState_contents_def fs'_def)
    also have "take (offset + avail) b' = take offset b @ take avail src"
      using pb(1,2) av by (simp add: b'_def)
    finally have "FileState_contents fs' = FileState_contents fs @ take avail src"
      using pb by simp
    moreover have "FileState_Append_loop fs src = FileState_Append_loop fs' (drop avail src)"
      using True by (subst FileState_Append_loop.simps)
        (simp add: Let_def fs'_def b'_def bs_def avail_def offset_def)
    moreover have "refs fs' = refs fs" by (simp add: fs'_def)
    ultimately show ?thesis
      using 1(1) [OF True offset_def bs_def avail_def refl b'_def] wf
      by (simp add: fs'_def [symmetric])
  qed (use 1 in \<open>simp add: FileState_Append_loop.simps\<close>)
qed

lemma FileState_Read_loop_concat:
  assumes "\<forall>b \<in> set bs. length b = memenv_kBlockSize" and "o' < memenv_kBlockSize"
    and "block * memenv_kBlockSize + o' + n \<le> length bs * memenv_kBlockSize"
  shows "FileState_Read_loop bs block o' n =
    take n (drop (block * memenv_kBlockSize + o') (concat bs))"
  using assms(2,3)
proof (induction n arbitrary: block o' rule: less_induct)
  case (less n)
  let ?k = memenv_kBlockSize
  show ?case
  proof (cases "0 < n")
    case True
    define avail where "avail = min (?k - o') n"
    have av: "0 < avail" "avail \<le> n" "avail \<le> ?k - o'" using True less.prems(1) by (simp_all add: avail_def)
    have block: "block < length bs"
    proof (rule ccontr)
      assume "\<not> block < length bs"
      then have "length bs * ?k \<le> block * ?k" by simp
      with less.prems(2) True show False by linarith
    qed
    have drop: "drop (block * ?k) (concat bs) = bs ! block @ concat (drop (Suc block) bs)"
      using assms(1) block by (simp add: drop_concat_blocks Cons_nth_drop_Suc [symmetric])
    have len: "length (bs ! block) = ?k" using assms(1) block by simp
    have rest: "FileState_Read_loop bs (block + 1) 0 (n - avail) =
        take (n - avail) (concat (drop (Suc block) bs))"
    proof (cases "n - avail = 0")
      case False
      then have "avail = ?k - o'" by (auto simp: avail_def min_def split: if_splits)
      then show ?thesis
        using less.IH [of "n - avail" 0 "block + 1"] less.prems av False assms(1)
          drop_concat_blocks [OF assms(1), of "Suc block"] by simp
    qed (simp add: FileState_Read_loop.simps)
    have "drop (block * ?k + o') (concat bs) = drop o' (bs ! block) @ concat (drop (Suc block) bs)"
      using drop len less.prems(1) by (simp add: add.commute [of _ o'] flip: drop_drop)
    moreover have "n - length (drop o' (bs ! block)) = n - avail"
      using len by (simp add: avail_def)
    moreover have "take n (drop o' (bs ! block)) = take avail (drop o' (bs ! block))"
      using len by (simp add: avail_def min_def)
    ultimately show ?thesis
      using True rest by (subst FileState_Read_loop.simps) (simp add: Let_def avail_def)
  qed (simp add: FileState_Read_loop.simps)
qed

lemma FileState_Read_contents:
  assumes "FileState_wf fs" and "offset \<le> file_size fs"
  shows "FileState_Read fs offset n = (Status_OK, take n (drop offset (FileState_contents fs)))"
proof -
  let ?k = memenv_kBlockSize
  define m where "m = (if file_size fs - offset < n then file_size fs - offset else n)"
  have m: "offset + m \<le> file_size fs" "m \<le> n" using assms(2) by (auto simp: m_def)
  have take: "take n (drop offset (FileState_contents fs)) = take m (drop offset (concat (blocks fs)))"
    by (simp add: FileState_contents_def m_def drop_take min_def)
  have bs: "\<forall>b \<in> set (blocks fs). length b = ?k" using assms(1) by (simp add: FileState_wf_def)
  have "offset div ?k * ?k + offset mod ?k + m \<le> length (blocks fs) * ?k"
    using m(1) FileState_wf_bounds [OF assms(1)] length_concat_blocks [OF bs] by simp
  moreover have "offset mod ?k < ?k" by (simp add: memenv_kBlockSize_def)
  ultimately have loop: "FileState_Read_loop (blocks fs) (offset div ?k) (offset mod ?k) m =
      take m (drop offset (concat (blocks fs)))"
    using FileState_Read_loop_concat [OF bs] by simp
  have "FileState_Read_loop (blocks fs) (offset div ?k) (offset mod ?k) m =
      take m (drop (offset mod ?k) (blocks fs ! (offset div ?k)))"
    if "m \<le> ?k - offset mod ?k" "m \<noteq> 0"
    using that by (subst FileState_Read_loop.simps) (simp add: FileState_Read_loop.simps [of _ _ _ 0] Let_def min_absorb2)
  then show ?thesis
    using assms(2) loop by (simp add: FileState_Read_def Let_def take m_def [symmetric])
qed

section \<open>Handles\<close>

type_synonym addr = nat
type_synonym file_heap = "addr \<Rightarrow> FileState option"

text \<open>
  \<open>the (h a)\<close> is the object a handle points to: using a handle whose file has been freed is
  undefined behaviour, and the model leaves its value open.
\<close>

record SequentialFile =
  seq_file :: addr
  pos :: nat

definition SequentialFile_Read :: "file_heap \<Rightarrow> SequentialFile \<Rightarrow> nat \<Rightarrow> Status \<times> bytes \<times> SequentialFile" where
  "SequentialFile_Read h sf n =
     (case FileState_Read (the (h (seq_file sf))) (pos sf) n of
        (s, result) \<Rightarrow> (s, result, if ok s then sf\<lparr> pos := pos sf + length result \<rparr> else sf))"

definition SequentialFile_Skip :: "file_heap \<Rightarrow> SequentialFile \<Rightarrow> u64 \<Rightarrow> Status \<times> SequentialFile" where
  "SequentialFile_Skip h sf n =
     (let size = FileState_Size (the (h (seq_file sf)))
      in if size < pos sf then (IOError (str ''pos_ > file_->Size()'') [], sf)
         else (let available = size - pos sf;
                   n = (if available < unat n then available else unat n)
               in (Status_OK, sf\<lparr> pos := pos sf + n \<rparr>)))"

definition RandomAccessFile_Read :: "file_heap \<Rightarrow> addr \<Rightarrow> u64 \<Rightarrow> nat \<Rightarrow> Status \<times> bytes" where
  "RandomAccessFile_Read h a offset n = FileState_Read (the (h a)) (unat offset) n"

definition WritableFile_Append :: "file_heap \<times> addr \<Rightarrow> bytes \<Rightarrow> Status \<times> file_heap \<times> addr" where
  "WritableFile_Append f data =
     (case f of (h, a) \<Rightarrow>
        (case FileState_Append (the (h a)) data of (s, fs) \<Rightarrow> (s, h(a \<mapsto> fs), a)))"

definition WritableFile_Flush :: "file_heap \<times> addr \<Rightarrow> Status \<times> file_heap \<times> addr" where
  "WritableFile_Flush f = (Status_OK, f)"

definition heap_wf :: "file_heap \<Rightarrow> addr \<Rightarrow> bool" where
  "heap_wf h a \<longleftrightarrow> (case h a of None \<Rightarrow> False | Some fs \<Rightarrow> FileState_wf fs)"

lemma drop_clamped: "p \<le> length xs \<Longrightarrow> drop (p + min (length xs - p) n) xs = drop (p + n) xs"
  by (simp add: min_def)

interpretation memseq: sequential_file "SequentialFile_Read h" "SequentialFile_Skip h"
  "\<lambda>sf. drop (pos sf) (FileState_contents (the (h (seq_file sf))))"
  "\<lambda>sf. heap_wf h (seq_file sf) \<and> pos sf \<le> file_size (the (h (seq_file sf)))" for h
proof (unfold_locales, goal_cases)
  case (1 sf n)
  then obtain fs where fs: "h (seq_file sf) = Some fs" "FileState_wf fs" "pos sf \<le> file_size fs"
    by (auto simp: heap_wf_def split: option.splits)
  show ?case
    by (intro exI [of _ "sf\<lparr> pos := pos sf + min (file_size fs - pos sf) n \<rparr>"])
      (use fs in \<open>simp add: SequentialFile_Read_def FileState_Read_contents heap_wf_def
        drop_clamped [of "pos sf" "FileState_contents fs", unfolded length_FileState_contents [OF fs(2)]]
        length_FileState_contents add.commute\<close>)
next
  case (2 sf k)
  then obtain fs where fs: "h (seq_file sf) = Some fs" "FileState_wf fs" "pos sf \<le> file_size fs"
    by (auto simp: heap_wf_def split: option.splits)
  show ?case
    by (intro exI [of _ "sf\<lparr> pos := pos sf + min (file_size fs - pos sf) (unat k) \<rparr>"])
      (use fs in \<open>auto simp: SequentialFile_Skip_def FileState_Size_def heap_wf_def Let_def min_def
        length_FileState_contents add.commute\<close>)
qed

interpretation memrandom: random_access_file "RandomAccessFile_Read h"
  "\<lambda>a. FileState_contents (the (h a))" "heap_wf h" for h
  by unfold_locales
    (auto simp: RandomAccessFile_Read_def heap_wf_def FileState_Read_contents
      length_FileState_contents split: option.splits)

interpretation memwritable: writable_file WritableFile_Append WritableFile_Flush
  "\<lambda>(h, a). FileState_contents (the (h a))" "\<lambda>(h, a). heap_wf h a"
  by unfold_locales
    (auto simp: WritableFile_Append_def WritableFile_Flush_def FileState_Append_def heap_wf_def
      FileState_Append_loop_contents split: option.splits)

interpretation memlog: reliable_file WritableFile_Append WritableFile_Flush
  "\<lambda>(h, a). FileState_contents (the (h a))" "\<lambda>(h, b). b = a \<and> heap_wf h b" for a
  by unfold_locales
    (auto simp: WritableFile_Append_def WritableFile_Flush_def FileState_Append_def heap_wf_def
      FileState_Append_loop_contents split: option.splits)

section \<open>InMemoryEnv\<close>

record MemEnv =
  file_map :: "(bytes, addr option) RBT.rbt"
  heap :: file_heap
  next_addr :: addr

definition NewMemEnv :: MemEnv where
  "NewMemEnv = \<lparr> file_map = RBT.empty, heap = Map.empty, next_addr = 0 \<rparr>"

text \<open>\<open>None\<close> is a dereference of a null or dangling pointer.\<close>

definition FileState_Ref :: "addr \<Rightarrow> MemEnv \<Rightarrow> MemEnv option" where
  "FileState_Ref a env =
     (case heap env a of
        None \<Rightarrow> None
      | Some fs \<Rightarrow> Some (env\<lparr> heap := (heap env)(a \<mapsto> fs\<lparr> refs := refs fs + 1 \<rparr>) \<rparr>))"

definition FileState_Unref :: "addr \<Rightarrow> MemEnv \<Rightarrow> MemEnv option" where
  "FileState_Unref a env =
     (case heap env a of
        None \<Rightarrow> None
      | Some fs \<Rightarrow>
          let r = refs fs - 1
          in Some (env\<lparr> heap := (if r \<le> 0 then (heap env)(a := None)
                                else (heap env)(a \<mapsto> fs\<lparr> refs := r \<rparr>)) \<rparr>))"

definition FileState_alloc :: "MemEnv \<Rightarrow> addr \<times> MemEnv" where
  "FileState_alloc env =
     (next_addr env,
      env\<lparr> heap := (heap env)(next_addr env \<mapsto> FileState_new), next_addr := next_addr env + 1 \<rparr>)"

abbreviation file_not_found :: "bytes \<Rightarrow> Status" where
  "file_not_found fname \<equiv> IOError fname (str ''File not found'')"

definition NewSequentialFile :: "MemEnv \<Rightarrow> bytes \<Rightarrow> (Status \<times> SequentialFile option \<times> MemEnv) option" where
  "NewSequentialFile env fname =
     (case RBT.lookup (file_map env) fname of
        None \<Rightarrow> Some (file_not_found fname, None, env)
      | Some None \<Rightarrow> None
      | Some (Some a) \<Rightarrow>
          map_option (\<lambda>env. (Status_OK, Some \<lparr> seq_file = a, pos = 0 \<rparr>, env)) (FileState_Ref a env))"

definition NewRandomAccessFile :: "MemEnv \<Rightarrow> bytes \<Rightarrow> (Status \<times> addr option \<times> MemEnv) option" where
  "NewRandomAccessFile env fname =
     (case RBT.lookup (file_map env) fname of
        None \<Rightarrow> Some (file_not_found fname, None, env)
      | Some None \<Rightarrow> None
      | Some (Some a) \<Rightarrow> map_option (\<lambda>env. (Status_OK, Some a, env)) (FileState_Ref a env))"

definition DeleteFileInternal :: "MemEnv \<Rightarrow> bytes \<Rightarrow> MemEnv option" where
  "DeleteFileInternal env fname =
     (case RBT.lookup (file_map env) fname of
        None \<Rightarrow> Some env
      | Some None \<Rightarrow> None
      | Some (Some a) \<Rightarrow>
          map_option (\<lambda>env. env\<lparr> file_map := RBT.delete fname (file_map env) \<rparr>) (FileState_Unref a env))"

definition NewWritableFile :: "MemEnv \<Rightarrow> bytes \<Rightarrow> (Status \<times> addr option \<times> MemEnv) option" where
  "NewWritableFile env fname =
     Option.bind (if RBT.lookup (file_map env) fname \<noteq> None then DeleteFileInternal env fname else Some env)
       (\<lambda>env. case FileState_alloc env of (a, env) \<Rightarrow>
          Option.bind (FileState_Ref a env) (\<lambda>env.
            let env = env\<lparr> file_map := RBT.insert fname (Some a) (file_map env) \<rparr>
            in map_option (\<lambda>env. (Status_OK, Some a, env)) (FileState_Ref a env)))"

text \<open>\<open>file_map_[fname]\<close> inserts a null pointer when the name is absent; the new file is not stored
  back through \<open>sptr\<close>.\<close>

definition NewAppendableFile :: "MemEnv \<Rightarrow> bytes \<Rightarrow> (Status \<times> addr option \<times> MemEnv) option" where
  "NewAppendableFile env fname =
     (let sptr = (case RBT.lookup (file_map env) fname of None \<Rightarrow> None | Some p \<Rightarrow> p);
          env = (if RBT.lookup (file_map env) fname = None
                 then env\<lparr> file_map := RBT.insert fname None (file_map env) \<rparr> else env)
      in Option.bind
           (case sptr of
              None \<Rightarrow> (case FileState_alloc env of (a, env) \<Rightarrow> map_option (Pair a) (FileState_Ref a env))
            | Some a \<Rightarrow> Some (a, env))
           (\<lambda>(a, env). map_option (\<lambda>env. (Status_OK, Some a, env)) (FileState_Ref a env)))"

definition FileExists :: "MemEnv \<Rightarrow> bytes \<Rightarrow> bool" where
  "FileExists env fname \<longleftrightarrow> RBT.lookup (file_map env) fname \<noteq> None"

definition GetChildren :: "MemEnv \<Rightarrow> bytes \<Rightarrow> bytes list" where
  "GetChildren env dir =
     map (drop (length dir + 1))
       (filter (\<lambda>filename. length dir + 1 \<le> length filename \<and> filename ! length dir = 0x2f \<and>
                  take (length dir) filename = dir)
          (map fst (RBT.entries (file_map env))))"

definition DeleteFile :: "MemEnv \<Rightarrow> bytes \<Rightarrow> (Status \<times> MemEnv) option" where
  "DeleteFile env fname =
     (if RBT.lookup (file_map env) fname = None then Some (file_not_found fname, env)
      else map_option (Pair Status_OK) (DeleteFileInternal env fname))"

definition GetFileSize :: "MemEnv \<Rightarrow> bytes \<Rightarrow> (Status \<times> nat) option" where
  "GetFileSize env fname =
     (case RBT.lookup (file_map env) fname of
        None \<Rightarrow> Some (file_not_found fname, 0)
      | Some None \<Rightarrow> None
      | Some (Some a) \<Rightarrow> map_option (\<lambda>fs. (Status_OK, FileState_Size fs)) (heap env a))"

definition RenameFile :: "MemEnv \<Rightarrow> bytes \<Rightarrow> bytes \<Rightarrow> (Status \<times> MemEnv) option" where
  "RenameFile env src target =
     (if RBT.lookup (file_map env) src = None then Some (file_not_found src, env)
      else map_option
        (\<lambda>env. let p = (case RBT.lookup (file_map env) src of None \<Rightarrow> None | Some p \<Rightarrow> p)
               in (Status_OK, env\<lparr> file_map := RBT.delete src (RBT.insert target p (file_map env)) \<rparr>))
        (DeleteFileInternal env target))"

section \<open>Reference counting is safe\<close>

text \<open>
  The environment with the multiset of addresses that open handles hold, the multiset of references
  that nobody holds any more, and the set of names that are bound to a null pointer. The operations
  of the interface interleave freely. Both ghost components come from \<open>NewAppendableFile\<close>: under a
  name without a file it allocates a file whose first reference is not stored, and leaves the name
  null when it was missing; \<open>RenameFile\<close> carries a null pointer to the new name.
\<close>

inductive mem_reach :: "MemEnv \<Rightarrow> addr multiset \<Rightarrow> addr multiset \<Rightarrow> bytes set \<Rightarrow> bool" where
  init: "mem_reach NewMemEnv {#} {#} {}"
| open_seq: "mem_reach env hs lk nulls \<Longrightarrow> NewSequentialFile env fname = Some (s, Some sf, env') \<Longrightarrow>
    mem_reach env' (add_mset (seq_file sf) hs) lk nulls"
| open_random: "mem_reach env hs lk nulls \<Longrightarrow> NewRandomAccessFile env fname = Some (s, Some a, env') \<Longrightarrow>
    mem_reach env' (add_mset a hs) lk nulls"
| open_writable: "mem_reach env hs lk nulls \<Longrightarrow> NewWritableFile env fname = Some (s, Some a, env') \<Longrightarrow>
    mem_reach env' (add_mset a hs) lk nulls"
| open_appendable: "mem_reach env hs lk nulls \<Longrightarrow> NewAppendableFile env fname = Some (s, Some a, env') \<Longrightarrow>
    mem_reach env' (add_mset a hs)
      (if RBT.lookup (file_map env) fname \<in> {None, Some None} then add_mset a lk else lk)
      (if FileExists env fname then nulls else insert fname nulls)"
| append: "mem_reach env hs lk nulls \<Longrightarrow> a \<in># hs \<Longrightarrow> WritableFile_Append (heap env, a) data = (s, h, a') \<Longrightarrow>
    mem_reach (env\<lparr> heap := h \<rparr>) hs lk nulls"
| close: "mem_reach env hs lk nulls \<Longrightarrow> a \<in># hs \<Longrightarrow> FileState_Unref a env = Some env' \<Longrightarrow>
    mem_reach env' (hs - {#a#}) lk nulls"
| delete: "mem_reach env hs lk nulls \<Longrightarrow> DeleteFile env fname = Some (s, env') \<Longrightarrow> mem_reach env' hs lk nulls"
| rename: "mem_reach env hs lk nulls \<Longrightarrow> RenameFile env src target = Some (s, env') \<Longrightarrow>
    mem_reach env' hs lk (if src \<in> nulls then insert target (nulls - {src}) else nulls)"

definition named :: "MemEnv \<Rightarrow> addr \<Rightarrow> bool" where
  "named env a \<longleftrightarrow> (\<exists>fname. RBT.lookup (file_map env) fname = Some (Some a))"

text \<open>A heap cell is free exactly when nothing refers to it; otherwise its count is right.\<close>

fun cell_ok :: "bool \<Rightarrow> nat \<Rightarrow> FileState option \<Rightarrow> bool" where
  "cell_ok nm c None \<longleftrightarrow> \<not> nm \<and> c = 0"
| "cell_ok nm c (Some fs) \<longleftrightarrow> FileState_wf fs \<and> refs fs = of_bool nm + int c \<and> 0 < refs fs"

definition mem_inv :: "MemEnv \<Rightarrow> addr multiset \<Rightarrow> bytes set \<Rightarrow> bool" where
  "mem_inv env hs nulls \<longleftrightarrow>
     (\<forall>a. cell_ok (named env a) (count hs a) (heap env a)) \<and>
     (\<forall>f. RBT.lookup (file_map env) f = Some None \<longleftrightarrow> f \<in> nulls) \<and>
     (\<forall>f g a. RBT.lookup (file_map env) f = Some (Some a) \<longrightarrow>
        RBT.lookup (file_map env) g = Some (Some a) \<longrightarrow> f = g) \<and>
     (\<forall>a \<ge> next_addr env. heap env a = None)"

lemma FileState_wf_refs [simp]: "FileState_wf (fs\<lparr> refs := r \<rparr>) = FileState_wf fs"
  by (simp add: FileState_wf_def)

lemma named_heap [simp]: "named (env\<lparr> heap := h \<rparr>) = named env"
  by (simp add: named_def fun_eq_iff)

lemma mem_inv_cell: "mem_inv env hs nulls \<Longrightarrow> cell_ok (named env a) (count hs a) (heap env a)"
  by (simp add: mem_inv_def)

lemma mem_inv_null: "mem_inv env hs nulls \<Longrightarrow> f \<in> nulls \<Longrightarrow> RBT.lookup (file_map env) f = Some None"
  by (simp add: mem_inv_def)

lemma mem_inv_lookup:
  assumes "mem_inv env hs nulls" and "RBT.lookup (file_map env) f = Some p" and "f \<notin> nulls"
  obtains a fs where "p = Some a" and "heap env a = Some fs" and "named env a"
proof -
  from assms obtain a where "p = Some a" by (cases p) (auto simp: mem_inv_def)
  moreover from this assms(2) have "named env a" by (auto simp: named_def)
  ultimately show ?thesis using that mem_inv_cell [OF assms(1), of a] by (cases "heap env a") auto
qed

lemma mem_inv_handle:
  assumes "mem_inv env hs nulls" and "a \<in># hs"
  obtains fs where "heap env a = Some fs" and "FileState_wf fs"
  using mem_inv_cell [OF assms(1), of a] assms(2) that
  by (cases "heap env a") (auto simp: count_eq_zero_iff)

lemma mem_inv_inj:
  assumes "mem_inv env hs nulls" and "RBT.lookup (file_map env) f = Some (Some a)"
  shows "RBT.lookup (file_map env) g = Some (Some a) \<longleftrightarrow> g = f"
  using assms unfolding mem_inv_def by blast

text \<open>Replacing one cell, with the handle count that goes with it.\<close>

lemma mem_inv_update:
  assumes "mem_inv env hs nulls" and "heap env a = Some fs"
    and "cell_ok (named env a) (count hs' a) c" and "\<And>b. b \<noteq> a \<Longrightarrow> count hs' b = count hs b"
  shows "mem_inv (env\<lparr> heap := (heap env)(a := c) \<rparr>) hs' nulls"
proof -
  have "a < next_addr env" using assms(1,2) by (metis mem_inv_def not_le option.distinct(1))
  then show ?thesis using assms by (auto simp: mem_inv_def)
qed

lemma mem_inv_Ref:
  assumes "mem_inv env hs nulls" and "heap env a = Some fs"
  obtains env' where "FileState_Ref a env = Some env'" and "mem_inv env' (add_mset a hs) nulls"
proof -
  have "mem_inv (env\<lparr> heap := (heap env)(a \<mapsto> fs\<lparr> refs := refs fs + 1 \<rparr>) \<rparr>) (add_mset a hs) nulls"
    using assms mem_inv_cell [OF assms(1), of a] by (intro mem_inv_update) auto
  with that assms(2) show ?thesis by (simp add: FileState_Ref_def)
qed

lemma mem_inv_Unref:
  assumes "mem_inv env hs nulls" and "a \<in># hs"
  obtains env' where "FileState_Unref a env = Some env'" and "mem_inv env' (hs - {#a#}) nulls"
proof -
  obtain fs where fs: "heap env a = Some fs" using assms by (rule mem_inv_handle)
  let ?c = "if refs fs - 1 \<le> 0 then None else Some (fs\<lparr> refs := refs fs - 1 \<rparr>)"
  have "mem_inv (env\<lparr> heap := (heap env)(a := ?c) \<rparr>) (hs - {#a#}) nulls"
    using assms fs mem_inv_cell [OF assms(1), of a] by (intro mem_inv_update) (auto simp: Suc_le_eq)
  moreover have "FileState_Unref a env = Some (env\<lparr> heap := (heap env)(a := ?c) \<rparr>)"
    using fs by (simp add: FileState_Unref_def Let_def)
  ultimately show ?thesis using that by blast
qed

lemma mem_inv_DeleteFileInternal:
  assumes "mem_inv env hs nulls" and "f \<notin> nulls"
  obtains env' where "DeleteFileInternal env f = Some env'" and "mem_inv env' hs nulls"
    and "RBT.lookup (file_map env') = (RBT.lookup (file_map env))(f := None)"
proof (cases "RBT.lookup (file_map env) f")
  case None
  then show ?thesis using that [of env] assms by (simp add: DeleteFileInternal_def fun_upd_idem)
next
  case (Some p)
  then obtain a fs where a: "p = Some a" "heap env a = Some fs" "named env a"
    using mem_inv_lookup [OF assms(1) _ assms(2)] by blast
  let ?c = "if refs fs - 1 \<le> 0 then None else Some (fs\<lparr> refs := refs fs - 1 \<rparr>)"
  let ?e = "env\<lparr> heap := (heap env)(a := ?c), file_map := RBT.delete f (file_map env) \<rparr>"
  have "(\<exists>g. g \<noteq> f \<and> RBT.lookup (file_map env) g = Some (Some b)) \<longleftrightarrow> named env b \<and> b \<noteq> a" for b
    using mem_inv_inj [OF assms(1), of f a] Some a unfolding named_def
    by (metis option.inject)
  then have nm: "named ?e b \<longleftrightarrow> named env b \<and> b \<noteq> a" for b
    by (simp add: named_def restrict_complement_singleton_eq cong: conj_cong)
  have cells: "cell_ok (named ?e b) (count hs b) (heap ?e b)" for b
    using mem_inv_cell [OF assms(1), of b] a nm [of b] by (auto simp: Suc_le_eq)
  have "a < next_addr env" using assms a by (metis mem_inv_def not_le option.distinct(1))
  then have "mem_inv ?e hs nulls"
    using assms cells unfolding mem_inv_def by auto
  moreover have "DeleteFileInternal env f = Some ?e"
    using Some a by (simp add: DeleteFileInternal_def FileState_Unref_def Let_def)
  moreover have "RBT.lookup (file_map ?e) = (RBT.lookup (file_map env))(f := None)"
    by (simp add: restrict_complement_singleton_eq)
  ultimately show ?thesis using that by blast
qed

lemma mem_inv_NewWritableFile:
  assumes "mem_inv env hs nulls" and "f \<notin> nulls"
  obtains a env' where "NewWritableFile env f = Some (Status_OK, Some a, env')"
    and "mem_inv env' (add_mset a hs) nulls"
proof -
  obtain e where e: "DeleteFileInternal env f = Some e" "mem_inv e hs nulls"
      "RBT.lookup (file_map e) = (RBT.lookup (file_map env))(f := None)"
    using mem_inv_DeleteFileInternal [OF assms] .
  have start: "(if RBT.lookup (file_map env) f \<noteq> None then DeleteFileInternal env f else Some env) = Some e"
    using e(1) by (auto simp: DeleteFileInternal_def)
  define a where "a = next_addr e"
  let ?fs = "FileState_new\<lparr> refs := 1 \<rparr>"
  let ?e = "e\<lparr> heap := (heap e)(a \<mapsto> ?fs), next_addr := a + 1, file_map := RBT.insert f (Some a) (file_map e) \<rparr>"
  have free: "heap e a = None" using e(2) by (simp add: mem_inv_def a_def)
  have nn: "\<not> named e a" "count hs a = 0" using mem_inv_cell [OF e(2), of a] free by simp_all
  have nm: "named ?e b \<longleftrightarrow> named e b \<or> b = a" for b
    using e(3) unfolding named_def by auto
  have cells: "cell_ok (named ?e b) (count hs b) (heap ?e b)" for b
    using mem_inv_cell [OF e(2), of b] nm [of b] nn
    by (auto simp: FileState_wf_def FileState_new_def memenv_kBlockSize_def)
  have "mem_inv ?e hs nulls"
    using e(2) cells nn(1) assms(2) unfolding mem_inv_def by (auto simp: named_def a_def)
  moreover have "heap ?e a = Some ?fs" by simp
  ultimately obtain e' where "FileState_Ref a ?e = Some e'" "mem_inv e' (add_mset a hs) nulls"
    by (rule mem_inv_Ref)
  moreover have "NewWritableFile env f = map_option (\<lambda>env. (Status_OK, Some a, env)) (FileState_Ref a ?e)"
    unfolding NewWritableFile_def start
    by (simp add: FileState_alloc_def FileState_Ref_def FileState_new_def a_def Let_def)
  ultimately show ?thesis using that by simp
qed

text \<open>Renaming a file to itself deletes it.\<close>

lemma mem_inv_RenameFile_self:
  assumes "mem_inv env hs nulls" and "src \<notin> nulls"
  obtains s env' where "RenameFile env src src = Some (s, env')" and "mem_inv env' hs nulls"
proof (cases "RBT.lookup (file_map env) src")
  case None
  then show ?thesis using that assms by (simp add: RenameFile_def)
next
  case (Some p)
  obtain e where e: "DeleteFileInternal env src = Some e" "mem_inv e hs nulls"
      "RBT.lookup (file_map e) = (RBT.lookup (file_map env))(src := None)"
    using mem_inv_DeleteFileInternal [OF assms] .
  let ?e = "e\<lparr> file_map := RBT.delete src (RBT.insert src None (file_map e)) \<rparr>"
  have "RBT.lookup (file_map ?e) = RBT.lookup (file_map e)"
    using e(3) by (auto simp: restrict_complement_singleton_eq fun_eq_iff)
  then have "mem_inv ?e hs nulls"
    using e(2) by (simp add: mem_inv_def named_def)
  moreover have "RenameFile env src src = Some (Status_OK, ?e)"
    using Some e(1,3) by (simp add: RenameFile_def Let_def)
  ultimately show ?thesis using that by blast
qed

lemma mem_inv_RenameFile:
  assumes "mem_inv env hs nulls" and "src \<noteq> target" and "target \<notin> nulls"
  obtains s env' where "RenameFile env src target = Some (s, env')"
    and "mem_inv env' hs (if src \<in> nulls then insert target (nulls - {src}) else nulls)"
proof (cases "RBT.lookup (file_map env) src")
  case None
  then have "src \<notin> nulls" using mem_inv_null [OF assms(1), of src] by auto
  with None show ?thesis using that assms by (simp add: RenameFile_def)
next
  case (Some p)
  let ?nulls = "if src \<in> nulls then insert target (nulls - {src}) else nulls"
  obtain e where e: "DeleteFileInternal env target = Some e" "mem_inv e hs nulls"
      "RBT.lookup (file_map e) = (RBT.lookup (file_map env))(target := None)"
    using mem_inv_DeleteFileInternal [OF assms(1,3)] .
  let ?L = "RBT.lookup (file_map e)"
  have src: "?L src = Some p" using e(3) Some assms(2) by simp
  let ?e = "e\<lparr> file_map := RBT.delete src (RBT.insert target p (file_map e)) \<rparr>"
  have L: "RBT.lookup (file_map ?e) = ?L(target \<mapsto> p, src := None)"
    by (simp add: restrict_complement_singleton_eq)
  have free: "?L target = None" using e(3) by simp
  have names: "RBT.lookup (file_map ?e) g = Some (Some b) \<longleftrightarrow>
      (if p = Some b then g = target else ?L g = Some (Some b))" for g b
    unfolding L using mem_inv_inj [OF e(2), of src b g] src free assms(2)
    by (cases "g = src"; cases "g = target") auto
  have nm: "named ?e b \<longleftrightarrow> named e b" for b
    using src unfolding named_def names by auto
  have nulls: "RBT.lookup (file_map ?e) g = Some None \<longleftrightarrow> g \<in> ?nulls" for g
  proof -
    have "?L g' = Some None \<longleftrightarrow> g' \<in> nulls" for g' using e(2) by (simp add: mem_inv_def)
    from this [of src] this [of g] show ?thesis unfolding L using src assms(2,3) by auto
  qed
  have inj: "g = g'" if "RBT.lookup (file_map ?e) g = Some (Some b)"
      "RBT.lookup (file_map ?e) g' = Some (Some b)" for g g' b
    using that mem_inv_inj [OF e(2), of g b g'] unfolding names by (auto split: if_splits)
  have "mem_inv ?e hs ?nulls"
    unfolding mem_inv_def nm
  proof (intro conjI allI impI, goal_cases)
    case (1 b)
    show ?case using mem_inv_cell [OF e(2), of b] by simp
  next
    case (2 g)
    show ?case by (rule nulls)
  next
    case (3 g g' b)
    then show ?case by (rule inj)
  next
    case (4 b)
    then show ?case using e(2) by (simp add: mem_inv_def)
  qed
  moreover have "RenameFile env src target = Some (Status_OK, ?e)"
    using Some e(1) src by (simp add: RenameFile_def Let_def)
  ultimately show ?thesis using that by blast
qed

lemma mem_inv_open:
  assumes "mem_inv env hs nulls" and "RBT.lookup (file_map env) f = Some p" and "f \<notin> nulls"
  obtains a env' where "p = Some a" and "FileState_Ref a env = Some env'" and "mem_inv env' (add_mset a hs) nulls"
  using mem_inv_lookup [OF assms] mem_inv_Ref [OF assms(1)] by (metis (no_types))

text \<open>The file \<open>NewAppendableFile\<close> makes has two references, of which one is lost.\<close>

lemma mem_inv_NewAppendableFile_lost:
  assumes "mem_inv env hs nulls" and "RBT.lookup (file_map env) f \<in> {None, Some None}"
  obtains a env' where "NewAppendableFile env f = Some (Status_OK, Some a, env')"
    and "mem_inv env' (add_mset a (add_mset a hs)) (insert f nulls)"
proof -
  define a where "a = next_addr env"
  define e where "e = (if RBT.lookup (file_map env) f = None then env\<lparr> file_map := RBT.insert f None (file_map env) \<rparr> else env)"
  let ?e = "e\<lparr> heap := (heap env)(a \<mapsto> FileState_new\<lparr> refs := 1 \<rparr>), next_addr := a + 1 \<rparr>"
  have e: "heap e = heap env" "next_addr e = a" "RBT.lookup (file_map e) = (RBT.lookup (file_map env))(f \<mapsto> None)"
    using assms(2) by (auto simp: e_def a_def)
  have free: "heap env a = None" using assms(1) by (simp add: mem_inv_def a_def)
  have nn: "\<not> named env a" "count hs a = 0" using mem_inv_cell [OF assms(1), of a] free by simp_all
  have "RBT.lookup (file_map ?e) g = Some (Some b) \<longleftrightarrow> RBT.lookup (file_map env) g = Some (Some b)" for g b
    using assms(2) e(3) by auto
  then have nm: "named ?e b \<longleftrightarrow> named env b" for b
    by (simp add: named_def)
  have cells: "cell_ok (named ?e b) (count (add_mset a hs) b) (heap ?e b)" for b
    using mem_inv_cell [OF assms(1), of b] nm [of b] nn
    by (auto simp: FileState_wf_def FileState_new_def memenv_kBlockSize_def)
  have "mem_inv ?e (add_mset a hs) (insert f nulls)"
    unfolding mem_inv_def
  proof (intro conjI allI impI, goal_cases)
    case (1 b)
    show ?case by (rule cells)
  next
    case (2 g)
    show ?case using assms(1) e(3) by (auto simp: mem_inv_def)
  next
    case (3 g g' b)
    then show ?case using mem_inv_inj [OF assms(1), of g b g'] e(3) by (auto split: if_splits)
  next
    case (4 b)
    then show ?case using assms(1) by (simp add: mem_inv_def a_def)
  qed
  moreover have "heap ?e a = Some (FileState_new\<lparr> refs := 1 \<rparr>)" by simp
  ultimately obtain e' where "FileState_Ref a ?e = Some e'" "mem_inv e' (add_mset a (add_mset a hs)) (insert f nulls)"
    by (rule mem_inv_Ref)
  moreover have "NewAppendableFile env f = map_option (\<lambda>env. (Status_OK, Some a, env)) (FileState_Ref a ?e)"
    using assms(2) e(1,2) unfolding NewAppendableFile_def Let_def e_def [symmetric]
    by (auto simp: FileState_alloc_def FileState_Ref_def FileState_new_def)
  ultimately show ?thesis using that by simp
qed

lemma mem_inv_DeleteFile:
  assumes "mem_inv env hs nulls" and "f \<notin> nulls"
  obtains s env' where "DeleteFile env f = Some (s, env')" and "mem_inv env' hs nulls"
proof -
  obtain e where "DeleteFileInternal env f = Some e" "mem_inv e hs nulls"
    using mem_inv_DeleteFileInternal [OF assms] .
  then show ?thesis using that assms by (cases "RBT.lookup (file_map env) f") (auto simp: DeleteFile_def)
qed

lemma mem_inv_append:
  assumes "mem_inv env hs nulls" and "a \<in># hs" and "WritableFile_Append (heap env, a) data = (s, h, a')"
  shows "mem_inv (env\<lparr> heap := h \<rparr>) hs nulls"
proof -
  obtain fs where fs: "heap env a = Some fs" "FileState_wf fs" using assms(1,2) by (rule mem_inv_handle)
  have "h = (heap env)(a \<mapsto> FileState_Append_loop fs data)"
    using assms(3) fs by (auto simp: WritableFile_Append_def FileState_Append_def)
  moreover have "mem_inv (env\<lparr> heap := (heap env)(a \<mapsto> FileState_Append_loop fs data) \<rparr>) hs nulls"
    using assms(1) fs mem_inv_cell [OF assms(1), of a] FileState_Append_loop_contents [OF fs(2), of data]
    by (intro mem_inv_update) auto
  ultimately show ?thesis by simp
qed

text \<open>A name bound to a null pointer is never opened, deleted or renamed to: these calls do not return.\<close>

lemma mem_null_crash:
  assumes "RBT.lookup (file_map env) f = Some None"
  shows "NewSequentialFile env f = None" "NewRandomAccessFile env f = None" "NewWritableFile env f = None"
    "DeleteFile env f = None" "GetFileSize env f = None" "RBT.lookup (file_map env) src \<noteq> None \<Longrightarrow> RenameFile env src f = None"
  using assms by (simp_all add: NewSequentialFile_def NewRandomAccessFile_def NewWritableFile_def DeleteFile_def
      GetFileSize_def RenameFile_def DeleteFileInternal_def)

lemma mem_inv_opened:
  assumes "mem_inv env hs nulls" and "RBT.lookup (file_map env) f = Some (Some b)" and "FileState_Ref b env = Some env'"
  shows "mem_inv env' (add_mset b hs) nulls"
proof -
  have "f \<notin> nulls" using mem_inv_null [OF assms(1), of f] assms(2) by auto
  then obtain a e where "Some b = Some a" "FileState_Ref a env = Some e" "mem_inv e (add_mset a hs) nulls"
    using mem_inv_open [OF assms(1,2)] by blast
  with assms(3) show ?thesis by simp
qed

lemma mem_reach_inv: "mem_reach env hs lk nulls \<Longrightarrow> mem_inv env (hs + lk) nulls"
proof (induction rule: mem_reach.induct)
  case init
  show ?case by (simp add: mem_inv_def NewMemEnv_def named_def)
next
  case (open_seq env hs lk nulls fname s sf env')
  then show ?case using mem_inv_opened [OF open_seq.IH, of fname]
    by (auto simp: NewSequentialFile_def split: option.splits)
next
  case (open_random env hs lk nulls fname s a env')
  then show ?case using mem_inv_opened [OF open_random.IH, of fname]
    by (auto simp: NewRandomAccessFile_def split: option.splits)
next
  case (open_writable env hs lk nulls fname s a env')
  then have "fname \<notin> nulls" using mem_null_crash(3) mem_inv_null [OF open_writable.IH] by fastforce
  then obtain b e where "NewWritableFile env fname = Some (Status_OK, Some b, e)" "mem_inv e (add_mset b (hs + lk)) nulls"
    using mem_inv_NewWritableFile [OF open_writable.IH] by blast
  with open_writable.hyps show ?case by simp
next
  case (open_appendable env hs lk nulls fname s a env')
  show ?case
  proof (cases "RBT.lookup (file_map env) fname \<in> {None, Some None}")
    case True
    obtain b e where b: "NewAppendableFile env fname = Some (Status_OK, Some b, e)"
      "mem_inv e (add_mset b (add_mset b (hs + lk))) (insert fname nulls)"
      by (rule mem_inv_NewAppendableFile_lost [OF open_appendable.IH True])
    have "insert fname nulls = nulls" if "RBT.lookup (file_map env) fname = Some None"
      using that open_appendable.IH by (auto simp: mem_inv_def)
    with b True open_appendable.hyps(2) show ?thesis by (auto simp: FileExists_def)
  next
    case False
    then obtain b where b: "RBT.lookup (file_map env) fname = Some (Some b)" by auto
    with open_appendable.hyps(2) show ?thesis using mem_inv_opened [OF open_appendable.IH b]
      by (auto simp: NewAppendableFile_def FileExists_def)
  qed
next
  case (append env hs lk nulls a data s h a')
  then show ?case by (auto intro: mem_inv_append)
next
  case (close env hs lk nulls a env')
  then obtain e where "FileState_Unref a env = Some e" "mem_inv e (hs + lk - {#a#}) nulls"
    using mem_inv_Unref [OF close.IH, of a] by auto
  with close.hyps show ?case by simp
next
  case (delete env hs lk nulls fname s env')
  then have "fname \<notin> nulls" using mem_null_crash(4) mem_inv_null [OF delete.IH] by fastforce
  with delete show ?case by (metis mem_inv_DeleteFile option.inject prod.inject)
next
  case (rename env hs lk nulls src target s env')
  show ?case
  proof (cases "RBT.lookup (file_map env) src")
    case None
    then have "src \<notin> nulls" "env' = env" using rename mem_inv_null [OF rename.IH, of src] by (auto simp: RenameFile_def)
    with rename.IH show ?thesis by simp
  next
    case (Some p)
    then have t: "target \<notin> nulls" using rename mem_null_crash(6) mem_inv_null [OF rename.IH, of target] by fastforce
    show ?thesis
    proof (cases "src = target")
      case True
      obtain s1 e1 where "RenameFile env src src = Some (s1, e1)" "mem_inv e1 (hs + lk) nulls"
        by (rule mem_inv_RenameFile_self [OF rename.IH]) (use True t in auto)
      with True t rename.hyps show ?thesis by simp
    next
      case False
      obtain s1 e1 where "RenameFile env src target = Some (s1, e1)"
        "mem_inv e1 (hs + lk) (if src \<in> nulls then insert target (nulls - {src}) else nulls)"
        by (rule mem_inv_RenameFile [OF rename.IH False t])
      with rename.hyps show ?thesis by simp
    qed
  qed
qed

section \<open>Properties\<close>

text \<open>An in-memory file is the concatenation of what was appended to it: reading any range at or
  below its size returns exactly those bytes of the concatenation, cut at the end of the file,
  whatever block boundaries the appends and the read cross, and reading past the size is an I/O
  error.\<close>

theorem memfile_append_read:
  "let fs = foldl (\<lambda>fs d. snd (FileState_Append fs d)) FileState_new ds
   in file_size fs = length (concat ds) \<and>
      FileState_Read fs offset n =
      (if offset \<le> length (concat ds) then (Status_OK, take n (drop offset (concat ds)))
       else (IOError (str ''Offset greater than file size.'') [], []))"
proof -
  define fs where "fs = foldl (\<lambda>fs d. snd (FileState_Append fs d)) FileState_new ds"
  have step: "FileState_wf fs' \<Longrightarrow>
      FileState_wf (foldl (\<lambda>fs d. snd (FileState_Append fs d)) fs' ds) \<and>
      FileState_contents (foldl (\<lambda>fs d. snd (FileState_Append fs d)) fs' ds) = FileState_contents fs' @ concat ds" for fs'
    by (induction ds arbitrary: fs') (simp_all add: FileState_Append_def FileState_Append_loop_contents)
  have "FileState_wf FileState_new" "FileState_contents FileState_new = []"
    by (simp_all add: FileState_wf_def FileState_contents_def FileState_new_def memenv_kBlockSize_def)
  with step [of FileState_new] have fs: "FileState_wf fs" "FileState_contents fs = concat ds"
    by (simp_all add: fs_def)
  moreover from this have "file_size fs = length (concat ds)" using length_FileState_contents by metis
  ultimately show ?thesis
    unfolding fs_def [symmetric] Let_def
    by (simp add: FileState_Read_contents) (simp add: FileState_Read_def)
qed

text \<open>C33: the reference counts of the in-memory environment are right in every reachable state, whatever
  operations were called in whatever order. No operation follows a null or freed pointer unless it
  names a file that \<open>NewAppendableFile\<close> was the first to create (\<open>nulls\<close>); every file an open handle or a
  name refers to is alive and well formed, closing a handle is safe, and the count of a file is the
  number of its handles, plus one if it has a name, plus the references \<open>NewAppendableFile\<close> lost
  (\<open>lk\<close>). This covers deleting, overwriting and renaming files that are still open.\<close>

theorem memenv_refcounts_safe:
  assumes "mem_reach env hs lk nulls"
  shows "(f \<notin> nulls \<longrightarrow> NewSequentialFile env f \<noteq> None \<and> NewRandomAccessFile env f \<noteq> None \<and>
      NewWritableFile env f \<noteq> None \<and> DeleteFile env f \<noteq> None \<and> GetFileSize env f \<noteq> None \<and> RenameFile env src f \<noteq> None) \<and>
    NewAppendableFile env f \<noteq> None \<and>
    (a \<in># hs \<or> named env a \<longrightarrow> heap_wf (heap env) a) \<and> (a \<in># hs \<longrightarrow> FileState_Unref a env \<noteq> None) \<and>
    (\<forall>fs. heap env a = Some fs \<longrightarrow> refs fs = (if named env a then 1 else 0) + int (count hs a) + int (count lk a))"
proof -
  have inv: "mem_inv env (hs + lk) nulls" using assms by (rule mem_reach_inv)
  have opens: "NewSequentialFile env f \<noteq> None \<and> NewRandomAccessFile env f \<noteq> None \<and> GetFileSize env f \<noteq> None" if "f \<notin> nulls"
  proof (cases "RBT.lookup (file_map env) f")
    case (Some p)
    with inv that show ?thesis
      by (elim mem_inv_lookup) (auto simp: NewSequentialFile_def NewRandomAccessFile_def GetFileSize_def FileState_Ref_def)
  qed (simp add: NewSequentialFile_def NewRandomAccessFile_def GetFileSize_def)
  have "NewWritableFile env f \<noteq> None" "DeleteFile env f \<noteq> None" if "f \<notin> nulls"
    using mem_inv_NewWritableFile [OF inv that] mem_inv_DeleteFile [OF inv that] by (metis option.distinct(1))+
  moreover have "RenameFile env src f \<noteq> None" if f: "f \<notin> nulls"
  proof (cases "src = f")
    case True
    obtain s e where "RenameFile env f f = Some (s, e)" by (rule mem_inv_RenameFile_self [OF inv f])
    with True show ?thesis by simp
  next
    case False
    obtain s e where "RenameFile env src f = Some (s, e)" by (rule mem_inv_RenameFile [OF inv False f])
    then show ?thesis by simp
  qed
  moreover have "NewAppendableFile env f \<noteq> None"
  proof (cases "RBT.lookup (file_map env) f \<in> {None, Some None}")
    case True
    then show ?thesis using mem_inv_NewAppendableFile_lost [OF inv] by (metis option.distinct(1))
  next
    case False
    then obtain b where b: "RBT.lookup (file_map env) f = Some (Some b)" by auto
    then have "f \<notin> nulls" using mem_inv_null [OF inv, of f] by auto
    with b show ?thesis using mem_inv_open [OF inv b] by (auto simp: NewAppendableFile_def)
  qed
  moreover have "a \<in># hs \<or> named env a \<longrightarrow> heap_wf (heap env) a"
    using mem_inv_cell [OF inv, of a] by (cases "heap env a") (auto simp: heap_wf_def count_eq_zero_iff)
  moreover have "a \<in># hs \<longrightarrow> FileState_Unref a env \<noteq> None"
    using mem_inv_Unref [OF inv, of a] by (metis option.distinct(1) union_iff)
  moreover have "\<forall>fs. heap env a = Some fs \<longrightarrow> refs fs = (if named env a then 1 else 0) + int (count hs a) + int (count lk a)"
    using mem_inv_cell [OF inv, of a] by auto
  ultimately show ?thesis using opens by blast
qed

text \<open>A file that is deleted while it is open for writing.\<close>

theorem memenv_refcounts_safe_witness:
  "\<exists>env a. mem_reach env {#a#} {#} {} \<and> \<not> named env a \<and> heap_wf (heap env) a \<and> refs (the (heap env a)) = 1"
proof -
  have inv: "mem_inv NewMemEnv {#} {}" using mem_reach_inv [OF mem_reach.init] by simp
  obtain a e where new: "NewWritableFile NewMemEnv (str ''f'') = Some (Status_OK, Some a, e)"
    using mem_inv_NewWritableFile [OF inv, of "str ''f''"] by blast
  have e: "mem_reach e {#a#} {#} {}" using mem_reach.open_writable [OF mem_reach.init new] by simp
  have names: "RBT.lookup (file_map e) g = (if g = str ''f'' then Some (Some a) else None)" for g
    using new by (auto simp: NewWritableFile_def FileState_alloc_def FileState_Ref_def NewMemEnv_def Let_def)
  have inv': "mem_inv e {#a#} {}" using mem_reach_inv [OF e] by simp
  obtain e' where del: "DeleteFileInternal e (str ''f'') = Some e'"
    "RBT.lookup (file_map e') = (RBT.lookup (file_map e))(str ''f'' := None)"
    using mem_inv_DeleteFileInternal [OF inv', of "str ''f''"] by blast
  then have "DeleteFile e (str ''f'') = Some (Status_OK, e')" by (simp add: DeleteFile_def names)
  then have e': "mem_reach e' {#a#} {#} {}" by (rule mem_reach.delete [OF e])
  moreover have nm: "\<not> named e' a" using del(2) names by (simp add: named_def)
  moreover have wf: "heap_wf (heap e') a" using memenv_refcounts_safe [OF e', of _ _ a] by simp
  ultimately show ?thesis using memenv_refcounts_safe [OF e', of _ _ a]
    by (intro exI [of _ e'] exI [of _ a]) (auto simp: heap_wf_def split: option.splits)
qed

text \<open>C38: opening a missing file for appending in the in-memory environment leaves a null pointer
  under its name: the file that was created is not stored, so the next open for reading, delete
  or size query of that name dereferences null.\<close>

theorem memenv_appendable_leaves_null:
  assumes "RBT.lookup (file_map env) f = None" and "NewAppendableFile env f = Some (s, r, env')"
  shows "ok s \<and> FileExists env' f \<and> NewSequentialFile env' f = None \<and>
    NewRandomAccessFile env' f = None \<and> DeleteFile env' f = None \<and> GetFileSize env' f = None"
  using assms
  by (auto simp: NewAppendableFile_def FileState_alloc_def FileState_Ref_def FileExists_def
      NewSequentialFile_def NewRandomAccessFile_def DeleteFile_def DeleteFileInternal_def GetFileSize_def)

theorem memenv_appendable_leaves_null_witness:
  "\<exists>s r env'. NewAppendableFile NewMemEnv (str ''f'') = Some (s, r, env') \<and>
     NewSequentialFile env' (str ''f'') = None"
proof -
  obtain s r env' where "NewAppendableFile NewMemEnv (str ''f'') = Some (s, r, env')"
    by (simp add: NewAppendableFile_def FileState_alloc_def FileState_Ref_def NewMemEnv_def)
  with memenv_appendable_leaves_null [OF _ this] show ?thesis by (auto simp: NewMemEnv_def)
qed

end
