(* ===== verification/Log_File.thy ===== *)
theory Log_File
  imports Memenv Crc32c
begin

text \<open>
  The write-ahead log: \<open>db/log_format.h\<close>, \<open>db/log_writer.cc\<close> and \<open>db/log_reader.cc\<close>. The writer and
  the reader are functions of the file operations they call. Writing records and reading them back
  is proved for every file that meets the contracts \<open>writable_file\<close> and \<open>sequential_file\<close>, and
  instantiated with the in-memory files.
\<close>

section \<open>Format\<close>

definition kZeroType :: byte where "kZeroType = 0"
definition kFullType :: byte where "kFullType = 1"
definition kFirstType :: byte where "kFirstType = 2"
definition kMiddleType :: byte where "kMiddleType = 3"
definition kLastType :: byte where "kLastType = 4"

definition log_kBlockSize :: nat where
  "log_kBlockSize = 32768"

definition kHeaderSize :: nat where
  "kHeaderSize = 4 + 2 + 1"

section \<open>Writer\<close>

record 'f log_Writer =
  dest :: 'f
  block_offset :: nat

definition log_Writer_new :: "'f \<Rightarrow> 'f log_Writer" where
  "log_Writer_new d = \<lparr> dest = d, block_offset = 0 \<rparr>"

definition log_Writer_reopen :: "'f \<Rightarrow> u64 \<Rightarrow> 'f log_Writer" where
  "log_Writer_reopen d dest_length =
     \<lparr> dest = d, block_offset = unat (dest_length mod of_nat log_kBlockSize) \<rparr>"

definition type_crc :: "byte \<Rightarrow> u32" where
  "type_crc t = Value 0 [t]"

text \<open>The address of the payload only matters to the alignment prologue of \<open>Extend\<close>, which does not
  change its value; address 0 is used throughout.\<close>

definition EmitPhysicalRecord ::
  "('f \<Rightarrow> bytes \<Rightarrow> Status \<times> 'f) \<Rightarrow> ('f \<Rightarrow> Status \<times> 'f) \<Rightarrow> byte \<Rightarrow> bytes \<Rightarrow> 'f log_Writer \<Rightarrow> Status \<times> 'f log_Writer" where
  "EmitPhysicalRecord Append Flush t ptr w =
     (let n = length ptr;
          crc = Mask (Extend 0 (type_crc t) ptr);
          buf = EncodeFixed32 crc @ [of_nat n AND 0xff, of_nat (n div 256), t];
          (s, d) = (case Append (dest w) buf of
             (s, d) \<Rightarrow> if ok s
               then (case Append d ptr of (s, d) \<Rightarrow> if ok s then Flush d else (s, d))
               else (s, d))
      in (s, \<lparr> dest = d, block_offset = block_offset w + (kHeaderSize + n) \<rparr>))"

definition AddRecord_switch_block :: "('f \<Rightarrow> bytes \<Rightarrow> Status \<times> 'f) \<Rightarrow> 'f log_Writer \<Rightarrow> 'f log_Writer" where
  "AddRecord_switch_block Append w =
     (let leftover = log_kBlockSize - block_offset w
      in if leftover < kHeaderSize
         then \<lparr> dest = (if 0 < leftover then snd (Append (dest w) (replicate leftover 0)) else dest w),
                block_offset = 0 \<rparr>
         else w)"

lemma block_offset_EmitPhysicalRecord:
  "EmitPhysicalRecord Append Flush t ptr w = (s, w') \<Longrightarrow>
     block_offset w' = block_offset w + kHeaderSize + length ptr"
  by (auto simp: EmitPhysicalRecord_def Let_def split: prod.splits if_splits)

lemma block_offset_switch_block:
  "block_offset (AddRecord_switch_block Append w) =
     (if log_kBlockSize - block_offset w < kHeaderSize then 0 else block_offset w)"
  by (simp add: AddRecord_switch_block_def Let_def)

function (sequential) AddRecord_loop ::
  "('f \<Rightarrow> bytes \<Rightarrow> Status \<times> 'f) \<Rightarrow> ('f \<Rightarrow> Status \<times> 'f) \<Rightarrow> bool \<Rightarrow> bytes \<Rightarrow> 'f log_Writer \<Rightarrow> Status \<times> 'f log_Writer" where
  "AddRecord_loop Append Flush begin ptr w =
     (let w = AddRecord_switch_block Append w;
          avail = log_kBlockSize - block_offset w - kHeaderSize;
          fragment_length = (if length ptr < avail then length ptr else avail);
          end' = (length ptr = fragment_length);
          type = (if begin \<and> end' then kFullType else if begin then kFirstType
                  else if end' then kLastType else kMiddleType)
      in case EmitPhysicalRecord Append Flush type (take fragment_length ptr) w of
           (s, w) \<Rightarrow>
             if ok s \<and> 0 < length ptr - fragment_length
             then AddRecord_loop Append Flush False (drop fragment_length ptr) w
             else (s, w))"
  by pat_completeness auto
termination
  by (relation "measure (\<lambda>(_, _, _, ptr, w). 2 * length ptr +
        (if block_offset w + kHeaderSize = log_kBlockSize then 1 else 0))")
    (auto simp: block_offset_switch_block log_kBlockSize_def kHeaderSize_def split: if_splits
      dest!: block_offset_EmitPhysicalRecord [OF sym])

declare AddRecord_loop.simps [simp del]

definition AddRecord ::
  "('f \<Rightarrow> bytes \<Rightarrow> Status \<times> 'f) \<Rightarrow> ('f \<Rightarrow> Status \<times> 'f) \<Rightarrow> bytes \<Rightarrow> 'f log_Writer \<Rightarrow> Status \<times> 'f log_Writer" where
  "AddRecord Append Flush payload w = AddRecord_loop Append Flush True payload w"

definition AddRecords ::
  "('f \<Rightarrow> bytes \<Rightarrow> Status \<times> 'f) \<Rightarrow> ('f \<Rightarrow> Status \<times> 'f) \<Rightarrow> bytes list \<Rightarrow> 'f log_Writer \<Rightarrow> 'f log_Writer" where
  "AddRecords Append Flush ds w = foldl (\<lambda>w d. snd (AddRecord Append Flush d w)) w ds"

section \<open>Reader\<close>

definition kEof :: u32 where "kEof = 5"
definition kBadRecord :: u32 where "kBadRecord = 6"

text \<open>\<open>reporting\<close> says whether a reporter was given; \<open>reports\<close> collects what it was told.\<close>

record 'f log_Reader =
  source :: 'f
  reporting :: bool
  checksum :: bool
  buffer :: bytes
  eof :: bool
  last_record_offset :: u64
  end_of_buffer_offset :: u64
  initial_offset :: u64
  resyncing :: bool
  reports :: "(u64 \<times> Status) list"

definition log_Reader_new :: "'f \<Rightarrow> bool \<Rightarrow> bool \<Rightarrow> u64 \<Rightarrow> 'f log_Reader" where
  "log_Reader_new f reporter check init =
     \<lparr> source = f, reporting = reporter, checksum = check, buffer = [], eof = False,
       last_record_offset = 0, end_of_buffer_offset = 0, initial_offset = init,
       resyncing = (0 < init), reports = [] \<rparr>"

definition ReportDrop :: "u64 \<Rightarrow> Status \<Rightarrow> 'f log_Reader \<Rightarrow> 'f log_Reader" where
  "ReportDrop n reason r =
     (if reporting r \<and> initial_offset r \<le> end_of_buffer_offset r - of_nat (length (buffer r)) - n
      then r\<lparr> reports := reports r @ [(n, reason)] \<rparr> else r)"

definition ReportCorruption :: "u64 \<Rightarrow> bytes \<Rightarrow> 'f log_Reader \<Rightarrow> 'f log_Reader" where
  "ReportCorruption n reason r = ReportDrop n (Corruption reason []) r"

definition SkipToInitialBlock ::
  "('f \<Rightarrow> u64 \<Rightarrow> Status \<times> 'f) \<Rightarrow> 'f log_Reader \<Rightarrow> bool \<times> 'f log_Reader" where
  "SkipToInitialBlock Skip r =
     (let offset_in_block = initial_offset r mod of_nat log_kBlockSize;
          block_start_location = initial_offset r - offset_in_block;
          block_start_location =
            (if of_nat log_kBlockSize - 6 < offset_in_block
             then block_start_location + of_nat log_kBlockSize else block_start_location);
          r = r\<lparr> end_of_buffer_offset := block_start_location \<rparr>
      in if 0 < block_start_location
         then (case Skip (source r) block_start_location of
                 (skip_status, f) \<Rightarrow>
                   let r = r\<lparr> source := f \<rparr>
                   in if \<not> ok skip_status then (False, ReportDrop block_start_location skip_status r)
                      else (True, r))
         else (True, r))"

text \<open>The part of the loop body after a header is known to be in the buffer. \<open>header[6]\<close> is a \<open>char\<close>
  that is sign-extended to \<open>unsigned int\<close>.\<close>

definition ParsePhysicalRecord :: "'f log_Reader \<Rightarrow> u32 \<times> bytes \<times> 'f log_Reader" where
  "ParsePhysicalRecord r =
     (let header = buffer r;
          type = scast (header ! 6) :: u32;
          len = unat (header ! 4) + 256 * unat (header ! 5)
      in if length (buffer r) < kHeaderSize + len
         then (let drop_size = of_nat (length (buffer r));
                   r = r\<lparr> buffer := [] \<rparr>
               in if \<not> eof r
                  then (kBadRecord, [], ReportCorruption drop_size (str ''bad record length'') r)
                  else (kEof, [], r))
         else if type = 0 \<and> len = 0 then (kBadRecord, [], r\<lparr> buffer := [] \<rparr>)
         else if checksum r \<and>
           Value 0 (take (1 + len) (drop 6 header)) \<noteq> Unmask (DecodeFixed32 header)
         then (let drop_size = of_nat (length (buffer r));
                   r = r\<lparr> buffer := [] \<rparr>
               in (kBadRecord, [], ReportCorruption drop_size (str ''checksum mismatch'') r))
         else (let r = r\<lparr> buffer := drop (kHeaderSize + len) (buffer r) \<rparr>
               in if end_of_buffer_offset r - of_nat (length (buffer r)) - of_nat kHeaderSize - of_nat len
                     < initial_offset r
                  then (kBadRecord, [], r)
                  else (type, take len (drop kHeaderSize header), r)))"

function (sequential) ReadPhysicalRecord ::
  "('f \<Rightarrow> nat \<Rightarrow> Status \<times> bytes \<times> 'f) \<Rightarrow> 'f log_Reader \<Rightarrow> u32 \<times> bytes \<times> 'f log_Reader" where
  "ReadPhysicalRecord Read r =
     (if length (buffer r) < kHeaderSize
      then (if \<not> eof r
            then (case Read (source r) log_kBlockSize of
                    (status, buf, f) \<Rightarrow>
                      let r = r\<lparr> source := f, buffer := buf,
                                 end_of_buffer_offset := end_of_buffer_offset r + of_nat (length buf) \<rparr>
                      in if \<not> ok status
                         then (kEof, [],
                               (ReportDrop (of_nat log_kBlockSize) status (r\<lparr> buffer := [] \<rparr>))\<lparr> eof := True \<rparr>)
                         else ReadPhysicalRecord Read
                                (if length buf < log_kBlockSize then r\<lparr> eof := True \<rparr> else r))
            else (kEof, [], r\<lparr> buffer := [] \<rparr>))
      else ParsePhysicalRecord r)"
  by pat_completeness auto
termination
  by (relation "measure (\<lambda>(_, r). if length (buffer r) < kHeaderSize \<and> \<not> eof r then 1 else 0)")
    (auto simp: log_kBlockSize_def kHeaderSize_def)

declare ReadPhysicalRecord.simps [simp del]

text \<open>One turn of the loop of \<open>ReadRecord\<close>: it goes on with the local variables \<open>in_fragmented_record\<close>,
  \<open>*scratch\<close> and \<open>prospective_record_offset\<close>, or returns the flag, \<open>*record\<close> and \<open>*scratch\<close>.\<close>

datatype 'f read_step =
    Continue bool bytes u64 "'f log_Reader"
  | Return bool bytes bytes "'f log_Reader"

definition HandleRecord ::
  "bool \<Rightarrow> bytes \<Rightarrow> u64 \<Rightarrow> u64 \<Rightarrow> u32 \<Rightarrow> bytes \<Rightarrow> 'f log_Reader \<Rightarrow> 'f read_step" where
  "HandleRecord in_fragmented scratch prospective physical_record_offset record_type fragment r =
     (let size = of_nat (length scratch)
      in if record_type = ucast kFullType
         then (let r = (if in_fragmented \<and> scratch \<noteq> []
                        then ReportCorruption size (str ''partial record without end(1)'') r else r)
               in Return True fragment [] (r\<lparr> last_record_offset := physical_record_offset \<rparr>))
         else if record_type = ucast kFirstType
         then (let r = (if in_fragmented \<and> scratch \<noteq> []
                        then ReportCorruption size (str ''partial record without end(2)'') r else r)
               in Continue True fragment physical_record_offset r)
         else if record_type = ucast kMiddleType
         then (if \<not> in_fragmented
               then Continue in_fragmented scratch prospective
                      (ReportCorruption (of_nat (length fragment))
                         (str ''missing start of fragmented record(1)'') r)
               else Continue in_fragmented (scratch @ fragment) prospective r)
         else if record_type = ucast kLastType
         then (if \<not> in_fragmented
               then Continue in_fragmented scratch prospective
                      (ReportCorruption (of_nat (length fragment))
                         (str ''missing start of fragmented record(2)'') r)
               else Return True (scratch @ fragment) (scratch @ fragment)
                      (r\<lparr> last_record_offset := prospective \<rparr>))
         else if record_type = kEof
         then Return False [] (if in_fragmented then [] else scratch) r
         else if record_type = kBadRecord
         then (if in_fragmented
               then Continue False [] prospective
                      (ReportCorruption size (str ''error in middle of record'') r)
               else Continue in_fragmented scratch prospective r)
         else Continue False [] prospective
                (ReportCorruption (of_nat (length fragment) + (if in_fragmented then size else 0))
                   (str ''unknown record type '' @ decimal (unat record_type)) r))"

definition ReadRecord_step ::
  "('f \<Rightarrow> nat \<Rightarrow> Status \<times> bytes \<times> 'f) \<Rightarrow> bool \<Rightarrow> bytes \<Rightarrow> u64 \<Rightarrow> 'f log_Reader \<Rightarrow> 'f read_step" where
  "ReadRecord_step Read in_fragmented scratch prospective r =
     (let physical_record_offset = end_of_buffer_offset r - of_nat (length (buffer r)) in
      case ReadPhysicalRecord Read r of (record_type, fragment, r) \<Rightarrow>
        if resyncing r \<and> record_type = ucast kMiddleType
        then Continue in_fragmented scratch prospective r
        else if resyncing r \<and> record_type = ucast kLastType
        then Continue in_fragmented scratch prospective (r\<lparr> resyncing := False \<rparr>)
        else HandleRecord in_fragmented scratch prospective physical_record_offset record_type fragment
               (r\<lparr> resyncing := False \<rparr>))"

text \<open>The loop itself; \<open>None\<close> is a loop that does not end.\<close>

partial_function (option) ReadRecord_loop ::
  "('f \<Rightarrow> nat \<Rightarrow> Status \<times> bytes \<times> 'f) \<Rightarrow> bool \<Rightarrow> bytes \<Rightarrow> u64 \<Rightarrow> 'f log_Reader \<Rightarrow>
    (bool \<times> bytes \<times> bytes \<times> 'f log_Reader) option" where
  "ReadRecord_loop Read in_fragmented scratch prospective r =
     (case ReadRecord_step Read in_fragmented scratch prospective r of
        Continue in_fragmented scratch prospective r \<Rightarrow>
          ReadRecord_loop Read in_fragmented scratch prospective r
      | Return result rec scratch r \<Rightarrow> Some (result, rec, scratch, r))"

definition ReadRecord ::
  "('f \<Rightarrow> nat \<Rightarrow> Status \<times> bytes \<times> 'f) \<Rightarrow> ('f \<Rightarrow> u64 \<Rightarrow> Status \<times> 'f) \<Rightarrow> 'f log_Reader \<Rightarrow>
    (bool \<times> bytes \<times> bytes \<times> 'f log_Reader) option" where
  "ReadRecord Read Skip r =
     (case (if last_record_offset r < initial_offset r then SkipToInitialBlock Skip r else (True, r)) of
        (skipped, r) \<Rightarrow> if \<not> skipped then Some (False, [], [], r)
                       else ReadRecord_loop Read False [] 0 r)"

definition LastRecordOffset :: "'f log_Reader \<Rightarrow> u64" where
  "LastRecordOffset r = last_record_offset r"

section \<open>The layout of a log\<close>

text \<open>A physical record goes to offset \<open>placed bo\<close> of a block, after zero padding when the block has
  no room for a header.\<close>

definition placed :: "nat \<Rightarrow> nat" where
  "placed bo = (if log_kBlockSize - bo < kHeaderSize then 0 else bo)"

definition padding :: "nat \<Rightarrow> bytes" where
  "padding bo = (if log_kBlockSize - bo < kHeaderSize then replicate (log_kBlockSize - bo) 0 else [])"

definition phys :: "byte \<Rightarrow> bytes \<Rightarrow> bytes" where
  "phys t d = EncodeFixed32 (Mask (Extend 0 (type_crc t) d)) @
     [of_nat (length d) AND 0xff, of_nat (length d div 256), t] @ d"

fun log_bytes :: "nat \<Rightarrow> (byte \<times> bytes) list \<Rightarrow> bytes" where
  "log_bytes bo [] = []"
| "log_bytes bo ((t, d) # fs) =
     padding bo @ phys t d @ log_bytes (placed bo + kHeaderSize + length d) fs"

fun log_end :: "nat \<Rightarrow> (byte \<times> bytes) list \<Rightarrow> nat" where
  "log_end bo [] = bo"
| "log_end bo ((t, d) # fs) = log_end (placed bo + kHeaderSize + length d) fs"

function fragments :: "bool \<Rightarrow> nat \<Rightarrow> bytes \<Rightarrow> (byte \<times> bytes) list" where
  "fragments begin bo d =
     (let n = min (length d) (log_kBlockSize - placed bo - kHeaderSize);
          t = (if begin \<and> length d = n then kFullType else if begin then kFirstType
               else if length d = n then kLastType else kMiddleType)
      in (t, take n d) #
         (if n < length d then fragments False (placed bo + kHeaderSize + n) (drop n d) else []))"
  by pat_completeness auto
termination
  by (relation "measure (\<lambda>(_, bo, d). 2 * length d + (if bo + kHeaderSize = log_kBlockSize then 1 else 0))")
    (auto simp: placed_def log_kBlockSize_def kHeaderSize_def split: if_splits)

declare fragments.simps [simp del]

text \<open>The first fragment, and where the next one starts.\<close>

definition frag_len :: "nat \<Rightarrow> bytes \<Rightarrow> nat" where
  "frag_len bo d = min (length d) (log_kBlockSize - placed bo - kHeaderSize)"

definition frag_next :: "nat \<Rightarrow> bytes \<Rightarrow> nat" where
  "frag_next bo d = placed bo + kHeaderSize + frag_len bo d"

definition frag_type :: "bool \<Rightarrow> nat \<Rightarrow> bytes \<Rightarrow> byte" where
  "frag_type begin bo d =
     (if begin then if frag_len bo d < length d then kFirstType else kFullType
      else if frag_len bo d < length d then kMiddleType else kLastType)"

lemma length_take_frag [simp]: "length (take (frag_len bo d) d) = frag_len bo d"
  by (simp add: frag_len_def)

lemma fragments_eq:
  "fragments b bo d = (frag_type b bo d, take (frag_len bo d) d) #
     (if frag_len bo d < length d then fragments False (frag_next bo d) (drop (frag_len bo d) d) else [])"
  unfolding fragments.simps [of b bo d] Let_def frag_len_def [symmetric] frag_next_def
  by (auto simp: frag_type_def) (auto simp: frag_len_def)

lemma fragments_induct [case_names step]:
  assumes "\<And>bo d. (frag_len bo d < length d \<Longrightarrow> P (frag_next bo d) (drop (frag_len bo d) d)) \<Longrightarrow> P bo d"
  shows "P bo d"
proof (induction False bo d rule: fragments.induct)
  case (1 bo d)
  show ?case
    by (rule assms) (rule 1 [OF frag_len_def refl, folded frag_next_def], simp)
qed

fun record_fragments :: "nat \<Rightarrow> bytes list \<Rightarrow> (byte \<times> bytes) list" where
  "record_fragments bo [] = []"
| "record_fragments bo (d # ds) =
     fragments True bo d @ record_fragments (log_end bo (fragments True bo d)) ds"

lemma log_bytes_append: "log_bytes bo (fs @ gs) = log_bytes bo fs @ log_bytes (log_end bo fs) gs"
  by (induction bo fs rule: log_bytes.induct) simp_all

lemma log_end_append: "log_end bo (fs @ gs) = log_end (log_end bo fs) gs"
  by (induction bo fs rule: log_bytes.induct) simp_all

lemma record_fragments_append:
  "record_fragments bo (xs @ ys) =
     record_fragments bo xs @ record_fragments (log_end bo (record_fragments bo xs)) ys"
  by (induction xs arbitrary: bo) (simp_all add: log_end_append)

lemma length_phys [simp]: "length (phys t d) = kHeaderSize + length d"
  by (simp add: phys_def kHeaderSize_def)

lemma placed_fits: "placed bo + kHeaderSize \<le> log_kBlockSize"
  by (auto simp: placed_def log_kBlockSize_def kHeaderSize_def)

lemma frag_next_le: "frag_next bo d \<le> log_kBlockSize"
  using placed_fits [of bo] by (simp add: frag_next_def frag_len_def)

lemma frag_fits: "placed bo + kHeaderSize + length (take (frag_len bo d) d) \<le> log_kBlockSize"
  using frag_next_le [of bo d] by (simp add: frag_next_def)

lemma frag_type_nonzero: "frag_type b bo d \<noteq> 0"
  by (simp add: frag_type_def kFirstType_def kFullType_def kMiddleType_def kLastType_def)

lemma log_bytes_fragments:
  "log_bytes bo (fragments b bo d) = (padding bo @ phys (frag_type b bo d) (take (frag_len bo d) d)) @
     (if frag_len bo d < length d
      then log_bytes (frag_next bo d) (fragments False (frag_next bo d) (drop (frag_len bo d) d)) else [])"
  by (subst fragments_eq) (simp add: frag_next_def del: length_take)

lemma log_end_fragments:
  "log_end bo (fragments b bo d) =
     (if frag_len bo d < length d
      then log_end (frag_next bo d) (fragments False (frag_next bo d) (drop (frag_len bo d) d))
      else frag_next bo d)"
  by (subst fragments_eq) (simp add: frag_next_def del: length_take)

text \<open>The writer's position after a fragment stays within the block.\<close>

lemma log_end_fragments_le: "log_end bo (fragments b bo d) \<le> log_kBlockSize"
proof (induction bo d arbitrary: b rule: fragments_induct)
  case (step bo d)
  then show ?case by (simp add: log_end_fragments [of bo b] frag_next_le)
qed

text \<open>The layout only depends on the offset modulo the block size, so a writer that is reopened at
  the end of the file goes on where the last one stopped.\<close>

lemma placed_cong:
  assumes "bo \<le> log_kBlockSize" and "bo' \<le> log_kBlockSize" and "bo mod log_kBlockSize = bo' mod log_kBlockSize"
  shows "placed bo = placed bo'" and "padding bo = padding bo'"
proof -
  have "bo = bo' \<or> bo = 0 \<and> bo' = log_kBlockSize \<or> bo = log_kBlockSize \<and> bo' = 0"
    using assms by (cases "bo = log_kBlockSize"; cases "bo' = log_kBlockSize") simp_all
  then show "placed bo = placed bo'" and "padding bo = padding bo'"
    by (auto simp: placed_def padding_def log_kBlockSize_def kHeaderSize_def)
qed

lemma record_fragments_cong:
  assumes "bo \<le> log_kBlockSize" and "bo' \<le> log_kBlockSize" and "bo mod log_kBlockSize = bo' mod log_kBlockSize"
  shows "log_bytes bo (record_fragments bo ds) = log_bytes bo' (record_fragments bo' ds)"
proof (cases ds)
  case (Cons d ds')
  have "fragments True bo d = fragments True bo' d"
    using placed_cong(1) [OF assms] by (simp add: fragments_eq [of True bo] fragments_eq [of True bo'] frag_len_def
        frag_next_def frag_type_def)
  moreover have "log_bytes bo fs = log_bytes bo' fs" and "fs \<noteq> [] \<Longrightarrow> log_end bo fs = log_end bo' fs" for fs
    by (cases fs; use placed_cong [OF assms] in auto)+
  moreover have "fragments True bo' d \<noteq> []" by (subst fragments_eq) simp
  ultimately show ?thesis by (simp add: Cons log_bytes_append)
qed simp

lemma log_end_record_fragments_le: "bo \<le> log_kBlockSize \<Longrightarrow> log_end bo (record_fragments bo ds) \<le> log_kBlockSize"
  by (induction ds arbitrary: bo) (simp_all add: log_end_append log_end_fragments_le)

lemma log_end_mod:
  assumes "bo \<le> log_kBlockSize"
  shows "(bo + length (log_bytes bo (fragments b bo d))) mod log_kBlockSize =
    log_end bo (fragments b bo d) mod log_kBlockSize"
  using assms
proof (induction bo d arbitrary: b rule: fragments_induct)
  case (step bo d)
  let ?rest = "if frag_len bo d < length d
      then log_bytes (frag_next bo d) (fragments False (frag_next bo d) (drop (frag_len bo d) d)) else []"
  have "length (padding bo) + bo = placed bo + (if log_kBlockSize - bo < kHeaderSize then log_kBlockSize else 0)"
    using step.prems by (simp add: padding_def placed_def)
  then have "bo + length (log_bytes bo (fragments b bo d)) =
      frag_next bo d + length ?rest + (if log_kBlockSize - bo < kHeaderSize then log_kBlockSize else 0)"
    unfolding log_bytes_fragments [of bo b d] by (simp add: frag_next_def frag_len_def)
  then have "(bo + length (log_bytes bo (fragments b bo d))) mod log_kBlockSize =
      (frag_next bo d + length ?rest) mod log_kBlockSize"
    by (simp split: if_splits)
  also have "\<dots> = log_end bo (fragments b bo d) mod log_kBlockSize"
    unfolding log_end_fragments [of bo b d] using step.IH [OF _ frag_next_le] by simp
  finally show ?case .
qed

lemma log_end_records_mod:
  assumes "bo \<le> log_kBlockSize"
  shows "(bo + length (log_bytes bo (record_fragments bo ds))) mod log_kBlockSize =
    log_end bo (record_fragments bo ds) mod log_kBlockSize"
  using assms
proof (induction ds arbitrary: bo)
  case (Cons d ds)
  let ?bo = "log_end bo (fragments True bo d)"
  have "(bo + length (log_bytes bo (record_fragments bo (d # ds)))) mod log_kBlockSize =
      (bo + length (log_bytes bo (fragments True bo d)) + length (log_bytes ?bo (record_fragments ?bo ds))) mod log_kBlockSize"
    by (simp add: log_bytes_append add.assoc)
  also have "\<dots> = (?bo + length (log_bytes ?bo (record_fragments ?bo ds))) mod log_kBlockSize"
    using log_end_mod [OF Cons.prems, of True d] by (metis mod_add_cong)
  finally show ?case using Cons.IH [OF log_end_fragments_le] by (simp add: log_end_append)
qed simp

section \<open>The writer writes this layout\<close>

context reliable_file
begin

lemma Emit_next:
  assumes "writable (dest w)"
  obtains s w' where "EmitPhysicalRecord Append Flush t d w = (s, w')" and "ok s"
    and "writable (dest w')" and "contents (dest w') = contents (dest w) @ phys t d"
    and "block_offset w' = block_offset w + kHeaderSize + length d"
proof -
  let ?h = "EncodeFixed32 (Mask (Extend 0 (type_crc t) d)) @ [of_nat (length d) AND 0xff, of_nat (length d div 256), t]"
  obtain s1 f1 where 1: "Append (dest w) ?h = (s1, f1)" "ok s1" "writable f1" "contents f1 = contents (dest w) @ ?h"
    by (rule Append_next [OF assms])
  obtain s2 f2 where 2: "Append f1 d = (s2, f2)" "ok s2" "writable f2" "contents f2 = contents f1 @ d"
    by (rule Append_next [OF 1(3)])
  obtain s3 f3 where 3: "Flush f2 = (s3, f3)" "ok s3" "writable f3" "contents f3 = contents f2"
    by (rule Flush_next [OF 2(3)])
  show ?thesis
    by (rule that [of s3 "\<lparr> dest = f3, block_offset = block_offset w + (kHeaderSize + length d) \<rparr>"])
      (use 1 2 3 in \<open>simp_all add: EmitPhysicalRecord_def Let_def phys_def\<close>)
qed

lemma switch_next:
  assumes "writable (dest w)"
  shows "writable (dest (AddRecord_switch_block Append w)) \<and>
    contents (dest (AddRecord_switch_block Append w)) = contents (dest w) @ padding (block_offset w) \<and>
    block_offset (AddRecord_switch_block Append w) = placed (block_offset w)"
proof -
  obtain s f where "Append (dest w) (replicate (log_kBlockSize - block_offset w) 0) = (s, f)"
      "writable f" "contents f = contents (dest w) @ replicate (log_kBlockSize - block_offset w) 0"
    using Append_next [OF assms] by metis
  with assms show ?thesis by (simp add: AddRecord_switch_block_def Let_def padding_def placed_def)
qed

lemma AddRecord_loop_layout:
  assumes "writable (dest w)"
  shows "\<exists>s w'. AddRecord_loop Append Flush b d w = (s, w') \<and> ok s \<and> writable (dest w') \<and>
    contents (dest w') = contents (dest w) @ log_bytes (block_offset w) (fragments b (block_offset w) d) \<and>
    block_offset w' = log_end (block_offset w) (fragments b (block_offset w) d)"
  using assms
proof (induction "b" "block_offset w" d arbitrary: w rule: fragments.induct)
  case (1 b d w)
  define v where "v = AddRecord_switch_block Append w"
  define n where "n = min (length d) (log_kBlockSize - placed (block_offset w) - kHeaderSize)"
  define t where "t = (if b \<and> length d = n then kFullType else if b then kFirstType
      else if length d = n then kLastType else kMiddleType)"
  have v: "writable (dest v)" "contents (dest v) = contents (dest w) @ padding (block_offset w)"
      "block_offset v = placed (block_offset w)"
    using switch_next [OF 1(2)] by (simp_all add: v_def)
  obtain s u where u: "EmitPhysicalRecord Append Flush t (take n d) v = (s, u)" "ok s" "writable (dest u)"
      "contents (dest u) = contents (dest v) @ phys t (take n d)"
      "block_offset u = block_offset v + kHeaderSize + length (take n d)"
    by (rule Emit_next [OF v(1)])
  have len: "length (take n d) = n" by (simp add: n_def)
  have n: "n = (if length d < log_kBlockSize - block_offset v - kHeaderSize then length d
      else log_kBlockSize - block_offset v - kHeaderSize)"
    by (simp add: n_def v(3) min_def)
  have loop: "AddRecord_loop Append Flush b d w =
      (if 0 < length d - n then AddRecord_loop Append Flush False (drop n d) u else (s, u))"
    unfolding AddRecord_loop.simps [of _ _ b d w] Let_def v_def [symmetric] n [symmetric] t_def [symmetric]
    using u(1,2) by simp
  have frags: "fragments b (block_offset w) d =
      (t, take n d) # (if n < length d then fragments False (block_offset u) (drop n d) else [])"
    unfolding fragments.simps [of b "block_offset w" d] Let_def n_def [symmetric] t_def [symmetric] u(5) v(3) len ..
  show ?case
  proof (cases "n < length d")
    case True
    have "\<exists>s w'. AddRecord_loop Append Flush False (drop n d) u = (s, w') \<and> ok s \<and> writable (dest w') \<and>
        contents (dest w') = contents (dest u) @ log_bytes (block_offset u) (fragments False (block_offset u) (drop n d)) \<and>
        block_offset w' = log_end (block_offset u) (fragments False (block_offset u) (drop n d))"
      using 1(1) [OF n_def t_def True, of u] u(3,5) len v(3) by simp
    then show ?thesis using True loop frags u v len by auto
  next
    case False
    then show ?thesis using loop frags u v len by simp
  qed
qed

lemma AddRecords_layout:
  assumes "writable (dest w)"
  shows "writable (dest (AddRecords Append Flush ds w)) \<and>
    contents (dest (AddRecords Append Flush ds w)) =
      contents (dest w) @ log_bytes (block_offset w) (record_fragments (block_offset w) ds) \<and>
    block_offset (AddRecords Append Flush ds w) = log_end (block_offset w) (record_fragments (block_offset w) ds)"
  using assms
proof (induction ds arbitrary: w)
  case Nil
  then show ?case by (simp add: AddRecords_def)
next
  case (Cons d ds)
  obtain s u where u: "AddRecord Append Flush d w = (s, u)" "writable (dest u)"
      "contents (dest u) = contents (dest w) @ log_bytes (block_offset w) (fragments True (block_offset w) d)"
      "block_offset u = log_end (block_offset w) (fragments True (block_offset w) d)"
    using AddRecord_loop_layout [OF Cons.prems, of True d] unfolding AddRecord_def by blast
  with Cons.IH [OF u(2)] show ?case
    by (simp add: AddRecords_def log_bytes_append log_end_append)
qed

end

section \<open>Reading a whole log\<close>

text \<open>The loop of the recovery code: read records until \<open>ReadRecord\<close> returns false.\<close>

partial_function (option) read_all ::
  "('f \<Rightarrow> nat \<Rightarrow> Status \<times> bytes \<times> 'f) \<Rightarrow> ('f \<Rightarrow> u64 \<Rightarrow> Status \<times> 'f) \<Rightarrow> bytes list \<Rightarrow> 'f log_Reader \<Rightarrow>
    (bytes list \<times> 'f log_Reader) option" where
  "read_all Read Skip acc r =
     Option.bind (ReadRecord Read Skip r)
       (\<lambda>(found, rec, scratch, r). if found then read_all Read Skip (acc @ [rec]) r else Some (acc, r))"

section \<open>Parsing one physical record\<close>

lemma ReadPhysicalRecord_parse:
  "kHeaderSize \<le> length (buffer r) \<Longrightarrow> ReadPhysicalRecord Read r = ParsePhysicalRecord r"
  by (simp add: ReadPhysicalRecord.simps)

lemma ReadPhysicalRecord_eof:
  "length (buffer r) < kHeaderSize \<Longrightarrow> eof r \<Longrightarrow> ReadPhysicalRecord Read r = (kEof, [], r\<lparr> buffer := [] \<rparr>)"
  by (simp add: ReadPhysicalRecord.simps)

lemma phys_header:
  assumes "length d < 65536"
  shows "unat (phys t d ! 4) + 256 * unat (phys t d ! 5) = length d" and "phys t d ! 6 = t"
    and "drop kHeaderSize (phys t d) = d" and "drop 6 (phys t d) = t # d"
    and "DecodeFixed32 (phys t d @ rest) = Mask (Extend 0 (type_crc t) d)"
proof -
  have "unat (of_nat (length d) AND 0xff :: byte) = length d mod 256"
  proof -
    have "(of_nat (length d) AND 0xff :: byte) = take_bit 8 (of_nat (length d))"
      by (simp add: take_bit_eq_mask mask_numeral)
    then show ?thesis by (simp add: unat_mod unsigned_of_nat take_bit_eq_mod)
  qed
  moreover have "unat (of_nat (length d div 256) :: byte) = length d div 256"
    using assms by (intro unat_of_nat_small) (simp add: less_mult_imp_div_less)
  ultimately show "unat (phys t d ! 4) + 256 * unat (phys t d ! 5) = length d"
    by (simp add: phys_def nth_append)
  show "phys t d ! 6 = t" "drop kHeaderSize (phys t d) = d" "drop 6 (phys t d) = t # d"
    "DecodeFixed32 (phys t d @ rest) = Mask (Extend 0 (type_crc t) d)"
    by (simp_all add: phys_def nth_append kHeaderSize_def)
qed

lemma phys_nth: "i < kHeaderSize \<Longrightarrow> (phys t d @ rest) ! i = phys t d ! i"
  by (simp add: nth_append)

lemma scast_nonzero: "(t :: byte) \<noteq> 0 \<Longrightarrow> (scast t :: u32) \<noteq> 0"
proof (rule contrapos_nn)
  assume "(scast t :: u32) = 0"
  moreover have "t = ucast (scast t :: u32)"
  proof (rule bit_eqI)
    fix n assume "possible_bit TYPE(byte) n"
    then consider "n < 7" | "n = 7" by fastforce
    then show "bit t n = bit (ucast (scast t :: u32) :: byte) n"
      by cases (simp_all add: bit_simps)
  qed
  ultimately show "t = 0" by simp
qed

lemma Parse_phys:
  assumes "buffer r = phys t d @ rest" and "length d < 65536" and "t \<noteq> 0" and "initial_offset r = 0"
  shows "ParsePhysicalRecord r = (scast t, d, r\<lparr> buffer := rest \<rparr>)"
proof -
  note h = phys_header [OF assms(2), of t]
  have nths: "(phys t d @ rest) ! 4 = phys t d ! 4" "(phys t d @ rest) ! 5 = phys t d ! 5"
      "(phys t d @ rest) ! 6 = t"
    using h(2) by (simp_all add: phys_nth kHeaderSize_def)
  have crc: "Value 0 (take (1 + length d) (drop 6 (phys t d @ rest))) = Extend 0 (type_crc t) d"
    using h(4) Extend_append [of 0 0 0 "[t]" d 0]
    by (simp only: Value_def type_crc_def) (simp add: kHeaderSize_def)
  have "(scast t :: u32) \<noteq> 0"
    using assms(3) scast_nonzero by simp
  then show ?thesis
    using assms(1,4) h crc
    by (simp add: ParsePhysicalRecord_def Let_def nths h(1))
qed

lemma Parse_truncated:
  assumes "buffer r @ z = phys t d" and "z \<noteq> []" and "kHeaderSize \<le> length (buffer r)"
    and "length d < 65536" and "eof r"
  shows "ParsePhysicalRecord r = (kEof, [], r\<lparr> buffer := [] \<rparr>)"
proof -
  have "buffer r ! i = phys t d ! i" if "i < kHeaderSize" for i
    using assms(1,3) that by (metis nth_append order_less_le_trans)
  then have "unat (buffer r ! 4) + 256 * unat (buffer r ! 5) = length d"
    using phys_header(1) [OF assms(4), of t] by (simp add: kHeaderSize_def)
  moreover have "length (buffer r) < kHeaderSize + length d"
    using assms(2) arg_cong [OF assms(1), of length] by (cases z) simp_all
  ultimately show ?thesis using assms(5) by (simp add: ParsePhysicalRecord_def Let_def)
qed

section \<open>The reader follows the layout\<close>

context sequential_file
begin

text \<open>The reader stands at offset \<open>bo\<close> of a block with the bytes \<open>x\<close> still to come.\<close>

definition reader_at :: "nat \<Rightarrow> bytes \<Rightarrow> 'f log_Reader \<Rightarrow> bool" where
  "reader_at bo x r \<longleftrightarrow> readable (source r) \<and> buffer r @ remaining (source r) = x \<and>
     (if eof r then remaining (source r) = [] \<and> bo + length (buffer r) < log_kBlockSize
      else bo + length (buffer r) = log_kBlockSize) \<and>
     initial_offset r = 0 \<and> \<not> resyncing r"

lemma reader_at_new:
  "readable f \<Longrightarrow> reader_at log_kBlockSize (remaining f) (log_Reader_new f rep chk 0)"
  by (simp add: reader_at_def log_Reader_new_def)

text \<open>A block without room for a header is left behind by reading the next one.\<close>

lemma refill:
  assumes "reader_at bo x r" and "log_kBlockSize - bo < kHeaderSize" and "\<not> eof r"
  obtains r' where "ReadPhysicalRecord Read r = ReadPhysicalRecord Read r'"
    and "reader_at 0 (drop (log_kBlockSize - bo) x) r'" and "reports r' = reports r"
proof -
  have r: "readable (source r)" "buffer r @ remaining (source r) = x" "bo + length (buffer r) = log_kBlockSize"
    using assms by (simp_all add: reader_at_def)
  define c where "c = drop (log_kBlockSize - bo) x"
  have len: "length (buffer r) = log_kBlockSize - bo" using r(3) by simp
  then have rem: "remaining (source r) = c"
    using r(2) unfolding c_def by (metis append_eq_conv_conj)
  obtain f where f: "Read (source r) log_kBlockSize = (Status_OK, take log_kBlockSize c, f)"
      "readable f" "remaining f = drop log_kBlockSize c"
    using Read_next [OF r(1)] unfolding rem by blast
  let ?b = "take log_kBlockSize c"
  let ?r = "r\<lparr> source := f, buffer := ?b, end_of_buffer_offset := end_of_buffer_offset r + of_nat (length ?b) \<rparr>"
  let ?r' = "if length ?b < log_kBlockSize then ?r\<lparr> eof := True \<rparr> else ?r"
  have "ReadPhysicalRecord Read r = ReadPhysicalRecord Read ?r'"
    using len assms(2,3) f(1) by (subst ReadPhysicalRecord.simps) (simp add: Let_def)
  moreover have "reader_at 0 c ?r'"
    using assms(1,3) f(2,3) by (auto simp: reader_at_def)
  moreover have "reports ?r' = reports r" by simp
  ultimately show ?thesis using that unfolding c_def by blast
qed

lemma read_phys_core:
  assumes "reader_at bo (phys t d @ y) r" and "bo + kHeaderSize + length d \<le> log_kBlockSize" and "t \<noteq> 0"
  obtains r' where "ReadPhysicalRecord Read r = (scast t, d, r')"
    and "reader_at (bo + kHeaderSize + length d) y r'" and "reports r' = reports r"
proof -
  define b where "b = drop (kHeaderSize + length d) (buffer r)"
  have eq: "buffer r @ remaining (source r) = phys t d @ y"
    using assms(1) by (simp add: reader_at_def)
  have "kHeaderSize + length d \<le> length (buffer r)"
    using assms(1,2) by (auto simp: reader_at_def split: if_splits)
  then have "take (kHeaderSize + length d) (buffer r) = phys t d"
    using arg_cong [OF eq, of "take (kHeaderSize + length d)"] by simp
  then have b: "buffer r = phys t d @ b" unfolding b_def by (metis append_take_drop_id)
  with eq have y: "b @ remaining (source r) = y" by simp
  have "length d < 65536" using assms(2) by (simp add: log_kBlockSize_def)
  then have "ReadPhysicalRecord Read r = (scast t, d, r\<lparr> buffer := b \<rparr>)"
    using assms(1,3) b by (simp add: ReadPhysicalRecord_parse Parse_phys reader_at_def)
  moreover have "reader_at (bo + kHeaderSize + length d) y (r\<lparr> buffer := b \<rparr>)"
    using assms(1) b y by (auto simp: reader_at_def split: if_splits)
  ultimately show ?thesis using that by simp
qed

lemma read_truncated_core:
  assumes "reader_at bo x r" and "bo + kHeaderSize + length d \<le> log_kBlockSize"
    and "x @ z = phys t d" and "z \<noteq> []"
  shows "ReadPhysicalRecord Read r = (kEof, [], r\<lparr> buffer := [] \<rparr>)"
proof -
  have "length x < kHeaderSize + length d"
    using assms(4) arg_cong [OF assms(3), of length] by (cases z) simp_all
  then have eof: "eof r" "buffer r = x"
    using assms(1,2) by (auto simp: reader_at_def split: if_splits)
  have "length d < 65536" using assms(2) by (simp add: log_kBlockSize_def)
  then show ?thesis
    using eof assms(3,4)
    by (cases "length x < kHeaderSize")
      (auto simp: ReadPhysicalRecord_eof ReadPhysicalRecord_parse intro: Parse_truncated)
qed

lemma read_phys:
  assumes "reader_at bo (padding bo @ phys t d @ y) r"
    and "placed bo + kHeaderSize + length d \<le> log_kBlockSize" and "t \<noteq> 0"
  obtains r' where "ReadPhysicalRecord Read r = (scast t, d, r')"
    and "reader_at (placed bo + kHeaderSize + length d) y r'" and "reports r' = reports r"
proof (cases "log_kBlockSize - bo < kHeaderSize")
  case True
  have pad: "length (padding bo) = log_kBlockSize - bo" "placed bo = 0"
    using True by (simp_all add: padding_def placed_def)
  have "\<not> eof r"
    using assms(1) pad by (auto simp: reader_at_def)
  then obtain r1 where r1: "ReadPhysicalRecord Read r = ReadPhysicalRecord Read r1"
      "reader_at 0 (drop (log_kBlockSize - bo) (padding bo @ phys t d @ y)) r1" "reports r1 = reports r"
    by (rule refill [OF assms(1) True])
  have "reader_at 0 (phys t d @ y) r1" using r1(2) pad(1) by simp
  moreover have "0 + kHeaderSize + length d \<le> log_kBlockSize" using assms(2) pad by simp
  ultimately obtain r' where "ReadPhysicalRecord Read r1 = (scast t, d, r')"
      "reader_at (0 + kHeaderSize + length d) y r'" "reports r' = reports r1"
    using assms(3) by (rule read_phys_core)
  with r1 pad that show ?thesis by simp
next
  case False
  then have "padding bo = []" "placed bo = bo" by (simp_all add: padding_def placed_def)
  then have at: "reader_at bo (phys t d @ y) r" "bo + kHeaderSize + length d \<le> log_kBlockSize"
    using assms(1,2) by simp_all
  obtain r' where "ReadPhysicalRecord Read r = (scast t, d, r')"
      "reader_at (bo + kHeaderSize + length d) y r'" "reports r' = reports r"
    using at assms(3) by (rule read_phys_core)
  with \<open>placed bo = bo\<close> that show ?thesis by simp
qed

lemma read_truncated:
  assumes "reader_at bo x r" and "placed bo + kHeaderSize + length d \<le> log_kBlockSize"
    and "x @ z = padding bo @ phys t d" and "z \<noteq> []"
  obtains r' where "ReadPhysicalRecord Read r = (kEof, [], r')" and "reports r' = reports r"
    and "\<not> resyncing r'"
proof (cases "log_kBlockSize - bo < kHeaderSize")
  case True
  have pad: "length (padding bo) = log_kBlockSize - bo" "placed bo = 0"
    using True by (simp_all add: padding_def placed_def)
  show ?thesis
  proof (cases "eof r")
    case eof: True
    then have "length (buffer r) < kHeaderSize" using assms(1) True by (auto simp: reader_at_def)
    with eof assms(1) that show ?thesis by (simp add: ReadPhysicalRecord_eof reader_at_def)
  next
    case False
    then obtain r1 where r1: "ReadPhysicalRecord Read r = ReadPhysicalRecord Read r1"
        "reader_at 0 (drop (log_kBlockSize - bo) x) r1" "reports r1 = reports r"
      by (rule refill [OF assms(1) True])
    have "log_kBlockSize - bo \<le> length x" using assms(1) False by (auto simp: reader_at_def)
    then have "drop (log_kBlockSize - bo) x @ z = phys t d"
      using arg_cong [OF assms(3), of "drop (log_kBlockSize - bo)"] pad by simp
    with read_truncated_core [OF r1(2) _ this assms(4)] r1 assms(2) pad that show ?thesis
      by (simp add: reader_at_def)
  qed
next
  case False
  then have "padding bo = []" "placed bo = bo" by (simp_all add: padding_def placed_def)
  with read_truncated_core [of bo x r d z t] assms that show ?thesis by (simp add: reader_at_def)
qed

text \<open>A record whose fragments are all there is read back, and the reader stands behind it; a record
  that is cut short is the end of the log. Nothing is reported in either case.\<close>

lemma ReadRecord_loop_Continue:
  "ReadRecord_step Read b s p r = Continue b' s' p' r' \<Longrightarrow>
     ReadRecord_loop Read b s p r = ReadRecord_loop Read b' s' p' r'"
  by (simp add: ReadRecord_loop.simps [of _ b])

lemma ReadRecord_loop_Return:
  "ReadRecord_step Read b s p r = Return x rec s' r' \<Longrightarrow>
     ReadRecord_loop Read b s p r = Some (x, rec, s', r')"
  by (simp add: ReadRecord_loop.simps [of _ b])

lemma step_phys:
  assumes "ReadPhysicalRecord Read r = (t, d, r')" and "\<not> resyncing r'"
  shows "\<exists>off. ReadRecord_step Read b s p r = HandleRecord b s p off t d r'"
proof -
  have upd: "r'\<lparr> resyncing := False \<rparr> = r'" using assms(2) by simp
  have "ReadRecord_step Read b s p r =
      HandleRecord b s p (end_of_buffer_offset r - of_nat (length (buffer r))) t d (r'\<lparr> resyncing := False \<rparr>)"
    using assms by (simp add: ReadRecord_step_def Let_def)
  then show ?thesis unfolding upd by blast
qed

lemmas record_types = kFullType_def kFirstType_def kMiddleType_def kLastType_def kEof_def kBadRecord_def

lemma types_scast:
  "scast kFullType = (1 :: u32)" "scast kFirstType = (2 :: u32)"
  "scast kMiddleType = (3 :: u32)" "scast kLastType = (4 :: u32)"
  by (simp_all add: record_types)

lemma reader_at_not_resyncing: "reader_at bo x r \<Longrightarrow> \<not> resyncing r"
  by (simp add: reader_at_def)

lemma read_first:
  assumes "reader_at bo (log_bytes bo (fragments b bo d) @ y) r"
  obtains r' off where "ReadRecord_step Read b' s p r =
      HandleRecord b' s p off (scast (frag_type b bo d)) (take (frag_len bo d) d) r'"
    and "reader_at (frag_next bo d) ((if frag_len bo d < length d
      then log_bytes (frag_next bo d) (fragments False (frag_next bo d) (drop (frag_len bo d) d)) else []) @ y) r'"
    and "reports r' = reports r"
proof -
  let ?rest = "(if frag_len bo d < length d
      then log_bytes (frag_next bo d) (fragments False (frag_next bo d) (drop (frag_len bo d) d)) else []) @ y"
  have "reader_at bo (padding bo @ phys (frag_type b bo d) (take (frag_len bo d) d) @ ?rest) r"
    using assms unfolding log_bytes_fragments [of bo b d] append.assoc .
  then obtain r1 where r1: "ReadPhysicalRecord Read r = (scast (frag_type b bo d), take (frag_len bo d) d, r1)"
      "reader_at (placed bo + kHeaderSize + length (take (frag_len bo d) d)) ?rest r1" "reports r1 = reports r"
    using frag_fits frag_type_nonzero by (rule read_phys)
  from step_phys [OF r1(1) reader_at_not_resyncing [OF r1(2)], of b' s p] obtain off where
    off: "ReadRecord_step Read b' s p r = HandleRecord b' s p off (scast (frag_type b bo d)) (take (frag_len bo d) d) r1" ..
  show ?thesis using that [OF off _ r1(3)] r1(2) unfolding length_take_frag frag_next_def .
qed

lemma read_rest:
  assumes "reader_at bo (log_bytes bo (fragments False bo d) @ y) r"
  shows "\<exists>r'. ReadRecord_loop Read True s p r = Some (True, s @ d, s @ d, r') \<and>
    reader_at (log_end bo (fragments False bo d)) y r' \<and> reports r' = reports r"
  using assms
proof (induction bo d arbitrary: r s rule: fragments_induct)
  case (step bo d)
  obtain r1 off where r1: "ReadRecord_step Read True s p r =
        HandleRecord True s p off (scast (frag_type False bo d)) (take (frag_len bo d) d) r1"
      "reader_at (frag_next bo d) ((if frag_len bo d < length d
        then log_bytes (frag_next bo d) (fragments False (frag_next bo d) (drop (frag_len bo d) d)) else []) @ y) r1"
      "reports r1 = reports r"
    using step.prems by (rule read_first)
  show ?case
  proof (cases "frag_len bo d < length d")
    case True
    then have "ReadRecord_step Read True s p r = Continue True (s @ take (frag_len bo d) d) p r1"
      unfolding r1 by (simp add: HandleRecord_def frag_type_def types_scast Let_def record_types)
    then have "ReadRecord_loop Read True s p r = ReadRecord_loop Read True (s @ take (frag_len bo d) d) p r1"
      by (rule ReadRecord_loop_Continue)
    then show ?thesis
      using step.IH [OF True, of r1 "s @ take (frag_len bo d) d"] r1(2,3) True
      by (simp add: log_end_fragments [of bo])
  next
    case False
    then have "take (frag_len bo d) d = d" by simp
    with False have "ReadRecord_step Read True s p r = Return True (s @ d) (s @ d) (r1\<lparr> last_record_offset := p \<rparr>)"
      unfolding r1 by (simp add: HandleRecord_def frag_type_def types_scast Let_def record_types)
    then have "ReadRecord_loop Read True s p r = Some (True, s @ d, s @ d, r1\<lparr> last_record_offset := p \<rparr>)"
      by (rule ReadRecord_loop_Return)
    then show ?thesis using r1(2,3) False by (simp add: log_end_fragments [of bo] reader_at_def)
  qed
qed

lemma read_record:
  assumes "reader_at bo (log_bytes bo (fragments True bo d) @ y) r"
  obtains s' r' where "ReadRecord_loop Read False [] p r = Some (True, d, s', r')"
    and "reader_at (log_end bo (fragments True bo d)) y r'" and "reports r' = reports r"
proof -
  obtain r1 off where r1: "ReadRecord_step Read False [] p r =
        HandleRecord False [] p off (scast (frag_type True bo d)) (take (frag_len bo d) d) r1"
      "reader_at (frag_next bo d) ((if frag_len bo d < length d
        then log_bytes (frag_next bo d) (fragments False (frag_next bo d) (drop (frag_len bo d) d)) else []) @ y) r1"
      "reports r1 = reports r"
    using assms by (rule read_first)
  show ?thesis
  proof (cases "frag_len bo d < length d")
    case True
    then have "ReadRecord_step Read False [] p r = Continue True (take (frag_len bo d) d) off r1"
      unfolding r1 by (simp add: HandleRecord_def frag_type_def types_scast Let_def record_types)
    then have "ReadRecord_loop Read False [] p r = ReadRecord_loop Read True (take (frag_len bo d) d) off r1"
      by (rule ReadRecord_loop_Continue)
    moreover have "reader_at (frag_next bo d)
        (log_bytes (frag_next bo d) (fragments False (frag_next bo d) (drop (frag_len bo d) d)) @ y) r1"
      using r1(2) True by simp
    from read_rest [OF this] obtain r' where "ReadRecord_loop Read True (take (frag_len bo d) d) off r1 =
        Some (True, take (frag_len bo d) d @ drop (frag_len bo d) d, take (frag_len bo d) d @ drop (frag_len bo d) d, r')"
      "reader_at (log_end (frag_next bo d) (fragments False (frag_next bo d) (drop (frag_len bo d) d))) y r'"
      "reports r' = reports r1" by blast
    ultimately show ?thesis
      using r1(3) True by (intro that [of d r']) (simp_all add: log_end_fragments [of bo])
  next
    case False
    then have "take (frag_len bo d) d = d" by simp
    with False have "ReadRecord_step Read False [] p r = Return True d [] (r1\<lparr> last_record_offset := off \<rparr>)"
      unfolding r1 by (simp add: HandleRecord_def frag_type_def types_scast Let_def record_types)
    then have "ReadRecord_loop Read False [] p r = Some (True, d, [], r1\<lparr> last_record_offset := off \<rparr>)"
      by (rule ReadRecord_loop_Return)
    with that r1(2,3) False show ?thesis by (simp add: log_end_fragments [of bo] reader_at_def)
  qed
qed

text \<open>Logs that stop in the middle of a record.\<close>

lemma read_first_truncated:
  assumes "reader_at bo x r" and "x @ z = log_bytes bo (fragments b bo d)" and "z \<noteq> []"
  obtains (eof) off r' where "ReadRecord_step Read b' s p r = HandleRecord b' s p off kEof [] r'"
      and "reports r' = reports r"
    | (more) off r' x' where "frag_len bo d < length d"
      and "ReadRecord_step Read b' s p r = HandleRecord b' s p off (scast (frag_type b bo d)) (take (frag_len bo d) d) r'"
      and "reader_at (frag_next bo d) x' r'" and "reports r' = reports r"
      and "x' @ z = log_bytes (frag_next bo d) (fragments False (frag_next bo d) (drop (frag_len bo d) d))"
proof -
  let ?first = "padding bo @ phys (frag_type b bo d) (take (frag_len bo d) d)"
  let ?rest = "if frag_len bo d < length d
      then log_bytes (frag_next bo d) (fragments False (frag_next bo d) (drop (frag_len bo d) d)) else []"
  have "x @ z = ?first @ ?rest" using assms(2) unfolding log_bytes_fragments [of bo b d] .
  from this assms(3) show ?thesis
  proof (cases rule: proper_prefix_cases)
    case (inside z')
    obtain r1 where r1: "ReadPhysicalRecord Read r = (kEof, [], r1)" "reports r1 = reports r" "\<not> resyncing r1"
      using assms(1) frag_fits inside(2,1) by (rule read_truncated)
    from step_phys [OF r1(1,3), of b' s p] obtain off where
      off: "ReadRecord_step Read b' s p r = HandleRecord b' s p off kEof [] r1" ..
    show ?thesis using off r1(2) by (rule eof)
  next
    case (past x')
    have at: "reader_at bo (padding bo @ phys (frag_type b bo d) (take (frag_len bo d) d) @ x') r"
      using assms(1) past(1) by simp
    obtain r1 where r1: "ReadPhysicalRecord Read r = (scast (frag_type b bo d), take (frag_len bo d) d, r1)"
        "reader_at (placed bo + kHeaderSize + length (take (frag_len bo d) d)) x' r1" "reports r1 = reports r"
      using at frag_fits frag_type_nonzero by (rule read_phys)
    from step_phys [OF r1(1) reader_at_not_resyncing [OF r1(2)], of b' s p] obtain off where
      off: "ReadRecord_step Read b' s p r = HandleRecord b' s p off (scast (frag_type b bo d)) (take (frag_len bo d) d) r1" ..
    have "frag_len bo d < length d" using past(2) assms(3) by (auto split: if_splits)
    then show ?thesis
      using more [OF _ off _ r1(3)] r1(2) past(2) unfolding length_take_frag frag_next_def by simp
  qed
qed

lemma read_rest_truncated:
  assumes "reader_at bo x r" and "x @ z = log_bytes bo (fragments False bo d)" and "z \<noteq> []"
  shows "\<exists>r'. ReadRecord_loop Read True s p r = Some (False, [], [], r') \<and> reports r' = reports r"
  using assms
proof (induction bo d arbitrary: r s x rule: fragments_induct)
  case (step bo d)
  from step.prems show ?case
  proof (cases rule: read_first_truncated [where b' = True and s = s and p = p])
    case (eof off r')
    then have "ReadRecord_step Read True s p r = Return False [] [] r'"
      by (simp add: HandleRecord_def Let_def record_types)
    from ReadRecord_loop_Return [OF this] eof(2) show ?thesis by simp
  next
    case (more off r' x')
    then have "ReadRecord_step Read True s p r = Continue True (s @ take (frag_len bo d) d) p r'"
      by (simp add: HandleRecord_def frag_type_def types_scast Let_def record_types)
    from ReadRecord_loop_Continue [OF this] step.IH [OF more(1,3,5) step.prems(3)] more(4)
    show ?thesis by simp
  qed
qed

lemma read_record_truncated:
  assumes "reader_at bo x r" and "x @ z = log_bytes bo (fragments True bo d)" and "z \<noteq> []"
  obtains r' where "ReadRecord_loop Read False [] p r = Some (False, [], [], r')" and "reports r' = reports r"
  using assms
proof (cases rule: read_first_truncated [where b' = False and s = "[]" and p = p])
  case (eof off r')
  then have "ReadRecord_step Read False [] p r = Return False [] [] r'"
    by (simp add: HandleRecord_def Let_def record_types)
  from ReadRecord_loop_Return [OF this] eof(2) that show ?thesis by simp
next
  case (more off r' x')
  then have "ReadRecord_step Read False [] p r = Continue True (take (frag_len bo d) d) off r'"
    by (simp add: HandleRecord_def frag_type_def types_scast Let_def record_types)
  moreover obtain r1 where "ReadRecord_loop Read True (take (frag_len bo d) d) off r' = Some (False, [], [], r1)"
      "reports r1 = reports r'"
    using read_rest_truncated [OF more(3,5) assms(3)] by blast
  ultimately show ?thesis using more(4) by (intro that [of r1]) (simp_all add: ReadRecord_loop_Continue)
qed

lemma ReadRecord_offset0: "initial_offset r = 0 \<Longrightarrow> ReadRecord Read Skip r = ReadRecord_loop Read False [] 0 r"
  by (simp add: ReadRecord_def)

lemma reader_at_initial: "reader_at bo x r \<Longrightarrow> initial_offset r = 0"
  by (simp add: reader_at_def)

text \<open>Reading a log to its end returns exactly the records that are completely there.\<close>

lemma read_all_prefix:
  assumes "reader_at bo x r" and "x @ z = log_bytes bo (record_fragments bo ds)"
  shows "\<exists>m r'. read_all Read Skip acc r = Some (acc @ take m ds, r') \<and> reports r' = reports r \<and>
    (\<forall>k \<le> length ds. length (log_bytes bo (record_fragments bo (take k ds))) \<le> length x \<longrightarrow> k \<le> m)"
  using assms
proof (induction ds arbitrary: bo x r acc)
  case Nil
  then have "x @ log_bytes bo (fragments True bo []) = log_bytes bo (fragments True bo [])" by simp
  moreover have "log_bytes bo (fragments True bo []) \<noteq> []"
    by (subst log_bytes_fragments) (simp add: phys_def)
  ultimately obtain r' where "ReadRecord_loop Read False [] 0 r = Some (False, [], [], r')" "reports r' = reports r"
    by (rule read_record_truncated [OF Nil.prems(1)])
  then show ?case
    using Nil.prems(1) by (subst read_all.simps) (simp add: ReadRecord_offset0 reader_at_initial)
next
  case (Cons d ds)
  let ?first = "log_bytes bo (fragments True bo d)"
  let ?bo = "log_end bo (fragments True bo d)"
  have split: "x @ z = ?first @ log_bytes ?bo (record_fragments ?bo ds)"
    using Cons.prems(2) by (simp add: log_bytes_append)
  show ?case
  proof (cases "length ?first \<le> length x")
    case True
    define x' where "x' = drop (length ?first) x"
    have "take (length ?first) x = ?first"
      using arg_cong [OF split, of "take (length ?first)"] True by simp
    then have x: "x = ?first @ x'" unfolding x'_def by (metis append_take_drop_id)
    with split have x': "x' @ z = log_bytes ?bo (record_fragments ?bo ds)" by simp
    obtain s' r1 where r1: "ReadRecord_loop Read False [] 0 r = Some (True, d, s', r1)"
        "reader_at ?bo x' r1" "reports r1 = reports r"
      using Cons.prems(1) unfolding x by (rule read_record)
    obtain m r' where m: "read_all Read Skip (acc @ [d]) r1 = Some ((acc @ [d]) @ take m ds, r')"
        "reports r' = reports r1"
        "\<forall>k \<le> length ds. length (log_bytes ?bo (record_fragments ?bo (take k ds))) \<le> length x' \<longrightarrow> k \<le> m"
      using Cons.IH [OF r1(2) x'] by blast
    have "read_all Read Skip acc r = read_all Read Skip (acc @ [d]) r1"
      using r1(1) Cons.prems(1) by (subst read_all.simps) (simp add: ReadRecord_offset0 reader_at_initial)
    moreover have "k \<le> Suc m" if "k \<le> length (d # ds)"
        "length (log_bytes bo (record_fragments bo (take k (d # ds)))) \<le> length x" for k
      using that m(3) by (cases k) (auto simp: log_bytes_append x)
    ultimately show ?thesis using m(1,2) r1(3) by (intro exI [of _ "Suc m"] exI [of _ r']) simp
  next
    case False
    define z' where "z' = drop (length x) ?first"
    have "take (length x) ?first = x"
      using arg_cong [OF split, of "take (length x)"] False by simp
    then have "x @ z' = ?first" unfolding z'_def by (metis append_take_drop_id)
    moreover have "z' \<noteq> []" using False by (simp add: z'_def)
    ultimately obtain r' where r': "ReadRecord_loop Read False [] 0 r = Some (False, [], [], r')" "reports r' = reports r"
      by (rule read_record_truncated [OF Cons.prems(1)])
    then have "read_all Read Skip acc r = Some (acc @ take 0 (d # ds), r')"
      using Cons.prems(1) by (subst read_all.simps) (simp add: ReadRecord_offset0 reader_at_initial)
    moreover have "k \<le> 0" if "length (log_bytes bo (record_fragments bo (take k (d # ds)))) \<le> length x" for k
      using that False by (cases k) (auto simp: log_bytes_append)
    ultimately show ?thesis using r'(2) by (intro exI [of _ 0] exI [of _ r']) simp
  qed
qed

text \<open>The reader stops on every file: each turn that does not return uses up some bytes.\<close>

definition to_come :: "'f log_Reader \<Rightarrow> nat" where
  "to_come r = length (buffer r) + length (remaining (source r))"

lemma Report_keeps [simp]:
  "source (ReportCorruption n s r) = source r" "buffer (ReportCorruption n s r) = buffer r"
  by (simp_all add: ReportCorruption_def ReportDrop_def)

lemma Parse_consumes:
  assumes "ParsePhysicalRecord r = (t, d, r')" and "kHeaderSize \<le> length (buffer r)"
  shows "source r' = source r \<and> length (buffer r') < length (buffer r)"
  using assms by (auto simp: ParsePhysicalRecord_def Let_def kHeaderSize_def split: if_splits)

lemma ReadPhysicalRecord_consumes_settled:
  assumes "readable (source r)" and "ReadPhysicalRecord Read r = (t, d, r')"
    and "kHeaderSize \<le> length (buffer r) \<or> eof r"
  shows "readable (source r') \<and> (t = kEof \<and> to_come r' \<le> to_come r \<or> to_come r' < to_come r)"
proof (cases "kHeaderSize \<le> length (buffer r)")
  case True
  with Parse_consumes [of r t d r'] assms show ?thesis
    by (simp add: ReadPhysicalRecord_parse to_come_def)
next
  case False
  with assms show ?thesis by (auto simp: ReadPhysicalRecord_eof to_come_def)
qed

lemma ReadPhysicalRecord_consumes:
  assumes "readable (source r)" and "ReadPhysicalRecord Read r = (t, d, r')"
  shows "readable (source r') \<and> (t = kEof \<and> to_come r' \<le> to_come r \<or> to_come r' < to_come r)"
proof (cases "kHeaderSize \<le> length (buffer r) \<or> eof r")
  case True
  with assms show ?thesis by (rule ReadPhysicalRecord_consumes_settled)
next
  case False
  obtain f where f: "Read (source r) log_kBlockSize = (Status_OK, take log_kBlockSize (remaining (source r)), f)"
      "readable f" "remaining f = drop log_kBlockSize (remaining (source r))"
    using Read_next [OF assms(1)] by blast
  let ?b = "take log_kBlockSize (remaining (source r))"
  let ?r = "r\<lparr> source := f, buffer := ?b, end_of_buffer_offset := end_of_buffer_offset r + of_nat (length ?b) \<rparr>"
  define r1 where "r1 = (if length ?b < log_kBlockSize then ?r\<lparr> eof := True \<rparr> else ?r)"
  have "ReadPhysicalRecord Read r1 = (t, d, r')"
    using False f(1) assms(2) by (subst (asm) ReadPhysicalRecord.simps) (simp add: Let_def r1_def)
  moreover have "readable (source r1)" "kHeaderSize \<le> length (buffer r1) \<or> eof r1" "to_come r1 \<le> to_come r"
    using f by (auto simp: r1_def to_come_def log_kBlockSize_def kHeaderSize_def)
  ultimately show ?thesis using ReadPhysicalRecord_consumes_settled [of r1] by fastforce
qed

lemma HandleRecord_Continue:
  assumes "HandleRecord b s p off t d r = Continue b' s' p' r'"
  shows "t \<noteq> kEof \<and> source r' = source r \<and> buffer r' = buffer r"
  using assms by (auto simp: HandleRecord_def Let_def record_types split: if_splits)

lemma HandleRecord_Return:
  assumes "HandleRecord b s p off t d r = Return x rec s' r'"
  shows "(x \<longrightarrow> t \<noteq> kEof) \<and> source r' = source r \<and> buffer r' = buffer r"
  using assms by (auto simp: HandleRecord_def Let_def record_types split: if_splits)

lemma step_consumes:
  assumes "readable (source r)"
  shows "case ReadRecord_step Read b s p r of
      Continue b' s' p' r' \<Rightarrow> readable (source r') \<and> to_come r' < to_come r
    | Return x rec s' r' \<Rightarrow> readable (source r') \<and> to_come r' \<le> to_come r \<and> (x \<longrightarrow> to_come r' < to_come r)"
proof -
  obtain t d r1 where r1: "ReadPhysicalRecord Read r = (t, d, r1)" by (metis prod_cases3)
  have c: "readable (source r1)" "t = kEof \<and> to_come r1 \<le> to_come r \<or> to_come r1 < to_come r"
    using ReadPhysicalRecord_consumes [OF assms r1] by simp_all
  show ?thesis
  proof (cases "resyncing r1 \<and> (t = ucast kMiddleType \<or> t = ucast kLastType)")
    case True
    then have "t \<noteq> kEof" by (auto simp: record_types)
    with True r1 c show ?thesis by (auto simp: ReadRecord_step_def to_come_def)
  next
    case False
    let ?h = "HandleRecord b s p (end_of_buffer_offset r - of_nat (length (buffer r))) t d (r1\<lparr> resyncing := False \<rparr>)"
    have step: "ReadRecord_step Read b s p r = ?h" using False r1 by (auto simp: ReadRecord_step_def Let_def)
    show ?thesis
    proof (cases ?h)
      case (Continue b' s' p' r')
      from HandleRecord_Continue [OF Continue] c show ?thesis unfolding step Continue by (simp add: to_come_def)
    next
      case (Return x rec s' r')
      from HandleRecord_Return [OF Return] c show ?thesis unfolding step Return by (auto simp: to_come_def)
    qed
  qed
qed

lemma ReadRecord_loop_total:
  assumes "readable (source r)"
  shows "\<exists>x rec s' r'. ReadRecord_loop Read b s p r = Some (x, rec, s', r') \<and> readable (source r') \<and>
    to_come r' \<le> to_come r \<and> (x \<longrightarrow> to_come r' < to_come r)"
  using assms
proof (induction "to_come r" arbitrary: b s p r rule: less_induct)
  case less
  show ?case
  proof (cases "ReadRecord_step Read b s p r")
    case (Continue b' s' p' r')
    with step_consumes [OF less.prems, of b s p] have "readable (source r')" "to_come r' < to_come r" by simp_all
    with less.hyps [of r' b' s' p'] show ?thesis
      unfolding ReadRecord_loop_Continue [OF Continue] by fastforce
  next
    case (Return x rec s' r')
    with step_consumes [OF less.prems, of b s p] show ?thesis
      by (simp add: ReadRecord_loop_Return)
  qed
qed

lemma SkipToInitialBlock_keeps:
  assumes "readable (source r)" and "SkipToInitialBlock Skip r = (b, r')"
  shows "readable (source r') \<and> to_come r' \<le> to_come r"
proof -
  have skip: "readable f \<and> length (remaining f) \<le> length (remaining (source r))"
    if "Skip (source r) k = (st, f)" for k st f
    using Skip_next [OF assms(1), of k] that by auto
  show ?thesis
    using assms skip
    by (auto simp: SkipToInitialBlock_def Let_def to_come_def ReportDrop_def split: if_splits prod.splits)
qed

lemma ReadRecord_total:
  assumes "readable (source r)"
  shows "\<exists>x rec s' r'. ReadRecord Read Skip r = Some (x, rec, s', r') \<and> readable (source r') \<and>
    (x \<longrightarrow> to_come r' < to_come r)"
proof -
  obtain b r1 where skip: "(if last_record_offset r < initial_offset r then SkipToInitialBlock Skip r else (True, r)) = (b, r1)"
    by fastforce
  then have r1: "readable (source r1)" "to_come r1 \<le> to_come r"
    using assms SkipToInitialBlock_keeps [OF assms, of b r1] by (auto split: if_splits)
  obtain x rec s' r' where "ReadRecord_loop Read False [] 0 r1 = Some (x, rec, s', r')" "readable (source r')"
      "x \<longrightarrow> to_come r' < to_come r1"
    using ReadRecord_loop_total [OF r1(1)] by blast
  with r1 skip show ?thesis by (cases b) (auto simp: ReadRecord_def)
qed

lemma read_all_total:
  "readable (source r) \<Longrightarrow> \<exists>rs r'. read_all Read Skip acc r = Some (acc @ rs, r')"
proof (induction "to_come r" arbitrary: acc r rule: less_induct)
  case less
  obtain x rec s' r' where r': "ReadRecord Read Skip r = Some (x, rec, s', r')" "readable (source r')"
      "x \<longrightarrow> to_come r' < to_come r"
    using ReadRecord_total [OF less.prems] by blast
  show ?case
  proof (cases x)
    case True
    with r' have "\<exists>rs r''. read_all Read Skip (acc @ [rec]) r' = Some ((acc @ [rec]) @ rs, r'')"
      using less.hyps [of r' "acc @ [rec]"] by simp
    then show ?thesis using True r'(1) by (subst read_all.simps) auto
  next
    case False
    then show ?thesis using r'(1) by (subst read_all.simps) auto
  qed
qed

end

section \<open>The in-memory files\<close>

lemma unat_mod_block: "unat (of_nat n mod of_nat log_kBlockSize :: u64) = n mod log_kBlockSize"
proof -
  have "unat (of_nat n mod of_nat log_kBlockSize :: u64) = n mod 2 ^ 64 mod 32768"
    by (simp add: unat_mod unsigned_of_nat take_bit_eq_mod log_kBlockSize_def)
  also have "\<dots> = n mod 32768" by (rule mod_mod_cancel) (simp add: dvd_def)
  finally show ?thesis by (simp add: log_kBlockSize_def)
qed

text \<open>Writing to the in-memory file at address \<open>a\<close> of the heap \<open>h\<close>, in two sessions, and reading it.\<close>

abbreviation mem_log :: "bytes list \<Rightarrow> file_heap \<times> addr \<Rightarrow> (file_heap \<times> addr) log_Writer" where
  "mem_log ds f \<equiv> AddRecords WritableFile_Append WritableFile_Flush ds (log_Writer_new f)"

definition mem_log_reopened :: "bytes list \<Rightarrow> bytes list \<Rightarrow> file_heap \<times> addr \<Rightarrow> (file_heap \<times> addr) log_Writer" where
  "mem_log_reopened ds ds' f =
     (let f = dest (mem_log ds f);
          size = FileState_Size (the (fst f (snd f)))
      in AddRecords WritableFile_Append WritableFile_Flush ds' (log_Writer_reopen f (of_nat size)))"

abbreviation mem_read_all :: "file_heap \<times> addr \<Rightarrow> bool \<Rightarrow> (bytes list \<times> SequentialFile log_Reader) option" where
  "mem_read_all f check \<equiv> read_all (SequentialFile_Read (fst f)) (SequentialFile_Skip (fst f)) []
     (log_Reader_new \<lparr> seq_file = snd f, pos = 0 \<rparr> True check 0)"

lemma mem_log_contents:
  assumes "heap_wf h a" and "FileState_contents (the (h a)) = []"
  obtains h' where "dest (mem_log ds (h, a)) = (h', a)" and "heap_wf h' a"
    and "FileState_contents (the (h' a)) = log_bytes 0 (record_fragments 0 ds)"
    and "block_offset (mem_log ds (h, a)) = log_end 0 (record_fragments 0 ds)"
  using memlog.AddRecords_layout [of a "log_Writer_new (h, a)" ds] assms that
  by (cases "dest (mem_log ds (h, a))") (auto simp: log_Writer_new_def)

lemma mem_log_reopened_contents:
  assumes "heap_wf h a" and "FileState_contents (the (h a)) = []"
  obtains h' where "dest (mem_log_reopened ds ds' (h, a)) = (h', a)" and "heap_wf h' a"
    and "FileState_contents (the (h' a)) = log_bytes 0 (record_fragments 0 (ds @ ds'))"
proof -
  obtain h1 where h1: "dest (mem_log ds (h, a)) = (h1, a)" "heap_wf h1 a"
      "FileState_contents (the (h1 a)) = log_bytes 0 (record_fragments 0 ds)"
    by (rule mem_log_contents [OF assms])
  define size where "size = FileState_Size (the (h1 a))"
  define bo where "bo = log_end 0 (record_fragments 0 ds)"
  have size: "size = length (log_bytes 0 (record_fragments 0 ds))"
    using h1(2,3) length_FileState_contents [of "the (h1 a)"]
    by (auto simp: size_def FileState_Size_def heap_wf_def split: option.splits)
  have bo: "bo \<le> log_kBlockSize" "size mod log_kBlockSize = bo mod log_kBlockSize"
    using log_end_record_fragments_le [of 0 ds] log_end_records_mod [of 0 ds] by (simp_all add: bo_def size)
  let ?w = "log_Writer_reopen (h1, a) (of_nat size)"
  let ?w' = "AddRecords WritableFile_Append WritableFile_Flush ds' ?w"
  have off: "block_offset ?w = size mod log_kBlockSize"
    unfolding log_Writer_reopen_def log_Writer.simps by (rule unat_mod_block)
  have "log_bytes (block_offset ?w) (record_fragments (block_offset ?w) ds') = log_bytes bo (record_fragments bo ds')"
    using bo unfolding off by (intro record_fragments_cong) (simp_all add: log_kBlockSize_def less_imp_le)
  with memlog.AddRecords_layout [of a ?w ds'] h1(2,3)
  obtain h' where "dest ?w' = (h', a)" "heap_wf h' a"
    "FileState_contents (the (h' a)) = log_bytes 0 (record_fragments 0 ds) @ log_bytes bo (record_fragments bo ds')"
    by (cases "dest ?w'") (auto simp: log_Writer_reopen_def)
  moreover have "mem_log_reopened ds ds' (h, a) = ?w'"
    using h1(1) by (simp add: mem_log_reopened_def size_def)
  ultimately show ?thesis using that by (simp add: record_fragments_append log_bytes_append bo_def)
qed

lemma mem_read_prefix:
  assumes "heap_wf h a" and "FileState_contents (the (h a)) @ z = log_bytes 0 (record_fragments 0 ds)"
  shows "\<exists>m r. mem_read_all (h, a) check = Some (take m ds, r) \<and> reports r = [] \<and>
    (\<forall>k \<le> length ds. length (log_bytes 0 (record_fragments 0 (take k ds))) \<le> length (FileState_contents (the (h a))) \<longrightarrow> k \<le> m)"
proof -
  let ?sf = "\<lparr> seq_file = a, pos = 0 \<rparr>"
  have cong: "log_bytes log_kBlockSize (record_fragments log_kBlockSize ds) = log_bytes 0 (record_fragments 0 ds)" for ds
    by (rule record_fragments_cong) simp_all
  have "memseq.reader_at h log_kBlockSize (FileState_contents (the (h a))) (log_Reader_new ?sf True check 0)"
    using memseq.reader_at_new [where f = ?sf and h = h] assms(1) by simp
  from memseq.read_all_prefix [OF this, of z ds "[]"] assms(2)
  show ?thesis by (auto simp: cong log_Reader_new_def)
qed

text \<open>The special values of \<open>ReadPhysicalRecord\<close> share their codes with the type bytes 5 and 6: a record
  of type 5 with a good checksum ends the log without a report, although other unknown types are
  reported.\<close>

lemma log_type_5_ends_log:
  assumes "buffer r = phys 5 d @ rest" and "length d < 65536" and "initial_offset r = 0" and "\<not> resyncing r"
  shows "\<exists>r'. ReadRecord_loop Read False [] p r = Some (False, [], [], r') \<and> reports r' = reports r"
proof -
  have "ReadPhysicalRecord Read r = (kEof, d, r\<lparr> buffer := rest \<rparr>)"
    using assms by (simp add: ReadPhysicalRecord_parse Parse_phys kEof_def)
  then have "ReadRecord_step Read False [] p r = Return False [] [] (r\<lparr> buffer := rest, resyncing := False \<rparr>)"
    using assms(4) by (simp add: ReadRecord_step_def Let_def HandleRecord_def kEof_def kFullType_def
        kFirstType_def kMiddleType_def kLastType_def)
  then show ?thesis by (simp add: ReadRecord_loop.simps [of _ False])
qed

section \<open>Properties\<close>

text \<open>C1: what is written to a log is read back: for all lists of records of any lengths, written in
  two sessions (the second writer is opened on the existing file), the reader returns exactly the
  records in order and then stops, with and without checksums, and reports no corruption.\<close>

theorem log_write_read_back:
  assumes "heap_wf h a" and "FileState_contents (the (h a)) = []"
  shows "\<exists>r. mem_read_all (dest (mem_log_reopened ds ds' (h, a))) check = Some (ds @ ds', r) \<and> reports r = []"
proof -
  obtain h' where h': "dest (mem_log_reopened ds ds' (h, a)) = (h', a)" "heap_wf h' a"
      "FileState_contents (the (h' a)) = log_bytes 0 (record_fragments 0 (ds @ ds'))"
    by (rule mem_log_reopened_contents [OF assms])
  obtain m r where m: "mem_read_all (h', a) check = Some (take m (ds @ ds'), r)" "reports r = []"
      "\<forall>k \<le> length (ds @ ds'). length (log_bytes 0 (record_fragments 0 (take k (ds @ ds')))) \<le> length (FileState_contents (the (h' a))) \<longrightarrow> k \<le> m"
    using mem_read_prefix [OF h'(2), of "[]" "ds @ ds'" check] h'(3) by auto
  from m(3) have "length (ds @ ds') \<le> m" using h'(3) by (metis order_refl take_all)
  then show ?thesis using m(1,2) h'(1) by simp
qed

lemma heap_wf_empty: "heap_wf [0 \<mapsto> FileState_new] 0" and contents_empty: "FileState_contents FileState_new = []"
  by (simp_all add: heap_wf_def FileState_wf_def FileState_contents_def FileState_new_def memenv_kBlockSize_def)

theorem log_write_read_back_witness:
  "\<exists>r. mem_read_all (dest (mem_log_reopened [[1], [2, 3]] [[4]] ([0 \<mapsto> FileState_new], 0))) True =
     Some ([[1], [2, 3], [4]], r) \<and> reports r = []"
  using log_write_read_back [OF heap_wf_empty, of "[[1], [2, 3]]" "[[4]]" True] by (simp add: contents_empty)

text \<open>C2: a log that stops anywhere, as after a crash in the middle of a write, is read back as a
  prefix of the written records: the reader returns every record that was completely on disk and
  maybe no more, drops the torn tail silently, and reports no corruption.\<close>

theorem log_crash_recovery:
  assumes "heap_wf h a" and "FileState_contents (the (h a)) = []" and "heap_wf g b"
    and "FileState_contents (the (g b)) = take n (FileState_contents (the (fst (dest (mem_log ds (h, a))) a)))"
  shows "\<exists>m r. mem_read_all (g, b) check = Some (take m ds, r) \<and> reports r = [] \<and>
    (\<forall>k \<le> length ds. length (FileState_contents (the (fst (dest (mem_log (take k ds) (h, a))) a))) \<le>
        length (FileState_contents (the (g b))) \<longrightarrow> k \<le> m)"
proof -
  have written: "FileState_contents (the (fst (dest (mem_log ds (h, a))) a)) = log_bytes 0 (record_fragments 0 ds)" for ds
    by (rule mem_log_contents [OF assms(1,2), of ds]) simp
  obtain z where "FileState_contents (the (g b)) @ z = log_bytes 0 (record_fragments 0 ds)"
    using assms(4) unfolding written by (metis append_take_drop_id)
  from mem_read_prefix [OF assms(3) this, of check] show ?thesis unfolding written .
qed

theorem log_crash_recovery_witness:
  "\<exists>m r. mem_read_all ([0 \<mapsto> FileState_new], 0) True = Some (take m [[1], [2]], r) \<and> reports r = []"
  using log_crash_recovery [OF heap_wf_empty _ heap_wf_empty, of 0 "[[1], [2]]" True] by (auto simp: contents_empty)

text \<open>C3: reading a log always ends: on a file with arbitrary contents, with any initial offset and
  with checksums on or off, repeated calls of \<open>ReadRecord\<close> reach its end; no sequence of corrupt
  headers makes the reader loop.\<close>

theorem log_reader_terminates:
  assumes "heap_wf h a"
  shows "\<exists>rs r. read_all (SequentialFile_Read h) (SequentialFile_Skip h) []
    (log_Reader_new \<lparr> seq_file = a, pos = 0 \<rparr> reporter check init) = Some (rs, r)"
  using memseq.read_all_total [of h "log_Reader_new \<lparr> seq_file = a, pos = 0 \<rparr> reporter check init" "[]"] assms
  by (simp add: log_Reader_new_def)

theorem log_reader_terminates_witness:
  "\<exists>rs r. read_all (SequentialFile_Read [0 \<mapsto> FileState_new]) (SequentialFile_Skip [0 \<mapsto> FileState_new]) []
    (log_Reader_new \<lparr> seq_file = 0, pos = 0 \<rparr> True True 40000) = Some (rs, r)"
  using log_reader_terminates [OF heap_wf_empty] .

end
