(* ===== verification/Write_Batch.thy ===== *)
theory Write_Batch
  imports Dbformat
begin

text \<open>
  Atomic updates, \<open>db/write_batch.cc\<close> and \<open>db/write_batch_internal.h\<close>: a batch is its representation
  \<open>rep_\<close> (an eight-byte sequence number, a four-byte count and the encoded operations). Iterating
  over a batch with a handler performs the operations it was built from, in order; inserting it
  into a memtable gives the operations consecutive sequence numbers.
\<close>

section \<open>WriteBatch\<close>

definition kHeader :: nat where
  "kHeader = 12"

type_synonym WriteBatch = bytes

definition WriteBatch_Clear :: WriteBatch where
  "WriteBatch_Clear = replicate kHeader 0"

definition WriteBatch_Count :: "WriteBatch \<Rightarrow> int" where
  "WriteBatch_Count b = sint (DecodeFixed32 (drop 8 b))"

definition WriteBatch_SetCount :: "WriteBatch \<Rightarrow> int \<Rightarrow> WriteBatch" where
  "WriteBatch_SetCount b n = take 8 b @ EncodeFixed32 (word_of_int n) @ drop 12 b"

definition WriteBatch_Sequence :: "WriteBatch \<Rightarrow> u64" where
  "WriteBatch_Sequence b = DecodeFixed64 b"

definition WriteBatch_SetSequence :: "WriteBatch \<Rightarrow> u64 \<Rightarrow> WriteBatch" where
  "WriteBatch_SetSequence b seq = EncodeFixed64 seq @ drop 8 b"

definition WriteBatch_Put :: "WriteBatch \<Rightarrow> bytes \<Rightarrow> bytes \<Rightarrow> WriteBatch" where
  "WriteBatch_Put b key v =
     (let b = WriteBatch_SetCount b (WriteBatch_Count b + 1);
          b = b @ [ucast (ValueType_code kTypeValue)]
      in PutLengthPrefixedSlice (PutLengthPrefixedSlice b key) v)"

definition WriteBatch_Delete :: "WriteBatch \<Rightarrow> bytes \<Rightarrow> WriteBatch" where
  "WriteBatch_Delete b key =
     (let b = WriteBatch_SetCount b (WriteBatch_Count b + 1);
          b = b @ [ucast (ValueType_code kTypeDeletion)]
      in PutLengthPrefixedSlice b key)"

definition WriteBatch_Append :: "WriteBatch \<Rightarrow> WriteBatch \<Rightarrow> WriteBatch" where
  "WriteBatch_Append dst src =
     WriteBatch_SetCount dst (WriteBatch_Count dst + WriteBatch_Count src) @ drop kHeader src"

definition WriteBatch_SetContents :: "bytes \<Rightarrow> WriteBatch" where
  "WriteBatch_SetContents contents = contents"

definition WriteBatch_ByteSize :: "WriteBatch \<Rightarrow> nat" where
  "WriteBatch_ByteSize b = length b"

text \<open>A handler is its state with the two operations; the state a failing iteration leaves behind is
  part of the result.\<close>

function (sequential) WriteBatch_Iterate_loop ::
  "(bytes \<Rightarrow> bytes \<Rightarrow> 'h \<Rightarrow> 'h) \<Rightarrow> (bytes \<Rightarrow> 'h \<Rightarrow> 'h) \<Rightarrow> bytes \<Rightarrow> int \<Rightarrow> 'h \<Rightarrow> (Status + int) \<times> 'h" where
  "WriteBatch_Iterate_loop Put Delete [] found h = (Inr found, h)"
| "WriteBatch_Iterate_loop Put Delete (tag # input) found h =
     (if tag = ucast (ValueType_code kTypeValue)
      then (case GetLengthPrefixedSlice input of
              None \<Rightarrow> (Inl (Corruption (str ''bad WriteBatch Put'') []), h)
            | Some (key, input1) \<Rightarrow>
                (case GetLengthPrefixedSlice input1 of
                   None \<Rightarrow> (Inl (Corruption (str ''bad WriteBatch Put'') []), h)
                 | Some (v, input2) \<Rightarrow>
                     WriteBatch_Iterate_loop Put Delete input2 (found + 1) (Put key v h)))
      else if tag = ucast (ValueType_code kTypeDeletion)
      then (case GetLengthPrefixedSlice input of
              None \<Rightarrow> (Inl (Corruption (str ''bad WriteBatch Delete'') []), h)
            | Some (key, input1) \<Rightarrow>
                WriteBatch_Iterate_loop Put Delete input1 (found + 1) (Delete key h))
      else (Inl (Corruption (str ''unknown WriteBatch tag'') []), h))"
  by pat_completeness auto
termination
  by (relation "measure (\<lambda>(_, _, input, _). length input)")
    (auto dest!: GetLengthPrefixedSlice_shrinks)

definition WriteBatch_Iterate ::
  "(bytes \<Rightarrow> bytes \<Rightarrow> 'h \<Rightarrow> 'h) \<Rightarrow> (bytes \<Rightarrow> 'h \<Rightarrow> 'h) \<Rightarrow> WriteBatch \<Rightarrow> 'h \<Rightarrow> Status \<times> 'h" where
  "WriteBatch_Iterate Put Delete b h =
     (if length b < kHeader then (Corruption (str ''malformed WriteBatch (too small)'') [], h)
      else (case WriteBatch_Iterate_loop Put Delete (drop kHeader b) 0 h of
              (Inl s, h) \<Rightarrow> (s, h)
            | (Inr found, h) \<Rightarrow>
                if found \<noteq> WriteBatch_Count b
                then (Corruption (str ''WriteBatch has wrong count'') [], h)
                else (Status_OK, h)))"

section \<open>MemTableInserter\<close>

text \<open>\<open>Add\<close> is \<open>MemTable::Add\<close>; the handler state is \<open>sequence_\<close> and the memtable.\<close>

definition MemTableInserter_Put ::
  "(u64 \<Rightarrow> ValueType \<Rightarrow> bytes \<Rightarrow> bytes \<Rightarrow> 'm \<Rightarrow> 'm) \<Rightarrow> bytes \<Rightarrow> bytes \<Rightarrow> u64 \<times> 'm \<Rightarrow> u64 \<times> 'm" where
  "MemTableInserter_Put Add key v h = (case h of (seq, mem) \<Rightarrow> (seq + 1, Add seq kTypeValue key v mem))"

definition MemTableInserter_Delete ::
  "(u64 \<Rightarrow> ValueType \<Rightarrow> bytes \<Rightarrow> bytes \<Rightarrow> 'm \<Rightarrow> 'm) \<Rightarrow> bytes \<Rightarrow> u64 \<times> 'm \<Rightarrow> u64 \<times> 'm" where
  "MemTableInserter_Delete Add key h = (case h of (seq, mem) \<Rightarrow> (seq + 1, Add seq kTypeDeletion key [] mem))"

definition WriteBatch_InsertInto ::
  "(u64 \<Rightarrow> ValueType \<Rightarrow> bytes \<Rightarrow> bytes \<Rightarrow> 'm \<Rightarrow> 'm) \<Rightarrow> WriteBatch \<Rightarrow> 'm \<Rightarrow> Status \<times> 'm" where
  "WriteBatch_InsertInto Add b mem =
     (case WriteBatch_Iterate (MemTableInserter_Put Add) (MemTableInserter_Delete Add) b
             (WriteBatch_Sequence b, mem) of
        (s, seq, mem) \<Rightarrow> (s, mem))"

section \<open>Batches as lists of operations\<close>

datatype batch_op = PutOp bytes bytes | DeleteOp bytes

fun op_ok :: "batch_op \<Rightarrow> bool" where
  "op_ok (PutOp k v) \<longleftrightarrow> length k < 2 ^ 32 \<and> length v < 2 ^ 32"
| "op_ok (DeleteOp k) \<longleftrightarrow> length k < 2 ^ 32"

fun op_bytes :: "batch_op \<Rightarrow> bytes" where
  "op_bytes (PutOp k v) = 1 # varint (length k) @ k @ varint (length v) @ v"
| "op_bytes (DeleteOp k) = 0 # varint (length k) @ k"

fun WriteBatch_do :: "WriteBatch \<Rightarrow> batch_op \<Rightarrow> WriteBatch" where
  "WriteBatch_do b (PutOp k v) = WriteBatch_Put b k v"
| "WriteBatch_do b (DeleteOp k) = WriteBatch_Delete b k"

fun handler_do :: "(bytes \<Rightarrow> bytes \<Rightarrow> 'h \<Rightarrow> 'h) \<Rightarrow> (bytes \<Rightarrow> 'h \<Rightarrow> 'h) \<Rightarrow> batch_op \<Rightarrow> 'h \<Rightarrow> 'h" where
  "handler_do Put Delete (PutOp k v) h = Put k v h"
| "handler_do Put Delete (DeleteOp k) h = Delete k h"

definition batch_rep :: "u64 \<Rightarrow> batch_op list \<Rightarrow> bytes" where
  "batch_rep seq ops = EncodeFixed64 seq @ EncodeFixed32 (of_nat (length ops)) @ concat (map op_bytes ops)"

definition WriteBatch_of :: "batch_op list \<Rightarrow> WriteBatch" where
  "WriteBatch_of ops = foldl WriteBatch_do WriteBatch_Clear ops"

lemma batch_tags [simp]:
  "ucast (ValueType_code kTypeValue) = (1 :: byte)" "ucast (ValueType_code kTypeDeletion) = (0 :: byte)"
  by (simp_all add: ValueType_code_def)

lemma PutLengthPrefixedSlice_small:
  "length k < 2 ^ 32 \<Longrightarrow> PutLengthPrefixedSlice dst k = dst @ varint (length k) @ k"
  by (simp add: coding_simps unat_of_nat_small)

lemma Count_batch_rep: "WriteBatch_Count (batch_rep seq ops) = sint (of_nat (length ops) :: u32)"
  by (simp add: WriteBatch_Count_def batch_rep_def)

lemma SetCount_batch_rep:
  "WriteBatch_SetCount (batch_rep seq ops) (WriteBatch_Count (batch_rep seq ops) + n) =
     EncodeFixed64 seq @ EncodeFixed32 (of_nat (length ops) + word_of_int n) @ concat (map op_bytes ops)"
proof -
  have "word_of_int (WriteBatch_Count (batch_rep seq ops) + n) = (of_nat (length ops) + word_of_int n :: u32)"
    unfolding Count_batch_rep by simp
  then show ?thesis unfolding WriteBatch_SetCount_def by (simp add: batch_rep_def)
qed

lemma WriteBatch_do_rep:
  "op_ok x \<Longrightarrow> WriteBatch_do (batch_rep seq ops) x = batch_rep seq (ops @ [x])"
proof (cases x)
  case (PutOp k v)
  assume "op_ok x"
  with PutOp show ?thesis
    unfolding PutOp WriteBatch_do.simps WriteBatch_Put_def Let_def SetCount_batch_rep
    by (simp add: PutLengthPrefixedSlice_small batch_rep_def add.commute)
next
  case (DeleteOp k)
  assume "op_ok x"
  with DeleteOp show ?thesis
    unfolding DeleteOp WriteBatch_do.simps WriteBatch_Delete_def Let_def SetCount_batch_rep
    by (simp add: PutLengthPrefixedSlice_small batch_rep_def add.commute)
qed

lemma WriteBatch_do_all_rep:
  "\<forall>x \<in> set xs. op_ok x \<Longrightarrow> foldl WriteBatch_do (batch_rep seq ops) xs = batch_rep seq (ops @ xs)"
  by (induction xs arbitrary: ops) (simp_all add: WriteBatch_do_rep)

lemma Clear_rep: "WriteBatch_Clear = batch_rep 0 []"
  by (simp add: WriteBatch_Clear_def batch_rep_def EncodeFixed64_def EncodeFixed32_def kHeader_def numeral_eq_Suc)

lemma WriteBatch_of_rep: "\<forall>x \<in> set ops. op_ok x \<Longrightarrow> WriteBatch_of ops = batch_rep 0 ops"
  unfolding WriteBatch_of_def Clear_rep using WriteBatch_do_all_rep [of ops 0 "[]"] by simp

lemma SetSequence_rep: "WriteBatch_SetSequence (batch_rep s ops) seq = batch_rep seq ops"
  by (simp add: WriteBatch_SetSequence_def batch_rep_def)

lemma Sequence_rep: "WriteBatch_Sequence (batch_rep seq ops) = seq"
  by (simp add: WriteBatch_Sequence_def batch_rep_def)

lemma Append_rep: "WriteBatch_Append (batch_rep s xs) (batch_rep s' ys) = batch_rep s (xs @ ys)"
proof -
  have "drop kHeader (batch_rep s' ys) = concat (map op_bytes ys)"
    by (simp add: batch_rep_def kHeader_def)
  then show ?thesis
    unfolding WriteBatch_Append_def SetCount_batch_rep by (simp add: Count_batch_rep) (simp add: batch_rep_def)
qed

lemma Iterate_loop_op:
  assumes "op_ok x"
  shows "WriteBatch_Iterate_loop Put Delete (op_bytes x @ rest) found h =
    WriteBatch_Iterate_loop Put Delete rest (found + 1) (handler_do Put Delete x h)"
  using assms by (cases x) (simp_all add: coding_simps)

lemma Iterate_loop_ops:
  "\<forall>x \<in> set ops. op_ok x \<Longrightarrow>
    WriteBatch_Iterate_loop Put Delete (concat (map op_bytes ops)) found h =
      (Inr (found + int (length ops)), fold (handler_do Put Delete) ops h)"
  by (induction ops arbitrary: found h) (simp_all add: Iterate_loop_op)

lemma Iterate_rep:
  assumes "\<forall>x \<in> set ops. op_ok x" and "length ops < 2 ^ 31"
  shows "WriteBatch_Iterate Put Delete (batch_rep seq ops) h = (Status_OK, fold (handler_do Put Delete) ops h)"
proof -
  have "sint (of_nat (length ops) :: u32) = int (length ops)"
    using assms(2) by (simp add: signed_of_nat signed_take_bit_eq_if_positive take_bit_eq_mod bit_iff_odd)
  moreover have "drop kHeader (batch_rep seq ops) = concat (map op_bytes ops)" "kHeader \<le> length (batch_rep seq ops)"
    by (simp_all add: batch_rep_def kHeader_def)
  ultimately show ?thesis
    using assms(1) by (simp add: WriteBatch_Iterate_def Iterate_loop_ops Count_batch_rep)
qed

text \<open>The memtable inserter numbers the operations consecutively.\<close>

fun op_type :: "batch_op \<Rightarrow> ValueType" where
  "op_type (PutOp k v) = kTypeValue"
| "op_type (DeleteOp k) = kTypeDeletion"

fun op_key :: "batch_op \<Rightarrow> bytes" where
  "op_key (PutOp k v) = k"
| "op_key (DeleteOp k) = k"

fun op_value :: "batch_op \<Rightarrow> bytes" where
  "op_value (PutOp k v) = v"
| "op_value (DeleteOp k) = []"

fun add_ops :: "(u64 \<Rightarrow> ValueType \<Rightarrow> bytes \<Rightarrow> bytes \<Rightarrow> 'm \<Rightarrow> 'm) \<Rightarrow> u64 \<Rightarrow> batch_op list \<Rightarrow> 'm \<Rightarrow> 'm" where
  "add_ops Add seq [] mem = mem"
| "add_ops Add seq (x # xs) mem = add_ops Add (seq + 1) xs (Add seq (op_type x) (op_key x) (op_value x) mem)"

lemma fold_inserter:
  "fold (handler_do (MemTableInserter_Put Add) (MemTableInserter_Delete Add)) ops (seq, mem) =
     (seq + of_nat (length ops), add_ops Add seq ops mem)"
proof (induction ops arbitrary: seq mem)
  case (Cons x xs)
  have "handler_do (MemTableInserter_Put Add) (MemTableInserter_Delete Add) x (seq, mem) =
      (seq + 1, Add seq (op_type x) (op_key x) (op_value x) mem)"
    by (cases x) (simp_all add: MemTableInserter_Put_def MemTableInserter_Delete_def)
  with Cons show ?case by (simp add: add.assoc)
qed simp

lemma InsertInto_rep:
  assumes "\<forall>x \<in> set ops. op_ok x" and "length ops < 2 ^ 31"
  shows "WriteBatch_InsertInto Add (batch_rep seq ops) mem = (Status_OK, add_ops Add seq ops mem)"
  by (simp add: WriteBatch_InsertInto_def Iterate_rep [OF assms] Sequence_rep fold_inserter)








section \<open>Properties\<close>

text \<open>C25: a batch does what it was built from: after any sequence of \<open>Put\<close> and \<open>Delete\<close> on a fresh
  batch, and after appending a second batch to it, iterating with any handler succeeds and
  performs exactly those operations in order; the count is their number.\<close>

theorem write_batch_replays:
  assumes "\<forall>x \<in> set xs. op_ok x" and "\<forall>y \<in> set ys. op_ok y" and "length (xs @ ys) < 2 ^ 31"
  shows "WriteBatch_Iterate Put Delete (WriteBatch_Append (WriteBatch_of xs) (WriteBatch_of ys)) h =
      (Status_OK, fold (handler_do Put Delete) (xs @ ys) h)
    \<and> WriteBatch_Count (WriteBatch_Append (WriteBatch_of xs) (WriteBatch_of ys)) =
      WriteBatch_Count (WriteBatch_of (xs @ ys))"
proof -
  have all: "\<forall>x \<in> set (xs @ ys). op_ok x" using assms(1,2) by auto
  show ?thesis
    using Iterate_rep [OF all assms(3), of Put Delete 0 h]
    by (simp add: WriteBatch_of_rep [OF assms(1)] WriteBatch_of_rep [OF assms(2)] WriteBatch_of_rep [OF all] Append_rep)
qed

theorem write_batch_replays_witness:
  "WriteBatch_Iterate (\<lambda>k v h. h @ [(k, Some v)]) (\<lambda>k h. h @ [(k, None)])
     (WriteBatch_Append (WriteBatch_of [PutOp [1] [2, 3]]) (WriteBatch_of [DeleteOp [1]])) [] =
   (Status_OK, [([1], Some [2, 3]), ([1], None)])"
  using write_batch_replays [of "[PutOp [1] [2, 3]]" "[DeleteOp [1]]" "\<lambda>k v h. h @ [(k, Some v)]"
    "\<lambda>k h. h @ [(k, None)]" "[]"] by simp

text \<open>C26: inserting a batch with sequence number \<open>seq\<close> into a memtable adds its operations with the
  consecutive sequence numbers \<open>seq\<close>, \<open>seq + 1\<close> and so on, deletions as entries of their own.\<close>

theorem write_batch_inserts:
  assumes "\<forall>x \<in> set ops. op_ok x" and "length ops < 2 ^ 31"
  shows "WriteBatch_InsertInto Add (WriteBatch_SetSequence (WriteBatch_of ops) seq) mem =
    (Status_OK, add_ops Add seq ops mem)"
  by (simp add: WriteBatch_of_rep [OF assms(1)] SetSequence_rep InsertInto_rep [OF assms])

theorem write_batch_inserts_witness:
  "WriteBatch_InsertInto (\<lambda>seq t k v m. m @ [(seq, t, k, v)])
     (WriteBatch_SetSequence (WriteBatch_of [PutOp [1] [2], DeleteOp [3]]) 7) [] =
   (Status_OK, [(7, kTypeValue, [1], [2]), (8, kTypeDeletion, [3], [])])"
  using write_batch_inserts [of "[PutOp [1] [2], DeleteOp [3]]" "\<lambda>seq t k v m. m @ [(seq, t, k, v)]" 7 "[]"] by simp


end
