(* ===== verification/Version_Edit.thy ===== *)
theory Version_Edit
  imports Dbformat "HOL-Library.Product_Lexorder"
begin

text \<open>
  Changes of the set of table files, \<open>db/version_edit.h\<close> and \<open>db/version_edit.cc\<close>: the record of
  changes, its serialisation into the manifest and the parser. The set of deleted files is the
  strictly sorted list that iterating over the \<open>std::set\<close> visits.
\<close>

section \<open>Data\<close>

record FileMetaData =
  file_refs :: int
  allowed_seeks :: int
  file_number :: u64
  fsize :: u64
  smallest :: InternalKey
  largest :: InternalKey

definition FileMetaData_new :: FileMetaData where
  "FileMetaData_new = \<lparr> file_refs = 0, allowed_seeks = 2 ^ 30, file_number = 0, fsize = 0,
     smallest = [], largest = [] \<rparr>"

record VersionEdit =
  ve_comparator :: bytes
  ve_log_number :: u64
  ve_prev_log_number :: u64
  ve_next_file_number :: u64
  ve_last_sequence :: u64
  has_comparator :: bool
  has_log_number :: bool
  has_prev_log_number :: bool
  has_next_file_number :: bool
  has_last_sequence :: bool
  ve_compact_pointers :: "(nat \<times> InternalKey) list"
  deleted_files :: "(nat \<times> u64) list"
  new_files :: "(nat \<times> FileMetaData) list"

definition kComparator :: u32 where "kComparator = 1"
definition kLogNumber :: u32 where "kLogNumber = 2"
definition kNextFileNumber :: u32 where "kNextFileNumber = 3"
definition kLastSequence :: u32 where "kLastSequence = 4"
definition kCompactPointer :: u32 where "kCompactPointer = 5"
definition kDeletedFile :: u32 where "kDeletedFile = 6"
definition kNewFile :: u32 where "kNewFile = 7"
definition kPrevLogNumber :: u32 where "kPrevLogNumber = 9"

lemmas edit_tags = kComparator_def kLogNumber_def kNextFileNumber_def kLastSequence_def
  kCompactPointer_def kDeletedFile_def kNewFile_def kPrevLogNumber_def

section \<open>Building an edit\<close>

definition VersionEdit_Clear :: "VersionEdit \<Rightarrow> VersionEdit" where
  "VersionEdit_Clear e =
     e\<lparr> ve_comparator := [], ve_log_number := 0, ve_prev_log_number := 0, ve_last_sequence := 0,
        ve_next_file_number := 0, has_comparator := False, has_log_number := False,
        has_prev_log_number := False, has_next_file_number := False, has_last_sequence := False,
        deleted_files := [], new_files := [] \<rparr>"

definition VersionEdit_new :: VersionEdit where
  "VersionEdit_new = \<lparr> ve_comparator = [], ve_log_number = 0, ve_prev_log_number = 0,
     ve_next_file_number = 0, ve_last_sequence = 0, has_comparator = False, has_log_number = False,
     has_prev_log_number = False, has_next_file_number = False, has_last_sequence = False,
     ve_compact_pointers = [], deleted_files = [], new_files = [] \<rparr>"

definition SetComparatorName :: "bytes \<Rightarrow> VersionEdit \<Rightarrow> VersionEdit" where
  "SetComparatorName name e = e\<lparr> has_comparator := True, ve_comparator := name \<rparr>"

definition SetLogNumber :: "u64 \<Rightarrow> VersionEdit \<Rightarrow> VersionEdit" where
  "SetLogNumber num e = e\<lparr> has_log_number := True, ve_log_number := num \<rparr>"

definition SetPrevLogNumber :: "u64 \<Rightarrow> VersionEdit \<Rightarrow> VersionEdit" where
  "SetPrevLogNumber num e = e\<lparr> has_prev_log_number := True, ve_prev_log_number := num \<rparr>"

definition SetNextFile :: "u64 \<Rightarrow> VersionEdit \<Rightarrow> VersionEdit" where
  "SetNextFile num e = e\<lparr> has_next_file_number := True, ve_next_file_number := num \<rparr>"

definition SetLastSequence :: "u64 \<Rightarrow> VersionEdit \<Rightarrow> VersionEdit" where
  "SetLastSequence seq e = e\<lparr> has_last_sequence := True, ve_last_sequence := seq \<rparr>"

definition SetCompactPointer :: "nat \<Rightarrow> InternalKey \<Rightarrow> VersionEdit \<Rightarrow> VersionEdit" where
  "SetCompactPointer level key e = e\<lparr> ve_compact_pointers := ve_compact_pointers e @ [(level, key)] \<rparr>"

definition VersionEdit_AddFile ::
  "nat \<Rightarrow> u64 \<Rightarrow> u64 \<Rightarrow> InternalKey \<Rightarrow> InternalKey \<Rightarrow> VersionEdit \<Rightarrow> VersionEdit" where
  "VersionEdit_AddFile level file len sm la e =
     (let f = FileMetaData_new\<lparr> file_number := file, fsize := len, smallest := sm, largest := la \<rparr>
      in e\<lparr> new_files := new_files e @ [(level, f)] \<rparr>)"

definition VersionEdit_DeleteFile :: "nat \<Rightarrow> u64 \<Rightarrow> VersionEdit \<Rightarrow> VersionEdit" where
  "VersionEdit_DeleteFile level file e =
     e\<lparr> deleted_files := insort_insert (level, file) (deleted_files e) \<rparr>"

section \<open>Serialisation\<close>

definition EncodeTo_compact_pointer :: "bytes \<Rightarrow> nat \<times> InternalKey \<Rightarrow> bytes" where
  "EncodeTo_compact_pointer dst p =
     PutLengthPrefixedSlice (PutVarint32 (PutVarint32 dst kCompactPointer) (of_nat (fst p))) (snd p)"

definition EncodeTo_deleted_file :: "bytes \<Rightarrow> nat \<times> u64 \<Rightarrow> bytes" where
  "EncodeTo_deleted_file dst p =
     PutVarint64 (PutVarint32 (PutVarint32 dst kDeletedFile) (of_nat (fst p))) (snd p)"

definition EncodeTo_new_file :: "bytes \<Rightarrow> nat \<times> FileMetaData \<Rightarrow> bytes" where
  "EncodeTo_new_file dst p =
     (let f = snd p;
          dst = PutVarint32 (PutVarint32 dst kNewFile) (of_nat (fst p));
          dst = PutVarint64 (PutVarint64 dst (file_number f)) (fsize f)
      in PutLengthPrefixedSlice (PutLengthPrefixedSlice dst (smallest f)) (largest f))"

definition VersionEdit_EncodeTo :: "VersionEdit \<Rightarrow> bytes \<Rightarrow> bytes" where
  "VersionEdit_EncodeTo e dst =
     (let dst = (if has_comparator e then PutLengthPrefixedSlice (PutVarint32 dst kComparator) (ve_comparator e) else dst);
          dst = (if has_log_number e then PutVarint64 (PutVarint32 dst kLogNumber) (ve_log_number e) else dst);
          dst = (if has_prev_log_number e then PutVarint64 (PutVarint32 dst kPrevLogNumber) (ve_prev_log_number e) else dst);
          dst = (if has_next_file_number e then PutVarint64 (PutVarint32 dst kNextFileNumber) (ve_next_file_number e) else dst);
          dst = (if has_last_sequence e then PutVarint64 (PutVarint32 dst kLastSequence) (ve_last_sequence e) else dst);
          dst = foldl EncodeTo_compact_pointer dst (ve_compact_pointers e);
          dst = foldl EncodeTo_deleted_file dst (deleted_files e)
      in foldl EncodeTo_new_file dst (new_files e))"

section \<open>Parsing\<close>

definition GetInternalKey :: "bytes \<Rightarrow> (InternalKey \<times> bytes) option" where
  "GetInternalKey input = GetLengthPrefixedSlice input"

definition GetLevel :: "bytes \<Rightarrow> (nat \<times> bytes) option" where
  "GetLevel input =
     (case GetVarint32 input of
        None \<Rightarrow> None
      | Some (v, input) \<Rightarrow> if v < of_nat kNumLevels then Some (unat v, input) else None)"

text \<open>One turn of the loop after the tag: \<open>Inl msg\<close> is the error it stops with.\<close>

definition DecodeFrom_field :: "u32 \<Rightarrow> bytes \<Rightarrow> VersionEdit \<Rightarrow> bytes + (bytes \<times> VersionEdit)" where
  "DecodeFrom_field tag input e =
     (if tag = kComparator then
        (case GetLengthPrefixedSlice input of
           Some (s, input) \<Rightarrow> Inr (input, e\<lparr> ve_comparator := s, has_comparator := True \<rparr>)
         | None \<Rightarrow> Inl (str ''comparator name''))
      else if tag = kLogNumber then
        (case GetVarint64 input of
           Some (n, input) \<Rightarrow> Inr (input, e\<lparr> ve_log_number := n, has_log_number := True \<rparr>)
         | None \<Rightarrow> Inl (str ''log number''))
      else if tag = kPrevLogNumber then
        (case GetVarint64 input of
           Some (n, input) \<Rightarrow> Inr (input, e\<lparr> ve_prev_log_number := n, has_prev_log_number := True \<rparr>)
         | None \<Rightarrow> Inl (str ''previous log number''))
      else if tag = kNextFileNumber then
        (case GetVarint64 input of
           Some (n, input) \<Rightarrow> Inr (input, e\<lparr> ve_next_file_number := n, has_next_file_number := True \<rparr>)
         | None \<Rightarrow> Inl (str ''next file number''))
      else if tag = kLastSequence then
        (case GetVarint64 input of
           Some (n, input) \<Rightarrow> Inr (input, e\<lparr> ve_last_sequence := n, has_last_sequence := True \<rparr>)
         | None \<Rightarrow> Inl (str ''last sequence number''))
      else if tag = kCompactPointer then
        (case Option.bind (GetLevel input) (\<lambda>(level, input).
                map_option (\<lambda>(key, input). (level, key, input)) (GetInternalKey input)) of
           Some (level, key, input) \<Rightarrow> Inr (input, SetCompactPointer level key e)
         | None \<Rightarrow> Inl (str ''compaction pointer''))
      else if tag = kDeletedFile then
        (case Option.bind (GetLevel input) (\<lambda>(level, input).
                map_option (\<lambda>(number, input). (level, number, input)) (GetVarint64 input)) of
           Some (level, number, input) \<Rightarrow> Inr (input, VersionEdit_DeleteFile level number e)
         | None \<Rightarrow> Inl (str ''deleted file''))
      else if tag = kNewFile then
        (case Option.bind (GetLevel input) (\<lambda>(level, input).
                Option.bind (GetVarint64 input) (\<lambda>(number, input).
                Option.bind (GetVarint64 input) (\<lambda>(len, input).
                Option.bind (GetInternalKey input) (\<lambda>(sm, input).
                map_option (\<lambda>(la, input). (level, number, len, sm, la, input)) (GetInternalKey input))))) of
           Some (level, number, len, sm, la, input) \<Rightarrow> Inr (input, VersionEdit_AddFile level number len sm la e)
         | None \<Rightarrow> Inl (str ''new-file entry''))
      else Inl (str ''unknown tag''))"

lemma GetLevel_shrinks: "GetLevel p = Some (v, p') \<Longrightarrow> length p' < length p \<and> v < kNumLevels"
  by (auto simp: GetLevel_def kNumLevels_def word_less_nat_alt dest!: GetVarint32_shrinks split: option.splits if_splits)

lemma GetInternalKey_shrinks: "GetInternalKey p = Some (v, p') \<Longrightarrow> length p' < length p"
  by (simp add: GetInternalKey_def GetLengthPrefixedSlice_shrinks)

lemmas get_shrinks = GetVarint32_shrinks GetVarint64_shrinks GetLengthPrefixedSlice_shrinks
  GetLevel_shrinks GetInternalKey_shrinks

lemma DecodeFrom_field_shrinks:
  "DecodeFrom_field tag input e = Inr (input', e') \<Longrightarrow> length input' < length input"
  unfolding DecodeFrom_field_def
  by (auto split: if_splits option.splits dest!: get_shrinks simp: bind_eq_Some_conv)

function (sequential) DecodeFrom_loop :: "bytes \<Rightarrow> VersionEdit \<Rightarrow> bytes option \<times> bytes \<times> VersionEdit" where
  "DecodeFrom_loop input e =
     (case GetVarint32 input of
        None \<Rightarrow> (None, input, e)
      | Some (tag, rest) \<Rightarrow>
          (case DecodeFrom_field tag rest e of
             Inl msg \<Rightarrow> (Some msg, rest, e)
           | Inr (rest', e') \<Rightarrow> DecodeFrom_loop rest' e'))"
  by pat_completeness auto
termination
  by (relation "measure (\<lambda>(input, _). length input)")
    (auto dest!: DecodeFrom_field_shrinks GetVarint32_shrinks)

declare DecodeFrom_loop.simps [simp del]

definition VersionEdit_DecodeFrom :: "VersionEdit \<Rightarrow> bytes \<Rightarrow> Status \<times> VersionEdit" where
  "VersionEdit_DecodeFrom e src =
     (case DecodeFrom_loop src (VersionEdit_Clear e) of
        (msg, input, e) \<Rightarrow>
          let msg = (if msg = None \<and> input \<noteq> [] then Some (str ''invalid tag'') else msg)
          in (case msg of None \<Rightarrow> Status_OK | Some m \<Rightarrow> Corruption (str ''VersionEdit'') m, e))"

definition VersionEdit_DebugString :: "VersionEdit \<Rightarrow> bytes" where
  "VersionEdit_DebugString e =
     str ''VersionEdit {'' @
     (if has_comparator e then 10 # str ''  Comparator: '' @ ve_comparator e else []) @
     (if has_log_number e then 10 # str ''  LogNumber: '' @ NumberToString (ve_log_number e) else []) @
     (if has_prev_log_number e then 10 # str ''  PrevLogNumber: '' @ NumberToString (ve_prev_log_number e) else []) @
     (if has_next_file_number e then 10 # str ''  NextFile: '' @ NumberToString (ve_next_file_number e) else []) @
     (if has_last_sequence e then 10 # str ''  LastSeq: '' @ NumberToString (ve_last_sequence e) else []) @
     concat (map (\<lambda>(level, key). 10 # str ''  CompactPointer: '' @ NumberToString (of_nat level) @ str '' '' @
       InternalKey_DebugString key) (ve_compact_pointers e)) @
     concat (map (\<lambda>(level, number). 10 # str ''  DeleteFile: '' @ NumberToString (of_nat level) @ str '' '' @
       NumberToString number) (deleted_files e)) @
     concat (map (\<lambda>(level, f). 10 # str ''  AddFile: '' @ NumberToString (of_nat level) @ str '' '' @
       NumberToString (file_number f) @ str '' '' @ NumberToString (fsize f) @ str '' '' @
       InternalKey_DebugString (smallest f) @ str '' .. '' @ InternalKey_DebugString (largest f)) (new_files e)) @
     10 # str ''}'' @ [10]"

section \<open>Round trip\<close>

definition edit_ok :: "VersionEdit \<Rightarrow> bool" where
  "edit_ok e \<longleftrightarrow> length (ve_comparator e) < 2 ^ 32 \<and>
     (\<forall>(level, key) \<in> set (ve_compact_pointers e). level < kNumLevels \<and> length key < 2 ^ 32) \<and>
     (\<forall>(level, number) \<in> set (deleted_files e). level < kNumLevels) \<and>
     sorted (deleted_files e) \<and> distinct (deleted_files e) \<and>
     (\<forall>(level, f) \<in> set (new_files e). level < kNumLevels \<and> length (smallest f) < 2 ^ 32 \<and>
        length (largest f) < 2 ^ 32 \<and> file_refs f = 0 \<and> allowed_seeks f = 2 ^ 30)"

text \<open>What an edit says: a field that is not set has no value.\<close>

definition edit_norm :: "VersionEdit \<Rightarrow> VersionEdit" where
  "edit_norm e = e\<lparr> ve_comparator := (if has_comparator e then ve_comparator e else []),
     ve_log_number := (if has_log_number e then ve_log_number e else 0),
     ve_prev_log_number := (if has_prev_log_number e then ve_prev_log_number e else 0),
     ve_next_file_number := (if has_next_file_number e then ve_next_file_number e else 0),
     ve_last_sequence := (if has_last_sequence e then ve_last_sequence e else 0) \<rparr>"

lemma GetLevel_varint:
  assumes "level < kNumLevels"
  shows "GetLevel (varint level @ rest) = Some (level, rest)"
proof -
  have l: "unat (of_nat level :: u32) = level"
    using assms by (intro unat_of_nat_small) (simp add: kNumLevels_def)
  then have "GetVarint32 (varint level @ rest) = Some (of_nat level, rest)"
    using GetVarint32_varint [of "of_nat level" rest] by simp
  then show ?thesis using assms l by (simp add: GetLevel_def word_less_nat_alt kNumLevels_def)
qed

lemma unat_level: "level < kNumLevels \<Longrightarrow> unat (of_nat level :: u32) = level"
  by (rule unat_of_nat_small) (simp add: kNumLevels_def)

lemma DecodeFrom_tag:
  "DecodeFrom_loop (varint (unat tag) @ rest) e =
     (case DecodeFrom_field tag rest e of
        Inl msg \<Rightarrow> (Some msg, rest, e) | Inr (rest', e') \<Rightarrow> DecodeFrom_loop rest' e')"
  by (subst DecodeFrom_loop.simps) (simp add: GetVarint32_varint)

text \<open>The bytes of each kind of field, and what parsing them does.\<close>

lemmas field_puts = PutVarint32_varint PutVarint64_varint PutLengthPrefixedSlice_varint unat_level

lemma EncodeTo_compact_pointers:
  "foldl EncodeTo_compact_pointer dst ps = dst @ concat (map (EncodeTo_compact_pointer []) ps)"
  by (rule foldl_append_concat) (simp add: EncodeTo_compact_pointer_def PutVarint32_varint PutLengthPrefixedSlice_def)

lemma EncodeTo_deleted_files:
  "foldl EncodeTo_deleted_file dst ps = dst @ concat (map (EncodeTo_deleted_file []) ps)"
  by (rule foldl_append_concat) (simp add: EncodeTo_deleted_file_def PutVarint32_varint PutVarint64_varint)

lemma EncodeTo_new_files:
  "foldl EncodeTo_new_file dst ps = dst @ concat (map (EncodeTo_new_file []) ps)"
  by (rule foldl_append_concat)
    (simp add: EncodeTo_new_file_def PutVarint32_varint PutVarint64_varint PutLengthPrefixedSlice_def Let_def)

lemma Decode_compact_pointer:
  assumes "level < kNumLevels" and "length key < 2 ^ 32"
  shows "DecodeFrom_loop (EncodeTo_compact_pointer [] (level, key) @ rest) e =
    DecodeFrom_loop rest (SetCompactPointer level key e)"
proof -
  have enc: "EncodeTo_compact_pointer [] (level, key) @ rest =
      varint (unat kCompactPointer) @ varint level @ varint (length key) @ key @ rest"
    using assms by (simp add: EncodeTo_compact_pointer_def field_puts)
  show ?thesis
    using assms unfolding enc DecodeFrom_tag DecodeFrom_field_def
    by (simp add: edit_tags GetLevel_varint GetInternalKey_def GetLengthPrefixedSlice_prefixed)
qed

lemma Decode_deleted_file:
  assumes "level < kNumLevels"
  shows "DecodeFrom_loop (EncodeTo_deleted_file [] (level, number) @ rest) e =
    DecodeFrom_loop rest (VersionEdit_DeleteFile level number e)"
proof -
  have enc: "EncodeTo_deleted_file [] (level, number) @ rest =
      varint (unat kDeletedFile) @ varint level @ varint (unat number) @ rest"
    using assms by (simp add: EncodeTo_deleted_file_def field_puts)
  show ?thesis
    using assms unfolding enc DecodeFrom_tag DecodeFrom_field_def
    by (simp add: edit_tags GetLevel_varint GetVarint64_varint)
qed

lemma Decode_new_file:
  assumes "level < kNumLevels" and "length (smallest f) < 2 ^ 32" and "length (largest f) < 2 ^ 32"
    and "file_refs f = 0" and "allowed_seeks f = 2 ^ 30"
  shows "DecodeFrom_loop (EncodeTo_new_file [] (level, f) @ rest) e =
    DecodeFrom_loop rest (e\<lparr> new_files := new_files e @ [(level, f)] \<rparr>)"
proof -
  have enc: "EncodeTo_new_file [] (level, f) @ rest =
      varint (unat kNewFile) @ varint level @ varint (unat (file_number f)) @ varint (unat (fsize f)) @
      varint (length (smallest f)) @ smallest f @ varint (length (largest f)) @ largest f @ rest"
    using assms by (simp add: EncodeTo_new_file_def field_puts Let_def)
  have f: "FileMetaData_new\<lparr> file_number := file_number f, fsize := fsize f, smallest := smallest f, largest := largest f \<rparr> = f"
    using assms(4,5) by (simp add: FileMetaData_new_def)
  show ?thesis
    using assms(1-3) unfolding enc DecodeFrom_tag DecodeFrom_field_def
    by (simp add: edit_tags GetLevel_varint GetVarint64_varint GetInternalKey_def GetLengthPrefixedSlice_prefixed
        VersionEdit_AddFile_def f)
qed

lemma Decode_compact_pointers:
  assumes "\<forall>(level, key) \<in> set ps. level < kNumLevels \<and> length key < 2 ^ 32"
  shows "DecodeFrom_loop (concat (map (EncodeTo_compact_pointer []) ps) @ rest) e =
    DecodeFrom_loop rest (e\<lparr> ve_compact_pointers := ve_compact_pointers e @ ps \<rparr>)"
  using assms
proof (induction ps arbitrary: e)
  case (Cons p ps)
  then show ?case by (cases p) (simp add: Decode_compact_pointer SetCompactPointer_def)
qed simp

lemma Decode_new_files:
  assumes "\<forall>(level, f) \<in> set ps. level < kNumLevels \<and> length (smallest f) < 2 ^ 32 \<and>
    length (largest f) < 2 ^ 32 \<and> file_refs f = 0 \<and> allowed_seeks f = 2 ^ 30"
  shows "DecodeFrom_loop (concat (map (EncodeTo_new_file []) ps) @ rest) e =
    DecodeFrom_loop rest (e\<lparr> new_files := new_files e @ ps \<rparr>)"
  using assms
proof (induction ps arbitrary: e)
  case (Cons p ps)
  then show ?case by (cases p) (simp add: Decode_new_file)
qed simp

lemma Decode_deleted_files:
  assumes "\<forall>(level, number) \<in> set ps. level < kNumLevels" and "sorted (deleted_files e @ ps)"
    and "distinct (deleted_files e @ ps)"
  shows "DecodeFrom_loop (concat (map (EncodeTo_deleted_file []) ps) @ rest) e =
    DecodeFrom_loop rest (e\<lparr> deleted_files := deleted_files e @ ps \<rparr>)"
  using assms
proof (induction ps arbitrary: e)
  case (Cons p ps)
  have "insort_insert p (deleted_files e) = deleted_files e @ [p]"
    using Cons.prems(2,3) by (simp add: insort_insert_key_def sorted_append sorted_insort_is_snoc)
  with Cons show ?case by (cases p) (simp add: Decode_deleted_file VersionEdit_DeleteFile_def)
qed simp

definition number_field :: "u32 \<Rightarrow> u64 \<Rightarrow> bytes" where
  "number_field tag n = varint (unat tag) @ varint (unat n)"

definition name_field :: "bytes \<Rightarrow> bytes" where
  "name_field c = varint (unat kComparator) @ varint (unat (of_nat (length c) :: u32)) @ c"

lemma Decode_numbers:
  "DecodeFrom_loop (number_field kLogNumber n @ rest) e =
     DecodeFrom_loop rest (e\<lparr> ve_log_number := n, has_log_number := True \<rparr>)"
  "DecodeFrom_loop (number_field kPrevLogNumber n @ rest) e =
     DecodeFrom_loop rest (e\<lparr> ve_prev_log_number := n, has_prev_log_number := True \<rparr>)"
  "DecodeFrom_loop (number_field kNextFileNumber n @ rest) e =
     DecodeFrom_loop rest (e\<lparr> ve_next_file_number := n, has_next_file_number := True \<rparr>)"
  "DecodeFrom_loop (number_field kLastSequence n @ rest) e =
     DecodeFrom_loop rest (e\<lparr> ve_last_sequence := n, has_last_sequence := True \<rparr>)"
  by (simp only: number_field_def append.assoc DecodeFrom_tag DecodeFrom_field_def;
      simp add: edit_tags GetVarint64_varint)+

lemma Decode_name:
  assumes "length c < 2 ^ 32"
  shows "DecodeFrom_loop (name_field c @ rest) e = DecodeFrom_loop rest (e\<lparr> ve_comparator := c, has_comparator := True \<rparr>)"
proof -
  have "GetLengthPrefixedSlice (varint (unat (of_nat (length c) :: u32)) @ c @ rest) = Some (c, rest)"
    using GetLengthPrefixedSlice_prefixed [OF assms, of rest] assms by (simp add: unat_of_nat_small)
  then show ?thesis
    unfolding name_field_def append.assoc DecodeFrom_tag DecodeFrom_field_def by simp
qed

lemma EncodeTo_fields:
  "VersionEdit_EncodeTo e dst = dst @
     (if has_comparator e then name_field (ve_comparator e) else []) @
     (if has_log_number e then number_field kLogNumber (ve_log_number e) else []) @
     (if has_prev_log_number e then number_field kPrevLogNumber (ve_prev_log_number e) else []) @
     (if has_next_file_number e then number_field kNextFileNumber (ve_next_file_number e) else []) @
     (if has_last_sequence e then number_field kLastSequence (ve_last_sequence e) else []) @
     concat (map (EncodeTo_compact_pointer []) (ve_compact_pointers e)) @
     concat (map (EncodeTo_deleted_file []) (deleted_files e)) @
     concat (map (EncodeTo_new_file []) (new_files e))"
proof -
  have if_put: "(if b then PutVarint64 (PutVarint32 dst t) n else dst) = dst @ (if b then number_field t n else [])" for b dst t n
    by (simp add: PutVarint32_varint PutVarint64_varint number_field_def)
  have if_slice: "(if b then PutLengthPrefixedSlice (PutVarint32 dst kComparator) c else dst) =
      dst @ (if b then name_field c else [])" for b dst c
    by (simp add: PutLengthPrefixedSlice_def PutVarint32_varint name_field_def)
  show ?thesis
    unfolding VersionEdit_EncodeTo_def if_put if_slice EncodeTo_new_files EncodeTo_deleted_files EncodeTo_compact_pointers
    by (simp only: Let_def append.assoc)
qed

lemma Decode_if:
  assumes "\<And>rest e. DecodeFrom_loop (b @ rest) e = DecodeFrom_loop rest (g e)"
  shows "DecodeFrom_loop ((if c then b else []) @ rest) e = DecodeFrom_loop rest (if c then g e else e)"
  using assms by simp

lemma DecodeFrom_EncodeTo:
  assumes "edit_ok e"
  shows "VersionEdit_DecodeFrom e0 (VersionEdit_EncodeTo e []) =
    (Status_OK, (edit_norm e)\<lparr> ve_compact_pointers := ve_compact_pointers e0 @ ve_compact_pointers e \<rparr>)"
proof -
  define e1 where "e1 = (VersionEdit_Clear e0)\<lparr>
      ve_comparator := (if has_comparator e then ve_comparator e else []), has_comparator := has_comparator e,
      ve_log_number := (if has_log_number e then ve_log_number e else 0), has_log_number := has_log_number e,
      ve_prev_log_number := (if has_prev_log_number e then ve_prev_log_number e else 0), has_prev_log_number := has_prev_log_number e,
      ve_next_file_number := (if has_next_file_number e then ve_next_file_number e else 0), has_next_file_number := has_next_file_number e,
      ve_last_sequence := (if has_last_sequence e then ve_last_sequence e else 0), has_last_sequence := has_last_sequence e \<rparr>"
  define e2 where "e2 = e1\<lparr> ve_compact_pointers := ve_compact_pointers e1 @ ve_compact_pointers e \<rparr>"
  define e3 where "e3 = e2\<lparr> deleted_files := deleted_files e2 @ deleted_files e \<rparr>"
  define e4 where "e4 = e3\<lparr> new_files := new_files e3 @ new_files e \<rparr>"
  have c: "length (ve_comparator e) < 2 ^ 32"
    and ps: "\<forall>(level, key) \<in> set (ve_compact_pointers e). level < kNumLevels \<and> length key < 2 ^ 32"
    and ds: "\<forall>(level, number) \<in> set (deleted_files e). level < kNumLevels"
      "sorted (deleted_files e2 @ deleted_files e)" "distinct (deleted_files e2 @ deleted_files e)"
    and fs: "\<forall>(level, f) \<in> set (new_files e). level < kNumLevels \<and> length (smallest f) < 2 ^ 32 \<and>
        length (largest f) < 2 ^ 32 \<and> file_refs f = 0 \<and> allowed_seeks f = 2 ^ 30"
    using assms by (simp_all add: edit_ok_def e2_def e1_def VersionEdit_Clear_def)
  have "DecodeFrom_loop (VersionEdit_EncodeTo e []) (VersionEdit_Clear e0) =
      DecodeFrom_loop (concat (map (EncodeTo_compact_pointer []) (ve_compact_pointers e)) @
     concat (map (EncodeTo_deleted_file []) (deleted_files e)) @
     concat (map (EncodeTo_new_file []) (new_files e))) e1"
    unfolding EncodeTo_fields append_Nil
    by (simp only: Decode_if [OF Decode_name [OF c]] Decode_if [OF Decode_numbers(1)]
        Decode_if [OF Decode_numbers(2)] Decode_if [OF Decode_numbers(3)] Decode_if [OF Decode_numbers(4)])
      (rule arg_cong [where f = "DecodeFrom_loop _"], rule VersionEdit.equality;
        simp add: e1_def VersionEdit_Clear_def)
  also have "\<dots> = DecodeFrom_loop (concat (map (EncodeTo_deleted_file []) (deleted_files e)) @
      concat (map (EncodeTo_new_file []) (new_files e))) e2"
    unfolding e2_def by (rule Decode_compact_pointers [OF ps])
  also have "\<dots> = DecodeFrom_loop (concat (map (EncodeTo_new_file []) (new_files e)) @ []) e3"
    unfolding e3_def append_Nil2 by (rule Decode_deleted_files [OF ds])
  also have "\<dots> = DecodeFrom_loop [] e4"
    unfolding e4_def by (rule Decode_new_files [OF fs])
  also have "\<dots> = (None, [], e4)" by (simp add: DecodeFrom_loop.simps)
  finally have loop: "DecodeFrom_loop (VersionEdit_EncodeTo e []) (VersionEdit_Clear e0) = (None, [], e4)" .
  have "e4 = (edit_norm e)\<lparr> ve_compact_pointers := ve_compact_pointers e0 @ ve_compact_pointers e \<rparr>"
    by (simp add: e4_def e3_def e2_def e1_def edit_norm_def VersionEdit_Clear_def)
  with loop show ?thesis by (simp add: VersionEdit_DecodeFrom_def)
qed

section \<open>Parsed levels are in range\<close>

definition levels_ok :: "VersionEdit \<Rightarrow> bool" where
  "levels_ok e \<longleftrightarrow> (\<forall>p \<in> set (ve_compact_pointers e). fst p < kNumLevels) \<and>
     (\<forall>p \<in> set (deleted_files e). fst p < kNumLevels) \<and> (\<forall>p \<in> set (new_files e). fst p < kNumLevels) \<and>
     sorted (deleted_files e) \<and> distinct (deleted_files e)"

lemma DecodeFrom_field_levels:
  assumes "DecodeFrom_field tag input e = Inr (input', e')" and "levels_ok e"
  shows "levels_ok e'"
  using assms unfolding DecodeFrom_field_def
  by (auto split: if_splits option.splits dest!: GetLevel_shrinks simp: bind_eq_Some_conv levels_ok_def
      SetCompactPointer_def VersionEdit_DeleteFile_def VersionEdit_AddFile_def Let_def
      set_insort_insert sorted_insort_insert distinct_insort_insert)

lemma DecodeFrom_loop_levels: "levels_ok e \<Longrightarrow> levels_ok (snd (snd (DecodeFrom_loop input e)))"
proof (induction input e rule: DecodeFrom_loop.induct)
  case (1 input e)
  then show ?case
    using DecodeFrom_field_levels [of _ _ e]
    by (subst DecodeFrom_loop.simps) (fastforce split: option.splits sum.splits)
qed

section \<open>Properties\<close>

text \<open>C28: a version edit survives the manifest: decoding what \<open>EncodeTo\<close> wrote into a fresh edit
  succeeds and gives the same edit, with every optional field, compaction pointer, deleted file
  and new file (a field that is not set comes back as its default).\<close>

theorem version_edit_round_trip:
  assumes "edit_ok e"
  shows "VersionEdit_DecodeFrom VersionEdit_new (VersionEdit_EncodeTo e []) = (Status_OK, edit_norm e)"
  using DecodeFrom_EncodeTo [OF assms, of VersionEdit_new] by (simp add: VersionEdit_new_def edit_norm_def)

definition sample_edit :: VersionEdit where
  "sample_edit = VersionEdit_AddFile 2 5 100 [1, 2, 3, 4, 5, 6, 7, 8] [2, 2, 3, 4, 5, 6, 7, 8]
     (VersionEdit_DeleteFile 1 4 (SetCompactPointer 1 [9, 2, 3, 4, 5, 6, 7, 8] (SetLogNumber 7 VersionEdit_new)))"

theorem version_edit_round_trip_witness:
  "VersionEdit_DecodeFrom VersionEdit_new (VersionEdit_EncodeTo sample_edit []) = (Status_OK, edit_norm sample_edit)"
  using version_edit_round_trip [of sample_edit]
  by (simp add: edit_ok_def sample_edit_def VersionEdit_AddFile_def VersionEdit_DeleteFile_def SetCompactPointer_def
      SetLogNumber_def VersionEdit_new_def FileMetaData_new_def kNumLevels_def insort_insert_key_def Let_def)

text \<open>C29: decoding arbitrary bytes always ends with OK or a corruption status, and whatever it reports
  the level of every compaction pointer, deleted file and new file it has stored is below the
  number of levels, so that indexing the per-level arrays with it is safe.\<close>

theorem version_edit_decode_safe:
  assumes "\<forall>p \<in> set (ve_compact_pointers e). fst p < kNumLevels"
  shows "let (s, e') = VersionEdit_DecodeFrom e src
    in (ok s \<or> IsCorruption s) \<and> levels_ok e'"
proof -
  have "levels_ok (VersionEdit_Clear e)" using assms by (simp add: levels_ok_def VersionEdit_Clear_def)
  from DecodeFrom_loop_levels [OF this, of src] show ?thesis
    by (auto simp: VersionEdit_DecodeFrom_def Let_def split: prod.splits option.splits)
qed

theorem version_edit_decode_safe_witness:
  "levels_ok (snd (VersionEdit_DecodeFrom VersionEdit_new [6, 9, 1]))"
  using version_edit_decode_safe [of VersionEdit_new "[6, 9, 1]"] by (simp add: VersionEdit_new_def split: prod.splits)

text \<open>C37: \<open>Clear\<close> does not reset the compaction pointers, so decoding into an edit that was used
  before keeps its old compaction pointers in front of the decoded ones.\<close>

theorem version_edit_stale_compact_pointers:
  assumes "edit_ok e"
  shows "ve_compact_pointers (snd (VersionEdit_DecodeFrom e0 (VersionEdit_EncodeTo e []))) =
    ve_compact_pointers e0 @ ve_compact_pointers e"
  by (simp add: DecodeFrom_EncodeTo [OF assms])

theorem version_edit_stale_compact_pointers_witness:
  "ve_compact_pointers (snd (VersionEdit_DecodeFrom (SetCompactPointer 3 [1] VersionEdit_new)
     (VersionEdit_EncodeTo VersionEdit_new []))) = [(3, [1])]"
  using version_edit_stale_compact_pointers [of VersionEdit_new "SetCompactPointer 3 [1] VersionEdit_new"]
  by (simp add: VersionEdit_new_def SetCompactPointer_def edit_ok_def)

end
