(* ===== verification/Iterator.thy ===== *)
theory Iterator
  imports Comparator Logging
begin

text \<open>
  The iterator interface, \<open>include/leveldb/iterator.h\<close>, with the empty iterator and the clean-up list
  of \<open>table/iterator.cc\<close> and the caching wrapper of \<open>table/iterator_wrapper.h\<close>. An abstract class is
  the record of its virtual methods on a state type \<open>'it\<close>; what the methods promise is the locale
  \<open>list_iterator\<close>: the iterator is a cursor on a sorted list of entries. Every iterator of the
  development (block, two-level, merging) is an instance.
\<close>

section \<open>The methods\<close>

record 'it Iterator =
  it_Valid :: "'it \<Rightarrow> bool"
  it_SeekToFirst :: "'it \<Rightarrow> 'it"
  it_SeekToLast :: "'it \<Rightarrow> 'it"
  it_Seek :: "'it \<Rightarrow> bytes \<Rightarrow> 'it"
  it_Next :: "'it \<Rightarrow> 'it"
  it_Prev :: "'it \<Rightarrow> 'it"
  it_key :: "'it \<Rightarrow> bytes"
  it_value :: "'it \<Rightarrow> bytes"
  it_status :: "'it \<Rightarrow> Status"

text \<open>\<open>EmptyIterator\<close>; its state is the status it was made with. \<open>Next\<close>, \<open>Prev\<close>, \<open>key\<close> and \<open>value\<close>
  are unreachable there (\<open>assert(false)\<close>).\<close>

definition EmptyIterator :: "Status Iterator" where
  "EmptyIterator =
     \<lparr> it_Valid = (\<lambda>_. False), it_SeekToFirst = id, it_SeekToLast = id, it_Seek = (\<lambda>it _. it),
       it_Next = id, it_Prev = id, it_key = (\<lambda>_. []), it_value = (\<lambda>_. []), it_status = id \<rparr>"

definition NewEmptyIterator :: Status where
  "NewEmptyIterator = Status_OK"

definition NewErrorIterator :: "Status \<Rightarrow> Status" where
  "NewErrorIterator s = s"

text \<open>A pointer to an iterator of one of two classes: the methods of the class it points to.\<close>

definition sum_methods :: "'a Iterator \<Rightarrow> 'b Iterator \<Rightarrow> ('a + 'b) Iterator" where
  "sum_methods I J =
     \<lparr> it_Valid = case_sum (it_Valid I) (it_Valid J), it_SeekToFirst = map_sum (it_SeekToFirst I) (it_SeekToFirst J),
       it_SeekToLast = map_sum (it_SeekToLast I) (it_SeekToLast J),
       it_Seek = (\<lambda>it target. map_sum (\<lambda>x. it_Seek I x target) (\<lambda>x. it_Seek J x target) it),
       it_Next = map_sum (it_Next I) (it_Next J), it_Prev = map_sum (it_Prev I) (it_Prev J),
       it_key = case_sum (it_key I) (it_key J), it_value = case_sum (it_value I) (it_value J),
       it_status = case_sum (it_status I) (it_status J) \<rparr>"

section \<open>Clean-up functions\<close>

text \<open>The head cell of the list is a member of the iterator (\<open>None\<close>: its function is null), the
  others follow it. A clean-up function with its arguments is an effect on the state \<open>'s\<close>.\<close>

record 's Cleanup_list =
  cleanup :: "('s \<Rightarrow> 's) option"
  cleanup_next :: "('s \<Rightarrow> 's) list"

definition Iterator_new :: "'s Cleanup_list" where
  "Iterator_new = \<lparr> cleanup = None, cleanup_next = [] \<rparr>"

definition RegisterCleanup :: "'s Cleanup_list \<Rightarrow> ('s \<Rightarrow> 's) \<Rightarrow> 's Cleanup_list" where
  "RegisterCleanup c f =
     (case cleanup c of
        None \<Rightarrow> c\<lparr> cleanup := Some f \<rparr>
      | Some _ \<Rightarrow> c\<lparr> cleanup_next := f # cleanup_next c \<rparr>)"

definition Iterator_destroy :: "'s Cleanup_list \<Rightarrow> 's \<Rightarrow> 's" where
  "Iterator_destroy c s =
     (case cleanup c of None \<Rightarrow> s | Some f \<Rightarrow> fold (\<lambda>g. g) (cleanup_next c) (f s))"

section \<open>IteratorWrapper\<close>

text \<open>The wrapper caches \<open>Valid()\<close> and \<open>key()\<close>; its pointer may be null (\<open>None\<close>), where the code
  asserts and the methods here leave the wrapper as it is.\<close>

record 'it IteratorWrapper =
  iw_iter :: "'it option"
  iw_valid :: bool
  iw_key :: bytes

definition IteratorWrapper_new :: "'it IteratorWrapper" where
  "IteratorWrapper_new = \<lparr> iw_iter = None, iw_valid = False, iw_key = [] \<rparr>"

definition IteratorWrapper_Update :: "'it Iterator \<Rightarrow> 'it IteratorWrapper \<Rightarrow> 'it IteratorWrapper" where
  "IteratorWrapper_Update I w =
     (case iw_iter w of
        None \<Rightarrow> w
      | Some it \<Rightarrow>
          (let w = w\<lparr> iw_valid := it_Valid I it \<rparr>
           in if iw_valid w then w\<lparr> iw_key := it_key I it \<rparr> else w))"

definition IteratorWrapper_Set :: "'it Iterator \<Rightarrow> 'it IteratorWrapper \<Rightarrow> 'it option \<Rightarrow> 'it IteratorWrapper" where
  "IteratorWrapper_Set I w iter =
     (let w = w\<lparr> iw_iter := iter \<rparr>
      in case iter of None \<Rightarrow> w\<lparr> iw_valid := False \<rparr> | Some _ \<Rightarrow> IteratorWrapper_Update I w)"

definition IteratorWrapper_move :: "'it Iterator \<Rightarrow> ('it \<Rightarrow> 'it) \<Rightarrow> 'it IteratorWrapper \<Rightarrow> 'it IteratorWrapper" where
  "IteratorWrapper_move I f w = IteratorWrapper_Update I (w\<lparr> iw_iter := map_option f (iw_iter w) \<rparr>)"

definition IteratorWrapper_Next :: "'it Iterator \<Rightarrow> 'it IteratorWrapper \<Rightarrow> 'it IteratorWrapper" where
  "IteratorWrapper_Next I w = IteratorWrapper_move I (it_Next I) w"

definition IteratorWrapper_Prev :: "'it Iterator \<Rightarrow> 'it IteratorWrapper \<Rightarrow> 'it IteratorWrapper" where
  "IteratorWrapper_Prev I w = IteratorWrapper_move I (it_Prev I) w"

definition IteratorWrapper_Seek :: "'it Iterator \<Rightarrow> 'it IteratorWrapper \<Rightarrow> bytes \<Rightarrow> 'it IteratorWrapper" where
  "IteratorWrapper_Seek I w k = IteratorWrapper_move I (\<lambda>it. it_Seek I it k) w"

definition IteratorWrapper_SeekToFirst :: "'it Iterator \<Rightarrow> 'it IteratorWrapper \<Rightarrow> 'it IteratorWrapper" where
  "IteratorWrapper_SeekToFirst I w = IteratorWrapper_move I (it_SeekToFirst I) w"

definition IteratorWrapper_SeekToLast :: "'it Iterator \<Rightarrow> 'it IteratorWrapper \<Rightarrow> 'it IteratorWrapper" where
  "IteratorWrapper_SeekToLast I w = IteratorWrapper_move I (it_SeekToLast I) w"

definition IteratorWrapper_value :: "'it Iterator \<Rightarrow> 'it IteratorWrapper \<Rightarrow> bytes" where
  "IteratorWrapper_value I w = (case iw_iter w of None \<Rightarrow> [] | Some it \<Rightarrow> it_value I it)"

definition IteratorWrapper_status :: "'it Iterator \<Rightarrow> 'it IteratorWrapper \<Rightarrow> Status" where
  "IteratorWrapper_status I w = (case iw_iter w of None \<Rightarrow> Status_OK | Some it \<Rightarrow> it_status I it)"

definition IteratorWrapper_methods :: "'it Iterator \<Rightarrow> 'it IteratorWrapper Iterator" where
  "IteratorWrapper_methods I =
     \<lparr> it_Valid = iw_valid, it_SeekToFirst = IteratorWrapper_SeekToFirst I,
       it_SeekToLast = IteratorWrapper_SeekToLast I, it_Seek = IteratorWrapper_Seek I,
       it_Next = IteratorWrapper_Next I, it_Prev = IteratorWrapper_Prev I, it_key = iw_key,
       it_value = IteratorWrapper_value I, it_status = IteratorWrapper_status I \<rparr>"

lemmas IteratorWrapper_defs = IteratorWrapper_methods_def IteratorWrapper_Next_def IteratorWrapper_Prev_def
  IteratorWrapper_Seek_def IteratorWrapper_SeekToFirst_def IteratorWrapper_SeekToLast_def
  IteratorWrapper_value_def IteratorWrapper_status_def IteratorWrapper_move_def
  IteratorWrapper_Update_def IteratorWrapper_Set_def Let_def

section \<open>The contract\<close>

text \<open>The position of the first key that is not below the target.\<close>

definition seek_pos :: "(bytes \<Rightarrow> bytes \<Rightarrow> int) \<Rightarrow> bytes \<Rightarrow> bytes list \<Rightarrow> nat" where
  "seek_pos Compare target ks = length (takeWhile (\<lambda>k. Compare k target < 0) ks)"

lemma seek_pos_less: "i < seek_pos Compare target ks \<Longrightarrow> Compare (ks ! i) target < 0"
  unfolding seek_pos_def by (metis nth_mem set_takeWhileD takeWhile_nth)

lemma seek_pos_nth: "seek_pos Compare target ks < length ks \<Longrightarrow> \<not> Compare (ks ! seek_pos Compare target ks) target < 0"
  unfolding seek_pos_def using nth_length_takeWhile by blast

lemma seek_pos_le: "seek_pos Compare target ks \<le> length ks"
  by (simp add: seek_pos_def length_takeWhile_le)

lemma seek_pos_le_map [simp]: "seek_pos Compare target (map f xs) \<le> length xs"
  using seek_pos_le [of Compare target "map f xs"] by simp

context comparator
begin

lemma seek_pos_sorted:
  assumes "sorted_wrt (\<lambda>a b. Compare a b < 0) ks" and "\<forall>k \<in> set ks. valid k" and "valid target"
    and "i < length ks" and "Compare (ks ! i) target < 0"
  shows "i < seek_pos Compare target ks"
proof (rule ccontr)
  let ?j = "seek_pos Compare target ks"
  assume "\<not> i < ?j"
  then have "?j \<le> i" by simp
  then have "Compare (ks ! ?j) (ks ! i) \<le> 0"
    using assms(1,2,4) Compare_self [of "ks ! i"] by (cases "?j = i") (auto simp: sorted_wrt_iff_nth_less less_imp_le)
  then have "Compare (ks ! ?j) target < 0"
    using Compare_le_less_trans [of "ks ! ?j" "ks ! i" target] assms \<open>?j \<le> i\<close> by auto
  with seek_pos_nth [of Compare target ks] \<open>?j \<le> i\<close> assms(4) show False by simp
qed

lemma seek_pos_iff:
  assumes "sorted_wrt (\<lambda>a b. Compare a b < 0) ks" and "\<forall>k \<in> set ks. valid k" and "valid target" and "i < length ks"
  shows "i < seek_pos Compare target ks \<longleftrightarrow> Compare (ks ! i) target < 0"
  using seek_pos_sorted [OF assms] seek_pos_less [of i Compare target ks] by blast

lemma filter_seek_pos:
  assumes "sorted_wrt (\<lambda>a b. Compare a b < 0) ks" and "\<forall>k \<in> set ks. valid k" and "valid target"
  shows "[j \<leftarrow> [0..<length ks]. 0 \<le> Compare (ks ! j) target] = [seek_pos Compare target ks..<length ks]"
proof -
  let ?p = "seek_pos Compare target ks"
  have "[0..<length ks] = [0..<?p] @ [?p..<length ks]"
    using upt_add_eq_append [of 0 ?p "length ks - ?p"] seek_pos_le [of Compare target ks] by simp
  moreover have "[j \<leftarrow> [0..<?p]. 0 \<le> Compare (ks ! j) target] = []"
    using seek_pos_less [of _ Compare target ks] by (auto simp: filter_empty_conv not_le)
  moreover have "[j \<leftarrow> [?p..<length ks]. 0 \<le> Compare (ks ! j) target] = [?p..<length ks]"
    using seek_pos_iff [OF assms] by (force simp: filter_id_conv)
  ultimately show ?thesis by simp
qed

end

text \<open>A client's moves. \<open>Next\<close> and \<open>Prev\<close> require a valid iterator (\<open>assert(Valid())\<close>), so a client only
  makes them there. The specification is a cursor: a position in a list of entries.\<close>

datatype move = ToFirst | ToLast | ToKey bytes | ToNext | ToPrev

fun iter_move :: "'it Iterator \<Rightarrow> move \<Rightarrow> 'it \<Rightarrow> 'it" where
  "iter_move I ToFirst it = it_SeekToFirst I it"
| "iter_move I ToLast it = it_SeekToLast I it"
| "iter_move I (ToKey target) it = it_Seek I it target"
| "iter_move I ToNext it = (if it_Valid I it then it_Next I it else it)"
| "iter_move I ToPrev it = (if it_Valid I it then it_Prev I it else it)"

fun cursor_move :: "(bytes \<Rightarrow> bytes \<Rightarrow> int) \<Rightarrow> (bytes \<times> bytes) list \<Rightarrow> move \<Rightarrow> nat \<Rightarrow> nat" where
  "cursor_move Compare es ToFirst j = 0"
| "cursor_move Compare es ToLast j = length es - 1"
| "cursor_move Compare es (ToKey target) j = seek_pos Compare target (map fst es)"
| "cursor_move Compare es ToNext j = (if j < length es then Suc j else j)"
| "cursor_move Compare es ToPrev j = (if j < length es then (if j = 0 then length es else j - 1) else j)"

text \<open>
  An iterator over the entries \<open>es\<close>: \<open>on it j\<close> says that \<open>it\<close> stands on entry \<open>j\<close>, or is not valid
  when \<open>j = length es\<close>. The keys increase strictly.
\<close>

locale list_iterator =
  fixes I :: "'it Iterator"
    and Compare :: "bytes \<Rightarrow> bytes \<Rightarrow> int"
    and valid :: "bytes \<Rightarrow> bool"
    and es :: "(bytes \<times> bytes) list"
    and on :: "'it \<Rightarrow> nat \<Rightarrow> bool"
  assumes on_bound: "on it j \<Longrightarrow> j \<le> length es"
    and on_sorted: "on it j \<Longrightarrow> sorted_wrt (\<lambda>a b. Compare a b < 0) (map fst es)"
    and on_valid: "on it j \<Longrightarrow> e \<in> set es \<Longrightarrow> valid (fst e)"
    and Valid_on: "on it j \<Longrightarrow> it_Valid I it \<longleftrightarrow> j < length es"
    and entry_on: "on it j \<Longrightarrow> j < length es \<Longrightarrow> (it_key I it, it_value I it) = es ! j"
    and status_on: "on it j \<Longrightarrow> it_status I it = Status_OK"
    and Next_on: "on it j \<Longrightarrow> j < length es \<Longrightarrow> on (it_Next I it) (Suc j)"
    and Prev_on: "on it j \<Longrightarrow> j < length es \<Longrightarrow> on (it_Prev I it) (if j = 0 then length es else j - 1)"
    and SeekToFirst_on: "on it j \<Longrightarrow> on (it_SeekToFirst I it) 0"
    and SeekToLast_on: "on it j \<Longrightarrow> on (it_SeekToLast I it) (length es - 1)"
    and Seek_on: "on it j \<Longrightarrow> valid target \<Longrightarrow> on (it_Seek I it target) (seek_pos Compare target (map fst es))"
begin

lemma key_on: "on it j \<Longrightarrow> j < length es \<Longrightarrow> it_key I it = fst (es ! j)"
  using entry_on [of it j] by (metis fst_conv)

lemma value_on: "on it j \<Longrightarrow> j < length es \<Longrightarrow> it_value I it = snd (es ! j)"
  using entry_on [of it j] by (metis snd_conv)

lemma Nexts_on: "on it i \<Longrightarrow> i + n \<le> length es \<Longrightarrow> on ((it_Next I ^^ n) it) (i + n)"
proof (induction n)
  case (Suc n)
  then show ?case using Next_on [of "(it_Next I ^^ n) it" "i + n"] by simp
qed simp

lemma Prevs_on: "on it i \<Longrightarrow> i < length es \<Longrightarrow> n \<le> i \<Longrightarrow> on ((it_Prev I ^^ n) it) (i - n)"
proof (induction n)
  case (Suc n)
  then show ?case using Prev_on [of "(it_Prev I ^^ n) it" "i - n"] by simp
qed simp

text \<open>The iterator refines the cursor, along any sequence of moves.\<close>

lemma move_on:
  assumes "on it j" and "\<And>k. mv = ToKey k \<Longrightarrow> valid k"
  shows "on (iter_move I mv it) (cursor_move Compare es mv j)"
  using assms SeekToFirst_on SeekToLast_on Seek_on Next_on Prev_on Valid_on [OF assms(1)] by (cases mv) auto

lemma moves_on:
  assumes "on it j" and "\<And>k. ToKey k \<in> set moves \<Longrightarrow> valid k"
  shows "on (fold (iter_move I) moves it) (fold (cursor_move Compare es) moves j)"
    and "it_status I (fold (iter_move I) moves it) = Status_OK"
    and "it_Valid I (fold (iter_move I) moves it) \<longleftrightarrow> fold (cursor_move Compare es) moves j < length es"
    and "fold (cursor_move Compare es) moves j < length es \<Longrightarrow>
      (it_key I (fold (iter_move I) moves it), it_value I (fold (iter_move I) moves it)) = es ! fold (cursor_move Compare es) moves j"
proof -
  show run: "on (fold (iter_move I) moves it) (fold (cursor_move Compare es) moves j)"
    using assms by (induction moves arbitrary: it j) (simp_all add: move_on)
  show "it_status I (fold (iter_move I) moves it) = Status_OK"
    and "it_Valid I (fold (iter_move I) moves it) \<longleftrightarrow> fold (cursor_move Compare es) moves j < length es"
    and "fold (cursor_move Compare es) moves j < length es \<Longrightarrow>
      (it_key I (fold (iter_move I) moves it), it_value I (fold (iter_move I) moves it)) = es ! fold (cursor_move Compare es) moves j"
    using status_on [OF run] Valid_on [OF run] entry_on [OF run] by auto
qed

text \<open>Scanning forwards from the first entry and backwards from the last shows every entry once.\<close>

lemma scan_forward:
  assumes "on it j"
  shows "map (\<lambda>n. let x = (it_Next I ^^ n) (it_SeekToFirst I it) in (it_key I x, it_value I x)) [0..<length es] = es"
    and "\<not> it_Valid I ((it_Next I ^^ length es) (it_SeekToFirst I it))"
proof -
  note first = Nexts_on [OF SeekToFirst_on [OF assms]]
  show "map (\<lambda>n. let x = (it_Next I ^^ n) (it_SeekToFirst I it) in (it_key I x, it_value I x)) [0..<length es] = es"
    by (rule nth_equalityI) (use entry_on [OF first] in \<open>auto simp: Let_def\<close>)
  show "\<not> it_Valid I ((it_Next I ^^ length es) (it_SeekToFirst I it))"
    using Valid_on [OF first [of "length es"]] by simp
qed

lemma scan_backward:
  assumes "on it j"
  shows "map (\<lambda>n. let x = (it_Prev I ^^ n) (it_SeekToLast I it) in (it_key I x, it_value I x)) [0..<length es] = rev es"
    and "es \<noteq> [] \<Longrightarrow> \<not> it_Valid I ((it_Prev I ^^ length es) (it_SeekToLast I it))"
proof -
  note last = Prevs_on [OF SeekToLast_on [OF assms]]
  show "map (\<lambda>n. let x = (it_Prev I ^^ n) (it_SeekToLast I it) in (it_key I x, it_value I x)) [0..<length es] = rev es"
  proof (rule nth_equalityI)
    fix i assume "i < length (map (\<lambda>n. let x = (it_Prev I ^^ n) (it_SeekToLast I it) in (it_key I x, it_value I x)) [0..<length es])"
    then have i: "i < length es" by simp
    then show "map (\<lambda>n. let x = (it_Prev I ^^ n) (it_SeekToLast I it) in (it_key I x, it_value I x)) [0..<length es] ! i = rev es ! i"
      using entry_on [OF last [of i]] by (auto simp: Let_def rev_nth)
  qed simp
  assume "es \<noteq> []"
  then have len: "length es = Suc (length es - 1)" by simp
  have "on ((it_Prev I ^^ (length es - 1)) (it_SeekToLast I it)) 0" using last [of "length es - 1"] \<open>es \<noteq> []\<close> by simp
  then have "on ((it_Prev I ^^ Suc (length es - 1)) (it_SeekToLast I it)) (length es)"
    using Prev_on [of "(it_Prev I ^^ (length es - 1)) (it_SeekToLast I it)" 0] \<open>es \<noteq> []\<close>
    unfolding funpow.simps comp_def by simp
  with len Valid_on show "\<not> it_Valid I ((it_Prev I ^^ length es) (it_SeekToLast I it))" by (metis less_irrefl)
qed

end

definition right_on :: "('b \<Rightarrow> nat \<Rightarrow> bool) \<Rightarrow> 'a + 'b \<Rightarrow> nat \<Rightarrow> bool" where
  "right_on on it j \<longleftrightarrow> (\<exists>x. it = Inr x \<and> on x j)"

lemma sum_list_iterator:
  fixes I :: "'a Iterator" and J :: "'b Iterator"
  assumes "list_iterator J Compare valid es on"
  shows "list_iterator (sum_methods I J) Compare valid es (right_on on)"
proof -
  have step: "right_on on (map_sum f g it) j'" if "right_on on it j" and "\<And>x. on x j \<Longrightarrow> on (g x) j'" for f :: "'a \<Rightarrow> 'a" and g it j j'
    using that by (auto simp: right_on_def)
  show ?thesis
  proof (unfold_locales, goal_cases)
    case (7 it j)
    show ?case using step [where g = "it_Next J", OF 7(1) list_iterator.Next_on [OF assms _ 7(2)]] by (simp add: sum_methods_def)
  next
    case (8 it j)
    show ?case using step [where g = "it_Prev J", OF 8(1) list_iterator.Prev_on [OF assms _ 8(2)]] by (simp add: sum_methods_def split del: if_split)
  next
    case (9 it j)
    show ?case using step [where g = "it_SeekToFirst J", OF 9 list_iterator.SeekToFirst_on [OF assms]] by (simp add: sum_methods_def)
  next
    case (10 it j)
    show ?case using step [where g = "it_SeekToLast J", OF 10 list_iterator.SeekToLast_on [OF assms]] by (simp add: sum_methods_def)
  next
    case (11 it j target)
    show ?case using step [where g = "\<lambda>x. it_Seek J x target", OF 11(1) list_iterator.Seek_on [OF assms _ 11(2)]] by (simp add: sum_methods_def)
  qed (auto simp: right_on_def sum_methods_def list_iterator.entry_on [OF assms] list_iterator.Valid_on [OF assms] list_iterator.status_on [OF assms]
      dest: list_iterator.on_bound [OF assms] list_iterator.on_sorted [OF assms] list_iterator.on_valid [OF assms])
qed

interpretation empty_iterator: list_iterator EmptyIterator Compare valid "[]" "\<lambda>s j. s = Status_OK \<and> j = 0"
  for Compare valid
  by unfold_locales (auto simp: EmptyIterator_def seek_pos_def)

section \<open>The wrapper keeps the contract\<close>

definition wrapper_coherent :: "'it Iterator \<Rightarrow> 'it IteratorWrapper \<Rightarrow> bool" where
  "wrapper_coherent I w \<longleftrightarrow>
     (case iw_iter w of
        None \<Rightarrow> \<not> iw_valid w
      | Some it \<Rightarrow> iw_valid w = it_Valid I it \<and> (iw_valid w \<longrightarrow> iw_key w = it_key I it))"

text \<open>Whatever the iterator below does, the cache is coherent after every method.\<close>

lemma wrapper_coherent_methods:
  "wrapper_coherent I IteratorWrapper_new"
  "wrapper_coherent I (IteratorWrapper_Set I w iter)"
  "wrapper_coherent I w \<Longrightarrow> wrapper_coherent I (IteratorWrapper_move I f w)"
  by (auto simp: wrapper_coherent_def IteratorWrapper_new_def IteratorWrapper_defs split: option.splits)

definition wrapper_on :: "'it Iterator \<Rightarrow> ('it \<Rightarrow> nat \<Rightarrow> bool) \<Rightarrow> 'it IteratorWrapper \<Rightarrow> nat \<Rightarrow> bool" where
  "wrapper_on I on w j \<longleftrightarrow> wrapper_coherent I w \<and> (\<exists>it. iw_iter w = Some it \<and> on it j)"

lemma wrapper_on_move:
  "wrapper_on I on w j \<Longrightarrow> (\<And>it. on it j \<Longrightarrow> on (f it) j') \<Longrightarrow> wrapper_on I on (IteratorWrapper_move I f w) j'"
  using wrapper_coherent_methods(3) [of I w f]
  by (auto simp: wrapper_on_def IteratorWrapper_defs)

context list_iterator
begin

lemma wrapper_on_valid:
  "wrapper_on I on w j \<Longrightarrow> iw_valid w \<longleftrightarrow> j < length es"
  "wrapper_on I on w j \<Longrightarrow> j < length es \<Longrightarrow> iw_key w = fst (es ! j)"
  "wrapper_on I on w j \<Longrightarrow> j < length es \<Longrightarrow> IteratorWrapper_value I w = snd (es ! j)"
  using Valid_on key_on value_on by (auto simp: wrapper_on_def wrapper_coherent_def IteratorWrapper_value_def)

lemma wrapper_list_iterator:
  "list_iterator (IteratorWrapper_methods I) Compare valid es (wrapper_on I on)"
proof (unfold_locales, goal_cases)
  case (8 w j)
  from wrapper_on_move [OF 8(1), where f = "it_Prev I", OF Prev_on [OF _ 8(2)]] show ?case
    by (simp add: IteratorWrapper_methods_def IteratorWrapper_Prev_def)
next
  case (10 w j)
  from wrapper_on_move [OF 10, where f = "it_SeekToLast I", OF SeekToLast_on] show ?case
    by (simp add: IteratorWrapper_methods_def IteratorWrapper_SeekToLast_def)
qed (auto simp: IteratorWrapper_methods_def IteratorWrapper_Next_def IteratorWrapper_Seek_def wrapper_on_valid
  IteratorWrapper_SeekToFirst_def intro!: wrapper_on_move Next_on Seek_on SeekToFirst_on,
  auto simp: IteratorWrapper_status_def wrapper_on_def dest: on_bound on_sorted on_valid status_on)

lemma wrapper_moves:
  assumes "wrapper_on I on w p"
  shows "p < length es \<Longrightarrow> wrapper_on I on (IteratorWrapper_Next I w) (Suc p)"
    and "p < length es \<Longrightarrow> wrapper_on I on (IteratorWrapper_Prev I w) (if p = 0 then length es else p - 1)"
    and "valid target \<Longrightarrow> wrapper_on I on (IteratorWrapper_Seek I w target) (seek_pos Compare target (map fst es))"
    and "wrapper_on I on (IteratorWrapper_SeekToFirst I w) 0"
    and "wrapper_on I on (IteratorWrapper_SeekToLast I w) (length es - 1)"
    and "IteratorWrapper_status I w = Status_OK"
    and "p \<le> length es"
  using list_iterator.Next_on [OF wrapper_list_iterator assms] list_iterator.Prev_on [OF wrapper_list_iterator assms]
    list_iterator.Seek_on [OF wrapper_list_iterator assms] list_iterator.SeekToFirst_on [OF wrapper_list_iterator assms]
    list_iterator.SeekToLast_on [OF wrapper_list_iterator assms] list_iterator.status_on [OF wrapper_list_iterator assms]
    list_iterator.on_bound [OF wrapper_list_iterator assms]
  by (simp_all add: IteratorWrapper_methods_def)

end

end
