(* ===== verification/Block.thy ===== *)
theory Block
  imports Iterator
begin

text \<open>
  Blocks of a table, \<open>table/block_builder.cc\<close> and \<open>table/block.cc\<close>: entries with prefix-compressed
  keys, an array of restart points, and the iterator that decodes them. Offsets are natural
  numbers: the code keeps them in 32 bits, and the properties assume blocks of less than 4 GiB.
  Building a block and iterating over it is the identity on the list of entries; \<open>Seek\<close> finds the
  first entry at or after its target.
\<close>

section \<open>BlockBuilder\<close>

record BlockBuilder =
  bb_buffer :: bytes
  bb_restarts :: "nat list"
  bb_counter :: nat
  bb_finished :: bool
  bb_last_key :: bytes

definition BlockBuilder_new :: BlockBuilder where
  "BlockBuilder_new = \<lparr> bb_buffer = [], bb_restarts = [0], bb_counter = 0, bb_finished = False, bb_last_key = [] \<rparr>"

definition BlockBuilder_Reset :: "BlockBuilder \<Rightarrow> BlockBuilder" where
  "BlockBuilder_Reset b =
     b\<lparr> bb_buffer := [], bb_restarts := [0], bb_counter := 0, bb_finished := False, bb_last_key := [] \<rparr>"

definition BlockBuilder_CurrentSizeEstimate :: "BlockBuilder \<Rightarrow> nat" where
  "BlockBuilder_CurrentSizeEstimate b = length (bb_buffer b) + length (bb_restarts b) * 4 + 4"

definition BlockBuilder_empty :: "BlockBuilder \<Rightarrow> bool" where
  "BlockBuilder_empty b \<longleftrightarrow> bb_buffer b = []"

definition BlockBuilder_Finish :: "BlockBuilder \<Rightarrow> bytes \<times> BlockBuilder" where
  "BlockBuilder_Finish b =
     (let buf = foldl (\<lambda>buf r. PutFixed32 buf (of_nat r)) (bb_buffer b) (bb_restarts b);
          buf = PutFixed32 buf (of_nat (length (bb_restarts b)))
      in (buf, b\<lparr> bb_buffer := buf, bb_finished := True \<rparr>))"

definition BlockBuilder_Add :: "nat \<Rightarrow> BlockBuilder \<Rightarrow> bytes \<Rightarrow> bytes \<Rightarrow> BlockBuilder" where
  "BlockBuilder_Add block_restart_interval b key v =
     (let (shared, restarts, counter) =
            (if bb_counter b < block_restart_interval
             then (diff_index (bb_last_key b) key, bb_restarts b, bb_counter b)
             else (0, bb_restarts b @ [length (bb_buffer b)], 0));
          non_shared = length key - shared;
          buf = PutVarint32 (bb_buffer b) (of_nat shared);
          buf = PutVarint32 buf (of_nat non_shared);
          buf = PutVarint32 buf (of_nat (length v));
          buf = buf @ take non_shared (drop shared key) @ v
      in b\<lparr> bb_buffer := buf, bb_restarts := restarts, bb_counter := counter + 1,
            bb_last_key := take shared (bb_last_key b) @ take non_shared (drop shared key) \<rparr>)"

section \<open>Block\<close>

record Block =
  block_data :: bytes
  block_size :: nat
  restart_offset :: nat

definition NumRestarts :: "bytes \<Rightarrow> nat \<Rightarrow> nat" where
  "NumRestarts data n = unat (DecodeFixed32 (drop (n - 4) data))"

definition Block_make :: "bytes \<Rightarrow> Block" where
  "Block_make data =
     (if length data < 4 then \<lparr> block_data = data, block_size = 0, restart_offset = 0 \<rparr>
      else (let max_restarts_allowed = (length data - 4) div 4
            in if max_restarts_allowed < NumRestarts data (length data)
               then \<lparr> block_data = data, block_size = 0, restart_offset = 0 \<rparr>
               else \<lparr> block_data = data, block_size = length data,
                      restart_offset = length data - (1 + NumRestarts data (length data)) * 4 \<rparr>))"

text \<open>The bytes from \<open>p\<close> to \<open>limit\<close>; the result is the three lengths and what follows them.\<close>

definition DecodeEntry :: "bytes \<Rightarrow> (u32 \<times> u32 \<times> u32 \<times> bytes) option" where
  "DecodeEntry p =
     (if length p < 3 then None
      else (let shared = ucast (p ! 0) :: u32; non_shared = ucast (p ! 1) :: u32; value_length = ucast (p ! 2) :: u32
            in case (if shared OR non_shared OR value_length < 128
                     then Some (shared, non_shared, value_length, drop 3 p)
                     else Option.bind (GetVarint32Ptr p) (\<lambda>(shared, p).
                          Option.bind (GetVarint32Ptr p) (\<lambda>(non_shared, p).
                          map_option (\<lambda>(value_length, p). (shared, non_shared, value_length, p)) (GetVarint32Ptr p)))) of
                 None \<Rightarrow> None
               | Some (shared, non_shared, value_length, p) \<Rightarrow>
                   if of_nat (length p) < non_shared + value_length then None
                   else Some (shared, non_shared, value_length, p)))"

text \<open>\<open>value_\<close> is a slice of the block: its offset and length.\<close>

record BlockIter =
  bi_data :: bytes
  bi_restarts :: nat
  bi_num_restarts :: nat
  bi_current :: nat
  bi_restart_index :: nat
  bi_key :: bytes
  bi_value :: "nat \<times> nat"
  bi_status :: Status

definition BlockIter_new :: "bytes \<Rightarrow> nat \<Rightarrow> nat \<Rightarrow> BlockIter" where
  "BlockIter_new data restarts num_restarts =
     \<lparr> bi_data = data, bi_restarts = restarts, bi_num_restarts = num_restarts, bi_current = restarts,
       bi_restart_index = num_restarts, bi_key = [], bi_value = (0, 0), bi_status = Status_OK \<rparr>"

definition BlockIter_Valid :: "BlockIter \<Rightarrow> bool" where
  "BlockIter_Valid it \<longleftrightarrow> bi_current it < bi_restarts it"

definition BlockIter_key :: "BlockIter \<Rightarrow> bytes" where
  "BlockIter_key it = bi_key it"

definition BlockIter_value :: "BlockIter \<Rightarrow> bytes" where
  "BlockIter_value it = take (snd (bi_value it)) (drop (fst (bi_value it)) (bi_data it))"

definition NextEntryOffset :: "BlockIter \<Rightarrow> nat" where
  "NextEntryOffset it = fst (bi_value it) + snd (bi_value it)"

definition GetRestartPoint :: "BlockIter \<Rightarrow> nat \<Rightarrow> nat" where
  "GetRestartPoint it index = unat (DecodeFixed32 (drop (bi_restarts it + index * 4) (bi_data it)))"

definition SeekToRestartPoint :: "BlockIter \<Rightarrow> nat \<Rightarrow> BlockIter" where
  "SeekToRestartPoint it index =
     it\<lparr> bi_key := [], bi_restart_index := index, bi_value := (GetRestartPoint it index, 0) \<rparr>"

definition BlockIter_CorruptionError :: "BlockIter \<Rightarrow> BlockIter" where
  "BlockIter_CorruptionError it =
     it\<lparr> bi_current := bi_restarts it, bi_restart_index := bi_num_restarts it,
         bi_status := Corruption (str ''bad entry in block'') [], bi_key := [], bi_value := (0, 0) \<rparr>"

function advance_restart_index :: "BlockIter \<Rightarrow> nat \<Rightarrow> nat" where
  "advance_restart_index it i =
     (if i + 1 < bi_num_restarts it \<and> GetRestartPoint it (i + 1) < bi_current it
      then advance_restart_index it (i + 1) else i)"
  by pat_completeness auto
termination
  by (relation "measure (\<lambda>(it, i). bi_num_restarts it - i)") auto

declare advance_restart_index.simps [simp del]

definition ParseNextKey :: "BlockIter \<Rightarrow> bool \<times> BlockIter" where
  "ParseNextKey it =
     (let it = it\<lparr> bi_current := NextEntryOffset it \<rparr>;
          p = bi_current it;
          limit = bi_restarts it
      in if limit \<le> p
         then (False, it\<lparr> bi_current := bi_restarts it, bi_restart_index := bi_num_restarts it \<rparr>)
         else (case DecodeEntry (drop p (take limit (bi_data it))) of
                 None \<Rightarrow> (False, BlockIter_CorruptionError it)
               | Some (shared, non_shared, value_length, rest) \<Rightarrow>
                   if length (bi_key it) < unat shared then (False, BlockIter_CorruptionError it)
                   else (let q = limit - length rest;
                             it = it\<lparr> bi_key := take (unat shared) (bi_key it) @ take (unat non_shared) (drop q (bi_data it)),
                                      bi_value := (q + unat non_shared, unat value_length) \<rparr>
                         in (True, it\<lparr> bi_restart_index := advance_restart_index it (bi_restart_index it) \<rparr>))))"

definition BlockIter_Next :: "BlockIter \<Rightarrow> BlockIter" where
  "BlockIter_Next it = snd (ParseNextKey it)"

definition BlockIter_SeekToFirst :: "BlockIter \<Rightarrow> BlockIter" where
  "BlockIter_SeekToFirst it = snd (ParseNextKey (SeekToRestartPoint it 0))"

subsection \<open>The loops\<close>

lemma DecodeEntry_shrinks: "DecodeEntry p = Some (sh, ns, vl, rest) \<Longrightarrow> length rest < length p"
  by (auto simp: DecodeEntry_def Let_def bind_eq_Some_conv GetVarint32_def [symmetric]
      split: if_splits option.splits dest!: GetVarint32_shrinks)

lemma ParseNextKey_progress:
  assumes "ParseNextKey it = (True, it')"
  shows "NextEntryOffset it < bi_restarts it \<and> NextEntryOffset it < NextEntryOffset it' \<and>
    bi_restarts it' = bi_restarts it"
proof -
  let ?p = "drop (NextEntryOffset it) (take (bi_restarts it) (bi_data it))"
  from assms obtain sh ns vl rest where d: "DecodeEntry ?p = Some (sh, ns, vl, rest)"
    and lt: "NextEntryOffset it < bi_restarts it"
    and it': "NextEntryOffset it' = bi_restarts it - length rest + unat ns + unat vl" "bi_restarts it' = bi_restarts it"
    by (auto simp: ParseNextKey_def Let_def NextEntryOffset_def split: if_splits option.splits)
  from DecodeEntry_shrinks [OF d] lt have "NextEntryOffset it < bi_restarts it - length rest" by auto
  with lt it' show ?thesis by simp
qed

lemma ParseNextKey_decreases:
  assumes "(True, it') = ParseNextKey it"
  shows "bi_restarts it' - NextEntryOffset it' < bi_restarts it - NextEntryOffset it"
  using ParseNextKey_progress [OF assms [symmetric]] by linarith

text \<open>\<open>do {} while (ParseNextKey() && NextEntryOffset() < bound)\<close>\<close>

function ParseNextKey_while :: "nat \<Rightarrow> BlockIter \<Rightarrow> BlockIter" where
  "ParseNextKey_while bound it =
     (case ParseNextKey it of
        (True, it') \<Rightarrow> if NextEntryOffset it' < bound then ParseNextKey_while bound it' else it'
      | (False, it') \<Rightarrow> it')"
  by pat_completeness auto
termination
  by (relation "measure (\<lambda>(_, it). bi_restarts it - NextEntryOffset it)")
    (auto dest: ParseNextKey_decreases)

fun Prev_restart :: "BlockIter \<Rightarrow> nat \<Rightarrow> nat \<Rightarrow> nat option" where
  "Prev_restart it original i =
     (if original \<le> GetRestartPoint it i
      then (case i of 0 \<Rightarrow> None | Suc j \<Rightarrow> Prev_restart it original j)
      else Some i)"

definition BlockIter_Prev :: "BlockIter \<Rightarrow> BlockIter" where
  "BlockIter_Prev it =
     (let original = bi_current it
      in case Prev_restart it original (bi_restart_index it) of
           None \<Rightarrow> it\<lparr> bi_current := bi_restarts it, bi_restart_index := bi_num_restarts it \<rparr>
         | Some i \<Rightarrow> ParseNextKey_while original (SeekToRestartPoint it i))"

definition BlockIter_SeekToLast :: "BlockIter \<Rightarrow> BlockIter" where
  "BlockIter_SeekToLast it =
     ParseNextKey_while (bi_restarts it) (SeekToRestartPoint it (bi_num_restarts it - 1))"

text \<open>The binary search over the restart points; \<open>None\<close> is a bad entry.\<close>

function Seek_binary :: "(bytes \<Rightarrow> bytes \<Rightarrow> int) \<Rightarrow> BlockIter \<Rightarrow> bytes \<Rightarrow> nat \<Rightarrow> nat \<Rightarrow> nat option" where
  "Seek_binary Compare it target left right =
     (if left < right
      then (let mid = (left + right + 1) div 2;
                region_offset = GetRestartPoint it mid
            in case DecodeEntry (drop region_offset (take (bi_restarts it) (bi_data it))) of
                 None \<Rightarrow> None
               | Some (shared, non_shared, value_length, rest) \<Rightarrow>
                   if shared \<noteq> 0 then None
                   else (let mid_key = take (unat non_shared) (drop (bi_restarts it - length rest) (bi_data it))
                         in if Compare mid_key target < 0
                            then Seek_binary Compare it target mid right
                            else Seek_binary Compare it target left (mid - 1)))
      else Some left)"
  by pat_completeness auto
termination
  by (relation "measure (\<lambda>(_, _, _, left, right). right - left)") auto

function Seek_linear :: "(bytes \<Rightarrow> bytes \<Rightarrow> int) \<Rightarrow> BlockIter \<Rightarrow> bytes \<Rightarrow> BlockIter" where
  "Seek_linear Compare it target =
     (case ParseNextKey it of
        (False, it') \<Rightarrow> it'
      | (True, it') \<Rightarrow> if 0 \<le> Compare (bi_key it') target then it' else Seek_linear Compare it' target)"
  by pat_completeness auto
termination
  by (relation "measure (\<lambda>(_, it, _). bi_restarts it - NextEntryOffset it)")
    (auto dest: ParseNextKey_decreases)

declare ParseNextKey_while.simps [simp del] Prev_restart.simps [simp del]
  Seek_binary.simps [simp del] Seek_linear.simps [simp del]

definition BlockIter_Seek :: "(bytes \<Rightarrow> bytes \<Rightarrow> int) \<Rightarrow> BlockIter \<Rightarrow> bytes \<Rightarrow> BlockIter" where
  "BlockIter_Seek Compare it target =
     (case Seek_binary Compare it target 0 (bi_num_restarts it - 1) of
        None \<Rightarrow> BlockIter_CorruptionError it
      | Some left \<Rightarrow> Seek_linear Compare (SeekToRestartPoint it left) target)"

text \<open>An iterator over entries, or the status of an empty or error iterator.\<close>

definition Block_NewIterator :: "Block \<Rightarrow> Status + BlockIter" where
  "Block_NewIterator b =
     (if block_size b < 4 then Inl (Corruption (str ''bad block contents'') [])
      else (let num_restarts = NumRestarts (block_data b) (block_size b)
            in if num_restarts = 0 then Inl Status_OK
               else Inr (BlockIter_new (block_data b) (restart_offset b) num_restarts)))"

section \<open>The layout of a block\<close>

text \<open>An entry with the number of key bytes it shares with its predecessor.\<close>

type_synonym block_entry = "nat \<times> bytes \<times> bytes"

fun entry_bytes :: "block_entry \<Rightarrow> bytes" where
  "entry_bytes (sh, k, v) = varint sh @ varint (length k - sh) @ varint (length v) @ drop sh k @ v"

definition body :: "block_entry list \<Rightarrow> bytes" where
  "body ts = concat (map entry_bytes ts)"

definition offs :: "block_entry list \<Rightarrow> nat \<Rightarrow> nat" where
  "offs ts j = length (body (take j ts))"

definition block_bytes :: "block_entry list \<Rightarrow> nat list \<Rightarrow> bytes" where
  "block_bytes ts ridx =
     body ts @ concat (map (\<lambda>i. EncodeFixed32 (of_nat (offs ts i))) ridx) @ EncodeFixed32 (of_nat (length ridx))"

fun shares :: "bytes \<Rightarrow> block_entry list \<Rightarrow> bool" where
  "shares prev [] \<longleftrightarrow> True"
| "shares prev ((sh, k, v) # ts) \<longleftrightarrow> sh \<le> length prev \<and> sh \<le> length k \<and> take sh prev = take sh k \<and> shares k ts"

definition layout_ok :: "block_entry list \<Rightarrow> nat list \<Rightarrow> bool" where
  "layout_ok ts ridx \<longleftrightarrow> shares [] ts \<and> ridx \<noteq> [] \<and> hd ridx = 0 \<and> sorted_wrt (<) ridx \<and>
     (\<forall>i \<in> set ridx. i = 0 \<or> i < length ts) \<and> (\<forall>i \<in> set ridx. i < length ts \<longrightarrow> fst (ts ! i) = 0) \<and>
     length (block_bytes ts ridx) < 2 ^ 32"

subsection \<open>Decoding an entry\<close>

lemma or3_less_128:
  assumes "(a :: u32) OR b OR c < 128"
  shows "a < 128 \<and> b < 128 \<and> c < 128"
proof -
  have iff: "x < 128 \<longleftrightarrow> drop_bit 7 x = 0" for x :: u32
    by (simp add: word_less_nat_alt unat_eq_0 [symmetric] unat_drop_bit_div div_eq_0_iff)
  from assms have "drop_bit 7 (a OR b OR c) = 0" by (simp only: iff)
  then have "drop_bit 7 a OR (drop_bit 7 b OR drop_bit 7 c) = 0" by (simp only: drop_bit_or)
  then have "drop_bit 7 a = 0 \<and> drop_bit 7 b = 0 \<and> drop_bit 7 c = 0" by (simp only: or_eq_0_iff)
  then show ?thesis by (simp only: iff)
qed

lemma varint_first_byte: "(ucast (varint n ! 0) :: u32) < 128 \<Longrightarrow> varint n = [of_nat n] \<and> n < 128"
proof (cases "n < 128")
  case False
  assume less: "(ucast (varint n ! 0) :: u32) < 128"
  have "bit (ucast (of_nat (n mod 128) OR (128 :: byte)) :: u32) 7" by (simp add: bit_simps bit_128)
  moreover have "varint n ! 0 = of_nat (n mod 128) OR 128" using False by (simp add: varint_big)
  moreover have "\<not> bit x 7" if "x < 128" for x :: u32
    using that varint_last_bit [of "unat x", where 'a = 32] by (simp add: word_less_nat_alt)
  ultimately show ?thesis using less by metis
qed (simp add: varint_small)

lemma GetVarint32Ptr_varint: "n < 2 ^ 32 \<Longrightarrow> GetVarint32Ptr (varint n @ rest) = Some (of_nat n, rest)"
  using GetVarint32_varint [of "of_nat n" rest] by (simp add: unat_of_nat_small GetVarint32_def)

lemma nth_varint_append: "varint n @ rest \<noteq> [] \<and> (varint n @ rest) ! 0 = varint n ! 0"
  by (simp add: nth_append)

lemma DecodeEntry_varints:
  assumes "a < 2 ^ 32" and "b < 2 ^ 32" and "c < 2 ^ 32" and "length rest < 2 ^ 32"
  shows "DecodeEntry (varint a @ varint b @ varint c @ rest) =
    (if (b + c) mod 2 ^ 32 \<le> length rest then Some (of_nat a, of_nat b, of_nat c, rest) else None)"
proof -
  let ?p = "varint a @ varint b @ varint c @ rest"
  have len: "3 \<le> length ?p"
    using length_varint_pos [of a] length_varint_pos [of b] length_varint_pos [of c]
    unfolding length_append by linarith
  have fast: "(ucast (?p ! 0), ucast (?p ! 1), ucast (?p ! 2), drop 3 ?p) = (of_nat a :: u32, of_nat b :: u32, of_nat c :: u32, rest)"
    if or: "(ucast (?p ! 0) :: u32) OR ucast (?p ! 1) OR ucast (?p ! 2) < 128"
  proof -
    from or3_less_128 [OF or] have "(ucast (varint a ! 0) :: u32) < 128" by (simp add: nth_append)
    then have a: "varint a = [of_nat a]" "a < 128" using varint_first_byte by auto
    with or3_less_128 [OF or] have "(ucast (varint b ! 0) :: u32) < 128" by (simp add: nth_append)
    then have b: "varint b = [of_nat b]" "b < 128" using varint_first_byte by auto
    with a or3_less_128 [OF or] have "(ucast (varint c ! 0) :: u32) < 128" by (simp add: nth_append numeral_2_eq_2)
    then have c: "varint c = [of_nat c]" "c < 128" using varint_first_byte by auto
    show ?thesis by (simp add: a b c varint_last_byte numeral_2_eq_2 numeral_3_eq_3)
  qed
  have sum: "of_nat (length rest) < (of_nat b + of_nat c :: u32) \<longleftrightarrow> \<not> (b + c) mod 2 ^ 32 \<le> length rest"
    using assms(4) by (simp add: word_less_nat_alt unat_of_nat not_le flip: of_nat_add)
  have slow: "Option.bind (GetVarint32Ptr ?p) (\<lambda>(a, p). Option.bind (GetVarint32Ptr p) (\<lambda>(b, p).
      map_option (\<lambda>(c, p). (a, b, c, p)) (GetVarint32Ptr p))) = Some (of_nat a, of_nat b, of_nat c, rest)"
    by (simp add: GetVarint32Ptr_varint [OF assms(1)] GetVarint32Ptr_varint [OF assms(2)]
        GetVarint32Ptr_varint [OF assms(3)])
  have "(if (ucast (?p ! 0) :: u32) OR ucast (?p ! 1) OR ucast (?p ! 2) < 128
         then Some (ucast (?p ! 0), ucast (?p ! 1), ucast (?p ! 2), drop 3 ?p)
         else Some (of_nat a, of_nat b, of_nat c, rest)) = Some (of_nat a :: u32, of_nat b :: u32, of_nat c :: u32, rest)"
    using fast by (simp only: if_cancel split: if_split) blast
  with len sum show ?thesis
    unfolding DecodeEntry_def Let_def slow by (simp del: length_append drop_append)
qed

lemma DecodeEntry_entry:
  assumes "a < 2 ^ 32" and "b < 2 ^ 32" and "c < 2 ^ 32" and "b + c \<le> length rest" and "length rest < 2 ^ 32"
  shows "DecodeEntry (varint a @ varint b @ varint c @ rest) = Some (of_nat a, of_nat b, of_nat c, rest)"
  using DecodeEntry_varints [OF assms(1-3,5)] assms(4,5) by simp

subsection \<open>Offsets\<close>

lemma body_simps [simp]: "body [] = []" "body (t # ts) = entry_bytes t @ body ts" "body (ts @ us) = body ts @ body us"
  by (simp_all add: body_def)

lemma body_split: "j < length ts \<Longrightarrow> body ts = body (take j ts) @ entry_bytes (ts ! j) @ body (drop (Suc j) ts)"
  by (subst id_take_nth_drop [of j ts]) simp_all

lemma drop_offs_body: "j < length ts \<Longrightarrow> drop (offs ts j) (body ts) = entry_bytes (ts ! j) @ body (drop (Suc j) ts)"
  by (simp add: body_split [of j ts] offs_def)

lemma offs_Suc: "j < length ts \<Longrightarrow> offs ts (Suc j) = offs ts j + length (entry_bytes (ts ! j))"
  by (simp add: offs_def take_Suc_conv_app_nth)

lemma offs_0 [simp]: "offs ts 0 = 0"
  by (simp add: offs_def)

lemma offs_length [simp]: "offs ts (length ts) = length (body ts)"
  by (simp add: offs_def)

lemma entry_bytes_pos: "0 < length (entry_bytes t)"
  by (cases t) simp

lemma offs_strict_mono:
  assumes "i < j" and "j \<le> length ts"
  shows "offs ts i < offs ts j"
proof -
  have "offs ts n < offs ts (Suc n)" if "n < length ts" for n
    using that entry_bytes_pos [of "ts ! n"] by (simp add: offs_Suc)
  then show ?thesis using assms by (induction j) (auto simp: less_Suc_eq intro: less_trans)
qed

lemma offs_less_iff: "i \<le> length ts \<Longrightarrow> j \<le> length ts \<Longrightarrow> offs ts i < offs ts j \<longleftrightarrow> i < j"
  using offs_strict_mono [of i j ts] offs_strict_mono [of j i ts] by (cases i j rule: linorder_cases) auto

lemma offs_le_body: "j \<le> length ts \<Longrightarrow> offs ts j \<le> length (body ts)"
  using offs_less_iff [of "length ts" ts j] by (simp add: not_less)

lemma length_block_bytes: "length (block_bytes ts ridx) = length (body ts) + 4 * length ridx + 4"
  by (simp add: block_bytes_def length_fixed32_array)

lemma layout_ok_bounds:
  assumes "layout_ok ts ridx"
  shows "length (body ts) < 2 ^ 32" and "length ridx < 2 ^ 32"
    and "i < length ridx \<Longrightarrow> ridx ! i \<le> length ts" and "i < length ridx \<Longrightarrow> offs ts (ridx ! i) < 2 ^ 32"
proof -
  show b: "length (body ts) < 2 ^ 32" "length ridx < 2 ^ 32"
    using assms unfolding layout_ok_def length_block_bytes by linarith+
  assume "i < length ridx"
  then show r: "ridx ! i \<le> length ts" 
    using assms nth_mem [of i ridx] unfolding layout_ok_def by (metis le0 less_imp_le)
  show "offs ts (ridx ! i) < 2 ^ 32" using offs_le_body [OF r] b(1) by linarith
qed

lemma take_block_bytes: "take (length (body ts)) (block_bytes ts ridx) = body ts"
  by (simp add: block_bytes_def)

lemma NumRestarts_block_bytes:
  assumes "layout_ok ts ridx"
  shows "NumRestarts (block_bytes ts ridx) (length (block_bytes ts ridx)) = length ridx"
proof -
  have "drop (length (block_bytes ts ridx) - 4) (block_bytes ts ridx) = EncodeFixed32 (of_nat (length ridx))"
    unfolding length_block_bytes by (simp add: block_bytes_def length_fixed32_array)
  then show ?thesis using layout_ok_bounds(2) [OF assms] by (simp add: NumRestarts_def unat_of_nat_small)
qed

lemma Block_make_block_bytes:
  assumes "layout_ok ts ridx"
  shows "Block_make (block_bytes ts ridx) =
    \<lparr> block_data = block_bytes ts ridx, block_size = length (block_bytes ts ridx), restart_offset = length (body ts) \<rparr>"
  unfolding Block_make_def NumRestarts_block_bytes [OF assms] Let_def by (simp add: length_block_bytes)

section \<open>Positions of the iterator\<close>

text \<open>
  \<open>iter_at j\<close>: the iterator shows entry \<open>j\<close>. \<open>iter_ready j\<close>: parsing will start at entry \<open>j\<close> and \<open>key_\<close>
  holds the bytes it shares. \<open>iter_end\<close>: the iterator is past the entries and no error occurred.
\<close>

definition iter_on :: "block_entry list \<Rightarrow> nat list \<Rightarrow> BlockIter \<Rightarrow> bool" where
  "iter_on ts ridx it \<longleftrightarrow> bi_data it = block_bytes ts ridx \<and> bi_restarts it = length (body ts) \<and>
     bi_num_restarts it = length ridx \<and> bi_status it = Status_OK"

definition iter_ready :: "block_entry list \<Rightarrow> nat list \<Rightarrow> nat \<Rightarrow> BlockIter \<Rightarrow> bool" where
  "iter_ready ts ridx j it \<longleftrightarrow> iter_on ts ridx it \<and> j \<le> length ts \<and> NextEntryOffset it = offs ts j \<and>
     bi_restart_index it < length ridx \<and> ridx ! bi_restart_index it \<le> j \<and>
     (j < length ts \<longrightarrow> fst (ts ! j) \<le> length (bi_key it) \<and> fst (ts ! j) \<le> length (fst (snd (ts ! j))) \<and>
        take (fst (ts ! j)) (bi_key it) = take (fst (ts ! j)) (fst (snd (ts ! j))))"

definition iter_at :: "block_entry list \<Rightarrow> nat list \<Rightarrow> nat \<Rightarrow> BlockIter \<Rightarrow> bool" where
  "iter_at ts ridx j it \<longleftrightarrow> iter_on ts ridx it \<and> j < length ts \<and> bi_current it = offs ts j \<and>
     BlockIter_key it = fst (snd (ts ! j)) \<and> BlockIter_value it = snd (snd (ts ! j)) \<and>
     NextEntryOffset it = offs ts (Suc j) \<and> bi_restart_index it < length ridx \<and> ridx ! bi_restart_index it \<le> j"

definition iter_end :: "block_entry list \<Rightarrow> nat list \<Rightarrow> BlockIter \<Rightarrow> bool" where
  "iter_end ts ridx it \<longleftrightarrow> iter_on ts ridx it \<and> \<not> BlockIter_Valid it"

lemma iter_at_Valid: "iter_at ts ridx j it \<Longrightarrow> BlockIter_Valid it"
  using offs_less_iff [of j ts "length ts"] by (simp add: iter_at_def iter_on_def BlockIter_Valid_def)

lemma shares_nth:
  "shares prev ts \<Longrightarrow> j < length ts \<Longrightarrow>
   (let p = if j = 0 then prev else fst (snd (ts ! (j - 1))); (sh, k, v) = ts ! j
    in sh \<le> length p \<and> sh \<le> length k \<and> take sh p = take sh k)"
proof (induction prev ts arbitrary: j rule: shares.induct)
  case (2 prev sh k v ts)
  then show ?case
    by (cases j) (auto simp: Let_def split: if_splits prod.splits dest: 2(1) [of "j - 1"])
qed simp

lemma GetRestartPoint_on:
  assumes "layout_ok ts ridx" and "iter_on ts ridx it" and "i < length ridx"
  shows "GetRestartPoint it i = offs ts (ridx ! i)"
proof -
  have "drop (length (body ts) + i * 4) (block_bytes ts ridx) =
      EncodeFixed32 (of_nat (offs ts (ridx ! i))) @
      concat (map (\<lambda>i. EncodeFixed32 (of_nat (offs ts i))) (drop (Suc i) ridx)) @ EncodeFixed32 (of_nat (length ridx))"
    using drop_fixed32_array [OF assms(3), of "\<lambda>i. of_nat (offs ts i)"] assms(3)
    by (simp add: block_bytes_def length_fixed32_array mult.commute)
  with assms layout_ok_bounds(4) [OF assms(1,3)] show ?thesis
    by (simp add: GetRestartPoint_def iter_on_def unat_of_nat_small)
qed

lemma SeekToRestartPoint_ready:
  assumes "layout_ok ts ridx" and "iter_on ts ridx it" and "i < length ridx"
  shows "iter_ready ts ridx (ridx ! i) (SeekToRestartPoint it i)"
proof -
  have "ridx ! i \<in> set ridx" using assms(3) by simp
  with assms layout_ok_bounds(3) [OF assms(1,3)] show ?thesis
    by (auto simp: iter_ready_def iter_on_def SeekToRestartPoint_def NextEntryOffset_def layout_ok_def
        GetRestartPoint_on [OF assms])
qed

lemma advance_restart_index_le:
  assumes "layout_ok ts ridx" and "iter_on ts ridx it" and "bi_current it = offs ts j" and "j < length ts"
    and "i < length ridx" and "ridx ! i \<le> j"
  shows "advance_restart_index it i < length ridx \<and> ridx ! advance_restart_index it i \<le> j"
  using assms(2,3,5,6)
proof (induction it i rule: advance_restart_index.induct)
  case (1 it i)
  show ?case
  proof (cases "i + 1 < bi_num_restarts it \<and> GetRestartPoint it (i + 1) < bi_current it")
    case True
    with 1(2) have i: "i + 1 < length ridx" by (simp add: iter_on_def)
    with True 1(3) have "offs ts (ridx ! (i + 1)) < offs ts j" by (simp add: GetRestartPoint_on [OF assms(1) 1(2)])
    then have "ridx ! (i + 1) \<le> j"
      using offs_less_iff [OF layout_ok_bounds(3) [OF assms(1) i], of j] assms(4) by simp
    from 1(1) [OF True 1(2,3) i this] True show ?thesis
      by (simp add: advance_restart_index.simps [of it i])
  next
    case False
    then have "advance_restart_index it i = i" by (subst advance_restart_index.simps) (rule if_not_P)
    then show ?thesis using 1(4,5) by simp
  qed
qed

lemma shares_key_length: "shares prev ts \<Longrightarrow> (sh, k, v) \<in> set ts \<Longrightarrow> length k \<le> length prev + length (body ts)"
proof (induction prev ts rule: shares.induct)
  case (2 prev sh' k' v' ts)
  then show ?case by (auto simp: not_less)
qed simp

lemma DecodeEntry_block:
  assumes "layout_ok ts ridx" and "j < length ts" and "ts ! j = (sh, k, v)" and "sh \<le> length k"
  shows "DecodeEntry (drop (offs ts j) (take (length (body ts)) (block_bytes ts ridx))) =
      Some (of_nat sh, of_nat (length k - sh), of_nat (length v), drop sh k @ v @ body (drop (Suc j) ts))"
    and "sh < 2 ^ 32" and "length k - sh < 2 ^ 32" and "length v < 2 ^ 32"
    and "offs ts (Suc j) + length (body (drop (Suc j) ts)) = length (body ts)"
    and "drop (length (body ts) - length (drop sh k @ v @ body (drop (Suc j) ts))) (block_bytes ts ridx) =
      drop sh k @ v @ drop (offs ts (Suc j)) (block_bytes ts ridx)"
proof -
  let ?hd = "varint sh @ varint (length k - sh) @ varint (length v)"
  let ?rest = "drop sh k @ v @ body (drop (Suc j) ts)"
  have b: "body ts = body (take j ts) @ ?hd @ ?rest" using body_split [OF assms(2)] assms(3) by simp
  have k: "length k \<le> length (body ts)"
    using shares_key_length [of "[]" ts sh k v] assms(1,2,3) nth_mem [OF assms(2)] by (simp add: layout_ok_def)
  note bound = layout_ok_bounds(1) [OF assms(1)]
  show sh: "sh < 2 ^ 32" using k assms(4) bound by linarith
  show ns: "length k - sh < 2 ^ 32" using k assms(4) bound by linarith
  have len: "length (body ts) = offs ts j + (length ?hd + length ?rest)" by (subst b) (simp add: offs_def)
  then show v: "length v < 2 ^ 32" using bound unfolding length_append by linarith
  have rest: "length ?rest < 2 ^ 32" using len bound by linarith
  have "drop (offs ts j) (body ts) = ?hd @ ?rest" using drop_offs_body [OF assms(2)] assms(3) by simp
  then show "DecodeEntry (drop (offs ts j) (take (length (body ts)) (block_bytes ts ridx))) =
      Some (of_nat sh, of_nat (length k - sh), of_nat (length v), ?rest)"
    using DecodeEntry_entry [OF sh ns v _ rest] by (simp add: take_block_bytes)
  show "offs ts (Suc j) + length (body (drop (Suc j) ts)) = length (body ts)"
    using len assms(3,4) by (simp add: offs_Suc [OF assms(2)])
  show "drop (length (body ts) - length ?rest) (block_bytes ts ridx) = drop sh k @ v @ drop (offs ts (Suc j)) (block_bytes ts ridx)"
  proof -
    have q: "length (body ts) - length ?rest = length (body (take j ts) @ ?hd)"
      using len by (simp add: offs_def)
    have s: "offs ts (Suc j) = length (body (take j ts) @ ?hd) + length (drop sh k @ v)"
      using offs_Suc [OF assms(2)] assms(3,4) unfolding offs_def [of ts j] by simp
    have "block_bytes ts ridx = (body (take j ts) @ ?hd) @ (drop sh k @ v) @ body (drop (Suc j) ts) @ drop (length (body ts)) (block_bytes ts ridx)"
      using b by (simp add: block_bytes_def)
    then obtain zs where z: "block_bytes ts ridx = (body (take j ts) @ ?hd) @ (drop sh k @ v) @ zs" by blast
    show ?thesis unfolding q s z by simp
  qed
qed

lemma ParseNextKey_at:
  assumes "layout_ok ts ridx" and "iter_ready ts ridx j it" and "j < length ts"
  obtains it' where "ParseNextKey it = (True, it')" and "iter_at ts ridx j it'"
proof -
  obtain sh k v where t: "ts ! j = (sh, k, v)" by (cases "ts ! j")
  let ?rest = "drop sh k @ v @ body (drop (Suc j) ts)"
  let ?q = "length (body ts) - length ?rest"
  let ?it = "it\<lparr> bi_current := offs ts j, bi_key := k, bi_value := (?q + (length k - sh), length v) \<rparr>"
  from assms(2,3) t have it: "iter_on ts ridx it" "NextEntryOffset it = offs ts j" "sh \<le> length (bi_key it)" "sh \<le> length k"
      "take sh (bi_key it) = take sh k" "bi_restart_index it < length ridx" "ridx ! bi_restart_index it \<le> j"
    by (auto simp: iter_ready_def)
  note d = DecodeEntry_block [OF assms(1,3) t it(4)]
  have data: "bi_data it = block_bytes ts ridx" "bi_restarts it = length (body ts)" "bi_status it = Status_OK"
    using it(1) by (auto simp: iter_on_def)
  have lt: "offs ts j < length (body ts)" using offs_less_iff [of j ts "length ts"] assms(3) by simp
  have key: "take sh (bi_key it) @ take (length k - sh) (drop ?q (block_bytes ts ridx)) = k"
    unfolding d(6) using it(4,5) by simp
  have on: "iter_on ts ridx ?it" using it(1) by (simp add: iter_on_def)
  note adv = advance_restart_index_le [OF assms(1) on _ assms(3) it(6,7)]
  let ?it' = "?it\<lparr> bi_restart_index := advance_restart_index ?it (bi_restart_index it) \<rparr>"
  have unat: "unat (of_nat sh :: u32) = sh" "unat (of_nat (length k - sh) :: u32) = length k - sh"
    "unat (of_nat (length v) :: u32) = length v"
    using d(2,3,4) by (simp_all add: unat_of_nat_small del: of_nat_diff)
  have "ParseNextKey it = (True, ?it')"
    using lt it(3) by (simp add: ParseNextKey_def Let_def it(2) data d(1) unat key del: of_nat_diff length_append drop_append take_append)
  moreover have "iter_at ts ridx j ?it'"
  proof -
    have "length (drop sh k @ v) \<le> offs ts (Suc j)" using offs_Suc [OF assms(3)] t by simp
    then have "offs ts (Suc j) = ?q + (length k - sh) + length v"
      using d(5) unfolding length_append length_drop by arith
    moreover have "take (length v) (drop (?q + (length k - sh)) (block_bytes ts ridx)) = v"
      unfolding add.commute [of ?q] drop_drop [symmetric] d(6) by simp
    ultimately show ?thesis using adv on assms(3) t
      by (simp add: iter_at_def iter_on_def BlockIter_key_def BlockIter_value_def NextEntryOffset_def data)
  qed
  ultimately show ?thesis by (rule that)
qed

lemma ParseNextKey_end:
  assumes "iter_ready ts ridx (length ts) it"
  obtains it' where "ParseNextKey it = (False, it')" and "iter_end ts ridx it'"
  using assms that
  by (auto simp: iter_ready_def iter_end_def iter_on_def ParseNextKey_def Let_def BlockIter_Valid_def)

lemma iter_at_ready:
  assumes "layout_ok ts ridx" and "iter_at ts ridx j it"
  shows "iter_ready ts ridx (Suc j) it"
  using assms shares_nth [of "[]" ts "Suc j"]
  by (auto simp: iter_ready_def iter_at_def layout_ok_def BlockIter_key_def Let_def split: prod.splits)

lemma BlockIter_Next_at:
  assumes "layout_ok ts ridx" and "iter_at ts ridx j it"
  shows "if Suc j < length ts then iter_at ts ridx (Suc j) (BlockIter_Next it) else iter_end ts ridx (BlockIter_Next it)"
proof (cases "Suc j < length ts")
  case True
  from ParseNextKey_at [OF assms(1) iter_at_ready [OF assms] True] True show ?thesis
    by (metis BlockIter_Next_def snd_conv)
next
  case False
  with assms have "length ts = Suc j" by (simp add: iter_at_def)
  with ParseNextKey_end [of ts ridx it] iter_at_ready [OF assms] show ?thesis
    by (metis BlockIter_Next_def less_irrefl snd_conv)
qed

lemma ParseNextKey_while_at:
  assumes "layout_ok ts ridx" and "iter_ready ts ridx i it" and "i \<le> j" and "j < length ts"
  shows "iter_at ts ridx j (ParseNextKey_while (offs ts (Suc j)) it)"
  using assms(2,3)
proof (induction "j - i" arbitrary: i it)
  case 0
  then have "i = j" by simp
  with 0(2) have "iter_ready ts ridx j it" by simp
  then obtain it' where "ParseNextKey it = (True, it')" "iter_at ts ridx j it'"
    using ParseNextKey_at [OF assms(1) _ assms(4)] by blast
  then show ?case by (simp add: ParseNextKey_while.simps [of _ it] iter_at_def)
next
  case (Suc n)
  then have ij: "i < j" by simp
  obtain it' where it': "ParseNextKey it = (True, it')" "iter_at ts ridx i it'"
    using ParseNextKey_at [OF assms(1) Suc(3) less_trans [OF ij assms(4)]] .
  have "offs ts (Suc i) < offs ts (Suc j)" using ij assms(4) by (simp add: offs_less_iff)
  moreover from Suc(1) [OF _ iter_at_ready [OF assms(1) it'(2)]] Suc(2) ij
  have "iter_at ts ridx j (ParseNextKey_while (offs ts (Suc j)) it')" by simp
  ultimately show ?case using it' by (simp add: ParseNextKey_while.simps [of _ it] iter_at_def)
qed

lemma Prev_restart_at:
  assumes "layout_ok ts ridx" and "iter_on ts ridx it" and "j \<le> length ts" and "i < length ridx"
  shows "case Prev_restart it (offs ts j) i of None \<Rightarrow> j = 0 | Some n \<Rightarrow> n < length ridx \<and> ridx ! n < j"
  using assms(4)
proof (induction i)
  case 0
  have "ridx ! 0 = 0" using assms(1) hd_conv_nth [of ridx] by (simp add: layout_ok_def)
  then show ?case using assms(3) offs_less_iff [of 0 ts j] 0
    by (auto simp: Prev_restart.simps GetRestartPoint_on [OF assms(1,2)])
next
  case (Suc i)
  then show ?case using offs_less_iff [OF layout_ok_bounds(3) [OF assms(1) Suc(2)] assms(3)]
    by (auto simp: Prev_restart.simps [of _ _ "Suc i"] GetRestartPoint_on [OF assms(1,2)])
qed

lemma BlockIter_Prev_at:
  assumes "layout_ok ts ridx" and "iter_at ts ridx j it"
  shows "if j = 0 then iter_end ts ridx (BlockIter_Prev it) else iter_at ts ridx (j - 1) (BlockIter_Prev it)"
proof -
  from assms(2) have it: "iter_on ts ridx it" "j < length ts" "bi_current it = offs ts j" "bi_restart_index it < length ridx"
    by (simp_all add: iter_at_def)
  note p = Prev_restart_at [OF assms(1) it(1) less_imp_le [OF it(2)] it(4)]
  show ?thesis
  proof (cases "Prev_restart it (offs ts j) (bi_restart_index it)")
    case None
    with p it show ?thesis by (simp add: BlockIter_Prev_def iter_end_def iter_on_def BlockIter_Valid_def)
  next
    case (Some n)
    with p have n: "n < length ridx" "ridx ! n < j" by simp_all
    then have "iter_at ts ridx (j - 1) (ParseNextKey_while (offs ts (Suc (j - 1))) (SeekToRestartPoint it n))"
      using it by (intro ParseNextKey_while_at [OF assms(1) SeekToRestartPoint_ready [OF assms(1)]]) auto
    with n Some it show ?thesis by (simp add: BlockIter_Prev_def)
  qed
qed

lemma BlockIter_SeekToFirst_at:
  assumes "layout_ok ts ridx" and "iter_on ts ridx it"
  shows "if ts = [] then iter_end ts ridx (BlockIter_SeekToFirst it) else iter_at ts ridx 0 (BlockIter_SeekToFirst it)"
proof -
  have "0 < length ridx" "ridx ! 0 = 0" using assms(1) by (auto simp: layout_ok_def hd_conv_nth)
  with SeekToRestartPoint_ready [OF assms, of 0] have r: "iter_ready ts ridx 0 (SeekToRestartPoint it 0)" by simp
  show ?thesis
    using r ParseNextKey_at [OF assms(1) r] ParseNextKey_end [of ts ridx "SeekToRestartPoint it 0"]
    by (cases "ts = []") (force simp: BlockIter_SeekToFirst_def)+
qed

lemma BlockIter_SeekToLast_at:
  assumes "layout_ok ts ridx" and "iter_on ts ridx it" and "ts \<noteq> []"
  shows "iter_at ts ridx (length ts - 1) (BlockIter_SeekToLast it)"
proof -
  have n: "length ridx - 1 < length ridx" using assms(1) by (simp add: layout_ok_def)
  then have "ridx ! (length ridx - 1) \<in> set ridx" by simp
  with assms(1,3) have "ridx ! (length ridx - 1) < length ts" unfolding layout_ok_def by (metis length_greater_0_conv)
  then have "iter_at ts ridx (length ts - 1)
      (ParseNextKey_while (offs ts (Suc (length ts - 1))) (SeekToRestartPoint it (length ridx - 1)))"
    by (intro ParseNextKey_while_at [OF assms(1) SeekToRestartPoint_ready [OF assms(1,2) n]]) auto
  with assms show ?thesis by (simp add: BlockIter_SeekToLast_def iter_on_def)
qed

section \<open>Seek\<close>

definition keys_of :: "block_entry list \<Rightarrow> bytes list" where
  "keys_of ts = map (fst \<circ> snd) ts"

lemma Seek_linear_at:
  assumes "layout_ok ts ridx" and "iter_ready ts ridx i it" and "i \<le> seek_pos Compare target (keys_of ts)"
  shows "let j = seek_pos Compare target (keys_of ts); it' = Seek_linear Compare it target
    in if j < length ts then iter_at ts ridx j it' else iter_end ts ridx it'"
  using assms(2,3)
proof (induction "length ts - i" arbitrary: i it)
  case 0
  then have i: "i = length ts" using seek_pos_le [of Compare target "keys_of ts"]
    by (simp add: keys_of_def iter_ready_def)
  with 0(2) obtain it' where "ParseNextKey it = (False, it')" "iter_end ts ridx it'"
    using ParseNextKey_end by blast
  then show ?case using 0 i by (simp add: Seek_linear.simps [of _ it])
next
  case (Suc n)
  then have i: "i < length ts" by simp
  obtain it' where it': "ParseNextKey it = (True, it')" "iter_at ts ridx i it'"
    using ParseNextKey_at [OF assms(1) Suc(3) i] .
  have key: "bi_key it' = keys_of ts ! i" using it'(2) i by (simp add: iter_at_def keys_of_def BlockIter_key_def)
  show ?case
  proof (cases "i = seek_pos Compare target (keys_of ts)")
    case True
    with seek_pos_nth [of Compare target "keys_of ts"] i key
    have "0 \<le> Compare (bi_key it') target" by (simp add: keys_of_def)
    then show ?thesis using it' i True by (simp add: Seek_linear.simps [of _ it] Let_def)
  next
    case False
    with Suc(4) have i': "i < seek_pos Compare target (keys_of ts)" by simp
    with seek_pos_less key have "Compare (bi_key it') target < 0" by simp
    then have "Seek_linear Compare it target = Seek_linear Compare it' target"
      using it' by (simp add: Seek_linear.simps [of _ it])
    with Suc(1) [OF _ iter_at_ready [OF assms(1) it'(2)]] Suc(2) i' show ?thesis by simp
  qed
qed

context comparator
begin

lemma Seek_binary_at:
  assumes "layout_ok ts ridx" and "iter_on ts ridx it" and "valid target" and "\<forall>k \<in> set (keys_of ts). valid k"
    and "sorted_wrt (\<lambda>a b. Compare a b < 0) (keys_of ts)"
    and "left \<le> right" and "right < length ridx" and "ridx ! left \<le> seek_pos Compare target (keys_of ts)"
  shows "\<exists>l. Seek_binary Compare it target left right = Some l \<and> l < length ridx \<and>
    ridx ! l \<le> seek_pos Compare target (keys_of ts)"
  using assms(6-8)
proof (induction "right - left" arbitrary: left right rule: less_induct)
  case less
  show ?case
  proof (cases "left < right")
    case False
    with less show ?thesis by (auto simp: Seek_binary.simps)
  next
    case True
    define mid where "mid = (left + right + 1) div 2"
    have mid: "left < mid" "mid \<le> right" "mid < length ridx" using True less(3) by (auto simp: mid_def)
    have m0: "0 < ridx ! mid"
    proof -
      have "ridx ! 0 < ridx ! mid" using assms(1) mid by (auto simp: layout_ok_def sorted_wrt_iff_nth_less)
      then show ?thesis by simp
    qed
    with assms(1) nth_mem [OF mid(3)] have m: "ridx ! mid < length ts" "fst (ts ! (ridx ! mid)) = 0"
      unfolding layout_ok_def by (metis less_irrefl)+
    obtain k v where t: "ts ! (ridx ! mid) = (0, k, v)" using m(2) by (cases "ts ! (ridx ! mid)") auto
    have k: "k = keys_of ts ! (ridx ! mid)" using t m(1) by (simp add: keys_of_def)
    note d = DecodeEntry_block [OF assms(1) m(1) t]
    have data: "bi_data it = block_bytes ts ridx" "bi_restarts it = length (body ts)" using assms(2) by (auto simp: iter_on_def)
    have mid_key: "take (length k) (drop (length (body ts) - length (drop 0 k @ v @ body (drop (Suc (ridx ! mid)) ts)))
        (block_bytes ts ridx)) = k"
      using d(6) by simp
    have un: "unat (of_nat (length k) :: u32) = length k" using d(3) by (simp add: unat_of_nat_small)
    have step: "Seek_binary Compare it target left right =
        (if Compare k target < 0 then Seek_binary Compare it target mid right
         else Seek_binary Compare it target left (mid - 1))"
      using True d(1) mid_key un
      unfolding Seek_binary.simps [of Compare it target left right] Let_def mid_def [symmetric]
        GetRestartPoint_on [OF assms(1,2) mid(3)] data
      by simp
    show ?thesis
    proof (cases "Compare k target < 0")
      case True
      with seek_pos_sorted [OF assms(5,4,3)] m(1) k have "ridx ! mid \<le> seek_pos Compare target (keys_of ts)"
        by (simp add: keys_of_def less_imp_le)
      with less(1) [of right mid] less(3) mid True show ?thesis by (auto simp: step)
    next
      case False
      with less(1) [of "mid - 1" left] less(3,4) mid show ?thesis by (auto simp: step)
    qed
  qed
qed

lemma BlockIter_Seek_at:
  assumes "layout_ok ts ridx" and "iter_on ts ridx it" and "valid target" and "\<forall>k \<in> set (keys_of ts). valid k"
    and "sorted_wrt (\<lambda>a b. Compare a b < 0) (keys_of ts)"
  shows "let j = seek_pos Compare target (keys_of ts); it' = BlockIter_Seek Compare it target
    in if j < length ts then iter_at ts ridx j it' else iter_end ts ridx it'"
proof -
  have r: "0 < length ridx" "ridx ! 0 = 0" using assms(1) hd_conv_nth [of ridx] by (auto simp: layout_ok_def)
  then obtain l where l: "Seek_binary Compare it target 0 (bi_num_restarts it - 1) = Some l" "l < length ridx"
      "ridx ! l \<le> seek_pos Compare target (keys_of ts)"
    using Seek_binary_at [OF assms, of 0 "length ridx - 1"] assms(2) by (auto simp: iter_on_def)
  with Seek_linear_at [OF assms(1) SeekToRestartPoint_ready [OF assms(1,2) l(2)] l(3)] show ?thesis
    by (simp add: BlockIter_Seek_def)
qed

end

section \<open>The block iterator keeps the iterator contract\<close>

definition Block_Iter_methods :: "(bytes \<Rightarrow> bytes \<Rightarrow> int) \<Rightarrow> BlockIter Iterator" where
  "Block_Iter_methods Compare =
     \<lparr> it_Valid = BlockIter_Valid, it_SeekToFirst = BlockIter_SeekToFirst, it_SeekToLast = BlockIter_SeekToLast,
       it_Seek = BlockIter_Seek Compare, it_Next = BlockIter_Next, it_Prev = BlockIter_Prev,
       it_key = BlockIter_key, it_value = BlockIter_value, it_status = bi_status \<rparr>"

definition block_on :: "(bytes \<Rightarrow> bytes \<Rightarrow> int) \<Rightarrow> (bytes \<Rightarrow> bool) \<Rightarrow> block_entry list \<Rightarrow> nat list \<Rightarrow> BlockIter \<Rightarrow> nat \<Rightarrow> bool" where
  "block_on Compare valid ts ridx it j \<longleftrightarrow> layout_ok ts ridx \<and> (\<forall>k \<in> set (keys_of ts). valid k) \<and>
     sorted_wrt (\<lambda>a b. Compare a b < 0) (keys_of ts) \<and>
     (if j < length ts then iter_at ts ridx j it else j = length ts \<and> iter_end ts ridx it)"

lemma keys_of_snd: "map fst (map snd ts) = keys_of ts"
  by (simp add: keys_of_def)

lemma block_on_iter_on: "block_on Compare valid ts ridx it j \<Longrightarrow> layout_ok ts ridx \<and> iter_on ts ridx it \<and> j \<le> length ts"
  by (auto simp: block_on_def iter_at_def iter_end_def split: if_splits)

lemma block_on_move:
  assumes "block_on Compare valid ts ridx it j"
    and "if j' < length ts then iter_at ts ridx j' it' else j' = length ts \<and> iter_end ts ridx it'"
  shows "block_on Compare valid ts ridx it' j'"
  using assms by (simp add: block_on_def)

lemma block_on_Next:
  assumes "block_on Compare valid ts ridx it j" and "j < length ts"
  shows "block_on Compare valid ts ridx (BlockIter_Next it) (Suc j)"
proof (rule block_on_move [OF assms(1)])
  from assms have "layout_ok ts ridx" "iter_at ts ridx j it" by (simp_all add: block_on_def)
  from BlockIter_Next_at [OF this] assms(2)
  show "if Suc j < length ts then iter_at ts ridx (Suc j) (BlockIter_Next it)
    else Suc j = length ts \<and> iter_end ts ridx (BlockIter_Next it)" by (auto split: if_splits)
qed

lemma block_on_Prev:
  assumes "block_on Compare valid ts ridx it j" and "j < length ts"
  shows "block_on Compare valid ts ridx (BlockIter_Prev it) (if j = 0 then length ts else j - 1)"
proof (rule block_on_move [OF assms(1)])
  from assms have "layout_ok ts ridx" "iter_at ts ridx j it" by (simp_all add: block_on_def)
  from BlockIter_Prev_at [OF this] assms(2)
  show "if (if j = 0 then length ts else j - 1) < length ts
    then iter_at ts ridx (if j = 0 then length ts else j - 1) (BlockIter_Prev it)
    else (if j = 0 then length ts else j - 1) = length ts \<and> iter_end ts ridx (BlockIter_Prev it)"
    by (auto split: if_splits)
qed

lemma block_on_SeekToFirst:
  assumes "block_on Compare valid ts ridx it j"
  shows "block_on Compare valid ts ridx (BlockIter_SeekToFirst it) 0"
  using BlockIter_SeekToFirst_at [of ts ridx it] block_on_iter_on [OF assms]
  by (intro block_on_move [OF assms]) (auto split: if_splits)

lemma block_on_SeekToLast:
  assumes "block_on Compare valid ts ridx it j"
  shows "block_on Compare valid ts ridx (BlockIter_SeekToLast it) (length ts - 1)"
proof (cases "ts = []")
  case True
  note on = block_on_iter_on [OF assms]
  have n: "length ridx - 1 < length ridx" using on by (simp add: layout_ok_def)
  with on have "iter_ready ts ridx (ridx ! (length ridx - 1)) (SeekToRestartPoint it (length ridx - 1))"
    by (intro SeekToRestartPoint_ready) auto
  then have "iter_ready ts ridx (length ts) (SeekToRestartPoint it (length ridx - 1))"
    using True by (simp add: iter_ready_def)
  then obtain it' where "ParseNextKey (SeekToRestartPoint it (length ridx - 1)) = (False, it')" "iter_end ts ridx it'"
    using ParseNextKey_end by blast
  then have "iter_end ts ridx (BlockIter_SeekToLast it)"
    using on by (simp add: BlockIter_SeekToLast_def iter_on_def [of _ _ it] ParseNextKey_while.simps [of _ "SeekToRestartPoint _ _"])
  with True show ?thesis by (intro block_on_move [OF assms]) simp
next
  case False
  with BlockIter_SeekToLast_at [of ts ridx it] block_on_iter_on [OF assms] show ?thesis
    by (intro block_on_move [OF assms]) simp
qed

context comparator
begin

lemma block_on_Seek:
  assumes "block_on Compare valid ts ridx it j" and "valid target"
  shows "block_on Compare valid ts ridx (BlockIter_Seek Compare it target) (seek_pos Compare target (keys_of ts))"
proof (rule block_on_move [OF assms(1)])
  have "\<forall>k \<in> set (keys_of ts). valid k" "sorted_wrt (\<lambda>a b. Compare a b < 0) (keys_of ts)"
    using assms(1) by (simp_all add: block_on_def)
  from BlockIter_Seek_at [OF _ _ assms(2) this] block_on_iter_on [OF assms(1)]
    seek_pos_le_map [of Compare target "fst \<circ> snd" ts]
  show "if seek_pos Compare target (keys_of ts) < length ts
    then iter_at ts ridx (seek_pos Compare target (keys_of ts)) (BlockIter_Seek Compare it target)
    else seek_pos Compare target (keys_of ts) = length ts \<and> iter_end ts ridx (BlockIter_Seek Compare it target)"
    by (auto simp: Let_def keys_of_def simp del: seek_pos_le_map split: if_splits)
qed

lemma block_list_iterator:
  "list_iterator (Block_Iter_methods Compare) Compare valid (map snd ts) (block_on Compare valid ts ridx)"
proof (unfold_locales, goal_cases)
  case (1 it j)
  then show ?case using block_on_iter_on by simp
next
  case (2 it j)
  then show ?case unfolding keys_of_snd by (simp add: block_on_def)
next
  case (3 it j e)
  then show ?case by (auto simp: block_on_def keys_of_def)
next
  case (4 it j)
  then show ?case by (auto simp: Block_Iter_methods_def block_on_def iter_at_Valid iter_end_def split: if_splits)
next
  case (5 it j)
  then show ?case by (simp add: Block_Iter_methods_def block_on_def iter_at_def)
next
  case (6 it j)
  then show ?case using block_on_iter_on [OF 6] by (simp add: Block_Iter_methods_def iter_on_def)
next
  case (8 it j)
  then show ?case using block_on_Prev [OF 8(1)] by (simp only: Block_Iter_methods_def length_map) simp
next
  case (11 it j target)
  then show ?case unfolding keys_of_snd by (simp add: Block_Iter_methods_def block_on_Seek)
next
  case (10 it j)
  then show ?case using block_on_SeekToLast [OF 10] by (simp add: Block_Iter_methods_def)
qed (simp_all add: Block_Iter_methods_def block_on_Next block_on_SeekToFirst)

end

sublocale comparator \<subseteq> block_iter: list_iterator "Block_Iter_methods Compare" Compare valid "map snd ts"
    "block_on Compare valid ts ridx" for ts ridx
  by (rule block_list_iterator)

lemma Block_NewIterator_on:
  assumes "layout_ok ts ridx" and "\<forall>k \<in> set (keys_of ts). valid k" and "sorted_wrt (\<lambda>a b. Compare a b < 0) (keys_of ts)"
  obtains it where "Block_NewIterator (Block_make (block_bytes ts ridx)) = Inr it" and "block_on Compare valid ts ridx it (length ts)"
proof
  have r: "length ridx \<noteq> 0" using assms(1) by (simp add: layout_ok_def)
  let ?it = "BlockIter_new (block_bytes ts ridx) (length (body ts)) (length ridx)"
  show "Block_NewIterator (Block_make (block_bytes ts ridx)) = Inr ?it"
    using r by (simp add: Block_NewIterator_def Block_make_block_bytes [OF assms(1)] 
        NumRestarts_block_bytes [OF assms(1), unfolded length_block_bytes] length_block_bytes)
  show "block_on Compare valid ts ridx ?it (length ts)"
    using assms by (simp add: block_on_def iter_end_def iter_on_def BlockIter_new_def BlockIter_Valid_def)
qed

section \<open>What the builder writes\<close>

definition builder_rep :: "BlockBuilder \<Rightarrow> block_entry list \<Rightarrow> nat list \<Rightarrow> bool" where
  "builder_rep b ts ridx \<longleftrightarrow> bb_buffer b = body ts \<and> bb_restarts b = map (offs ts) ridx \<and>
     bb_last_key b = (if ts = [] then [] else fst (snd (last ts))) \<and> shares [] ts \<and>
     (ts = [] \<longrightarrow> bb_counter b = 0) \<and> ridx \<noteq> [] \<and> hd ridx = 0 \<and> sorted_wrt (<) ridx \<and>
     (\<forall>i \<in> set ridx. i = 0 \<or> i < length ts) \<and> (\<forall>i \<in> set ridx. i < length ts \<longrightarrow> fst (ts ! i) = 0)"

lemma builder_rep_new: "builder_rep BlockBuilder_new [] [0]" "builder_rep (BlockBuilder_Reset b) [] [0]"
  by (simp_all add: builder_rep_def BlockBuilder_new_def BlockBuilder_Reset_def)

lemma shares_snoc:
  "shares prev (ts @ [(sh, k, v)]) \<longleftrightarrow> shares prev ts \<and>
     (let p = if ts = [] then prev else fst (snd (last ts)) in sh \<le> length p \<and> sh \<le> length k \<and> take sh p = take sh k)"
  by (induction prev ts rule: shares.induct) (auto simp: Let_def)

lemma offs_snoc: "i \<le> length ts \<Longrightarrow> offs (ts @ [t]) i = offs ts i"
  by (simp add: offs_def)

lemma builder_rep_layout:
  assumes "builder_rep b ts ridx" and "length (fst (BlockBuilder_Finish b)) < 2 ^ 32"
  shows "fst (BlockBuilder_Finish b) = block_bytes ts ridx \<and> layout_ok ts ridx"
proof -
  have "fst (BlockBuilder_Finish b) = block_bytes ts ridx"
    using assms(1)
    by (simp add: BlockBuilder_Finish_def PutFixed32_def block_bytes_def builder_rep_def Let_def comp_def
        foldl_append_concat [where f = "\<lambda>buf r. buf @ EncodeFixed32 (of_nat r)"])
  with assms show ?thesis by (auto simp: layout_ok_def builder_rep_def)
qed

lemma length_BlockBuilder_Add: "length (bb_buffer b) \<le> length (bb_buffer (BlockBuilder_Add n b k v))"
  by (auto simp: BlockBuilder_Add_def Let_def PutVarint32_def)

lemma builder_rep_Add:
  assumes "builder_rep b ts ridx" and "1 \<le> n" and "length (bb_buffer (BlockBuilder_Add n b k v)) < 2 ^ 32"
  shows "\<exists>sh ridx'. builder_rep (BlockBuilder_Add n b k v) (ts @ [(sh, k, v)]) ridx'"
proof -
  let ?p = "if ts = [] then [] else fst (snd (last ts))"
  let ?restart = "\<not> bb_counter b < n"
  define sh where "sh = (if ?restart then 0 else diff_index ?p k)"
  define ridx' where "ridx' = (if ?restart then ridx @ [length ts] else ridx)"
  have p: "bb_last_key b = ?p" and rep: "bb_buffer b = body ts" "bb_restarts b = map (offs ts) ridx" "shares [] ts"
    and r: "ridx \<noteq> []" "hd ridx = 0" "sorted_wrt (<) ridx" "\<forall>i \<in> set ridx. i = 0 \<or> i < length ts"
      "\<forall>i \<in> set ridx. i < length ts \<longrightarrow> fst (ts ! i) = 0"
    and c: "ts = [] \<longrightarrow> bb_counter b = 0"
    using assms(1) by (simp_all add: builder_rep_def)
  have sh: "sh \<le> length ?p" "sh \<le> length k" "take sh ?p = take sh k"
    using diff_index_props [of ?p k] by (auto simp: sh_def)
  have buf: "bb_buffer (BlockBuilder_Add n b k v) = bb_buffer b @ varint (unat (of_nat sh :: u32)) @
      varint (unat (of_nat (length k - sh) :: u32)) @ varint (unat (of_nat (length v) :: u32)) @ drop sh k @ v"
    by (simp add: BlockBuilder_Add_def Let_def coding_simps p sh_def del: of_nat_diff)
  then have "length (bb_buffer b) + (length k - sh) + length v < 2 ^ 32" using assms(3) by simp
  moreover have "sh \<le> length (bb_buffer b)"
  proof (cases "ts = []")
    case False
    then obtain sh' k' v' where "last ts = (sh', k', v')" "(sh', k', v') \<in> set ts" by (metis last_in_set prod_cases3)
    with shares_key_length [OF rep(3)] sh(1) rep(1) show ?thesis using False by fastforce
  qed (use sh(1) in simp)
  ultimately have small: "sh < 2 ^ 32" "length k - sh < 2 ^ 32" "length v < 2 ^ 32" by linarith+
  have "bb_buffer (BlockBuilder_Add n b k v) = body (ts @ [(sh, k, v)])"
    unfolding buf using small by (simp add: rep unat_of_nat_small del: of_nat_diff)
  moreover have "bb_restarts (BlockBuilder_Add n b k v) = map (offs (ts @ [(sh, k, v)])) ridx'"
  proof -
    have "map (offs (ts @ [(sh, k, v)])) ridx = map (offs ts) ridx" using r(4) by (auto intro!: offs_snoc)
    moreover have "offs (ts @ [(sh, k, v)]) (length ts) = length (body ts)" by (simp add: offs_snoc)
    ultimately show ?thesis by (simp add: BlockBuilder_Add_def Let_def ridx'_def rep)
  qed
  moreover have "bb_last_key (BlockBuilder_Add n b k v) = k"
    using sh(2,3) by (simp add: BlockBuilder_Add_def Let_def p sh_def split: if_splits)
  moreover have "shares [] (ts @ [(sh, k, v)])" using rep(3) sh by (simp add: shares_snoc Let_def)
  moreover have "ridx' \<noteq> [] \<and> hd ridx' = 0 \<and> sorted_wrt (<) ridx' \<and> (\<forall>i \<in> set ridx'. i = 0 \<or> i < length (ts @ [(sh, k, v)]))"
  proof (cases ?restart)
    case True
    then have "0 < length ts" using c assms(2) by auto
    then show ?thesis using r(1-4) True by (auto simp: ridx'_def sorted_wrt_append)
  qed (use r(1-4) in \<open>auto simp: ridx'_def\<close>)
  moreover have "fst ((ts @ [(sh, k, v)]) ! i) = 0" if "i \<in> set ridx'" "i < length (ts @ [(sh, k, v)])" for i
  proof (cases "i < length ts")
    case True
    then show ?thesis using that r(5) by (auto simp: nth_append ridx'_def split: if_splits)
  next
    case False
    with that r(4) have "?restart \<or> ts = []" by (auto simp: ridx'_def split: if_splits)
    then show ?thesis using False that by (auto simp: sh_def nth_append)
  qed
  ultimately have "builder_rep (BlockBuilder_Add n b k v) (ts @ [(sh, k, v)]) ridx'"
    by (simp add: builder_rep_def del: body_simps)
  then show ?thesis by blast
qed

definition BlockBuilder_Adds :: "nat \<Rightarrow> BlockBuilder \<Rightarrow> (bytes \<times> bytes) list \<Rightarrow> BlockBuilder" where
  "BlockBuilder_Adds n b es = foldl (\<lambda>b (k, v). BlockBuilder_Add n b k v) b es"

lemma length_BlockBuilder_Adds: "length (bb_buffer b) \<le> length (bb_buffer (BlockBuilder_Adds n b es))"
proof (induction es arbitrary: b)
  case (Cons e es)
  obtain k v where [simp]: "e = (k, v)" by (cases e)
  from Cons [of "BlockBuilder_Add n b k v"] length_BlockBuilder_Add [of b n k v] show ?case
    by (simp add: BlockBuilder_Adds_def)
qed (simp add: BlockBuilder_Adds_def)

lemma builder_rep_Adds:
  assumes "builder_rep b ts ridx" and "1 \<le> n" and "length (bb_buffer (BlockBuilder_Adds n b es)) < 2 ^ 32"
  shows "\<exists>ts' ridx'. builder_rep (BlockBuilder_Adds n b es) ts' ridx' \<and> map snd ts' = map snd ts @ es"
  using assms(1,3)
proof (induction es arbitrary: b ts ridx)
  case Nil
  then show ?case by (auto simp: BlockBuilder_Adds_def)
next
  case (Cons e es)
  obtain k v where [simp]: "e = (k, v)" by (cases e)
  have eq: "BlockBuilder_Adds n b (e # es) = BlockBuilder_Adds n (BlockBuilder_Add n b k v) es"
    by (simp add: BlockBuilder_Adds_def)
  then obtain sh ridx' where "builder_rep (BlockBuilder_Add n b k v) (ts @ [(sh, k, v)]) ridx'"
    using builder_rep_Add [OF Cons(2) assms(2), of k v] Cons(3) length_BlockBuilder_Adds [of "BlockBuilder_Add n b k v" n es]
    by auto
  from Cons(1) [OF this] Cons(3) show ?case unfolding eq by simp
qed

text \<open>A built block, its bytes, and an iterator over it.\<close>

lemma length_Finish: "length (bb_buffer b) \<le> length (fst (BlockBuilder_Finish b))"
proof -
  have "fst (BlockBuilder_Finish b) = bb_buffer b @ concat (map (\<lambda>r. EncodeFixed32 (of_nat r)) (bb_restarts b)) @
      EncodeFixed32 (of_nat (length (bb_restarts b)))"
    by (simp add: BlockBuilder_Finish_def PutFixed32_def Let_def
        foldl_append_concat [where f = "\<lambda>buf r. buf @ EncodeFixed32 (of_nat r)"])
  then show ?thesis by simp
qed

definition BlockBuilder_build :: "nat \<Rightarrow> (bytes \<times> bytes) list \<Rightarrow> bytes" where
  "BlockBuilder_build n es = fst (BlockBuilder_Finish (BlockBuilder_Adds n BlockBuilder_new es))"

lemma BlockBuilder_build_layout:
  assumes "1 \<le> n" and "length (BlockBuilder_build n es) < 2 ^ 32"
  obtains ts ridx where "BlockBuilder_build n es = block_bytes ts ridx" and "layout_ok ts ridx" and "map snd ts = es"
proof -
  have "length (bb_buffer (BlockBuilder_Adds n BlockBuilder_new es)) < 2 ^ 32"
    using assms(2) length_Finish le_less_trans unfolding BlockBuilder_build_def by blast
  from builder_rep_Adds [OF builder_rep_new(1) assms(1) this] obtain ts ridx
    where "builder_rep (BlockBuilder_Adds n BlockBuilder_new es) ts ridx" "map snd ts = es" by auto
  with builder_rep_layout [OF this(1)] assms(2) that show ?thesis unfolding BlockBuilder_build_def by blast
qed

lemma BlockBuilder_build_on:
  assumes "1 \<le> n" and "length (BlockBuilder_build n es) < 2 ^ 32"
    and "sorted_wrt (\<lambda>a b. Compare a b < 0) (map fst es)" and "\<forall>e \<in> set es. valid (fst e)"
  shows "\<exists>ts ridx it. map snd ts = es \<and> Block_NewIterator (Block_make (BlockBuilder_build n es)) = Inr it \<and>
    block_on Compare valid ts ridx it (length es)"
proof -
  obtain ts ridx where b: "BlockBuilder_build n es = block_bytes ts ridx" "layout_ok ts ridx" "map snd ts = es"
    using BlockBuilder_build_layout [OF assms(1,2)] .
  have "keys_of ts = map fst es" "length ts = length es" using b(3) by (auto simp flip: keys_of_snd)
  moreover obtain it where "Block_NewIterator (Block_make (block_bytes ts ridx)) = Inr it"
      "block_on Compare valid ts ridx it (length ts)"
    by (rule Block_NewIterator_on [OF b(2), of valid Compare]) (use calculation assms(3,4) in auto)
  ultimately show ?thesis using b(1,3) by auto
qed

section \<open>Properties\<close>

text \<open>C10: what is added to a block is what iterating over the block shows, for any restart interval:
  the builder's bytes open as a block, scanning from \<open>SeekToFirst\<close> with \<open>Next\<close> gives exactly the added
  entries, and scanning from \<open>SeekToLast\<close> with \<open>Prev\<close> gives them in reverse, across prefix compression
  and restart points.\<close>

theorem block_build_iterate:
  assumes "1 \<le> n" and "length (BlockBuilder_build n es) < 2 ^ 32"
    and "sorted_wrt (\<lambda>a b. BytewiseCompare a b < 0) (map fst es)"
  shows "\<exists>it. Block_NewIterator (Block_make (BlockBuilder_build n es)) = Inr it \<and>
    map (\<lambda>n. let x = (BlockIter_Next ^^ n) (BlockIter_SeekToFirst it) in (BlockIter_key x, BlockIter_value x))
      [0..<length es] = es \<and>
    \<not> BlockIter_Valid ((BlockIter_Next ^^ length es) (BlockIter_SeekToFirst it)) \<and>
    map (\<lambda>n. let x = (BlockIter_Prev ^^ n) (BlockIter_SeekToLast it) in (BlockIter_key x, BlockIter_value x))
      [0..<length es] = rev es"
proof -
  obtain ts ridx it where b: "map snd ts = es" "Block_NewIterator (Block_make (BlockBuilder_build n es)) = Inr it"
      "block_on BytewiseCompare (\<lambda>_. True) ts ridx it (length es)"
    using BlockBuilder_build_on [OF assms, of "\<lambda>_. True"] by auto
  from bytewise.block_iter.scan_forward [OF b(3)] bytewise.block_iter.scan_backward(1) [OF b(3)] b(2) show ?thesis
    by (auto simp: Block_Iter_methods_def b(1))
qed

theorem block_build_iterate_witness:
  "\<exists>it. Block_NewIterator (Block_make (BlockBuilder_build 2 [(str ''ab'', [1]), (str ''abc'', [2]), (str ''b'', [])])) = Inr it \<and>
    map (\<lambda>n. let x = (BlockIter_Next ^^ n) (BlockIter_SeekToFirst it) in (BlockIter_key x, BlockIter_value x))
      [0..<length [(str ''ab'', [1]), (str ''abc'', [2 :: byte]), (str ''b'', [])]] = [(str ''ab'', [1]), (str ''abc'', [2]), (str ''b'', [])]"
proof -
  let ?es = "[(str ''ab'', [1]), (str ''abc'', [2]), (str ''b'', [])] :: (bytes \<times> bytes) list"
  have "length (BlockBuilder_build 2 ?es) = 27" by code_simp
  then have "length (BlockBuilder_build 2 ?es) < 2 ^ 32" by simp
  moreover have "sorted_wrt (\<lambda>a b. BytewiseCompare a b < 0) (map fst ?es)" by code_simp
  ultimately show ?thesis using block_build_iterate [of 2 ?es] by auto
qed

text \<open>C11: \<open>Seek\<close> on a built block stops at the first entry whose key is not below the target, through
  the binary search over the restart points and the linear search behind it, wherever the iterator
  stood before; it ends invalid, without an error, when every key is below the target.\<close>

theorem block_seek:
  assumes "1 \<le> n" and "length (BlockBuilder_build n es) < 2 ^ 32"
    and "sorted_wrt (\<lambda>a b. BytewiseCompare a b < 0) (map fst es)"
    and "Block_NewIterator (Block_make (BlockBuilder_build n es)) = Inr it"
  shows "let it' = BlockIter_Seek BytewiseCompare ((BlockIter_Next ^^ m) (BlockIter_SeekToFirst it)) target;
             js = [j \<leftarrow> [0..<length es]. BytewiseCompare (fst (es ! j)) target \<ge> 0]
    in m \<le> length es \<longrightarrow> bi_status it' = Status_OK \<and>
      (if js = [] then \<not> BlockIter_Valid it'
       else BlockIter_Valid it' \<and> (BlockIter_key it', BlockIter_value it') = es ! hd js)"
proof -
  obtain ts ridx where b: "map snd ts = es" "block_on BytewiseCompare (\<lambda>_. True) ts ridx it (length es)"
    using BlockBuilder_build_on [OF assms(1-3), of "\<lambda>_. True"] assms(4) by auto
  let ?p = "seek_pos BytewiseCompare target (map fst es)"
  let ?it = "(BlockIter_Next ^^ m) (BlockIter_SeekToFirst it)"
  have "block_on BytewiseCompare (\<lambda>_. True) ts ridx (BlockIter_Seek BytewiseCompare ?it target) ?p" if "m \<le> length es"
    using bytewise.block_iter.Seek_on [OF bytewise.block_iter.Nexts_on [OF bytewise.block_iter.SeekToFirst_on [OF b(2)], of m], of target]
      that b(1) by (simp add: Block_Iter_methods_def)
  note seek = bytewise.block_iter.Valid_on [OF this] bytewise.block_iter.entry_on [OF this] bytewise.block_iter.status_on [OF this]
  have filter: "[j \<leftarrow> [0..<length es]. BytewiseCompare (fst (es ! j)) target \<ge> 0] = [?p..<length es]"
  proof -
    have "[j \<leftarrow> [0..<length es]. BytewiseCompare (fst (es ! j)) target \<ge> 0] =
        [j \<leftarrow> [0..<length (map fst es)]. 0 \<le> BytewiseCompare (map fst es ! j) target]" by (auto intro!: filter_cong)
    with bytewise.filter_seek_pos [OF assms(3), of target] show ?thesis by simp
  qed
  show ?thesis using seek b(1) unfolding filter Let_def by (auto simp: Block_Iter_methods_def)
qed

theorem block_seek_witness:
  "let es = [(str ''ab'', [1]), (str ''abc'', [2]), (str ''b'', [])];
       it = projr (Block_NewIterator (Block_make (BlockBuilder_build 2 es)));
       it' = BlockIter_Seek BytewiseCompare ((BlockIter_Next ^^ 3) (BlockIter_SeekToFirst it)) (str ''abb'')
   in (BlockIter_key it', BlockIter_value it') = (str ''abc'', [2])"
proof -
  let ?es = "[(str ''ab'', [1]), (str ''abc'', [2]), (str ''b'', [])] :: (bytes \<times> bytes) list"
  let ?it = "projr (Block_NewIterator (Block_make (BlockBuilder_build 2 ?es)))"
  have "length (BlockBuilder_build 2 ?es) = 27" by code_simp
  then have "length (BlockBuilder_build 2 ?es) < 2 ^ 32" by simp
  moreover have "sorted_wrt (\<lambda>a b. BytewiseCompare a b < 0) (map fst ?es)" by code_simp
  moreover have "Block_NewIterator (Block_make (BlockBuilder_build 2 ?es)) = Inr ?it" by code_simp
  ultimately have "let it' = BlockIter_Seek BytewiseCompare ((BlockIter_Next ^^ 3) (BlockIter_SeekToFirst ?it)) (str ''abb'');
             js = [j \<leftarrow> [0..<length ?es]. BytewiseCompare (fst (?es ! j)) (str ''abb'') \<ge> 0]
    in 3 \<le> length ?es \<longrightarrow> bi_status it' = Status_OK \<and>
      (if js = [] then \<not> BlockIter_Valid it'
       else BlockIter_Valid it' \<and> (BlockIter_key it', BlockIter_value it') = ?es ! hd js)"
    by (intro block_seek [of 2]) auto
  moreover have "[j \<leftarrow> [0..<length ?es]. BytewiseCompare (fst (?es ! j)) (str ''abb'') \<ge> 0] = [1, 2]" by code_simp
  ultimately show ?thesis unfolding Let_def by simp
qed

text \<open>C39: the bounds check of \<open>DecodeEntry\<close> compares the bytes that are left with the 32-bit sum of the key and
  value lengths. For every entry whose two lengths, as encoded by the builder, add up to less than
  \<open>2 ^ 32\<close> the entry is accepted exactly when the bytes are there; when the sum wraps around and what
  remains of it passes the check, the entry is accepted although its key and value need more bytes
  than are left.\<close>

theorem decode_entry_length_wraps:
  assumes "shared < 2 ^ 32" and "non_shared < 2 ^ 32" and "value_length < 2 ^ 32" and "length rest < 2 ^ 32"
  shows "let r = DecodeEntry (varint shared @ varint non_shared @ varint value_length @ rest);
             entry = Some (of_nat shared, of_nat non_shared, of_nat value_length, rest)
    in (non_shared + value_length < 2 ^ 32 \<longrightarrow>
          r = (if non_shared + value_length \<le> length rest then entry else None)) \<and>
       (2 ^ 32 \<le> non_shared + value_length \<and> non_shared + value_length - 2 ^ 32 \<le> length rest \<longrightarrow>
          r = entry \<and> length rest < non_shared + value_length)"
proof -
  have "(non_shared + value_length) mod 2 ^ 32 = non_shared + value_length - 2 ^ 32" if "2 ^ 32 \<le> non_shared + value_length"
    using that assms(2,3) by (subst le_mod_geq) auto
  then show ?thesis unfolding Let_def DecodeEntry_varints [OF assms] using assms(4) by auto
qed

theorem decode_entry_length_wraps_witness:
  "DecodeEntry (varint 0 @ varint (2 ^ 32 - 1) @ varint 1 @ []) = Some (0, of_nat (2 ^ 32 - 1), 1, [])"
  using decode_entry_length_wraps [of 0 "2 ^ 32 - 1" 1 "[]"] by simp

end
