(* ===== verification/Filter_Block.thy ===== *)
theory Filter_Block
  imports Bloom Coding
begin

text \<open>
  The filter block of a table, \<open>table/filter_block.h\<close> and \<open>table/filter_block.cc\<close>: one filter for every
  2 KiB of file offsets, an array of their positions, and the reader that finds the filter of a data
  block by its offset. No key of a data block is missed by the filter of that block's offset.
\<close>

section \<open>The builder\<close>

definition kFilterBaseLg :: nat where
  "kFilterBaseLg = 11"

definition kFilterBase :: u64 where
  "kFilterBase = push_bit kFilterBaseLg 1"

text \<open>\<open>tmp_keys_\<close> is only used inside \<open>GenerateFilter\<close>.\<close>

record FilterBlockBuilder =
  fb_keys :: bytes
  fb_start :: "nat list"
  fb_result :: bytes
  fb_offsets :: "u32 list"

definition FilterBlockBuilder_new :: FilterBlockBuilder where
  "FilterBlockBuilder_new = \<lparr> fb_keys = [], fb_start = [], fb_result = [], fb_offsets = [] \<rparr>"

definition GenerateFilter :: "(bytes list \<Rightarrow> bytes \<Rightarrow> bytes) \<Rightarrow> FilterBlockBuilder \<Rightarrow> FilterBlockBuilder" where
  "GenerateFilter CreateFilter b =
     (let num_keys = length (fb_start b)
      in if num_keys = 0 then b\<lparr> fb_offsets := fb_offsets b @ [of_nat (length (fb_result b))] \<rparr>
         else (let start = fb_start b @ [length (fb_keys b)];
                   tmp_keys = map (\<lambda>i. take (start ! (i + 1) - start ! i) (drop (start ! i) (fb_keys b))) [0..<num_keys]
               in \<lparr> fb_keys = [], fb_start = [], fb_result = CreateFilter tmp_keys (fb_result b),
                    fb_offsets = fb_offsets b @ [of_nat (length (fb_result b))] \<rparr>))"

lemma GenerateFilter_grows [simp]: "length (fb_offsets (GenerateFilter CreateFilter b)) = Suc (length (fb_offsets b))"
  by (simp add: GenerateFilter_def Let_def)

function StartBlock_while :: "(bytes list \<Rightarrow> bytes \<Rightarrow> bytes) \<Rightarrow> nat \<Rightarrow> FilterBlockBuilder \<Rightarrow> FilterBlockBuilder" where
  "StartBlock_while CreateFilter filter_index b =
     (if filter_index > length (fb_offsets b) then StartBlock_while CreateFilter filter_index (GenerateFilter CreateFilter b) else b)"
  by pat_completeness auto
termination
  by (relation "measure (\<lambda>(_, filter_index, b). filter_index - length (fb_offsets b))") auto

declare StartBlock_while.simps [simp del]

definition StartBlock :: "(bytes list \<Rightarrow> bytes \<Rightarrow> bytes) \<Rightarrow> FilterBlockBuilder \<Rightarrow> u64 \<Rightarrow> FilterBlockBuilder" where
  "StartBlock CreateFilter b block_offset = StartBlock_while CreateFilter (unat (block_offset div kFilterBase)) b"

definition AddKey :: "FilterBlockBuilder \<Rightarrow> bytes \<Rightarrow> FilterBlockBuilder" where
  "AddKey b key = b\<lparr> fb_start := fb_start b @ [length (fb_keys b)], fb_keys := fb_keys b @ key \<rparr>"

definition FilterBlock_Finish :: "(bytes list \<Rightarrow> bytes \<Rightarrow> bytes) \<Rightarrow> FilterBlockBuilder \<Rightarrow> FilterBlockBuilder" where
  "FilterBlock_Finish CreateFilter b =
     (let b = (if fb_start b \<noteq> [] then GenerateFilter CreateFilter b else b);
          array_offset = of_nat (length (fb_result b));
          result = foldl PutFixed32 (fb_result b) (fb_offsets b);
          result = PutFixed32 result array_offset
      in b\<lparr> fb_result := result @ [of_nat kFilterBaseLg] \<rparr>)"

section \<open>The reader\<close>

text \<open>\<open>offset_\<close> is a position in \<open>data_\<close>; both are null, and \<open>num_\<close> is zero, when the contents are
  malformed. \<open>base_lg_\<close> is a \<open>char\<close> converted to \<open>size_t\<close>.\<close>

record FilterBlockReader =
  fr_data :: bytes
  fr_offset :: nat
  fr_num :: nat
  fr_base_lg :: nat

definition FilterBlockReader_new :: "bytes \<Rightarrow> FilterBlockReader" where
  "FilterBlockReader_new contents =
     (let n = length contents; r = \<lparr> fr_data = [], fr_offset = 0, fr_num = 0, fr_base_lg = 0 \<rparr>
      in if n < 5 then r
         else (let r = r\<lparr> fr_base_lg := unat (scast (contents ! (n - 1)) :: u64) \<rparr>;
                   last_word = unat (DecodeFixed32 (drop (n - 5) contents))
               in if last_word > n - 5 then r
                  else r\<lparr> fr_data := contents, fr_offset := last_word, fr_num := (n - 5 - last_word) div 4 \<rparr>))"

definition FilterBlock_KeyMayMatch :: "(bytes \<Rightarrow> bytes \<Rightarrow> bool) \<Rightarrow> FilterBlockReader \<Rightarrow> u64 \<Rightarrow> bytes \<Rightarrow> bool" where
  "FilterBlock_KeyMayMatch KeyMayMatch r block_offset key =
     (let index = unat (drop_bit (fr_base_lg r) block_offset)
      in if index < fr_num r
         then (let start = unat (DecodeFixed32 (drop (fr_offset r + index * 4) (fr_data r)));
                   limit = unat (DecodeFixed32 (drop (fr_offset r + index * 4 + 4) (fr_data r)))
               in if start \<le> limit \<and> limit \<le> fr_offset r then KeyMayMatch key (take (limit - start) (drop start (fr_data r)))
                  else if start = limit then False else True)
         else True)"

section \<open>What the builder holds\<close>

definition starts :: "'a list list \<Rightarrow> nat list" where
  "starts xss = map (\<lambda>i. length (concat (take i xss))) [0..<length xss]"

lemma starts_Nil [simp]: "starts [] = []"
  by (simp add: starts_def)

lemma starts_snoc [simp]: "starts (xss @ [xs]) = starts xss @ [length (concat xss)]"
  by (simp add: starts_def)

lemma length_starts [simp]: "length (starts xss) = length xss"
  by (simp add: starts_def)

lemma starts_nth: "i \<le> length xss \<Longrightarrow> (starts xss @ [length (concat xss)]) ! i = length (concat (take i xss))"
  by (auto simp: starts_def nth_append)

lemma concat_piece: "i < length xss \<Longrightarrow>
  take (length (concat (take (Suc i) xss)) - length (concat (take i xss))) (drop (length (concat (take i xss))) (concat xss @ ys)) = xss ! i"
proof -
  assume i: "i < length xss"
  then have "xss = take i xss @ [xss ! i] @ drop (Suc i) xss" by (simp add: id_take_nth_drop)
  then have "concat xss = concat (take i xss) @ xss ! i @ concat (drop (Suc i) xss)"
    by (metis concat_append append_assoc concat.simps append_Nil2)
  then show ?thesis using i by (simp add: take_Suc_conv_app_nth)
qed

text \<open>Filters already generated, for the keys \<open>kss\<close>, and the keys \<open>pending\<close> for the next one.\<close>

definition filters_of :: "(bytes list \<Rightarrow> bytes \<Rightarrow> bytes) \<Rightarrow> bytes list list \<Rightarrow> bytes list" where
  "filters_of CreateFilter kss = map (\<lambda>ks. if ks = [] then [] else CreateFilter ks []) kss"

definition builder_holds :: "(bytes list \<Rightarrow> bytes \<Rightarrow> bytes) \<Rightarrow> FilterBlockBuilder \<Rightarrow> bytes list list \<Rightarrow> bytes list \<Rightarrow> bool" where
  "builder_holds CreateFilter b kss pending \<longleftrightarrow>
     fb_result b = concat (filters_of CreateFilter kss) \<and> fb_offsets b = map of_nat (starts (filters_of CreateFilter kss)) \<and>
     fb_keys b = concat pending \<and> fb_start b = starts pending"

lemma builder_holds_new: "builder_holds CreateFilter FilterBlockBuilder_new [] []"
  by (simp add: builder_holds_def FilterBlockBuilder_new_def filters_of_def)

lemma builder_holds_AddKey: "builder_holds CreateFilter b kss pending \<Longrightarrow> builder_holds CreateFilter (AddKey b key) kss (pending @ [key])"
  by (simp add: builder_holds_def AddKey_def)

lemma builder_holds_AddKeys: "builder_holds CreateFilter b kss pending \<Longrightarrow> builder_holds CreateFilter (foldl AddKey b keys) kss (pending @ keys)"
proof (induction keys arbitrary: b pending)
  case (Cons key keys)
  from Cons.IH [OF builder_holds_AddKey [OF Cons.prems]] show ?case by simp
qed simp

text \<open>Every key of the blocks so far is in its filter: generated, or pending.\<close>

definition filter_index :: "u64 \<Rightarrow> nat" where
  "filter_index block_offset = unat block_offset div 2 ^ kFilterBaseLg"

lemma filter_index_div: "unat (block_offset div kFilterBase) = filter_index block_offset"
  by (simp add: filter_index_def kFilterBase_def kFilterBaseLg_def unat_div push_bit_eq_mult)

definition covered :: "(u64 \<times> bytes list) list \<Rightarrow> bytes list list \<Rightarrow> bytes list \<Rightarrow> bool" where
  "covered blocks kss pending \<longleftrightarrow> (\<forall>(off, ks) \<in> set blocks. \<forall>k \<in> set ks.
     filter_index off < length kss \<and> k \<in> set (kss ! filter_index off) \<or> filter_index off = length kss \<and> k \<in> set pending)"

lemma covered_flush:
  assumes "covered blocks kss pending"
  shows "covered blocks (kss @ [pending] @ replicate n []) []"
  using assms by (fastforce simp: covered_def nth_append)

lemma covered_add:
  "covered blocks kss pending \<Longrightarrow> length kss = filter_index off \<Longrightarrow> covered (blocks @ [(off, ks)]) kss (pending @ ks)"
  by (fastforce simp: covered_def)

definition build_block :: "(bytes list \<Rightarrow> bytes \<Rightarrow> bytes) \<Rightarrow> FilterBlockBuilder \<Rightarrow> u64 \<times> bytes list \<Rightarrow> FilterBlockBuilder" where
  "build_block CreateFilter b blk = foldl AddKey (StartBlock CreateFilter b (fst blk)) (snd blk)"

definition build_ok :: "(bytes list \<Rightarrow> bytes \<Rightarrow> bytes) \<Rightarrow> (u64 \<times> bytes list) list \<Rightarrow> FilterBlockBuilder \<Rightarrow> bytes list list \<Rightarrow> bytes list \<Rightarrow> bool" where
  "build_ok CreateFilter blocks b kss pending \<longleftrightarrow> builder_holds CreateFilter b kss pending \<and> covered blocks kss pending \<and>
     concat kss @ pending = concat (map snd blocks) \<and> (blocks \<noteq> [] \<longrightarrow> length kss \<le> filter_index (fst (last blocks))) \<and> (blocks = [] \<longrightarrow> kss = [])"

context filter_policy
begin

lemma builder_holds_Generate:
  assumes "builder_holds CreateFilter b kss pending"
  shows "builder_holds CreateFilter (GenerateFilter CreateFilter b) (kss @ [pending]) []"
proof (cases "pending = []")
  case True
  with assms show ?thesis by (simp add: builder_holds_def GenerateFilter_def filters_of_def)
next
  case False
  have "map (\<lambda>i. take ((starts pending @ [length (concat pending)]) ! (i + 1) - (starts pending @ [length (concat pending)]) ! i)
      (drop ((starts pending @ [length (concat pending)]) ! i) (concat pending))) [0..<length pending] = pending"
    by (rule nth_equalityI) (use concat_piece [of _ pending "[]"] in \<open>auto simp: starts_nth\<close>)
  with assms False show ?thesis
    unfolding builder_holds_def GenerateFilter_def Let_def
    using CreateFilter_appends [of pending "concat (filters_of CreateFilter kss)"] by (simp add: filters_of_def)
qed

lemma builder_holds_StartBlock_while:
  assumes "builder_holds CreateFilter b kss pending" and "length kss \<le> fi"
  shows "builder_holds CreateFilter (StartBlock_while CreateFilter fi b)
      (if length kss < fi then kss @ [pending] @ replicate (fi - Suc (length kss)) [] else kss)
      (if length kss < fi then [] else pending)"
  using assms
proof (induction "fi - length kss" arbitrary: b kss pending)
  case 0
  then show ?case by (subst StartBlock_while.simps) (auto simp: builder_holds_def filters_of_def)
next
  case (Suc n)
  then have len: "length kss < fi" "length (fb_offsets b) = length kss" by (auto simp: builder_holds_def filters_of_def)
  have "builder_holds CreateFilter (StartBlock_while CreateFilter fi (GenerateFilter CreateFilter b))
      (if length (kss @ [pending]) < fi then (kss @ [pending]) @ [[]] @ replicate (fi - Suc (length (kss @ [pending]))) []
       else kss @ [pending]) []"
    using Suc(1) [OF _ builder_holds_Generate [OF Suc(3)]] Suc(2) len(1) by auto
  moreover have "(if length (kss @ [pending]) < fi then (kss @ [pending]) @ [[]] @ replicate (fi - Suc (length (kss @ [pending]))) []
       else kss @ [pending]) = kss @ [pending] @ replicate (fi - Suc (length kss)) []"
    using len(1) by (auto simp: replicate_Suc [symmetric] Suc_diff_Suc simp del: replicate_Suc)
  ultimately show ?case using len by (subst StartBlock_while.simps) simp
qed

lemma build_ok_block:
  assumes "build_ok CreateFilter blocks b kss pending" and "\<forall>blk \<in> set blocks. filter_index (fst blk) \<le> filter_index off"
  shows "\<exists>kss' pending'. build_ok CreateFilter (blocks @ [(off, ks)]) (build_block CreateFilter b (off, ks)) kss' pending' \<and> length kss' = filter_index off"
proof -
  have h: "builder_holds CreateFilter b kss pending" "covered blocks kss pending" "concat kss @ pending = concat (map snd blocks)"
    and le: "length kss \<le> filter_index off"
    using assms by (cases blocks rule: rev_cases; force simp: build_ok_def)+
  let ?kss = "if length kss < filter_index off then kss @ [pending] @ replicate (filter_index off - Suc (length kss)) [] else kss"
  let ?pending = "if length kss < filter_index off then [] else pending"
  have len: "length ?kss = filter_index off" using le by simp
  have "builder_holds CreateFilter (StartBlock CreateFilter b off) ?kss ?pending"
    unfolding StartBlock_def filter_index_div by (rule builder_holds_StartBlock_while [OF h(1) le])
  then have "builder_holds CreateFilter (build_block CreateFilter b (off, ks)) ?kss (?pending @ ks)"
    unfolding build_block_def fst_conv snd_conv by (rule builder_holds_AddKeys)
  moreover have "covered blocks ?kss ?pending" using h(2) covered_flush [OF h(2)] by simp
  then have "covered (blocks @ [(off, ks)]) ?kss (?pending @ ks)" using len by (rule covered_add)
  moreover have "concat ?kss @ ?pending @ ks = concat (map snd (blocks @ [(off, ks)]))" using h(3) by auto
  ultimately have "build_ok CreateFilter (blocks @ [(off, ks)]) (build_block CreateFilter b (off, ks)) ?kss (?pending @ ks)" using len by (auto simp: build_ok_def)
  with len show ?thesis by blast
qed

lemma build_ok_blocks:
  assumes "sorted (map (unat \<circ> fst) blocks)"
  shows "\<exists>kss pending. build_ok CreateFilter blocks (foldl (build_block CreateFilter) FilterBlockBuilder_new blocks) kss pending"
  using assms
proof (induction blocks rule: rev_induct)
  case Nil
  then show ?case by (auto simp: build_ok_def builder_holds_new covered_def)
next
  case (snoc blk blocks)
  obtain off ks where blk: "blk = (off, ks)" by (cases blk)
  from snoc obtain kss pending where "build_ok CreateFilter blocks (foldl (build_block CreateFilter) FilterBlockBuilder_new blocks) kss pending"
    by (auto simp: sorted_append)
  moreover have "\<forall>blk \<in> set blocks. filter_index (fst blk) \<le> filter_index off"
    using snoc.prems by (auto simp: sorted_append blk filter_index_def intro: div_le_mono)
  ultimately show ?case using build_ok_block [of blocks _ kss pending off ks] unfolding blk foldl_append foldl.simps by blast
qed

lemma Finish_contents:
  assumes "build_ok CreateFilter blocks b kss pending"
  obtains kss' where "covered blocks kss' []" and "concat kss' = concat (map snd blocks)"
    and "fb_result (FilterBlock_Finish CreateFilter b) = concat (filters_of CreateFilter kss') @
      concat (map (\<lambda>i. EncodeFixed32 (of_nat i)) (starts (filters_of CreateFilter kss') @ [length (concat (filters_of CreateFilter kss'))])) @ [11]"
proof -
  define b' where "b' = (if fb_start b \<noteq> [] then GenerateFilter CreateFilter b else b)"
  define kss' where "kss' = (if pending = [] then kss else kss @ [pending])"
  have h: "builder_holds CreateFilter b kss pending" "covered blocks kss pending" "concat kss @ pending = concat (map snd blocks)"
    using assms by (auto simp: build_ok_def)
  have "fb_start b \<noteq> [] \<longleftrightarrow> pending \<noteq> []" using h(1) by (auto simp: builder_holds_def starts_def)
  then have "builder_holds CreateFilter b' kss' []"
    using h(1) builder_holds_Generate [OF h(1)] by (auto simp: b'_def kss'_def)
  then have b': "fb_result b' = concat (filters_of CreateFilter kss')" "fb_offsets b' = map of_nat (starts (filters_of CreateFilter kss'))"
    by (simp_all add: builder_holds_def)
  have "fb_result (FilterBlock_Finish CreateFilter b) = foldl PutFixed32 (fb_result b') (fb_offsets b') @ EncodeFixed32 (of_nat (length (fb_result b'))) @ [11]"
    by (simp add: FilterBlock_Finish_def Let_def b'_def PutFixed32_def kFilterBaseLg_def)
  also have "foldl PutFixed32 (fb_result b') (fb_offsets b') = fb_result b' @ concat (map EncodeFixed32 (fb_offsets b'))"
    by (subst foldl_append_concat) (simp_all add: PutFixed32_def cong: map_cong)
  finally have res: "fb_result (FilterBlock_Finish CreateFilter b) = concat (filters_of CreateFilter kss') @
      concat (map (\<lambda>i. EncodeFixed32 (of_nat i)) (starts (filters_of CreateFilter kss') @ [length (concat (filters_of CreateFilter kss'))])) @ [11]"
    by (simp add: b' comp_def)
  have "covered blocks kss' []" using h(2) covered_flush [OF h(2), of 0] by (auto simp: kss'_def)
  then show ?thesis by (rule that [OF _ _ res]) (use h(3) in \<open>auto simp: kss'_def\<close>)
qed

end

section \<open>Reading it back\<close>

definition filter_block :: "bytes list \<Rightarrow> bytes" where
  "filter_block fs = concat fs @ concat (map (\<lambda>i. EncodeFixed32 (of_nat i)) (starts fs @ [length (concat fs)])) @ [11]"

lemma filter_block_reader:
  assumes "length (concat fs) < 2 ^ 32"
  shows "FilterBlockReader_new (filter_block fs) =
    \<lparr> fr_data = filter_block fs, fr_offset = length (concat fs), fr_num = length fs, fr_base_lg = 11 \<rparr>"
proof -
  let ?C = "filter_block fs"
  have len: "length ?C = length (concat fs) + 4 * length fs + 5" by (simp add: filter_block_def length_fixed32_array)
  have "last ?C = 11" "?C \<noteq> []" by (simp_all add: filter_block_def)
  then have last: "?C ! (length ?C - 1) = 11" by (simp add: last_conv_nth)
  have "?C = (concat fs @ concat (map (\<lambda>i. EncodeFixed32 (of_nat i)) (starts fs))) @ EncodeFixed32 (of_nat (length (concat fs))) @ [11]"
    by (simp add: filter_block_def)
  then have "drop (length ?C - 5) ?C = EncodeFixed32 (of_nat (length (concat fs))) @ [11]"
    using len by (simp only: drop_append_exact length_append length_fixed32_array length_starts)
  then have word: "unat (DecodeFixed32 (drop (length ?C - 5) ?C)) = length (concat fs)"
    using unat_of_nat_small [of "length (concat fs)", where 'a = 32] assms by simp
  have lg: "unat (scast (11 :: byte) :: u64) = 11" by simp
  show ?thesis unfolding FilterBlockReader_new_def Let_def last word lg using len by simp
qed

lemma filter_block_entry:
  assumes "length (concat fs) < 2 ^ 32" and "i \<le> length fs"
  shows "unat (DecodeFixed32 (drop (length (concat fs) + i * 4) (filter_block fs))) = length (concat (take i fs))"
proof -
  let ?xs = "starts fs @ [length (concat fs)]"
  have i: "i < length ?xs" using assms(2) by simp
  have "length (concat (take i fs)) \<le> length (concat fs)" by (metis append_take_drop_id concat_append le_add1 length_append)
  then have "length (concat (take i fs)) < 2 ^ 32" using assms(1) by simp
  moreover have "drop (length (concat fs) + i * 4) (filter_block fs) =
      EncodeFixed32 (of_nat (?xs ! i)) @ concat (map (\<lambda>i. EncodeFixed32 (of_nat i)) (drop (Suc i) ?xs)) @ [11]"
    using drop_fixed32_array [OF i, of of_nat] i
    by (simp add: filter_block_def length_fixed32_array mult.commute del: map_append concat_append)
  ultimately show ?thesis using starts_nth [OF assms(2)] unat_of_nat_small [of "length (concat (take i fs))", where 'a = 32] by simp
qed

lemma filter_block_KeyMayMatch:
  assumes "length (concat fs) < 2 ^ 32" and "filter_index off < length fs"
  shows "FilterBlock_KeyMayMatch KeyMayMatch (FilterBlockReader_new (filter_block fs)) off key = KeyMayMatch key (fs ! filter_index off)"
proof -
  let ?i = "filter_index off"
  have idx: "unat (drop_bit 11 off) = ?i" by (simp add: filter_index_def unat_drop_bit_div kFilterBaseLg_def)
  have e: "unat (DecodeFixed32 (drop (length (concat fs) + ?i * 4) (filter_block fs))) = length (concat (take ?i fs))"
    "unat (DecodeFixed32 (drop (length (concat fs) + ?i * 4 + 4) (filter_block fs))) = length (concat (take (Suc ?i) fs))"
    using filter_block_entry [OF assms(1), of ?i] filter_block_entry [OF assms(1), of "Suc ?i"] assms(2) by (simp_all add: ac_simps)
  have "length (concat (take (Suc ?i) fs)) \<le> length (concat fs)" by (metis append_take_drop_id concat_append le_add1 length_append)
  moreover have "length (concat (take ?i fs)) \<le> length (concat (take (Suc ?i) fs))" using assms(2) by (simp add: take_Suc_conv_app_nth)
  moreover have "take (length (concat (take (Suc ?i) fs)) - length (concat (take ?i fs))) (drop (length (concat (take ?i fs))) (filter_block fs)) = fs ! ?i"
    unfolding filter_block_def by (rule concat_piece [OF assms(2)])
  ultimately show ?thesis using assms(2) unfolding filter_block_reader [OF assms(1)] FilterBlock_KeyMayMatch_def Let_def
    by (simp add: idx e)
qed

definition build_filter_block :: "(bytes list \<Rightarrow> bytes \<Rightarrow> bytes) \<Rightarrow> (u64 \<times> bytes list) list \<Rightarrow> bytes" where
  "build_filter_block CreateFilter blocks =
     fb_result (FilterBlock_Finish CreateFilter (foldl (build_block CreateFilter) FilterBlockBuilder_new blocks))"

context filter_policy
begin

lemma filter_block_match:
  assumes "sorted (map (unat \<circ> fst) blocks)" and "length (build_filter_block CreateFilter blocks) < 2 ^ 32"
    and "\<And>ks. length ks \<le> length (concat (map snd blocks)) \<Longrightarrow> admissible ks"
    and "(off, ks) \<in> set blocks" and "k \<in> set ks"
  shows "FilterBlock_KeyMayMatch KeyMayMatch (FilterBlockReader_new (build_filter_block CreateFilter blocks)) off k"
proof -
  obtain kss0 pending where b: "build_ok CreateFilter blocks (foldl (build_block CreateFilter) FilterBlockBuilder_new blocks) kss0 pending"
    using build_ok_blocks [OF assms(1)] by blast
  obtain kss where kss: "covered blocks kss []" "concat kss = concat (map snd blocks)"
      "build_filter_block CreateFilter blocks = filter_block (filters_of CreateFilter kss)"
    by (rule Finish_contents [OF b, folded build_filter_block_def filter_block_def])
  let ?i = "filter_index off"
  have i: "?i < length kss" "k \<in> set (kss ! ?i)" using kss(1) assms(4,5) by (fastforce simp: covered_def)+
  have "length (kss ! ?i) \<le> length (concat kss)"
    unfolding length_concat using i(1) by (intro member_le_sum_list) simp_all
  then have "admissible (kss ! ?i)" unfolding kss(2) by (rule assms(3))
  then have "KeyMayMatch k (CreateFilter (kss ! ?i) [])" using i(2) by (rule KeyMayMatch_CreateFilter)
  moreover have "length (concat (filters_of CreateFilter kss)) < 2 ^ 32"
    using assms(2) unfolding kss(3) by (simp add: filter_block_def)
  ultimately show ?thesis
    using filter_block_KeyMayMatch [of "filters_of CreateFilter kss" off KeyMayMatch k] i
    unfolding kss(3) by (auto simp: filters_of_def)
qed

end

section \<open>Properties\<close>

text \<open>C31: a filter block built with the Bloom policy never hides a key: for any data blocks at increasing
  file offsets, blocks that share a 2 KiB range and ranges with no block included, looking up a key of
  a data block at that block's offset in the finished filter block says that it may match.\<close>

theorem filter_block_no_false_negatives:
  assumes "sorted (map (unat \<circ> fst) blocks)" and "length (build_filter_block (Bloom_CreateFilter bits_per_key) blocks) < 2 ^ 32"
    and "length (concat (map snd blocks)) < 2 ^ 31" and "bits_per_key < 2 ^ 31"
    and "(off, ks) \<in> set blocks" and "k \<in> set ks"
  shows "FilterBlock_KeyMayMatch Bloom_KeyMayMatch
    (FilterBlockReader_new (build_filter_block (Bloom_CreateFilter bits_per_key) blocks)) off k"
  by (rule bloom.filter_block_match [OF assms(1,2) _ assms(5,6)]) (use assms(3,4) in auto)

theorem filter_block_no_false_negatives_witness:
  "FilterBlock_KeyMayMatch Bloom_KeyMayMatch
    (FilterBlockReader_new (build_filter_block (Bloom_CreateFilter 10) [(0, [str ''a'', str ''b'']), (1000, [str ''c'']), (5000, [str ''d''])])) 1000 (str ''c'')"
proof -
  let ?blocks = "[(0, [str ''a'', str ''b'']), (1000, [str ''c'']), (5000, [str ''d''])] :: (u64 \<times> bytes list) list"
  have "length (build_filter_block (Bloom_CreateFilter 10) ?blocks) = 35" by code_simp
  then have len: "length (build_filter_block (Bloom_CreateFilter 10) ?blocks) < 2 ^ 32" by simp
  show ?thesis by (rule filter_block_no_false_negatives [OF _ len, where ks = "[str ''c'']"]) (simp_all add: str_def)
qed

end
