(* ===== verification/Table_Format.thy ===== *)
theory Table_Format
  imports Coding Crc32c Logging
begin

text \<open>
  The table file format, \<open>table/format.h\<close> and \<open>table/format.cc\<close>: block handles, the footer, and reading a
  block with its type and checksum. Snappy is a library the program only calls: the three functions
  of \<open>port/port_posix.h\<close> are a record of arguments.
\<close>

section \<open>Block handles\<close>

record BlockHandle =
  bh_offset :: u64
  bh_size :: u64

definition BlockHandle_new :: BlockHandle where
  "BlockHandle_new = \<lparr> bh_offset = NOT 0, bh_size = NOT 0 \<rparr>"

definition BlockHandle_kMaxEncodedLength :: nat where
  "BlockHandle_kMaxEncodedLength = 10 + 10"

definition BlockHandle_EncodeTo :: "BlockHandle \<Rightarrow> bytes \<Rightarrow> bytes" where
  "BlockHandle_EncodeTo h dst = PutVarint64 (PutVarint64 dst (bh_offset h)) (bh_size h)"

text \<open>The handle read into and the input are updated as far as decoding gets.\<close>

definition BlockHandle_DecodeFrom :: "BlockHandle \<Rightarrow> bytes \<Rightarrow> Status \<times> BlockHandle \<times> bytes" where
  "BlockHandle_DecodeFrom h input =
     (case GetVarint64 input of
        None \<Rightarrow> (Corruption (str ''bad block handle'') [], h, input)
      | Some (off, input) \<Rightarrow>
          (case GetVarint64 input of
             None \<Rightarrow> (Corruption (str ''bad block handle'') [], h\<lparr> bh_offset := off \<rparr>, input)
           | Some (sz, input) \<Rightarrow> (Status_OK, \<lparr> bh_offset = off, bh_size = sz \<rparr>, input)))"

section \<open>The footer\<close>

record Footer =
  metaindex_handle :: BlockHandle
  index_handle :: BlockHandle

definition Footer_kEncodedLength :: nat where
  "Footer_kEncodedLength = 2 * BlockHandle_kMaxEncodedLength + 8"

definition kTableMagicNumber :: u64 where
  "kTableMagicNumber = 0xdb4775248b80fb57"

definition Footer_EncodeTo :: "Footer \<Rightarrow> bytes \<Rightarrow> bytes" where
  "Footer_EncodeTo f dst =
     (let dst = BlockHandle_EncodeTo (metaindex_handle f) dst;
          dst = BlockHandle_EncodeTo (index_handle f) dst;
          n = 2 * BlockHandle_kMaxEncodedLength;
          dst = take n (dst @ replicate (n - length dst) 0);
          dst = PutFixed32 dst (ucast (kTableMagicNumber AND 0xffffffff))
      in PutFixed32 dst (ucast (drop_bit 32 kTableMagicNumber)))"

definition Footer_DecodeFrom :: "bytes \<Rightarrow> Status \<times> Footer \<times> bytes" where
  "Footer_DecodeFrom input =
     (let magic_ptr = drop (Footer_kEncodedLength - 8) input;
          magic_lo = DecodeFixed32 magic_ptr;
          magic_hi = DecodeFixed32 (drop 4 magic_ptr);
          magic = push_bit 32 (ucast magic_hi) OR ucast magic_lo :: u64;
          f = \<lparr> metaindex_handle = BlockHandle_new, index_handle = BlockHandle_new \<rparr>
      in if magic \<noteq> kTableMagicNumber then (Corruption (str ''not an sstable (bad magic number)'') [], f, input)
         else (let (result, h, rest) = BlockHandle_DecodeFrom (metaindex_handle f) input;
                   f = f\<lparr> metaindex_handle := h \<rparr>
               in if \<not> ok result then (result, f, rest)
                  else (let (result, h, rest) = BlockHandle_DecodeFrom (index_handle f) rest;
                            f = f\<lparr> index_handle := h \<rparr>
                        in if ok result then (result, f, drop 8 magic_ptr) else (result, f, rest))))"

section \<open>Reading a block\<close>

definition kBlockTrailerSize :: nat where
  "kBlockTrailerSize = 5"

datatype CompressionType = kNoCompression | kSnappyCompression

primrec compression_byte :: "CompressionType \<Rightarrow> byte" where
  "compression_byte kNoCompression = 0"
| "compression_byte kSnappyCompression = 1"

record Snappy =
  Snappy_Compress :: "bytes \<Rightarrow> bytes option"
  Snappy_GetUncompressedLength :: "bytes \<Rightarrow> nat option"
  Snappy_Uncompress :: "bytes \<Rightarrow> bytes option"

record BlockContents =
  bc_data :: bytes
  bc_cachable :: bool
  bc_heap_allocated :: bool

text \<open>
  \<open>Read off n\<close> is \<open>file->Read\<close>; \<open>own_memory\<close> says that the file hands out a pointer to memory of its own
  (\<open>data != buf\<close>) instead of filling the buffer. \<open>n + kBlockTrailerSize\<close> is computed in 64 bits.
\<close>

definition ReadBlock :: "(u64 \<Rightarrow> nat \<Rightarrow> Status \<times> bytes) \<Rightarrow> bool \<Rightarrow> Snappy \<Rightarrow> bool \<Rightarrow> BlockHandle \<Rightarrow> Status \<times> BlockContents" where
  "ReadBlock Read own_memory snappy verify_checksums handle =
     (let result = \<lparr> bc_data = [], bc_cachable = False, bc_heap_allocated = False \<rparr>;
          n = unat (bh_size handle);
          count = unat (bh_size handle + of_nat kBlockTrailerSize);
          (s, contents) = Read (bh_offset handle) count
      in if \<not> ok s then (s, result)
         else if length contents \<noteq> count then (Corruption (str ''truncated block read'') [], result)
         else if verify_checksums \<and> Value 0 (take (n + 1) contents) \<noteq> Unmask (DecodeFixed32 (drop (n + 1) contents))
              then (Corruption (str ''block checksum mismatch'') [], result)
         else if contents ! n = compression_byte kNoCompression
              then (Status_OK, \<lparr> bc_data = take n contents, bc_cachable = \<not> own_memory, bc_heap_allocated = \<not> own_memory \<rparr>)
         else if contents ! n = compression_byte kSnappyCompression
              then (case Snappy_GetUncompressedLength snappy (take n contents) of
                      None \<Rightarrow> (Corruption (str ''corrupted compressed block contents'') [], result)
                    | Some ulength \<Rightarrow>
                        (case Snappy_Uncompress snappy (take n contents) of
                           None \<Rightarrow> (Corruption (str ''corrupted compressed block contents'') [], result)
                         | Some ubuf \<Rightarrow>
                             (Status_OK, \<lparr> bc_data = take ulength ubuf, bc_cachable = True, bc_heap_allocated = True \<rparr>)))
         else (Corruption (str ''bad block type'') [], result))"

section \<open>Round trips\<close>

lemma BlockHandle_DecodeFrom_Encode [coding_simps]:
  "BlockHandle_DecodeFrom h0 (BlockHandle_EncodeTo h [] @ rest) = (Status_OK, h, rest)"
  by (simp add: BlockHandle_DecodeFrom_def BlockHandle_EncodeTo_def coding_simps)

lemma BlockHandle_EncodeTo_append: "BlockHandle_EncodeTo h dst = dst @ BlockHandle_EncodeTo h []"
  by (simp add: BlockHandle_EncodeTo_def coding_simps)

lemma length_varint64: "length (varint (unat (v :: u64))) \<le> 10"
  using length_varint_le [OF unat_u64_bound [of v]] by simp

lemma length_BlockHandle_EncodeTo: "length (BlockHandle_EncodeTo h []) \<le> 20"
  using length_varint64 [of "bh_offset h"] length_varint64 [of "bh_size h"] by (simp add: BlockHandle_EncodeTo_def coding_simps)

lemma Footer_EncodeTo_image:
  obtains pad where "Footer_EncodeTo f [] = BlockHandle_EncodeTo (metaindex_handle f) [] @ BlockHandle_EncodeTo (index_handle f) [] @
      pad @ EncodeFixed32 0x8b80fb57 @ EncodeFixed32 0xdb477524"
    and "length (BlockHandle_EncodeTo (metaindex_handle f) [] @ BlockHandle_EncodeTo (index_handle f) [] @ pad) = 40"
proof -
  let ?hs = "BlockHandle_EncodeTo (metaindex_handle f) [] @ BlockHandle_EncodeTo (index_handle f) []"
  let ?pad = "replicate (40 - length ?hs) (0 :: byte)"
  have len: "length ?hs \<le> 40"
    using length_BlockHandle_EncodeTo [of "metaindex_handle f"] length_BlockHandle_EncodeTo [of "index_handle f"] by simp
  have "Footer_EncodeTo f [] = take 40 (?hs @ replicate (40 - length ?hs) 0) @ EncodeFixed32 0x8b80fb57 @ EncodeFixed32 0xdb477524"
    unfolding Footer_EncodeTo_def Let_def
    by (subst (1 2) BlockHandle_EncodeTo_append [of "index_handle f"])
      (simp add: PutFixed32_def kTableMagicNumber_def BlockHandle_kMaxEncodedLength_def)
  also have "take 40 (?hs @ replicate (40 - length ?hs) 0) = ?hs @ ?pad" using len by simp
  finally show ?thesis using that [of ?pad] len by simp
qed

lemma length_Footer_EncodeTo: "length (Footer_EncodeTo f []) = 48"
  by (rule Footer_EncodeTo_image [of f]) simp

lemma Footer_DecodeFrom_Encode:
  "Footer_DecodeFrom (Footer_EncodeTo f [] @ rest) = (Status_OK, f, rest)"
proof -
  obtain pad where pad: "Footer_EncodeTo f [] = BlockHandle_EncodeTo (metaindex_handle f) [] @ BlockHandle_EncodeTo (index_handle f) [] @
      pad @ EncodeFixed32 0x8b80fb57 @ EncodeFixed32 0xdb477524"
    and len: "length (BlockHandle_EncodeTo (metaindex_handle f) [] @ BlockHandle_EncodeTo (index_handle f) [] @ pad) = 40"
    by (rule Footer_EncodeTo_image [of f])
  have "drop 40 (Footer_EncodeTo f [] @ rest) = EncodeFixed32 0x8b80fb57 @ EncodeFixed32 0xdb477524 @ rest"
    using drop_append_exact [OF len, of "EncodeFixed32 0x8b80fb57 @ EncodeFixed32 0xdb477524 @ rest"] by (simp add: pad)
  then have magic: "drop (Footer_kEncodedLength - 8) (Footer_EncodeTo f [] @ rest) = EncodeFixed32 0x8b80fb57 @ EncodeFixed32 0xdb477524 @ rest"
    by (simp add: Footer_kEncodedLength_def BlockHandle_kMaxEncodedLength_def)
  show ?thesis unfolding Footer_DecodeFrom_def Let_def magic
    by (simp add: pad BlockHandle_DecodeFrom_Encode kTableMagicNumber_def)
qed

text \<open>What a block with its trailer looks like in the file, and that reading it gives the block back.\<close>

definition block_image :: "bytes \<Rightarrow> CompressionType \<Rightarrow> bytes" where
  "block_image c t = c @ [compression_byte t] @ EncodeFixed32 (Mask (Value 0 (c @ [compression_byte t])))"

lemma length_block_image: "length (block_image c t) = length c + 5"
  by (simp add: block_image_def)

definition snappy_ok :: "Snappy \<Rightarrow> bool" where
  "snappy_ok snappy \<longleftrightarrow> (\<forall>raw c. Snappy_Compress snappy raw = Some c \<longrightarrow>
     Snappy_Uncompress snappy c = Some raw \<and> Snappy_GetUncompressedLength snappy c = Some (length raw))"

definition stored :: "Snappy \<Rightarrow> bytes \<Rightarrow> BlockHandle \<Rightarrow> bytes \<Rightarrow> bool" where
  "stored snappy bs h raw \<longleftrightarrow>
     (\<exists>pre c t post. bs = pre @ block_image c t @ post \<and> unat (bh_offset h) = length pre \<and> unat (bh_size h) = length c \<and>
        length c + 5 < 2 ^ 64 \<and>
        (t = kNoCompression \<and> c = raw \<or>
         t = kSnappyCompression \<and> Snappy_Uncompress snappy c = Some raw \<and> Snappy_GetUncompressedLength snappy c = Some (length raw)))"

lemma stored_append: "stored snappy bs h raw \<Longrightarrow> stored snappy (bs @ bs2) h raw"
  unfolding stored_def by (metis append_assoc)

lemma ReadBlock_stored:
  assumes "stored snappy bs h raw"
    and "\<And>off n. unat off \<le> length bs \<Longrightarrow> Read off n = (Status_OK, take n (drop (unat off) bs))"
  shows "\<exists>contents. ReadBlock Read own_memory snappy verify_checksums h = (Status_OK, contents) \<and> bc_data contents = raw"
proof -
  from assms(1) obtain pre c t post where bs: "bs = pre @ block_image c t @ post" "unat (bh_offset h) = length pre" "unat (bh_size h) = length c"
      "length c + 5 < 2 ^ 64"
    and t: "t = kNoCompression \<and> c = raw \<or>
      t = kSnappyCompression \<and> Snappy_Uncompress snappy c = Some raw \<and> Snappy_GetUncompressedLength snappy c = Some (length raw)"
    unfolding stored_def by blast
  have size: "bh_size h = of_nat (length c)" using bs(3) by (metis of_nat_unat_ucast ucast_id)
  have count: "unat (bh_size h + of_nat kBlockTrailerSize) = length c + 5"
    unfolding size kBlockTrailerSize_def of_nat_add [symmetric] by (rule unat_of_nat_small) (use bs(4) in simp)
  have read: "Read (bh_offset h) (length c + 5) = (Status_OK, block_image c t)"
    using assms(2) [of "bh_offset h" "length c + 5"] bs(1,2) by (simp add: length_block_image)
  have image: "length (block_image c t) = length c + 5" "take (length c + 1) (block_image c t) = c @ [compression_byte t]"
    "Unmask (DecodeFixed32 (drop (length c + 1) (block_image c t))) = Value 0 (c @ [compression_byte t])"
    "block_image c t ! length c = compression_byte t" "take (length c) (block_image c t) = c"
    by (simp_all add: block_image_def nth_append)
  show ?thesis using t unfolding ReadBlock_def Let_def bs(3) count read split_conv image by auto
qed

end
