(* ===== verification/Table_Builder.thy ===== *)
theory Table_Builder
  imports Table_Format Block Filter_Block Memenv
begin

text \<open>
  Writing a table, \<open>table/table_builder.cc\<close>: data blocks with an index entry each, the filter block, the
  metaindex block, the index block and the footer. The options a table reads are a record; the file is
  the two functions \<open>Append\<close> and \<open>Flush\<close> it calls.
\<close>

section \<open>Options\<close>

record Comparator_object =
  cmp_Compare :: "bytes \<Rightarrow> bytes \<Rightarrow> int"
  cmp_FindShortestSeparator :: "bytes \<Rightarrow> bytes \<Rightarrow> bytes"
  cmp_FindShortSuccessor :: "bytes \<Rightarrow> bytes"

record FilterPolicy =
  fp_Name :: bytes
  fp_CreateFilter :: "bytes list \<Rightarrow> bytes \<Rightarrow> bytes"
  fp_KeyMayMatch :: "bytes \<Rightarrow> bytes \<Rightarrow> bool"

record Options =
  opt_comparator :: Comparator_object
  opt_paranoid_checks :: bool
  opt_block_size :: nat
  opt_block_restart_interval :: nat
  opt_compression :: CompressionType
  opt_filter_policy :: "FilterPolicy option"

section \<open>TableBuilder\<close>

text \<open>\<open>filter_block\<close> keeps the policy it was made with, beside what it has built; \<open>options\<close> may change.\<close>

record 'f TableBuilder =
  tb_options :: Options
  tb_index_block_options :: Options
  tb_file :: 'f
  tb_offset :: u64
  tb_status :: Status
  tb_data_block :: BlockBuilder
  tb_index_block :: BlockBuilder
  tb_last_key :: bytes
  tb_num_entries :: nat
  tb_closed :: bool
  tb_filter_block :: "(FilterPolicy \<times> FilterBlockBuilder) option"
  tb_pending_index_entry :: bool
  tb_pending_handle :: BlockHandle
  tb_compressed_output :: bytes

definition TableBuilder_Rep :: "Options \<Rightarrow> 'f \<Rightarrow> 'f TableBuilder" where
  "TableBuilder_Rep opt f =
     \<lparr> tb_options = opt, tb_index_block_options = opt\<lparr> opt_block_restart_interval := 1 \<rparr>, tb_file = f, tb_offset = 0,
       tb_status = Status_OK, tb_data_block = BlockBuilder_new, tb_index_block = BlockBuilder_new, tb_last_key = [],
       tb_num_entries = 0, tb_closed = False,
       tb_filter_block = map_option (\<lambda>p. (p, FilterBlockBuilder_new)) (opt_filter_policy opt),
       tb_pending_index_entry = False, tb_pending_handle = BlockHandle_new, tb_compressed_output = [] \<rparr>"

text \<open>The calls on \<open>filter_block\<close>, which may be null.\<close>

definition tb_StartBlock :: "'f TableBuilder \<Rightarrow> u64 \<Rightarrow> 'f TableBuilder" where
  "tb_StartBlock r off = r\<lparr> tb_filter_block := map_option (\<lambda>(p, fb). (p, StartBlock (fp_CreateFilter p) fb off)) (tb_filter_block r) \<rparr>"

definition TableBuilder_new :: "Options \<Rightarrow> 'f \<Rightarrow> 'f TableBuilder" where
  "TableBuilder_new options f = tb_StartBlock (TableBuilder_Rep options f) 0"

definition ChangeOptions :: "'f TableBuilder \<Rightarrow> Options \<Rightarrow> Status \<times> 'f TableBuilder" where
  "ChangeOptions r options =
     (if opt_comparator options \<noteq> opt_comparator (tb_options r)
      then (InvalidArgument (str ''changing comparator while building table'') [], r)
      else (Status_OK, r\<lparr> tb_options := options, tb_index_block_options := options\<lparr> opt_block_restart_interval := 1 \<rparr> \<rparr>))"

definition WriteRawBlock ::
    "('f \<Rightarrow> bytes \<Rightarrow> Status \<times> 'f) \<Rightarrow> 'f TableBuilder \<Rightarrow> bytes \<Rightarrow> CompressionType \<Rightarrow> BlockHandle \<times> 'f TableBuilder" where
  "WriteRawBlock Append r block_contents t =
     (let handle = \<lparr> bh_offset = tb_offset r, bh_size = of_nat (length block_contents) \<rparr>;
          (s, f) = Append (tb_file r) block_contents;
          r = r\<lparr> tb_status := s, tb_file := f \<rparr>
      in if ok (tb_status r)
         then (let crc = Value 0 block_contents;
                   crc = Extend 0 crc [compression_byte t];
                   trailer = compression_byte t # EncodeFixed32 (Mask crc);
                   (s, f) = Append (tb_file r) trailer;
                   r = r\<lparr> tb_status := s, tb_file := f \<rparr>
               in (handle, if ok (tb_status r)
                           then r\<lparr> tb_offset := tb_offset r + of_nat (length block_contents) + of_nat kBlockTrailerSize \<rparr> else r))
         else (handle, r))"

definition choose_contents :: "Snappy \<Rightarrow> CompressionType \<Rightarrow> bytes \<Rightarrow> bytes \<times> CompressionType" where
  "choose_contents snappy t raw =
     (case t of
        kNoCompression \<Rightarrow> (raw, kNoCompression)
      | kSnappyCompression \<Rightarrow>
          (case Snappy_Compress snappy raw of
             Some compressed \<Rightarrow>
               if length compressed < length raw - length raw div 8 then (compressed, kSnappyCompression) else (raw, kNoCompression)
           | None \<Rightarrow> (raw, kNoCompression)))"

text \<open>\<open>WriteBlock\<close> takes the block builder and returns it reset.\<close>

definition WriteBlock ::
    "('f \<Rightarrow> bytes \<Rightarrow> Status \<times> 'f) \<Rightarrow> Snappy \<Rightarrow> 'f TableBuilder \<Rightarrow> BlockBuilder \<Rightarrow> BlockHandle \<times> BlockBuilder \<times> 'f TableBuilder" where
  "WriteBlock Append snappy r block =
     (let (raw, block) = BlockBuilder_Finish block;
          (block_contents, t) = choose_contents snappy (opt_compression (tb_options r)) raw;
          (handle, r) = WriteRawBlock Append r block_contents t
      in (handle, BlockBuilder_Reset block, r\<lparr> tb_compressed_output := [] \<rparr>))"

definition TableBuilder_Flush ::
    "('f \<Rightarrow> bytes \<Rightarrow> Status \<times> 'f) \<Rightarrow> ('f \<Rightarrow> Status \<times> 'f) \<Rightarrow> Snappy \<Rightarrow> 'f TableBuilder \<Rightarrow> 'f TableBuilder" where
  "TableBuilder_Flush Append Flush snappy r =
     (if \<not> ok (tb_status r) then r
      else if BlockBuilder_empty (tb_data_block r) then r
      else (let (handle, block, r) = WriteBlock Append snappy r (tb_data_block r);
                r = r\<lparr> tb_pending_handle := handle, tb_data_block := block \<rparr>;
                r = (if ok (tb_status r)
                     then (let r = r\<lparr> tb_pending_index_entry := True \<rparr>; (s, f) = Flush (tb_file r)
                           in r\<lparr> tb_status := s, tb_file := f \<rparr>)
                     else r)
            in tb_StartBlock r (tb_offset r)))"

definition emit_index_entry :: "'f TableBuilder \<Rightarrow> bytes \<Rightarrow> 'f TableBuilder" where
  "emit_index_entry r index_key =
     (let handle_encoding = BlockHandle_EncodeTo (tb_pending_handle r) []
      in r\<lparr> tb_last_key := index_key,
            tb_index_block := BlockBuilder_Add (opt_block_restart_interval (tb_index_block_options r)) (tb_index_block r) index_key handle_encoding,
            tb_pending_index_entry := False \<rparr>)"

definition TableBuilder_Add ::
    "('f \<Rightarrow> bytes \<Rightarrow> Status \<times> 'f) \<Rightarrow> ('f \<Rightarrow> Status \<times> 'f) \<Rightarrow> Snappy \<Rightarrow> 'f TableBuilder \<Rightarrow> bytes \<Rightarrow> bytes \<Rightarrow> 'f TableBuilder" where
  "TableBuilder_Add Append Flush snappy r key v =
     (if \<not> ok (tb_status r) then r
      else (let r = (if tb_pending_index_entry r
                     then emit_index_entry r (cmp_FindShortestSeparator (opt_comparator (tb_options r)) (tb_last_key r) key) else r);
                r = r\<lparr> tb_filter_block := map_option (\<lambda>(p, fb). (p, AddKey fb key)) (tb_filter_block r),
                       tb_last_key := key, tb_num_entries := tb_num_entries r + 1,
                       tb_data_block := BlockBuilder_Add (opt_block_restart_interval (tb_options r)) (tb_data_block r) key v \<rparr>
            in if BlockBuilder_CurrentSizeEstimate (tb_data_block r) \<ge> opt_block_size (tb_options r)
               then TableBuilder_Flush Append Flush snappy r else r))"

text \<open>The steps of \<open>Finish\<close>, each skipped after an error.\<close>

definition Finish_filter :: "('f \<Rightarrow> bytes \<Rightarrow> Status \<times> 'f) \<Rightarrow> 'f TableBuilder \<Rightarrow> BlockHandle \<times> 'f TableBuilder" where
  "Finish_filter Append r =
     (case tb_filter_block r of
        Some (p, fb) \<Rightarrow>
          if ok (tb_status r)
          then (let fb = FilterBlock_Finish (fp_CreateFilter p) fb
                in WriteRawBlock Append (r\<lparr> tb_filter_block := Some (p, fb) \<rparr>) (fb_result fb) kNoCompression)
          else (BlockHandle_new, r)
      | None \<Rightarrow> (BlockHandle_new, r))"

definition filter_key :: "FilterPolicy \<Rightarrow> bytes" where
  "filter_key p = str ''filter.'' @ fp_Name p"

text \<open>The filter policy of the options names the block; changing the options to a null policy while a filter
  block is being built, which the code would dereference, is not modelled.\<close>

definition Finish_metaindex ::
    "('f \<Rightarrow> bytes \<Rightarrow> Status \<times> 'f) \<Rightarrow> Snappy \<Rightarrow> 'f TableBuilder \<Rightarrow> BlockHandle \<Rightarrow> BlockHandle \<times> 'f TableBuilder" where
  "Finish_metaindex Append snappy r filter_block_handle =
     (if ok (tb_status r)
      then (let meta_index_block =
                  (case (tb_filter_block r, opt_filter_policy (tb_options r)) of
                     (Some _, Some p) \<Rightarrow> BlockBuilder_Add (opt_block_restart_interval (tb_options r)) BlockBuilder_new
                                          (filter_key p) (BlockHandle_EncodeTo filter_block_handle [])
                   | _ \<Rightarrow> BlockBuilder_new);
                (handle, _, r) = WriteBlock Append snappy r meta_index_block
            in (handle, r))
      else (BlockHandle_new, r))"

definition Finish_index :: "('f \<Rightarrow> bytes \<Rightarrow> Status \<times> 'f) \<Rightarrow> Snappy \<Rightarrow> 'f TableBuilder \<Rightarrow> BlockHandle \<times> 'f TableBuilder" where
  "Finish_index Append snappy r =
     (if ok (tb_status r)
      then (let r = (if tb_pending_index_entry r
                     then emit_index_entry r (cmp_FindShortSuccessor (opt_comparator (tb_options r)) (tb_last_key r)) else r);
                (handle, block, r) = WriteBlock Append snappy r (tb_index_block r)
            in (handle, r\<lparr> tb_index_block := block \<rparr>))
      else (BlockHandle_new, r))"

definition Finish_footer :: "('f \<Rightarrow> bytes \<Rightarrow> Status \<times> 'f) \<Rightarrow> 'f TableBuilder \<Rightarrow> BlockHandle \<Rightarrow> BlockHandle \<Rightarrow> 'f TableBuilder" where
  "Finish_footer Append r metaindex_block_handle index_block_handle =
     (if ok (tb_status r)
      then (let footer_encoding = Footer_EncodeTo \<lparr> metaindex_handle = metaindex_block_handle, index_handle = index_block_handle \<rparr> [];
                (s, f) = Append (tb_file r) footer_encoding;
                r = r\<lparr> tb_status := s, tb_file := f \<rparr>
            in if ok (tb_status r) then r\<lparr> tb_offset := tb_offset r + of_nat (length footer_encoding) \<rparr> else r)
      else r)"

definition TableBuilder_Finish ::
    "('f \<Rightarrow> bytes \<Rightarrow> Status \<times> 'f) \<Rightarrow> ('f \<Rightarrow> Status \<times> 'f) \<Rightarrow> Snappy \<Rightarrow> 'f TableBuilder \<Rightarrow> Status \<times> 'f TableBuilder" where
  "TableBuilder_Finish Append Flush snappy r =
     (let r = TableBuilder_Flush Append Flush snappy r;
          r = r\<lparr> tb_closed := True \<rparr>;
          (filter_block_handle, r) = Finish_filter Append r;
          (metaindex_block_handle, r) = Finish_metaindex Append snappy r filter_block_handle;
          (index_block_handle, r) = Finish_index Append snappy r;
          r = Finish_footer Append r metaindex_block_handle index_block_handle
      in (tb_status r, r))"

definition Abandon :: "'f TableBuilder \<Rightarrow> 'f TableBuilder" where
  "Abandon r = r\<lparr> tb_closed := True \<rparr>"

definition NumEntries :: "'f TableBuilder \<Rightarrow> nat" where
  "NumEntries r = tb_num_entries r"

definition FileSize :: "'f TableBuilder \<Rightarrow> u64" where
  "FileSize r = tb_offset r"

definition TableBuilder_Adds ::
    "('f \<Rightarrow> bytes \<Rightarrow> Status \<times> 'f) \<Rightarrow> ('f \<Rightarrow> Status \<times> 'f) \<Rightarrow> Snappy \<Rightarrow> 'f TableBuilder \<Rightarrow> (bytes \<times> bytes) list \<Rightarrow> 'f TableBuilder" where
  "TableBuilder_Adds Append Flush snappy r es = foldl (\<lambda>r (k, v). TableBuilder_Add Append Flush snappy r k v) r es"

section \<open>Blocks in the file\<close>

type_synonym entries = "(bytes \<times> bytes) list"

definition handle_at :: "nat \<times> nat \<Rightarrow> BlockHandle" where
  "handle_at e = \<lparr> bh_offset = of_nat (fst e), bh_size = of_nat (snd e) \<rparr>"

text \<open>The extent \<open>e\<close> of the file \<open>bs\<close> holds the block \<open>raw\<close>, maybe compressed.\<close>

definition placed :: "Snappy \<Rightarrow> bytes \<Rightarrow> bytes \<Rightarrow> nat \<times> nat \<Rightarrow> bool" where
  "placed snappy bs raw e \<longleftrightarrow>
     (\<exists>pre c t post. bs = pre @ block_image c t @ post \<and> e = (length pre, length c) \<and>
        (t = kNoCompression \<and> c = raw \<or>
         t = kSnappyCompression \<and> Snappy_Uncompress snappy c = Some raw \<and> Snappy_GetUncompressedLength snappy c = Some (length raw)))"

lemma placed_append: "placed snappy bs raw e \<Longrightarrow> placed snappy (bs @ bs2) raw e"
  unfolding placed_def by (metis append_assoc)

lemma placed_bound: "placed snappy bs raw e \<Longrightarrow> fst e + snd e + 5 \<le> length bs"
  by (auto simp: placed_def length_block_image)

lemma placed_stored:
  assumes "placed snappy bs raw e" and "length bs < 2 ^ 64"
  shows "stored snappy bs (handle_at e) raw"
proof -
  have "fst e + snd e + 5 < 2 ^ 64" using placed_bound [OF assms(1)] assms(2) by simp
  then have "unat (bh_offset (handle_at e)) = fst e" "unat (bh_size (handle_at e)) = snd e"
    unfolding handle_at_def by (simp_all add: unat_of_nat_small [where 'a = 64] del: power_Suc)
  then show ?thesis using assms(1) placed_bound [OF assms(1)] assms(2) unfolding placed_def stored_def by force
qed

lemma choose_contents_placed:
  assumes "snappy_ok snappy" and "choose_contents snappy t0 raw = (c, t)"
  shows "placed snappy (bs @ block_image c t) raw (length bs, length c)"
proof -
  have "t = kNoCompression \<and> c = raw \<or>
      t = kSnappyCompression \<and> Snappy_Uncompress snappy c = Some raw \<and> Snappy_GetUncompressedLength snappy c = Some (length raw)"
    using assms by (auto simp: choose_contents_def snappy_ok_def split: CompressionType.splits option.splits if_splits)
  then show ?thesis unfolding placed_def by (metis append_Nil2)
qed

lemma choose_contents_length: "choose_contents snappy t0 raw = (c, t) \<Longrightarrow> length c \<le> length raw"
  by (auto simp: choose_contents_def split: CompressionType.splits option.splits if_splits)

lemma BlockBuilder_Adds_snoc: "BlockBuilder_Adds n b (es @ [(k, v)]) = BlockBuilder_Add n (BlockBuilder_Adds n b es) k v"
  by (simp add: BlockBuilder_Adds_def)

lemma BlockBuilder_Adds_Nil [simp]: "BlockBuilder_Adds n b [] = b"
  by (simp add: BlockBuilder_Adds_def)

lemma BlockBuilder_Add_not_empty: "bb_buffer (BlockBuilder_Add n b k v) \<noteq> []"
  by (auto simp: BlockBuilder_Add_def Let_def coding_simps split: prod.splits)

lemma BlockBuilder_empty_Adds: "BlockBuilder_empty (BlockBuilder_Adds n BlockBuilder_new es) \<longleftrightarrow> es = []"
proof (cases es rule: rev_cases)
  case (snoc es' e)
  then show ?thesis by (cases e) (simp add: BlockBuilder_Adds_snoc BlockBuilder_empty_def BlockBuilder_Add_not_empty)
qed (simp add: BlockBuilder_empty_def BlockBuilder_new_def)

lemma BlockBuilder_empty_new [simp]: "BlockBuilder_empty BlockBuilder_new"
  by (simp add: BlockBuilder_empty_def BlockBuilder_new_def)

lemma BlockBuilder_Reset_Finish: "BlockBuilder_Reset (snd (BlockBuilder_Finish b)) = BlockBuilder_new"
  by (simp add: BlockBuilder_Reset_def BlockBuilder_Finish_def Let_def BlockBuilder_new_def)

context reliable_file
begin

lemma WriteRawBlock_next:
  assumes "writable (tb_file r)" and "tb_offset r = of_nat (length (contents (tb_file r)))"
  obtains f where "WriteRawBlock Append r c t = (handle_at (length (contents (tb_file r)), length c),
      r\<lparr> tb_status := Status_OK, tb_file := f, tb_offset := of_nat (length (contents f)) \<rparr>)"
    and "writable f" and "contents f = contents (tb_file r) @ block_image c t"
proof -
  let ?trailer = "compression_byte t # EncodeFixed32 (Mask (Extend 0 (Value 0 c) [compression_byte t]))"
  obtain s1 f1 where 1: "Append (tb_file r) c = (s1, f1)" "ok s1" "writable f1" "contents f1 = contents (tb_file r) @ c"
    by (rule Append_next [OF assms(1)])
  obtain s2 f2 where 2: "Append f1 ?trailer = (s2, f2)" "ok s2" "writable f2" "contents f2 = contents f1 @ ?trailer"
    by (rule Append_next [OF 1(3)])
  have img: "contents f2 = contents (tb_file r) @ block_image c t"
    using 1(4) 2(4) Extend_append [of 0 0 0 c "[compression_byte t]" 0] by (simp add: block_image_def Value_def)
  have off: "tb_offset r + of_nat (length c) + of_nat kBlockTrailerSize = of_nat (length (contents f2))"
    unfolding assms(2) img by (simp add: length_block_image kBlockTrailerSize_def)
  show ?thesis
    by (rule that [of f2]) (use 1 2 img off assms(2) in \<open>simp_all add: WriteRawBlock_def Let_def handle_at_def ok_def Status_OK_def\<close>)
qed

lemma WriteBlock_next:
  assumes "writable (tb_file r)" and "tb_offset r = of_nat (length (contents (tb_file r)))" and "snappy_ok snappy"
    and "raw = fst (BlockBuilder_Finish block)"
  obtains f len where "WriteBlock Append snappy r block = (handle_at (length (contents (tb_file r)), len), BlockBuilder_new,
      r\<lparr> tb_status := Status_OK, tb_file := f, tb_offset := of_nat (length (contents f)), tb_compressed_output := [] \<rparr>)"
    and "writable f" and "\<exists>more. length more \<le> length raw + 5 \<and> contents f = contents (tb_file r) @ more"
    and "placed snappy (contents f) raw (length (contents (tb_file r)), len)"
proof -
  obtain c t where ct: "choose_contents snappy (opt_compression (tb_options r)) raw = (c, t)" by fastforce
  obtain f where f: "WriteRawBlock Append r c t = (handle_at (length (contents (tb_file r)), length c),
      r\<lparr> tb_status := Status_OK, tb_file := f, tb_offset := of_nat (length (contents f)) \<rparr>)"
    "writable f" "contents f = contents (tb_file r) @ block_image c t"
    by (rule WriteRawBlock_next [OF assms(1,2)])
  have "WriteBlock Append snappy r block = (handle_at (length (contents (tb_file r)), length c), BlockBuilder_new,
      r\<lparr> tb_status := Status_OK, tb_file := f, tb_offset := of_nat (length (contents f)), tb_compressed_output := [] \<rparr>)"
    unfolding WriteBlock_def Let_def split_beta using ct f(1) assms(4) BlockBuilder_Reset_Finish by simp
  then show ?thesis by (rule that [OF _ f(2)]) (use f(3) choose_contents_placed [OF assms(3) ct, of "contents (tb_file r)"] choose_contents_length [OF ct] in \<open>auto simp: length_block_image\<close>)
qed

end

section \<open>The state of a table under construction\<close>

type_synonym segment = "(nat \<times> nat) \<times> entries"

text \<open>Index keys separate the data blocks, none is longer than the last key of its block, and \<open>apart\<close> holds of the
  last key of a block, its index key and every later key.\<close>

definition separated :: "(bytes \<Rightarrow> bytes \<Rightarrow> int) \<Rightarrow> (bytes \<Rightarrow> bool) \<Rightarrow> (bytes \<Rightarrow> bytes \<Rightarrow> bytes \<Rightarrow> bool) \<Rightarrow> bytes list \<Rightarrow> entries list \<Rightarrow> entries \<Rightarrow> bool" where
  "separated Compare valid apart ks dss cur \<longleftrightarrow> length ks \<le> length dss \<and> (\<forall>i < length ks. valid (ks ! i) \<and>
     length (ks ! i) \<le> length (fst (last (dss ! i))) \<and> (\<forall>e \<in> set (dss ! i). Compare (fst e) (ks ! i) \<le> 0) \<and>
     (\<forall>e \<in> set (concat (drop (Suc i) dss) @ cur). Compare (ks ! i) (fst e) < 0 \<and> apart (fst (last (dss ! i))) (ks ! i) (fst e)))"

definition filter_blocks :: "segment list \<Rightarrow> nat \<Rightarrow> entries \<Rightarrow> (u64 \<times> bytes list) list" where
  "filter_blocks segs n cur = map (\<lambda>s. (of_nat (fst (fst s)), map fst (snd s))) segs @ [(of_nat n, map fst cur)]"

definition blocks_size :: "Options \<Rightarrow> segment list \<Rightarrow> nat" where
  "blocks_size opt segs = (\<Sum>s \<leftarrow> segs. length (BlockBuilder_build (opt_block_restart_interval opt) (snd s)) + 5)"

definition index_entries :: "bytes list \<Rightarrow> segment list \<Rightarrow> entries" where
  "index_entries ks segs = zip ks (map (\<lambda>s. BlockHandle_EncodeTo (handle_at (fst s)) []) segs)"

text \<open>The blocks are in the file one after the other.\<close>

definition segments_ok :: "Snappy \<Rightarrow> nat \<Rightarrow> bytes \<Rightarrow> segment list \<Rightarrow> bool" where
  "segments_ok snappy n bs segs \<longleftrightarrow>
     sorted_wrt (\<lambda>a b. fst (fst a) < fst (fst b)) segs \<and>
     (\<forall>s \<in> set segs. snd s \<noteq> [] \<and> placed snappy bs (BlockBuilder_build n (snd s)) (fst s))"

lemma segments_ok_append: "segments_ok snappy n bs segs \<Longrightarrow> segments_ok snappy n (bs @ bs2) segs"
  by (auto simp: segments_ok_def placed_append)

lemma segments_ok_snoc:
  assumes "segments_ok snappy n bs segs" and "placed snappy (bs @ bs2) (BlockBuilder_build n cur) (length bs, len)" and "cur \<noteq> []"
  shows "segments_ok snappy n (bs @ bs2) (segs @ [((length bs, len), cur)])"
proof -
  have "fst (fst s) < length bs" if "s \<in> set segs" for s
    using assms(1) that placed_bound [of snappy bs "BlockBuilder_build n (snd s)" "fst s"] by (auto simp: segments_ok_def)
  then show ?thesis using assms by (auto simp: segments_ok_def sorted_wrt_append placed_append)
qed

definition tb_data :: "Options \<Rightarrow> 'f TableBuilder \<Rightarrow> bytes \<Rightarrow> segment list \<Rightarrow> bytes list \<Rightarrow> entries \<Rightarrow> bool" where
  "tb_data opt r bs segs ks cur \<longleftrightarrow>
     tb_options r = opt \<and> tb_index_block_options r = opt\<lparr> opt_block_restart_interval := 1 \<rparr> \<and> tb_status r = Status_OK \<and>
     tb_offset r = of_nat (length bs) \<and>
     tb_data_block r = BlockBuilder_Adds (opt_block_restart_interval opt) BlockBuilder_new cur \<and>
     tb_index_block r = BlockBuilder_Adds 1 BlockBuilder_new (index_entries ks segs) \<and>
     (concat (map snd segs) @ cur \<noteq> [] \<longrightarrow> tb_last_key r = fst (last (concat (map snd segs) @ cur))) \<and>
     tb_filter_block r = map_option (\<lambda>p. (p, foldl (build_block (fp_CreateFilter p)) FilterBlockBuilder_new
       (filter_blocks segs (length bs) cur))) (opt_filter_policy opt)"

definition tb_pending :: "'f TableBuilder \<Rightarrow> segment list \<Rightarrow> bytes list \<Rightarrow> entries \<Rightarrow> bool" where
  "tb_pending r segs ks cur \<longleftrightarrow>
     (if tb_pending_index_entry r
      then segs \<noteq> [] \<and> cur = [] \<and> length segs = Suc (length ks) \<and> tb_pending_handle r = handle_at (fst (last segs))
      else length segs = length ks \<and> (segs = [] \<or> cur \<noteq> []))"

text \<open>A finished table: data blocks \<open>dss\<close>, the filter, metaindex and index blocks, the footer.\<close>

definition meta_entries :: "Options \<Rightarrow> nat \<times> nat \<Rightarrow> entries" where
  "meta_entries opt fe = (case opt_filter_policy opt of None \<Rightarrow> [] | Some p \<Rightarrow> [(filter_key p, BlockHandle_EncodeTo (handle_at fe) [])])"

text \<open>How long the file of a table without a filter is at most.\<close>

definition table_size :: "Options \<Rightarrow> segment list \<Rightarrow> bytes list \<Rightarrow> nat \<times> nat \<Rightarrow> nat" where
  "table_size opt segs ks fe =
     blocks_size opt segs + length (BlockBuilder_build (opt_block_restart_interval opt) (meta_entries opt fe)) +
     length (BlockBuilder_build 1 (index_entries ks segs)) + 58"

definition table_layout ::
    "(bytes \<Rightarrow> bytes \<Rightarrow> int) \<Rightarrow> (bytes \<Rightarrow> bool) \<Rightarrow> (bytes \<Rightarrow> bytes \<Rightarrow> bytes \<Rightarrow> bool) \<Rightarrow> Options \<Rightarrow> Snappy \<Rightarrow> bytes \<Rightarrow> segment list \<Rightarrow> bytes list \<Rightarrow> nat \<times> nat \<Rightarrow> nat \<times> nat \<Rightarrow> nat \<times> nat \<Rightarrow> bool" where
  "table_layout Compare valid apart opt snappy bs segs ks fe me ie \<longleftrightarrow>
     length ks = length segs \<and> segments_ok snappy (opt_block_restart_interval opt) bs segs \<and> separated Compare valid apart ks (map snd segs) [] \<and>
     sorted_wrt (\<lambda>a b. Compare a b < 0) (map fst (concat (map snd segs))) \<and> (\<forall>e \<in> set (concat (map snd segs)). valid (fst e)) \<and>
     placed snappy bs (BlockBuilder_build 1 (index_entries ks segs)) ie \<and>
     placed snappy bs (BlockBuilder_build (opt_block_restart_interval opt) (meta_entries opt fe)) me \<and>
     (\<forall>p. opt_filter_policy opt = Some p \<longrightarrow>
        (\<exists>m \<le> length bs. let fb = build_filter_block (fp_CreateFilter p) (filter_blocks segs m [])
         in placed snappy bs fb fe \<and> length fb \<le> length bs \<and> (\<forall>s \<in> set segs. fst (fst s) \<le> m))) \<and>
     (\<exists>pre. bs = pre @ Footer_EncodeTo \<lparr> metaindex_handle = handle_at me, index_handle = handle_at ie \<rparr> [])"

lemma filter_blocks_AddKey:
  "foldl (build_block cf) fb (filter_blocks segs n (cur @ [(k, v)])) = AddKey (foldl (build_block cf) fb (filter_blocks segs n cur)) k"
  by (simp add: filter_blocks_def build_block_def)

lemma filter_blocks_StartBlock:
  "foldl (build_block cf) fb (filter_blocks (segs @ [((m, len), cur)]) n []) =
    StartBlock cf (foldl (build_block cf) fb (filter_blocks segs m cur)) (of_nat n)"
  by (simp add: filter_blocks_def build_block_def)

lemma TableBuilder_new_data: "tb_data opt (TableBuilder_new opt f) [] [] [] [] \<and> tb_pending (TableBuilder_new opt f) [] [] []"
  by (auto simp: tb_data_def tb_pending_def TableBuilder_new_def TableBuilder_Rep_def tb_StartBlock_def filter_blocks_def build_block_def
      index_entries_def option.map_comp comp_def)

text \<open>An index entry for the last block: the index then has an entry for every block.\<close>

lemma emit_index_entry_data:
  fixes k :: bytes
  assumes "tb_data opt r bs segs ks cur" and "tb_pending r segs ks cur" and "tb_pending_index_entry r"
  defines "r' \<equiv> emit_index_entry r k"
  shows "tb_index_block r' = BlockBuilder_Adds 1 BlockBuilder_new (index_entries (ks @ [k]) segs)"
    and "length segs = length (ks @ [k])" and "cur = []" and "\<not> tb_pending_index_entry r'"
proof -
  have p: "segs \<noteq> []" "cur = []" "length segs = Suc (length ks)" "tb_pending_handle r = handle_at (fst (last segs))"
    using assms(2,3) by (auto simp: tb_pending_def)
  obtain segs' s where segs: "segs = segs' @ [s]" using p(1) by (cases segs rule: rev_cases) auto
  have "index_entries (ks @ [k]) segs = index_entries ks segs @ [(k, BlockHandle_EncodeTo (tb_pending_handle r) [])]"
    using p(3,4) by (simp add: segs index_entries_def zip_append1 zip_append2)
  then show "tb_index_block r' = BlockBuilder_Adds 1 BlockBuilder_new (index_entries (ks @ [k]) segs)"
    using assms(1) by (simp add: r'_def emit_index_entry_def Let_def BlockBuilder_Adds_snoc tb_data_def)
  show "length segs = length (ks @ [k])" and "cur = []" and "\<not> tb_pending_index_entry r'"
    using p by (simp_all add: r'_def emit_index_entry_def Let_def)
qed

context comparator
begin

lemma separated_add:
  assumes "separated Compare valid apart ks dss cur" and "\<forall>d \<in> set dss. d \<noteq> []" and "length ks < length dss \<or> cur \<noteq> []"
    and "\<forall>e \<in> set (concat dss @ cur). valid (fst e) \<and> Compare (fst e) k < 0" and "valid k"
    and mono: "\<And>a s b k. apart a s b \<Longrightarrow> valid b \<Longrightarrow> valid k \<Longrightarrow> Compare b k < 0 \<Longrightarrow> apart a s k"
  shows "separated Compare valid apart ks dss (cur @ [(k, v)])"
proof -
  have "Compare (ks ! i) k < 0 \<and> apart (fst (last (dss ! i))) (ks ! i) k" if i: "i < length ks" for i
  proof -
    have "\<exists>e. e \<in> set (concat (drop (Suc i) dss) @ cur)"
    proof (cases "cur = []")
      case True
      then have "drop (Suc i) dss \<noteq> []" using i assms(3) by simp
      then obtain d where d: "d \<in> set (drop (Suc i) dss)" using last_in_set by blast
      then have "d \<noteq> []" using assms(2) in_set_dropD by fast
      then have "last d \<in> set (concat (drop (Suc i) dss))" using d by (auto intro!: bexI [OF _ d])
      then show ?thesis by (intro exI [of _ "last d"]) simp
    qed (intro exI [of _ "last cur"], simp)
    then obtain e where e: "e \<in> set (concat (drop (Suc i) dss) @ cur)" by blast
    then have "e \<in> set (concat dss @ cur)" using set_drop_subset [of "Suc i" dss] by auto
    then have "valid (fst e)" "Compare (fst e) k < 0" using assms(4) by auto
    moreover have "valid (ks ! i)" "Compare (ks ! i) (fst e) < 0" "apart (fst (last (dss ! i))) (ks ! i) (fst e)"
      using assms(1) i e unfolding separated_def by blast+
    ultimately show ?thesis using Compare_le_less_trans [OF _ _ assms(5), of "ks ! i" "fst e"] mono [OF _ _ assms(5)] by simp
  qed
  with assms(1) show ?thesis by (auto simp: separated_def)
qed

end

context separating_comparator
begin

lemma separated_emit:
  assumes "separated Compare valid apart ks dss cur" and "length dss = Suc (length ks)" and "valid sep"
    and "\<forall>e \<in> set (last dss). Compare (fst e) sep \<le> 0" and "\<forall>e \<in> set cur. Compare sep (fst e) < 0 \<and> apart (fst (last (last dss))) sep (fst e)"
    and "length sep \<le> length (fst (last (last dss)))"
  shows "separated Compare valid apart (ks @ [sep]) dss cur"
proof -
  have "last dss = dss ! length ks" using assms(2) by (cases dss rule: rev_cases) (auto simp: nth_append)
  with assms show ?thesis by (auto simp: separated_def nth_append less_Suc_eq)
qed

lemma separator_above:
  assumes "sorted_wrt (\<lambda>a b. Compare a b < 0) (map fst es)" and "\<forall>e \<in> set es. valid (fst e)" and "es \<noteq> []" and "e \<in> set es"
    and "valid sep" and "Compare (fst (last es)) sep \<le> 0"
  shows "Compare (fst e) sep \<le> 0"
proof -
  have "Compare (fst e) (fst (last es)) \<le> 0"
    using assms(1-4) by (cases es rule: rev_cases) (auto simp: sorted_wrt_append Compare_self less_imp_le)
  with Compare_trans [of "fst e" "fst (last es)" sep] assms show ?thesis by simp
qed

end

locale table_writer = separating_comparator Compare valid FindShortestSeparator FindShortSuccessor +
  reliable_file Append Flush contents writable
  for Compare valid FindShortestSeparator FindShortSuccessor
    and Append :: "'f \<Rightarrow> bytes \<Rightarrow> Status \<times> 'f" and Flush contents writable +
  fixes apart :: "bytes \<Rightarrow> bytes \<Rightarrow> bytes \<Rightarrow> bool"
  assumes Separator_apart: "valid a \<Longrightarrow> valid b \<Longrightarrow> Compare a b < 0 \<Longrightarrow> apart a (FindShortestSeparator a b) b"
    and apart_mono: "apart a s b \<Longrightarrow> valid b \<Longrightarrow> valid k \<Longrightarrow> Compare b k < 0 \<Longrightarrow> apart a s k"
    and Separator_short: "length (FindShortestSeparator a b) \<le> length a"
    and Successor_short: "length (FindShortSuccessor a) \<le> length a"
begin

definition writes :: "Options \<Rightarrow> Snappy \<Rightarrow> 'f TableBuilder \<Rightarrow> segment list \<Rightarrow> bytes list \<Rightarrow> entries \<Rightarrow> bool" where
  "writes opt snappy r segs ks cur \<longleftrightarrow>
     opt_comparator opt = \<lparr> cmp_Compare = Compare, cmp_FindShortestSeparator = FindShortestSeparator, cmp_FindShortSuccessor = FindShortSuccessor \<rparr> \<and>
     snappy_ok snappy \<and> writable (tb_file r) \<and> tb_data opt r (contents (tb_file r)) segs ks cur \<and> tb_pending r segs ks cur \<and>
     segments_ok snappy (opt_block_restart_interval opt) (contents (tb_file r)) segs \<and>
     length (contents (tb_file r)) \<le> blocks_size opt segs \<and>
     separated Compare valid apart ks (map snd segs) cur \<and>
     sorted_wrt (\<lambda>a b. Compare a b < 0) (map fst (concat (map snd segs) @ cur)) \<and> (\<forall>e \<in> set (concat (map snd segs) @ cur). valid (fst e))"

lemma writes_Flush:
  assumes "writes opt snappy r segs ks cur"
  shows "\<exists>segs'. writes opt snappy (TableBuilder_Flush Append Flush snappy r) segs' ks [] \<and>
    map snd segs' = (if cur = [] then map snd segs else map snd segs @ [cur])"
proof (cases "cur = []")
  case True
  then have "TableBuilder_Flush Append Flush snappy r = r"
    using assms by (simp add: TableBuilder_Flush_def writes_def tb_data_def BlockBuilder_empty_Adds)
  then show ?thesis using assms True by auto
next
  case False
  let ?n = "opt_block_restart_interval opt" and ?bs = "contents (tb_file r)"
  have r: "writable (tb_file r)" "tb_offset r = of_nat (length ?bs)" "snappy_ok snappy" "tb_status r = Status_OK"
      "tb_data_block r = BlockBuilder_Adds ?n BlockBuilder_new cur" and p: "\<not> tb_pending_index_entry r" "length segs = length ks"
    using assms False by (auto simp: writes_def tb_data_def tb_pending_def split: if_splits)
  have ne: "\<not> BlockBuilder_empty (tb_data_block r)" using r(5) False by (simp add: BlockBuilder_empty_Adds)
  obtain f len where w: "WriteBlock Append snappy r (tb_data_block r) = (handle_at (length ?bs, len), BlockBuilder_new,
      r\<lparr> tb_status := Status_OK, tb_file := f, tb_offset := of_nat (length (contents f)), tb_compressed_output := [] \<rparr>)"
    "writable f" "\<exists>more. length more \<le> length (BlockBuilder_build ?n cur) + 5 \<and> contents f = ?bs @ more" "placed snappy (contents f) (BlockBuilder_build ?n cur) (length ?bs, len)"
    by (rule WriteBlock_next [OF r(1-3), of "BlockBuilder_build ?n cur" "tb_data_block r"]) (simp_all add: r(5) BlockBuilder_build_def)
  obtain s f' where f': "Flush f = (s, f')" "ok s" "writable f'" "contents f' = contents f" by (rule Flush_next [OF w(2)])
  let ?segs = "segs @ [((length ?bs, len), cur)]"
  let ?r = "r\<lparr> tb_offset := of_nat (length (contents f)), tb_compressed_output := [], tb_pending_handle := handle_at (length ?bs, len),
      tb_data_block := BlockBuilder_new, tb_pending_index_entry := True, tb_status := Status_OK, tb_file := f' \<rparr>"
  have step: "TableBuilder_Flush Append Flush snappy r = tb_StartBlock ?r (of_nat (length (contents f)))"
    using r(4) ne w(1) f'(1,2) by (simp add: TableBuilder_Flush_def Let_def ok_def Status_OK_def)
  obtain more where more: "contents f = ?bs @ more" and size: "length more \<le> length (BlockBuilder_build ?n cur) + 5" using w(3) by blast
  have "segments_ok snappy ?n (contents f) ?segs"
    unfolding more using assms False w(4) by (intro segments_ok_snoc) (auto simp: writes_def more)
  moreover have "tb_data opt (tb_StartBlock ?r (of_nat (length (contents f)))) (contents f) ?segs ks []"
    using assms p(2) unfolding writes_def tb_data_def
    by (auto simp: tb_StartBlock_def filter_blocks_StartBlock option.map_comp comp_def index_entries_def zip_append2 split: option.splits)
  moreover have "tb_pending (tb_StartBlock ?r (of_nat (length (contents f)))) ?segs ks []"
    using p(2) by (simp add: tb_pending_def tb_StartBlock_def)
  moreover have "separated Compare valid apart ks (map snd ?segs) []"
    using assms p(2) by (auto simp: writes_def separated_def nth_append)
  moreover have "length (contents f) \<le> blocks_size opt ?segs"
    using assms size by (simp add: more blocks_size_def writes_def)
  ultimately have "writes opt snappy (tb_StartBlock ?r (of_nat (length (contents f)))) ?segs ks []"
    using assms f'(3,4) by (auto simp: writes_def tb_StartBlock_def)
  then show ?thesis unfolding step using False by (intro exI [of _ ?segs]) simp
qed

lemma writes_index_entry:
  assumes "writes opt snappy r segs ks cur" and "tb_pending_index_entry r" and "valid sep"
    and "Compare (fst (last (concat (map snd segs)))) sep \<le> 0"
    and "separated Compare valid apart ks (map snd segs) cur'" and "\<forall>e \<in> set cur'. Compare sep (fst e) < 0 \<and> apart (fst (last (concat (map snd segs)))) sep (fst e)"
    and "length sep \<le> length (fst (last (concat (map snd segs))))"
  shows "length segs = Suc (length ks)" and "cur = []" and "separated Compare valid apart (ks @ [sep]) (map snd segs) cur'"
    and "tb_index_block (emit_index_entry r sep) = BlockBuilder_Adds 1 BlockBuilder_new (index_entries (ks @ [sep]) segs)"
proof -
  have d: "tb_data opt r (contents (tb_file r)) segs ks cur" "tb_pending r segs ks cur" using assms(1) by (simp_all add: writes_def)
  note e = emit_index_entry_data(1,2) [OF d assms(2), of sep] emit_index_entry_data(3) [OF d assms(2)]
  show len: "length segs = Suc (length ks)" and "cur = []" using e(2,3) by simp_all
  then have ne: "segs \<noteq> []" by auto
  show "tb_index_block (emit_index_entry r sep) = BlockBuilder_Adds 1 BlockBuilder_new (index_entries (ks @ [sep]) segs)" by (rule e(1))
  have last: "last (map snd segs) \<noteq> []" "last (concat (map snd segs)) = last (last (map snd segs))"
    using assms(1) ne by (cases segs rule: rev_cases; auto simp: writes_def segments_ok_def)+
  have sorted: "sorted_wrt (\<lambda>a b. Compare a b < 0) (map fst (last (map snd segs)))" "\<forall>e \<in> set (last (map snd segs)). valid (fst e)"
    using assms(1) ne by (cases segs rule: rev_cases; auto simp: writes_def sorted_wrt_append)+
  show "separated Compare valid apart (ks @ [sep]) (map snd segs) cur'"
    by (rule separated_emit) (use len assms(3,5,6,7) separator_above [OF sorted last(1) _ assms(3)] assms(4) last(2) in simp_all)
qed

lemma writes_facts:
  assumes "writes opt snappy r segs ks cur"
  shows "tb_data opt r (contents (tb_file r)) segs ks cur" and "tb_pending r segs ks cur" and "\<forall>d \<in> set (map snd segs). d \<noteq> []"
    and "\<forall>e \<in> set (concat (map snd segs) @ cur). valid (fst e)" and "sorted_wrt (\<lambda>a b. Compare a b < 0) (map fst (concat (map snd segs) @ cur))"
    and "opt_comparator opt = \<lparr> cmp_Compare = Compare, cmp_FindShortestSeparator = FindShortestSeparator, cmp_FindShortSuccessor = FindShortSuccessor \<rparr>"
    and "separated Compare valid apart ks (map snd segs) cur" and "tb_status r = Status_OK" and "tb_options r = opt"
  using assms by (auto simp: writes_def segments_ok_def tb_data_def)

text \<open>The index entry that \<open>Add\<close> emits for the block before the new key.\<close>

lemma writes_separate:
  assumes "writes opt snappy r segs ks cur" and "valid k" and "\<forall>e \<in> set (concat (map snd segs) @ cur). Compare (fst e) k < 0"
  defines "sep \<equiv> FindShortestSeparator (tb_last_key r) k"
  defines "r1 \<equiv> (if tb_pending_index_entry r then emit_index_entry r sep else r)"
    and "ks1 \<equiv> (if tb_pending_index_entry r then ks @ [sep] else ks)"
  shows "separated Compare valid apart ks1 (map snd segs) (cur @ [(k, v)])" and "length segs = length ks1"
    and "tb_index_block r1 = BlockBuilder_Adds 1 BlockBuilder_new (index_entries ks1 segs)" and "\<not> tb_pending_index_entry r1"
proof -
  note w = writes_facts [OF assms(1)]
  have old: "\<forall>e \<in> set (concat (map snd segs) @ cur). valid (fst e) \<and> Compare (fst e) k < 0" using w(4) assms(3) by blast
  have "separated Compare valid apart ks1 (map snd segs) (cur @ [(k, v)]) \<and> length segs = length ks1 \<and>
    tb_index_block r1 = BlockBuilder_Adds 1 BlockBuilder_new (index_entries ks1 segs) \<and> \<not> tb_pending_index_entry r1"
  proof (cases "tb_pending_index_entry r")
    case False
    then have p: "length segs = length ks" "segs = [] \<or> cur \<noteq> []" using w(2) by (auto simp: tb_pending_def)
    have "separated Compare valid apart ks (map snd segs) (cur @ [(k, v)])"
    proof (cases "segs = []")
      case True
      then show ?thesis using p(1) by (simp add: separated_def)
    next
      case False
      with p(2) separated_add [OF w(7,3) _ old assms(2) apart_mono] show ?thesis by simp
    qed
    with False p(1) w(1) show ?thesis by (simp add: r1_def ks1_def tb_data_def)
  next
    case True
    then have p: "segs \<noteq> []" "cur = []" "length segs = Suc (length ks)" using w(2) by (auto simp: tb_pending_def)
    have ne: "concat (map snd segs) \<noteq> []" using p(1) w(3) by (cases segs) auto
    then have lk: "tb_last_key r = fst (last (concat (map snd segs)))" using w(1) p(2) by (simp add: tb_data_def)
    have v: "valid (tb_last_key r)" "Compare (tb_last_key r) k < 0" using old ne lk last_in_set [OF ne] by auto
    from Separator_bounds [OF v(1) assms(2) v(2)] Separator_valid [OF v(1) assms(2)]
    have sep: "valid sep" "Compare (tb_last_key r) sep \<le> 0" "Compare sep k < 0" by (simp_all add: sep_def)
    have len: "length sep \<le> length (tb_last_key r)" unfolding sep_def by (rule Separator_short)
    have "separated Compare valid apart ks (map snd segs) [(k, v)]" using separated_add [OF w(7,3) _ old assms(2) apart_mono] p by simp
    from writes_index_entry [OF assms(1) True sep(1) sep(2) [unfolded lk] this] sep(3) Separator_apart [OF v(1) assms(2) v(2), folded sep_def] len lk p True show ?thesis
      by (simp add: r1_def ks1_def emit_index_entry_def Let_def)
  qed
  then show "separated Compare valid apart ks1 (map snd segs) (cur @ [(k, v)])" and "length segs = length ks1"
    and "tb_index_block r1 = BlockBuilder_Adds 1 BlockBuilder_new (index_entries ks1 segs)" and "\<not> tb_pending_index_entry r1" by auto
qed

lemma writes_Add:
  assumes "writes opt snappy r segs ks cur" and "valid k" and "\<forall>e \<in> set (concat (map snd segs) @ cur). Compare (fst e) k < 0"
  shows "\<exists>segs' ks' cur'. writes opt snappy (TableBuilder_Add Append Flush snappy r k v) segs' ks' cur' \<and>
    concat (map snd segs') @ cur' = concat (map snd segs) @ cur @ [(k, v)]"
proof -
  let ?es = "concat (map snd segs) @ cur" and ?n = "opt_block_restart_interval opt"
  define sep where "sep = FindShortestSeparator (tb_last_key r) k"
  define r1 where "r1 = (if tb_pending_index_entry r then emit_index_entry r sep else r)"
  define ks1 where "ks1 = (if tb_pending_index_entry r then ks @ [sep] else ks)"
  define r2 where "r2 = r1\<lparr> tb_filter_block := map_option (\<lambda>(p, fb). (p, AddKey fb k)) (tb_filter_block r1),
      tb_last_key := k, tb_num_entries := tb_num_entries r1 + 1, tb_data_block := BlockBuilder_Add ?n (tb_data_block r1) k v \<rparr>"
  note w = writes_facts [OF assms(1)]
  note sp = writes_separate(1) [OF assms, of v, folded sep_def, folded ks1_def]
    writes_separate(2-4) [OF assms, folded sep_def, folded r1_def ks1_def]
  have kept: "tb_options r1 = opt" "tb_index_block_options r1 = opt\<lparr> opt_block_restart_interval := 1 \<rparr>" "tb_status r1 = Status_OK"
      "tb_offset r1 = of_nat (length (contents (tb_file r1)))" "tb_file r1 = tb_file r" "tb_data_block r1 = tb_data_block r"
      "tb_filter_block r1 = tb_filter_block r"
    using w(1) by (simp_all add: r1_def emit_index_entry_def Let_def tb_data_def)
  have data: "tb_data opt r2 (contents (tb_file r2)) segs ks1 (cur @ [(k, v)])"
    using w(1) kept sp(3) unfolding tb_data_def r2_def
    by (auto simp: BlockBuilder_Adds_snoc filter_blocks_AddKey option.map_comp comp_def split: option.splits)
  have pend: "tb_pending r2 segs ks1 (cur @ [(k, v)])" using sp(2,4) by (simp add: tb_pending_def r2_def)
  have sorted: "sorted_wrt (\<lambda>a b. Compare a b < 0) (map fst (?es @ [(k, v)]))" using w(5) assms(3) by (auto simp: sorted_wrt_append)
  have w2: "writes opt snappy r2 segs ks1 (cur @ [(k, v)])"
    using assms(1,2) data pend sp(1) sorted kept(5) unfolding writes_def by (auto simp: r2_def)
  have c: "cmp_FindShortestSeparator (opt_comparator (tb_options r)) (tb_last_key r) k = sep" using w(6,9) by (simp add: sep_def)
  have o: "tb_options r2 = opt" using kept(1) by (simp add: r2_def)
  have "TableBuilder_Add Append Flush snappy r k v =
      (if BlockBuilder_CurrentSizeEstimate (tb_data_block r2) \<ge> opt_block_size opt then TableBuilder_Flush Append Flush snappy r2 else r2)"
    unfolding TableBuilder_Add_def Let_def c r1_def [symmetric] kept(1) r2_def [symmetric] using w(8) o by (simp add: ok_def Status_OK_def)
  with writes_Flush [OF w2] w2 show ?thesis by (cases "BlockBuilder_CurrentSizeEstimate (tb_data_block r2) \<ge> opt_block_size opt") (auto, force+)
qed

lemma writes_Adds:
  assumes "writes opt snappy r segs ks cur" and "sorted_wrt (\<lambda>a b. Compare a b < 0) (map fst (concat (map snd segs) @ cur @ es))"
    and "\<forall>e \<in> set es. valid (fst e)"
  shows "\<exists>segs' ks' cur'. writes opt snappy (TableBuilder_Adds Append Flush snappy r es) segs' ks' cur' \<and>
    concat (map snd segs') @ cur' = concat (map snd segs) @ cur @ es"
  using assms
proof (induction es arbitrary: r segs ks cur)
  case Nil
  then show ?case by (auto simp: TableBuilder_Adds_def)
next
  case (Cons e es)
  obtain k v where e: "e = (k, v)" by (cases e)
  have "valid k" "\<forall>e \<in> set (concat (map snd segs) @ cur). Compare (fst e) k < 0"
    using Cons.prems(2,3) by (auto simp: e sorted_wrt_append)
  from writes_Add [OF Cons.prems(1) this, of v] obtain segs1 ks1 cur1
    where 1: "writes opt snappy (TableBuilder_Add Append Flush snappy r k v) segs1 ks1 cur1"
      "concat (map snd segs1) @ cur1 = concat (map snd segs) @ cur @ [(k, v)]" by blast
  have "concat (map snd segs1) @ cur1 @ es = concat (map snd segs) @ cur @ e # es" using arg_cong [OF 1(2), of "\<lambda>x. x @ es"] by (simp add: e)
  with Cons.IH [OF 1(1)] Cons.prems(2,3) show ?case by (simp add: TableBuilder_Adds_def e)
qed

lemma Finish_filter_next:
  assumes "writable (tb_file r)" and "tb_offset r = of_nat (length (contents (tb_file r)))" and "tb_status r = Status_OK"
  obtains f fe fb where "snd (Finish_filter Append r) = r\<lparr> tb_status := Status_OK, tb_file := f, tb_offset := of_nat (length (contents f)), tb_filter_block := fb \<rparr>"
    and "fst (Finish_filter Append r) = (if tb_filter_block r = None then BlockHandle_new else handle_at fe)"
    and "writable f" and "\<exists>more. (tb_filter_block r = None \<longrightarrow> more = []) \<and> contents f = contents (tb_file r) @ more" and "fb = None \<longleftrightarrow> tb_filter_block r = None"
    and "\<forall>p b. tb_filter_block r = Some (p, b) \<longrightarrow> (let raw = fb_result (FilterBlock_Finish (fp_CreateFilter p) b)
      in placed snappy (contents f) raw fe \<and> length raw \<le> length (contents f))"
proof (cases "tb_filter_block r")
  case None
  then have "Finish_filter Append r = (BlockHandle_new, r)" by (simp add: Finish_filter_def)
  with None show ?thesis by (intro that [of None "tb_file r"]) (use assms in \<open>simp_all add: assms(2) [symmetric] assms(3) [symmetric]\<close>)
next
  case (Some pb)
  obtain p b where pb: "pb = (p, b)" by (cases pb)
  let ?b = "FilterBlock_Finish (fp_CreateFilter p) b" and ?r = "r\<lparr> tb_filter_block := Some (p, FilterBlock_Finish (fp_CreateFilter p) b) \<rparr>"
  have tb: "writable (tb_file ?r)" "tb_offset ?r = of_nat (length (contents (tb_file ?r)))" "tb_file ?r = tb_file r" using assms by simp_all
  obtain f where f: "WriteRawBlock Append ?r (fb_result ?b) kNoCompression = (handle_at (length (contents (tb_file r)), length (fb_result ?b)),
      ?r\<lparr> tb_status := Status_OK, tb_file := f, tb_offset := of_nat (length (contents f)) \<rparr>)"
    "writable f" "contents f = contents (tb_file r) @ block_image (fb_result ?b) kNoCompression"
    by (rule WriteRawBlock_next [OF tb(1,2), unfolded tb(3)])
  have "placed snappy (contents f) (fb_result ?b) (length (contents (tb_file r)), length (fb_result ?b))"
    unfolding f(3) placed_def by (metis append_Nil2)
  then show ?thesis
    by (intro that [of "Some (p, ?b)" f "(length (contents (tb_file r)), length (fb_result ?b))"])
      (use Some pb f assms(3) in \<open>simp_all add: Finish_filter_def Let_def ok_def Status_OK_def length_block_image\<close>)
qed

lemma Finish_metaindex_next:
  assumes "writable (tb_file r)" and "tb_offset r = of_nat (length (contents (tb_file r)))" and "tb_status r = Status_OK" and "snappy_ok snappy"
    and "tb_options r = opt" and "tb_filter_block r = None \<longleftrightarrow> opt_filter_policy opt = None"
    and "h = (if tb_filter_block r = None then BlockHandle_new else handle_at fe)"
  obtains f me where "Finish_metaindex Append snappy r h = (handle_at me,
      r\<lparr> tb_status := Status_OK, tb_file := f, tb_offset := of_nat (length (contents f)), tb_compressed_output := [] \<rparr>)"
    and "writable f" and "\<exists>more. length more \<le> length (BlockBuilder_build (opt_block_restart_interval opt) (meta_entries opt fe)) + 5 \<and> contents f = contents (tb_file r) @ more"
    and "placed snappy (contents f) (BlockBuilder_build (opt_block_restart_interval opt) (meta_entries opt fe)) me"
proof -
  let ?n = "opt_block_restart_interval opt"
  define block where "block = BlockBuilder_Adds ?n BlockBuilder_new (meta_entries opt fe)"
  have block: "(case (tb_filter_block r, opt_filter_policy (tb_options r)) of
      (Some _, Some p) \<Rightarrow> BlockBuilder_Add (opt_block_restart_interval (tb_options r)) BlockBuilder_new (filter_key p) (BlockHandle_EncodeTo h [])
    | _ \<Rightarrow> BlockBuilder_new) = block"
    using assms(5-7) by (auto simp: block_def meta_entries_def BlockBuilder_Adds_def split: option.splits)
  obtain f len where w: "WriteBlock Append snappy r block = (handle_at (length (contents (tb_file r)), len), BlockBuilder_new,
      r\<lparr> tb_status := Status_OK, tb_file := f, tb_offset := of_nat (length (contents f)), tb_compressed_output := [] \<rparr>)"
    "writable f" "\<exists>more. length more \<le> length (BlockBuilder_build (opt_block_restart_interval opt) (meta_entries opt fe)) + 5 \<and> contents f = contents (tb_file r) @ more"
    "placed snappy (contents f) (BlockBuilder_build ?n (meta_entries opt fe)) (length (contents (tb_file r)), len)"
    by (rule WriteBlock_next [OF assms(1,2,4), of "BlockBuilder_build ?n (meta_entries opt fe)" block]) (simp_all add: BlockBuilder_build_def block_def)
  have "Finish_metaindex Append snappy r h = (handle_at (length (contents (tb_file r)), len),
      r\<lparr> tb_status := Status_OK, tb_file := f, tb_offset := of_nat (length (contents f)), tb_compressed_output := [] \<rparr>)"
    unfolding Finish_metaindex_def Let_def block w(1) using assms(3) by (simp add: ok_def Status_OK_def)
  then show ?thesis by (rule that [OF _ w(2-4)])
qed

lemma Finish_index_next:
  assumes "writable (tb_file r)" and "tb_offset r = of_nat (length (contents (tb_file r)))" and "tb_status r = Status_OK" and "snappy_ok snappy"
    and "tb_index_block (if tb_pending_index_entry r
      then emit_index_entry r (cmp_FindShortSuccessor (opt_comparator (tb_options r)) (tb_last_key r)) else r) = BlockBuilder_Adds 1 BlockBuilder_new ies"
  obtains r' ie where "Finish_index Append snappy r = (handle_at ie, r')" and "tb_status r' = Status_OK" and "writable (tb_file r')"
    and "tb_offset r' = of_nat (length (contents (tb_file r')))" and "\<exists>more. length more \<le> length (BlockBuilder_build 1 ies) + 5 \<and> contents (tb_file r') = contents (tb_file r) @ more"
    and "placed snappy (contents (tb_file r')) (BlockBuilder_build 1 ies) ie"
proof -
  define r1 where "r1 = (if tb_pending_index_entry r
      then emit_index_entry r (cmp_FindShortSuccessor (opt_comparator (tb_options r)) (tb_last_key r)) else r)"
  have r1: "tb_file r1 = tb_file r" "writable (tb_file r1)" "tb_offset r1 = of_nat (length (contents (tb_file r1)))"
    using assms(1,2) by (auto simp: r1_def emit_index_entry_def Let_def)
  obtain f len where w: "WriteBlock Append snappy r1 (tb_index_block r1) = (handle_at (length (contents (tb_file r1)), len), BlockBuilder_new,
      r1\<lparr> tb_status := Status_OK, tb_file := f, tb_offset := of_nat (length (contents f)), tb_compressed_output := [] \<rparr>)"
    "writable f" "\<exists>more. length more \<le> length (BlockBuilder_build 1 ies) + 5 \<and> contents f = contents (tb_file r1) @ more"
    "placed snappy (contents f) (BlockBuilder_build 1 ies) (length (contents (tb_file r1)), len)"
    by (rule WriteBlock_next [OF r1(2,3) assms(4), of "BlockBuilder_build 1 ies" "tb_index_block r1"])
      (simp_all add: BlockBuilder_build_def assms(5) [folded r1_def])
  have "Finish_index Append snappy r = (handle_at (length (contents (tb_file r1)), len), r1\<lparr> tb_status := Status_OK, tb_file := f,
      tb_offset := of_nat (length (contents f)), tb_compressed_output := [], tb_index_block := BlockBuilder_new \<rparr>)"
    unfolding Finish_index_def Let_def r1_def [symmetric] using w(1) assms(3) by (simp add: ok_def Status_OK_def)
  then show ?thesis by (rule that) (use w(2-4) r1(1) in auto)
qed

text \<open>The index of a finished table: every block has its entry.\<close>

lemma writes_final_index:
  assumes "writes opt snappy r segs ks []"
  obtains ks' where "length ks' = length segs" and "separated Compare valid apart ks' (map snd segs) []"
    and "tb_index_block (if tb_pending_index_entry r then emit_index_entry r (FindShortSuccessor (tb_last_key r)) else r) =
      BlockBuilder_Adds 1 BlockBuilder_new (index_entries ks' segs)"
proof (cases "tb_pending_index_entry r")
  case False
  note w = writes_facts [OF assms]
  from False w(1,2,7) show ?thesis by (intro that [of ks]) (auto simp: tb_pending_def tb_data_def)
next
  case True
  note w = writes_facts [OF assms]
  let ?succ = "FindShortSuccessor (tb_last_key r)"
  have p: "segs \<noteq> []" "length segs = Suc (length ks)" using w(2) True by (auto simp: tb_pending_def)
  have ne: "concat (map snd segs) \<noteq> []" using p(1) w(3) by (cases segs) auto
  then have lk: "tb_last_key r = fst (last (concat (map snd segs)))" using w(1) by (simp add: tb_data_def)
  then have v: "valid (tb_last_key r)" using w(4) last_in_set [OF ne] by auto
  have "Compare (fst (last (concat (map snd segs)))) ?succ \<le> 0" using Successor_bound [OF v] lk by simp
  from writes_index_entry [OF assms True Successor_valid [OF v] this w(7)] Successor_short [of "tb_last_key r"] lk p True show ?thesis
    by (intro that [of "ks @ [?succ]"]) auto
qed

lemma writes_closed: "writes opt snappy (r\<lparr> tb_closed := b \<rparr>) segs ks cur = writes opt snappy r segs ks cur"
  by (simp add: writes_def tb_data_def tb_pending_def)

lemma writes_Finish:
  assumes "writes opt snappy r segs0 ks0 cur"
  shows "\<exists>r' segs ks fe me ie. TableBuilder_Finish Append Flush snappy r = (Status_OK, r') \<and> writable (tb_file r') \<and>
    table_layout Compare valid apart opt snappy (contents (tb_file r')) segs ks fe me ie \<and>
    concat (map snd segs) = concat (map snd segs0) @ cur \<and> FileSize r' = of_nat (length (contents (tb_file r'))) \<and>
    (opt_filter_policy opt = None \<longrightarrow> length (contents (tb_file r')) \<le> table_size opt segs ks fe)"
proof -
  define r0 where "r0 = (TableBuilder_Flush Append Flush snappy r)\<lparr> tb_closed := True \<rparr>"
  obtain segs where segs: "writes opt snappy (TableBuilder_Flush Append Flush snappy r) segs ks0 []"
      "map snd segs = (if cur = [] then map snd segs0 else map snd segs0 @ [cur])"
    using writes_Flush [OF assms] by blast
  then have w0: "writes opt snappy r0 segs ks0 []" by (simp add: r0_def writes_closed)
  note w = writes_facts [OF w0]
  let ?bs0 = "contents (tb_file r0)"
  have r0: "writable (tb_file r0)" "tb_offset r0 = of_nat (length ?bs0)" "snappy_ok snappy" "segments_ok snappy (opt_block_restart_interval opt) ?bs0 segs"
    using w0 by (auto simp: writes_def tb_data_def)
  obtain f2 fe fb where 2: "snd (Finish_filter Append r0) = r0\<lparr> tb_status := Status_OK, tb_file := f2, tb_offset := of_nat (length (contents f2)), tb_filter_block := fb \<rparr>"
      "fst (Finish_filter Append r0) = (if tb_filter_block r0 = None then BlockHandle_new else handle_at fe)"
      "writable f2" "\<exists>more. (tb_filter_block r0 = None \<longrightarrow> more = []) \<and> contents f2 = ?bs0 @ more" "fb = None \<longleftrightarrow> tb_filter_block r0 = None"
      "\<forall>p b. tb_filter_block r0 = Some (p, b) \<longrightarrow> (let raw = fb_result (FilterBlock_Finish (fp_CreateFilter p) b)
        in placed snappy (contents f2) raw fe \<and> length raw \<le> length (contents f2))"
    by (rule Finish_filter_next [where snappy = snappy, OF r0(1,2) w(8)])
  define r2 where "r2 = snd (Finish_filter Append r0)"
  have fnone: "tb_filter_block r0 = None \<longleftrightarrow> opt_filter_policy opt = None" using w(1) by (simp add: tb_data_def)
  obtain f3 me where 3: "Finish_metaindex Append snappy r2 (fst (Finish_filter Append r0)) = (handle_at me,
      r2\<lparr> tb_status := Status_OK, tb_file := f3, tb_offset := of_nat (length (contents f3)), tb_compressed_output := [] \<rparr>)"
      "writable f3" "\<exists>more. length more \<le> length (BlockBuilder_build (opt_block_restart_interval opt) (meta_entries opt fe)) + 5 \<and> contents f3 = contents (tb_file r2) @ more"
      "placed snappy (contents f3) (BlockBuilder_build (opt_block_restart_interval opt) (meta_entries opt fe)) me"
    by (rule Finish_metaindex_next [of r2 snappy opt "fst (Finish_filter Append r0)" fe]) (use 2 r0 w fnone in \<open>simp_all add: r2_def\<close>)
  define r3 where "r3 = r2\<lparr> tb_status := Status_OK, tb_file := f3, tb_offset := of_nat (length (contents f3)), tb_compressed_output := [] \<rparr>"
  obtain ks where ks: "length ks = length segs" "separated Compare valid apart ks (map snd segs) []"
      "tb_index_block (if tb_pending_index_entry r0 then emit_index_entry r0 (FindShortSuccessor (tb_last_key r0)) else r0) =
        BlockBuilder_Adds 1 BlockBuilder_new (index_entries ks segs)"
    by (rule writes_final_index [OF w0])
  have idx: "tb_index_block (if tb_pending_index_entry r3 then emit_index_entry r3 (cmp_FindShortSuccessor (opt_comparator (tb_options r3)) (tb_last_key r3)) else r3) =
        BlockBuilder_Adds 1 BlockBuilder_new (index_entries ks segs)"
    using ks(3) 2(1) w(6,9) by (simp add: r3_def r2_def emit_index_entry_def Let_def split: if_splits)
  obtain r4 ie where 4: "Finish_index Append snappy r3 = (handle_at ie, r4)" "tb_status r4 = Status_OK" "writable (tb_file r4)"
      "tb_offset r4 = of_nat (length (contents (tb_file r4)))" "\<exists>more. length more \<le> length (BlockBuilder_build 1 (index_entries ks segs)) + 5 \<and> contents (tb_file r4) = contents (tb_file r3) @ more"
      "placed snappy (contents (tb_file r4)) (BlockBuilder_build 1 (index_entries ks segs)) ie"
    by (rule Finish_index_next [OF _ _ _ r0(3) idx]) (use 3(2) in \<open>simp_all add: r3_def\<close>)
  let ?footer = "Footer_EncodeTo \<lparr> metaindex_handle = handle_at me, index_handle = handle_at ie \<rparr> []"
  obtain s5 f5 where 5: "Append (tb_file r4) ?footer = (s5, f5)" "ok s5" "writable f5" "contents f5 = contents (tb_file r4) @ ?footer"
    by (rule Append_next [OF 4(3)])
  let ?r5 = "r4\<lparr> tb_status := s5, tb_file := f5, tb_offset := tb_offset r4 + of_nat (length ?footer) \<rparr>"
  have fin: "TableBuilder_Finish Append Flush snappy r = (Status_OK, ?r5)"
    unfolding TableBuilder_Finish_def Let_def r0_def [symmetric] split_beta r2_def [symmetric] 3(1) snd_conv fst_conv r3_def [symmetric] 4(1)
    using 4(2) 5(1,2) by (simp add: Finish_footer_def Let_def ok_def Status_OK_def)
  obtain m2 m3 m4 where more: "contents f2 = ?bs0 @ m2" "contents f3 = contents f2 @ m3" "contents (tb_file r4) = contents f3 @ m4"
      and sz: "tb_filter_block r0 = None \<Longrightarrow> m2 = []" "length m3 \<le> length (BlockBuilder_build (opt_block_restart_interval opt) (meta_entries opt fe)) + 5"
      "length m4 \<le> length (BlockBuilder_build 1 (index_entries ks segs)) + 5"
    using 2(1,4) 3(3) 4(5) by (auto simp: r2_def r3_def)
  then have bs: "contents f5 = contents f2 @ m3 @ m4 @ ?footer" "contents f5 = contents f3 @ m4 @ ?footer" "contents f5 = ?bs0 @ m2 @ m3 @ m4 @ ?footer"
    using 5(4) by simp_all
  have "table_layout Compare valid apart opt snappy (contents f5) segs ks fe me ie"
    unfolding table_layout_def
  proof (intro conjI allI impI)
    show "segments_ok snappy (opt_block_restart_interval opt) (contents f5) segs" unfolding bs(3) by (rule segments_ok_append [OF r0(4)])
    show "placed snappy (contents f5) (BlockBuilder_build 1 (index_entries ks segs)) ie" unfolding 5(4) by (rule placed_append [OF 4(6)])
    show "placed snappy (contents f5) (BlockBuilder_build (opt_block_restart_interval opt) (meta_entries opt fe)) me"
      unfolding bs(2) by (rule placed_append [OF 3(4)])
    fix p assume p: "opt_filter_policy opt = Some p"
    let ?fb = "build_filter_block (fp_CreateFilter p) (filter_blocks segs (length ?bs0) [])"
    have "placed snappy (contents f2) ?fb fe \<and> length ?fb \<le> length (contents f2)"
      using 2(6) w(1) p by (simp add: tb_data_def build_filter_block_def Let_def)
    then have "placed snappy (contents f5) ?fb fe \<and> length ?fb \<le> length (contents f5)"
      unfolding bs(1) by (auto intro: placed_append)
    moreover have "\<forall>s \<in> set segs. fst (fst s) \<le> length ?bs0" using r0(4) placed_bound by (fastforce simp: segments_ok_def)
    ultimately show "\<exists>m \<le> length (contents f5). let fb = build_filter_block (fp_CreateFilter p) (filter_blocks segs m [])
         in placed snappy (contents f5) fb fe \<and> length fb \<le> length (contents f5) \<and> (\<forall>s \<in> set segs. fst (fst s) \<le> m)"
      unfolding Let_def using bs(3) by (intro exI [of _ "length ?bs0"]) simp
  next
    show "\<exists>pre. contents f5 = pre @ ?footer" using 5(4) by blast
  qed (use ks w(4,5) in simp_all)
  moreover have "concat (map snd segs) = concat (map snd segs0) @ cur" using segs(2) by simp
  moreover have "FileSize ?r5 = of_nat (length (contents f5))" using 4(4) 5(4) by (simp add: FileSize_def)
  moreover have "opt_filter_policy opt = None \<longrightarrow> length (contents f5) \<le> table_size opt segs ks fe"
  proof
    assume "opt_filter_policy opt = None"
    then have "m2 = []" using fnone sz(1) by simp
    moreover have "length ?bs0 \<le> blocks_size opt segs" using w0 by (simp add: writes_def)
    ultimately show "length (contents f5) \<le> table_size opt segs ks fe"
      using sz(2,3) by (simp add: bs(3) table_size_def length_Footer_EncodeTo)
  qed
  ultimately show ?thesis
    unfolding fin by (intro exI [of _ ?r5] exI [of _ segs] exI [of _ ks] exI [of _ fe] exI [of _ me] exI [of _ ie]) (simp add: 5(3))
qed

lemma table_built:
  assumes "opt_comparator opt = \<lparr> cmp_Compare = Compare, cmp_FindShortestSeparator = FindShortestSeparator, cmp_FindShortSuccessor = FindShortSuccessor \<rparr>"
    and "snappy_ok snappy" and "writable f" and "contents f = []"
    and "sorted_wrt (\<lambda>a b. Compare a b < 0) (map fst es)" and "\<forall>e \<in> set es. valid (fst e)"
  shows "\<exists>r segs ks fe me ie. TableBuilder_Finish Append Flush snappy (TableBuilder_Adds Append Flush snappy (TableBuilder_new opt f) es) = (Status_OK, r) \<and>
    writable (tb_file r) \<and> table_layout Compare valid apart opt snappy (contents (tb_file r)) segs ks fe me ie \<and> concat (map snd segs) = es \<and>
    FileSize r = of_nat (length (contents (tb_file r))) \<and>
    (opt_filter_policy opt = None \<longrightarrow> length (contents (tb_file r)) \<le> table_size opt segs ks fe)"
proof -
  have tbf: "tb_file (TableBuilder_new opt f) = f" by (simp add: TableBuilder_new_def tb_StartBlock_def TableBuilder_Rep_def)
  have "writes opt snappy (TableBuilder_new opt f) [] [] []"
    using assms(1-4) TableBuilder_new_data [of opt f] unfolding writes_def tbf by (simp add: separated_def segments_ok_def blocks_size_def)
  from writes_Adds [OF this, of es] assms(5,6) obtain segs ks cur
    where "writes opt snappy (TableBuilder_Adds Append Flush snappy (TableBuilder_new opt f) es) segs ks cur" "concat (map snd segs) @ cur = es"
    by auto
  from writes_Finish [OF this(1)] this(2) show ?thesis by metis
qed

end

end
