(* ===== verification/Two_Level.thy ===== *)
theory Two_Level
  imports Iterator
begin

text \<open>
  The two-level iterator, \<open>table/two_level_iterator.cc\<close>: an index iterator whose values are handles of
  blocks, and a data iterator on the block of the current index entry, made by a block function. Over
  an index that separates its blocks it is a cursor on the concatenation of the blocks, empty blocks
  included. The loops over empty blocks end because the index does; a method that does not end has the
  result \<open>None\<close>.
\<close>

section \<open>Operations\<close>

record ('i, 'd) TwoLevelIterator =
  tl_status :: Status
  tl_index_iter :: "'i IteratorWrapper"
  tl_data_iter :: "'d IteratorWrapper"
  tl_data_block_handle :: bytes

definition TwoLevelIterator_new :: "'i Iterator \<Rightarrow> 'i \<Rightarrow> ('i, 'd) TwoLevelIterator" where
  "TwoLevelIterator_new I index_iter =
     \<lparr> tl_status = Status_OK, tl_index_iter = IteratorWrapper_Set I IteratorWrapper_new (Some index_iter),
       tl_data_iter = IteratorWrapper_new, tl_data_block_handle = [] \<rparr>"

definition SaveError :: "Status \<Rightarrow> ('i, 'd) TwoLevelIterator \<Rightarrow> ('i, 'd) TwoLevelIterator" where
  "SaveError s t = (if ok (tl_status t) \<and> \<not> ok s then t\<lparr> tl_status := s \<rparr> else t)"

definition SetDataIterator :: "'d Iterator \<Rightarrow> 'd option \<Rightarrow> ('i, 'd) TwoLevelIterator \<Rightarrow> ('i, 'd) TwoLevelIterator" where
  "SetDataIterator D data_iter t =
     (let t = (if iw_iter (tl_data_iter t) \<noteq> None then SaveError (IteratorWrapper_status D (tl_data_iter t)) t else t)
      in t\<lparr> tl_data_iter := IteratorWrapper_Set D (tl_data_iter t) data_iter \<rparr>)"

definition InitDataBlock :: "'i Iterator \<Rightarrow> 'd Iterator \<Rightarrow> (bytes \<Rightarrow> 'd) \<Rightarrow> ('i, 'd) TwoLevelIterator \<Rightarrow> ('i, 'd) TwoLevelIterator" where
  "InitDataBlock I D block_function t =
     (if \<not> iw_valid (tl_index_iter t) then SetDataIterator D None t
      else (let handle = IteratorWrapper_value I (tl_index_iter t)
            in if iw_iter (tl_data_iter t) \<noteq> None \<and> handle = tl_data_block_handle t then t
               else SetDataIterator D (Some (block_function handle)) (t\<lparr> tl_data_block_handle := handle \<rparr>)))"

definition on_data :: "('d IteratorWrapper \<Rightarrow> 'd IteratorWrapper) \<Rightarrow> ('i, 'd) TwoLevelIterator \<Rightarrow> ('i, 'd) TwoLevelIterator" where
  "on_data f t = (if iw_iter (tl_data_iter t) \<noteq> None then t\<lparr> tl_data_iter := f (tl_data_iter t) \<rparr> else t)"

definition on_index :: "('i IteratorWrapper \<Rightarrow> 'i IteratorWrapper) \<Rightarrow> ('i, 'd) TwoLevelIterator \<Rightarrow> ('i, 'd) TwoLevelIterator" where
  "on_index f t = t\<lparr> tl_index_iter := f (tl_index_iter t) \<rparr>"

partial_function (option) SkipEmptyDataBlocksForward ::
    "'i Iterator \<Rightarrow> 'd Iterator \<Rightarrow> (bytes \<Rightarrow> 'd) \<Rightarrow> ('i, 'd) TwoLevelIterator \<Rightarrow> ('i, 'd) TwoLevelIterator option" where
  "SkipEmptyDataBlocksForward I D block_function t =
     (if iw_iter (tl_data_iter t) = None \<or> \<not> iw_valid (tl_data_iter t)
      then (if \<not> iw_valid (tl_index_iter t) then Some (SetDataIterator D None t)
            else SkipEmptyDataBlocksForward I D block_function
                   (on_data (IteratorWrapper_SeekToFirst D)
                     (InitDataBlock I D block_function (on_index (IteratorWrapper_Next I) t))))
      else Some t)"

partial_function (option) SkipEmptyDataBlocksBackward ::
    "'i Iterator \<Rightarrow> 'd Iterator \<Rightarrow> (bytes \<Rightarrow> 'd) \<Rightarrow> ('i, 'd) TwoLevelIterator \<Rightarrow> ('i, 'd) TwoLevelIterator option" where
  "SkipEmptyDataBlocksBackward I D block_function t =
     (if iw_iter (tl_data_iter t) = None \<or> \<not> iw_valid (tl_data_iter t)
      then (if \<not> iw_valid (tl_index_iter t) then Some (SetDataIterator D None t)
            else SkipEmptyDataBlocksBackward I D block_function
                   (on_data (IteratorWrapper_SeekToLast D)
                     (InitDataBlock I D block_function (on_index (IteratorWrapper_Prev I) t))))
      else Some t)"

definition TwoLevel_Seek ::
    "'i Iterator \<Rightarrow> 'd Iterator \<Rightarrow> (bytes \<Rightarrow> 'd) \<Rightarrow> ('i, 'd) TwoLevelIterator \<Rightarrow> bytes \<Rightarrow> ('i, 'd) TwoLevelIterator option" where
  "TwoLevel_Seek I D block_function t target =
     SkipEmptyDataBlocksForward I D block_function
       (on_data (\<lambda>w. IteratorWrapper_Seek D w target)
         (InitDataBlock I D block_function (on_index (\<lambda>w. IteratorWrapper_Seek I w target) t)))"

definition TwoLevel_SeekToFirst ::
    "'i Iterator \<Rightarrow> 'd Iterator \<Rightarrow> (bytes \<Rightarrow> 'd) \<Rightarrow> ('i, 'd) TwoLevelIterator \<Rightarrow> ('i, 'd) TwoLevelIterator option" where
  "TwoLevel_SeekToFirst I D block_function t =
     SkipEmptyDataBlocksForward I D block_function
       (on_data (IteratorWrapper_SeekToFirst D)
         (InitDataBlock I D block_function (on_index (IteratorWrapper_SeekToFirst I) t)))"

definition TwoLevel_SeekToLast ::
    "'i Iterator \<Rightarrow> 'd Iterator \<Rightarrow> (bytes \<Rightarrow> 'd) \<Rightarrow> ('i, 'd) TwoLevelIterator \<Rightarrow> ('i, 'd) TwoLevelIterator option" where
  "TwoLevel_SeekToLast I D block_function t =
     SkipEmptyDataBlocksBackward I D block_function
       (on_data (IteratorWrapper_SeekToLast D)
         (InitDataBlock I D block_function (on_index (IteratorWrapper_SeekToLast I) t)))"

definition TwoLevel_Next ::
    "'i Iterator \<Rightarrow> 'd Iterator \<Rightarrow> (bytes \<Rightarrow> 'd) \<Rightarrow> ('i, 'd) TwoLevelIterator \<Rightarrow> ('i, 'd) TwoLevelIterator option" where
  "TwoLevel_Next I D block_function t =
     SkipEmptyDataBlocksForward I D block_function (t\<lparr> tl_data_iter := IteratorWrapper_Next D (tl_data_iter t) \<rparr>)"

definition TwoLevel_Prev ::
    "'i Iterator \<Rightarrow> 'd Iterator \<Rightarrow> (bytes \<Rightarrow> 'd) \<Rightarrow> ('i, 'd) TwoLevelIterator \<Rightarrow> ('i, 'd) TwoLevelIterator option" where
  "TwoLevel_Prev I D block_function t =
     SkipEmptyDataBlocksBackward I D block_function (t\<lparr> tl_data_iter := IteratorWrapper_Prev D (tl_data_iter t) \<rparr>)"

definition TwoLevel_status :: "'i Iterator \<Rightarrow> 'd Iterator \<Rightarrow> ('i, 'd) TwoLevelIterator \<Rightarrow> Status" where
  "TwoLevel_status I D t =
     (if \<not> ok (IteratorWrapper_status I (tl_index_iter t)) then IteratorWrapper_status I (tl_index_iter t)
      else if iw_iter (tl_data_iter t) \<noteq> None \<and> \<not> ok (IteratorWrapper_status D (tl_data_iter t))
           then IteratorWrapper_status D (tl_data_iter t)
      else tl_status t)"

text \<open>The iterator as a client sees it; a state \<open>None\<close> is reached by a method that does not end, and
  shows nothing.\<close>

definition TwoLevel_methods :: "'i Iterator \<Rightarrow> 'd Iterator \<Rightarrow> (bytes \<Rightarrow> 'd) \<Rightarrow> ('i, 'd) TwoLevelIterator option Iterator" where
  "TwoLevel_methods I D block_function =
     \<lparr> it_Valid = (\<lambda>t. case t of None \<Rightarrow> False | Some t \<Rightarrow> iw_valid (tl_data_iter t)),
       it_SeekToFirst = (\<lambda>t. Option.bind t (TwoLevel_SeekToFirst I D block_function)),
       it_SeekToLast = (\<lambda>t. Option.bind t (TwoLevel_SeekToLast I D block_function)),
       it_Seek = (\<lambda>t target. Option.bind t (\<lambda>t. TwoLevel_Seek I D block_function t target)),
       it_Next = (\<lambda>t. Option.bind t (TwoLevel_Next I D block_function)),
       it_Prev = (\<lambda>t. Option.bind t (TwoLevel_Prev I D block_function)),
       it_key = (\<lambda>t. case t of None \<Rightarrow> [] | Some t \<Rightarrow> iw_key (tl_data_iter t)),
       it_value = (\<lambda>t. case t of None \<Rightarrow> [] | Some t \<Rightarrow> IteratorWrapper_value D (tl_data_iter t)),
       it_status = (\<lambda>t. case t of None \<Rightarrow> Status_OK | Some t \<Rightarrow> TwoLevel_status I D t) \<rparr>"

section \<open>Positions\<close>

text \<open>The index entry of a block is at or above the keys of the block and below those of later blocks.\<close>

definition indexed ::
    "(bytes \<Rightarrow> bytes \<Rightarrow> int) \<Rightarrow> (bytes \<Rightarrow> bool) \<Rightarrow> (bytes \<times> bytes) list \<Rightarrow> (bytes \<times> bytes) list list \<Rightarrow> bool" where
  "indexed Compare valid ies dss \<longleftrightarrow>
     length dss = length ies \<and> distinct (map snd ies) \<and> (\<forall>e \<in> set ies. valid (fst e)) \<and>
     sorted_wrt (\<lambda>a b. Compare a b < 0) (map fst (concat dss)) \<and> (\<forall>e \<in> set (concat dss). valid (fst e)) \<and>
     (\<forall>i < length ies. \<forall>e \<in> set (dss ! i). Compare (fst e) (fst (ies ! i)) \<le> 0) \<and>
     (\<forall>k < length ies. \<forall>i < k. \<forall>e \<in> set (dss ! k). Compare (fst (ies ! i)) (fst e) < 0)"

definition base :: "'a list list \<Rightarrow> nat \<Rightarrow> nat" where
  "base dss i = length (concat (take i dss))"

lemma base_0 [simp]: "base dss 0 = 0"
  by (simp add: base_def)

lemma base_Suc [simp]: "i < length dss \<Longrightarrow> base dss (Suc i) = base dss i + length (dss ! i)"
  by (simp add: base_def take_Suc_conv_app_nth)

lemma base_all: "length dss \<le> i \<Longrightarrow> base dss i = length (concat dss)"
  by (simp add: base_def)

lemma base_le: "base dss i \<le> length (concat dss)"
  by (metis base_def append_take_drop_id concat_append le_add1 length_append)

lemma base_block: "i < length dss \<Longrightarrow> base dss i + length (dss ! i) \<le> length (concat dss)"
  using base_le [of dss "Suc i"] by simp

lemma concat_nth: "i < length dss \<Longrightarrow> p < length (dss ! i) \<Longrightarrow> concat dss ! (base dss i + p) = dss ! i ! p"
proof -
  assume i: "i < length dss" and p: "p < length (dss ! i)"
  have "concat dss = concat (take i dss) @ dss ! i @ concat (drop (Suc i) dss)"
    by (subst id_take_nth_drop [OF i]) simp
  then show ?thesis using p by (simp add: base_def nth_append)
qed

lemma last_position: "b + l = n \<Longrightarrow> (if l - 1 < l then b + (l - 1) else if b = 0 then n else b - 1) = n - (1 :: nat)"
  by (cases l) auto

lemma takeWhile_append_none: "(\<And>x. x \<in> set ys \<Longrightarrow> \<not> P x) \<Longrightarrow> takeWhile P (xs @ ys) = takeWhile P xs"
  by (induction xs) (auto simp: takeWhile_eq_Nil_iff)

lemma mem_concat_take:
  assumes "e \<in> set (concat (take i xss))"
  obtains k where "k < i" and "k < length xss" and "e \<in> set (xss ! k)"
proof -
  from assms obtain xs where "xs \<in> set (take i xss)" "e \<in> set xs" by auto
  then show ?thesis using that by (auto simp: in_set_conv_nth [of xs])
qed

lemma mem_concat_drop:
  assumes "e \<in> set (concat (drop i xss))"
  obtains k where "i \<le> k" and "k < length xss" and "e \<in> set (xss ! k)"
proof -
  from assms obtain xs where xs: "xs \<in> set (drop i xss)" "e \<in> set xs" by auto
  then obtain m where "m < length xss - i" "xs = xss ! (i + m)" by (auto simp: in_set_conv_nth [of xs])
  then show ?thesis using that [of "i + m"] xs(2) by simp
qed

lemma indexed_block_sorted:
  assumes "indexed Compare valid ies dss" and "i < length dss"
  shows "sorted_wrt (\<lambda>a b. Compare a b < 0) (map fst (dss ! i))" and "e \<in> set (dss ! i) \<Longrightarrow> valid (fst e)"
proof -
  have "concat dss = concat (take i dss) @ dss ! i @ concat (drop (Suc i) dss)"
    by (subst id_take_nth_drop [OF assms(2)]) simp
  with assms(1) show "sorted_wrt (\<lambda>a b. Compare a b < 0) (map fst (dss ! i))" and "e \<in> set (dss ! i) \<Longrightarrow> valid (fst e)"
    by (auto simp: indexed_def sorted_wrt_append)
qed

definition tl_at ::
    "'i Iterator \<Rightarrow> 'd Iterator \<Rightarrow> (bytes \<times> bytes) list \<Rightarrow> ('i \<Rightarrow> nat \<Rightarrow> bool) \<Rightarrow> ('d \<Rightarrow> nat \<Rightarrow> bool) list \<Rightarrow>
     ('i, 'd) TwoLevelIterator \<Rightarrow> nat \<Rightarrow> nat \<Rightarrow> bool" where
  "tl_at I D ies idx_on dons t i p \<longleftrightarrow>
     tl_status t = Status_OK \<and> i < length ies \<and> wrapper_on I idx_on (tl_index_iter t) i \<and>
     wrapper_on D (dons ! i) (tl_data_iter t) p \<and> tl_data_block_handle t = snd (ies ! i)"

definition tl_end :: "'i Iterator \<Rightarrow> ('i \<Rightarrow> nat \<Rightarrow> bool) \<Rightarrow> ('i, 'd) TwoLevelIterator \<Rightarrow> bool" where
  "tl_end I idx_on t \<longleftrightarrow>
     tl_status t = Status_OK \<and> (\<exists>q. wrapper_on I idx_on (tl_index_iter t) q) \<and>
     iw_iter (tl_data_iter t) = None \<and> \<not> iw_valid (tl_data_iter t)"

definition tl_on ::
    "(bytes \<Rightarrow> bytes \<Rightarrow> int) \<Rightarrow> (bytes \<Rightarrow> bool) \<Rightarrow> 'i Iterator \<Rightarrow> 'd Iterator \<Rightarrow> (bytes \<Rightarrow> 'd) \<Rightarrow>
     (bytes \<times> bytes) list \<Rightarrow> (bytes \<times> bytes) list list \<Rightarrow> ('i \<Rightarrow> nat \<Rightarrow> bool) \<Rightarrow> ('d \<Rightarrow> nat \<Rightarrow> bool) list \<Rightarrow>
     ('i, 'd) TwoLevelIterator option \<Rightarrow> nat \<Rightarrow> bool" where
  "tl_on Compare valid I D block_function ies dss idx_on dons t j \<longleftrightarrow>
     indexed Compare valid ies dss \<and> (\<forall>k < length ies. \<exists>p. (dons ! k) (block_function (snd (ies ! k))) p) \<and>
     (\<exists>s. t = Some s \<and>
        (if j < length (concat dss)
         then \<exists>i p. tl_at I D ies idx_on dons s i p \<and> p < length (dss ! i) \<and> j = base dss i + p
         else j = length (concat dss) \<and> tl_end I idx_on s))"

locale two_level = comparator +
  fixes I :: "'i Iterator"
    and D :: "'d Iterator"
    and block_function :: "bytes \<Rightarrow> 'd"
    and ies :: "(bytes \<times> bytes) list"
    and dss :: "(bytes \<times> bytes) list list"
    and idx_on :: "'i \<Rightarrow> nat \<Rightarrow> bool"
    and dons :: "('d \<Rightarrow> nat \<Rightarrow> bool) list"
  assumes index: "list_iterator I Compare valid ies idx_on"
    and blocks: "k < length ies \<Longrightarrow> list_iterator D Compare valid (dss ! k) (dons ! k)"
begin

abbreviation "here \<equiv> tl_at I D ies idx_on dons"
abbreviation "ended \<equiv> tl_end I idx_on"
abbreviation "opens \<equiv> \<forall>k < length ies. \<exists>p. (dons ! k) (block_function (snd (ies ! k))) p"

text \<open>The data iterator is null or stands in some block, and \<open>data_block_handle_\<close> is the handle of that block.\<close>

definition data_ok :: "('i, 'd) TwoLevelIterator \<Rightarrow> bool" where
  "data_ok t \<longleftrightarrow> tl_status t = Status_OK \<and>
     (iw_iter (tl_data_iter t) = None \<and> \<not> iw_valid (tl_data_iter t) \<or>
      (\<exists>k p. k < length ies \<and> wrapper_on D (dons ! k) (tl_data_iter t) p \<and> tl_data_block_handle t = snd (ies ! k)))"

lemma data_okI: "here t i p \<Longrightarrow> data_ok t" "ended t \<Longrightarrow> data_ok t"
  by (auto simp: data_ok_def tl_at_def tl_end_def)

lemma SetDataIterator_fields:
  assumes "data_ok t"
  shows "SetDataIterator D d t = t\<lparr> tl_data_iter := IteratorWrapper_Set D (tl_data_iter t) d \<rparr>"
    and "SetDataIterator D d (t\<lparr> tl_data_block_handle := h \<rparr>) =
      t\<lparr> tl_data_block_handle := h, tl_data_iter := IteratorWrapper_Set D (tl_data_iter t) d \<rparr>"
proof -
  have "IteratorWrapper_status D (tl_data_iter t) = Status_OK \<or> iw_iter (tl_data_iter t) = None"
    using assms list_iterator.wrapper_moves(6) [OF blocks] by (auto simp: data_ok_def)
  then show "SetDataIterator D d t = t\<lparr> tl_data_iter := IteratorWrapper_Set D (tl_data_iter t) d \<rparr>"
    and "SetDataIterator D d (t\<lparr> tl_data_block_handle := h \<rparr>) =
      t\<lparr> tl_data_block_handle := h, tl_data_iter := IteratorWrapper_Set D (tl_data_iter t) d \<rparr>"
    by (auto simp: SetDataIterator_def SaveError_def Let_def)
qed

lemma index_kept [simp]:
  "tl_index_iter (SetDataIterator D d t) = tl_index_iter t"
  "tl_index_iter (InitDataBlock I D block_function t) = tl_index_iter t"
  "tl_index_iter (on_data f t) = tl_index_iter t"
  "tl_index_iter (on_index g t) = g (tl_index_iter t)"
  by (simp_all add: SetDataIterator_def SaveError_def InitDataBlock_def on_data_def on_index_def Let_def)

lemma SetDataIterator_None:
  assumes "data_ok t" and "wrapper_on I idx_on (tl_index_iter t) q"
  shows "ended (SetDataIterator D None t)"
  using assms unfolding SetDataIterator_fields [OF assms(1)]
  by (auto simp: tl_end_def IteratorWrapper_Set_def data_ok_def)

lemma Init_at:
  assumes "data_ok t" and "wrapper_on I idx_on (tl_index_iter t) i" and "i < length ies" and "distinct (map snd ies)" and opens
  shows "\<exists>p. here (InitDataBlock I D block_function t) i p"
proof -
  have v: "iw_valid (tl_index_iter t)" "IteratorWrapper_value I (tl_index_iter t) = snd (ies ! i)"
    using list_iterator.wrapper_on_valid [OF index assms(2)] assms(3) by auto
  show ?thesis
  proof (cases "iw_iter (tl_data_iter t) \<noteq> None \<and> snd (ies ! i) = tl_data_block_handle t")
    case True
    then obtain k p where k: "k < length ies" "wrapper_on D (dons ! k) (tl_data_iter t) p" "snd (ies ! k) = snd (ies ! i)"
      using assms(1) by (auto simp: data_ok_def)
    then have "k = i" using nth_eq_iff_index_eq [OF assms(4), of k i] assms(3) by simp
    then show ?thesis using True v k(2) assms(1-3) by (auto simp: InitDataBlock_def tl_at_def data_ok_def)
  next
    case False
    obtain p where "(dons ! i) (block_function (snd (ies ! i))) p" using assms(3,5) by blast
    then have "wrapper_on D (dons ! i) (IteratorWrapper_Set D (tl_data_iter t) (Some (block_function (snd (ies ! i))))) p"
      using wrapper_coherent_methods(2) [of D "tl_data_iter t" "Some (block_function (snd (ies ! i)))"]
      by (auto simp: wrapper_on_def IteratorWrapper_Set_def IteratorWrapper_Update_def Let_def)
    moreover have "InitDataBlock I D block_function t = t\<lparr> tl_data_block_handle := snd (ies ! i),
        tl_data_iter := IteratorWrapper_Set D (tl_data_iter t) (Some (block_function (snd (ies ! i)))) \<rparr>"
      using False v SetDataIterator_fields(2) [OF assms(1)] by (auto simp: InitDataBlock_def Let_def)
    ultimately show ?thesis using assms(1-3) by (auto simp: tl_at_def data_ok_def)
  qed
qed

lemma Init_end:
  assumes "data_ok t" and "wrapper_on I idx_on (tl_index_iter t) (length ies)"
  shows "ended (InitDataBlock I D block_function t)"
  using SetDataIterator_None [OF assms] list_iterator.wrapper_on_valid(1) [OF index assms(2)] by (simp add: InitDataBlock_def)

lemma on_index_ok: "data_ok t \<Longrightarrow> data_ok (on_index f t)"
  by (simp add: data_ok_def on_index_def)

lemma on_data_at:
  assumes "here t i p" and "\<And>w. wrapper_on D (dons ! i) w p \<Longrightarrow> wrapper_on D (dons ! i) (f w) q"
  shows "here (on_data f t) i q"
  using assms by (auto simp: tl_at_def on_data_def wrapper_on_def)

lemma on_data_end: "ended t \<Longrightarrow> on_data f t = t"
  by (simp add: tl_end_def on_data_def)

text \<open>Moving the index and opening its block.\<close>

lemma move_index:
  assumes "data_ok t" and "wrapper_on I idx_on (f (tl_index_iter t)) i" and "i < length ies" and "distinct (map snd ies)" and opens
    and "\<And>w p. wrapper_on D (dons ! i) w p \<Longrightarrow> wrapper_on D (dons ! i) (g w) q"
  shows "here (on_data g (InitDataBlock I D block_function (on_index f t))) i q"
proof -
  have "wrapper_on I idx_on (tl_index_iter (on_index f t)) i" using assms(2) by (simp add: on_index_def)
  from Init_at [OF on_index_ok [OF assms(1)] this assms(3-5)] show ?thesis using on_data_at assms(6) by blast
qed

lemma move_index_end:
  assumes "data_ok t" and "wrapper_on I idx_on (f (tl_index_iter t)) (length ies)"
  shows "ended (on_data g (InitDataBlock I D block_function (on_index f t)))"
proof -
  have "wrapper_on I idx_on (tl_index_iter (on_index f t)) (length ies)" using assms(2) by (simp add: on_index_def)
  from Init_end [OF on_index_ok [OF assms(1)] this] show ?thesis by (simp add: on_data_end)
qed

lemma skip_end:
  assumes "ended t" and "wrapper_on I idx_on (tl_index_iter t) (length ies)" and "indexed Compare valid ies dss" and opens
  shows "tl_on Compare valid I D block_function ies dss idx_on dons (SkipEmptyDataBlocksForward I D block_function t) (length (concat dss))"
    and "tl_on Compare valid I D block_function ies dss idx_on dons (SkipEmptyDataBlocksBackward I D block_function t) (length (concat dss))"
proof -
  have "\<not> iw_valid (tl_index_iter t)" "iw_iter (tl_data_iter t) = None"
    using list_iterator.wrapper_on_valid(1) [OF index assms(2)] assms(1) by (auto simp: tl_end_def)
  moreover note SetDataIterator_None [OF data_okI(2) [OF assms(1)] assms(2)]
  ultimately show "tl_on Compare valid I D block_function ies dss idx_on dons (SkipEmptyDataBlocksForward I D block_function t) (length (concat dss))"
    and "tl_on Compare valid I D block_function ies dss idx_on dons (SkipEmptyDataBlocksBackward I D block_function t) (length (concat dss))"
    using assms(3,4) by (subst SkipEmptyDataBlocksForward.simps SkipEmptyDataBlocksBackward.simps, simp add: tl_on_def)+
qed

lemma at_valid:
  assumes "here t i p"
  shows "iw_iter (tl_data_iter t) \<noteq> None" and "iw_valid (tl_data_iter t) \<longleftrightarrow> p < length (dss ! i)" and "p \<le> length (dss ! i)"
    and "iw_valid (tl_index_iter t)" and "i < length ies"
proof -
  have w: "wrapper_on D (dons ! i) (tl_data_iter t) p" "wrapper_on I idx_on (tl_index_iter t) i" and i: "i < length ies"
    using assms by (auto simp: tl_at_def)
  show "iw_iter (tl_data_iter t) \<noteq> None" using w(1) by (auto simp: wrapper_on_def)
  show "iw_valid (tl_data_iter t) \<longleftrightarrow> p < length (dss ! i)" by (rule list_iterator.wrapper_on_valid(1) [OF blocks [OF i] w(1)])
  show "p \<le> length (dss ! i)" by (rule list_iterator.wrapper_moves(7) [OF blocks [OF i] w(1)])
  show "iw_valid (tl_index_iter t)" using list_iterator.wrapper_on_valid(1) [OF index w(2)] i by simp
  show "i < length ies" by (rule i)
qed

lemma skip_valid:
  assumes "here t i p" and "p < length (dss ! i)"
  shows "SkipEmptyDataBlocksForward I D block_function t = Some t" and "SkipEmptyDataBlocksBackward I D block_function t = Some t"
  using at_valid(1,2) [OF assms(1)] assms(2)
  by (subst SkipEmptyDataBlocksForward.simps SkipEmptyDataBlocksBackward.simps, auto)+

lemma skip_invalid:
  assumes "here t i p" and "\<not> p < length (dss ! i)"
  shows "SkipEmptyDataBlocksForward I D block_function t = SkipEmptyDataBlocksForward I D block_function
      (on_data (IteratorWrapper_SeekToFirst D) (InitDataBlock I D block_function (on_index (IteratorWrapper_Next I) t)))"
    and "SkipEmptyDataBlocksBackward I D block_function t = SkipEmptyDataBlocksBackward I D block_function
      (on_data (IteratorWrapper_SeekToLast D) (InitDataBlock I D block_function (on_index (IteratorWrapper_Prev I) t)))"
  using at_valid(2,4) [OF assms(1)] assms(2)
  by (subst SkipEmptyDataBlocksForward.simps SkipEmptyDataBlocksBackward.simps, simp)+

lemma tl_on_at:
  assumes "here t i p" and "p < length (dss ! i)" and "indexed Compare valid ies dss" and opens
  shows "tl_on Compare valid I D block_function ies dss idx_on dons (Some t) (base dss i + p)"
proof -
  have "i < length dss" using assms(1,3) by (simp add: tl_at_def indexed_def)
  from base_block [OF this] assms show ?thesis by (auto simp: tl_on_def)
qed

lemma skip_forward:
  assumes "here t i p" and "indexed Compare valid ies dss" and opens
  shows "tl_on Compare valid I D block_function ies dss idx_on dons (SkipEmptyDataBlocksForward I D block_function t) (base dss i + p)"
  using assms(1)
proof (induction "length ies - i" arbitrary: t i p)
  case 0
  then show ?case by (simp add: tl_at_def)
next
  case (Suc n)
  note v = at_valid [OF Suc(3)]
  have len: "length dss = length ies" "distinct (map snd ies)" using assms(2) by (simp_all add: indexed_def)
  show ?case
  proof (cases "p < length (dss ! i)")
    case True
    then show ?thesis using skip_valid(1) [OF Suc(3) True] tl_on_at [OF Suc(3) True assms(2,3)] by simp
  next
    case False
    let ?t = "on_data (IteratorWrapper_SeekToFirst D) (InitDataBlock I D block_function (on_index (IteratorWrapper_Next I) t))"
    have p: "base dss i + p = base dss (Suc i)" using False v len by simp
    note step = skip_invalid(1) [OF Suc(3) False]
    have idx: "wrapper_on I idx_on (IteratorWrapper_Next I (tl_index_iter t)) (Suc i)"
      using list_iterator.wrapper_moves(1) [OF index] Suc(3) by (simp add: tl_at_def)
    show ?thesis
    proof (cases "Suc i < length ies")
      case True
      have "here ?t (Suc i) 0"
        by (rule move_index [where f = "IteratorWrapper_Next I", OF data_okI(1) [OF Suc(3)] idx True len(2) assms(3)]) (rule list_iterator.wrapper_moves(4) [OF blocks [OF True]])
      from Suc(1) [OF _ this] Suc(2) show ?thesis unfolding step p by simp
    next
      case False
      then have n: "Suc i = length ies" using v(5) by simp
      note e = move_index_end [where f = "IteratorWrapper_Next I", OF data_okI(1) [OF Suc(3)] idx [unfolded n], of "IteratorWrapper_SeekToFirst D"]
      have "wrapper_on I idx_on (tl_index_iter ?t) (length ies)" using idx n by simp
      from skip_end(1) [OF e this assms(2,3)] show ?thesis unfolding step p using n len by (simp add: base_all)
    qed
  qed
qed

lemma skip_backward:
  assumes "here t i p" and "indexed Compare valid ies dss" and opens
  shows "tl_on Compare valid I D block_function ies dss idx_on dons (SkipEmptyDataBlocksBackward I D block_function t)
    (if p < length (dss ! i) then base dss i + p else if base dss i = 0 then length (concat dss) else base dss i - 1)"
  using assms(1)
proof (induction i arbitrary: t p)
  case 0
  note v = at_valid [OF 0]
  show ?case
  proof (cases "p < length (dss ! 0)")
    case True
    then show ?thesis using skip_valid(2) [OF 0 True] tl_on_at [OF 0 True assms(2,3)] True by simp
  next
    case False
    let ?t = "on_data (IteratorWrapper_SeekToLast D) (InitDataBlock I D block_function (on_index (IteratorWrapper_Prev I) t))"
    note step = skip_invalid(2) [OF 0 False]
    have idx: "wrapper_on I idx_on (IteratorWrapper_Prev I (tl_index_iter t)) (length ies)"
      using list_iterator.wrapper_moves(2) [OF index, of _ 0] 0 by (simp add: tl_at_def)
    note e = move_index_end [where f = "IteratorWrapper_Prev I", OF data_okI(1) [OF 0] idx, of "IteratorWrapper_SeekToLast D"]
    have "wrapper_on I idx_on (tl_index_iter ?t) (length ies)" using idx by simp
    from skip_end(2) [OF e this assms(2,3)] show ?thesis unfolding step using False by simp
  qed
next
  case (Suc i)
  note v = at_valid [OF Suc(2)]
  have len: "length dss = length ies" "distinct (map snd ies)" using assms(2) by (simp_all add: indexed_def)
  show ?case
  proof (cases "p < length (dss ! Suc i)")
    case True
    then show ?thesis using skip_valid(2) [OF Suc(2) True] tl_on_at [OF Suc(2) True assms(2,3)] True by simp
  next
    case False
    let ?t = "on_data (IteratorWrapper_SeekToLast D) (InitDataBlock I D block_function (on_index (IteratorWrapper_Prev I) t))"
    note step = skip_invalid(2) [OF Suc(2) False]
    have idx: "wrapper_on I idx_on (IteratorWrapper_Prev I (tl_index_iter t)) i"
      using list_iterator.wrapper_moves(2) [OF index, of _ "Suc i"] Suc(2) by (simp add: tl_at_def)
    have i: "i < length ies" using v(5) by simp
    have "here ?t i (length (dss ! i) - 1)"
      by (rule move_index [where f = "IteratorWrapper_Prev I", OF data_okI(1) [OF Suc(2)] idx i len(2) assms(3)]) (rule list_iterator.wrapper_moves(5) [OF blocks [OF i]])
    note last = Suc(1) [OF this]
    have "(if length (dss ! i) - 1 < length (dss ! i) then base dss i + (length (dss ! i) - 1)
        else if base dss i = 0 then length (concat dss) else base dss i - 1) =
      (if p < length (dss ! Suc i) then base dss (Suc i) + p else if base dss (Suc i) = 0 then length (concat dss) else base dss (Suc i) - 1)"
      using False i len by (cases "length (dss ! i)") auto
    from last [unfolded this] show ?thesis unfolding step .
  qed
qed

text \<open>Where the target falls among all entries: in the block its index entry leads to.\<close>

lemma seek_pos_concat:
  assumes x: "indexed Compare valid ies dss" and t: "valid target" and s: "sorted_wrt (\<lambda>a b. Compare a b < 0) (map fst ies)"
  defines "i \<equiv> seek_pos Compare target (map fst ies)"
  shows "seek_pos Compare target (map fst (concat dss)) =
    (if i < length ies then base dss i + seek_pos Compare target (map fst (dss ! i)) else length (concat dss))"
proof -
  have len: "length dss = length ies" and vi: "\<And>e. e \<in> set ies \<Longrightarrow> valid (fst e)" and ve: "\<And>e. e \<in> set (concat dss) \<Longrightarrow> valid (fst e)"
    and le: "\<And>k e. k < length ies \<Longrightarrow> e \<in> set (dss ! k) \<Longrightarrow> Compare (fst e) (fst (ies ! k)) \<le> 0"
    and gt: "\<And>k l e. k < length ies \<Longrightarrow> l < k \<Longrightarrow> e \<in> set (dss ! k) \<Longrightarrow> Compare (fst (ies ! l)) (fst e) < 0"
    using x unfolding indexed_def by blast+
  have before: "Compare (fst e) target < 0" if e: "e \<in> set (concat (take i dss))" for e
  proof -
    obtain k where k: "k < i" "k < length ies" "e \<in> set (dss ! k)" by (rule mem_concat_take [OF e, unfolded len])
    have lt: "Compare (fst (ies ! k)) target < 0"
      using seek_pos_less [of k Compare target "map fst ies"] k(1,2) by (simp add: i_def)
    have "e \<in> set (concat dss)" using k(2,3) len nth_mem [of k dss] by auto
    then show ?thesis using Compare_le_less_trans [OF _ _ _ le [OF k(2,3)] lt] ve vi k(2) t by simp
  qed
  show ?thesis
  proof (cases "i < length ies")
    case False
    then have "take i dss = dss" using len by simp
    with before have all: "takeWhile (\<lambda>k. Compare k target < 0) (map fst (concat dss)) = map fst (concat dss)" by auto
    show ?thesis unfolding seek_pos_def [of Compare target "map fst (concat dss)"] all using False by simp
  next
    case True
    have ge: "\<not> Compare (fst (ies ! i)) target < 0"
      using seek_pos_nth [of Compare target "map fst ies"] True by (simp add: i_def)
    have after: "\<not> Compare (fst e) target < 0" if e: "e \<in> set (concat (drop (Suc i) dss))" for e
    proof
      assume lt: "Compare (fst e) target < 0"
      obtain k where k: "i < k" "k < length ies" "e \<in> set (dss ! k)"
        by (rule mem_concat_drop [OF e, unfolded len Suc_le_eq])
      have "e \<in> set (concat dss)" using k(2,3) len nth_mem [of k dss] by auto
      then have "valid (fst e)" "valid (fst (ies ! i))" using ve vi True by auto
      from Compare_le_less_trans [OF this(2,1) t less_imp_le [OF gt [OF k(2,1,3)]] lt] ge show False by simp
    qed
    have split: "concat dss = concat (take i dss) @ dss ! i @ concat (drop (Suc i) dss)"
      by (subst id_take_nth_drop [of i dss]) (use True len in simp_all)
    have "takeWhile (\<lambda>k. Compare k target < 0) (map fst (concat dss)) =
      map fst (concat (take i dss)) @ takeWhile (\<lambda>k. Compare k target < 0) (map fst (dss ! i) @ map fst (concat (drop (Suc i) dss)))"
      unfolding split map_append by (rule takeWhile_append2) (use before in auto)
    also have "takeWhile (\<lambda>k. Compare k target < 0) (map fst (dss ! i) @ map fst (concat (drop (Suc i) dss))) =
      takeWhile (\<lambda>k. Compare k target < 0) (map fst (dss ! i))"
      by (rule takeWhile_append_none) (use after in auto)
    finally show ?thesis using True by (simp add: seek_pos_def [of Compare target "map fst (concat dss)"]
        seek_pos_def [of Compare target "map fst (dss ! i)"] base_def)
  qed
qed

lemma tl_on_cases:
  assumes "tl_on Compare valid I D block_function ies dss idx_on dons t j"
  obtains s where "t = Some s" and "data_ok s" and "\<exists>q. wrapper_on I idx_on (tl_index_iter s) q" and "indexed Compare valid ies dss" and opens
proof -
  from assms obtain s where "t = Some s" "indexed Compare valid ies dss" opens
      "(\<exists>i p. here s i p) \<or> ended s" by (auto simp: tl_on_def split: if_splits)
  moreover have "data_ok s" using calculation(4) data_okI by blast
  moreover have "\<exists>q. wrapper_on I idx_on (tl_index_iter s) q" using calculation(4) by (auto simp: tl_at_def tl_end_def)
  ultimately show ?thesis using that by blast
qed

lemma tl_on_position:
  assumes "tl_on Compare valid I D block_function ies dss idx_on dons t j" and "j < length (concat dss)"
  obtains s i p where "t = Some s" and "here s i p" and "p < length (dss ! i)" and "j = base dss i + p"
    and "indexed Compare valid ies dss" and opens
  using assms by (auto simp: tl_on_def)

lemma sorted_index: "\<exists>q. wrapper_on I idx_on w q \<Longrightarrow> sorted_wrt (\<lambda>a b. Compare a b < 0) (map fst ies)"
  using list_iterator.on_sorted [OF index] by (auto simp: wrapper_on_def)

text \<open>A move of the index followed by a move in its block.\<close>

lemma reposition_forward:
  assumes "data_ok s" and "wrapper_on I idx_on (f (tl_index_iter s)) i" and "indexed Compare valid ies dss" and opens
    and "\<And>w p. i < length ies \<Longrightarrow> wrapper_on D (dons ! i) w p \<Longrightarrow> wrapper_on D (dons ! i) (g w) q"
  shows "tl_on Compare valid I D block_function ies dss idx_on dons
    (SkipEmptyDataBlocksForward I D block_function (on_data g (InitDataBlock I D block_function (on_index f s))))
    (if i < length ies then base dss i + q else length (concat dss))"
proof (cases "i < length ies")
  case True
  have "distinct (map snd ies)" using assms(3) by (simp add: indexed_def)
  then have "here (on_data g (InitDataBlock I D block_function (on_index f s))) i q"
    by (rule move_index [where f = f, OF assms(1,2) True _ assms(4)]) (rule assms(5) [OF True])
  from skip_forward [OF this assms(3,4)] show ?thesis unfolding if_P [OF True] .
next
  case False
  then have n: "i = length ies" using list_iterator.wrapper_moves(7) [OF index assms(2)] by simp
  from skip_end(1) [OF move_index_end [where f = f, OF assms(1) assms(2) [unfolded n]] _ assms(3,4)] assms(2) n show ?thesis by simp
qed

lemma reposition_backward:
  assumes "data_ok s" and "wrapper_on I idx_on (f (tl_index_iter s)) i" and "indexed Compare valid ies dss" and opens
    and "\<And>w p. i < length ies \<Longrightarrow> wrapper_on D (dons ! i) w p \<Longrightarrow> wrapper_on D (dons ! i) (g w) q"
  shows "tl_on Compare valid I D block_function ies dss idx_on dons
    (SkipEmptyDataBlocksBackward I D block_function (on_data g (InitDataBlock I D block_function (on_index f s))))
    (if i < length ies then (if q < length (dss ! i) then base dss i + q
       else if base dss i = 0 then length (concat dss) else base dss i - 1) else length (concat dss))"
proof (cases "i < length ies")
  case True
  have "distinct (map snd ies)" using assms(3) by (simp add: indexed_def)
  then have "here (on_data g (InitDataBlock I D block_function (on_index f s))) i q"
    by (rule move_index [where f = f, OF assms(1,2) True _ assms(4)]) (rule assms(5) [OF True])
  from skip_backward [OF this assms(3,4)] show ?thesis unfolding if_P [OF True] .
next
  case False
  then have n: "i = length ies" using list_iterator.wrapper_moves(7) [OF index assms(2)] by simp
  from skip_end(2) [OF move_index_end [where f = f, OF assms(1) assms(2) [unfolded n]] _ assms(3,4)] assms(2) n show ?thesis by simp
qed

lemma two_level_list_iterator:
  "list_iterator (TwoLevel_methods I D block_function) Compare valid (concat dss) (tl_on Compare valid I D block_function ies dss idx_on dons)"
proof (unfold_locales, goal_cases)
  case (1 t j)
  then show ?case by (auto simp: tl_on_def split: if_splits)
next
  case (2 t j)
  then show ?case by (simp add: tl_on_def indexed_def)
next
  case (3 t j e)
  then show ?case unfolding tl_on_def indexed_def by blast
next
  case (4 t j)
  show ?case
  proof (cases "j < length (concat dss)")
    case True
    from tl_on_position [OF 4 True] obtain s i p where "t = Some s" "here s i p" "p < length (dss ! i)" .
    with at_valid(2) True show ?thesis by (simp add: TwoLevel_methods_def)
  next
    case False
    with 4 show ?thesis by (auto simp: tl_on_def TwoLevel_methods_def tl_end_def)
  qed
next
  case (5 t j)
  from tl_on_position [OF 5] obtain s i p where a: "t = Some s" "here s i p" "p < length (dss ! i)" "j = base dss i + p"
      "indexed Compare valid ies dss" .
  have i: "i < length ies" "i < length dss" "wrapper_on D (dons ! i) (tl_data_iter s) p" using a(2,5) by (auto simp: tl_at_def indexed_def)
  from list_iterator.wrapper_on_valid(2,3) [OF blocks [OF i(1)] i(3) a(3)] concat_nth [OF i(2) a(3)] a(1,4) show ?case
    by (simp add: TwoLevel_methods_def)
next
  case (6 t j)
  obtain s where s: "t = Some s" "data_ok s" "\<exists>q. wrapper_on I idx_on (tl_index_iter s) q" using tl_on_cases [OF 6] .
  have "IteratorWrapper_status I (tl_index_iter s) = Status_OK" using s(3) list_iterator.wrapper_moves(6) [OF index] by blast
  moreover have "iw_iter (tl_data_iter s) = None \<or> IteratorWrapper_status D (tl_data_iter s) = Status_OK"
    using s(2) list_iterator.wrapper_moves(6) [OF blocks] by (auto simp: data_ok_def)
  ultimately show ?case using s(1,2) by (auto simp: TwoLevel_methods_def TwoLevel_status_def data_ok_def)
next
  case (7 t j)
  from tl_on_position [OF 7] obtain s i p where a: "t = Some s" "here s i p" "p < length (dss ! i)" "j = base dss i + p"
      "indexed Compare valid ies dss" opens .
  then have i: "i < length ies" by (simp add: tl_at_def)
  have "here (s\<lparr> tl_data_iter := IteratorWrapper_Next D (tl_data_iter s) \<rparr>) i (Suc p)"
    using a(2,3) list_iterator.wrapper_moves(1) [OF blocks [OF i]] by (simp add: tl_at_def)
  from skip_forward [OF this a(5,6)] a(1,4) show ?case by (simp add: TwoLevel_methods_def TwoLevel_Next_def)
next
  case (8 t j)
  from tl_on_position [OF 8] obtain s i p where a: "t = Some s" "here s i p" "p < length (dss ! i)" "j = base dss i + p"
      "indexed Compare valid ies dss" opens .
  then have i: "i < length ies" by (simp add: tl_at_def)
  let ?p = "if p = 0 then length (dss ! i) else p - 1"
  have "here (s\<lparr> tl_data_iter := IteratorWrapper_Prev D (tl_data_iter s) \<rparr>) i ?p"
    using a(2,3) list_iterator.wrapper_moves(2) [OF blocks [OF i]] by (simp add: tl_at_def)
  from skip_backward [OF this a(5,6)]
  have "tl_on Compare valid I D block_function ies dss idx_on dons (it_Prev (TwoLevel_methods I D block_function) t)
    (if ?p < length (dss ! i) then base dss i + ?p else if base dss i = 0 then length (concat dss) else base dss i - 1)"
    using a(1) by (simp add: TwoLevel_methods_def TwoLevel_Prev_def)
  moreover have "(if ?p < length (dss ! i) then base dss i + ?p else if base dss i = 0 then length (concat dss) else base dss i - 1) =
      (if j = 0 then length (concat dss) else j - 1)" using a(3,4) by auto
  ultimately show ?case by simp
next
  case (9 t j)
  from tl_on_cases [OF 9] obtain s q where a: "t = Some s" "data_ok s" "wrapper_on I idx_on (tl_index_iter s) q" "indexed Compare valid ies dss" opens
    by blast
  note idx = list_iterator.wrapper_moves(4) [OF index a(3)]
  have len: "length dss = length ies" using a(4) by (simp add: indexed_def)
  have "tl_on Compare valid I D block_function ies dss idx_on dons (it_SeekToFirst (TwoLevel_methods I D block_function) t)
      (if 0 < length ies then base dss 0 + 0 else length (concat dss))"
    using reposition_forward [where f = "IteratorWrapper_SeekToFirst I", OF a(2) idx a(4,5), of "IteratorWrapper_SeekToFirst D" 0]
      list_iterator.wrapper_moves(4) [OF blocks] a(1) by (simp add: TwoLevel_methods_def TwoLevel_SeekToFirst_def)
  then show ?case using len by (cases ies) simp_all
next
  case (10 t j)
  from tl_on_cases [OF 10] obtain s q where a: "t = Some s" "data_ok s" "wrapper_on I idx_on (tl_index_iter s) q" "indexed Compare valid ies dss" opens
    by blast
  note idx = list_iterator.wrapper_moves(5) [OF index a(3)]
  let ?i = "length ies - 1" and ?q = "length (dss ! (length ies - 1)) - 1"
  have len: "length dss = length ies" using a(4) by (simp add: indexed_def)
  have "tl_on Compare valid I D block_function ies dss idx_on dons (it_SeekToLast (TwoLevel_methods I D block_function) t)
      (if ?i < length ies then (if ?q < length (dss ! ?i) then base dss ?i + ?q
         else if base dss ?i = 0 then length (concat dss) else base dss ?i - 1) else length (concat dss))"
    using reposition_backward [where f = "IteratorWrapper_SeekToLast I", OF a(2) idx a(4,5), of "IteratorWrapper_SeekToLast D" ?q]
      list_iterator.wrapper_moves(5) [OF blocks] a(1) by (simp add: TwoLevel_methods_def TwoLevel_SeekToLast_def)
  moreover have "(if ?i < length ies then (if ?q < length (dss ! ?i) then base dss ?i + ?q
         else if base dss ?i = 0 then length (concat dss) else base dss ?i - 1) else length (concat dss)) = length (concat dss) - 1"
  proof (cases "ies = []")
    case False
    then have "base dss ?i + length (dss ! ?i) = length (concat dss)" using base_Suc [of ?i dss] base_all [of dss "length ies"] len by simp
    from last_position [OF this] False show ?thesis by simp
  qed (use len in simp)
  ultimately show ?case by simp
next
  case (11 t j target)
  from tl_on_cases [OF 11(1)] obtain s q where a: "t = Some s" "data_ok s" "wrapper_on I idx_on (tl_index_iter s) q" "indexed Compare valid ies dss" opens
    by blast
  note idx = list_iterator.wrapper_moves(3) [OF index a(3) 11(2)]
  let ?i = "seek_pos Compare target (map fst ies)"
  have "tl_on Compare valid I D block_function ies dss idx_on dons (it_Seek (TwoLevel_methods I D block_function) t target)
      (if ?i < length ies then base dss ?i + seek_pos Compare target (map fst (dss ! ?i)) else length (concat dss))"
    using reposition_forward [where f = "\<lambda>w. IteratorWrapper_Seek I w target", OF a(2) idx a(4,5), of "\<lambda>w. IteratorWrapper_Seek D w target"]
      list_iterator.wrapper_moves(3) [OF blocks _ 11(2)] a(1) by (simp add: TwoLevel_methods_def TwoLevel_Seek_def)
  moreover have "sorted_wrt (\<lambda>a b. Compare a b < 0) (map fst ies)" using sorted_index a(3) by blast
  ultimately show ?case using seek_pos_concat [OF a(4) 11(2)] by simp
qed

text \<open>A new iterator is not valid.\<close>

lemma tl_on_new:
  assumes "idx_on it q" and "indexed Compare valid ies dss" and opens
  shows "tl_on Compare valid I D block_function ies dss idx_on dons (Some (TwoLevelIterator_new I it)) (length (concat dss))"
proof -
  have "wrapper_on I idx_on (IteratorWrapper_Set I IteratorWrapper_new (Some it)) q"
    using assms(1) wrapper_coherent_methods(2) [of I IteratorWrapper_new "Some it"]
    by (simp add: wrapper_on_def IteratorWrapper_Set_def IteratorWrapper_Update_def Let_def)
  with assms(2,3) show ?thesis by (auto simp: tl_on_def tl_end_def TwoLevelIterator_new_def IteratorWrapper_new_def)
qed

end

sublocale two_level \<subseteq> leveled: list_iterator "TwoLevel_methods I D block_function" Compare valid "concat dss"
    "tl_on Compare valid I D block_function ies dss idx_on dons"
  by (rule two_level_list_iterator)

end
