(* ===== verification/Table.thy ===== *)
theory Table
  imports Table_Builder Two_Level Dbformat
begin

text \<open>
  Reading a table, \<open>table/table.cc\<close>: opening the file, iterating over it through the index, and looking a
  key up with the help of the filter. The file is the function \<open>Read\<close>; blocks are read from it each time
  (\<open>options.block_cache\<close> is null). What was added to a table builder is what the table shows.
\<close>

section \<open>Operations\<close>

record ReadOptions =
  ro_verify_checksums :: bool
  ro_fill_cache :: bool

text \<open>A file to read from: \<open>file_Read\<close>, and whether it hands out its own memory.\<close>

record RandomFile =
  file_Read :: "u64 \<Rightarrow> nat \<Rightarrow> Status \<times> bytes"
  file_own_memory :: bool

record Table =
  tbl_options :: Options
  tbl_file :: RandomFile
  tbl_filter :: "FilterBlockReader option"
  tbl_metaindex_handle :: BlockHandle
  tbl_index_block :: Block

definition table_ReadBlock :: "RandomFile \<Rightarrow> Snappy \<Rightarrow> bool \<Rightarrow> BlockHandle \<Rightarrow> Status \<times> BlockContents" where
  "table_ReadBlock f snappy verify h = ReadBlock (file_Read f) (file_own_memory f) snappy verify h"

text \<open>\<open>meta->NewIterator(BytewiseComparator())\<close> and the other block iterators: an empty iterator with a
  status, or an iterator of the block.\<close>

definition block_methods :: "(bytes \<Rightarrow> bytes \<Rightarrow> int) \<Rightarrow> (Status + BlockIter) Iterator" where
  "block_methods Compare = sum_methods EmptyIterator (Block_Iter_methods Compare)"

definition ReadFilter :: "Snappy \<Rightarrow> Table \<Rightarrow> bytes \<Rightarrow> Table" where
  "ReadFilter snappy t filter_handle_value =
     (let (s, filter_handle, _) = BlockHandle_DecodeFrom BlockHandle_new filter_handle_value
      in if \<not> ok s then t
         else (let (s, contents) = table_ReadBlock (tbl_file t) snappy (opt_paranoid_checks (tbl_options t)) filter_handle
               in if \<not> ok s then t else t\<lparr> tbl_filter := Some (FilterBlockReader_new (bc_data contents)) \<rparr>))"

definition ReadMeta :: "Snappy \<Rightarrow> Table \<Rightarrow> Footer \<Rightarrow> Table" where
  "ReadMeta snappy t footer =
     (case opt_filter_policy (tbl_options t) of
        None \<Rightarrow> t
      | Some policy \<Rightarrow>
          (let (s, contents) = table_ReadBlock (tbl_file t) snappy (opt_paranoid_checks (tbl_options t)) (metaindex_handle footer)
           in if \<not> ok s then t
              else (let I = block_methods BytewiseCompare;
                        key = filter_key policy;
                        iter = it_Seek I (Block_NewIterator (Block_make (bc_data contents))) key
                    in if it_Valid I iter \<and> it_key I iter = key then ReadFilter snappy t (it_value I iter) else t)))"

definition Table_Open :: "Snappy \<Rightarrow> Options \<Rightarrow> RandomFile \<Rightarrow> u64 \<Rightarrow> Status \<times> Table option" where
  "Table_Open snappy options f sz =
     (if sz < of_nat Footer_kEncodedLength then (Corruption (str ''file is too short to be an sstable'') [], None)
      else (let (s, footer_input) = file_Read f (sz - of_nat Footer_kEncodedLength) Footer_kEncodedLength
            in if \<not> ok s then (s, None)
               else (let (s, footer, _) = Footer_DecodeFrom footer_input
                     in if \<not> ok s then (s, None)
                        else (let (s, contents) = table_ReadBlock f snappy (opt_paranoid_checks options) (index_handle footer)
                              in if ok s
                                 then (s, Some (ReadMeta snappy
                                        \<lparr> tbl_options = options, tbl_file = f, tbl_filter = None, tbl_metaindex_handle = metaindex_handle footer,
                                          tbl_index_block = Block_make (bc_data contents) \<rparr> footer))
                                 else (s, None)))))"

definition BlockReader :: "Snappy \<Rightarrow> Table \<Rightarrow> ReadOptions \<Rightarrow> bytes \<Rightarrow> Status + BlockIter" where
  "BlockReader snappy t options index_value =
     (let (s, handle, _) = BlockHandle_DecodeFrom BlockHandle_new index_value
      in if \<not> ok s then Inl (NewErrorIterator s)
         else (let (s, contents) = table_ReadBlock (tbl_file t) snappy (ro_verify_checksums options) handle
               in if ok s then Block_NewIterator (Block_make (bc_data contents)) else Inl (NewErrorIterator s)))"

type_synonym TableIterator = "(Status + BlockIter, Status + BlockIter) TwoLevelIterator option"

definition tbl_Compare :: "Table \<Rightarrow> bytes \<Rightarrow> bytes \<Rightarrow> int" where
  "tbl_Compare t = cmp_Compare (opt_comparator (tbl_options t))"

definition Table_NewIterator :: "Table \<Rightarrow> TableIterator" where
  "Table_NewIterator t = Some (TwoLevelIterator_new (block_methods (tbl_Compare t)) (Block_NewIterator (tbl_index_block t)))"

definition TableIterator_methods :: "Snappy \<Rightarrow> Table \<Rightarrow> ReadOptions \<Rightarrow> TableIterator Iterator" where
  "TableIterator_methods snappy t options =
     TwoLevel_methods (block_methods (tbl_Compare t)) (block_methods (tbl_Compare t)) (BlockReader snappy t options)"

text \<open>The result of \<open>InternalGet\<close>: the status and what the \<open>saver\<close> is called with, if it is called.\<close>

definition InternalGet :: "Snappy \<Rightarrow> Table \<Rightarrow> ReadOptions \<Rightarrow> bytes \<Rightarrow> Status \<times> (bytes \<times> bytes) option" where
  "InternalGet snappy t options k =
     (let I = block_methods (tbl_Compare t);
          iiter = it_Seek I (Block_NewIterator (tbl_index_block t)) k;
          (s, saved) =
            (if it_Valid I iiter
             then (let handle_value = it_value I iiter;
                       (hs, handle, _) = BlockHandle_DecodeFrom BlockHandle_new handle_value
                   in case (tbl_filter t, opt_filter_policy (tbl_options t)) of
                        (Some r, Some policy) \<Rightarrow>
                          if ok hs \<and> \<not> FilterBlock_KeyMayMatch (fp_KeyMayMatch policy) r (bh_offset handle) k then (Status_OK, None)
                          else (let block_iter = it_Seek I (BlockReader snappy t options handle_value) k
                                in (it_status I block_iter,
                                    if it_Valid I block_iter then Some (it_key I block_iter, it_value I block_iter) else None))
                      | _ \<Rightarrow>
                          (let block_iter = it_Seek I (BlockReader snappy t options handle_value) k
                           in (it_status I block_iter,
                               if it_Valid I block_iter then Some (it_key I block_iter, it_value I block_iter) else None)))
             else (Status_OK, None))
      in (if ok s then it_status I iiter else s, saved))"

definition ApproximateOffsetOf :: "Table \<Rightarrow> bytes \<Rightarrow> u64" where
  "ApproximateOffsetOf t key =
     (let I = block_methods (tbl_Compare t);
          index_iter = it_Seek I (Block_NewIterator (tbl_index_block t)) key
      in if it_Valid I index_iter
         then (let (s, handle, _) = BlockHandle_DecodeFrom BlockHandle_new (it_value I index_iter)
               in if ok s then bh_offset handle else bh_offset (tbl_metaindex_handle t))
         else bh_offset (tbl_metaindex_handle t))"

section \<open>Opening a finished table\<close>

definition reads :: "RandomFile \<Rightarrow> bytes \<Rightarrow> bool" where
  "reads f bs \<longleftrightarrow> (\<forall>off n. unat off \<le> length bs \<longrightarrow> file_Read f off n = (Status_OK, take n (drop (unat off) bs)))"

lemma table_ReadBlock_placed:
  assumes "reads f bs" and "placed snappy bs raw e" and "length bs < 2 ^ 64"
  obtains contents where "table_ReadBlock f snappy verify (handle_at e) = (Status_OK, contents)" and "bc_data contents = raw"
  using ReadBlock_stored [OF placed_stored [OF assms(2,3)], of "file_Read f" "file_own_memory f" verify] assms(1)
  by (auto simp: table_ReadBlock_def reads_def)

lemma BlockReader_placed:
  assumes "reads (tbl_file t) bs" and "placed snappy bs raw e" and "length bs < 2 ^ 64"
  shows "BlockReader snappy t options (BlockHandle_EncodeTo (handle_at e) []) = Block_NewIterator (Block_make raw)"
proof -
  obtain contents where "table_ReadBlock (tbl_file t) snappy (ro_verify_checksums options) (handle_at e) = (Status_OK, contents)" "bc_data contents = raw"
    by (rule table_ReadBlock_placed [OF assms])
  then show ?thesis using BlockHandle_DecodeFrom_Encode [of BlockHandle_new "handle_at e" "[]"]
    by (simp add: BlockReader_def ok_def Status_OK_def)
qed

lemma ReadMeta_layout:
  assumes "reads (tbl_file t) bs" and "length bs < 2 ^ 64" and "1 \<le> n" and "tbl_filter t = None"
    and "placed snappy bs (BlockBuilder_build n (meta_entries (tbl_options t) fe)) me"
    and "length (BlockBuilder_build n (meta_entries (tbl_options t) fe)) < 2 ^ 32"
    and "\<And>p. opt_filter_policy (tbl_options t) = Some p \<Longrightarrow> placed snappy bs (raw p) fe"
    and "metaindex_handle footer = handle_at me"
  shows "ReadMeta snappy t footer = t\<lparr> tbl_filter := map_option (\<lambda>p. FilterBlockReader_new (raw p)) (opt_filter_policy (tbl_options t)) \<rparr>"
proof (cases "opt_filter_policy (tbl_options t)")
  case None
  then show ?thesis using assms(4) by (simp add: ReadMeta_def)
next
  case (Some p)
  let ?es = "[(filter_key p, BlockHandle_EncodeTo (handle_at fe) [])]"
  have es: "meta_entries (tbl_options t) fe = ?es" using Some by (simp add: meta_entries_def)
  obtain contents where c: "table_ReadBlock (tbl_file t) snappy (opt_paranoid_checks (tbl_options t)) (metaindex_handle footer) = (Status_OK, contents)"
      "bc_data contents = BlockBuilder_build n ?es"
    using table_ReadBlock_placed [OF assms(1,5,2), unfolded es] assms(8) by metis
  obtain ts ridx it where b: "map snd ts = ?es" "Block_NewIterator (Block_make (BlockBuilder_build n ?es)) = Inr it"
      "block_on BytewiseCompare (\<lambda>_. True) ts ridx it (length ?es)"
    using BlockBuilder_build_on [OF assms(3) assms(6) [unfolded es], of BytewiseCompare "\<lambda>_. True", simplified] by (elim exE conjE) (rule that, simp_all)
  let ?I = "Block_Iter_methods BytewiseCompare"
  have pos: "seek_pos BytewiseCompare (filter_key p) (map fst (map snd ts)) = 0"
    using bytewise.Compare_self [of "filter_key p"] by (simp add: b(1) seek_pos_def)
  note seek = bytewise.block_iter.Seek_on [OF b(3) TrueI, of "filter_key p", unfolded pos]
  have v: "it_Valid ?I (it_Seek ?I it (filter_key p))"
      "(it_key ?I (it_Seek ?I it (filter_key p)), it_value ?I (it_Seek ?I it (filter_key p))) = (filter_key p, BlockHandle_EncodeTo (handle_at fe) [])"
    using bytewise.block_iter.Valid_on [OF seek] bytewise.block_iter.entry_on [OF seek] by (simp_all add: b(1))
  obtain contents2 where c2: "table_ReadBlock (tbl_file t) snappy (opt_paranoid_checks (tbl_options t)) (handle_at fe) = (Status_OK, contents2)"
      "bc_data contents2 = raw p"
    by (rule table_ReadBlock_placed [OF assms(1) assms(7) [OF Some] assms(2)])
  have "ReadFilter snappy t (BlockHandle_EncodeTo (handle_at fe) []) = t\<lparr> tbl_filter := Some (FilterBlockReader_new (raw p)) \<rparr>"
    using BlockHandle_DecodeFrom_Encode [of BlockHandle_new "handle_at fe" "[]"] c2 by (simp add: ReadFilter_def ok_def Status_OK_def)
  then show ?thesis using Some c b(2) v by (simp add: ReadMeta_def Let_def ok_def Status_OK_def block_methods_def sum_methods_def)
qed

lemma Table_Open_layout:
  assumes "table_layout Compare valid apart opt snappy bs segs ks fe me ie" and "reads f bs" and "length bs < 2 ^ 64"
    and "1 \<le> opt_block_restart_interval opt" and "length (BlockBuilder_build (opt_block_restart_interval opt) (meta_entries opt fe)) < 2 ^ 32"
  obtains t m where "Table_Open snappy opt f (of_nat (length bs)) = (Status_OK, Some t)" and "tbl_options t = opt" and "tbl_file t = f"
    and "tbl_metaindex_handle t = handle_at me"
    and "tbl_index_block t = Block_make (BlockBuilder_build 1 (index_entries ks segs))"
    and "tbl_filter t = map_option (\<lambda>p. FilterBlockReader_new (build_filter_block (fp_CreateFilter p) (filter_blocks segs m []))) (opt_filter_policy opt)"
    and "\<And>p. opt_filter_policy opt = Some p \<Longrightarrow> length (build_filter_block (fp_CreateFilter p) (filter_blocks segs m [])) \<le> length bs \<and>
      m \<le> length bs \<and> (\<forall>s \<in> set segs. fst (fst s) \<le> m)"
proof -
  let ?footer = "\<lparr> metaindex_handle = handle_at me, index_handle = handle_at ie \<rparr>"
  obtain pre where bs: "bs = pre @ Footer_EncodeTo ?footer []" using assms(1) by (auto simp: table_layout_def)
  have len: "length bs = length pre + 48" by (simp add: bs length_Footer_EncodeTo)
  have sz: "unat (of_nat (length bs) :: u64) = length bs" by (rule unat_of_nat_small) (use assms(3) in simp)
  have big: "\<not> of_nat (length bs) < (of_nat Footer_kEncodedLength :: u64)"
    using len sz by (simp add: word_less_nat_alt Footer_kEncodedLength_def BlockHandle_kMaxEncodedLength_def)
  have "unat (of_nat (length bs) - of_nat Footer_kEncodedLength :: u64) = length pre"
  proof -
    have "of_nat (length bs) - of_nat Footer_kEncodedLength = (of_nat (length pre) :: u64)"
      by (simp add: len Footer_kEncodedLength_def BlockHandle_kMaxEncodedLength_def)
    then show ?thesis using unat_of_nat_small [of "length pre", where 'a = 64] assms(3) len by simp
  qed
  then have read: "file_Read f (of_nat (length bs) - of_nat Footer_kEncodedLength) Footer_kEncodedLength = (Status_OK, Footer_EncodeTo ?footer [])"
    using assms(2) len unfolding reads_def
    by (simp add: bs Footer_kEncodedLength_def BlockHandle_kMaxEncodedLength_def length_Footer_EncodeTo)
  have dec: "Footer_DecodeFrom (Footer_EncodeTo ?footer []) = (Status_OK, ?footer, [])" using Footer_DecodeFrom_Encode [of ?footer "[]"] by simp
  obtain contents where c: "table_ReadBlock f snappy (opt_paranoid_checks opt) (handle_at ie) = (Status_OK, contents)"
      "bc_data contents = BlockBuilder_build 1 (index_entries ks segs)"
    by (rule table_ReadBlock_placed [OF assms(2) _ assms(3)]) (use assms(1) in \<open>auto simp: table_layout_def\<close>)
  let ?t = "\<lparr> tbl_options = opt, tbl_file = f, tbl_filter = None, tbl_metaindex_handle = handle_at me,
      tbl_index_block = Block_make (BlockBuilder_build 1 (index_entries ks segs)) \<rparr>"
  obtain m where m: "\<And>p. opt_filter_policy opt = Some p \<Longrightarrow> placed snappy bs (build_filter_block (fp_CreateFilter p) (filter_blocks segs m [])) fe \<and>
      length (build_filter_block (fp_CreateFilter p) (filter_blocks segs m [])) \<le> length bs \<and> m \<le> length bs \<and> (\<forall>s \<in> set segs. fst (fst s) \<le> m)"
    using assms(1) by (cases "opt_filter_policy opt") (auto simp: table_layout_def Let_def)
  have meta: "ReadMeta snappy ?t ?footer = ?t\<lparr> tbl_filter := map_option (\<lambda>p. FilterBlockReader_new (build_filter_block (fp_CreateFilter p) (filter_blocks segs m [])))
      (opt_filter_policy (tbl_options ?t)) \<rparr>"
    by (rule ReadMeta_layout [where bs = bs and fe = fe and me = me, OF _ assms(3,4)]) (use assms(1,2,5) m in \<open>auto simp: table_layout_def\<close>)
  have "Table_Open snappy opt f (of_nat (length bs)) = (Status_OK, Some (ReadMeta snappy ?t ?footer))"
    unfolding Table_Open_def Let_def read split_conv dec using big c by (simp add: ok_def Status_OK_def)
  then show ?thesis unfolding meta by (rule that) (use m in auto)
qed

section \<open>How large blocks get\<close>

definition entries_size :: "entries \<Rightarrow> nat" where
  "entries_size es = (\<Sum>e \<leftarrow> es. length (fst e) + length (snd e) + 19)"

lemma entries_size_append: "entries_size (xs @ ys) = entries_size xs + entries_size ys"
  by (simp add: entries_size_def)

lemma length_PutVarint32: "length (PutVarint32 dst v) \<le> length dst + 5"
  using length_varint_le [OF unat_u32_bound [of v]] by (simp add: coding_simps)

lemma BlockBuilder_Add_size:
  "length (bb_buffer (BlockBuilder_Add n b k v)) + 4 * length (bb_restarts (BlockBuilder_Add n b k v)) \<le>
    length (bb_buffer b) + 4 * length (bb_restarts b) + length k + length v + 19"
proof -
  obtain shared restarts counter where d: "(if bb_counter b < n then (diff_index (bb_last_key b) k, bb_restarts b, bb_counter b)
      else (0, bb_restarts b @ [length (bb_buffer b)], 0)) = (shared, restarts, counter)" by (metis prod_cases3)
  then have "length restarts \<le> Suc (length (bb_restarts b))" by (auto split: if_splits)
  moreover have "length (PutVarint32 (PutVarint32 (PutVarint32 (bb_buffer b) x) y) z) \<le> length (bb_buffer b) + 15" for x y z
    using length_PutVarint32 [of "bb_buffer b" x] length_PutVarint32 [of "PutVarint32 (bb_buffer b) x" y]
      length_PutVarint32 [of "PutVarint32 (PutVarint32 (bb_buffer b) x) y" z] by simp
  from this [of "of_nat shared" "of_nat (length k - shared)" "of_nat (length v)"]
  have "length (bb_buffer (BlockBuilder_Add n b k v)) \<le> length (bb_buffer b) + 15 + length k + length v"
    unfolding BlockBuilder_Add_def d Let_def by simp
  moreover have "bb_restarts (BlockBuilder_Add n b k v) = restarts" unfolding BlockBuilder_Add_def d Let_def by simp
  ultimately show ?thesis by simp
qed

lemma BlockBuilder_Adds_size:
  "length (bb_buffer (BlockBuilder_Adds n b es)) + 4 * length (bb_restarts (BlockBuilder_Adds n b es)) \<le>
    length (bb_buffer b) + 4 * length (bb_restarts b) + entries_size es"
proof (induction es rule: rev_induct)
  case (snoc e es)
  then show ?case using BlockBuilder_Add_size [of n "BlockBuilder_Adds n b es" "fst e" "snd e"] BlockBuilder_Adds_snoc [of n b es "fst e" "snd e"]
    by (simp add: entries_size_append entries_size_def)
qed (simp add: entries_size_def)

lemma length_BlockBuilder_build: "length (BlockBuilder_build n es) \<le> entries_size es + 8"
proof -
  let ?b = "BlockBuilder_Adds n BlockBuilder_new es"
  have "BlockBuilder_build n es = bb_buffer ?b @ concat (map (\<lambda>r. EncodeFixed32 (of_nat r)) (bb_restarts ?b)) @ EncodeFixed32 (of_nat (length (bb_restarts ?b)))"
    by (simp add: BlockBuilder_build_def BlockBuilder_Finish_def Let_def PutFixed32_def
        foldl_append_concat [where f = "\<lambda>buf r. buf @ EncodeFixed32 (of_nat r)"])
  then have "length (BlockBuilder_build n es) = length (bb_buffer ?b) + 4 * length (bb_restarts ?b) + 4" by (simp add: length_fixed32_array)
  with BlockBuilder_Adds_size [of n BlockBuilder_new es] show ?thesis by (simp add: BlockBuilder_new_def)
qed

lemma entries_size_segment: "s \<in> set segs \<Longrightarrow> entries_size (snd s) \<le> entries_size (concat (map snd segs))"
  by (induction segs) (auto simp: entries_size_append)

lemma entries_size_index:
  assumes "separated Compare valid apart ks (map snd segs) []" and "length ks = length segs" and "\<forall>s \<in> set segs. snd s \<noteq> []"
  shows "entries_size (index_entries ks segs) \<le> entries_size (concat (map snd segs)) + 20 * length segs"
proof -
  have "entries_size (index_entries ks segs) = (\<Sum>i < length segs. length (ks ! i) + length (BlockHandle_EncodeTo (handle_at (fst (segs ! i))) []) + 19)"
    using assms(2) by (simp add: entries_size_def index_entries_def sum_list_sum_nth atLeast0LessThan)
  also have "\<dots> \<le> (\<Sum>i < length segs. entries_size (snd (segs ! i)) + 20)"
  proof (rule sum_mono)
    fix i assume i: "i \<in> {..<length segs}"
    then have ne: "snd (segs ! i) \<noteq> []" using assms(3) by simp
    have "length (ks ! i) \<le> length (fst (last (snd (segs ! i))))" using assms(1,2) i by (auto simp: separated_def)
    moreover have "length (fst (last (snd (segs ! i)))) + 19 \<le> entries_size (snd (segs ! i))"
      using ne by (cases "snd (segs ! i)" rule: rev_cases) (simp_all add: entries_size_append entries_size_def)
    ultimately show "length (ks ! i) + length (BlockHandle_EncodeTo (handle_at (fst (segs ! i))) []) + 19 \<le> entries_size (snd (segs ! i)) + 20"
      using length_BlockHandle_EncodeTo [of "handle_at (fst (segs ! i))"] by simp
  qed
  also have "\<dots> = (\<Sum>s \<leftarrow> segs. entries_size (snd s) + 20)" by (simp add: sum_list_sum_nth atLeast0LessThan)
  also have "\<dots> = entries_size (concat (map snd segs)) + 20 * length segs" by (induction segs) (auto simp: entries_size_append entries_size_def)
  finally show ?thesis .
qed

lemma length_segments: "\<forall>s \<in> set segs. snd s \<noteq> [] \<Longrightarrow> 19 * length segs \<le> entries_size (concat (map snd segs))"
proof (induction segs)
  case (Cons s segs)
  then obtain e es where "snd s = e # es" by (cases "snd s") auto
  with Cons show ?case by (simp add: entries_size_append) (simp add: entries_size_def)
qed simp

section \<open>The table iterator\<close>

lemma mem_later:
  assumes "i < k" and "k < length xss" and "e \<in> set (xss ! k)"
  shows "e \<in> set (concat (drop (Suc i) xss))"
proof -
  have "xss ! k = drop (Suc i) xss ! (k - Suc i)" "k - Suc i < length (drop (Suc i) xss)" using assms(1,2) by simp_all
  then have "xss ! k \<in> set (drop (Suc i) xss)" using nth_mem by metis
  then show ?thesis using assms(3) by auto
qed

lemma BlockHandle_EncodeTo_inject: "BlockHandle_EncodeTo a [] = BlockHandle_EncodeTo b [] \<Longrightarrow> a = b"
  using BlockHandle_DecodeFrom_Encode [of BlockHandle_new a "[]"] BlockHandle_DecodeFrom_Encode [of BlockHandle_new b "[]"] by simp

context comparator
begin

lemma layout_index_sorted:
  assumes "table_layout Compare valid apart opt snappy bs segs ks fe me ie"
  shows "sorted_wrt (\<lambda>a b. Compare a b < 0) ks"
proof -
  have l: "length ks = length segs" "separated Compare valid apart ks (map snd segs) []" "\<And>s. s \<in> set segs \<Longrightarrow> snd s \<noteq> []"
      "\<And>e. e \<in> set (concat (map snd segs)) \<Longrightarrow> valid (fst e)"
    using assms by (auto simp: table_layout_def segments_ok_def)
  show ?thesis unfolding sorted_wrt_iff_nth_less
  proof (intro allI impI)
    fix i j assume ij: "i < j" "j < length ks"
    have sj: "segs ! j \<in> set segs" using ij l(1) by simp
    then obtain e where e: "e \<in> set (snd (segs ! j))" using l(3) by (meson last_in_set)
    have "e \<in> set (concat (drop (Suc i) (map snd segs)))" by (rule mem_later [OF ij(1)]) (use ij l(1) e in simp_all)
    then have less: "Compare (ks ! i) (fst e) < 0" using l(2) ij unfolding separated_def by auto
    have le: "Compare (fst e) (ks ! j) \<le> 0" and v: "valid (ks ! i)" "valid (ks ! j)"
      using l(1,2) ij e unfolding separated_def by auto
    have "e \<in> set (concat (map snd segs))" using e by (auto intro!: bexI [OF _ sj])
    then have "valid (fst e)" by (rule l(4))
    then show "Compare (ks ! i) (ks ! j) < 0" using Compare_less_le_trans [OF v(1) _ v(2) less le] by simp
  qed
qed

lemma layout_indexed:
  assumes "table_layout Compare valid apart opt snappy bs segs ks fe me ie" and "length bs < 2 ^ 64"
  shows "indexed Compare valid (index_entries ks segs) (map snd segs)"
proof -
  have l: "length ks = length segs" "separated Compare valid apart ks (map snd segs) []" "sorted_wrt (\<lambda>a b. fst (fst a) < fst (fst b)) segs"
      "sorted_wrt (\<lambda>a b. Compare a b < 0) (map fst (concat (map snd segs)))" "\<forall>e \<in> set (concat (map snd segs)). valid (fst e)"
      "\<And>s. s \<in> set segs \<Longrightarrow> placed snappy bs (BlockBuilder_build (opt_block_restart_interval opt) (snd s)) (fst s)"
    using assms(1) by (auto simp: table_layout_def segments_ok_def)
  have small: "fst (fst s) < 2 ^ 64" if "s \<in> set segs" for s using placed_bound [OF l(6) [OF that]] assms(2) by simp
  have inj: "inj_on (\<lambda>s. BlockHandle_EncodeTo (handle_at (fst s)) []) (set segs)"
  proof (rule inj_onI)
    fix a b assume ab: "a \<in> set segs" "b \<in> set segs" "BlockHandle_EncodeTo (handle_at (fst a)) [] = BlockHandle_EncodeTo (handle_at (fst b)) []"
    then have "handle_at (fst a) = handle_at (fst b)" by (blast dest: BlockHandle_EncodeTo_inject)
    then have eq: "(of_nat (fst (fst a)) :: u64) = of_nat (fst (fst b))" by (simp add: handle_at_def)
    have "unat (of_nat (fst (fst s)) :: u64) = fst (fst s)" if "s \<in> set segs" for s
      by (rule unat_of_nat_small) (use small [OF that] in simp)
    from this [OF ab(1)] this [OF ab(2)] eq have "fst (fst a) = fst (fst b)" by metis
    moreover obtain i j where ij: "i < length segs" "a = segs ! i" "j < length segs" "b = segs ! j" using ab(1,2) by (metis in_set_conv_nth)
    ultimately show "a = b" using l(3) unfolding sorted_wrt_iff_nth_less by (metis linorder_neqE_nat less_irrefl)
  qed
  have "distinct segs" using l(3) by (metis (no_types, lifting) distinct_conv_nth linorder_neqE_nat less_irrefl sorted_wrt_iff_nth_less)
  then have "distinct (map snd (index_entries ks segs))" using inj l(1) by (simp add: index_entries_def distinct_map)
  moreover have nth: "fst (index_entries ks segs ! i) = ks ! i" if "i < length segs" for i using that l(1) by (simp add: index_entries_def)
  have sep: "valid (ks ! i)" "e \<in> set (map snd segs ! i) \<Longrightarrow> Compare (fst e) (ks ! i) \<le> 0"
      "e \<in> set (concat (drop (Suc i) (map snd segs))) \<Longrightarrow> Compare (ks ! i) (fst e) < 0" if "i < length segs" for i e
    using l(1,2) that unfolding separated_def append_Nil2 by (metis, metis, metis)
  moreover have "\<forall>e \<in> set (index_entries ks segs). valid (fst e)"
  proof
    fix e assume "e \<in> set (index_entries ks segs)"
    then have "fst e \<in> set ks" using set_zip_leftD [of "fst e" "snd e" ks] by (simp add: index_entries_def)
    then show "valid (fst e)" using sep(1) l(1) by (metis in_set_conv_nth)
  qed
  moreover have len: "length (index_entries ks segs) = length segs" using l(1) by (simp add: index_entries_def)
  moreover have "\<forall>k < length segs. \<forall>i < k. \<forall>e \<in> set (map snd segs ! k). Compare (fst (index_entries ks segs ! i)) (fst e) < 0"
    using nth sep(3) mem_later [of _ _ "map snd segs"] by simp
  ultimately show ?thesis unfolding indexed_def len using l(4,5) by (intro conjI) (simp_all add: nth)
qed

lemma block_methods_list_iterator:
  "list_iterator (block_methods Compare) Compare valid (map snd ts) (right_on (block_on Compare valid ts ridx))"
  unfolding block_methods_def by (rule sum_list_iterator [OF block_list_iterator])

end

text \<open>The blocks of a table and its index: each index entry with the layout of its block.\<close>

type_synonym table_blocks = "((bytes \<times> bytes) \<times> block_entry list \<times> nat list) list"

definition index_on ::
    "(bytes \<Rightarrow> bytes \<Rightarrow> int) \<Rightarrow> (bytes \<Rightarrow> bool) \<Rightarrow> table_blocks \<Rightarrow> block_entry list \<Rightarrow> nat list \<Rightarrow> Status + BlockIter \<Rightarrow> nat \<Rightarrow> bool" where
  "index_on Compare valid xs its iridx it j \<longleftrightarrow> map snd its = map fst xs \<and> right_on (block_on Compare valid its iridx) it j"

sublocale comparator \<subseteq> table_iter: two_level Compare valid "block_methods Compare" "block_methods Compare" block_function
    "map fst xs" "map (\<lambda>x. map snd (fst (snd x))) xs" "index_on Compare valid xs its iridx"
    "map (\<lambda>x. right_on (block_on Compare valid (fst (snd x)) (snd (snd x)))) xs" for block_function xs its iridx
proof (intro two_level.intro two_level_axioms.intro comparator_axioms)
  show "list_iterator (block_methods Compare) Compare valid (map fst xs) (index_on Compare valid xs its iridx)"
  proof (cases "map snd its = map fst xs")
    case True
    then have "index_on Compare valid xs its iridx = right_on (block_on Compare valid its iridx)" by (simp add: index_on_def fun_eq_iff)
    with block_methods_list_iterator [of its iridx] True show ?thesis by simp
  next
    case False
    then show ?thesis by unfold_locales (simp_all add: index_on_def)
  qed
qed (simp add: block_methods_list_iterator)

text \<open>What the filter says of the block at an offset; without a filter every block may hold the key.\<close>

definition may_match :: "Table \<Rightarrow> bytes \<Rightarrow> u64 \<Rightarrow> bool" where
  "may_match t k off =
     (case (tbl_filter t, opt_filter_policy (tbl_options t)) of
        (Some r, Some p) \<Rightarrow> FilterBlock_KeyMayMatch (fp_KeyMayMatch p) r off k
      | _ \<Rightarrow> True)"

context comparator
begin

abbreviation table_on :: "(bytes \<Rightarrow> Status + BlockIter) \<Rightarrow> table_blocks \<Rightarrow> block_entry list \<Rightarrow> nat list \<Rightarrow> TableIterator \<Rightarrow> nat \<Rightarrow> bool" where
  "table_on block_function xs its iridx \<equiv> tl_on Compare valid (block_methods Compare) (block_methods Compare) block_function
     (map fst xs) (map (\<lambda>x. map snd (fst (snd x))) xs) (index_on Compare valid xs its iridx)
     (map (\<lambda>x. right_on (block_on Compare valid (fst (snd x)) (snd (snd x)))) xs)"

text \<open>The data blocks and the index block of a finished table, as iterators see them.\<close>

lemma layout_blocks:
  assumes "table_layout Compare valid apart opt snappy bs segs ks fe me ie" and "reads (tbl_file t) bs" and "length bs < 2 ^ 64"
    and "1 \<le> opt_block_restart_interval opt" and "3 * entries_size (concat (map snd segs)) + 64 < 2 ^ 32"
    and "tbl_index_block t = Block_make (BlockBuilder_build 1 (index_entries ks segs))"
  obtains xs its iridx where "map fst xs = index_entries ks segs" and "map (\<lambda>x. map snd (fst (snd x))) xs = map snd segs"
    and "\<And>i. i < length xs \<Longrightarrow> right_on (block_on Compare valid (fst (snd (xs ! i))) (snd (snd (xs ! i))))
      (BlockReader snappy t options (snd (fst (xs ! i)))) (length (snd (segs ! i)))"
    and "index_on Compare valid xs its iridx (Block_NewIterator (tbl_index_block t)) (length xs)"
proof -
  let ?n = "opt_block_restart_interval opt" and ?es = "concat (map snd segs)"
  have l: "length ks = length segs" "separated Compare valid apart ks (map snd segs) []" "\<forall>s \<in> set segs. snd s \<noteq> []"
      "\<And>s. s \<in> set segs \<Longrightarrow> placed snappy bs (BlockBuilder_build ?n (snd s)) (fst s)"
    using assms(1) by (auto simp: table_layout_def segments_ok_def)
  note x = layout_indexed [OF assms(1,3)]
  have len: "length (index_entries ks segs) = length segs" using l(1) by (simp add: index_entries_def)
  have "\<exists>ts ridx. map snd ts = snd (segs ! i) \<and> right_on (block_on Compare valid ts ridx)
      (BlockReader snappy t options (snd (index_entries ks segs ! i))) (length (snd (segs ! i)))" if i: "i < length segs" for i
  proof -
    have s: "segs ! i \<in> set segs" using i by simp
    have small: "length (BlockBuilder_build ?n (snd (segs ! i))) < 2 ^ 32"
      using length_BlockBuilder_build [of ?n "snd (segs ! i)"] entries_size_segment [OF s] assms(5) by simp
    have "i < length (map snd segs)" using i by simp
    from indexed_block_sorted [OF x this]
    obtain ts ridx it where "map snd ts = snd (segs ! i)" "Block_NewIterator (Block_make (BlockBuilder_build ?n (snd (segs ! i)))) = Inr it"
        "block_on Compare valid ts ridx it (length (snd (segs ! i)))"
      using BlockBuilder_build_on [OF assms(4) small, of Compare valid] i by auto
    moreover have "snd (index_entries ks segs ! i) = BlockHandle_EncodeTo (handle_at (fst (segs ! i))) []" using i l(1) by (simp add: index_entries_def)
    ultimately show ?thesis using BlockReader_placed [OF assms(2) l(4) [OF s] assms(3), of options] by (auto simp: right_on_def)
  qed
  then obtain ts ridx where b: "\<And>i. i < length segs \<Longrightarrow> map snd (ts i) = snd (segs ! i) \<and> right_on (block_on Compare valid (ts i) (ridx i))
      (BlockReader snappy t options (snd (index_entries ks segs ! i))) (length (snd (segs ! i)))" by metis
  define xs where "xs = map (\<lambda>i. (index_entries ks segs ! i, ts i, ridx i)) [0..<length segs]"
  have "map (\<lambda>i. index_entries ks segs ! i) [0..<length segs] = index_entries ks segs" by (metis len map_nth)
  then have xs1: "map fst xs = index_entries ks segs" by (simp add: xs_def o_def)
  have xs2: "map (\<lambda>x. map snd (fst (snd x))) xs = map snd segs"
    by (rule nth_equalityI) (use b in \<open>simp_all add: xs_def\<close>)
  have "length xs = length segs" by (simp add: xs_def)
  note xs = xs1 xs2 this
  have "length (BlockBuilder_build 1 (index_entries ks segs)) < 2 ^ 32"
    using length_BlockBuilder_build [of 1 "index_entries ks segs"] entries_size_index [OF l(2,1,3)] length_segments [OF l(3)] assms(5) by simp
  moreover have "sorted_wrt (\<lambda>a b. Compare a b < 0) (map fst (index_entries ks segs))"
    using layout_index_sorted [OF assms(1)] l(1) by (simp add: index_entries_def)
  moreover have "\<forall>e \<in> set (index_entries ks segs). valid (fst e)" using x by (simp add: indexed_def)
  ultimately obtain its iridx it where "map snd its = index_entries ks segs" "Block_NewIterator (Block_make (BlockBuilder_build 1 (index_entries ks segs))) = Inr it"
      "block_on Compare valid its iridx it (length (index_entries ks segs))"
    using BlockBuilder_build_on [of 1 "index_entries ks segs" Compare valid] by auto
  then have on: "index_on Compare valid xs its iridx (Block_NewIterator (tbl_index_block t)) (length xs)"
    using xs len by (simp add: index_on_def right_on_def assms(6))
  show ?thesis by (rule that [OF xs(1,2) _ on]) (use b in \<open>simp add: xs_def\<close>)
qed

lemma table_on_new:
  assumes "table_layout Compare valid apart opt snappy bs segs ks fe me ie" and "reads (tbl_file t) bs" and "length bs < 2 ^ 64"
    and "1 \<le> opt_block_restart_interval opt" and "3 * entries_size (concat (map snd segs)) + 64 < 2 ^ 32"
    and "tbl_index_block t = Block_make (BlockBuilder_build 1 (index_entries ks segs))" and "tbl_Compare t = Compare"
  obtains xs its iridx where "map (\<lambda>x. map snd (fst (snd x))) xs = map snd segs"
    and "table_on (BlockReader snappy t options) xs its iridx (Table_NewIterator t) (length (concat (map snd segs)))"
proof -
  obtain xs its iridx where xs: "map fst xs = index_entries ks segs" "map (\<lambda>x. map snd (fst (snd x))) xs = map snd segs"
      "\<And>i. i < length xs \<Longrightarrow> right_on (block_on Compare valid (fst (snd (xs ! i))) (snd (snd (xs ! i))))
        (BlockReader snappy t options (snd (fst (xs ! i)))) (length (snd (segs ! i)))"
      "index_on Compare valid xs its iridx (Block_NewIterator (tbl_index_block t)) (length xs)"
    by (rule layout_blocks [OF assms(1-6), where options = options]) blast
  have "table_on (BlockReader snappy t options) xs its iridx (Table_NewIterator t) (length (concat (map (\<lambda>x. map snd (fst (snd x))) xs)))"
    unfolding Table_NewIterator_def assms(7)
  proof (rule table_iter.tl_on_new [OF xs(4)])
    show "indexed Compare valid (map fst xs) (map (\<lambda>x. map snd (fst (snd x))) xs)" using layout_indexed [OF assms(1,3)] by (simp add: xs(1,2))
  qed (use xs(3) in auto)
  then show ?thesis using that xs(2) by simp
qed

lemma InternalGet_layout:
  assumes "table_layout Compare valid apart opt snappy bs segs ks fe me ie" and "reads (tbl_file t) bs" and "length bs < 2 ^ 64"
    and "1 \<le> opt_block_restart_interval opt" and "3 * entries_size (concat (map snd segs)) + 64 < 2 ^ 32"
    and "tbl_index_block t = Block_make (BlockBuilder_build 1 (index_entries ks segs))" and "tbl_Compare t = Compare" and "valid k"
  defines "i \<equiv> seek_pos Compare k ks"
  defines "p \<equiv> seek_pos Compare k (map fst (snd (segs ! i)))"
  shows "InternalGet snappy t options k = (Status_OK, if i < length segs \<and> may_match t k (of_nat (fst (fst (segs ! i)))) \<and> p < length (snd (segs ! i))
      then Some (snd (segs ! i) ! p) else None)"
    and "seek_pos Compare k (map fst (concat (map snd segs))) =
      (if i < length segs then base (map snd segs) i + p else length (concat (map snd segs)))"
proof -
  obtain xs its iridx where xs: "map fst xs = index_entries ks segs" "map (\<lambda>x. map snd (fst (snd x))) xs = map snd segs"
      "\<And>i. i < length xs \<Longrightarrow> right_on (block_on Compare valid (fst (snd (xs ! i))) (snd (snd (xs ! i))))
        (BlockReader snappy t options (snd (fst (xs ! i)))) (length (snd (segs ! i)))"
      "index_on Compare valid xs its iridx (Block_NewIterator (tbl_index_block t)) (length xs)"
    by (rule layout_blocks [OF assms(1-6), where options = options]) blast
  have l: "length ks = length segs" using assms(1) by (simp add: table_layout_def)
  have len: "length xs = length segs" using arg_cong [OF xs(2), of length] by simp
  have ks: "map fst (index_entries ks segs) = ks" using l by (simp add: index_entries_def)
  let ?I = "block_methods Compare"
  define it where "it = it_Seek ?I (Block_NewIterator (tbl_index_block t)) k"
  have on: "index_on Compare valid xs its iridx it i"
    using list_iterator.Seek_on [OF table_iter.index xs(4) assms(8)] unfolding it_def i_def xs(1) ks .
  have st: "it_status ?I it = Status_OK" and v: "it_Valid ?I it \<longleftrightarrow> i < length segs"
    using list_iterator.status_on [OF table_iter.index on] list_iterator.Valid_on [OF table_iter.index on] len by simp_all
  show pos: "seek_pos Compare k (map fst (concat (map snd segs))) =
      (if i < length segs then base (map snd segs) i + p else length (concat (map snd segs)))"
    using table_iter.seek_pos_concat [where xs = xs, unfolded xs(1,2) ks, OF layout_indexed [OF assms(1,3)] assms(8) layout_index_sorted [OF assms(1)]] l
    by (simp add: i_def [symmetric] p_def index_entries_def)
  show "InternalGet snappy t options k = (Status_OK, if i < length segs \<and> may_match t k (of_nat (fst (fst (segs ! i)))) \<and> p < length (snd (segs ! i))
      then Some (snd (segs ! i) ! p) else None)"
  proof (cases "i < length segs")
    case False
    then show ?thesis using st v unfolding InternalGet_def assms(7) Let_def it_def [symmetric] by (simp add: ok_def Status_OK_def)
  next
    case True
    have ix: "fst (xs ! i) = index_entries ks segs ! i" using xs(1) True len by (metis nth_map)
    have ent: "snd (index_entries ks segs ! i) = BlockHandle_EncodeTo (handle_at (fst (segs ! i))) []" using True l by (simp add: index_entries_def)
    have val: "it_value ?I it = BlockHandle_EncodeTo (handle_at (fst (segs ! i))) []"
      using list_iterator.entry_on [OF table_iter.index on] True len ix ent xs(1) by (metis length_map snd_conv)
    define b where "b = it_Seek ?I (BlockReader snappy t options (BlockHandle_EncodeTo (handle_at (fst (segs ! i))) [])) k"
    let ?ts = "fst (snd (xs ! i))" and ?ridx = "snd (snd (xs ! i))"
    have ts: "map snd ?ts = snd (segs ! i)" using arg_cong [OF xs(2), of "\<lambda>l. l ! i"] True len by simp
    note inst = block_methods_list_iterator [of ?ts ?ridx, unfolded ts]
    have "i < length xs" using True len by simp
    note bon = list_iterator.Seek_on [OF inst xs(3) [OF this, unfolded ix ent] assms(8), folded b_def p_def]
    have bst: "it_status ?I b = Status_OK" and bv: "it_Valid ?I b \<longleftrightarrow> p < length (snd (segs ! i))"
        and be: "p < length (snd (segs ! i)) \<Longrightarrow> (it_key ?I b, it_value ?I b) = snd (segs ! i) ! p"
      using list_iterator.status_on [OF inst bon] list_iterator.Valid_on [OF inst bon] list_iterator.entry_on [OF inst bon] by simp_all
    have dec: "BlockHandle_DecodeFrom BlockHandle_new (BlockHandle_EncodeTo (handle_at (fst (segs ! i))) []) = (Status_OK, handle_at (fst (segs ! i)), [])"
      using BlockHandle_DecodeFrom_Encode [of BlockHandle_new "handle_at (fst (segs ! i))" "[]"] by simp
    have off: "bh_offset (handle_at (fst (segs ! i))) = of_nat (fst (fst (segs ! i)))" by (simp add: handle_at_def)
    show ?thesis unfolding InternalGet_def assms(7) Let_def it_def [symmetric] val dec b_def [symmetric] split_conv
      using st v True bst bv be off by (auto simp: may_match_def ok_def Status_OK_def split: option.splits)
  qed
qed

lemma seek_pos_InternalGet:
  assumes "table_layout Compare valid apart opt snappy bs segs ks fe me ie" and "reads (tbl_file t) bs" and "length bs < 2 ^ 64"
    and "1 \<le> opt_block_restart_interval opt" and "3 * entries_size (concat (map snd segs)) + 64 < 2 ^ 32"
    and "tbl_index_block t = Block_make (BlockBuilder_build 1 (index_entries ks segs))" and "tbl_Compare t = Compare" and "valid k"
  defines "es \<equiv> concat (map snd segs)"
  defines "j \<equiv> seek_pos Compare k (map fst es)"
  shows "fst (InternalGet snappy t options k) = Status_OK"
    and "snd (InternalGet snappy t options k) = Some e \<Longrightarrow> j < length es \<and> e = es ! j"
    and "j < length es \<Longrightarrow> snd (InternalGet snappy t options k) = None \<Longrightarrow>
      (\<exists>s \<in> set segs. es ! j \<in> set (snd s) \<and> \<not> may_match t k (of_nat (fst (fst s)))) \<or>
      (\<exists>a s. apart a s (fst (es ! j)) \<and> valid a \<and> valid s \<and> Compare a k < 0 \<and> Compare k s \<le> 0)"
proof -
  let ?i = "seek_pos Compare k ks"
  let ?p = "seek_pos Compare k (map fst (snd (segs ! ?i)))"
  note get = InternalGet_layout(1) [OF assms(1-8), of options] InternalGet_layout(2) [OF assms(1-8)]
  note l = layout_indexed [OF assms(1,3)] layout_index_sorted [OF assms(1)]
  have len: "length ks = length segs" and sep: "separated Compare valid apart ks (map snd segs) []" and ne: "\<forall>s \<in> set segs. snd s \<noteq> []"
      and v: "\<forall>e \<in> set (concat (map snd segs)). valid (fst e)" using assms(1) by (auto simp: table_layout_def segments_ok_def)
  have mem: "?p < length (snd (segs ! ?i)) \<Longrightarrow> ?i < length segs \<Longrightarrow> es ! j = snd (segs ! ?i) ! ?p \<and> j < length es"
    using concat_nth [of ?i "map snd segs" ?p] base_block [of ?i "map snd segs"] get(2) by (simp add: es_def j_def)
  show "fst (InternalGet snappy t options k) = Status_OK" by (simp add: get(1))
  show "j < length es \<and> e = es ! j" if "snd (InternalGet snappy t options k) = Some e"
    using that mem by (simp add: get(1) split: if_splits)
  show "(\<exists>s \<in> set segs. es ! j \<in> set (snd s) \<and> \<not> may_match t k (of_nat (fst (fst s)))) \<or>
      (\<exists>a s. apart a s (fst (es ! j)) \<and> valid a \<and> valid s \<and> Compare a k < 0 \<and> Compare k s \<le> 0)"
    if j: "j < length es" and none: "snd (InternalGet snappy t options k) = None"
  proof (cases "?p < length (snd (segs ! ?i))")
    case True
    have i: "?i < length segs" using j get(2) by (auto simp: es_def j_def split: if_splits)
    then have "\<not> may_match t k (of_nat (fst (fst (segs ! ?i))))" using none True by (simp add: get(1) split: if_splits)
    then show ?thesis using mem [OF True i] True nth_mem [OF i] by (intro disjI1 bexI [of _ "segs ! ?i"]) simp_all
  next
    case False
    have i: "?i < length segs" using j get(2) by (auto simp: es_def j_def split: if_splits)
    have p: "?p = length (snd (segs ! ?i))" using False seek_pos_le_map [of Compare k fst "snd (segs ! ?i)"] by simp
    have j': "j = base (map snd segs) (Suc ?i)" using get(2) i p by (simp add: es_def j_def)
    have cat: "es = concat (take (Suc ?i) (map snd segs)) @ concat (drop (Suc ?i) (map snd segs))"
      unfolding es_def concat_append [symmetric] append_take_drop_id ..
    then have "es ! j = concat (drop (Suc ?i) (map snd segs)) ! 0" "concat (drop (Suc ?i) (map snd segs)) \<noteq> []"
      using j unfolding j' base_def by (simp_all add: nth_append)
    then have later: "es ! j \<in> set (concat (drop (Suc ?i) (map snd segs)))" by (metis length_greater_0_conv nth_mem)
    let ?d = "snd (segs ! ?i)"
    have d: "?d \<noteq> []" using ne i by simp
    have a: "apart (fst (last ?d)) (ks ! ?i) (fst (es ! j))" "valid (ks ! ?i)" using sep i len later unfolding separated_def by auto
    have "Compare (fst (?d ! (length ?d - 1))) k < 0"
      using seek_pos_less [of "length ?d - 1" Compare k "map fst ?d"] p d by simp
    then have less: "Compare (fst (last ?d)) k < 0" using d by (simp add: last_conv_nth)
    have "segs ! ?i \<in> set segs" using i by simp
    then have vl: "valid (fst (last ?d))" using v last_in_set [OF d] by auto
    have "\<not> Compare (ks ! ?i) k < 0" using seek_pos_nth [of Compare k ks] i len by simp
    then have "Compare k (ks ! ?i) \<le> 0" using Compare_less_flip [OF a(2) assms(8)] by simp
    then show ?thesis using a less vl by (intro disjI2 exI [of _ "fst (last ?d)"] exI [of _ "ks ! ?i"]) simp
  qed
qed

end

lemma meta_block_small:
  assumes "\<forall>p. opt_filter_policy opt = Some p \<longrightarrow> length (fp_Name p) + 100 < 2 ^ 32"
  shows "length (BlockBuilder_build n (meta_entries opt fe)) < 2 ^ 32"
proof -
  have "entries_size (meta_entries opt fe) + 8 < 2 ^ 32"
    using assms length_BlockHandle_EncodeTo [of "handle_at fe"]
    by (auto simp: meta_entries_def entries_size_def filter_key_def str_def split: option.splits)
  then show ?thesis using length_BlockBuilder_build [of n "meta_entries opt fe"] by simp
qed

context table_writer
begin

lemma table_opened:
  assumes "opt_comparator opt = \<lparr> cmp_Compare = Compare, cmp_FindShortestSeparator = FindShortestSeparator, cmp_FindShortSuccessor = FindShortSuccessor \<rparr>"
    and "snappy_ok snappy" and "writable f" and "contents f = []"
    and "sorted_wrt (\<lambda>a b. Compare a b < 0) (map fst es)" and "\<forall>e \<in> set es. valid (fst e)"
    and "1 \<le> opt_block_restart_interval opt" and "\<forall>p. opt_filter_policy opt = Some p \<longrightarrow> length (fp_Name p) + 100 < 2 ^ 32"
    and "length (contents (tb_file (snd (TableBuilder_Finish Append Flush snappy (TableBuilder_Adds Append Flush snappy (TableBuilder_new opt f) es))))) < 2 ^ 64"
    and "\<And>f. writable f \<Longrightarrow> reads (file_of f) (contents f)"
  obtains r t segs ks fe me ie m
  where "TableBuilder_Finish Append Flush snappy (TableBuilder_Adds Append Flush snappy (TableBuilder_new opt f) es) = (Status_OK, r)"
    and "Table_Open snappy opt (file_of (tb_file r)) (FileSize r) = (Status_OK, Some t)"
    and "table_layout Compare valid apart opt snappy (contents (tb_file r)) segs ks fe me ie" and "concat (map snd segs) = es"
    and "reads (tbl_file t) (contents (tb_file r))" and "tbl_options t = opt"
    and "tbl_index_block t = Block_make (BlockBuilder_build 1 (index_entries ks segs))"
    and "tbl_filter t = map_option (\<lambda>p. FilterBlockReader_new (build_filter_block (fp_CreateFilter p) (filter_blocks segs m []))) (opt_filter_policy opt)"
    and "\<And>p. opt_filter_policy opt = Some p \<Longrightarrow> length (build_filter_block (fp_CreateFilter p) (filter_blocks segs m [])) \<le> length (contents (tb_file r)) \<and>
      m \<le> length (contents (tb_file r)) \<and> (\<forall>s \<in> set segs. fst (fst s) \<le> m)"
proof -
  obtain r segs ks fe me ie where b: "TableBuilder_Finish Append Flush snappy (TableBuilder_Adds Append Flush snappy (TableBuilder_new opt f) es) = (Status_OK, r)"
      "writable (tb_file r)" "table_layout Compare valid apart opt snappy (contents (tb_file r)) segs ks fe me ie" "concat (map snd segs) = es"
      "FileSize r = of_nat (length (contents (tb_file r)))"
    using table_built [OF assms(1-6)] by (elim exE conjE) (rule that)
  have len: "length (contents (tb_file r)) < 2 ^ 64" using assms(9) by (simp add: b(1))
  note rd = assms(10) [OF b(2)]
  obtain t m where t: "Table_Open snappy opt (file_of (tb_file r)) (of_nat (length (contents (tb_file r)))) = (Status_OK, Some t)"
      "tbl_options t = opt" "tbl_file t = file_of (tb_file r)" "tbl_metaindex_handle t = handle_at me"
      "tbl_index_block t = Block_make (BlockBuilder_build 1 (index_entries ks segs))"
      "tbl_filter t = map_option (\<lambda>p. FilterBlockReader_new (build_filter_block (fp_CreateFilter p) (filter_blocks segs m []))) (opt_filter_policy opt)"
      "\<And>p. opt_filter_policy opt = Some p \<Longrightarrow> length (build_filter_block (fp_CreateFilter p) (filter_blocks segs m [])) \<le> length (contents (tb_file r)) \<and>
        m \<le> length (contents (tb_file r)) \<and> (\<forall>s \<in> set segs. fst (fst s) \<le> m)"
    by (rule Table_Open_layout [OF b(3) rd len assms(7) meta_block_small [OF assms(8)]]) blast
  show ?thesis by (rule that [OF b(1) t(1) [folded b(5)] b(3,4) _ t(2,5,6,7)]) (simp_all add: rd t(3))
qed

end

section \<open>Tables of internal keys in memory\<close>

definition InternalKeyComparator_object :: Comparator_object where
  "InternalKeyComparator_object =
     \<lparr> cmp_Compare = InternalKeyCompare BytewiseCompare,
       cmp_FindShortestSeparator = InternalKeyFindShortestSeparator BytewiseCompare BytewiseFindShortestSeparator,
       cmp_FindShortSuccessor = InternalKeyFindShortSuccessor BytewiseCompare BytewiseFindShortSuccessor \<rparr>"

text \<open>An index key is the last key of its block, or its user key comes before those of the later blocks.\<close>

definition user_apart :: "bytes \<Rightarrow> bytes \<Rightarrow> bytes \<Rightarrow> bool" where
  "user_apart a s b \<longleftrightarrow> s = a \<or> BytewiseCompare (ExtractUserKey s) (ExtractUserKey b) < 0"

lemma internal_separator_apart:
  "user_apart a (InternalKeyFindShortestSeparator BytewiseCompare BytewiseFindShortestSeparator a b) b"
proof -
  let ?u = "ExtractUserKey a" and ?v = "ExtractUserKey b"
  let ?t = "BytewiseFindShortestSeparator ?u ?v"
  have "BytewiseCompare ?t ?v < 0" if "BytewiseCompare ?u ?t < 0"
  proof (cases "BytewiseCompare ?u ?v < 0")
    case True
    then show ?thesis using bytewise.Separator_bounds by simp
  next
    case False
    then have "?t = ?u" by (intro Bytewise_separator_unchanged) simp
    then show ?thesis using that bytewise.Compare_self by simp
  qed
  then show ?thesis by (simp add: user_apart_def InternalKeyFindShortestSeparator_def Let_def PutFixed64_def)
qed

interpretation internal_table: table_writer "InternalKeyCompare BytewiseCompare" "\<lambda>k. 8 \<le> length k"
  "InternalKeyFindShortestSeparator BytewiseCompare BytewiseFindShortestSeparator"
  "InternalKeyFindShortSuccessor BytewiseCompare BytewiseFindShortSuccessor"
  WritableFile_Append WritableFile_Flush "\<lambda>(h, a). FileState_contents (the (h a))" "\<lambda>(h, b). b = a \<and> heap_wf h b" user_apart for a
proof (unfold_locales, goal_cases)
  case (1 a b)
  show ?case by (rule internal_separator_apart)
next
  case (2 a s b k)
  then have "BytewiseCompare (ExtractUserKey b) (ExtractUserKey k) \<le> 0" by (simp add: bytewise_user.internal_less_iff) linarith
  with 2(1) show ?case using bytewise.Compare_less_le_trans by (auto simp: user_apart_def)
qed (auto simp: InternalKeyFindShortestSeparator_def InternalKeyFindShortSuccessor_def Let_def PutFixed64_def ExtractUserKey_def)

definition mem_reader :: "bool \<Rightarrow> file_heap \<times> addr \<Rightarrow> RandomFile" where
  "mem_reader own f = \<lparr> file_Read = RandomAccessFile_Read (fst f) (snd f), file_own_memory = own \<rparr>"

definition build_in_memory :: "Options \<Rightarrow> Snappy \<Rightarrow> file_heap \<times> addr \<Rightarrow> entries \<Rightarrow> Status \<times> (file_heap \<times> addr) TableBuilder" where
  "build_in_memory opt snappy f es =
     TableBuilder_Finish WritableFile_Append WritableFile_Flush snappy
       (TableBuilder_Adds WritableFile_Append WritableFile_Flush snappy (TableBuilder_new opt f) es)"

definition mem_contents :: "file_heap \<times> addr \<Rightarrow> bytes" where
  "mem_contents f = FileState_contents (the (fst f (snd f)))"

lemma mem_reader_reads: "heap_wf (fst f) (snd f) \<Longrightarrow> reads (mem_reader own f) (mem_contents f)"
  using memrandom.ReadAt_contents [of "fst f" "snd f"] by (simp add: reads_def mem_reader_def mem_contents_def)

text \<open>The entries can be written in the order of internal keys, and the options suit them.\<close>

definition writable_entries :: "Options \<Rightarrow> Snappy \<Rightarrow> entries \<Rightarrow> bool" where
  "writable_entries opt snappy es \<longleftrightarrow>
     opt_comparator opt = InternalKeyComparator_object \<and> snappy_ok snappy \<and> 1 \<le> opt_block_restart_interval opt \<and>
     (\<forall>p. opt_filter_policy opt = Some p \<longrightarrow> length (fp_Name p) + 100 < 2 ^ 32) \<and>
     sorted_wrt (\<lambda>a b. InternalKeyCompare BytewiseCompare a b < 0) (map fst es) \<and> (\<forall>e \<in> set es. 8 \<le> length (fst e)) \<and>
     3 * entries_size es + 64 < 2 ^ 32"

lemma internal_table_opened:
  assumes "writable_entries opt snappy es" and "heap_wf (fst f) (snd f)" and "mem_contents f = []"
    and "length (mem_contents (tb_file (snd (build_in_memory opt snappy f es)))) < 2 ^ 64"
  obtains r t segs ks fe me ie m
  where "build_in_memory opt snappy f es = (Status_OK, r)" and "Table_Open snappy opt (mem_reader own (tb_file r)) (FileSize r) = (Status_OK, Some t)"
    and "table_layout (InternalKeyCompare BytewiseCompare) (\<lambda>k. 8 \<le> length k) user_apart opt snappy (mem_contents (tb_file r)) segs ks fe me ie"
    and "concat (map snd segs) = es" and "reads (tbl_file t) (mem_contents (tb_file r))" and "tbl_options t = opt"
    and "tbl_index_block t = Block_make (BlockBuilder_build 1 (index_entries ks segs))"
    and "tbl_filter t = map_option (\<lambda>p. FilterBlockReader_new (build_filter_block (fp_CreateFilter p) (filter_blocks segs m []))) (opt_filter_policy opt)"
    and "\<And>p. opt_filter_policy opt = Some p \<Longrightarrow> length (build_filter_block (fp_CreateFilter p) (filter_blocks segs m [])) \<le> length (mem_contents (tb_file r)) \<and>
      m \<le> length (mem_contents (tb_file r)) \<and> (\<forall>s \<in> set segs. fst (fst s) \<le> m)"
proof -
  have c: "(\<lambda>(h, a). FileState_contents (the (h a))) = mem_contents" by (auto simp: mem_contents_def)
  have rd: "reads (mem_reader own g) (mem_contents g)" if "(case g of (h, b) \<Rightarrow> b = snd f \<and> heap_wf h b)" for g
    using that mem_reader_reads [of g] by (cases g) auto
  show ?thesis
    by (rule internal_table.table_opened [where a = "snd f" and file_of = "mem_reader own", unfolded c, folded build_in_memory_def, OF _ _ _ assms(3) _ _ _ _ assms(4) rd])
      (use assms(1,2) in \<open>auto simp: writable_entries_def InternalKeyComparator_object_def intro!: that split: prod.splits\<close>)
qed

definition internal_bloom :: "nat \<Rightarrow> FilterPolicy" where
  "internal_bloom bits_per_key =
     \<lparr> fp_Name = str ''leveldb.BuiltinBloomFilter2'', fp_CreateFilter = InternalCreateFilter (Bloom_CreateFilter bits_per_key),
       fp_KeyMayMatch = InternalKeyMayMatch Bloom_KeyMayMatch \<rparr>"

lemma FilterBlock_KeyMayMatch_cong:
  "KeyMayMatch k = KeyMayMatch k' \<Longrightarrow> FilterBlock_KeyMayMatch KeyMayMatch r off k = FilterBlock_KeyMayMatch KeyMayMatch r off k'"
  by (simp add: FilterBlock_KeyMayMatch_def)

lemma length_entries: "19 * length es \<le> entries_size es"
  by (induction es) (auto simp: entries_size_def)

text \<open>The filter lets every block through that holds an entry of the same user key.\<close>

lemma internal_may_match:
  assumes "segments_ok snappy n bs segs" and "length bs < 2 ^ 64" and "m \<le> length bs" and "\<forall>s \<in> set segs. fst (fst s) \<le> m"
    and "length (build_filter_block (InternalCreateFilter (Bloom_CreateFilter bits)) (filter_blocks segs m [])) < 2 ^ 32"
    and "bits < 2 ^ 31" and "length (concat (map snd segs)) < 2 ^ 31"
    and "tbl_filter t = Some (FilterBlockReader_new (build_filter_block (InternalCreateFilter (Bloom_CreateFilter bits)) (filter_blocks segs m [])))"
    and "opt_filter_policy (tbl_options t) = Some (internal_bloom bits)"
    and "s \<in> set segs" and "e \<in> set (snd s)" and "ExtractUserKey (fst e) = ExtractUserKey k"
  shows "may_match t k (of_nat (fst (fst s)))"
proof -
  let ?blocks = "filter_blocks segs m []"
  have u: "unat (of_nat (fst (fst s)) :: u64) = fst (fst s)" if "s \<in> set segs" for s
    by (rule unat_of_nat_small) (use assms(2-4) that in fastforce)
  have um: "unat (of_nat m :: u64) = m" by (rule unat_of_nat_small) (use assms(2,3) in simp)
  have "sorted (map (\<lambda>s. fst (fst s)) segs)"
    using assms(1) unfolding segments_ok_def by (auto simp: sorted_wrt_map intro: sorted_wrt_mono_rel [rotated])
  moreover have "map (unat \<circ> fst) ?blocks = map (\<lambda>s. fst (fst s)) segs @ [m]" using u um by (simp add: filter_blocks_def)
  ultimately have sorted: "sorted (map (unat \<circ> fst) ?blocks)" using assms(4) by (simp add: sorted_append)
  have keys: "concat (map snd ?blocks) = map fst (concat (map snd segs))" by (simp add: filter_blocks_def map_concat comp_def)
  have "FilterBlock_KeyMayMatch (InternalKeyMayMatch Bloom_KeyMayMatch)
      (FilterBlockReader_new (build_filter_block (InternalCreateFilter (Bloom_CreateFilter bits)) ?blocks)) (of_nat (fst (fst s))) (fst e)"
  proof (rule filter_policy.filter_block_match [OF bloom_user.internal.filter_policy_axioms sorted assms(5)])
    show "(of_nat (fst (fst s)), map fst (snd s)) \<in> set ?blocks" using assms(10) by (simp add: filter_blocks_def)
    show "fst e \<in> set (map fst (snd s))" using assms(11) by simp
    fix ks :: "bytes list" assume "length ks \<le> length (concat (map snd ?blocks))"
    then show "length (map ExtractUserKey ks) < 2 ^ 31 \<and> bits < 2 ^ 31" using assms(6,7) unfolding keys by simp
  qed
  moreover have "InternalKeyMayMatch Bloom_KeyMayMatch (fst e) = InternalKeyMayMatch Bloom_KeyMayMatch k"
    using assms(12) by (simp add: fun_eq_iff InternalKeyMayMatch_def)
  ultimately show ?thesis
    using FilterBlock_KeyMayMatch_cong [of "InternalKeyMayMatch Bloom_KeyMayMatch" "fst e" k]
    unfolding may_match_def assms(8,9) by (simp add: internal_bloom_def)
qed

lemma user_apart_between:
  assumes "user_apart a s b" and "InternalKeyCompare BytewiseCompare a k < 0" and "InternalKeyCompare BytewiseCompare k s \<le> 0"
    and "8 \<le> length a" and "8 \<le> length k"
  shows "ExtractUserKey b \<noteq> ExtractUserKey k"
proof
  assume eq: "ExtractUserKey b = ExtractUserKey k"
  have "BytewiseCompare (ExtractUserKey k) (ExtractUserKey s) \<le> 0" using assms(3) by (simp add: bytewise_user.internal_le_iff) linarith
  then have "\<not> BytewiseCompare (ExtractUserKey s) (ExtractUserKey b) < 0" using bytewise.Compare_less_flip unfolding eq by force
  then have "s = a" using assms(1) by (simp add: user_apart_def)
  then show False using assms(2-5) bytewise_user.icmp.Compare_less_flip by force
qed

text \<open>How large a table without a filter gets.\<close>

lemma blocks_size_le: "\<forall>s \<in> set segs. snd s \<noteq> [] \<Longrightarrow> 19 * blocks_size opt segs \<le> 32 * entries_size (concat (map snd segs))"
proof (induction segs)
  case (Cons s segs)
  have "19 \<le> entries_size (snd s)" using Cons.prems by (cases "snd s") (auto simp: entries_size_def)
  moreover have "length (BlockBuilder_build (opt_block_restart_interval opt) (snd s)) \<le> entries_size (snd s) + 8" by (rule length_BlockBuilder_build)
  ultimately show ?case using Cons by (simp add: blocks_size_def entries_size_append)
qed (simp add: blocks_size_def entries_size_def)

lemma table_size_le:
  assumes "table_layout Compare valid apart opt snappy bs segs ks fe me ie" and "opt_filter_policy opt = None"
  shows "table_size opt segs ks fe \<le> 4 * entries_size (concat (map snd segs)) + 100"
proof -
  have l: "length ks = length segs" "separated Compare valid apart ks (map snd segs) []" "\<forall>s \<in> set segs. snd s \<noteq> []"
    using assms(1) by (auto simp: table_layout_def segments_ok_def)
  have "entries_size (meta_entries opt fe) = 0" using assms(2) by (simp add: meta_entries_def entries_size_def)
  then show ?thesis
    using blocks_size_le [OF l(3), of opt] entries_size_index [OF l(2,1,3)] length_segments [OF l(3)]
      length_BlockBuilder_build [of 1 "index_entries ks segs"] length_BlockBuilder_build [of "opt_block_restart_interval opt" "meta_entries opt fe"]
    by (simp add: table_size_def)
qed

lemma build_in_memory_size:
  assumes "writable_entries opt snappy es" and "heap_wf (fst f) (snd f)" and "mem_contents f = []" and "opt_filter_policy opt = None"
  shows "length (mem_contents (tb_file (snd (build_in_memory opt snappy f es)))) \<le> 4 * entries_size es + 100"
proof -
  have c: "(\<lambda>(h, a). FileState_contents (the (h a))) = mem_contents" by (auto simp: mem_contents_def)
  have w: "(case f of (h, b) \<Rightarrow> b = snd f \<and> heap_wf h b)" using assms(2) by (cases f) simp
  from assms(1) have e: "opt_comparator opt = InternalKeyComparator_object" "snappy_ok snappy"
      "sorted_wrt (\<lambda>a b. InternalKeyCompare BytewiseCompare a b < 0) (map fst es)" "\<forall>e \<in> set es. 8 \<le> length (fst e)"
    by (simp_all add: writable_entries_def)
  obtain r segs ks fe me ie where "build_in_memory opt snappy f es = (Status_OK, r)"
      "table_layout (InternalKeyCompare BytewiseCompare) (\<lambda>k. 8 \<le> length k) user_apart opt snappy (mem_contents (tb_file r)) segs ks fe me ie"
      "concat (map snd segs) = es" "length (mem_contents (tb_file r)) \<le> table_size opt segs ks fe"
    using internal_table.table_built [OF e(1) [unfolded InternalKeyComparator_object_def] e(2) w _ e(3,4), unfolded c, OF assms(3), folded build_in_memory_def] assms(4)
    by (elim exE conjE) (rule that, assumption, assumption, assumption, simp)
  then show ?thesis using table_size_le [OF _ assms(4)] by fastforce
qed

definition no_snappy :: Snappy where
  "no_snappy = \<lparr> Snappy_Compress = (\<lambda>_. None), Snappy_GetUncompressedLength = (\<lambda>_. None), Snappy_Uncompress = (\<lambda>_. None) \<rparr>"

definition sample_options :: Options where
  "sample_options = \<lparr> opt_comparator = InternalKeyComparator_object, opt_paranoid_checks = True, opt_block_size = 25,
     opt_block_restart_interval = 2, opt_compression = kSnappyCompression, opt_filter_policy = None \<rparr>"

definition sample_entries :: entries where
  "sample_entries = [(InternalKey_make (str ''a'') 5 kTypeValue, [1]), (InternalKey_make (str ''a'') 3 kTypeValue, [2]),
     (InternalKey_make (str ''c'') 4 kTypeValue, [3])]"

definition sample_file :: "file_heap \<times> addr" where
  "sample_file = ([0 \<mapsto> FileState_new], 0)"

lemma sample_table:
  shows "writable_entries sample_options no_snappy sample_entries" and "heap_wf (fst sample_file) (snd sample_file)"
    and "mem_contents sample_file = []"
    and "length (mem_contents (tb_file (snd (build_in_memory sample_options no_snappy sample_file sample_entries)))) < 2 ^ 32"
proof -
  have "entries_size sample_entries = 87" by code_simp
  moreover have "sorted_wrt (\<lambda>a b. InternalKeyCompare BytewiseCompare a b < 0) (map fst sample_entries)" "\<forall>e \<in> set sample_entries. 8 \<le> length (fst e)"
    by code_simp+
  ultimately show e: "writable_entries sample_options no_snappy sample_entries"
    by (simp add: writable_entries_def sample_options_def no_snappy_def snappy_ok_def)
  show h: "heap_wf (fst sample_file) (snd sample_file)" and c: "mem_contents sample_file = []"
    by (simp_all add: sample_file_def heap_wf_def mem_contents_def FileState_wf_def FileState_contents_def FileState_new_def memenv_kBlockSize_def)
  show "length (mem_contents (tb_file (snd (build_in_memory sample_options no_snappy sample_file sample_entries)))) < 2 ^ 32"
    using build_in_memory_size [OF e h c] \<open>entries_size sample_entries = 87\<close> by (simp add: sample_options_def)
qed

section \<open>Properties\<close>

text \<open>C8: what is added to a table builder is what the opened table shows. For internal keys in increasing order
  and any options (block size, restart interval, filter policy, compression with any correct
  compressor), building a table in an empty file of the in-memory environment and opening it succeed, and
  the table's iterator is a cursor on the added entries: after any sequence of moves it is valid exactly
  when the cursor is on an entry, shows that entry's key and value, and reports no error.\<close>

theorem table_round_trip:
  assumes "writable_entries opt snappy es" and "heap_wf (fst f) (snd f)" and "mem_contents f = []"
    and "length (mem_contents (tb_file (snd (build_in_memory opt snappy f es)))) < 2 ^ 64"
    and "\<forall>k. ToKey k \<in> set moves \<longrightarrow> 8 \<le> length k"
  shows "let (s, r) = build_in_memory opt snappy f es;
             (s', tbl) = Table_Open snappy opt (mem_reader own (tb_file r)) (FileSize r);
             I = TableIterator_methods snappy (the tbl) options;
             it = fold (iter_move I) moves (Table_NewIterator (the tbl));
             j = fold (cursor_move (InternalKeyCompare BytewiseCompare) es) moves (length es)
    in s = Status_OK \<and> s' = Status_OK \<and> tbl \<noteq> None \<and>
       it_status I it = Status_OK \<and> (it_Valid I it \<longleftrightarrow> j < length es) \<and> (j < length es \<longrightarrow> (it_key I it, it_value I it) = es ! j)"
proof -
  obtain r t segs ks fe me ie m where b: "build_in_memory opt snappy f es = (Status_OK, r)"
      "Table_Open snappy opt (mem_reader own (tb_file r)) (FileSize r) = (Status_OK, Some t)"
      "table_layout (InternalKeyCompare BytewiseCompare) (\<lambda>k. 8 \<le> length k) user_apart opt snappy (mem_contents (tb_file r)) segs ks fe me ie"
      "concat (map snd segs) = es" "reads (tbl_file t) (mem_contents (tb_file r))" "tbl_options t = opt"
      "tbl_index_block t = Block_make (BlockBuilder_build 1 (index_entries ks segs))"
    by (rule internal_table_opened [OF assms(1-4), of own])
  have len: "length (mem_contents (tb_file r)) < 2 ^ 64" using assms(4) by (simp add: b(1))
  have opt: "1 \<le> opt_block_restart_interval opt" "3 * entries_size (concat (map snd segs)) + 64 < 2 ^ 32" "tbl_Compare t = InternalKeyCompare BytewiseCompare"
    using assms(1) by (simp_all add: writable_entries_def b(4,6) tbl_Compare_def InternalKeyComparator_object_def)
  obtain xs its iridx where xs: "map (\<lambda>x. map snd (fst (snd x))) xs = map snd segs"
      "bytewise_user.icmp.table_on (BlockReader snappy t options) xs its iridx (Table_NewIterator t) (length (concat (map snd segs)))"
    by (rule bytewise_user.icmp.table_on_new [OF b(3,5) len opt(1,2) b(7) opt(3), where options = options])
  have v: "\<And>k. ToKey k \<in> set moves \<Longrightarrow> 8 \<le> length k" using assms(5) by blast
  note run = bytewise_user.icmp.table_iter.leveled.moves_on(2-4) [OF xs(2) v, unfolded xs(1) b(4)]
  show ?thesis using run unfolding Let_def b(1,2) split_conv option.sel TableIterator_methods_def opt(3) by simp
qed

theorem table_round_trip_witness:
  "let (s, r) = build_in_memory sample_options no_snappy sample_file sample_entries;
       (s', tbl) = Table_Open no_snappy sample_options (mem_reader True (tb_file r)) (FileSize r);
       I = TableIterator_methods no_snappy (the tbl) \<lparr> ro_verify_checksums = True, ro_fill_cache = True \<rparr>;
       it = fold (iter_move I) [ToKey (InternalKey_make (str ''b'') 9 kTypeValue), ToPrev] (Table_NewIterator (the tbl))
   in s = Status_OK \<and> s' = Status_OK \<and> it_Valid I it \<and> (it_key I it, it_value I it) = (InternalKey_make (str ''a'') 3 kTypeValue, [2])"
proof -
  define moves where "moves = [ToKey (InternalKey_make (str ''b'') 9 kTypeValue), ToPrev]"
  have j: "fold (cursor_move (InternalKeyCompare BytewiseCompare) sample_entries) moves (length sample_entries) = 1"
      "length sample_entries = 3" "sample_entries ! 1 = (InternalKey_make (str ''a'') 3 kTypeValue, [2])" unfolding moves_def by code_simp+
  have v: "\<forall>k. ToKey k \<in> set moves \<longrightarrow> 8 \<le> length k" by (simp add: moves_def InternalKey_make_eq)
  have len: "length (mem_contents (tb_file (snd (build_in_memory sample_options no_snappy sample_file sample_entries)))) < 2 ^ 64"
    using sample_table(4) by simp
  from table_round_trip [OF sample_table(1-3) len v, of True "\<lparr> ro_verify_checksums = True, ro_fill_cache = True \<rparr>"] j
  show ?thesis unfolding moves_def [symmetric] by (simp add: Let_def split_beta)
qed

text \<open>C9: a lookup in a table finds the newest entry it should. In a table of internal keys built and opened in
  memory, without a filter or with the Bloom filter on user keys, \<open>InternalGet\<close> for an internal key
  reports no error; whatever it hands to the saver is the first entry at or after the key in the whole
  table, and when that entry has the user key of the lookup it is handed over: neither the filter nor
  the shortened keys of the index hide it.\<close>

theorem internal_get_correct:
  assumes "writable_entries opt snappy es" and "heap_wf (fst f) (snd f)" and "mem_contents f = []"
    and "length (mem_contents (tb_file (snd (build_in_memory opt snappy f es)))) < 2 ^ 32"
    and "opt_filter_policy opt = None \<or> opt_filter_policy opt = Some (internal_bloom bits)" and "bits < 2 ^ 31" and "8 \<le> length k"
  shows "let r = snd (build_in_memory opt snappy f es);
             t = the (snd (Table_Open snappy opt (mem_reader own (tb_file r)) (FileSize r)));
             (s, saved) = InternalGet snappy t options k;
             j = seek_pos (InternalKeyCompare BytewiseCompare) k (map fst es)
    in s = Status_OK \<and> (\<forall>e. saved = Some e \<longrightarrow> j < length es \<and> e = es ! j) \<and>
       (j < length es \<longrightarrow> ExtractUserKey (fst (es ! j)) = ExtractUserKey k \<longrightarrow> saved = Some (es ! j))"
proof -
  have len64: "length (mem_contents (tb_file (snd (build_in_memory opt snappy f es)))) < 2 ^ 64" using assms(4) by simp
  obtain r t segs ks fe me ie m where b: "build_in_memory opt snappy f es = (Status_OK, r)"
      "Table_Open snappy opt (mem_reader own (tb_file r)) (FileSize r) = (Status_OK, Some t)"
      "table_layout (InternalKeyCompare BytewiseCompare) (\<lambda>k. 8 \<le> length k) user_apart opt snappy (mem_contents (tb_file r)) segs ks fe me ie"
      "concat (map snd segs) = es" "reads (tbl_file t) (mem_contents (tb_file r))" "tbl_options t = opt"
      "tbl_index_block t = Block_make (BlockBuilder_build 1 (index_entries ks segs))"
      "tbl_filter t = map_option (\<lambda>p. FilterBlockReader_new (build_filter_block (fp_CreateFilter p) (filter_blocks segs m []))) (opt_filter_policy opt)"
      "\<And>p. opt_filter_policy opt = Some p \<Longrightarrow> length (build_filter_block (fp_CreateFilter p) (filter_blocks segs m [])) \<le> length (mem_contents (tb_file r)) \<and>
        m \<le> length (mem_contents (tb_file r)) \<and> (\<forall>s \<in> set segs. fst (fst s) \<le> m)"
    by (rule internal_table_opened [OF assms(1-3) len64, of own]) blast
  let ?bs = "mem_contents (tb_file r)"
  have len: "length ?bs < 2 ^ 64" "length ?bs < 2 ^ 32" using assms(4) by (simp_all add: b(1))
  have opt: "1 \<le> opt_block_restart_interval opt" "3 * entries_size (concat (map snd segs)) + 64 < 2 ^ 32" "tbl_Compare t = InternalKeyCompare BytewiseCompare"
    using assms(1) by (simp_all add: writable_entries_def b(4,6) tbl_Compare_def InternalKeyComparator_object_def)
  note get = bytewise_user.icmp.seek_pos_InternalGet [OF b(3,5) len(1) opt(1,2) b(7) opt(3) assms(7), of options, unfolded b(4)]
  let ?j = "seek_pos (InternalKeyCompare BytewiseCompare) k (map fst es)"
  have found: "snd (InternalGet snappy t options k) = Some (es ! ?j)" if j: "?j < length es" "ExtractUserKey (fst (es ! ?j)) = ExtractUserKey k"
  proof (cases "snd (InternalGet snappy t options k)")
    case None
    have "may_match t k (of_nat (fst (fst s)))" if s: "s \<in> set segs" "es ! ?j \<in> set (snd s)" for s
    proof (cases "opt_filter_policy opt")
      case None
      then show ?thesis by (simp add: may_match_def b(6) split: option.splits)
    next
      case (Some p)
      with assms(5) have p: "opt_filter_policy opt = Some (internal_bloom bits)" by simp
      have seg: "segments_ok snappy (opt_block_restart_interval opt) ?bs segs" using b(3) by (simp add: table_layout_def)
      have small: "length (concat (map snd segs)) < 2 ^ 31" using length_entries [of "concat (map snd segs)"] opt(2) by simp
      show ?thesis
        by (rule internal_may_match [OF seg len(1) _ _ _ assms(6) small _ _ s j(2), where m = m])
          (use b(6,8) b(9) [OF p] len(2) p in \<open>simp_all add: internal_bloom_def\<close>)
    qed
    with get(3) [OF j(1) None] user_apart_between [OF _ _ _ _ assms(7)] j(2) show ?thesis by blast
  next
    case (Some e)
    then show ?thesis using get(2) by simp
  qed
  show ?thesis unfolding Let_def b(1) snd_conv b(2) option.sel split_beta
    by (intro conjI allI impI get(1)) (rule get(2) [THEN conjunct1], assumption, rule get(2) [THEN conjunct2], assumption, rule found)
qed

theorem internal_get_correct_witness:
  "let r = snd (build_in_memory sample_options no_snappy sample_file sample_entries);
       t = the (snd (Table_Open no_snappy sample_options (mem_reader True (tb_file r)) (FileSize r)))
   in InternalGet no_snappy t \<lparr> ro_verify_checksums = True, ro_fill_cache = True \<rparr> (InternalKey_make (str ''a'') 4 kValueTypeForSeek) =
      (Status_OK, Some (InternalKey_make (str ''a'') 3 kTypeValue, [2]))"
proof -
  let ?k = "InternalKey_make (str ''a'') 4 kValueTypeForSeek"
  have j: "seek_pos (InternalKeyCompare BytewiseCompare) ?k (map fst sample_entries) = 1"
      "length sample_entries = 3" "sample_entries ! 1 = (InternalKey_make (str ''a'') 3 kTypeValue, [2])"
      "ExtractUserKey (fst (sample_entries ! 1)) = ExtractUserKey ?k" by code_simp+
  have "opt_filter_policy sample_options = None" by (simp add: sample_options_def)
  then have p: "opt_filter_policy sample_options = None \<or> opt_filter_policy sample_options = Some (internal_bloom 10)" by simp
  have k: "8 \<le> length ?k" by (simp add: InternalKey_make_eq)
  have b: "(10 :: nat) < 2 ^ 31" by simp
  from internal_get_correct [OF sample_table p b k, of True "\<lparr> ro_verify_checksums = True, ro_fill_cache = True \<rparr>"] j
  show ?thesis by (simp add: Let_def split_beta prod_eq_iff)
qed

end
