(* ===== verification/Skip_List.thy ===== *)
theory Skip_List
  imports Iterator Bloom
begin

text \<open>
  The skip list of the memtable, \<open>db/skiplist.h\<close>, over an explicit store of nodes: a node pointer is an
  index into the arena, \<open>None\<close> is the null pointer, and a node has one link per level. Searches are
  loops over the links, so that the model gives a result only when they end. The invariant has
  a sorted chain for every level; it holds between any two writes of \<open>Insert\<close>, which is what lets
  readers run concurrently with one writer. Atomic loads and stores are taken as sequentially
  consistent.
\<close>

section \<open>Nodes\<close>

definition kMaxHeight :: nat where "kMaxHeight = 12"

record 'k sl_node =
  node_key :: 'k
  node_next :: "nat option list"

record 'k SkipList =
  sl_nodes :: "'k sl_node list"
  sl_head :: nat
  sl_max_height :: nat
  sl_rnd :: u32

definition Node_key :: "'k SkipList \<Rightarrow> nat \<Rightarrow> 'k" where
  "Node_key sl x = node_key (sl_nodes sl ! x)"

definition Node_Next :: "'k SkipList \<Rightarrow> nat \<Rightarrow> nat \<Rightarrow> nat option" where
  "Node_Next sl x n = node_next (sl_nodes sl ! x) ! n"

definition Node_SetNext :: "nat \<Rightarrow> nat \<Rightarrow> nat option \<Rightarrow> 'k SkipList \<Rightarrow> 'k SkipList" where
  "Node_SetNext x n p sl =
     sl\<lparr> sl_nodes := (sl_nodes sl)[x := (sl_nodes sl ! x)\<lparr> node_next := (node_next (sl_nodes sl ! x))[n := p] \<rparr>] \<rparr>"

text \<open>The links of a new node hold whatever the arena held; no operation reads them before they are set.\<close>

definition NewNode :: "'k \<Rightarrow> nat \<Rightarrow> 'k SkipList \<Rightarrow> 'k SkipList" where
  "NewNode key height sl =
     sl\<lparr> sl_nodes := sl_nodes sl @ [\<lparr> node_key = key, node_next = replicate height None \<rparr>] \<rparr>"

definition SkipList_new :: "'k \<Rightarrow> 'k SkipList" where
  "SkipList_new any_key =
     \<lparr> sl_nodes = [\<lparr> node_key = any_key, node_next = replicate kMaxHeight None \<rparr>], sl_head = 0,
       sl_max_height = 1, sl_rnd = Random_init 0xdeadbeef \<rparr>"

section \<open>Searching\<close>

definition Equal :: "('k \<Rightarrow> 'k \<Rightarrow> int) \<Rightarrow> 'k \<Rightarrow> 'k \<Rightarrow> bool" where
  "Equal compare a b \<longleftrightarrow> compare a b = 0"

definition KeyIsAfterNode :: "('k \<Rightarrow> 'k \<Rightarrow> int) \<Rightarrow> 'k SkipList \<Rightarrow> 'k \<Rightarrow> nat option \<Rightarrow> bool" where
  "KeyIsAfterNode compare sl key n \<longleftrightarrow> (case n of None \<Rightarrow> False | Some n \<Rightarrow> compare (Node_key sl n) key < 0)"

text \<open>
  The body of the three search loops: follow the link at \<open>level\<close> when \<open>go\<close> holds for it, else record
  the node in \<open>prev\<close> and go down a level, or stop at level 0 with the node and its successor.
\<close>

definition search_step ::
    "(nat option \<Rightarrow> bool) \<Rightarrow> 'k SkipList \<Rightarrow> nat \<times> nat \<times> nat list \<Rightarrow> (nat \<times> nat \<times> nat list) + (nat \<times> nat option \<times> nat list)" where
  "search_step go sl s =
     (case s of (x, level, prev) \<Rightarrow>
        (let next = Node_Next sl x level
         in if go next then Inl (the next, level, prev)
            else (let prev = prev[level := x]
                  in if level = 0 then Inr (x, next, prev) else Inl (x, level - 1, prev))))"

partial_function (option) search_loop ::
    "(nat option \<Rightarrow> bool) \<Rightarrow> 'k SkipList \<Rightarrow> nat \<times> nat \<times> nat list \<Rightarrow> (nat \<times> nat option \<times> nat list) option" where
  [code]: "search_loop go sl s = (case search_step go sl s of Inl s' \<Rightarrow> search_loop go sl s' | Inr r \<Rightarrow> Some r)"

definition search :: "(nat option \<Rightarrow> bool) \<Rightarrow> 'k SkipList \<Rightarrow> (nat \<times> nat option \<times> nat list) option" where
  "search go sl = search_loop go sl (sl_head sl, sl_max_height sl - 1, replicate kMaxHeight (sl_head sl))"

definition FindGreaterOrEqual :: "('k \<Rightarrow> 'k \<Rightarrow> int) \<Rightarrow> 'k SkipList \<Rightarrow> 'k \<Rightarrow> (nat option \<times> nat list) option" where
  "FindGreaterOrEqual compare sl key = map_option snd (search (KeyIsAfterNode compare sl key) sl)"

definition FindLessThan :: "('k \<Rightarrow> 'k \<Rightarrow> int) \<Rightarrow> 'k SkipList \<Rightarrow> 'k \<Rightarrow> nat option" where
  "FindLessThan compare sl key =
     map_option fst (search (\<lambda>next. \<not> (case next of None \<Rightarrow> True | Some n \<Rightarrow> compare (Node_key sl n) key \<ge> 0)) sl)"

definition FindLast :: "'k SkipList \<Rightarrow> nat option" where
  "FindLast sl = map_option fst (search (\<lambda>next. next \<noteq> None) sl)"

definition Contains :: "('k \<Rightarrow> 'k \<Rightarrow> int) \<Rightarrow> 'k SkipList \<Rightarrow> 'k \<Rightarrow> bool option" where
  "Contains compare sl key =
     map_option (\<lambda>(x, _). case x of None \<Rightarrow> False | Some x \<Rightarrow> Equal compare key (Node_key sl x))
       (FindGreaterOrEqual compare sl key)"

section \<open>Insertion\<close>

function RandomHeight_loop :: "nat \<Rightarrow> u32 \<Rightarrow> nat \<times> u32" where
  "RandomHeight_loop height rnd =
     (if height < kMaxHeight
      then (let rnd = Random_Next rnd
            in if rnd mod 4 = 0 then RandomHeight_loop (height + 1) rnd else (height, rnd))
      else (height, rnd))"
  by pat_completeness auto
termination
  by (relation "measure (\<lambda>(height, _). kMaxHeight - height)") auto

declare RandomHeight_loop.simps [simp del]

definition RandomHeight :: "u32 \<Rightarrow> nat \<times> u32" where
  "RandomHeight rnd = RandomHeight_loop 1 rnd"

text \<open>The two writes that link the new node \<open>x\<close> at level \<open>i\<close>.\<close>

definition link_node :: "nat list \<Rightarrow> nat \<Rightarrow> nat \<Rightarrow> 'k SkipList \<Rightarrow> 'k SkipList" where
  "link_node prev x i sl = Node_SetNext x i (Node_Next sl (prev ! i) i) sl"

definition link_prev :: "nat list \<Rightarrow> nat \<Rightarrow> nat \<Rightarrow> 'k SkipList \<Rightarrow> 'k SkipList" where
  "link_prev prev x i sl = Node_SetNext (prev ! i) i (Some x) sl"

text \<open>\<open>Insert\<close> up to the allocation of the node: the predecessors at each level, the height, and the
  list with its new maximal height.\<close>

definition Insert_prepare ::
    "('k \<Rightarrow> 'k \<Rightarrow> int) \<Rightarrow> 'k SkipList \<Rightarrow> 'k \<Rightarrow> (nat list \<times> nat \<times> nat \<times> 'k SkipList) option" where
  "Insert_prepare compare sl key =
     (case FindGreaterOrEqual compare sl key of
        None \<Rightarrow> None
      | Some (_, prev) \<Rightarrow>
          (let (height, rnd) = RandomHeight (sl_rnd sl);
               sl = sl\<lparr> sl_rnd := rnd \<rparr>;
               (prev, sl) = (if sl_max_height sl < height
                             then (fold (\<lambda>i prev. prev[i := sl_head sl]) [sl_max_height sl..<height] prev,
                                   sl\<lparr> sl_max_height := height \<rparr>)
                             else (prev, sl))
           in Some (prev, height, length (sl_nodes sl), NewNode key height sl)))"

definition link_writes :: "nat list \<Rightarrow> nat \<Rightarrow> nat list \<Rightarrow> ('k SkipList \<Rightarrow> 'k SkipList) list" where
  "link_writes prev x is = concat (map (\<lambda>i. [link_node prev x i, link_prev prev x i]) is)"

definition Insert :: "('k \<Rightarrow> 'k \<Rightarrow> int) \<Rightarrow> 'k SkipList \<Rightarrow> 'k \<Rightarrow> 'k SkipList option" where
  "Insert compare sl key =
     map_option (\<lambda>(prev, height, x, sl). fold (\<lambda>w. w) (link_writes prev x [0..<height]) sl)
       (Insert_prepare compare sl key)"

section \<open>Iterator\<close>

text \<open>\<open>node_\<close> of an iterator over \<open>sl\<close>; a search that does not end gives no iterator.\<close>

definition SkipIter_Valid :: "nat option \<Rightarrow> bool" where
  "SkipIter_Valid node \<longleftrightarrow> node \<noteq> None"

definition SkipIter_key :: "'k SkipList \<Rightarrow> nat option \<Rightarrow> 'k" where
  "SkipIter_key sl node = Node_key sl (the node)"

definition SkipIter_Next :: "'k SkipList \<Rightarrow> nat option \<Rightarrow> nat option" where
  "SkipIter_Next sl node = Node_Next sl (the node) 0"

definition SkipIter_unhead :: "'k SkipList \<Rightarrow> nat \<Rightarrow> nat option" where
  "SkipIter_unhead sl node = (if node = sl_head sl then None else Some node)"

definition SkipIter_Prev :: "('k \<Rightarrow> 'k \<Rightarrow> int) \<Rightarrow> 'k SkipList \<Rightarrow> nat option \<Rightarrow> nat option option" where
  "SkipIter_Prev compare sl node = map_option (SkipIter_unhead sl) (FindLessThan compare sl (Node_key sl (the node)))"

definition SkipIter_Seek :: "('k \<Rightarrow> 'k \<Rightarrow> int) \<Rightarrow> 'k SkipList \<Rightarrow> 'k \<Rightarrow> nat option option" where
  "SkipIter_Seek compare sl target = map_option fst (FindGreaterOrEqual compare sl target)"

definition SkipIter_SeekToFirst :: "'k SkipList \<Rightarrow> nat option" where
  "SkipIter_SeekToFirst sl = Node_Next sl (sl_head sl) 0"

definition SkipIter_SeekToLast :: "'k SkipList \<Rightarrow> nat option option" where
  "SkipIter_SeekToLast sl = map_option (SkipIter_unhead sl) (FindLast sl)"

section \<open>The invariant\<close>

text \<open>The nodes that the links at level \<open>i\<close> visit, starting with pointer \<open>p\<close>.\<close>

fun chain :: "'k sl_node list \<Rightarrow> nat \<Rightarrow> nat option \<Rightarrow> nat list \<Rightarrow> bool" where
  "chain ns i p [] \<longleftrightarrow> p = None"
| "chain ns i p (a # xs) \<longleftrightarrow>
     p = Some a \<and> a < length ns \<and> i < length (node_next (ns ! a)) \<and> chain ns i (node_next (ns ! a) ! i) xs"

definition pointer :: "nat list \<Rightarrow> nat option" where
  "pointer xs = (case xs of [] \<Rightarrow> None | a # _ \<Rightarrow> Some a)"

lemma pointer_simps [simp]: "pointer [] = None" "pointer (a # xs) = Some a"
  by (simp_all add: pointer_def)

lemma chain_pointer: "chain ns i p xs \<Longrightarrow> p = pointer xs"
  by (cases xs) auto

lemma chain_append:
  "chain ns i p (us @ vs) \<Longrightarrow> chain ns i (if us = [] then p else node_next (ns ! last us) ! i) vs"
  by (induction us arbitrary: p) (auto split: if_splits)

lemma chain_nodes: "chain ns i p xs \<Longrightarrow> a \<in> set xs \<Longrightarrow> a < length ns \<and> i < length (node_next (ns ! a))"
  by (induction xs arbitrary: p) auto

text \<open>A chain does not notice changes of other nodes or of other levels.\<close>

lemma chain_cong:
  assumes "chain ns i p xs" and "\<And>a. a \<in> set xs \<Longrightarrow> a < length ns' \<and>
    length (node_next (ns' ! a)) = length (node_next (ns ! a)) \<and> node_next (ns' ! a) ! i = node_next (ns ! a) ! i"
  shows "chain ns' i p xs"
  using assms by (induction xs arbitrary: p) auto

definition sl_wf :: "('k \<Rightarrow> 'k \<Rightarrow> int) \<Rightarrow> ('k \<Rightarrow> bool) \<Rightarrow> 'k SkipList \<Rightarrow> (nat \<Rightarrow> nat list) \<Rightarrow> bool" where
  "sl_wf compare valid sl L \<longleftrightarrow>
     1 \<le> sl_max_height sl \<and> sl_max_height sl \<le> kMaxHeight \<and> sl_head sl < length (sl_nodes sl) \<and>
     length (node_next (sl_nodes sl ! sl_head sl)) = kMaxHeight \<and>
     (\<forall>i < kMaxHeight. chain (sl_nodes sl) i (Node_Next sl (sl_head sl) i) (L i) \<and> sl_head sl \<notin> set (L i) \<and>
        sorted_wrt (\<lambda>a b. compare (Node_key sl a) (Node_key sl b) < 0) (L i) \<and> (\<forall>a \<in> set (L i). valid (Node_key sl a))) \<and>
     (\<forall>i. Suc i < kMaxHeight \<longrightarrow> set (L (Suc i)) \<subseteq> set (L i)) \<and>
     (\<forall>i. sl_max_height sl \<le> i \<longrightarrow> i < kMaxHeight \<longrightarrow> L i = [])"

lemma sl_wf_new: "sl_wf compare valid (SkipList_new k) (\<lambda>_. [])"
  by (simp add: sl_wf_def SkipList_new_def Node_Next_def kMaxHeight_def)

lemma sl_wfD:
  assumes "sl_wf compare valid sl L" and "i < kMaxHeight"
  shows "chain (sl_nodes sl) i (Node_Next sl (sl_head sl) i) (L i)" and "sl_head sl \<notin> set (L i)"
    and "sorted_wrt (\<lambda>a b. compare (Node_key sl a) (Node_key sl b) < 0) (L i)"
    and "a \<in> set (L i) \<Longrightarrow> valid (Node_key sl a)"
    and "Suc i < kMaxHeight \<Longrightarrow> set (L (Suc i)) \<subseteq> set (L i)"
    and "sl_max_height sl \<le> i \<Longrightarrow> L i = []"
  using assms unfolding sl_wf_def by blast+

text \<open>Where a search stands: on the head or on a node of the level, everything behind it passed.\<close>

definition passed :: "'k SkipList \<Rightarrow> nat list \<Rightarrow> (nat \<Rightarrow> bool) \<Rightarrow> nat \<Rightarrow> nat list \<Rightarrow> nat list \<Rightarrow> bool" where
  "passed sl xs P x us vs \<longleftrightarrow> xs = us @ vs \<and> x = last (sl_head sl # us) \<and> (\<forall>a \<in> set us. P a)"

lemma Node_Next_passed:
  assumes "sl_wf compare valid sl L" and "i < kMaxHeight" and "L i = us @ vs"
  shows "Node_Next sl (last (sl_head sl # us)) i = pointer vs"
proof -
  have "chain (sl_nodes sl) i (Node_Next sl (sl_head sl) i) (us @ vs)" using sl_wfD(1) [OF assms(1,2)] assms(3) by simp
  from chain_pointer [OF chain_append [OF this]] show ?thesis by (auto simp: Node_Next_def split: if_splits)
qed

lemma passed_down:
  assumes "sl_wf compare valid sl L" and "Suc i < kMaxHeight" and "passed sl (L (Suc i)) P x us vs"
    and "\<And>a b. a \<in> set (L i) \<Longrightarrow> b \<in> set (L i) \<Longrightarrow> compare (Node_key sl a) (Node_key sl b) < 0 \<Longrightarrow> P b \<Longrightarrow> P a"
  shows "\<exists>us' vs'. passed sl (L i) P x us' vs'"
proof (cases "us = []")
  case True
  then show ?thesis using assms(3) by (auto simp: passed_def intro!: exI [of _ "[]"])
next
  case False
  then have x: "x \<in> set us" "P x" using assms(3) by (auto simp: passed_def)
  moreover have "set (L (Suc i)) \<subseteq> set (L i)" using assms(1,2) by (simp add: sl_wf_def)
  ultimately have "x \<in> set (L i)" using assms(3) by (auto simp: passed_def)
  then obtain us' vs' where l: "L i = us' @ x # vs'" by (meson split_list)
  moreover have "sorted_wrt (\<lambda>a b. compare (Node_key sl a) (Node_key sl b) < 0) (L i)"
    using assms(1,2) by (simp add: sl_wf_def)
  ultimately have "\<forall>a \<in> set us'. P a" using assms(4) [of _ x] x(2) by (auto simp: sorted_wrt_append)
  with l x(2) show ?thesis by (intro exI [of _ "us' @ [x]"] exI [of _ vs']) (simp add: passed_def)
qed

lemma passed_takeWhile: "passed sl xs P x us vs \<Longrightarrow> (\<forall>v. pointer vs = Some v \<longrightarrow> \<not> P v) \<Longrightarrow>
  takeWhile P xs = us \<and> dropWhile P xs = vs"
  by (cases vs) (auto simp: passed_def takeWhile_append)

lemma search_loop_right:
  "Node_Next sl x i = Some v \<Longrightarrow> go (Some v) \<Longrightarrow> search_loop go sl (x, i, prev) = search_loop go sl (v, i, prev)"
  by (simp add: search_loop.simps [of go sl "(x, i, prev)"] search_step_def)

lemma search_loop_down:
  "\<not> go (Node_Next sl x (Suc i)) \<Longrightarrow> search_loop go sl (x, Suc i, prev) = search_loop go sl (x, i, prev[Suc i := x])"
  by (simp add: search_loop.simps [of go sl "(x, Suc i, prev)"] search_step_def Let_def)

lemma search_loop_stop:
  "\<not> go (Node_Next sl x 0) \<Longrightarrow> search_loop go sl (x, 0, prev) = Some (x, Node_Next sl x 0, prev[0 := x])"
  by (simp add: search_loop.simps [of go sl "(x, 0, prev)"] search_step_def Let_def)

text \<open>The walk along one level ends on the last node that may be passed.\<close>

lemma search_loop_level:
  assumes "sl_wf compare valid sl L" and "i < kMaxHeight"
    and go: "\<And>a. go (Some a) \<longleftrightarrow> P a" and "passed sl (L i) P x us vs"
  shows "search_loop go sl (x, i, prev) = search_loop go sl (last (sl_head sl # takeWhile P (L i)), i, prev)"
  using assms(4)
proof (induction vs arbitrary: x us)
  case Nil
  then have "x = last (sl_head sl # takeWhile P (L i))" by (simp add: passed_def takeWhile_eq_all_conv [THEN iffD2])
  then show ?case by (rule arg_cong)
next
  case (Cons v vs)
  have next_x: "Node_Next sl x i = Some v"
    using Node_Next_passed [OF assms(1,2), of us "v # vs"] Cons(2) by (simp add: passed_def)
  show ?case
  proof (cases "P v")
    case True
    then have "passed sl (L i) P v (us @ [v]) vs" using Cons(2) by (auto simp: passed_def)
    from Cons(1) [OF this] show ?thesis using True next_x by (simp add: search_loop_right go)
  next
    case False
    with passed_takeWhile [OF Cons(2)] Cons(2) have "x = last (sl_head sl # takeWhile P (L i))" by (simp add: passed_def)
    then show ?thesis by (rule arg_cong)
  qed
qed

lemma Node_Next_takeWhile:
  assumes "sl_wf compare valid sl L" and "i < kMaxHeight"
  shows "Node_Next sl (last (sl_head sl # takeWhile P (L i))) i = pointer (dropWhile P (L i))"
  by (rule Node_Next_passed [OF assms]) simp

lemma pointer_dropWhile: "pointer (dropWhile P xs) = Some v \<Longrightarrow> \<not> P v"
  by (induction xs) (auto split: if_splits)

lemma sl_wf_levels: "sl_wf compare valid sl L \<Longrightarrow> i < kMaxHeight \<Longrightarrow> set (L i) \<subseteq> set (L 0)"
proof (induction i)
  case (Suc i)
  then show ?case using sl_wfD(5) [OF Suc(2), of i] by auto
qed simp

lemma search_loop_result:
  assumes "sl_wf compare valid sl L" and "\<not> go None" and go: "\<And>a. go (Some a) \<longleftrightarrow> P a"
    and mono: "\<And>a b. a \<in> set (L 0) \<Longrightarrow> b \<in> set (L 0) \<Longrightarrow> compare (Node_key sl a) (Node_key sl b) < 0 \<Longrightarrow> P b \<Longrightarrow> P a"
    and "passed sl (L i) P x us vs" and "i < kMaxHeight" and "length prev = kMaxHeight"
  shows "\<exists>prev'. search_loop go sl (x, i, prev) =
      Some (last (sl_head sl # takeWhile P (L 0)), pointer (dropWhile P (L 0)), prev') \<and>
    length prev' = kMaxHeight \<and> (\<forall>j < kMaxHeight. prev' ! j = (if j \<le> i then last (sl_head sl # takeWhile P (L j)) else prev ! j))"
  using assms(5-7)
proof (induction i arbitrary: x us vs prev)
  case 0
  have "\<not> go (pointer (dropWhile P (L 0)))"
    using pointer_dropWhile [of P "L 0"] assms(2) go by (cases "pointer (dropWhile P (L 0))") auto
  then show ?case using 0 Node_Next_takeWhile [OF assms(1) 0(2), of P]
    unfolding search_loop_level [where go = go, OF assms(1) 0(2) go 0(1)] by (simp add: search_loop_stop)
next
  case (Suc i)
  let ?x = "last (sl_head sl # takeWhile P (L (Suc i)))"
  have "\<not> go (pointer (dropWhile P (L (Suc i))))"
    using pointer_dropWhile [of P "L (Suc i)"] assms(2) go by (cases "pointer (dropWhile P (L (Suc i)))") auto
  then have step: "search_loop go sl (x, Suc i, prev) = search_loop go sl (?x, i, prev[Suc i := ?x])"
    using Node_Next_takeWhile [OF assms(1) Suc(3), of P]
    unfolding search_loop_level [where go = go, OF assms(1) Suc(3) go Suc(2)] by (simp add: search_loop_down)
  have i: "i < kMaxHeight" using Suc(3) by simp
  have "passed sl (L (Suc i)) P ?x (takeWhile P (L (Suc i))) (dropWhile P (L (Suc i)))"
    by (auto simp: passed_def dest: set_takeWhileD)
  then obtain us' vs' where "passed sl (L i) P ?x us' vs'"
    using passed_down [OF assms(1) Suc(3)] mono sl_wf_levels [OF assms(1) i] by blast
  from Suc(1) [OF this i, of "prev[Suc i := ?x]"] Suc(4) obtain prev' where
    "search_loop go sl (x, Suc i, prev) = Some (last (sl_head sl # takeWhile P (L 0)), pointer (dropWhile P (L 0)), prev')"
    "length prev' = kMaxHeight"
    and p: "\<And>j. j < kMaxHeight \<Longrightarrow> prev' ! j = (if j \<le> i then last (sl_head sl # takeWhile P (L j)) else prev[Suc i := ?x] ! j)"
    unfolding step by auto
  moreover have "prev' ! j = (if j \<le> Suc i then last (sl_head sl # takeWhile P (L j)) else prev ! j)" if "j < kMaxHeight" for j
    using p [OF that] that Suc(4) by (cases "j = Suc i") auto
  ultimately show ?case by blast
qed

lemma search_result:
  assumes "sl_wf compare valid sl L" and "\<not> go None" and "\<And>a. go (Some a) \<longleftrightarrow> P a"
    and "\<And>a b. a \<in> set (L 0) \<Longrightarrow> b \<in> set (L 0) \<Longrightarrow> compare (Node_key sl a) (Node_key sl b) < 0 \<Longrightarrow> P b \<Longrightarrow> P a"
  shows "\<exists>prev. search go sl = Some (last (sl_head sl # takeWhile P (L 0)), pointer (dropWhile P (L 0)), prev) \<and>
    length prev = kMaxHeight \<and> (\<forall>j < kMaxHeight. prev ! j = last (sl_head sl # takeWhile P (L j)))"
proof -
  let ?h = "sl_max_height sl - 1"
  have h: "?h < kMaxHeight" using assms(1) by (auto simp: sl_wf_def)
  have "passed sl (L ?h) P (sl_head sl) [] (L ?h)" by (simp add: passed_def)
  have "\<exists>prev'. search_loop go sl (sl_head sl, ?h, replicate kMaxHeight (sl_head sl)) =
      Some (last (sl_head sl # takeWhile P (L 0)), pointer (dropWhile P (L 0)), prev') \<and>
    length prev' = kMaxHeight \<and> (\<forall>j < kMaxHeight. prev' ! j =
      (if j \<le> ?h then last (sl_head sl # takeWhile P (L j)) else replicate kMaxHeight (sl_head sl) ! j))"
    by (rule search_loop_result [OF assms(1,2,3) _ \<open>passed _ _ _ _ _ _\<close> h]) (use assms(4) in auto)
  then
  obtain prev where "search go sl = Some (last (sl_head sl # takeWhile P (L 0)), pointer (dropWhile P (L 0)), prev)"
    "length prev = kMaxHeight" and p: "\<And>j. j < kMaxHeight \<Longrightarrow>
      prev ! j = (if j \<le> ?h then last (sl_head sl # takeWhile P (L j)) else sl_head sl)"
    unfolding search_def by auto
  moreover have "prev ! j = last (sl_head sl # takeWhile P (L j))" if "j < kMaxHeight" for j
  proof (cases "j \<le> ?h")
    case False
    then have "L j = []" by (intro sl_wfD(6) [OF assms(1) that]) simp
    then show ?thesis using p [OF that] False by simp
  qed (simp add: p [OF that])
  ultimately show ?thesis by blast
qed

section \<open>Insertion keeps the invariant\<close>

text \<open>The nodes of the list in order, and their keys.\<close>

fun follow :: "'k sl_node list \<Rightarrow> nat option \<Rightarrow> nat \<Rightarrow> nat list" where
  "follow ns p 0 = []"
| "follow ns None (Suc n) = []"
| "follow ns (Some a) (Suc n) = a # follow ns (node_next (ns ! a) ! 0) n"

definition sl_keys :: "'k SkipList \<Rightarrow> 'k list" where
  "sl_keys sl = map (Node_key sl) (follow (sl_nodes sl) (Node_Next sl (sl_head sl) 0) (length (sl_nodes sl)))"

lemma follow_chain: "chain ns 0 p xs \<Longrightarrow> length xs \<le> n \<Longrightarrow> follow ns p n = xs"
proof (induction xs arbitrary: p n)
  case Nil
  then show ?case by (cases n) auto
next
  case (Cons a xs)
  then show ?case by (cases n) auto
qed

lemma Node_SetNext_fields [simp]:
  "sl_head (Node_SetNext x n p sl) = sl_head sl" "sl_max_height (Node_SetNext x n p sl) = sl_max_height sl"
  "sl_rnd (Node_SetNext x n p sl) = sl_rnd sl" "length (sl_nodes (Node_SetNext x n p sl)) = length (sl_nodes sl)"
  by (simp_all add: Node_SetNext_def)

lemma nth_SetNext:
  "sl_nodes (Node_SetNext x n p sl) ! y =
    (if y = x \<and> x < length (sl_nodes sl) then (sl_nodes sl ! x)\<lparr> node_next := (node_next (sl_nodes sl ! x))[n := p] \<rparr>
     else sl_nodes sl ! y)"
  by (cases "x < length (sl_nodes sl)") (auto simp: Node_SetNext_def nth_list_update list_update_beyond)

lemma Node_SetNext_key [simp]: "Node_key (Node_SetNext x n p sl) y = Node_key sl y"
  by (simp add: Node_key_def nth_SetNext)

lemma Node_SetNext_height [simp]:
  "length (node_next (sl_nodes (Node_SetNext x n p sl) ! y)) = length (node_next (sl_nodes sl ! y))"
  by (simp add: nth_SetNext)

lemma Node_Next_SetNext:
  assumes "x < length (sl_nodes sl)" and "n < length (node_next (sl_nodes sl ! x))"
  shows "Node_Next (Node_SetNext x n p sl) y m = (if y = x \<and> m = n then p else Node_Next sl y m)"
  using assms by (auto simp: Node_SetNext_def Node_Next_def nth_list_update)

lemma chain_SetNext:
  assumes "chain (sl_nodes sl) i p xs" and "x \<notin> set xs \<or> i \<noteq> n"
  shows "chain (sl_nodes (Node_SetNext x n q sl)) i p xs"
proof (rule chain_cong [OF assms(1)])
  fix a assume "a \<in> set xs"
  with chain_nodes [OF assms(1) this] assms(2) show "a < length (sl_nodes (Node_SetNext x n q sl)) \<and>
      length (node_next (sl_nodes (Node_SetNext x n q sl) ! a)) = length (node_next (sl_nodes sl ! a)) \<and>
      node_next (sl_nodes (Node_SetNext x n q sl) ! a) ! i = node_next (sl_nodes sl ! a) ! i"
    by (cases "x < length (sl_nodes sl)") (auto simp: Node_SetNext_def nth_list_update)
qed

lemma chain_splice:
  assumes "chain ns i p (us @ vs)" and "us \<noteq> []" and "distinct us" and "set us \<inter> set vs = {}"
    and "\<And>a. a \<in> set us \<Longrightarrow> a \<noteq> last us \<Longrightarrow> node_next (ns' ! a) ! i = node_next (ns ! a) ! i"
    and "\<And>a. a \<in> set us \<Longrightarrow> a < length ns' \<and> i < length (node_next (ns' ! a))"
    and "chain ns' i (node_next (ns' ! last us) ! i) ws"
  shows "chain ns' i p (us @ ws)"
  using assms
proof (induction us arbitrary: p)
  case (Cons a us)
  show ?case
  proof (cases "us = []")
    case True
    then show ?thesis using Cons by auto
  next
    case False
    then have "last us \<in> set us" by simp
    with Cons(4) have "a \<noteq> last us" by auto
    with False Cons show ?thesis by auto
  qed
qed simp

text \<open>The node that is being inserted: allocated, not the head, with a key that is not in the list.\<close>

definition inserting ::
    "(bytes \<Rightarrow> bytes \<Rightarrow> int) \<Rightarrow> (bytes \<Rightarrow> bool) \<Rightarrow> bytes SkipList \<Rightarrow> (nat \<Rightarrow> nat list) \<Rightarrow> nat list \<Rightarrow> nat \<Rightarrow> nat \<Rightarrow> nat \<Rightarrow> bool" where
  "inserting compare valid sl L prev height x i \<longleftrightarrow>
     sl_wf compare valid sl L \<and> x < length (sl_nodes sl) \<and> x \<noteq> sl_head sl \<and> valid (Node_key sl x) \<and>
     length (node_next (sl_nodes sl ! x)) = height \<and> height \<le> sl_max_height sl \<and> i \<le> height \<and>
     (\<forall>j < i. x \<in> set (L j)) \<and> (\<forall>j < kMaxHeight. i \<le> j \<longrightarrow> x \<notin> set (L j) \<and>
        prev ! j = last (sl_head sl # takeWhile (\<lambda>a. compare (Node_key sl a) (Node_key sl x) < 0) (L j)) \<and>
        (\<forall>a \<in> set (L j). compare (Node_key sl a) (Node_key sl x) \<noteq> 0))"

lemma insertingD:
  assumes "inserting compare valid sl L prev height x i"
  shows "sl_wf compare valid sl L" and "x < length (sl_nodes sl)" and "x \<noteq> sl_head sl" and "valid (Node_key sl x)"
    and "length (node_next (sl_nodes sl ! x)) = height" and "height \<le> sl_max_height sl" and "height \<le> kMaxHeight"
    and "j < i \<Longrightarrow> x \<in> set (L j)"
    and "i \<le> j \<Longrightarrow> j < kMaxHeight \<Longrightarrow> x \<notin> set (L j)"
    and "i \<le> j \<Longrightarrow> j < kMaxHeight \<Longrightarrow>
      prev ! j = last (sl_head sl # takeWhile (\<lambda>a. compare (Node_key sl a) (Node_key sl x) < 0) (L j))"
    and "i \<le> j \<Longrightarrow> j < kMaxHeight \<Longrightarrow> \<forall>a \<in> set (L j). compare (Node_key sl a) (Node_key sl x) \<noteq> 0"
proof -
  show "height \<le> kMaxHeight" using assms unfolding inserting_def sl_wf_def by (meson le_trans)
qed (use assms in \<open>unfold inserting_def, blast+\<close>)

lemma sl_wf_SetNext:
  assumes "sl_wf compare valid sl L"
    and "\<And>j. j < kMaxHeight \<Longrightarrow> chain (sl_nodes (Node_SetNext y n q sl)) j (Node_Next (Node_SetNext y n q sl) (sl_head sl) j) (L' j)"
    and "\<And>j. j < kMaxHeight \<Longrightarrow> sl_head sl \<notin> set (L' j)"
    and "\<And>j. j < kMaxHeight \<Longrightarrow> sorted_wrt (\<lambda>a b. compare (Node_key sl a) (Node_key sl b) < 0) (L' j)"
    and "\<And>j a. j < kMaxHeight \<Longrightarrow> a \<in> set (L' j) \<Longrightarrow> valid (Node_key sl a)"
    and "\<And>j. Suc j < kMaxHeight \<Longrightarrow> set (L' (Suc j)) \<subseteq> set (L' j)"
    and "\<And>j. sl_max_height sl \<le> j \<Longrightarrow> j < kMaxHeight \<Longrightarrow> L' j = []"
  shows "sl_wf compare valid (Node_SetNext y n q sl) L'"
  using assms unfolding sl_wf_def Node_SetNext_fields Node_SetNext_key Node_SetNext_height by blast

lemma inserting_SetNext:
  assumes "inserting compare valid sl L prev height x i" and "i < height" and "sl_wf compare valid (Node_SetNext y n q sl) L'"
    and "\<And>j. j < Suc i \<Longrightarrow> x \<in> set (L' j)" and "\<And>j. Suc i \<le> j \<Longrightarrow> L' j = L j"
  shows "inserting compare valid (Node_SetNext y n q sl) L' prev height x (Suc i)"
  using insertingD [OF assms(1)] assms(2-5)
  unfolding inserting_def Node_SetNext_fields Node_SetNext_key Node_SetNext_height
  by (metis Suc_leI Suc_leD)

lemma sorted_wrt_distinct: "sorted_wrt P xs \<Longrightarrow> (\<And>x. x \<in> set xs \<Longrightarrow> \<not> P x x) \<Longrightarrow> distinct xs"
  by (induction xs) auto

context comparator
begin

lemma sl_wf_distinct: "sl_wf Compare valid sl L \<Longrightarrow> i < kMaxHeight \<Longrightarrow> distinct (L i)"
  using sl_wfD(3) by (rule sorted_wrt_distinct) (auto dest: sl_wfD(4) Compare_irrefl)

lemma link_node_wf:
  assumes "inserting Compare valid sl L prev height x i" and "i < height"
  shows "inserting Compare valid (link_node prev x i sl) L prev height x i"
    and "Node_Next (link_node prev x i sl) x i =
      pointer (dropWhile (\<lambda>a. Compare (Node_key sl a) (Node_key sl x) < 0) (L i))"
proof -
  note D = insertingD [OF assms(1)]
  have k: "i < kMaxHeight" using assms(2) D(7) by simp
  have nxt: "Node_Next (link_node prev x i sl) y m = (if y = x \<and> m = i then Node_Next sl (prev ! i) i else Node_Next sl y m)" for y m
    unfolding link_node_def by (rule Node_Next_SetNext) (use D assms(2) in auto)
  have "sl_wf Compare valid (link_node prev x i sl) L"
    unfolding link_node_def
  proof (rule sl_wf_SetNext [OF D(1)])
    fix j assume j: "j < kMaxHeight"
    have "Node_Next (link_node prev x i sl) (sl_head sl) j = Node_Next sl (sl_head sl) j" using nxt D(3) by simp
    then show "chain (sl_nodes (Node_SetNext x i (Node_Next sl (prev ! i) i) sl)) j
        (Node_Next (Node_SetNext x i (Node_Next sl (prev ! i) i) sl) (sl_head sl) j) (L j)"
      using chain_SetNext [OF sl_wfD(1) [OF D(1) j], of x i] D(9) [of i] k by (auto simp: link_node_def)
  qed (use D(1) in \<open>unfold sl_wf_def, blast+\<close>)
  then show "inserting Compare valid (link_node prev x i sl) L prev height x i"
    using assms(1) unfolding inserting_def link_node_def Node_SetNext_fields Node_SetNext_key Node_SetNext_height by blast
  show "Node_Next (link_node prev x i sl) x i = pointer (dropWhile (\<lambda>a. Compare (Node_key sl a) (Node_key sl x) < 0) (L i))"
    using nxt D(10) [OF order_refl k] Node_Next_takeWhile [OF D(1) k] by simp
qed

lemma splice_sorted:
  assumes "sorted_wrt (\<lambda>a b. Compare (f a) (f b) < 0) xs" and "\<forall>a \<in> set xs. valid (f a)" and "valid k" and "f x = k"
    and "\<forall>a \<in> set xs. Compare (f a) k \<noteq> 0"
  shows "sorted_wrt (\<lambda>a b. Compare (f a) (f b) < 0)
    (takeWhile (\<lambda>a. Compare (f a) k < 0) xs @ x # dropWhile (\<lambda>a. Compare (f a) k < 0) xs)"
proof -
  define P where "P = (\<lambda>a. Compare (f a) k < 0)"
  define us where "us = takeWhile P xs"
  define vs where "vs = dropWhile P xs"
  have xs: "xs = us @ vs" by (simp add: us_def vs_def)
  have us: "Compare (f a) k < 0" if "a \<in> set us" for a
    using that set_takeWhileD [of a P xs] by (simp add: us_def P_def)
  have srt: "sorted_wrt (\<lambda>a b. Compare (f a) (f b) < 0) us" "sorted_wrt (\<lambda>a b. Compare (f a) (f b) < 0) vs"
    "\<forall>a \<in> set us. \<forall>b \<in> set vs. Compare (f a) (f b) < 0"
    using assms(1) by (simp_all add: xs sorted_wrt_append)
  have vs: "Compare k (f b) < 0" if "b \<in> set vs" for b
  proof (cases vs)
    case (Cons v ws)
    then have v: "v \<in> set xs" by (simp add: xs)
    have "dropWhile P xs \<noteq> []" using Cons unfolding vs_def by (metis list.distinct(1))
    from hd_dropWhile [OF this] Cons have "\<not> Compare (f v) k < 0" by (simp add: vs_def P_def)
    then have "0 < Compare (f v) k" using assms(5) v by (metis linorder_neqE_linordered_idom)
    with assms(2,3) v Compare_less_flip [of k "f v"] have kv: "Compare k (f v) < 0" by simp
    show ?thesis
    proof (cases "b = v")
      case False
      then have "Compare (f v) (f b) < 0" using that srt(2) Cons by simp
      then show ?thesis using Compare_less_trans [of k "f v" "f b"] kv v that assms(2,3) by (simp add: xs)
    qed (use kv in simp)
  qed (use that in simp)
  have "sorted_wrt (\<lambda>a b. Compare (f a) (f b) < 0) (us @ x # vs)"
    using srt us vs assms(4) by (auto simp: sorted_wrt_append)
  then show ?thesis by (simp only: us_def vs_def P_def)
qed

lemma link_prev_wf:
  assumes "inserting Compare valid sl L prev height x i" and "i < height"
    and "Node_Next sl x i = pointer (dropWhile (\<lambda>a. Compare (Node_key sl a) (Node_key sl x) < 0) (L i))"
  shows "inserting Compare valid (link_prev prev x i sl)
    (L(i := takeWhile (\<lambda>a. Compare (Node_key sl a) (Node_key sl x) < 0) (L i) @ x #
            dropWhile (\<lambda>a. Compare (Node_key sl a) (Node_key sl x) < 0) (L i))) prev height x (Suc i)"
proof -
  let ?P = "\<lambda>a. Compare (Node_key sl a) (Node_key sl x) < 0"
  let ?us = "takeWhile ?P (L i)" let ?vs = "dropWhile ?P (L i)"
  let ?sl = "link_prev prev x i sl"
  let ?L = "L(i := ?us @ x # ?vs)"
  note D = insertingD [OF assms(1)]
  note wf = D(1) and v = D(4)
  have k: "i < kMaxHeight" "i < sl_max_height sl" using assms(2) D(6,7) by simp_all
  note nin = D(9) [OF order_refl k(1)] and prev = D(10) [OF order_refl k(1)] and ne = D(11) [OF order_refl k(1)]
  have x: "x < length (sl_nodes sl)" "x \<noteq> sl_head sl" "i < length (node_next (sl_nodes sl ! x))" using D(2,3,5) assms(2) by auto
  have L: "L i = ?us @ ?vs" by simp
  note d = sl_wf_distinct [OF wf k(1)]
  have dis: "distinct ?us" "set ?us \<inter> set ?vs = {}"
    using d by (subst (asm) L, simp only: distinct_append)+
  have head: "sl_head sl \<notin> set (L i)" "sl_head sl < length (sl_nodes sl)" "length (node_next (sl_nodes sl ! sl_head sl)) = kMaxHeight"
    using wf k sl_wfD(2) by (auto simp: sl_wf_def)
  have chain: "chain (sl_nodes sl) i (Node_Next sl (sl_head sl) i) (?us @ ?vs)" using sl_wfD(1) [OF wf k(1)] by simp
  have pin: "prev ! i = sl_head sl \<or> prev ! i \<in> set ?us"
    unfolding prev using last_in_set [of ?us] by (simp split: if_split)
  have p: "prev ! i < length (sl_nodes sl) \<and> i < length (node_next (sl_nodes sl ! (prev ! i)))"
    using pin head k chain_nodes [OF chain, of "prev ! i"] unfolding set_append by auto
  have pnin: "prev ! i \<notin> set ?vs" "prev ! i \<noteq> x"
    using pin head(1) dis(2) nin x(2) set_dropWhileD [of "prev ! i" ?P "L i"] set_takeWhileD [of "prev ! i" ?P "L i"] by auto
  have nxt: "Node_Next ?sl y m = (if y = prev ! i \<and> m = i then Some x else Node_Next sl y m)" for y m
    unfolding link_prev_def by (rule Node_Next_SetNext) (use p in auto)
  have tail: "chain (sl_nodes ?sl) i (Some x) (x # ?vs)"
  proof -
    from chain_append [OF chain] chain_pointer [OF chain_append [OF chain]]
    have "chain (sl_nodes sl) i (pointer ?vs) ?vs" by simp
    then have "chain (sl_nodes ?sl) i (pointer ?vs) ?vs"
      unfolding link_prev_def by (rule chain_SetNext) (use pnin in auto)
    moreover have "Node_Next ?sl x i = pointer ?vs" using nxt pnin(2) assms(3) by simp
    ultimately show ?thesis using x by (simp add: Node_Next_def link_prev_def)
  qed
  have "chain (sl_nodes ?sl) j (Node_Next ?sl (sl_head sl) j) (?L j)" if "j < kMaxHeight" for j
  proof (cases "j = i")
    case False
    then show ?thesis using sl_wfD(1) [OF wf that] nxt chain_SetNext [of sl j _ "L j" "prev ! i" i "Some x"]
      by (simp add: link_prev_def)
  next
    case True
    show ?thesis
    proof (cases "?us = []")
      case False
      then have "last ?us \<noteq> sl_head sl" using head(1) last_in_set [OF False] set_takeWhileD [of _ ?P "L i"] by metis
      moreover have "prev ! i = last ?us" using prev False by simp
      moreover have "chain (sl_nodes ?sl) i (Node_Next sl (sl_head sl) i) (?us @ x # ?vs)"
      proof (rule chain_splice [OF chain False dis])
        show "node_next (sl_nodes ?sl ! a) ! i = node_next (sl_nodes sl ! a) ! i" if "a \<in> set ?us" "a \<noteq> last ?us" for a
          using nxt [of a i] that \<open>prev ! i = last ?us\<close> by (simp add: Node_Next_def)
        show "a < length (sl_nodes ?sl) \<and> i < length (node_next (sl_nodes ?sl ! a))" if "a \<in> set ?us" for a
          using chain_nodes [OF chain, of a] that set_takeWhileD [of a ?P "L i"] by (simp add: link_prev_def)
        show "chain (sl_nodes ?sl) i (node_next (sl_nodes ?sl ! last ?us) ! i) (x # ?vs)"
          using tail nxt [of "last ?us" i] \<open>prev ! i = last ?us\<close> by (simp add: Node_Next_def)
      qed
      ultimately show ?thesis using True nxt by simp
    next
      case us: True
      then show ?thesis using True nxt prev tail by simp
    qed
  qed
  note chains = this
  have "set (L i) = set ?us \<union> set ?vs" by (simp flip: set_append)
  then have setL: "set (?L j) = (if j = i then insert x (set (L i)) else set (L j))" for j by auto
  have "sl_wf Compare valid ?sl ?L"
    unfolding link_prev_def
  proof (rule sl_wf_SetNext [OF wf])
    fix j assume j: "j < kMaxHeight"
    show "chain (sl_nodes (Node_SetNext (prev ! i) i (Some x) sl)) j (Node_Next (Node_SetNext (prev ! i) i (Some x) sl) (sl_head sl) j) (?L j)"
      using chains [OF j] by (simp only: link_prev_def)
    show "sl_head sl \<notin> set (?L j)" unfolding setL using sl_wfD(2) [OF wf j] x(2) by auto
    show "sorted_wrt (\<lambda>a b. Compare (Node_key sl a) (Node_key sl b) < 0) (?L j)"
      using splice_sorted [OF sl_wfD(3) [OF wf k(1)] _ v refl ne] sl_wfD(3) [OF wf j] sl_wfD(4) [OF wf k(1)] by simp
    show "valid (Node_key sl a)" if "a \<in> set (?L j)" for a
      using that sl_wfD(4) [OF wf j] v unfolding setL by (auto split: if_splits)
    show "?L j = []" if "sl_max_height sl \<le> j" using sl_wfD(6) [OF wf j that] k(2) that by simp
  next
    fix j assume j: "Suc j < kMaxHeight"
    then show "set (?L (Suc j)) \<subseteq> set (?L j)"
      unfolding setL using sl_wfD(5) [OF wf, of j] D(8) [of j] by auto
  qed
  then show ?thesis
    unfolding link_prev_def
  proof (rule inserting_SetNext [OF assms(1,2)])
    show "x \<in> set (?L j)" if "j < Suc i" for j unfolding setL using that D(8) [of j] by auto
    show "?L j = L j" if "Suc i \<le> j" for j using that by simp
  qed
qed

text \<open>Both writes at every level: the list of every level below the height gets the node.\<close>

lemma links_wf:
  assumes "inserting Compare valid sl L prev height x i" and "i + n = height"
  shows "\<exists>L'. inserting Compare valid (fold (\<lambda>w. w) (link_writes prev x [i..<height]) sl) L' prev height x height \<and>
    L' 0 = (if i = 0 \<and> 0 < height then takeWhile (\<lambda>a. Compare (Node_key sl a) (Node_key sl x) < 0) (L 0) @ x #
              dropWhile (\<lambda>a. Compare (Node_key sl a) (Node_key sl x) < 0) (L 0) else L 0) \<and>
    (\<forall>a. Node_key (fold (\<lambda>w. w) (link_writes prev x [i..<height]) sl) a = Node_key sl a) \<and>
    sl_rnd (fold (\<lambda>w. w) (link_writes prev x [i..<height]) sl) = sl_rnd sl"
  using assms
proof (induction n arbitrary: i sl L)
  case 0
  then show ?case by (auto simp: link_writes_def)
next
  case (Suc n)
  then have i: "i < height" by simp
  let ?sl1 = "link_node prev x i sl"
  let ?sl2 = "link_prev prev x i ?sl1"
  have keys: "Node_key ?sl1 a = Node_key sl a" "Node_key ?sl2 a = Node_key sl a" "sl_rnd ?sl2 = sl_rnd sl" for a
    by (simp_all add: link_node_def link_prev_def)
  note l1 = link_node_wf [OF Suc(2) i]
  have l1': "Node_Next ?sl1 x i = pointer (dropWhile (\<lambda>a. Compare (Node_key ?sl1 a) (Node_key ?sl1 x) < 0) (L i))"
    using l1(2) by (simp only: keys)
  note l2 = link_prev_wf [OF l1(1) i l1', unfolded keys]
  have writes: "link_writes prev x [i..<height] = link_node prev x i # link_prev prev x i # link_writes prev x [Suc i..<height]"
    using i by (simp add: link_writes_def upt_conv_Cons)
  have "Suc i + n = height" using Suc(3) by simp
  from Suc(1) [OF l2 this, unfolded keys] show ?case unfolding writes using i
    by (auto simp: keys)
qed

end

lemma RandomHeight_loop_bounds:
  "h \<le> kMaxHeight \<Longrightarrow> h \<le> fst (RandomHeight_loop h rnd) \<and> fst (RandomHeight_loop h rnd) \<le> kMaxHeight"
proof (induction h rnd rule: RandomHeight_loop.induct)
  case (1 h rnd)
  show ?case
  proof (cases "h < kMaxHeight \<and> Random_Next rnd mod 4 = 0")
    case True
    then have "RandomHeight_loop h rnd = RandomHeight_loop (h + 1) (Random_Next rnd)"
      by (simp add: RandomHeight_loop.simps [of h rnd] Let_def dvd_imp_mod_0)
    moreover have "h + 1 \<le> fst (RandomHeight_loop (h + 1) (Random_Next rnd)) \<and>
        fst (RandomHeight_loop (h + 1) (Random_Next rnd)) \<le> kMaxHeight"
      using 1(1) [OF _ refl] True by simp
    ultimately show ?thesis by simp
  next
    case False
    then have "fst (RandomHeight_loop h rnd) = h" by (auto simp: RandomHeight_loop.simps [of h rnd] Let_def)
    then show ?thesis using 1(2) by simp
  qed
qed

lemma RandomHeight_bounds: "1 \<le> fst (RandomHeight rnd)" "fst (RandomHeight rnd) \<le> kMaxHeight"
  using RandomHeight_loop_bounds [of 1 rnd] by (auto simp: RandomHeight_def kMaxHeight_def)

lemma NewNode_wf:
  assumes "sl_wf compare valid sl L" and "sl_max_height sl \<le> m" and "m \<le> kMaxHeight"
  shows "sl_wf compare valid (NewNode key height (sl\<lparr> sl_rnd := rnd, sl_max_height := m \<rparr>)) L"
proof -
  let ?sl = "NewNode key height (sl\<lparr> sl_rnd := rnd, sl_max_height := m \<rparr>)"
  have old: "sl_nodes ?sl ! a = sl_nodes sl ! a" if "a < length (sl_nodes sl)" for a
    using that by (simp add: NewNode_def nth_append)
  have head: "sl_head ?sl = sl_head sl" "sl_head sl < length (sl_nodes sl)" using assms(1) by (auto simp: NewNode_def sl_wf_def)
  have node: "a < length (sl_nodes sl)" if "a \<in> set (L i)" "i < kMaxHeight" for a i
    using chain_nodes [OF sl_wfD(1) [OF assms(1) that(2)] that(1)] by simp
  have key: "Node_key ?sl a = Node_key sl a" if "a \<in> set (L i)" "i < kMaxHeight" for a i
    using old [OF node [OF that]] by (simp add: Node_key_def)
  have "chain (sl_nodes ?sl) i (Node_Next ?sl (sl_head ?sl) i) (L i)" if "i < kMaxHeight" for i
  proof -
    have "length (sl_nodes ?sl) = Suc (length (sl_nodes sl))" by (simp add: NewNode_def)
    then have "chain (sl_nodes ?sl) i (Node_Next sl (sl_head sl) i) (L i)"
      by (intro chain_cong [OF sl_wfD(1) [OF assms(1) that]]) (use old node [OF _ that] in \<open>auto simp: less_SucI\<close>)
    moreover have "Node_Next ?sl (sl_head ?sl) i = Node_Next sl (sl_head sl) i" using old head by (simp add: Node_Next_def)
    ultimately show ?thesis by simp
  qed
  moreover have "sorted_wrt (\<lambda>a b. compare (Node_key ?sl a) (Node_key ?sl b) < 0) (L i)" if "i < kMaxHeight" for i
    using sl_wfD(3) [OF assms(1) that] key [OF _ that] by (auto intro: sorted_wrt_mono_rel [rotated])
  moreover have "valid (Node_key ?sl a)" if "i < kMaxHeight" "a \<in> set (L i)" for i a
    using sl_wfD(4) [OF assms(1) that] key [OF that(2,1)] by simp
  moreover have "length (node_next (sl_nodes ?sl ! sl_head sl)) = kMaxHeight" using old head assms(1) by (simp add: sl_wf_def)
  moreover have "sl_head ?sl < length (sl_nodes ?sl)" "sl_max_height ?sl = m" using head by (simp_all add: NewNode_def)
  moreover have "1 \<le> m" using assms(1,2) by (simp add: sl_wf_def)
  moreover have "L i = []" if "m \<le> i" "i < kMaxHeight" for i using sl_wfD(6) [OF assms(1) that(2)] assms(2) that(1) by simp
  ultimately show ?thesis
    using assms(3) sl_wfD(2,5) [OF assms(1)] unfolding sl_wf_def head(1) by simp
qed

context comparator
begin

lemma search_after:
  assumes "sl_wf Compare valid sl L" and "valid key"
  shows "\<exists>prev. search (KeyIsAfterNode Compare sl key) sl = Some (last (sl_head sl # takeWhile (\<lambda>a. Compare (Node_key sl a) key < 0) (L 0)),
      pointer (dropWhile (\<lambda>a. Compare (Node_key sl a) key < 0) (L 0)), prev) \<and>
    length prev = kMaxHeight \<and> (\<forall>j < kMaxHeight. prev ! j = last (sl_head sl # takeWhile (\<lambda>a. Compare (Node_key sl a) key < 0) (L j)))"
proof (rule search_result [OF assms(1)])
  fix a b assume "a \<in> set (L 0)" "b \<in> set (L 0)" "Compare (Node_key sl a) (Node_key sl b) < 0" "Compare (Node_key sl b) key < 0"
  moreover have "0 < kMaxHeight" by (simp add: kMaxHeight_def)
  ultimately show "Compare (Node_key sl a) key < 0"
    using Compare_less_trans [of "Node_key sl a" "Node_key sl b" key] sl_wfD(4) [OF assms(1)] assms(2) by blast
qed (simp_all add: KeyIsAfterNode_def)

lemma FindGreaterOrEqual_result:
  assumes "sl_wf Compare valid sl L" and "valid key"
  shows "\<exists>prev. FindGreaterOrEqual Compare sl key =
      Some (pointer (dropWhile (\<lambda>a. Compare (Node_key sl a) key < 0) (L 0)), prev) \<and> length prev = kMaxHeight \<and>
    (\<forall>j < kMaxHeight. prev ! j = last (sl_head sl # takeWhile (\<lambda>a. Compare (Node_key sl a) key < 0) (L j)))"
  using search_after [OF assms] by (auto simp: FindGreaterOrEqual_def)

lemma FindLessThan_result:
  assumes "sl_wf Compare valid sl L" and "valid key"
  shows "FindLessThan Compare sl key = Some (last (sl_head sl # takeWhile (\<lambda>a. Compare (Node_key sl a) key < 0) (L 0)))"
proof -
  have "(\<lambda>next. \<not> (case next of None \<Rightarrow> True | Some n \<Rightarrow> Compare (Node_key sl n) key \<ge> 0)) = KeyIsAfterNode Compare sl key"
    by (auto simp: fun_eq_iff KeyIsAfterNode_def split: option.splits)
  with search_after [OF assms] show ?thesis by (auto simp: FindLessThan_def)
qed

lemma FindLast_result:
  assumes "sl_wf Compare valid sl L"
  shows "FindLast sl = Some (last (sl_head sl # L 0))"
proof -
  have "\<exists>prev. search (\<lambda>next. next \<noteq> None) sl = Some (last (sl_head sl # takeWhile (\<lambda>_. True) (L 0)),
      pointer (dropWhile (\<lambda>_. True) (L 0)), prev) \<and>
    length prev = kMaxHeight \<and> (\<forall>j < kMaxHeight. prev ! j = last (sl_head sl # takeWhile (\<lambda>_. True) (L j)))"
    by (rule search_result [OF assms]) simp_all
  moreover have "takeWhile (\<lambda>_. True) xs = xs" for xs :: "nat list" by (simp add: takeWhile_eq_all_conv)
  ultimately show ?thesis by (auto simp: FindLast_def)
qed

lemma Insert_prepare_inserting:
  assumes "sl_wf Compare valid sl L" and "valid key" and "\<forall>a \<in> set (L 0). Compare (Node_key sl a) key \<noteq> 0"
  shows "\<exists>prev height x sl'. Insert_prepare Compare sl key = Some (prev, height, x, sl') \<and> 0 < height \<and>
    inserting Compare valid sl' L prev height x 0 \<and> Node_key sl' x = key \<and> sl_head sl' = sl_head sl \<and>
    (\<forall>a \<in> set (L 0). Node_key sl' a = Node_key sl a)"
proof -
  obtain prev where p: "FindGreaterOrEqual Compare sl key =
      Some (pointer (dropWhile (\<lambda>a. Compare (Node_key sl a) key < 0) (L 0)), prev)" "length prev = kMaxHeight"
      "\<And>j. j < kMaxHeight \<Longrightarrow> prev ! j = last (sl_head sl # takeWhile (\<lambda>a. Compare (Node_key sl a) key < 0) (L j))"
    using FindGreaterOrEqual_result [OF assms(1,2)] by blast
  obtain height rnd where h: "RandomHeight (sl_rnd sl) = (height, rnd)" by (cases "RandomHeight (sl_rnd sl)")
  with RandomHeight_bounds [of "sl_rnd sl"] have hb: "1 \<le> height" "height \<le> kMaxHeight" by simp_all
  let ?m = "max (sl_max_height sl) height"
  let ?prev = "if sl_max_height sl < height then fold (\<lambda>i prev. prev[i := sl_head sl]) [sl_max_height sl..<height] prev else prev"
  let ?x = "length (sl_nodes sl)"
  let ?sl = "NewNode key height (sl\<lparr> sl_rnd := rnd, sl_max_height := ?m \<rparr>)"
  have prep: "Insert_prepare Compare sl key = Some (?prev, height, ?x, ?sl)"
    by (simp add: Insert_prepare_def p(1) h max_def)
  have wf: "sl_wf Compare valid ?sl L"
    by (rule NewNode_wf [OF assms(1)]) (use hb assms(1) in \<open>auto simp: sl_wf_def\<close>)
  have node: "a < ?x" if "a \<in> set (L i)" "i < kMaxHeight" for a i
    using chain_nodes [OF sl_wfD(1) [OF assms(1) that(2)] that(1)] by simp
  have key: "Node_key ?sl ?x = key" "\<And>a i. a \<in> set (L i) \<Longrightarrow> i < kMaxHeight \<Longrightarrow> Node_key ?sl a = Node_key sl a"
    using node by (auto simp: Node_key_def NewNode_def nth_append)
  have fold: "j < length ps \<Longrightarrow> fold (\<lambda>i prev. prev[i := y]) is ps ! j = (if j \<in> set is then y else ps ! j)" for "is" ps j and y :: nat
    by (induction "is" arbitrary: ps) (auto simp: nth_list_update)
  have prev: "?prev ! j = last (sl_head sl # takeWhile (\<lambda>a. Compare (Node_key ?sl a) key < 0) (L j))" if "j < kMaxHeight" for j
  proof -
    have "takeWhile (\<lambda>a. Compare (Node_key ?sl a) key < 0) (L j) = takeWhile (\<lambda>a. Compare (Node_key sl a) key < 0) (L j)"
      using key(2) [OF _ that] by (auto intro!: takeWhile_cong)
    then show ?thesis using p(2,3) that sl_wfD(6) [OF assms(1) that] by (auto simp: fold)
  qed
  have "inserting Compare valid ?sl L ?prev height ?x 0"
    unfolding inserting_def key(1)
  proof (intro conjI allI impI ballI)
    show "?x \<noteq> sl_head ?sl" using assms(1) by (auto simp: NewNode_def sl_wf_def)
    show "length (node_next (sl_nodes ?sl ! ?x)) = height" by (simp add: NewNode_def)
    show "?prev ! j = last (sl_head ?sl # takeWhile (\<lambda>a. Compare (Node_key ?sl a) key < 0) (L j))" if "j < kMaxHeight" for j
      using prev [OF that] by (simp add: NewNode_def)
    show "Compare (Node_key ?sl a) key \<noteq> 0" if "j < kMaxHeight" "a \<in> set (L j)" for j a
      using assms(3) key(2) [OF that(2,1)] sl_wf_levels [OF assms(1) that(1)] that(2) by auto
  qed (use wf assms(2) node in \<open>auto simp: NewNode_def\<close>)
  moreover have "\<forall>a \<in> set (L 0). Node_key ?sl a = Node_key sl a" using key(2) [of _ 0] by (simp add: kMaxHeight_def)
  moreover have "sl_head ?sl = sl_head sl" by (simp add: NewNode_def)
  ultimately show ?thesis using prep hb(1) key(1) by auto
qed

lemma Insert_wf:
  assumes "sl_wf Compare valid sl L" and "valid key" and "\<forall>a \<in> set (L 0). Compare (Node_key sl a) key \<noteq> 0"
  shows "\<exists>sl' L'. Insert Compare sl key = Some sl' \<and> sl_wf Compare valid sl' L' \<and>
    map (Node_key sl') (L' 0) = takeWhile (\<lambda>k. Compare k key < 0) (map (Node_key sl) (L 0)) @ key #
      dropWhile (\<lambda>k. Compare k key < 0) (map (Node_key sl) (L 0))"
proof -
  obtain prev height x sl1 where p: "Insert_prepare Compare sl key = Some (prev, height, x, sl1)" "0 < height"
      "inserting Compare valid sl1 L prev height x 0" "Node_key sl1 x = key" "\<forall>a \<in> set (L 0). Node_key sl1 a = Node_key sl a"
    using Insert_prepare_inserting [OF assms] by blast
  let ?sl = "fold (\<lambda>w. w) (link_writes prev x [0..<height]) sl1"
  from links_wf [OF p(3), of height] p(2,4) obtain L' where L': "inserting Compare valid ?sl L' prev height x height"
      "L' 0 = takeWhile (\<lambda>a. Compare (Node_key sl1 a) key < 0) (L 0) @ x # dropWhile (\<lambda>a. Compare (Node_key sl1 a) key < 0) (L 0)"
      "\<And>a. Node_key ?sl a = Node_key sl1 a" by auto
  have "map (Node_key ?sl) (L' 0) = takeWhile (\<lambda>k. Compare k key < 0) (map (Node_key sl1) (L 0)) @ key #
      dropWhile (\<lambda>k. Compare k key < 0) (map (Node_key sl1) (L 0))"
    by (simp add: L'(2,3) p(4) takeWhile_map dropWhile_map comp_def)
  moreover have "map (Node_key sl1) (L 0) = map (Node_key sl) (L 0)" using p(5) by simp
  ultimately show ?thesis using p(1) insertingD(1) [OF L'(1)] by (auto simp: Insert_def)
qed

lemma sl_wf_keys:
  assumes "sl_wf Compare valid sl L"
  shows "sl_keys sl = map (Node_key sl) (L 0)"
proof -
  have z: "0 < kMaxHeight" by (simp add: kMaxHeight_def)
  have "set (L 0) \<subseteq> {..<length (sl_nodes sl)}" using chain_nodes [OF sl_wfD(1) [OF assms z]] by auto
  then have "card (set (L 0)) \<le> length (sl_nodes sl)" using card_mono [of "{..<length (sl_nodes sl)}" "set (L 0)"] by simp
  then have "length (L 0) \<le> length (sl_nodes sl)" using distinct_card [OF sl_wf_distinct [OF assms z]] by simp
  then show ?thesis by (simp add: sl_keys_def follow_chain [OF sl_wfD(1) [OF assms z]])
qed

lemma Contains_result:
  assumes "sl_wf Compare valid sl L" and "valid key"
  shows "Contains Compare sl key = Some (\<exists>k \<in> set (sl_keys sl). Compare key k = 0)"
proof -
  have z: "0 < kMaxHeight" by (simp add: kMaxHeight_def)
  let ?P = "\<lambda>a. Compare (Node_key sl a) key < 0"
  have v: "\<And>a. a \<in> set (L 0) \<Longrightarrow> valid (Node_key sl a)" using sl_wfD(4) [OF assms(1) z] .
  have iff: "(\<exists>a \<in> set (L 0). Compare key (Node_key sl a) = 0) \<longleftrightarrow>
      (case pointer (dropWhile ?P (L 0)) of None \<Rightarrow> False | Some x \<Rightarrow> Compare key (Node_key sl x) = 0)"
  proof
    assume "\<exists>a \<in> set (L 0). Compare key (Node_key sl a) = 0"
    then obtain a where a: "a \<in> set (L 0)" "Compare key (Node_key sl a) = 0" by blast
    then have "Compare (Node_key sl a) key = 0" using Compare_eq_flip v assms(2) by blast
    then have "a \<in> set (dropWhile ?P (L 0))" using a(1) takeWhile_dropWhile_id [of ?P "L 0"] set_takeWhileD [of a ?P "L 0"]
      by (metis Un_iff less_irrefl set_append)
    then obtain b bs where b: "dropWhile ?P (L 0) = b # bs" "a \<in> set (b # bs)" by (cases "dropWhile ?P (L 0)") auto
    have "\<not> ?P b" using b(1) hd_dropWhile [of ?P "L 0"] by (metis list.distinct(1) list.sel(1))
    moreover have "Compare (Node_key sl b) (Node_key sl a) \<le> 0"
    proof (cases "a = b")
      case False
      have "sorted_wrt (\<lambda>a b. Compare (Node_key sl a) (Node_key sl b) < 0) (takeWhile ?P (L 0) @ dropWhile ?P (L 0))"
        using sl_wfD(3) [OF assms(1) z] by simp
      then have "sorted_wrt (\<lambda>a b. Compare (Node_key sl a) (Node_key sl b) < 0) (b # bs)"
        unfolding b(1) sorted_wrt_append by simp
      then show ?thesis using b(2) False by (simp add: less_imp_le)
    qed (use Compare_self v a(1) in auto)
    ultimately have "Compare (Node_key sl b) key = 0"
      using Compare_trans [of "Node_key sl b" "Node_key sl a" key] v a(1) \<open>Compare (Node_key sl a) key = 0\<close> assms(2)
        set_dropWhileD [of b ?P "L 0"] b(1) by simp
    then show "case pointer (dropWhile ?P (L 0)) of None \<Rightarrow> False | Some x \<Rightarrow> Compare key (Node_key sl x) = 0"
      using b(1) Compare_eq_flip [of "Node_key sl b" key] v set_dropWhileD [of b ?P "L 0"] assms(2) by simp
  next
    assume "case pointer (dropWhile ?P (L 0)) of None \<Rightarrow> False | Some x \<Rightarrow> Compare key (Node_key sl x) = 0"
    then show "\<exists>a \<in> set (L 0). Compare key (Node_key sl a) = 0"
      using set_dropWhileD [of _ ?P "L 0"] by (cases "dropWhile ?P (L 0)") auto
  qed
  then show ?thesis
    using FindGreaterOrEqual_result [OF assms] by (auto simp: Contains_def sl_wf_keys [OF assms(1)] Equal_def split: option.splits)
qed

text \<open>Insertion, on the keys in order.\<close>

lemma Insert_keys:
  assumes "sl_wf Compare valid sl L" and "valid key" and "\<forall>k \<in> set (sl_keys sl). Compare k key \<noteq> 0"
  shows "\<exists>sl' L'. Insert Compare sl key = Some sl' \<and> sl_wf Compare valid sl' L' \<and>
    sl_keys sl' = takeWhile (\<lambda>k. Compare k key < 0) (sl_keys sl) @ key # dropWhile (\<lambda>k. Compare k key < 0) (sl_keys sl)"
proof -
  have "\<forall>a \<in> set (L 0). Compare (Node_key sl a) key \<noteq> 0" using assms(3) by (simp add: sl_wf_keys [OF assms(1)])
  from Insert_wf [OF assms(1,2) this] show ?thesis by (auto simp: sl_wf_keys [OF assms(1)] sl_wf_keys)
qed

lemma sl_keys_sorted:
  assumes "sl_wf Compare valid sl L"
  shows "sorted_wrt (\<lambda>a b. Compare a b < 0) (sl_keys sl)" and "\<forall>k \<in> set (sl_keys sl). valid k"
proof -
  have z: "0 < kMaxHeight" by (simp add: kMaxHeight_def)
  show "sorted_wrt (\<lambda>a b. Compare a b < 0) (sl_keys sl)"
    using sl_wfD(3) [OF assms z] by (simp add: sl_wf_keys [OF assms] sorted_wrt_map)
  show "\<forall>k \<in> set (sl_keys sl). valid k" using sl_wfD(4) [OF assms z] by (auto simp: sl_wf_keys [OF assms])
qed

end

text \<open>Inserting a list of keys one after the other.\<close>

fun Inserts :: "('k \<Rightarrow> 'k \<Rightarrow> int) \<Rightarrow> 'k SkipList \<Rightarrow> 'k list \<Rightarrow> 'k SkipList option" where
  "Inserts compare sl [] = Some sl"
| "Inserts compare sl (k # ks) = Option.bind (Insert compare sl k) (\<lambda>sl. Inserts compare sl ks)"

context comparator
begin

lemma Inserts_keys:
  assumes "sl_wf Compare valid sl L" and "\<forall>k \<in> set ks. valid k"
    and "\<And>k k'. k \<in> set (sl_keys sl) \<Longrightarrow> k' \<in> set ks \<Longrightarrow> Compare k k' \<noteq> 0"
    and "sorted_wrt (\<lambda>a b. Compare a b \<noteq> 0) ks"
  shows "\<exists>sl' L'. Inserts Compare sl ks = Some sl' \<and> sl_wf Compare valid sl' L' \<and> set (sl_keys sl') = set (sl_keys sl) \<union> set ks \<and>
    length (sl_keys sl') = length (sl_keys sl) + length ks"
  using assms
proof (induction ks arbitrary: sl L)
  case (Cons k ks)
  obtain sl1 L1 where 1: "Insert Compare sl k = Some sl1" "sl_wf Compare valid sl1 L1"
      "sl_keys sl1 = takeWhile (\<lambda>j. Compare j k < 0) (sl_keys sl) @ k # dropWhile (\<lambda>j. Compare j k < 0) (sl_keys sl)"
    using Insert_keys [OF Cons(2), of k] Cons(3,4) by auto
  have "length (takeWhile P xs) + length (dropWhile P xs) = length xs" for P and xs :: "bytes list"
    by (simp flip: length_append)
  moreover have "set (takeWhile P xs) \<union> set (dropWhile P xs) = set xs" for P and xs :: "bytes list"
    by (simp flip: set_append)
  ultimately have s: "set (sl_keys sl1) = insert k (set (sl_keys sl))" "length (sl_keys sl1) = Suc (length (sl_keys sl))"
    unfolding 1(3) by auto
  have "\<exists>sl' L'. Inserts Compare sl1 ks = Some sl' \<and> sl_wf Compare valid sl' L' \<and> set (sl_keys sl') = set (sl_keys sl1) \<union> set ks \<and>
    length (sl_keys sl') = length (sl_keys sl1) + length ks"
    by (rule Cons(1) [OF 1(2)]) (use Cons(3-5) s in auto)
  then show ?case using 1(1) s by auto
qed auto

end

section \<open>Readers beside a writer\<close>

text \<open>
  One writer inserts keys, write by write; a reader runs \<open>FindGreaterOrEqual\<close> one loop iteration at a
  time, in any interleaving. The store of \<open>max_height_\<close> and the allocation of the node, which no reader
  can reach yet, are one step; a reader may start from a stale maximal height.
\<close>

datatype writer = Idle | Link "nat list" nat nat nat | Mid "nat list" nat nat nat
datatype reader = Off | At bytes "nat \<times> nat \<times> nat list" | Found bytes "nat option"

inductive sl_step ::
    "(bytes \<Rightarrow> bytes \<Rightarrow> int) \<Rightarrow> (bytes \<Rightarrow> bool) \<Rightarrow> bytes SkipList \<times> writer \<times> reader \<Rightarrow> bytes SkipList \<times> writer \<times> reader \<Rightarrow> bool"
  for compare :: "bytes \<Rightarrow> bytes \<Rightarrow> int" and valid :: "bytes \<Rightarrow> bool" where
  insert: "Insert_prepare compare sl key = Some (prev, height, x, sl') \<Longrightarrow> valid key \<Longrightarrow>
    \<forall>k \<in> set (sl_keys sl). compare k key \<noteq> 0 \<Longrightarrow> sl_step compare valid (sl, Idle, r) (sl', Link prev height x 0, r)"
| node: "i < height \<Longrightarrow> sl_step compare valid (sl, Link prev height x i, r) (link_node prev x i sl, Mid prev height x i, r)"
| prev: "sl_step compare valid (sl, Mid prev height x i, r) (link_prev prev x i sl, Link prev height x (Suc i), r)"
| inserted: "sl_step compare valid (sl, Link prev height x height, r) (sl, Idle, r)"
| find: "valid key \<Longrightarrow> 1 \<le> m \<Longrightarrow> m \<le> sl_max_height sl \<Longrightarrow>
    sl_step compare valid (sl, w, r) (sl, w, At key (sl_head sl, m - 1, replicate kMaxHeight (sl_head sl)))"
| search: "search_step (KeyIsAfterNode compare sl key) sl s = Inl s' \<Longrightarrow>
    sl_step compare valid (sl, w, At key s) (sl, w, At key s')"
| found: "search_step (KeyIsAfterNode compare sl key) sl s = Inr (x, n, prev) \<Longrightarrow>
    sl_step compare valid (sl, w, At key s) (sl, w, Found key n)"

definition reader_ok :: "(bytes \<Rightarrow> bytes \<Rightarrow> int) \<Rightarrow> (bytes \<Rightarrow> bool) \<Rightarrow> bytes SkipList \<Rightarrow> (nat \<Rightarrow> nat list) \<Rightarrow> reader \<Rightarrow> bool" where
  "reader_ok compare valid sl L r \<longleftrightarrow>
     (case r of
        At key (x, level, prev) \<Rightarrow> valid key \<and> level < kMaxHeight \<and>
          (x = sl_head sl \<or> x \<in> set (L level) \<and> compare (Node_key sl x) key < 0)
      | _ \<Rightarrow> True)"

definition writer_ok :: "(bytes \<Rightarrow> bytes \<Rightarrow> int) \<Rightarrow> (bytes \<Rightarrow> bool) \<Rightarrow> bytes SkipList \<Rightarrow> (nat \<Rightarrow> nat list) \<Rightarrow> writer \<Rightarrow> bool" where
  "writer_ok compare valid sl L w \<longleftrightarrow>
     (case w of
        Idle \<Rightarrow> sl_wf compare valid sl L
      | Link prev height x i \<Rightarrow> inserting compare valid sl L prev height x i
      | Mid prev height x i \<Rightarrow> inserting compare valid sl L prev height x i \<and> i < height \<and>
          Node_Next sl x i = pointer (dropWhile (\<lambda>a. compare (Node_key sl a) (Node_key sl x) < 0) (L i)))"

lemma writer_ok_wf: "writer_ok compare valid sl L w \<Longrightarrow> sl_wf compare valid sl L"
  by (auto simp: writer_ok_def inserting_def split: writer.splits)

lemma reader_ok_mono:
  assumes "reader_ok compare valid sl L r" and "sl_head sl' = sl_head sl"
    and "\<And>i. i < kMaxHeight \<Longrightarrow> set (L i) \<subseteq> set (L' i)"
    and "\<And>a i. i < kMaxHeight \<Longrightarrow> a \<in> set (L i) \<Longrightarrow> Node_key sl' a = Node_key sl a"
  shows "reader_ok compare valid sl' L' r"
  using assms unfolding reader_ok_def by (fastforce split: reader.splits prod.splits)

context comparator
begin

lemma reader_passed:
  assumes "sl_wf Compare valid sl L" and "level < kMaxHeight" and "valid key"
    and "x = sl_head sl \<or> x \<in> set (L level) \<and> Compare (Node_key sl x) key < 0"
  shows "\<exists>us vs. passed sl (L level) (\<lambda>a. Compare (Node_key sl a) key < 0) x us vs"
proof (cases "x = sl_head sl")
  case True
  then show ?thesis by (intro exI [of _ "[]"] exI [of _ "L level"]) (simp add: passed_def)
next
  case False
  with assms(4) obtain us vs where l: "L level = us @ x # vs" by (meson split_list)
  have v: "valid (Node_key sl a)" if "a \<in> set (L level)" for a using sl_wfD(4) [OF assms(1,2) that] .
  have "Compare (Node_key sl a) key < 0" if "a \<in> set us" for a
    using sl_wfD(3) [OF assms(1,2)] Compare_less_trans [of "Node_key sl a" "Node_key sl x" key] v assms(3,4) that False l
    by (auto simp: sorted_wrt_append)
  then show ?thesis using l assms(4) False
    by (intro exI [of _ "us @ [x]"] exI [of _ vs]) (auto simp: passed_def)
qed

lemma reader_step:
  assumes "sl_wf Compare valid sl L" and "reader_ok Compare valid sl L (At key s)"
  shows "search_step (KeyIsAfterNode Compare sl key) sl s = Inl s' \<Longrightarrow> reader_ok Compare valid sl L (At key s')"
    and "search_step (KeyIsAfterNode Compare sl key) sl s = Inr (x, n, prev) \<Longrightarrow>
      n = pointer (dropWhile (\<lambda>a. Compare (Node_key sl a) key < 0) (L 0))"
proof -
  obtain y level ps where s: "s = (y, level, ps)" by (cases s)
  with assms(2) have r: "valid key" "level < kMaxHeight" "y = sl_head sl \<or> y \<in> set (L level) \<and> Compare (Node_key sl y) key < 0"
    by (auto simp: reader_ok_def)
  obtain us vs where p: "passed sl (L level) (\<lambda>a. Compare (Node_key sl a) key < 0) y us vs"
    using reader_passed [OF assms(1) r(2,1,3)] by blast
  then have nxt: "Node_Next sl y level = pointer vs" using Node_Next_passed [OF assms(1) r(2)] by (simp add: passed_def)
  have down: "set (L level) \<subseteq> set (L (level - 1))" if "level \<noteq> 0"
    using sl_wfD(5) [OF assms(1), of "level - 1"] r(2) that by simp
  show "reader_ok Compare valid sl L (At key s')" if "search_step (KeyIsAfterNode Compare sl key) sl s = Inl s'"
    using that p nxt r down unfolding s
    by (cases vs) (auto simp: search_step_def KeyIsAfterNode_def reader_ok_def Let_def passed_def split: if_splits)
  show "n = pointer (dropWhile (\<lambda>a. Compare (Node_key sl a) key < 0) (L 0))"
    if "search_step (KeyIsAfterNode Compare sl key) sl s = Inr (x, n, prev)"
  proof -
    from that nxt have z: "level = 0" "n = pointer vs" "\<forall>v. pointer vs = Some v \<longrightarrow> \<not> Compare (Node_key sl v) key < 0"
      unfolding s by (auto simp: search_step_def KeyIsAfterNode_def Let_def split: if_splits)
    from passed_takeWhile [OF p z(3)] z show ?thesis by simp
  qed
qed

lemma sl_step_inv:
  assumes "sl_step Compare valid (sl, w, r) (sl', w', r')" and "writer_ok Compare valid sl L w" and "reader_ok Compare valid sl L r"
  shows "\<exists>L'. writer_ok Compare valid sl' L' w' \<and> reader_ok Compare valid sl' L' r' \<and> set (sl_keys sl) \<subseteq> set (sl_keys sl')"
  using assms(1)
proof cases
  case (insert key prev height x)
  have wf: "sl_wf Compare valid sl L" using writer_ok_wf [OF assms(2)] .
  have ne: "\<forall>a \<in> set (L 0). Compare (Node_key sl a) key \<noteq> 0" using insert by (simp add: sl_wf_keys [OF wf])
  from Insert_prepare_inserting [OF wf _ ne] insert have i: "inserting Compare valid sl' L prev height x 0"
    "\<forall>a \<in> set (L 0). Node_key sl' a = Node_key sl a" "sl_head sl' = sl_head sl" by auto
  then have "sl_wf Compare valid sl' L" by (simp add: insertingD)
  then have "sl_keys sl' = sl_keys sl" using i(2) by (simp add: sl_wf_keys [OF wf] sl_wf_keys)
  moreover have "reader_ok Compare valid sl' L r" using i(2,3) sl_wf_levels [OF wf]
    by (intro reader_ok_mono [OF assms(3)]) auto
  ultimately show ?thesis using i insert by (auto simp: writer_ok_def)
next
  case (node i height prev x)
  with assms(2) have i: "inserting Compare valid sl L prev height x i" by (simp add: writer_ok_def)
  note l = link_node_wf [OF i \<open>i < height\<close>]
  have same: "Node_key (link_node prev x i sl) a = Node_key sl a" "sl_head (link_node prev x i sl) = sl_head sl" for a
    by (simp_all add: link_node_def)
  have "sl_keys (link_node prev x i sl) = sl_keys sl"
    using sl_wf_keys [OF insertingD(1) [OF l(1)]] sl_wf_keys [OF insertingD(1) [OF i]] same by simp
  moreover have "writer_ok Compare valid (link_node prev x i sl) L (Mid prev height x i)"
    using l \<open>i < height\<close> same by (simp add: writer_ok_def)
  moreover have "reader_ok Compare valid (link_node prev x i sl) L r"
    by (rule reader_ok_mono [OF assms(3)]) (simp_all add: same)
  ultimately show ?thesis using node by auto
next
  case (prev prev height x i)
  with assms(2) have i: "inserting Compare valid sl L prev height x i" "i < height"
      "Node_Next sl x i = pointer (dropWhile (\<lambda>a. Compare (Node_key sl a) (Node_key sl x) < 0) (L i))"
    by (simp_all add: writer_ok_def)
  let ?P = "\<lambda>a. Compare (Node_key sl a) (Node_key sl x) < 0"
  let ?L = "L(i := takeWhile ?P (L i) @ x # dropWhile ?P (L i))"
  note l = link_prev_wf [OF i]
  have same: "Node_key (link_prev prev x i sl) a = Node_key sl a" "sl_head (link_prev prev x i sl) = sl_head sl" for a
    by (simp_all add: link_prev_def)
  have "set (takeWhile ?P (L i)) \<union> set (dropWhile ?P (L i)) = set (L i)" by (simp flip: set_append)
  then have sub: "set (L j) \<subseteq> set (?L j)" for j by auto
  have "set (sl_keys sl) \<subseteq> set (sl_keys (link_prev prev x i sl))"
    using sl_wf_keys [OF insertingD(1) [OF l]] sl_wf_keys [OF insertingD(1) [OF i(1)]] same sub [of 0]
    by (simp del: fun_upd_apply add: image_mono)
  moreover have "writer_ok Compare valid (link_prev prev x i sl) ?L (Link prev height x (Suc i))"
    using l by (simp add: writer_ok_def)
  moreover have "reader_ok Compare valid (link_prev prev x i sl) ?L r"
    by (rule reader_ok_mono [OF assms(3)]) (use same sub in auto)
  ultimately show ?thesis using prev by blast
next
  case (inserted prev height x)
  then show ?thesis using assms(2,3) by (auto simp: writer_ok_def dest: insertingD(1))
next
  case (find key m)
  have "m - 1 < kMaxHeight" using writer_ok_wf [OF assms(2)] find by (auto simp: sl_wf_def)
  then show ?thesis using find assms(2) by (auto simp: reader_ok_def intro!: exI [of _ L])
next
  case (search key s s')
  then show ?thesis using reader_step(1) [OF writer_ok_wf [OF assms(2)], of key s s'] assms(2,3) by auto
next
  case (found key s x n prev)
  then show ?thesis using assms(2) by (auto simp: reader_ok_def)
qed

lemma sl_reachable_inv:
  assumes "(sl_step Compare valid)\<^sup>*\<^sup>* (SkipList_new k0, Idle, Off) (sl, w, r)"
  shows "\<exists>L. writer_ok Compare valid sl L w \<and> reader_ok Compare valid sl L r"
  using assms
proof (induction "(sl, w, r)" arbitrary: sl w r rule: rtranclp_induct)
  case base
  then show ?case by (auto simp: writer_ok_def reader_ok_def intro!: exI [of _ "\<lambda>_. []"] sl_wf_new)
next
  case (step s sl w r)
  obtain sl0 w0 r0 where [simp]: "s = (sl0, w0, r0)" by (cases s)
  from step(3) [of sl0 w0 r0] obtain L where "writer_ok Compare valid sl0 L w0" "reader_ok Compare valid sl0 L r0" by auto
  with sl_step_inv [of sl0 w0 r0 sl w r L] step(2) show ?case by auto
qed

text \<open>The keys of the node a search returns, when the list does not change any more.\<close>

lemma pointer_seek_pos:
  assumes "sl_wf Compare valid sl L"
  shows "map_option (Node_key sl) (pointer (dropWhile (\<lambda>a. Compare (Node_key sl a) key < 0) (L 0))) =
    (let j = seek_pos Compare key (sl_keys sl) in if j < length (sl_keys sl) then Some (sl_keys sl ! j) else None)"
proof -
  have "map (Node_key sl) (dropWhile (\<lambda>a. Compare (Node_key sl a) key < 0) (L 0)) = dropWhile (\<lambda>k. Compare k key < 0) (sl_keys sl)"
    by (simp add: sl_wf_keys [OF assms] dropWhile_map comp_def)
  moreover have "dropWhile (\<lambda>k. Compare k key < 0) ks = drop (seek_pos Compare key ks) ks" for ks
    by (simp add: seek_pos_def dropWhile_eq_drop)
  ultimately have "map (Node_key sl) (dropWhile (\<lambda>a. Compare (Node_key sl a) key < 0) (L 0)) =
    drop (seek_pos Compare key (sl_keys sl)) (sl_keys sl)" by simp
  then have eq: "map (Node_key sl) xs = drop (seek_pos Compare key (sl_keys sl)) (sl_keys sl)"
    if "xs = dropWhile (\<lambda>a. Compare (Node_key sl a) key < 0) (L 0)" for xs using that by simp
  have "map_option (Node_key sl) (pointer xs) = (if j < length ks then Some (ks ! j) else None)"
    if "map (Node_key sl) xs = drop j ks" for xs j ks
  proof (cases xs)
    case (Cons a as)
    then have d: "drop j ks = Node_key sl a # map (Node_key sl) as" using that by simp
    then have "j < length ks" by (metis drop_all linorder_not_le list.distinct(1))
    then show ?thesis using d Cons by (simp add: Cons_nth_drop_Suc [symmetric])
  qed (use that in auto)
  from this [OF eq [OF refl]] show ?thesis unfolding Let_def .
qed

lemma search_access:
  assumes "sl_wf Compare valid sl L" and "reader_ok Compare valid sl L (At key (x, level, ps))"
  shows "x < length (sl_nodes sl) \<and> level < length (node_next (sl_nodes sl ! x))"
proof -
  from assms(2) have r: "level < kMaxHeight" "x = sl_head sl \<or> x \<in> set (L level)" by (auto simp: reader_ok_def)
  from chain_nodes [OF sl_wfD(1) [OF assms(1) r(1)]] r show ?thesis using assms(1) by (auto simp: sl_wf_def)
qed

end

section \<open>Properties\<close>

text \<open>C6: inserting distinct keys in any order gives the sorted list of these keys, whatever heights the
  random generator chooses: every insertion ends, the list holds exactly the inserted keys in
  increasing order, and \<open>Contains\<close> ends and answers whether a key was inserted.\<close>

theorem skiplist_inserts:
  assumes "distinct ks"
  shows "\<exists>sl. Inserts BytewiseCompare (SkipList_new k0) ks = Some sl \<and> set (sl_keys sl) = set ks \<and>
    sorted_wrt (\<lambda>a b. BytewiseCompare a b < 0) (sl_keys sl) \<and> length (sl_keys sl) = length ks \<and>
    (\<forall>k. Contains BytewiseCompare sl k = Some (k \<in> set ks))"
proof -
  have eq: "BytewiseCompare a b = 0 \<longleftrightarrow> a = b" for a b
    by (simp add: BytewiseCompare_def Slice_compare_eq)
  have empty: "sl_keys (SkipList_new k0) = []" by (simp add: sl_keys_def SkipList_new_def Node_Next_def kMaxHeight_def)
  have "sorted_wrt (\<lambda>a b. BytewiseCompare a b \<noteq> 0) ks"
    using assms by (simp add: eq distinct_conv_nth sorted_wrt_iff_nth_less)
  then obtain sl L where sl: "Inserts BytewiseCompare (SkipList_new k0) ks = Some sl" "sl_wf BytewiseCompare (\<lambda>_. True) sl L"
      "set (sl_keys sl) = set ks" "length (sl_keys sl) = length ks"
    using bytewise.Inserts_keys [OF sl_wf_new, of ks k0] by (auto simp: empty)
  with bytewise.sl_keys_sorted(1) [OF sl(2)] bytewise.Contains_result [OF sl(2)] show ?thesis by (auto simp: eq)
qed

theorem skiplist_inserts_witness:
  "\<exists>sl. Inserts BytewiseCompare (SkipList_new []) [str ''b'', str ''a''] = Some sl \<and>
    set (sl_keys sl) = {str ''a'', str ''b''} \<and> (\<forall>k. Contains BytewiseCompare sl k = Some (k \<in> {str ''a'', str ''b''}))"
proof -
  have "distinct [str ''b'', str ''a'']" by (simp add: str_def)
  from skiplist_inserts [OF this, of "[]"] show ?thesis by (auto simp: insert_commute)
qed

text \<open>C5: a reader beside a writer is safe and linearizable: in every state that an insertion, write by
  write, and a search, iteration by iteration, can reach in any interleaving, the search only reads
  links of allocated nodes at levels they have, and when it ends it returns the first key of the
  list as it is at that moment that is not below the target, or nothing if there is none.\<close>

theorem skiplist_concurrent_reader:
  assumes "(sl_step BytewiseCompare (\<lambda>_. True))\<^sup>*\<^sup>* (SkipList_new k0, Idle, Off) (sl, w, At key (x, level, ps))"
  shows "x < length (sl_nodes sl) \<and> level < length (node_next (sl_nodes sl ! x)) \<and>
    sorted_wrt (\<lambda>a b. BytewiseCompare a b < 0) (sl_keys sl) \<and>
    (case search_step (KeyIsAfterNode BytewiseCompare sl key) sl (x, level, ps) of
       Inl _ \<Rightarrow> True
     | Inr (_, n, _) \<Rightarrow> map_option (Node_key sl) n =
         (let j = seek_pos BytewiseCompare key (sl_keys sl) in if j < length (sl_keys sl) then Some (sl_keys sl ! j) else None))"
proof -
  obtain L where L: "writer_ok BytewiseCompare (\<lambda>_. True) sl L w" "reader_ok BytewiseCompare (\<lambda>_. True) sl L (At key (x, level, ps))"
    using bytewise.sl_reachable_inv [OF assms] by blast
  note wf = writer_ok_wf [OF L(1)]
  from bytewise.reader_step(2) [OF wf L(2)] bytewise.pointer_seek_pos [OF wf, of key] bytewise.search_access [OF wf L(2)]
    bytewise.sl_keys_sorted(1) [OF wf]
  show ?thesis by (auto split: sum.splits)
qed

definition half_inserted :: "bytes SkipList" where
  "half_inserted =
     link_prev (replicate kMaxHeight 0) 1 0 (link_node (replicate kMaxHeight 0) 1 0
       \<lparr> sl_nodes = [\<lparr> node_key = [], node_next = replicate kMaxHeight None \<rparr>, \<lparr> node_key = str ''b'', node_next = [None, None] \<rparr>],
         sl_head = 0, sl_max_height = 2, sl_rnd = 386994929 \<rparr>)"

theorem skiplist_concurrent_reader_witness:
  "0 < length (sl_nodes half_inserted) \<and> 0 < length (node_next (sl_nodes half_inserted ! 0)) \<and>
    (case search_step (KeyIsAfterNode BytewiseCompare half_inserted (str ''a'')) half_inserted (0, 0, replicate kMaxHeight 0) of
       Inl _ \<Rightarrow> False | Inr (_, n, _) \<Rightarrow> map_option (Node_key half_inserted) n = Some (str ''b''))"
proof -
  let ?sl = "\<lparr> sl_nodes = [\<lparr> node_key = [], node_next = replicate kMaxHeight None \<rparr>, \<lparr> node_key = str ''b'', node_next = [None, None] \<rparr>],
         sl_head = 0, sl_max_height = 2, sl_rnd = 386994929 \<rparr>"
  let ?p = "replicate kMaxHeight 0"
  let ?step = "sl_step BytewiseCompare (\<lambda>_. True)"
  let ?w = "Link ?p 2 1 (Suc 0)"
  have prep: "Insert_prepare BytewiseCompare (SkipList_new []) (str ''b'') = Some (?p, 2, 1, ?sl)" by code_simp
  have head: "sl_head half_inserted = 0" "sl_max_height half_inserted = 2"
    by (simp_all add: half_inserted_def link_prev_def link_node_def)
  have s1: "?step (SkipList_new [], Idle, Off) (?sl, Link ?p 2 1 0, Off)"
    by (rule sl_step.insert [OF prep]) (simp_all add: sl_keys_def SkipList_new_def Node_Next_def kMaxHeight_def)
  have s2: "?step (?sl, Link ?p 2 1 0, Off) (link_node ?p 1 0 ?sl, Mid ?p 2 1 0, Off)" by (rule sl_step.node) simp
  have s3: "?step (link_node ?p 1 0 ?sl, Mid ?p 2 1 0, Off) (half_inserted, ?w, Off)"
    unfolding half_inserted_def by (rule sl_step.prev)
  have s4: "?step (half_inserted, ?w, Off) (half_inserted, ?w, At (str ''a'') (0, 0, ?p))"
    using sl_step.find [of "\<lambda>_. True" "str ''a''" 1 half_inserted BytewiseCompare ?w Off] by (simp add: head)
  have "?step\<^sup>*\<^sup>* (SkipList_new [], Idle, Off) (half_inserted, ?w, At (str ''a'') (0, 0, ?p))"
    using r_into_rtranclp [of ?step, OF s1] s2 s3 s4 by (rule rtranclp.rtrancl_into_rtrancl [OF rtranclp.rtrancl_into_rtrancl [OF rtranclp.rtrancl_into_rtrancl]])
  from skiplist_concurrent_reader [OF this]
  have "0 < length (sl_nodes half_inserted) \<and> 0 < length (node_next (sl_nodes half_inserted ! 0)) \<and>
    (case search_step (KeyIsAfterNode BytewiseCompare half_inserted (str ''a'')) half_inserted (0, 0, replicate kMaxHeight 0) of
       Inl _ \<Rightarrow> True
     | Inr (_, n, _) \<Rightarrow> map_option (Node_key half_inserted) n =
         (let j = seek_pos BytewiseCompare (str ''a'') (sl_keys half_inserted)
          in if j < length (sl_keys half_inserted) then Some (sl_keys half_inserted ! j) else None))" by blast
  moreover have "sl_keys half_inserted = [str ''b'']" by code_simp
  moreover have "seek_pos BytewiseCompare (str ''a'') [str ''b''] = 0" by code_simp
  moreover have "isl (search_step (KeyIsAfterNode BytewiseCompare half_inserted (str ''a'')) half_inserted (0, 0, replicate kMaxHeight 0)) = False"
    by code_simp
  ultimately show ?thesis by (auto split: sum.splits)
qed

end
