(* ===== verification/Memtable.thy ===== *)
theory Memtable
  imports Skip_List Write_Batch
begin

text \<open>
  The memtable, \<open>db/memtable.cc\<close>: a skip list of entries that hold an internal key and a value, both
  length-prefixed. \<open>Get\<close> finds the newest entry of a user key at or below a sequence number; the
  iterator shows the entries in internal key order. The arena is accounted for in theory \<open>Arena\<close>.
\<close>

section \<open>Entries\<close>

text \<open>\<open>GetLengthPrefixedSlice\<close> on a pointer: the slice and what follows it. It reads at most five bytes
  for the length and trusts the entry for the rest.\<close>

definition mem_slice :: "bytes \<Rightarrow> bytes \<times> bytes" where
  "mem_slice data =
     (case GetVarint32Ptr (take 5 data) of
        None \<Rightarrow> ([], [])
      | Some (len, p) \<Rightarrow>
          (let data = drop (length (take 5 data) - length p) data
           in (take (unat len) data, drop (unat len) data)))"

definition MemTable_GetLengthPrefixedSlice :: "bytes \<Rightarrow> bytes" where
  "MemTable_GetLengthPrefixedSlice data = fst (mem_slice data)"

definition KeyComparator :: "(bytes \<Rightarrow> bytes \<Rightarrow> int) \<Rightarrow> bytes \<Rightarrow> bytes \<Rightarrow> int" where
  "KeyComparator Compare aptr bptr =
     InternalKeyCompare Compare (MemTable_GetLengthPrefixedSlice aptr) (MemTable_GetLengthPrefixedSlice bptr)"

definition EncodeKey :: "bytes \<Rightarrow> bytes" where
  "EncodeKey target = PutVarint32 [] (of_nat (length target)) @ target"

section \<open>MemTable\<close>

record MemTable =
  mem_table :: "bytes SkipList"
  mem_refs :: int

definition MemTable_new :: MemTable where
  "MemTable_new = \<lparr> mem_table = SkipList_new [], mem_refs = 0 \<rparr>"

definition MemTable_Ref :: "MemTable \<Rightarrow> MemTable" where
  "MemTable_Ref mem = mem\<lparr> mem_refs := mem_refs mem + 1 \<rparr>"

text \<open>\<open>None\<close>: the table has been deleted.\<close>

definition MemTable_Unref :: "MemTable \<Rightarrow> MemTable option" where
  "MemTable_Unref mem =
     (let mem = mem\<lparr> mem_refs := mem_refs mem - 1 \<rparr> in if mem_refs mem \<le> 0 then None else Some mem)"

definition MemTable_Add ::
    "(bytes \<Rightarrow> bytes \<Rightarrow> int) \<Rightarrow> u64 \<Rightarrow> ValueType \<Rightarrow> bytes \<Rightarrow> bytes \<Rightarrow> MemTable \<Rightarrow> MemTable option" where
  "MemTable_Add Compare s t key val mem =
     (let internal_key_size = length key + 8;
          buf = EncodeVarint32 (of_nat internal_key_size) @ key @ EncodeFixed64 (PackSequenceAndType s t) @
                EncodeVarint32 (of_nat (length val)) @ val
      in map_option (\<lambda>tab. mem\<lparr> mem_table := tab \<rparr>) (Insert (KeyComparator Compare) (mem_table mem) buf))"

text \<open>The result of \<open>Get\<close>: not in the table (false), a value (true, \<open>*value\<close> set), or a deletion (true,
  \<open>*s\<close> set).\<close>

datatype get_result = GetMiss | GetValue bytes | GetStatus Status

definition MemTable_Get :: "(bytes \<Rightarrow> bytes \<Rightarrow> int) \<Rightarrow> MemTable \<Rightarrow> LookupKey \<Rightarrow> get_result option" where
  "MemTable_Get Compare mem key =
     (case SkipIter_Seek (KeyComparator Compare) (mem_table mem) (LookupKey_memtable_key key) of
        None \<Rightarrow> None
      | Some iter \<Rightarrow> Some (
          if SkipIter_Valid iter
          then (let entry = SkipIter_key (mem_table mem) iter
                in case GetVarint32Ptr (take 5 entry) of
                     None \<Rightarrow> GetMiss
                   | Some (key_length, p) \<Rightarrow>
                       (let key_ptr = drop (length (take 5 entry) - length p) entry;
                            key_length = unat key_length
                        in if Compare (take (key_length - 8) key_ptr) (LookupKey_user_key key) = 0
                           then (let tag = DecodeFixed64 (drop (key_length - 8) key_ptr);
                                     t = tag AND 0xff
                                 in if t = ValueType_code kTypeValue
                                    then GetValue (MemTable_GetLengthPrefixedSlice (drop key_length key_ptr))
                                    else if t = ValueType_code kTypeDeletion then GetStatus (NotFound [] [])
                                    else GetMiss)
                           else GetMiss))
          else GetMiss))"

section \<open>MemTableIterator\<close>

text \<open>The methods of the iterator over a table; its state is the node of the skip list iterator.\<close>

definition MemTableIterator_methods :: "(bytes \<Rightarrow> bytes \<Rightarrow> int) \<Rightarrow> bytes SkipList \<Rightarrow> nat option Iterator" where
  "MemTableIterator_methods Compare table =
     \<lparr> it_Valid = SkipIter_Valid,
       it_SeekToFirst = (\<lambda>_. SkipIter_SeekToFirst table),
       it_SeekToLast = (\<lambda>_. the (SkipIter_SeekToLast table)),
       it_Seek = (\<lambda>_ k. the (SkipIter_Seek (KeyComparator Compare) table (EncodeKey k))),
       it_Next = SkipIter_Next table,
       it_Prev = (\<lambda>it. the (SkipIter_Prev (KeyComparator Compare) table it)),
       it_key = (\<lambda>it. MemTable_GetLengthPrefixedSlice (SkipIter_key table it)),
       it_value = (\<lambda>it. MemTable_GetLengthPrefixedSlice (snd (mem_slice (SkipIter_key table it)))),
       it_status = (\<lambda>_. Status_OK) \<rparr>"

definition MemTable_NewIterator :: "nat option" where
  "MemTable_NewIterator = None"

section \<open>Length-prefixed entries\<close>

text \<open>What an entry starts with: an internal key of less than 4 GiB behind its length.\<close>

definition mem_valid :: "bytes \<Rightarrow> bool" where
  "mem_valid k \<longleftrightarrow> (\<exists>ik rest. k = varint (length ik) @ ik @ rest \<and> 8 \<le> length ik \<and> length ik < 2 ^ 32)"

lemma GetVarint32Ptr_take5:
  assumes "n < 2 ^ 32"
  shows "GetVarint32Ptr (take 5 (varint n @ rest)) = Some (of_nat n, take (5 - length (varint n)) rest)"
proof -
  have "n < 128 ^ Suc 4" using assms by simp
  from length_varint_le [OF this] have "take 5 (varint n @ rest) = varint n @ take (5 - length (varint n)) rest" by simp
  then show ?thesis using GetVarint32_varint [of "of_nat n" "take (5 - length (varint n)) rest"] assms
    by (simp add: unat_of_nat_small GetVarint32_def)
qed

lemma drop_take5:
  assumes "n < 2 ^ 32"
  shows "drop (length (take 5 (varint n @ rest)) - length (take (5 - length (varint n)) rest)) (varint n @ rest) = rest"
proof -
  have "n < 128 ^ Suc 4" using assms by simp
  from length_varint_le [OF this]
  have "length (take 5 (varint n @ rest)) - length (take (5 - length (varint n)) rest) = length (varint n)" by simp
  then show ?thesis by simp
qed

lemma mem_slice_prefixed:
  assumes "length x < 2 ^ 32"
  shows "mem_slice (varint (length x) @ x @ rest) = (x, rest)"
  unfolding mem_slice_def GetVarint32Ptr_take5 [OF assms] option.case prod.case Let_def drop_take5 [OF assms]
  using assms by (simp add: unat_of_nat_small)

lemma KeyComparator_prefixed:
  assumes "length a < 2 ^ 32" and "length b < 2 ^ 32"
  shows "KeyComparator Compare (varint (length a) @ a @ r) (varint (length b) @ b @ r') = InternalKeyCompare Compare a b"
  using assms by (simp add: KeyComparator_def MemTable_GetLengthPrefixedSlice_def mem_slice_prefixed)

sublocale user_comparator \<subseteq> memcmp: comparator "KeyComparator Compare" mem_valid
  by unfold_locales (auto simp: KeyComparator_def internal_self intro: internal_trans internal_flip)

text \<open>An entry of the table, as a pair of internal key and value.\<close>

definition mem_encode :: "bytes \<times> bytes \<Rightarrow> bytes" where
  "mem_encode e = varint (length (fst e)) @ fst e @ varint (length (snd e)) @ snd e"

definition mem_decode :: "bytes \<Rightarrow> bytes \<times> bytes" where
  "mem_decode k = (case mem_slice k of (ik, rest) \<Rightarrow> (ik, fst (mem_slice rest)))"

definition entry_ok :: "bytes \<times> bytes \<Rightarrow> bool" where
  "entry_ok e \<longleftrightarrow> 8 \<le> length (fst e) \<and> length (fst e) < 2 ^ 32 \<and> length (snd e) < 2 ^ 32"

lemma mem_decode_encode: "entry_ok e \<Longrightarrow> mem_decode (mem_encode e) = e"
  using mem_slice_prefixed [of "snd e" "[]"]
  by (simp add: mem_decode_def mem_encode_def entry_ok_def mem_slice_prefixed)

lemma mem_encode_valid: "entry_ok e \<Longrightarrow> mem_valid (mem_encode e)"
  by (auto simp: mem_valid_def mem_encode_def entry_ok_def)

section \<open>The table as a list of entries\<close>

text \<open>The operations of a table: sequence number, type, user key and value.\<close>

type_synonym mem_op = "u64 \<times> ValueType \<times> bytes \<times> bytes"

fun op_entry :: "mem_op \<Rightarrow> bytes \<times> bytes" where
  "op_entry (s, t, k, v) = (InternalKey_make k s t, v)"

definition mem_op_ok :: "mem_op \<Rightarrow> bool" where
  "mem_op_ok x = (case x of (s, t, k, v) \<Rightarrow> s \<le> kMaxSequenceNumber \<and> length k + 8 < 2 ^ 32 \<and> length v < 2 ^ 32)"

fun MemTable_Adds :: "(bytes \<Rightarrow> bytes \<Rightarrow> int) \<Rightarrow> MemTable \<Rightarrow> mem_op list \<Rightarrow> MemTable option" where
  "MemTable_Adds Compare mem [] = Some mem"
| "MemTable_Adds Compare mem ((s, t, k, v) # xs) =
     Option.bind (MemTable_Add Compare s t k v mem) (\<lambda>mem. MemTable_Adds Compare mem xs)"

lemma op_entry_ok: "mem_op_ok x \<Longrightarrow> entry_ok (op_entry x)"
  by (cases x) (auto simp: mem_op_ok_def entry_ok_def)

lemma MemTable_Add_entry:
  assumes "mem_op_ok (s, t, k, v)"
  shows "MemTable_Add Compare s t k v mem =
    map_option (\<lambda>tab. mem\<lparr> mem_table := tab \<rparr>) (Insert (KeyComparator Compare) (mem_table mem) (mem_encode (op_entry (s, t, k, v))))"
proof -
  have "unat (of_nat (length k + 8) :: u32) = length k + 8" "unat (of_nat (length v) :: u32) = length v"
    using assms by (simp_all add: mem_op_ok_def unat_of_nat_small del: of_nat_add)
  then show ?thesis
    by (simp add: MemTable_Add_def Let_def EncodeVarint32_varint mem_encode_def InternalKey_make_eq del: of_nat_add)
qed

lemma MemTable_Adds_Inserts:
  assumes "\<forall>x \<in> set xs. mem_op_ok x"
  shows "MemTable_Adds Compare mem xs =
    map_option (\<lambda>tab. mem\<lparr> mem_table := tab \<rparr>)
      (Inserts (KeyComparator Compare) (mem_table mem) (map (mem_encode \<circ> op_entry) xs))"
  using assms
proof (induction xs arbitrary: mem)
  case (Cons x xs)
  obtain s t k v where x: "x = (s, t, k, v)" by (cases x)
  from Cons(2) x have "mem_op_ok (s, t, k, v)" by simp
  with Cons show ?case
    by (cases "Insert (KeyComparator Compare) (mem_table mem) (mem_encode (op_entry x))")
      (simp_all add: x MemTable_Add_entry comp_def option.map_comp)
qed simp

text \<open>The newest operation on a user key among those a snapshot can see.\<close>

definition op_visible :: "(bytes \<Rightarrow> bytes \<Rightarrow> int) \<Rightarrow> bytes \<Rightarrow> u64 \<Rightarrow> mem_op \<Rightarrow> bool" where
  "op_visible Compare u s x \<longleftrightarrow> Compare (fst (snd (snd x))) u = 0 \<and> fst x \<le> s"

definition newest :: "(bytes \<Rightarrow> bytes \<Rightarrow> int) \<Rightarrow> bytes \<Rightarrow> u64 \<Rightarrow> mem_op list \<Rightarrow> mem_op option" where
  "newest Compare u s xs =
     fold (\<lambda>x best. if op_visible Compare u s x \<and> (case best of None \<Rightarrow> True | Some b \<Rightarrow> fst b < fst x)
                    then Some x else best) xs None"

definition newest_result :: "mem_op option \<Rightarrow> get_result" where
  "newest_result x =
     (case x of None \<Rightarrow> GetMiss
      | Some (_, t, _, v) \<Rightarrow> (case t of kTypeValue \<Rightarrow> GetValue v | kTypeDeletion \<Rightarrow> GetStatus (NotFound [] [])))"

lemma newest_props:
  shows "newest Compare u s xs = None \<longleftrightarrow> (\<forall>x \<in> set xs. \<not> op_visible Compare u s x)"
    and "newest Compare u s xs = Some x \<Longrightarrow> x \<in> set xs \<and> op_visible Compare u s x \<and>
      (\<forall>y \<in> set xs. op_visible Compare u s y \<longrightarrow> fst y \<le> fst x)"
proof -
  have "(newest Compare u s xs = None \<longleftrightarrow> (\<forall>x \<in> set xs. \<not> op_visible Compare u s x)) \<and>
    (\<forall>x. newest Compare u s xs = Some x \<longrightarrow> x \<in> set xs \<and> op_visible Compare u s x \<and>
      (\<forall>y \<in> set xs. op_visible Compare u s y \<longrightarrow> fst y \<le> fst x))"
  proof (induction xs rule: rev_induct)
    case Nil
    then show ?case by (simp add: newest_def)
  next
    case (snoc x xs)
    have step: "newest Compare u s (xs @ [x]) =
        (if op_visible Compare u s x \<and> (case newest Compare u s xs of None \<Rightarrow> True | Some b \<Rightarrow> fst b < fst x)
         then Some x else newest Compare u s xs)"
      by (simp add: newest_def)
    show ?case
    proof (cases "newest Compare u s xs")
      case None
      with snoc show ?thesis by (auto simp: step)
    next
      case (Some b)
      with snoc have b: "b \<in> set xs" "op_visible Compare u s b" "\<forall>y \<in> set xs. op_visible Compare u s y \<longrightarrow> fst y \<le> fst b" by auto
      show ?thesis
      proof (cases "op_visible Compare u s x \<and> fst b < fst x")
        case True
        then have "\<forall>y \<in> set xs. op_visible Compare u s y \<longrightarrow> fst y \<le> fst x" using b(3) by (meson less_imp_le order_trans)
        with True Some show ?thesis by (auto simp: step)
      next
        case False
        with b Some show ?thesis by (auto simp: step not_less)
      qed
    qed
  qed
  then show "newest Compare u s xs = None \<longleftrightarrow> (\<forall>x \<in> set xs. \<not> op_visible Compare u s x)"
    and "newest Compare u s xs = Some x \<Longrightarrow> x \<in> set xs \<and> op_visible Compare u s x \<and>
      (\<forall>y \<in> set xs. op_visible Compare u s y \<longrightarrow> fst y \<le> fst x)" by auto
qed

section \<open>Lookup\<close>

lemma PackSequenceAndType_le_iff:
  assumes "a \<le> kMaxSequenceNumber" and "b \<le> kMaxSequenceNumber"
  shows "PackSequenceAndType a t \<le> PackSequenceAndType b kTypeValue \<longleftrightarrow> a \<le> b"
  using assms by (cases t) (auto simp: word_le_nat_alt unat_PackSequenceAndType ValueType_code_def)

lemma PackSequenceAndType_le_imp:
  assumes "a \<le> kMaxSequenceNumber" and "b \<le> kMaxSequenceNumber" and "PackSequenceAndType a t \<le> PackSequenceAndType b t'"
  shows "a \<le> b"
proof -
  have "PackSequenceAndType b t' \<le> PackSequenceAndType b kTypeValue"
    using assms(2) by (cases t') (simp_all add: PackSequenceAndType_le_iff)
  with assms show ?thesis using PackSequenceAndType_le_iff [of a b t] by (meson order_trans)
qed

text \<open>The memtable holds the operations \<open>xs\<close>.\<close>

definition mem_holds :: "(bytes \<Rightarrow> bytes \<Rightarrow> int) \<Rightarrow> MemTable \<Rightarrow> mem_op list \<Rightarrow> (nat \<Rightarrow> nat list) \<Rightarrow> bool" where
  "mem_holds Compare mem xs L \<longleftrightarrow> sl_wf (KeyComparator Compare) mem_valid (mem_table mem) L \<and>
     set (sl_keys (mem_table mem)) = mem_encode ` op_entry ` set xs \<and> (\<forall>x \<in> set xs. mem_op_ok x) \<and> distinct (map fst xs) \<and>
     length (sl_keys (mem_table mem)) = length xs"

lemma MemTable_Get_entry:
  assumes "mem_op_ok (q, t, k, v)"
    and "SkipIter_Seek (KeyComparator Compare) (mem_table mem) (LookupKey_memtable_key key) = Some (Some n)"
    and "Node_key (mem_table mem) n = mem_encode (op_entry (q, t, k, v))"
  shows "MemTable_Get Compare mem key =
    Some (if Compare k (LookupKey_user_key key) = 0 then newest_result (Some (q, t, k, v)) else GetMiss)"
proof -
  let ?ik = "InternalKey_make k q t"
  have len: "length ?ik < 2 ^ 32" and v: "length v < 2 ^ 32" using assms(1) by (auto simp: mem_op_ok_def)
  have e: "SkipIter_key (mem_table mem) (Some n) = varint (length ?ik) @ ?ik @ varint (length v) @ v"
    by (simp add: SkipIter_key_def assms(3) mem_encode_def)
  have un: "unat (of_nat (length ?ik) :: u32) = length ?ik" using len by (intro unat_of_nat_small) simp
  have tag: "DecodeFixed64 (drop (length ?ik - 8) (?ik @ r)) = PackSequenceAndType q t" for r
    by (simp add: InternalKey_make_eq)
  have low: "PackSequenceAndType q t AND 0xff = ValueType_code t"
    by (rule bit_eqI) (cases t; auto simp: PackSequenceAndType_def ValueType_code_def byte_bits)
  have val: "MemTable_GetLengthPrefixedSlice (varint (length v) @ v) = v"
    using mem_slice_prefixed [OF v, of "[]"] by (simp add: MemTable_GetLengthPrefixedSlice_def)
  have uk: "take (length ?ik - 8) (?ik @ r) = k" for r by (simp add: InternalKey_make_eq)
  have "MemTable_Get Compare mem key =
    Some (if Compare (take (length ?ik - 8) (?ik @ varint (length v) @ v)) (LookupKey_user_key key) = 0
      then (let t' = DecodeFixed64 (drop (length ?ik - 8) (?ik @ varint (length v) @ v)) AND 0xff
            in if t' = ValueType_code kTypeValue
               then GetValue (MemTable_GetLengthPrefixedSlice (drop (length ?ik) (?ik @ varint (length v) @ v)))
               else if t' = ValueType_code kTypeDeletion then GetStatus (NotFound [] []) else GetMiss)
      else GetMiss)"
    unfolding MemTable_Get_def assms(2) option.case e Let_def GetVarint32Ptr_take5 [OF len] prod.case drop_take5 [OF len] un
    by (simp add: SkipIter_Valid_def)
  then show ?thesis
    unfolding uk tag low Let_def drop_length_append val by (cases t) (simp_all add: newest_result_def ValueType_code_def)
qed

context user_comparator
begin

lemma entries_distinct:
  assumes "mem_op_ok x" and "mem_op_ok y" and "fst x \<noteq> fst y"
  shows "KeyComparator Compare (mem_encode (op_entry x)) (mem_encode (op_entry y)) \<noteq> 0"
proof -
  obtain s t k v s' t' k' v' where [simp]: "x = (s, t, k, v)" "y = (s', t', k', v')" by (cases x; cases y)
  have len: "length (fst (op_entry x)) < 2 ^ 32" "length (fst (op_entry y)) < 2 ^ 32"
    using op_entry_ok assms(1,2) by (auto simp: entry_ok_def)
  have "PackSequenceAndType s t \<noteq> PackSequenceAndType s' t'"
    using PackSequenceAndType_seq [of s t] PackSequenceAndType_seq [of s' t'] assms by (auto simp: mem_op_ok_def)
  then show ?thesis
    unfolding mem_encode_def KeyComparator_prefixed [OF len] by (auto simp: InternalKeyCompare_def Let_def)
qed

lemma MemTable_Adds_holds:
  assumes "\<forall>x \<in> set xs. mem_op_ok x" and "distinct (map fst xs)"
  shows "\<exists>mem L. MemTable_Adds Compare MemTable_new xs = Some mem \<and> mem_holds Compare mem xs L"
proof -
  let ?ks = "map (mem_encode \<circ> op_entry) xs"
  have empty: "sl_keys (SkipList_new [] :: bytes SkipList) = []"
    by (simp add: sl_keys_def SkipList_new_def Node_Next_def kMaxHeight_def)
  have "sorted_wrt (\<lambda>a b. KeyComparator Compare a b \<noteq> 0) ?ks"
    unfolding sorted_wrt_map
  proof (rule sorted_wrt_mono_rel [of _ "\<lambda>x y. fst x \<noteq> fst y"])
    show "sorted_wrt (\<lambda>x y. fst x \<noteq> fst y) xs"
      using assms(2) by (auto simp: distinct_conv_nth sorted_wrt_iff_nth_less)
  qed (use assms(1) entries_distinct in auto)
  moreover have "\<forall>k \<in> set ?ks. mem_valid k" using assms(1) mem_encode_valid op_entry_ok by auto
  ultimately obtain sl L where "Inserts (KeyComparator Compare) (SkipList_new []) ?ks = Some sl"
      "sl_wf (KeyComparator Compare) mem_valid sl L" "set (sl_keys sl) = set ?ks" "length (sl_keys sl) = length xs"
    using memcmp.Inserts_keys [OF sl_wf_new, of ?ks "[]"] by (auto simp: empty)
  then show ?thesis
    using assms by (auto simp: MemTable_Adds_Inserts [OF assms(1)] MemTable_new_def mem_holds_def image_comp)
qed

lemma entry_less:
  assumes "mem_op_ok (q, t, k, v)" and "mem_op_ok (q', t', k', v')"
    and "KeyComparator Compare (mem_encode (op_entry (q, t, k, v))) (mem_encode (op_entry (q', t', k', v'))) < 0"
  shows "Compare k k' < 0 \<or> Compare k k' = 0 \<and> q' \<le> q"
proof -
  have len: "length (InternalKey_make k q t) < 2 ^ 32" "length (InternalKey_make k' q' t') < 2 ^ 32"
    using assms(1,2) by (simp_all add: mem_op_ok_def)
  from assms(3) have "Compare k k' < 0 \<or> Compare k k' = 0 \<and> PackSequenceAndType q' t' < PackSequenceAndType q t"
    unfolding mem_encode_def op_entry.simps fst_conv KeyComparator_prefixed [OF len] internal_less_iff by simp
  then show ?thesis using PackSequenceAndType_le_imp [of q' q t' t] assms(1,2) by (auto simp: mem_op_ok_def)
qed

lemma MemTable_Get_holds:
  assumes "mem_holds Compare mem xs L" and "length u + 8 < 2 ^ 32" and "s \<le> kMaxSequenceNumber"
  shows "MemTable_Get Compare mem (LookupKey_make u s) = Some (newest_result (newest Compare u s xs))"
proof -
  let ?sl = "mem_table mem"
  let ?target = "LookupKey_memtable_key (LookupKey_make u s)"
  let ?P = "\<lambda>a. KeyComparator Compare (Node_key ?sl a) ?target < 0"
  have wf: "sl_wf (KeyComparator Compare) mem_valid ?sl L" and keys: "set (sl_keys ?sl) = mem_encode ` op_entry ` set xs"
    and xs: "\<forall>x \<in> set xs. mem_op_ok x" "distinct (map fst xs)" using assms(1) by (auto simp: mem_holds_def)
  have target: "?target = varint (length (InternalKey_make u s kTypeValue)) @ InternalKey_make u s kTypeValue @ []"
    using LookupKey_memtable_key_eq [OF assms(2), of s] by (simp add: kValueTypeForSeek_def)
  have tv: "mem_valid ?target" unfolding mem_valid_def using target assms(2) by fastforce
  have seek: "SkipIter_Seek (KeyComparator Compare) ?sl ?target = Some (pointer (dropWhile ?P (L 0)))"
    using memcmp.FindGreaterOrEqual_result [OF wf tv] by (auto simp: SkipIter_Seek_def)
  have cmp: "KeyComparator Compare (mem_encode (op_entry (q, t, k, v))) ?target < 0 \<longleftrightarrow>
      Compare k u < 0 \<or> Compare k u = 0 \<and> s < q" if "mem_op_ok (q, t, k, v)" for q t k v
  proof -
    have len: "length (InternalKey_make k q t) < 2 ^ 32" "length (InternalKey_make u s kTypeValue) < 2 ^ 32"
      using that assms(2) by (simp_all add: mem_op_ok_def)
    have "\<not> PackSequenceAndType s kTypeValue < PackSequenceAndType q t \<longleftrightarrow> q \<le> s"
      using PackSequenceAndType_le_iff [of q s t] that assms(3) by (simp add: not_less mem_op_ok_def)
    then show ?thesis unfolding target mem_encode_def op_entry.simps fst_conv KeyComparator_prefixed [OF len] internal_less_iff
      by auto
  qed
  have node: "\<exists>x \<in> set xs. Node_key ?sl a = mem_encode (op_entry x)" if "a \<in> set (L 0)" for a
    using keys that by (auto simp: memcmp.sl_wf_keys [OF wf])
  show ?thesis
  proof (cases "dropWhile ?P (L 0)")
    case Nil
    then have all: "\<forall>a \<in> set (L 0). ?P a" by (simp add: dropWhile_eq_Nil_conv)
    have "newest Compare u s xs = None"
      unfolding newest_props(1)
    proof
      fix x assume x: "x \<in> set xs"
      then obtain a where "a \<in> set (L 0)" "Node_key ?sl a = mem_encode (op_entry x)"
        using keys by (force simp: memcmp.sl_wf_keys [OF wf])
      with all have "KeyComparator Compare (mem_encode (op_entry x)) ?target < 0" by auto
      then show "\<not> op_visible Compare u s x"
        using cmp [of "fst x" "fst (snd x)" "fst (snd (snd x))" "snd (snd (snd x))"] xs(1) x by (auto simp: op_visible_def)
    qed
    with seek Nil show ?thesis by (simp add: MemTable_Get_def SkipIter_Valid_def newest_result_def)
  next
    case (Cons n ns)
    have n: "n \<in> set (L 0)" "\<not> ?P n"
      using Cons set_dropWhileD [of n ?P "L 0"] hd_dropWhile [of ?P "L 0"] by (simp, metis list.distinct(1) list.sel(1))
    obtain q t k v where x: "(q, t, k, v) \<in> set xs" "Node_key ?sl n = mem_encode (op_entry (q, t, k, v))"
      using node [OF n(1)] by auto
    have xok: "mem_op_ok (q, t, k, v)" using xs(1) x(1) by blast
    have get: "MemTable_Get Compare mem (LookupKey_make u s) =
        Some (if Compare k u = 0 then newest_result (Some (q, t, k, v)) else GetMiss)"
      using MemTable_Get_entry [OF xok _ x(2), of Compare "LookupKey_make u s"] seek Cons by (simp add: LookupKey_views)
    have ku: "\<not> Compare k u < 0" "Compare k u = 0 \<Longrightarrow> q \<le> s" using cmp [OF xok] n(2) x(2) by (auto simp: not_less)
    have after: "(q', t', k', v') = (q, t, k, v) \<or> Compare k k' < 0 \<or> Compare k k' = 0 \<and> q' \<le> q"
      if y: "(q', t', k', v') \<in> set xs" "op_visible Compare u s (q', t', k', v')" for q' t' k' v'
    proof -
      have yok: "mem_op_ok (q', t', k', v')" using xs(1) y(1) by blast
      obtain a where a: "a \<in> set (L 0)" "Node_key ?sl a = mem_encode (op_entry (q', t', k', v'))"
        using keys y(1) by (force simp: memcmp.sl_wf_keys [OF wf])
      have "\<not> ?P a" using cmp [OF yok] a(2) y(2) by (auto simp: op_visible_def)
      then have "a \<in> set (dropWhile ?P (L 0))"
        using a(1) takeWhile_dropWhile_id [of ?P "L 0"] set_takeWhileD [of a ?P "L 0"] by (metis Un_iff set_append)
      then have "a = n \<or> a \<in> set ns" using Cons by simp
      then show ?thesis
      proof
        assume "a = n"
        then have "KeyComparator Compare (mem_encode (op_entry (q, t, k, v))) (mem_encode (op_entry (q', t', k', v'))) = 0"
          using a(2) x(2) by (simp add: KeyComparator_def internal_self)
        then have "q = q'" using entries_distinct [OF xok yok] by auto
        then show ?thesis using eq_key_imp_eq_value [OF xs(2)] x(1) y(1) by blast
      next
        assume "a \<in> set ns"
        have "sorted_wrt (\<lambda>a b. KeyComparator Compare (Node_key ?sl a) (Node_key ?sl b) < 0) (takeWhile ?P (L 0) @ n # ns)"
          using sl_wfD(3) [OF wf, of 0] Cons [symmetric] by (simp add: kMaxHeight_def)
        with \<open>a \<in> set ns\<close> have "KeyComparator Compare (Node_key ?sl n) (Node_key ?sl a) < 0" by (simp add: sorted_wrt_append)
        then show ?thesis using entry_less [OF xok yok] a(2) x(2) by simp
      qed
    qed
    show ?thesis
    proof (cases "newest Compare u s xs")
      case None
      then have "\<not> op_visible Compare u s (q, t, k, v)" using newest_props(1) x(1) by blast
      then have "Compare k u \<noteq> 0" using ku(2) by (auto simp: op_visible_def)
      then show ?thesis using get None by (simp add: newest_result_def)
    next
      case (Some y)
      obtain q' t' k' v' where y: "y = (q', t', k', v')" by (cases y)
      from newest_props(2) [OF Some] have yp: "(q', t', k', v') \<in> set xs" "op_visible Compare u s (q', t', k', v')"
        "\<forall>z \<in> set xs. op_visible Compare u s z \<longrightarrow> fst z \<le> q'" by (auto simp: y)
      then have k': "Compare k' u = 0" "Compare u k' = 0" using Compare_eq_flip by (auto simp: op_visible_def)
      have "Compare k k' \<le> 0" using after [OF yp(1,2)] Compare_self by auto
      then have "Compare k u = 0" using Compare_trans [of k k' u] k'(1) ku(1) by simp
      then have vis: "op_visible Compare u s (q, t, k, v)" using ku(2) by (simp add: op_visible_def)
      have "\<not> Compare k k' < 0" using Compare_less_le_trans [of k k' u] k'(1) ku(1) by auto
      with after [OF yp(1,2)] yp(3) x(1) vis have "q = q'" by fastforce
      then have "(q, t, k, v) = y" using eq_key_imp_eq_value [OF xs(2)] x(1) yp(1) y by blast
      then show ?thesis using get \<open>Compare k u = 0\<close> Some by simp
    qed
  qed
qed

end

section \<open>The iterator keeps the iterator contract\<close>

definition mem_key_ok :: "bytes \<Rightarrow> bool" where
  "mem_key_ok k \<longleftrightarrow> 8 \<le> length k \<and> length k < 2 ^ 32"

definition mem_on ::
    "(bytes \<Rightarrow> bytes \<Rightarrow> int) \<Rightarrow> bytes SkipList \<Rightarrow> (nat \<Rightarrow> nat list) \<Rightarrow> (bytes \<times> bytes) list \<Rightarrow> nat option \<Rightarrow> nat \<Rightarrow> bool" where
  "mem_on Compare table L es it j \<longleftrightarrow> sl_wf (KeyComparator Compare) mem_valid table L \<and>
     map (Node_key table) (L 0) = map mem_encode es \<and> (\<forall>e \<in> set es. entry_ok e) \<and>
     j \<le> length es \<and> it = pointer (drop j (L 0))"

lemma EncodeKey_eq: "mem_key_ok k \<Longrightarrow> EncodeKey k = varint (length k) @ k @ []"
  by (simp add: EncodeKey_def mem_key_ok_def PutVarint32_varint unat_of_nat_small)

lemma pointer_drop: "j < length xs \<Longrightarrow> pointer (drop j xs) = Some (xs ! j)"
  by (simp add: Cons_nth_drop_Suc [symmetric])

lemma last_takeWhile_nth: "last (h # take n xs) = (if n = 0 \<or> xs = [] then h else xs ! (min n (length xs) - 1))"
  by (auto simp: last_conv_nth min_def)

context user_comparator
begin

lemma mem_on_nth:
  assumes "mem_on Compare table L es it j" and "j < length es"
  shows "length (L 0) = length es" and "it = Some (L 0 ! j)" and "Node_key table (L 0 ! j) = mem_encode (es ! j)"
    and "L 0 ! j \<noteq> sl_head table"
proof -
  have m: "map (Node_key table) (L 0) = map mem_encode es" using assms(1) by (simp add: mem_on_def)
  show len: "length (L 0) = length es" using arg_cong [OF m, of length] by simp
  show "it = Some (L 0 ! j)" using assms len by (simp add: mem_on_def pointer_drop)
  show "Node_key table (L 0 ! j) = mem_encode (es ! j)" using arg_cong [OF m, of "\<lambda>xs. xs ! j"] assms(2) len by simp
  have "sl_head table \<notin> set (L 0)" using assms(1) sl_wfD(2) [of "KeyComparator Compare" mem_valid table L 0]
    by (simp add: mem_on_def kMaxHeight_def)
  then show "L 0 ! j \<noteq> sl_head table" using assms(2) len nth_mem [of j "L 0"] by force
qed

lemma mem_holds_on:
  assumes "mem_holds Compare mem xs L"
  shows "\<exists>es. set es = op_entry ` set xs \<and> length es = length xs \<and> mem_on Compare (mem_table mem) L es None (length es)"
proof -
  have wf: "sl_wf (KeyComparator Compare) mem_valid (mem_table mem) L" using assms by (simp add: mem_holds_def)
  let ?es = "map mem_decode (sl_keys (mem_table mem))"
  have dec: "mem_decode (mem_encode (op_entry x)) = op_entry x" "entry_ok (op_entry x)" if "x \<in> set xs" for x
    using assms that mem_decode_encode op_entry_ok by (auto simp: mem_holds_def)
  have keys: "set (sl_keys (mem_table mem)) = mem_encode ` op_entry ` set xs" "length (sl_keys (mem_table mem)) = length xs"
    using assms by (simp_all add: mem_holds_def)
  have set: "set ?es = op_entry ` set xs" unfolding set_map keys(1) image_image using dec(1) by (rule image_cong [OF refl])
  have enc: "map mem_encode ?es = sl_keys (mem_table mem)"
    unfolding map_map by (rule map_idI) (use keys(1) dec(1) in auto)
  have "length (L 0) = length xs" using keys(2) by (simp add: memcmp.sl_wf_keys [OF wf])
  then have "mem_on Compare (mem_table mem) L ?es None (length ?es)"
    unfolding mem_on_def enc set using wf dec(2) keys(2) memcmp.sl_wf_keys [OF wf] by auto
  with set keys(2) show ?thesis by (intro exI [of _ ?es]) simp
qed

lemma mem_less:
  assumes "entry_ok a" and "mem_key_ok k"
  shows "KeyComparator Compare (mem_encode a) (EncodeKey k) = InternalKeyCompare Compare (fst a) k"
  unfolding mem_encode_def EncodeKey_eq [OF assms(2)]
  by (rule KeyComparator_prefixed) (use assms in \<open>simp_all add: entry_ok_def mem_key_ok_def\<close>)

lemma mem_on_Seek:
  assumes "mem_on Compare table L es it j" and "mem_key_ok k"
  shows "mem_on Compare table L es (the (SkipIter_Seek (KeyComparator Compare) table (EncodeKey k)))
    (seek_pos (InternalKeyCompare Compare) k (map fst es))"
proof -
  have wf: "sl_wf (KeyComparator Compare) mem_valid table L" and m: "map (Node_key table) (L 0) = map mem_encode es"
    and ok: "\<forall>e \<in> set es. entry_ok e" using assms(1) by (auto simp: mem_on_def)
  let ?P = "\<lambda>a. KeyComparator Compare (Node_key table a) (EncodeKey k) < 0"
  have "mem_valid (EncodeKey k)"
    unfolding mem_valid_def using EncodeKey_eq [OF assms(2)] assms(2) mem_key_ok_def by blast
  from memcmp.FindGreaterOrEqual_result [OF wf this]
  have "the (SkipIter_Seek (KeyComparator Compare) table (EncodeKey k)) = pointer (dropWhile ?P (L 0))"
    by (auto simp: SkipIter_Seek_def)
  moreover have "length (takeWhile ?P (L 0)) = seek_pos (InternalKeyCompare Compare) k (map fst es)"
  proof -
    have "length (takeWhile ?P (L 0)) = length (takeWhile (\<lambda>x. KeyComparator Compare x (EncodeKey k) < 0) (map (Node_key table) (L 0)))"
      by (simp add: takeWhile_map comp_def)
    also have "\<dots> = length (takeWhile (\<lambda>e. KeyComparator Compare (mem_encode e) (EncodeKey k) < 0) es)"
      by (simp add: m takeWhile_map comp_def)
    also have "\<dots> = length (takeWhile (\<lambda>e. InternalKeyCompare Compare (fst e) k < 0) es)"
      using ok mem_less [OF _ assms(2)] by (metis (no_types, lifting) takeWhile_cong)
    finally show ?thesis by (simp add: seek_pos_def takeWhile_map comp_def)
  qed
  ultimately show ?thesis using assms(1) by (simp add: mem_on_def dropWhile_eq_drop)
qed

lemma mem_on_Prev:
  assumes "mem_on Compare table L es it j" and "j < length es"
  shows "mem_on Compare table L es (the (SkipIter_Prev (KeyComparator Compare) table it)) (if j = 0 then length es else j - 1)"
proof -
  note n = mem_on_nth [OF assms]
  have wf: "sl_wf (KeyComparator Compare) mem_valid table L" using assms(1) by (simp add: mem_on_def)
  have z: "0 < kMaxHeight" by (simp add: kMaxHeight_def)
  let ?key = "Node_key table (L 0 ! j)"
  let ?P = "\<lambda>a. KeyComparator Compare (Node_key table a) ?key < 0"
  have in_L: "L 0 ! j \<in> set (L 0)" using n(1) assms(2) by simp
  have kv: "mem_valid ?key" using sl_wfD(4) [OF wf z in_L] .
  have srt: "?P (L 0 ! i) \<longleftrightarrow> i < j" if "i < length (L 0)" for i
    using sl_wfD(3) [OF wf z] that n(1) assms(2) memcmp.Compare_irrefl [OF kv] memcmp.Compare_less_flip [OF sl_wfD(4) [OF wf z nth_mem [OF that]] kv]
    by (cases i j rule: linorder_cases) (force simp: sorted_wrt_iff_nth_less)+
  have tw: "takeWhile ?P (L 0) = take j (L 0)"
    by (rule takeWhile_eq_take_P_nth) (use srt n(1) assms(2) in auto)
  have prev: "the (SkipIter_Prev (KeyComparator Compare) table it) = SkipIter_unhead table (last (sl_head table # take j (L 0)))"
    using memcmp.FindLessThan_result [OF wf kv] tw n(2) by (simp add: SkipIter_Prev_def)
  show ?thesis
  proof (cases "j = 0")
    case True
    then show ?thesis using prev assms(1) n(1) by (simp add: mem_on_def SkipIter_unhead_def)
  next
    case False
    then have "last (sl_head table # take j (L 0)) = L 0 ! (j - 1)"
      using n(1) assms(2) by (auto simp: last_conv_nth min_def)
    moreover have "sl_head table \<noteq> L 0 ! (j - 1)"
      using sl_wfD(2) [OF wf z] nth_mem [of "j - 1" "L 0"] n(1) assms(2) by (metis less_imp_diff_less)
    ultimately show ?thesis using False prev assms n(1) pointer_drop [of "j - 1" "L 0"]
      by (simp add: mem_on_def SkipIter_unhead_def)
  qed
qed

lemma mem_on_SeekToLast:
  assumes "mem_on Compare table L es it j"
  shows "mem_on Compare table L es (the (SkipIter_SeekToLast table)) (length es - 1)"
proof -
  have wf: "sl_wf (KeyComparator Compare) mem_valid table L" and m: "map (Node_key table) (L 0) = map mem_encode es"
    using assms by (auto simp: mem_on_def)
  have z: "0 < kMaxHeight" by (simp add: kMaxHeight_def)
  have len: "length (L 0) = length es" using arg_cong [OF m, of length] by simp
  have last: "the (SkipIter_SeekToLast table) = SkipIter_unhead table (last (sl_head table # L 0))"
    using memcmp.FindLast_result [OF wf] by (simp add: SkipIter_SeekToLast_def)
  show ?thesis
  proof (cases "L 0 = []")
    case True
    then show ?thesis using assms last len by (simp add: mem_on_def SkipIter_unhead_def)
  next
    case False
    then have "last (L 0) \<noteq> sl_head table" using sl_wfD(2) [OF wf z] last_in_set by metis
    with False last have "the (SkipIter_SeekToLast table) = pointer (drop (length es - 1) (L 0))"
      by (simp add: SkipIter_unhead_def last_conv_nth pointer_drop flip: len)
    then show ?thesis using assms by (simp add: mem_on_def)
  qed
qed

lemma mem_list_iterator:
  "list_iterator (MemTableIterator_methods Compare table) (InternalKeyCompare Compare) mem_key_ok es (mem_on Compare table L es)"
proof (unfold_locales, goal_cases)
  case (1 it j)
  then show ?case by (simp add: mem_on_def)
next
  case (2 it j)
  then have wf: "sl_wf (KeyComparator Compare) mem_valid table L" and m: "map (Node_key table) (L 0) = map mem_encode es"
    and ok: "\<forall>e \<in> set es. entry_ok e" by (auto simp: mem_on_def)
  have "sorted_wrt (\<lambda>a b. KeyComparator Compare a b < 0) (map mem_encode es)"
    using memcmp.sl_keys_sorted(1) [OF wf] by (simp add: memcmp.sl_wf_keys [OF wf] m)
  then have "sorted_wrt (\<lambda>a b. KeyComparator Compare (mem_encode a) (mem_encode b) < 0) es" by (simp add: sorted_wrt_map)
  moreover have "KeyComparator Compare (mem_encode a) (mem_encode b) = InternalKeyCompare Compare (fst a) (fst b)"
    if "a \<in> set es" "b \<in> set es" for a b
    unfolding mem_encode_def by (rule KeyComparator_prefixed) (use ok that in \<open>auto simp: entry_ok_def\<close>)
  ultimately show ?case unfolding sorted_wrt_map by (simp add: sorted_wrt_iff_nth_less)
next
  case (3 it j e)
  then show ?case by (auto simp: mem_on_def entry_ok_def mem_key_ok_def)
next
  case (4 it j)
  have "map (Node_key table) (L 0) = map mem_encode es" "it = pointer (drop j (L 0))" using 4 by (auto simp: mem_on_def)
  from arg_cong [OF this(1), of length] this(2) show ?case
    by (cases "j < length es") (auto simp: MemTableIterator_methods_def SkipIter_Valid_def pointer_drop)
next
  case (5 it j)
  then have "entry_ok (es ! j)" by (simp add: mem_on_def)
  from mem_decode_encode [OF this] mem_on_nth [OF 5] show ?case
    by (simp add: MemTableIterator_methods_def SkipIter_key_def MemTable_GetLengthPrefixedSlice_def mem_decode_def split: prod.splits)
next
  case (6 it j)
  then show ?case by (simp add: MemTableIterator_methods_def)
next
  case (7 it j)
  have wf: "sl_wf (KeyComparator Compare) mem_valid table L" using 7 by (simp add: mem_on_def)
  have "L 0 = take (Suc j) (L 0) @ drop (Suc j) (L 0)" by simp
  from Node_Next_passed [OF wf _ this] mem_on_nth [OF 7] 7 have "Node_Next table (L 0 ! j) 0 = pointer (drop (Suc j) (L 0))"
    by (simp add: kMaxHeight_def take_Suc_conv_app_nth)
  then have "it_Next (MemTableIterator_methods Compare table) it = pointer (drop (Suc j) (L 0))"
    by (simp add: MemTableIterator_methods_def SkipIter_Next_def mem_on_nth(2) [OF 7])
  then show ?case using 7 by (simp add: mem_on_def)
next
  case (8 it j)
  then show ?case using mem_on_Prev [OF 8] by (simp add: MemTableIterator_methods_def)
next
  case (9 it j)
  have "sl_wf (KeyComparator Compare) mem_valid table L" using 9 by (simp add: mem_on_def)
  from Node_Next_passed [OF this, of 0 "[]" "L 0"] 9 show ?case
    by (simp add: MemTableIterator_methods_def SkipIter_SeekToFirst_def mem_on_def kMaxHeight_def)
next
  case (10 it j)
  then show ?case using mem_on_SeekToLast [OF 10] by (simp add: MemTableIterator_methods_def)
next
  case (11 it j k)
  then show ?case using mem_on_Seek [OF 11] by (simp add: MemTableIterator_methods_def)
qed

end

sublocale user_comparator \<subseteq> mem_iter: list_iterator "MemTableIterator_methods Compare table" "InternalKeyCompare Compare"
    mem_key_ok es "mem_on Compare table L es" for table es L
  by (rule mem_list_iterator)

section \<open>Properties\<close>

text \<open>C4: \<open>Get\<close> on a memtable finds what was written last: after any sequence of additions with distinct
  sequence numbers, in any order, every addition and the lookup end, and looking up a user key at a
  snapshot gives the value or the deletion of the operation with the largest sequence number not
  above the snapshot, and a miss if there is none.\<close>

theorem memtable_get_newest:
  assumes "\<forall>x \<in> set xs. mem_op_ok x" and "distinct (map fst xs)" and "length u + 8 < 2 ^ 32" and "s \<le> kMaxSequenceNumber"
  shows "\<exists>mem. MemTable_Adds BytewiseCompare MemTable_new xs = Some mem \<and>
    MemTable_Get BytewiseCompare mem (LookupKey_make u s) = Some (newest_result (newest BytewiseCompare u s xs))"
  using bytewise_user.MemTable_Adds_holds [OF assms(1,2)] bytewise_user.MemTable_Get_holds [OF _ assms(3,4)] by blast

theorem memtable_get_newest_witness:
  "\<exists>mem. MemTable_Adds BytewiseCompare MemTable_new
      [(1, kTypeValue, str ''k'', str ''v1''), (3, kTypeDeletion, str ''k'', []), (2, kTypeValue, str ''k'', str ''v2'')] = Some mem \<and>
    MemTable_Get BytewiseCompare mem (LookupKey_make (str ''k'') 2) = Some (GetValue (str ''v2''))"
proof -
  let ?xs = "[(1, kTypeValue, str ''k'', str ''v1''), (3, kTypeDeletion, str ''k'', []), (2, kTypeValue, str ''k'', str ''v2'')] :: mem_op list"
  have ok: "\<forall>x \<in> set ?xs. mem_op_ok x" by (simp add: mem_op_ok_def kMaxSequenceNumber_eq str_def)
  have len: "length (str ''k'') + 8 < 2 ^ 32" by (simp add: str_def)
  have seq: "(2 :: u64) \<le> kMaxSequenceNumber" by (simp add: kMaxSequenceNumber_eq)
  have "newest_result (newest BytewiseCompare (str ''k'') 2 ?xs) = GetValue (str ''v2'')" by code_simp
  with memtable_get_newest [OF ok _ len seq] show ?thesis by simp
qed

text \<open>C7: the memtable iterator shows the entries in internal key order: scanning it forwards from a
  table that holds the operations \<open>xs\<close> gives a list of entries that is sorted by user key and then by
  decreasing sequence number, is a permutation of the entries of \<open>xs\<close>, and ends after them.\<close>

theorem memtable_iterates:
  assumes "\<forall>x \<in> set xs. mem_op_ok x" and "distinct (map fst xs)"
  shows "\<exists>mem es. MemTable_Adds BytewiseCompare MemTable_new xs = Some mem \<and> set es = op_entry ` set xs \<and>
    length es = length xs \<and> sorted_wrt (\<lambda>a b. InternalKeyCompare BytewiseCompare a b < 0) (map fst es) \<and>
    (let I = MemTableIterator_methods BytewiseCompare (mem_table mem); first = it_SeekToFirst I MemTable_NewIterator
     in map (\<lambda>n. let x = (it_Next I ^^ n) first in (it_key I x, it_value I x)) [0..<length es] = es \<and>
        \<not> it_Valid I ((it_Next I ^^ length es) first))"
proof -
  obtain mem L where mem: "MemTable_Adds BytewiseCompare MemTable_new xs = Some mem" "mem_holds BytewiseCompare mem xs L"
    using bytewise_user.MemTable_Adds_holds [OF assms] by blast
  obtain es where es: "set es = op_entry ` set xs" "length es = length xs" "mem_on BytewiseCompare (mem_table mem) L es None (length es)"
    using bytewise_user.mem_holds_on [OF mem(2)] by blast
  from bytewise_user.mem_iter.scan_forward [OF es(3)] bytewise_user.mem_iter.on_sorted [OF es(3)] mem(1) es(1,2) show ?thesis
    unfolding MemTable_NewIterator_def Let_def by blast
qed

theorem memtable_iterates_witness:
  "\<exists>mem (es :: (bytes \<times> bytes) list). MemTable_Adds BytewiseCompare MemTable_new [(7, kTypeValue, str ''b'', []), (8, kTypeDeletion, str ''a'', [])] = Some mem \<and>
    set es = {(InternalKey_make (str ''b'') 7 kTypeValue, []), (InternalKey_make (str ''a'') 8 kTypeDeletion, [])} \<and>
    sorted_wrt (\<lambda>a b. InternalKeyCompare BytewiseCompare a b < 0) (map fst es)"
proof -
  let ?xs = "[(7, kTypeValue, str ''b'', []), (8, kTypeDeletion, str ''a'', [])] :: mem_op list"
  have ok: "\<forall>x \<in> set ?xs. mem_op_ok x" by (simp add: mem_op_ok_def kMaxSequenceNumber_eq str_def)
  have d: "distinct (map fst ?xs)" by simp
  from memtable_iterates [OF ok d]
  obtain mem es where 1: "MemTable_Adds BytewiseCompare MemTable_new ?xs = Some mem" and 2: "set es = op_entry ` set ?xs"
      and 3: "sorted_wrt (\<lambda>a b. InternalKeyCompare BytewiseCompare a b < 0) (map fst es)"
    by (elim exE conjE) (rule that)
  have 4: "set es = {(InternalKey_make (str ''b'') 7 kTypeValue, []), (InternalKey_make (str ''a'') 8 kTypeDeletion, [])}"
    using 2 by simp
  show ?thesis by (rule exI [of _ mem], rule exI [of _ es], rule conjI [OF 1 conjI [OF 4 3]])
qed

end
