(* ===== verification/Merger.thy ===== *)
theory Merger
  imports Block
begin

text \<open>
  The merging iterator, \<open>table/merger.cc\<close>: it keeps one wrapped iterator per source and stands on the
  one with the smallest key when moving forwards, with the largest when moving backwards. It is a
  cursor on the sorted union of its sources, through every change of direction.
\<close>

datatype Direction = kForward | kReverse

text \<open>\<open>current_\<close> points into the array of children: it is an index.\<close>

record 'it MergingIterator =
  mi_children :: "'it IteratorWrapper list"
  mi_current :: "nat option"
  mi_direction :: Direction

definition MergingIterator_new :: "'it Iterator \<Rightarrow> 'it list \<Rightarrow> 'it MergingIterator" where
  "MergingIterator_new I children =
     \<lparr> mi_children = map (\<lambda>c. IteratorWrapper_Set I IteratorWrapper_new (Some c)) children,
       mi_current = None, mi_direction = kForward \<rparr>"

definition smaller :: "(bytes \<Rightarrow> bytes \<Rightarrow> int) \<Rightarrow> 'it IteratorWrapper list \<Rightarrow> nat \<Rightarrow> nat option \<Rightarrow> nat option" where
  "smaller Compare cs i smallest =
     (if iw_valid (cs ! i)
      then (case smallest of
              None \<Rightarrow> Some i
            | Some s \<Rightarrow> if Compare (iw_key (cs ! i)) (iw_key (cs ! s)) < 0 then Some i else smallest)
      else smallest)"

definition FindSmallest :: "(bytes \<Rightarrow> bytes \<Rightarrow> int) \<Rightarrow> 'it MergingIterator \<Rightarrow> 'it MergingIterator" where
  "FindSmallest Compare m =
     m\<lparr> mi_current := fold (smaller Compare (mi_children m)) [0..<length (mi_children m)] None \<rparr>"

definition larger :: "(bytes \<Rightarrow> bytes \<Rightarrow> int) \<Rightarrow> 'it IteratorWrapper list \<Rightarrow> nat \<Rightarrow> nat option \<Rightarrow> nat option" where
  "larger Compare cs i largest =
     (if iw_valid (cs ! i)
      then (case largest of
              None \<Rightarrow> Some i
            | Some s \<Rightarrow> if Compare (iw_key (cs ! i)) (iw_key (cs ! s)) > 0 then Some i else largest)
      else largest)"

definition FindLargest :: "(bytes \<Rightarrow> bytes \<Rightarrow> int) \<Rightarrow> 'it MergingIterator \<Rightarrow> 'it MergingIterator" where
  "FindLargest Compare m =
     m\<lparr> mi_current := fold (larger Compare (mi_children m)) (rev [0..<length (mi_children m)]) None \<rparr>"

definition Merging_Valid :: "'it MergingIterator \<Rightarrow> bool" where
  "Merging_Valid m \<longleftrightarrow> mi_current m \<noteq> None"

definition Merging_SeekToFirst :: "'it Iterator \<Rightarrow> (bytes \<Rightarrow> bytes \<Rightarrow> int) \<Rightarrow> 'it MergingIterator \<Rightarrow> 'it MergingIterator" where
  "Merging_SeekToFirst I Compare m =
     (FindSmallest Compare (m\<lparr> mi_children := map (IteratorWrapper_SeekToFirst I) (mi_children m) \<rparr>))
       \<lparr> mi_direction := kForward \<rparr>"

definition Merging_SeekToLast :: "'it Iterator \<Rightarrow> (bytes \<Rightarrow> bytes \<Rightarrow> int) \<Rightarrow> 'it MergingIterator \<Rightarrow> 'it MergingIterator" where
  "Merging_SeekToLast I Compare m =
     (FindLargest Compare (m\<lparr> mi_children := map (IteratorWrapper_SeekToLast I) (mi_children m) \<rparr>))
       \<lparr> mi_direction := kReverse \<rparr>"

definition Merging_Seek :: "'it Iterator \<Rightarrow> (bytes \<Rightarrow> bytes \<Rightarrow> int) \<Rightarrow> 'it MergingIterator \<Rightarrow> bytes \<Rightarrow> 'it MergingIterator" where
  "Merging_Seek I Compare m target =
     (FindSmallest Compare (m\<lparr> mi_children := map (\<lambda>c. IteratorWrapper_Seek I c target) (mi_children m) \<rparr>))
       \<lparr> mi_direction := kForward \<rparr>"

definition Merging_key :: "'it MergingIterator \<Rightarrow> bytes" where
  "Merging_key m = iw_key (mi_children m ! the (mi_current m))"

definition Merging_value :: "'it Iterator \<Rightarrow> 'it MergingIterator \<Rightarrow> bytes" where
  "Merging_value I m = IteratorWrapper_value I (mi_children m ! the (mi_current m))"

lemma Find_direction:
  "(FindSmallest Compare m)\<lparr> mi_direction := d \<rparr> = FindSmallest Compare (m\<lparr> mi_direction := d \<rparr>)"
  "(FindLargest Compare m)\<lparr> mi_direction := d \<rparr> = FindLargest Compare (m\<lparr> mi_direction := d \<rparr>)"
  by (simp_all add: FindSmallest_def FindLargest_def)

text \<open>The children other than the current one, brought behind or before the current key.\<close>

definition child_forward :: "'it Iterator \<Rightarrow> (bytes \<Rightarrow> bytes \<Rightarrow> int) \<Rightarrow> bytes \<Rightarrow> 'it IteratorWrapper \<Rightarrow> 'it IteratorWrapper" where
  "child_forward I Compare key child =
     (let child = IteratorWrapper_Seek I child key
      in if iw_valid child \<and> Compare key (iw_key child) = 0 then IteratorWrapper_Next I child else child)"

definition child_reverse :: "'it Iterator \<Rightarrow> bytes \<Rightarrow> 'it IteratorWrapper \<Rightarrow> 'it IteratorWrapper" where
  "child_reverse I key child =
     (let child = IteratorWrapper_Seek I child key
      in if iw_valid child then IteratorWrapper_Prev I child else IteratorWrapper_SeekToLast I child)"

definition others :: "'it MergingIterator \<Rightarrow> ('it IteratorWrapper \<Rightarrow> 'it IteratorWrapper) \<Rightarrow> 'it IteratorWrapper list" where
  "others m f = map (\<lambda>i. if mi_current m = Some i then mi_children m ! i else f (mi_children m ! i)) [0..<length (mi_children m)]"

definition on_current :: "('it IteratorWrapper \<Rightarrow> 'it IteratorWrapper) \<Rightarrow> 'it MergingIterator \<Rightarrow> 'it MergingIterator" where
  "on_current f m =
     m\<lparr> mi_children := (mi_children m)[the (mi_current m) := f (mi_children m ! the (mi_current m))] \<rparr>"

definition Merging_Next :: "'it Iterator \<Rightarrow> (bytes \<Rightarrow> bytes \<Rightarrow> int) \<Rightarrow> 'it MergingIterator \<Rightarrow> 'it MergingIterator" where
  "Merging_Next I Compare m =
     (let m = (if mi_direction m \<noteq> kForward
               then m\<lparr> mi_children := others m (child_forward I Compare (Merging_key m)), mi_direction := kForward \<rparr>
               else m)
      in FindSmallest Compare (on_current (IteratorWrapper_Next I) m))"

definition Merging_Prev :: "'it Iterator \<Rightarrow> (bytes \<Rightarrow> bytes \<Rightarrow> int) \<Rightarrow> 'it MergingIterator \<Rightarrow> 'it MergingIterator" where
  "Merging_Prev I Compare m =
     (let m = (if mi_direction m \<noteq> kReverse
               then m\<lparr> mi_children := others m (child_reverse I (Merging_key m)), mi_direction := kReverse \<rparr>
               else m)
      in FindLargest Compare (on_current (IteratorWrapper_Prev I) m))"

fun first_error :: "Status list \<Rightarrow> Status" where
  "first_error [] = Status_OK"
| "first_error (s # ss) = (if ok s then first_error ss else s)"

lemma first_error_OK: "first_error (replicate n Status_OK) = Status_OK"
  by (induction n) auto

definition Merging_status :: "'it Iterator \<Rightarrow> 'it MergingIterator \<Rightarrow> Status" where
  "Merging_status I m = first_error (map (IteratorWrapper_status I) (mi_children m))"

definition Merging_methods :: "'it Iterator \<Rightarrow> (bytes \<Rightarrow> bytes \<Rightarrow> int) \<Rightarrow> 'it MergingIterator Iterator" where
  "Merging_methods I Compare =
     \<lparr> it_Valid = Merging_Valid, it_SeekToFirst = Merging_SeekToFirst I Compare, it_SeekToLast = Merging_SeekToLast I Compare,
       it_Seek = Merging_Seek I Compare, it_Next = Merging_Next I Compare, it_Prev = Merging_Prev I Compare,
       it_key = Merging_key, it_value = Merging_value I, it_status = Merging_status I \<rparr>"

text \<open>What \<open>NewMergingIterator\<close> returns: an empty iterator, the only child, or a merging iterator.\<close>

datatype 'it merged = MergedEmpty Status | MergedOne 'it | MergedMany "'it MergingIterator"

definition NewMergingIterator :: "'it Iterator \<Rightarrow> 'it list \<Rightarrow> 'it merged" where
  "NewMergingIterator I list =
     (case list of [] \<Rightarrow> MergedEmpty NewEmptyIterator | [c] \<Rightarrow> MergedOne c | _ \<Rightarrow> MergedMany (MergingIterator_new I list))"

section \<open>Choosing a child\<close>

lemma fold_smaller:
  assumes "\<And>a b c. a \<in> S \<Longrightarrow> b \<in> S \<Longrightarrow> c \<in> S \<Longrightarrow> Compare a b \<le> 0 \<Longrightarrow> Compare b c \<le> 0 \<Longrightarrow> Compare a c \<le> 0"
    and "\<And>a b. a \<in> S \<Longrightarrow> b \<in> S \<Longrightarrow> \<not> Compare a b < 0 \<Longrightarrow> Compare b a \<le> 0" and "\<And>a. a \<in> S \<Longrightarrow> Compare a a \<le> 0"
    and "\<And>i. i \<in> set is \<Longrightarrow> iw_valid (cs ! i) \<Longrightarrow> iw_key (cs ! i) \<in> S"
  shows "case fold (smaller Compare cs) is None of
    None \<Rightarrow> \<forall>i \<in> set is. \<not> iw_valid (cs ! i)
  | Some c \<Rightarrow> c \<in> set is \<and> iw_valid (cs ! c) \<and> (\<forall>i \<in> set is. iw_valid (cs ! i) \<longrightarrow> Compare (iw_key (cs ! c)) (iw_key (cs ! i)) \<le> 0)"
  using assms(4)
proof (induction "is" rule: rev_induct)
  case (snoc i "is")
  then have IH: "case fold (smaller Compare cs) is None of
    None \<Rightarrow> \<forall>i \<in> set is. \<not> iw_valid (cs ! i)
  | Some c \<Rightarrow> c \<in> set is \<and> iw_valid (cs ! c) \<and> (\<forall>i \<in> set is. iw_valid (cs ! i) \<longrightarrow> Compare (iw_key (cs ! c)) (iw_key (cs ! i)) \<le> 0)"
    by auto
  have step: "fold (smaller Compare cs) (is @ [i]) None = smaller Compare cs i (fold (smaller Compare cs) is None)" by simp
  show ?case
  proof (cases "fold (smaller Compare cs) is None")
    case None
    with IH show ?thesis unfolding step None using snoc(2) assms(3) by (auto simp: smaller_def)
  next
    case (Some c)
    with IH have c: "c \<in> set is" "iw_valid (cs ! c)" "\<forall>i \<in> set is. iw_valid (cs ! i) \<longrightarrow> Compare (iw_key (cs ! c)) (iw_key (cs ! i)) \<le> 0"
      by auto
    then have cS: "iw_key (cs ! c) \<in> S" using snoc(2) by simp
    show ?thesis
    proof (cases "iw_valid (cs ! i) \<and> Compare (iw_key (cs ! i)) (iw_key (cs ! c)) < 0")
      case True
      then have "iw_key (cs ! i) \<in> S" using snoc(2) by simp
      with True c cS snoc(2) show ?thesis unfolding step Some
        by (auto simp: smaller_def intro: assms(3) assms(1) [of _ "iw_key (cs ! c)"])
    next
      case False
      with c cS snoc(2) show ?thesis unfolding step Some by (auto simp: smaller_def intro: assms(2))
    qed
  qed
qed simp

lemma larger_smaller: "larger Compare = smaller (\<lambda>a b. - Compare a b)"
  by (auto simp: fun_eq_iff larger_def smaller_def split: option.splits)

context comparator
begin

lemma FindSmallest_current:
  assumes "\<And>c. c \<in> set (mi_children m) \<Longrightarrow> iw_valid c \<Longrightarrow> valid (iw_key c)"
  shows "case mi_current (FindSmallest Compare m) of
    None \<Rightarrow> \<forall>c \<in> set (mi_children m). \<not> iw_valid c
  | Some i \<Rightarrow> i < length (mi_children m) \<and> iw_valid (mi_children m ! i) \<and>
      (\<forall>c \<in> set (mi_children m). iw_valid c \<longrightarrow> Compare (iw_key (mi_children m ! i)) (iw_key c) \<le> 0)"
proof -
  have "case fold (smaller Compare (mi_children m)) [0..<length (mi_children m)] None of
    None \<Rightarrow> \<forall>i \<in> set [0..<length (mi_children m)]. \<not> iw_valid (mi_children m ! i)
  | Some c \<Rightarrow> c \<in> set [0..<length (mi_children m)] \<and> iw_valid (mi_children m ! c) \<and>
     (\<forall>i \<in> set [0..<length (mi_children m)]. iw_valid (mi_children m ! i) \<longrightarrow>
        Compare (iw_key (mi_children m ! c)) (iw_key (mi_children m ! i)) \<le> 0)"
  proof (rule fold_smaller [where S = "Collect valid"], goal_cases)
    case (1 a b c)
    then show ?case using Compare_trans [of a b c] by simp
  next
    case (2 a b)
    then show ?case using Compare_le_flip [of b a] by simp
  next
    case (3 a)
    then show ?case by (simp add: Compare_self)
  next
    case (4 i)
    then show ?case using assms by simp
  qed
  then show ?thesis by (auto simp: FindSmallest_def all_set_conv_all_nth split: option.splits)
qed

lemma FindLargest_current:
  assumes "\<And>c. c \<in> set (mi_children m) \<Longrightarrow> iw_valid c \<Longrightarrow> valid (iw_key c)"
  shows "case mi_current (FindLargest Compare m) of
    None \<Rightarrow> \<forall>c \<in> set (mi_children m). \<not> iw_valid c
  | Some i \<Rightarrow> i < length (mi_children m) \<and> iw_valid (mi_children m ! i) \<and>
      (\<forall>c \<in> set (mi_children m). iw_valid c \<longrightarrow> Compare (iw_key c) (iw_key (mi_children m ! i)) \<le> 0)"
proof -
  let ?is = "rev [0..<length (mi_children m)]"
  have "case fold (smaller (\<lambda>a b. - Compare a b) (mi_children m)) ?is None of
    None \<Rightarrow> \<forall>i \<in> set ?is. \<not> iw_valid (mi_children m ! i)
  | Some c \<Rightarrow> c \<in> set ?is \<and> iw_valid (mi_children m ! c) \<and>
     (\<forall>i \<in> set ?is. iw_valid (mi_children m ! i) \<longrightarrow>
        - Compare (iw_key (mi_children m ! c)) (iw_key (mi_children m ! i)) \<le> 0)"
  proof (rule fold_smaller [where S = "Collect valid"], goal_cases)
    case (1 a b c)
    then show ?case using Compare_trans [of c b a] Compare_le_flip [of b a] Compare_le_flip [of c b] Compare_le_flip [of c a] by simp
  next
    case (2 a b)
    then show ?case using Compare_le_flip [of a b] by simp
  next
    case (3 a)
    then show ?case by (simp add: Compare_self)
  next
    case (4 i)
    then show ?case using assms by simp
  qed
  moreover have "Compare (iw_key d) (iw_key c) \<le> 0 \<longleftrightarrow> - Compare (iw_key c) (iw_key d) \<le> 0"
    if "c \<in> set (mi_children m)" "iw_valid c" "d \<in> set (mi_children m)" "iw_valid d" for c d
    using Compare_le_flip [of "iw_key d" "iw_key c"] assms that by simp
  ultimately show ?thesis
    by (simp add: FindLargest_def larger_smaller all_set_conv_all_nth split: option.splits)
qed

end

section \<open>Positions in the union\<close>

text \<open>\<open>M\<close> is the sorted union of the entry lists \<open>ess\<close>; no two of them share a key. The keys of a
  database are unique, as each carries its sequence number. A key that occurs in several children is
  another matter: \<open>merging_turn_loses_duplicate\<close> below.\<close>

definition merge_of :: "(bytes \<Rightarrow> bytes \<Rightarrow> int) \<Rightarrow> (bytes \<Rightarrow> bool) \<Rightarrow> (bytes \<times> bytes) list list \<Rightarrow> (bytes \<times> bytes) list \<Rightarrow> bool" where
  "merge_of Compare valid ess M \<longleftrightarrow>
     sorted_wrt (\<lambda>a b. Compare a b < 0) (map fst M) \<and> (\<forall>e \<in> set M. valid (fst e)) \<and> set M = \<Union> (set ` set ess) \<and>
     (\<forall>es \<in> set ess. sorted_wrt (\<lambda>a b. Compare a b < 0) (map fst es)) \<and>
     (\<forall>i < length ess. \<forall>k < length ess. i \<noteq> k \<longrightarrow> set (ess ! i) \<inter> set (ess ! k) = {})"

lemma merge_ofI:
  assumes "sorted_wrt (\<lambda>a b. Compare a b < 0) (map fst M)" and "\<forall>e \<in> set M. valid (fst e)" and "set M = set (concat ess)"
    and "\<forall>es \<in> set ess. sorted_wrt (\<lambda>a b. Compare a b < 0) (map fst es)"
    and "\<forall>i < length ess. \<forall>k < length ess. i \<noteq> k \<longrightarrow> fst ` set (ess ! i) \<inter> fst ` set (ess ! k) = {}"
  shows "merge_of Compare valid ess M"
proof -
  have "set (ess ! i) \<inter> set (ess ! k) = {}" if "i < length ess" "k < length ess" "i \<noteq> k" for i k
  proof (rule ccontr)
    assume "set (ess ! i) \<inter> set (ess ! k) \<noteq> {}"
    then obtain e where "e \<in> set (ess ! i)" "e \<in> set (ess ! k)" by blast
    then have "fst e \<in> fst ` set (ess ! i) \<inter> fst ` set (ess ! k)" by simp
    with assms(5) that show False by simp
  qed
  with assms(1-4) show ?thesis by (simp add: merge_of_def)
qed

text \<open>How many entries of \<open>es\<close> come before position \<open>j\<close> of the union.\<close>

definition rank :: "(bytes \<times> bytes) list \<Rightarrow> (bytes \<times> bytes) list \<Rightarrow> nat \<Rightarrow> nat" where
  "rank M es j = length (takeWhile (\<lambda>e. e \<in> set (take j M)) es)"

lemma rank_le: "rank M es j \<le> length es"
  by (simp add: rank_def length_takeWhile_le)

lemma position_eqI: "p \<le> n \<Longrightarrow> q \<le> n \<Longrightarrow> (\<And>b. b < n \<Longrightarrow> b < p \<longleftrightarrow> b < q) \<Longrightarrow> p = (q :: nat)"
  by (metis linorder_neqE_nat order.strict_trans2 less_irrefl)

lemma mem_take_iff: "e \<in> set (take j xs) \<longleftrightarrow> (\<exists>m < length xs. m < j \<and> xs ! m = e)"
  by (auto simp: in_set_conv_nth)

lemma merge_valid: "merge_of Compare valid ess M \<Longrightarrow> j < length M \<Longrightarrow> valid (fst (M ! j))"
  unfolding merge_of_def by (metis nth_mem)

lemma merge_source:
  assumes "merge_of Compare valid ess M" and "j < length M"
  obtains c where "c < length ess" and "M ! j \<in> set (ess ! c)"
proof -
  have "M ! j \<in> \<Union> (set ` set ess)" using assms nth_mem [of j M] unfolding merge_of_def by metis
  then show ?thesis using that by (metis UN_E in_set_conv_nth)
qed

lemma merge_disjoint:
  assumes "merge_of Compare valid ess M" and "i < length ess" and "k < length ess" and "e \<in> set (ess ! i)" and "e \<in> set (ess ! k)"
  shows "i = k"
proof -
  have "\<forall>i < length ess. \<forall>k < length ess. i \<noteq> k \<longrightarrow> set (ess ! i) \<inter> set (ess ! k) = {}"
    using assms(1) by (simp add: merge_of_def)
  then show ?thesis using assms(2-5) by blast
qed

context comparator
begin

lemma merge_index:
  assumes "merge_of Compare valid ess M" and "m < length M" and "m' < length M"
  shows "Compare (fst (M ! m)) (fst (M ! m')) < 0 \<longleftrightarrow> m < m'"
proof -
  have v: "valid (fst (M ! m))" "valid (fst (M ! m'))" using assms by (auto simp: merge_of_def)
  have s: "sorted_wrt (\<lambda>a b. Compare a b < 0) (map fst M)" using assms(1) by (simp add: merge_of_def)
  show ?thesis
  proof (cases m m' rule: linorder_cases)
    case less
    then show ?thesis using s assms(3) by (auto simp: sorted_wrt_iff_nth_less)
  next
    case equal
    then show ?thesis using Compare_irrefl v by simp
  next
    case greater
    then have "Compare (fst (M ! m')) (fst (M ! m)) < 0" using s assms(2) by (auto simp: sorted_wrt_iff_nth_less)
    then show ?thesis using greater Compare_less_flip [OF v(2,1)] by simp
  qed
qed

lemma merge_inj:
  assumes "merge_of Compare valid ess M" and "m < length M" and "m' < length M" and "M ! m = M ! m'"
  shows "m = m'"
  using merge_index [OF assms(1-3)] merge_index [OF assms(1,3,2)] merge_index [OF assms(1,2,2)] assms(4)
  by (cases m m' rule: linorder_cases) auto

lemma merge_entry:
  assumes "merge_of Compare valid ess M" and "es \<in> set ess" and "a < length es"
  obtains m where "m < length M" and "M ! m = es ! a"
proof -
  have "es ! a \<in> set es" using assms(3) by simp
  then have "es ! a \<in> set M" using assms(1,2) unfolding merge_of_def by blast
  then show ?thesis using that by (auto simp: in_set_conv_nth)
qed

lemma child_index:
  assumes "merge_of Compare valid ess M" and "es \<in> set ess" and "a < length es" and "b < length es"
  shows "Compare (fst (es ! a)) (fst (es ! b)) < 0 \<longleftrightarrow> a < b"
proof -
  have v: "valid (fst (es ! a))" "valid (fst (es ! b))"
    using assms nth_mem [of a es] nth_mem [of b es] by (auto simp: merge_of_def)
  have s: "sorted_wrt (\<lambda>a b. Compare a b < 0) (map fst es)" using assms(1,2) by (simp add: merge_of_def)
  show ?thesis
  proof (cases a b rule: linorder_cases)
    case less
    then show ?thesis using s assms(4) by (auto simp: sorted_wrt_iff_nth_less)
  next
    case equal
    then show ?thesis using Compare_irrefl v by simp
  next
    case greater
    then have "Compare (fst (es ! b)) (fst (es ! a)) < 0" using s assms(3) by (auto simp: sorted_wrt_iff_nth_less)
    then show ?thesis using greater Compare_less_flip [OF v(2,1)] by simp
  qed
qed

lemma child_inj:
  assumes "merge_of Compare valid ess M" and "es \<in> set ess" and "a < length es" and "b < length es" and "es ! a = es ! b"
  shows "a = b"
  using child_index [OF assms(1-4)] child_index [OF assms(1,2,4,3)] child_index [OF assms(1,2,3,3)] assms(5)
  by (cases a b rule: linorder_cases) auto

lemma rank_less:
  assumes "merge_of Compare valid ess M" and "es \<in> set ess" and "a < length es"
  shows "a < rank M es j \<longleftrightarrow> es ! a \<in> set (take j M)"
proof
  assume "a < rank M es j"
  then show "es ! a \<in> set (take j M)"
    unfolding rank_def by (metis (mono_tags, lifting) nth_mem set_takeWhileD takeWhile_nth)
next
  assume a: "es ! a \<in> set (take j M)"
  show "a < rank M es j"
  proof (rule ccontr)
    let ?p = "rank M es j"
    assume "\<not> a < ?p"
    then have p: "?p < length es" "?p \<le> a" using assms(3) by auto
    then have no: "es ! ?p \<notin> set (take j M)" unfolding rank_def using nth_length_takeWhile by blast
    obtain m where m: "m < length M" "M ! m = es ! ?p" using merge_entry [OF assms(1,2) p(1)] .
    obtain m' where m': "m' < length M" "m' < j" "M ! m' = es ! a" using a by (auto simp: mem_take_iff)
    have "m \<le> m'"
      using merge_index [OF assms(1) m'(1) m(1)] child_index [OF assms(1,2,3) p(1)] p(2) m(2) m'(3) by simp
    with no m m'(2) show False by (auto simp: mem_take_iff)
  qed
qed

lemma rank_0: "rank M es 0 = 0"
  by (cases es) (simp_all add: rank_def)

lemma rank_length:
  assumes "merge_of Compare valid ess M" and "es \<in> set ess"
  shows "rank M es (length M) = length es"
proof (rule position_eqI [of _ "length es"])
  fix b assume b: "b < length es"
  have "es ! b \<in> set M" using merge_entry [OF assms b] by (metis nth_mem)
  then show "b < rank M es (length M) \<longleftrightarrow> b < length es" using rank_less [OF assms b] b by simp
qed (auto simp: rank_le)

lemma rank_entry:
  assumes "merge_of Compare valid ess M" and "es \<in> set ess" and "j < length M" and "M ! j \<in> set es"
  shows "rank M es j < length es" and "es ! rank M es j = M ! j"
proof -
  obtain a where a: "a < length es" "es ! a = M ! j" using assms(4) by (auto simp: in_set_conv_nth)
  have "rank M es j = a"
  proof (rule position_eqI [of _ "length es"])
    fix b assume b: "b < length es"
    obtain m where m: "m < length M" "M ! m = es ! b" using merge_entry [OF assms(1,2) b] .
    have "es ! b \<in> set (take j M) \<longleftrightarrow> m < j"
    proof
      assume "es ! b \<in> set (take j M)"
      then obtain m' where "m' < length M" "m' < j" "M ! m' = M ! m" using m(2) by (auto simp: mem_take_iff)
      then show "m < j" using merge_inj [OF assms(1) m(1), of m'] by simp
    qed (use m in \<open>auto simp: mem_take_iff\<close>)
    also have "\<dots> \<longleftrightarrow> b < a"
      using merge_index [OF assms(1) m(1) assms(3)] child_index [OF assms(1,2) b a(1)] m(2) a(2) by simp
    finally show "b < rank M es j \<longleftrightarrow> b < a" using rank_less [OF assms(1,2) b] by simp
  qed (use a rank_le in auto)
  then show "rank M es j < length es" "es ! rank M es j = M ! j" using a by simp_all
qed

lemma rank_Suc:
  assumes "merge_of Compare valid ess M" and "es \<in> set ess" and "j < length M"
  shows "rank M es (Suc j) = (if M ! j \<in> set es then Suc (rank M es j) else rank M es j)"
proof (rule position_eqI [of _ "length es"])
  show "(if M ! j \<in> set es then Suc (rank M es j) else rank M es j) \<le> length es"
    using rank_le rank_entry(1) [OF assms] by (auto simp: Suc_le_eq)
  fix b assume b: "b < length es"
  have "b < rank M es (Suc j) \<longleftrightarrow> es ! b \<in> set (take j M) \<or> es ! b = M ! j"
    using rank_less [OF assms(1,2) b] assms(3) by (auto simp: take_Suc_conv_app_nth)
  also have "\<dots> \<longleftrightarrow> b < rank M es j \<or> es ! b = M ! j" using rank_less [OF assms(1,2) b] by simp
  also have "es ! b = M ! j \<longleftrightarrow> M ! j \<in> set es \<and> b = rank M es j"
    using rank_entry [OF assms] child_inj [OF assms(1,2) b, of "rank M es j"] nth_mem [OF b] by metis
  finally show "b < rank M es (Suc j) \<longleftrightarrow> b < (if M ! j \<in> set es then Suc (rank M es j) else rank M es j)" by auto
qed (rule rank_le)

lemma rank_seek:
  assumes "merge_of Compare valid ess M" and "es \<in> set ess" and "valid target"
  shows "rank M es (seek_pos Compare target (map fst M)) = seek_pos Compare target (map fst es)"
proof (rule position_eqI [of _ "length es"])
  fix b assume b: "b < length es"
  obtain m where m: "m < length M" "M ! m = es ! b" using merge_entry [OF assms(1,2) b] .
  have sM: "sorted_wrt (\<lambda>a b. Compare a b < 0) (map fst M)" "\<forall>k \<in> set (map fst M). valid k"
    and se: "sorted_wrt (\<lambda>a b. Compare a b < 0) (map fst es)" "\<forall>k \<in> set (map fst es). valid k"
    using assms(1,2) by (auto simp: merge_of_def)
  have lt: "m' < seek_pos Compare target (map fst M) \<longleftrightarrow> Compare (fst (M ! m')) target < 0" if "m' < length M" for m'
    using seek_pos_iff [OF sM assms(3), of m'] that by simp
  have "es ! b \<in> set (take (seek_pos Compare target (map fst M)) M) \<longleftrightarrow> Compare (fst (es ! b)) target < 0"
    using m lt by (auto simp: mem_take_iff)
  then show "b < rank M es (seek_pos Compare target (map fst M)) \<longleftrightarrow> b < seek_pos Compare target (map fst es)"
    using rank_less [OF assms(1,2) b] seek_pos_iff [OF se assms(3), of b] b by simp
qed (auto simp: rank_le)

lemma rank_key:
  assumes "merge_of Compare valid ess M" and "es \<in> set ess" and "j < length M"
  shows "seek_pos Compare (fst (M ! j)) (map fst es) = rank M es j"
proof -
  have v: "valid (fst (M ! j))" using merge_valid [OF assms(1,3)] .
  have sM: "sorted_wrt (\<lambda>a b. Compare a b < 0) (map fst M)" "\<forall>k \<in> set (map fst M). valid k"
    using assms(1) by (auto simp: merge_of_def)
  have "seek_pos Compare (fst (M ! j)) (map fst M) = j"
    by (rule position_eqI [of _ "length M"])
      (use seek_pos_iff [OF sM v] merge_index [OF assms(1) _ assms(3)] assms(3) in auto)
  with rank_seek [OF assms(1,2) v] show ?thesis by simp
qed

end

section \<open>The merging iterator keeps the iterator contract\<close>

definition step_back :: "nat \<Rightarrow> nat \<Rightarrow> nat" where
  "step_back n p = (if p = 0 then n else p - 1)"

definition children_on ::
    "'it Iterator \<Rightarrow> ('it \<Rightarrow> nat \<Rightarrow> bool) list \<Rightarrow> 'it IteratorWrapper list \<Rightarrow> (nat \<Rightarrow> nat) \<Rightarrow> bool" where
  "children_on I ons cs p \<longleftrightarrow> length cs = length ons \<and> (\<forall>i < length ons. wrapper_on I (ons ! i) (cs ! i) (p i))"

definition merge_on ::
    "(bytes \<Rightarrow> bytes \<Rightarrow> int) \<Rightarrow> (bytes \<Rightarrow> bool) \<Rightarrow> 'it Iterator \<Rightarrow> (bytes \<times> bytes) list list \<Rightarrow> ('it \<Rightarrow> nat \<Rightarrow> bool) list \<Rightarrow>
     (bytes \<times> bytes) list \<Rightarrow> 'it MergingIterator \<Rightarrow> nat \<Rightarrow> bool" where
  "merge_on Compare valid I ess ons M m j \<longleftrightarrow>
     merge_of Compare valid ess M \<and> length ons = length ess \<and>
     (if j < length M
      then \<exists>c < length ess. mi_current m = Some c \<and> M ! j \<in> set (ess ! c) \<and>
             children_on I ons (mi_children m)
               (\<lambda>i. if i = c \<or> mi_direction m = kForward then rank M (ess ! i) j
                    else step_back (length (ess ! i)) (rank M (ess ! i) j))
      else j = length M \<and> mi_current m = None \<and> (\<exists>p. children_on I ons (mi_children m) p))"

lemma children_on_cong:
  "children_on I ons cs p \<Longrightarrow> (\<And>k. k < length ons \<Longrightarrow> p k = q k) \<Longrightarrow> children_on I ons cs q"
  by (simp add: children_on_def)

lemma children_on_map:
  assumes "children_on I ons cs p"
    and "\<And>i w. i < length ons \<Longrightarrow> wrapper_on I (ons ! i) w (p i) \<Longrightarrow> wrapper_on I (ons ! i) (f w) (q i)"
  shows "children_on I ons (map f cs) q"
  using assms by (simp add: children_on_def)

locale mergeable = comparator +
  fixes I :: "'it Iterator"
    and ess :: "(bytes \<times> bytes) list list"
    and ons :: "('it \<Rightarrow> nat \<Rightarrow> bool) list"
  assumes children: "k < length ess \<Longrightarrow> list_iterator I Compare valid (ess ! k) (ons ! k)"
begin

lemma child_valid:
  assumes "children_on I ons cs p" and "length ons = length ess" and "k < length ess"
  shows "iw_valid (cs ! k) \<longleftrightarrow> p k < length (ess ! k)"
    and "p k < length (ess ! k) \<Longrightarrow> iw_key (cs ! k) = fst (ess ! k ! p k)"
    and "p k < length (ess ! k) \<Longrightarrow> IteratorWrapper_value I (cs ! k) = snd (ess ! k ! p k)"
    and "p k \<le> length (ess ! k)"
  using list_iterator.wrapper_on_valid [OF children [OF assms(3)], of "cs ! k" "p k"] assms
    list_iterator.on_bound [OF children [OF assms(3)]]
  by (auto simp: children_on_def wrapper_on_def)

lemma child_keys_valid:
  assumes "children_on I ons cs p" and "length ons = length ess" and "c \<in> set cs" and "iw_valid c"
  shows "valid (iw_key c)"
proof -
  obtain k where k: "k < length ess" "c = cs ! k" using assms by (auto simp: children_on_def in_set_conv_nth)
  with child_valid [OF assms(1,2) k(1)] assms(4) have p: "p k < length (ess ! k)" "iw_key c = fst (ess ! k ! p k)" by auto
  from assms(1,2) k(1) obtain it where "(ons ! k) it (p k)" by (auto simp: children_on_def wrapper_on_def)
  from list_iterator.on_valid [OF children [OF k(1)] this, of "ess ! k ! p k"] p show ?thesis by simp
qed

lemma smallest_on:
  assumes "merge_of Compare valid ess M" and "length ons = length ess" and "j \<le> length M"
    and "children_on I ons (mi_children m) (\<lambda>i. rank M (ess ! i) j)" and "mi_direction m = kForward"
  shows "merge_on Compare valid I ess ons M (FindSmallest Compare m) j"
proof -
  let ?cs = "mi_children m"
  have len: "length ?cs = length ess" using assms(2,4) by (simp add: children_on_def)
  note v = child_valid [OF assms(4,2)]
  have fields: "mi_children (FindSmallest Compare m) = ?cs" "mi_direction (FindSmallest Compare m) = kForward"
    using assms(5) by (simp_all add: FindSmallest_def)
  have cur: "case mi_current (FindSmallest Compare m) of
    None \<Rightarrow> \<forall>c \<in> set ?cs. \<not> iw_valid c
  | Some i \<Rightarrow> i < length ?cs \<and> iw_valid (?cs ! i) \<and> (\<forall>c \<in> set ?cs. iw_valid c \<longrightarrow> Compare (iw_key (?cs ! i)) (iw_key c) \<le> 0)"
    by (rule FindSmallest_current) (rule child_keys_valid [OF assms(4,2)])
  have ess: "ess ! i \<in> set ess" if "i < length ess" for i using that by simp
  show ?thesis
  proof (cases "j < length M")
    case False
    then have j: "j = length M" using assms(3) by simp
    have "\<not> iw_valid (?cs ! i)" if "i < length ess" for i
      using v(1) [OF that] rank_length [OF assms(1) ess [OF that]] j by simp
    then have "mi_current (FindSmallest Compare m) = None" using cur len by (auto split: option.splits)
    then show ?thesis using assms(1,2,4) j fields by (auto simp: merge_on_def)
  next
    case True
    then obtain c0 where c0: "c0 < length ess" "M ! j \<in> set (ess ! c0)" using merge_source [OF assms(1)] by blast
    note r0 = rank_entry [OF assms(1) ess [OF c0(1)] True c0(2)]
    have v0: "iw_valid (?cs ! c0)" "iw_key (?cs ! c0) = fst (M ! j)" using v(1,2) [OF c0(1)] r0 by auto
    then obtain i where i: "mi_current (FindSmallest Compare m) = Some i" "i < length ess" "iw_valid (?cs ! i)"
        "Compare (iw_key (?cs ! i)) (fst (M ! j)) \<le> 0"
      using cur len c0(1) by (fastforce split: option.splits)
    let ?p = "rank M (ess ! i) j"
    have p: "?p < length (ess ! i)" "iw_key (?cs ! i) = fst (ess ! i ! ?p)" using v(1,2) [OF i(2)] i(3) by auto
    obtain n where n: "n < length M" "M ! n = ess ! i ! ?p" using merge_entry [OF assms(1) ess [OF i(2)] p(1)] .
    have "\<not> n < j" using rank_less [OF assms(1) ess [OF i(2)] p(1), of j] n by (auto simp: mem_take_iff)
    moreover have "\<not> j < n" using merge_index [OF assms(1) True n(1)] i(4) p(2) n(2)
      Compare_less_flip [OF merge_valid [OF assms(1) True] merge_valid [OF assms(1) n(1)]] by auto
    ultimately have "M ! j \<in> set (ess ! i)" using n p(1) by (metis linorder_neqE_nat nth_mem)
    then show ?thesis using True assms(1,2,4) i(1,2) fields by (auto simp: merge_on_def)
  qed
qed

lemma largest_on:
  assumes "merge_of Compare valid ess M" and "length ons = length ess" and "j \<le> length M"
    and "children_on I ons (mi_children m) (\<lambda>i. step_back (length (ess ! i)) (rank M (ess ! i) j))" and "mi_direction m = kReverse"
  shows "merge_on Compare valid I ess ons M (FindLargest Compare m) (if j = 0 then length M else j - 1)"
proof -
  let ?cs = "mi_children m"
  have len: "length ?cs = length ess" using assms(2,4) by (simp add: children_on_def)
  note v = child_valid [OF assms(4,2)]
  have fields: "mi_children (FindLargest Compare m) = ?cs" "mi_direction (FindLargest Compare m) = kReverse"
    using assms(5) by (simp_all add: FindLargest_def)
  have cur: "case mi_current (FindLargest Compare m) of
    None \<Rightarrow> \<forall>c \<in> set ?cs. \<not> iw_valid c
  | Some i \<Rightarrow> i < length ?cs \<and> iw_valid (?cs ! i) \<and> (\<forall>c \<in> set ?cs. iw_valid c \<longrightarrow> Compare (iw_key c) (iw_key (?cs ! i)) \<le> 0)"
    by (rule FindLargest_current) (rule child_keys_valid [OF assms(4,2)])
  have ess: "ess ! i \<in> set ess" if "i < length ess" for i using that by simp
  show ?thesis
  proof (cases "j = 0")
    case True
    have "\<not> iw_valid (?cs ! i)" if "i < length ess" for i using v(1) [OF that] True by (simp add: rank_0 step_back_def)
    then have "mi_current (FindLargest Compare m) = None" using cur len by (auto split: option.splits)
    then show ?thesis using assms(1,2,4) True fields by (auto simp: merge_on_def)
  next
    case False
    define n where "n = j - 1"
    have n: "n < length M" "j = Suc n" using False assms(3) by (auto simp: n_def)
    note rs = rank_Suc [OF assms(1) ess n(1), folded n(2)]
    obtain c0 where c0: "c0 < length ess" "M ! n \<in> set (ess ! c0)" using merge_source [OF assms(1) n(1)] by blast
    note r0 = rank_entry [OF assms(1) ess [OF c0(1)] n(1) c0(2)]
    have "rank M (ess ! c0) j = Suc (rank M (ess ! c0) n)" using rs [OF c0(1)] c0(2) by simp
    then have v0: "iw_valid (?cs ! c0)" "iw_key (?cs ! c0) = fst (M ! n)" using v(1,2) [OF c0(1)] r0 by (simp_all add: step_back_def)
    have mem0: "?cs ! c0 \<in> set ?cs" using c0(1) len by simp
    obtain i where i0: "mi_current (FindLargest Compare m) = Some i"
      using cur v0(1) mem0 by (cases "mi_current (FindLargest Compare m)") auto
    have i: "mi_current (FindLargest Compare m) = Some i" "i < length ess" "iw_valid (?cs ! i)"
        "Compare (fst (M ! n)) (iw_key (?cs ! i)) \<le> 0"
      using cur v0 mem0 len unfolding i0 by auto
    let ?p = "step_back (length (ess ! i)) (rank M (ess ! i) j)"
    have p: "?p < length (ess ! i)" "iw_key (?cs ! i) = fst (ess ! i ! ?p)" using v(1,2) [OF i(2)] i(3) by auto
    then have pr: "?p < rank M (ess ! i) j" by (simp add: step_back_def split: if_splits)
    obtain l where l: "l < length M" "l < j" "M ! l = ess ! i ! ?p"
      using rank_less [OF assms(1) ess [OF i(2)] p(1), of j] pr by (auto simp: mem_take_iff)
    have "\<not> l < n" using merge_index [OF assms(1) l(1) n(1)] i(4) p(2) l(3)
      Compare_less_flip [OF merge_valid [OF assms(1) l(1)] merge_valid [OF assms(1) n(1)]] by auto
    then have "l = n" using l(2) n(2) by simp
    then have in_i: "M ! n \<in> set (ess ! i)" using l(3) nth_mem [OF p(1)] by simp
    have rk: "rank M (ess ! k) j = (if k = i then Suc (rank M (ess ! k) n) else rank M (ess ! k) n)" if "k < length ess" for k
    proof (cases "k = i")
      case True
      then show ?thesis unfolding rs [OF that] using in_i by simp
    next
      case False
      then have "M ! n \<notin> set (ess ! k)" using merge_disjoint [OF assms(1) that i(2) _ in_i] by blast
      with False show ?thesis unfolding rs [OF that] by simp
    qed
    have pos: "step_back (length (ess ! k)) (rank M (ess ! k) j) =
        (if k = i \<or> kReverse = kForward then rank M (ess ! k) n else step_back (length (ess ! k)) (rank M (ess ! k) n))"
      if "k < length ons" for k
      using rk [of k] that assms(2) by (simp add: step_back_def)
    have "children_on I ons ?cs (\<lambda>k. if k = i \<or> kReverse = kForward then rank M (ess ! k) n
        else step_back (length (ess ! k)) (rank M (ess ! k) n))"
      by (rule children_on_cong [OF assms(4) pos])
    then have "merge_on Compare valid I ess ons M (FindLargest Compare m) n"
      unfolding merge_on_def fields using assms(1,2) n(1) i(1,2) in_i by (intro conjI) auto
    then show ?thesis using False by (simp add: n_def)
  qed
qed

text \<open>What \<open>merge_on\<close> says of the children, on an entry and past the end.\<close>

lemma merge_on_current:
  assumes "merge_on Compare valid I ess ons M m j" and "j < length M"
  obtains c where "c < length ess" and "mi_current m = Some c" and "M ! j \<in> set (ess ! c)"
    and "children_on I ons (mi_children m)
      (\<lambda>i. if i = c \<or> mi_direction m = kForward then rank M (ess ! i) j else step_back (length (ess ! i)) (rank M (ess ! i) j))"
    and "merge_of Compare valid ess M" and "length ons = length ess" and "Merging_key m = fst (M ! j)" and "Merging_value I m = snd (M ! j)"
proof -
  from assms obtain c where c: "c < length ess" "mi_current m = Some c" "M ! j \<in> set (ess ! c)"
    "children_on I ons (mi_children m)
      (\<lambda>i. if i = c \<or> mi_direction m = kForward then rank M (ess ! i) j else step_back (length (ess ! i)) (rank M (ess ! i) j))"
    "merge_of Compare valid ess M" "length ons = length ess"
    by (auto simp: merge_on_def)
  have "ess ! c \<in> set ess" using c(1) by simp
  from rank_entry [OF c(5) this assms(2) c(3)] child_valid [OF c(4,6,1)] c(2)
  have "Merging_key m = fst (M ! j)" "Merging_value I m = snd (M ! j)"
    by (simp_all add: Merging_key_def Merging_value_def)
  with c show ?thesis by (rule that)
qed

lemma merge_on_children:
  assumes "merge_on Compare valid I ess ons M m j"
  shows "\<exists>p. children_on I ons (mi_children m) p" and "merge_of Compare valid ess M" and "length ons = length ess" and "j \<le> length M"
  using assms by (auto simp: merge_on_def split: if_splits)

lemma wrapper_moves:
  assumes "k < length ess" and "wrapper_on I (ons ! k) w p"
  shows "p < length (ess ! k) \<Longrightarrow> wrapper_on I (ons ! k) (IteratorWrapper_Next I w) (Suc p)"
    and "p < length (ess ! k) \<Longrightarrow> wrapper_on I (ons ! k) (IteratorWrapper_Prev I w) (step_back (length (ess ! k)) p)"
    and "valid target \<Longrightarrow> wrapper_on I (ons ! k) (IteratorWrapper_Seek I w target) (seek_pos Compare target (map fst (ess ! k)))"
    and "wrapper_on I (ons ! k) (IteratorWrapper_SeekToFirst I w) 0"
    and "wrapper_on I (ons ! k) (IteratorWrapper_SeekToLast I w) (length (ess ! k) - 1)"
    and "IteratorWrapper_status I w = Status_OK"
  using list_iterator.wrapper_moves [OF children [OF assms(1)] assms(2)]
  by (simp_all add: step_back_def)

lemma wrapper_position: "k < length ess \<Longrightarrow> wrapper_on I (ons ! k) w p \<Longrightarrow> iw_valid w \<longleftrightarrow> p < length (ess ! k)"
  using list_iterator.wrapper_on_valid(1) [OF children] .

lemma child_forward_on:
  assumes "merge_of Compare valid ess M" and "j < length M" and "k < length ess" and "wrapper_on I (ons ! k) w p" and "M ! j \<notin> set (ess ! k)"
  shows "wrapper_on I (ons ! k) (child_forward I Compare (fst (M ! j)) w) (rank M (ess ! k) j)"
proof -
  have e: "ess ! k \<in> set ess" using assms(3) by simp
  note v = merge_valid [OF assms(1,2)]
  let ?w = "IteratorWrapper_Seek I w (fst (M ! j))"
  have w: "wrapper_on I (ons ! k) ?w (rank M (ess ! k) j)"
    using wrapper_moves(3) [OF assms(3,4) v] rank_key [OF assms(1) e assms(2)] by simp
  moreover have "Compare (fst (M ! j)) (iw_key ?w) \<noteq> 0" if valid_w: "iw_valid ?w"
  proof -
    let ?p = "rank M (ess ! k) j"
    have p: "?p < length (ess ! k)" "iw_key ?w = fst (ess ! k ! ?p)"
      using wrapper_position [OF assms(3) w] list_iterator.wrapper_on_valid(2) [OF children [OF assms(3)] w] valid_w by auto
    obtain n where n: "n < length M" "M ! n = ess ! k ! ?p" using merge_entry [OF assms(1) e p(1)] .
    then have "n \<noteq> j" using assms(5) p(1) by (metis nth_mem)
    then have "Compare (fst (M ! j)) (fst (M ! n)) < 0 \<or> Compare (fst (M ! n)) (fst (M ! j)) < 0"
      using merge_index [OF assms(1,2) n(1)] merge_index [OF assms(1) n(1) assms(2)] by auto
    then show ?thesis
      using Compare_less_flip [OF merge_valid [OF assms(1) n(1)] v] n(2) p(2) by auto
  qed
  ultimately show ?thesis by (auto simp: child_forward_def Let_def)
qed

lemma child_reverse_on:
  assumes "merge_of Compare valid ess M" and "j < length M" and "k < length ess" and "wrapper_on I (ons ! k) w p"
  shows "wrapper_on I (ons ! k) (child_reverse I (fst (M ! j)) w) (step_back (length (ess ! k)) (rank M (ess ! k) j))"
proof -
  have e: "ess ! k \<in> set ess" using assms(3) by simp
  let ?w = "IteratorWrapper_Seek I w (fst (M ! j))"
  have w: "wrapper_on I (ons ! k) ?w (rank M (ess ! k) j)"
    using wrapper_moves(3) [OF assms(3,4) merge_valid [OF assms(1,2)]] rank_key [OF assms(1) e assms(2)] by simp
  show ?thesis
  proof (cases "iw_valid ?w")
    case True
    with wrapper_moves(2) [OF assms(3) w] wrapper_position [OF assms(3) w] show ?thesis by (simp add: child_reverse_def)
  next
    case False
    then have "rank M (ess ! k) j = length (ess ! k)" using wrapper_position [OF assms(3) w] rank_le [of M "ess ! k" j] by simp
    with False wrapper_moves(5) [OF assms(3) w] show ?thesis by (auto simp: child_reverse_def step_back_def)
  qed
qed

lemma merge_on_Next:
  assumes "merge_on Compare valid I ess ons M m j" and "j < length M"
  shows "merge_on Compare valid I ess ons M (Merging_Next I Compare m) (Suc j)"
proof -
  obtain c where c: "c < length ess" "mi_current m = Some c" "M ! j \<in> set (ess ! c)"
    and on: "children_on I ons (mi_children m)
      (\<lambda>i. if i = c \<or> mi_direction m = kForward then rank M (ess ! i) j else step_back (length (ess ! i)) (rank M (ess ! i) j))"
    and M: "merge_of Compare valid ess M" and len: "length ons = length ess" and key: "Merging_key m = fst (M ! j)"
    by (rule merge_on_current [OF assms])
  define m1 where "m1 = (if mi_direction m \<noteq> kForward
      then m\<lparr> mi_children := others m (child_forward I Compare (Merging_key m)), mi_direction := kForward \<rparr> else m)"
  have e: "ess ! i \<in> set ess" if "i < length ess" for i using that by simp
  have other: "M ! j \<notin> set (ess ! i)" if "i < length ess" "i \<noteq> c" for i
    using merge_disjoint [OF M that(1) c(1) _ c(3)] that(2) by blast
  have m1: "mi_direction m1 = kForward" "mi_current m1 = Some c" "children_on I ons (mi_children m1) (\<lambda>i. rank M (ess ! i) j)"
    using on c(1,2) len key other child_forward_on [OF M assms(2)] by (auto simp: m1_def children_on_def others_def)
  let ?m = "on_current (IteratorWrapper_Next I) m1"
  have "children_on I ons (mi_children ?m) (\<lambda>i. rank M (ess ! i) (Suc j))"
    using m1(2,3) c(1) len other rank_entry(1) [OF M e [OF c(1)] assms(2) c(3)] wrapper_moves(1) [OF c(1)] c(3) rank_Suc [OF M e assms(2)]
    by (auto simp: children_on_def on_current_def nth_list_update)
  then have "merge_on Compare valid I ess ons M (FindSmallest Compare ?m) (Suc j)"
    using assms(2) m1(1) by (intro smallest_on [OF M len]) (auto simp: on_current_def)
  then show ?thesis by (simp add: Merging_Next_def Let_def m1_def)
qed

lemma merge_on_Prev:
  assumes "merge_on Compare valid I ess ons M m j" and "j < length M"
  shows "merge_on Compare valid I ess ons M (Merging_Prev I Compare m) (if j = 0 then length M else j - 1)"
proof -
  obtain c where c: "c < length ess" "mi_current m = Some c" "M ! j \<in> set (ess ! c)"
    and on: "children_on I ons (mi_children m)
      (\<lambda>i. if i = c \<or> mi_direction m = kForward then rank M (ess ! i) j else step_back (length (ess ! i)) (rank M (ess ! i) j))"
    and M: "merge_of Compare valid ess M" and len: "length ons = length ess" and key: "Merging_key m = fst (M ! j)"
    by (rule merge_on_current [OF assms])
  define m1 where "m1 = (if mi_direction m \<noteq> kReverse
      then m\<lparr> mi_children := others m (child_reverse I (Merging_key m)), mi_direction := kReverse \<rparr> else m)"
  have dir: "mi_direction m = kForward \<or> mi_direction m = kReverse" by (cases "mi_direction m") auto
  have e: "ess ! c \<in> set ess" using c(1) by simp
  have m1: "mi_direction m1 = kReverse" "mi_current m1 = Some c" "children_on I ons (mi_children m1)
      (\<lambda>i. if i = c then rank M (ess ! i) j else step_back (length (ess ! i)) (rank M (ess ! i) j))"
    using on c(1,2) len key dir child_reverse_on [OF M assms(2)] by (auto simp: m1_def children_on_def others_def)
  let ?m = "on_current (IteratorWrapper_Prev I) m1"
  have "children_on I ons (mi_children ?m) (\<lambda>i. step_back (length (ess ! i)) (rank M (ess ! i) j))"
    using m1(2,3) c(1) len rank_entry(1) [OF M e assms(2) c(3)] wrapper_moves(2) [OF c(1)]
    by (auto simp: children_on_def on_current_def nth_list_update)
  then have "merge_on Compare valid I ess ons M (FindLargest Compare ?m) (if j = 0 then length M else j - 1)"
    using assms(2) m1(1) by (intro largest_on [OF M len]) (auto simp: on_current_def)
  then show ?thesis by (simp add: Merging_Prev_def Let_def m1_def)
qed

lemma merge_on_status:
  assumes "merge_on Compare valid I ess ons M m j"
  shows "Merging_status I m = Status_OK"
proof -
  obtain p where p: "children_on I ons (mi_children m) p" using merge_on_children(1) [OF assms] ..
  note len = merge_on_children(3) [OF assms]
  have "IteratorWrapper_status I c = Status_OK" if "c \<in> set (mi_children m)" for c
    using that p len wrapper_moves(6) by (auto simp: children_on_def in_set_conv_nth)
  then have "map (IteratorWrapper_status I) (mi_children m) = replicate (length (mi_children m)) Status_OK"
    by (simp add: map_replicate_const [symmetric])
  then show ?thesis by (simp add: Merging_status_def first_error_OK)
qed

lemma children_on_all:
  assumes "merge_on Compare valid I ess ons M m j"
    and "\<And>i w p. i < length ess \<Longrightarrow> wrapper_on I (ons ! i) w p \<Longrightarrow> wrapper_on I (ons ! i) (f w) (q i)"
  shows "children_on I ons (map f (mi_children m)) q"
  using merge_on_children(1,3) [OF assms(1)] assms(2) by (auto intro: children_on_map)

lemma merge_list_iterator:
  "list_iterator (Merging_methods I Compare) Compare valid M (merge_on Compare valid I ess ons M)"
proof (unfold_locales, goal_cases)
  case (1 m j)
  then show ?case by (rule merge_on_children(4))
next
  case (2 m j)
  from merge_on_children(2) [OF this] show ?case by (simp add: merge_of_def)
next
  case (3 m j e)
  from merge_on_children(2) [OF 3(1)] 3(2) show ?case by (simp add: merge_of_def)
next
  case (4 m j)
  then show ?case by (auto simp: Merging_methods_def Merging_Valid_def merge_on_def split: if_splits)
next
  case (5 m j)
  obtain "Merging_key m = fst (M ! j)" "Merging_value I m = snd (M ! j)" by (rule merge_on_current [OF 5])
  then show ?case by (simp add: Merging_methods_def)
next
  case (6 m j)
  from merge_on_status [OF this] show ?case by (simp add: Merging_methods_def)
next
  case (7 m j)
  from merge_on_Next [OF this] show ?case by (simp add: Merging_methods_def)
next
  case (8 m j)
  from merge_on_Prev [OF this] show ?case by (simp add: Merging_methods_def)
next
  case (9 m j)
  have "children_on I ons (map (IteratorWrapper_SeekToFirst I) (mi_children m)) (\<lambda>i. rank M (ess ! i) 0)"
    by (rule children_on_all [OF 9]) (simp add: rank_0 wrapper_moves(4))
  then show ?case
    using smallest_on [OF merge_on_children(2,3) [OF 9], of 0 "m\<lparr> mi_children := map (IteratorWrapper_SeekToFirst I) (mi_children m),
      mi_direction := kForward \<rparr>"] by (simp add: Merging_methods_def Merging_SeekToFirst_def Find_direction)
next
  case (10 m j)
  note M = merge_on_children(2,3) [OF 10]
  have "children_on I ons (map (IteratorWrapper_SeekToLast I) (mi_children m)) (\<lambda>i. step_back (length (ess ! i)) (rank M (ess ! i) (length M)))"
  proof (rule children_on_all [OF 10])
    fix i w p assume "i < length ess" and "wrapper_on I (ons ! i) w p"
    with wrapper_moves(5) [OF this] rank_length [OF M(1) nth_mem]
    show "wrapper_on I (ons ! i) (IteratorWrapper_SeekToLast I w) (step_back (length (ess ! i)) (rank M (ess ! i) (length M)))"
      by (auto simp: step_back_def)
  qed
  then show ?case
    using largest_on [OF M, of "length M" "m\<lparr> mi_children := map (IteratorWrapper_SeekToLast I) (mi_children m),
      mi_direction := kReverse \<rparr>"] by (cases "M = []") (simp_all add: Merging_methods_def Merging_SeekToLast_def Find_direction)
next
  case (11 m j target)
  note M = merge_on_children(2,3) [OF 11(1)]
  have "children_on I ons (map (\<lambda>c. IteratorWrapper_Seek I c target) (mi_children m))
      (\<lambda>i. rank M (ess ! i) (seek_pos Compare target (map fst M)))"
    by (rule children_on_all [OF 11(1)]) (use wrapper_moves(3) 11(2) rank_seek [OF M(1) _ 11(2)] in auto)
  then show ?case
    using smallest_on [OF M, of "seek_pos Compare target (map fst M)" "m\<lparr> mi_children := map (\<lambda>c. IteratorWrapper_Seek I c target) (mi_children m),
      mi_direction := kForward \<rparr>"] by (simp add: Merging_methods_def Merging_Seek_def Find_direction)
qed

text \<open>A new merging iterator, of children that stand anywhere, is not valid.\<close>

lemma children_on_new:
  assumes "length ons = length ess" and "length cs = length ess" and p: "\<And>i. i < length ess \<Longrightarrow> (ons ! i) (cs ! i) (p i)"
  shows "children_on I ons (mi_children (MergingIterator_new I cs)) p"
proof -
  have "wrapper_on I (ons ! i) (IteratorWrapper_Set I IteratorWrapper_new (Some (cs ! i))) (p i)" if "i < length ess" for i
    using p [OF that] wrapper_coherent_methods(2) [of I IteratorWrapper_new "Some (cs ! i)"]
    by (simp add: wrapper_on_def IteratorWrapper_Set_def IteratorWrapper_Update_def Let_def)
  then show ?thesis using assms(1,2) by (simp add: children_on_def MergingIterator_new_def)
qed

lemma merge_on_new:
  assumes "merge_of Compare valid ess M" and "length ons = length ess" and "length cs = length ess"
    and "\<And>i. i < length ess \<Longrightarrow> \<exists>p. (ons ! i) (cs ! i) p"
  shows "merge_on Compare valid I ess ons M (MergingIterator_new I cs) (length M)"
proof -
  from assms(4) obtain p where p: "(ons ! i) (cs ! i) (p i)" if "i < length ess" for i by metis
  then have "children_on I ons (mi_children (MergingIterator_new I cs)) p" using assms(2,3) by (intro children_on_new)
  with assms(1,2) show ?thesis by (auto simp: merge_on_def MergingIterator_new_def)
qed

text \<open>Two children that end with the same key: backwards both entries are shown, the second child's
  first; turning round at the first child's entry leaves the union behind.\<close>

lemma pair_turn:
  assumes "ess = [xs @ [(k, v)], ys @ [(k, w)]]" and "length ons = length ess" and "valid k" and "children_on I ons (mi_children m) p"
  defines "a \<equiv> Merging_SeekToLast I Compare m"
  defines "b \<equiv> Merging_Prev I Compare a"
  shows "Merging_Valid a" and "(Merging_key a, Merging_value I a) = (k, w)"
    and "Merging_Valid b" and "(Merging_key b, Merging_value I b) = (k, v)"
    and "\<not> Merging_Valid (Merging_Next I Compare b)"
proof -
  let ?on0 = "wrapper_on I (ons ! 0)" and ?on1 = "wrapper_on I (ons ! 1)"
  have i: "0 < length ess" "1 < length ess" by (simp_all add: assms(1))
  have e: "ess ! 0 = xs @ [(k, v)]" "ess ! 1 = ys @ [(k, w)]" by (simp_all add: assms(1))
  note it0 = children [OF i(1), unfolded e] and it1 = children [OF i(2), unfolded e]
  note val0 = list_iterator.wrapper_on_valid [OF it0] and val1 = list_iterator.wrapper_on_valid [OF it1]
  note mv0 = list_iterator.wrapper_moves [OF it0] and mv1 = list_iterator.wrapper_moves [OF it1]
  have "length (mi_children m) = 2" using assms(1,2,4) by (simp add: children_on_def)
  then obtain c0 c1 where cs: "mi_children m = [c0, c1]"
    by (metis One_nat_def Suc_1 length_0_conv length_Suc_conv)
  have c: "?on0 c0 (p 0)" "?on1 c1 (p 1)" using assms(1,2,4) cs by (auto simp: children_on_def)
  define a0 where "a0 = IteratorWrapper_SeekToLast I c0"
  define a1 where "a1 = IteratorWrapper_SeekToLast I c1"
  have a01: "?on0 a0 (length xs)" "?on1 a1 (length ys)"
    using mv0(5) [OF c(1)] mv1(5) [OF c(2)] by (simp_all add: a0_def a1_def)
  have ks: "iw_valid a0" "iw_key a0 = k" "iw_valid a1" "iw_key a1 = k"
    using val0 [OF a01(1)] val1 [OF a01(2)] by simp_all
  have a: "mi_children a = [a0, a1]" "mi_current a = Some 1" "mi_direction a = kReverse"
    using ks assms(3) by (simp_all add: a_def Merging_SeekToLast_def FindLargest_def cs a0_def a1_def larger_def Compare_self)
  show "Merging_Valid a" "(Merging_key a, Merging_value I a) = (k, w)"
    using a ks val1(3) [OF a01(2)] by (simp_all add: Merging_Valid_def Merging_key_def Merging_value_def)
  define b1 where "b1 = IteratorWrapper_Prev I a1"
  have b1: "?on1 b1 (if ys = [] then 1 else length ys - 1)" using mv1(2) [OF a01(2)] by (auto simp: b1_def)
  obtain it where "(ons ! 1) it (p 1)" using c(2) by (auto simp: wrapper_on_def)
  with list_iterator.on_sorted [OF it1] list_iterator.on_valid [OF it1]
  have y: "\<forall>e \<in> set ys. Compare (fst e) k < 0 \<and> valid (fst e)" by (auto simp: sorted_wrt_append)
  have "Compare k (iw_key b1) > 0" if v: "iw_valid b1"
  proof -
    have "ys \<noteq> []" using val1(1) [OF b1] v by auto
    then have "iw_key b1 = fst (ys ! (length ys - 1))" "ys ! (length ys - 1) \<in> set ys"
      using val1(2) [OF b1] by (auto simp: nth_append)
    with y show ?thesis using Compare_less_flip [of "iw_key b1" k] assms(3) by auto
  qed
  then have b: "mi_children b = [a0, b1]" "mi_current b = Some 0" "mi_direction b = kReverse"
    using ks a by (auto simp: b_def Merging_Prev_def FindLargest_def on_current_def b1_def [symmetric] larger_def)
  show "Merging_Valid b" "(Merging_key b, Merging_value I b) = (k, v)"
    using b ks val0(3) [OF a01(1)] by (simp_all add: Merging_Valid_def Merging_key_def Merging_value_def)
  let ?s1 = "IteratorWrapper_Seek I b1 k" and ?n0 = "IteratorWrapper_Next I a0"
  have "takeWhile (\<lambda>x. Compare x k < 0) (map fst ys @ [k]) = map fst ys"
    using y assms(3) by (subst takeWhile_append2) (auto simp: Compare_self)
  then have s1: "?on1 ?s1 (length ys)" using mv1(3) [OF b1 assms(3)] by (simp add: seek_pos_def)
  then have "child_forward I Compare k b1 = IteratorWrapper_Next I ?s1"
    using val1(1,2) [OF s1] assms(3) by (simp add: child_forward_def Compare_self)
  moreover have "?on1 (IteratorWrapper_Next I ?s1) (Suc (length ys))" "?on0 ?n0 (Suc (length xs))"
    using mv1(1) [OF s1] mv0(1) [OF a01(1)] by simp_all
  ultimately have "\<not> iw_valid (child_forward I Compare k b1)" "\<not> iw_valid ?n0"
    using val0(1) val1(1) by simp_all
  then show "\<not> Merging_Valid (Merging_Next I Compare b)"
    using b ks by (simp add: Merging_Next_def Merging_Valid_def FindSmallest_def on_current_def others_def smaller_def Merging_key_def)
qed

end

sublocale mergeable \<subseteq> merged: list_iterator "Merging_methods I Compare" Compare valid M "merge_on Compare valid I ess ons M" for M
  by (rule merge_list_iterator)

section \<open>Properties\<close>

interpretation block_merge: mergeable BytewiseCompare "\<lambda>_. True" "Block_Iter_methods BytewiseCompare"
    "map (\<lambda>(ts, ridx). map snd ts) bs" "map (\<lambda>(ts, ridx). block_on BytewiseCompare (\<lambda>_. True) ts ridx) bs" for bs
  by (intro mergeable.intro mergeable_axioms.intro bytewise.comparator_axioms)
    (use bytewise.block_list_iterator in \<open>auto simp: split_def\<close>)

lemma blocks_on:
  assumes "1 \<le> n" and "\<forall>es \<in> set ess. length (BlockBuilder_build n es) < 2 ^ 32"
    and "\<forall>es \<in> set ess. sorted_wrt (\<lambda>a b. BytewiseCompare a b < 0) (map fst es)"
  shows "\<exists>bs. length bs = length ess \<and> (\<forall>i < length ess. map snd (fst (bs ! i)) = ess ! i \<and>
    block_on BytewiseCompare (\<lambda>_. True) (fst (bs ! i)) (snd (bs ! i))
      (projr (Block_NewIterator (Block_make (BlockBuilder_build n (ess ! i))))) (length (ess ! i)))"
proof -
  have "\<exists>b. map snd (fst b) = ess ! i \<and> block_on BytewiseCompare (\<lambda>_. True) (fst b) (snd b)
      (projr (Block_NewIterator (Block_make (BlockBuilder_build n (ess ! i))))) (length (ess ! i))" if "i < length ess" for i
  proof -
    have e: "ess ! i \<in> set ess" using that by simp
    from BlockBuilder_build_on [OF assms(1) bspec [OF assms(2) e] bspec [OF assms(3) e], of "\<lambda>_. True"]
    obtain ts ridx it where "map snd ts = ess ! i" "Block_NewIterator (Block_make (BlockBuilder_build n (ess ! i))) = Inr it"
        "block_on BytewiseCompare (\<lambda>_. True) ts ridx it (length (ess ! i))" by auto
    then show ?thesis by (intro exI [of _ "(ts, ridx)"]) simp
  qed
  then obtain f where "map snd (fst (f i)) = ess ! i \<and> block_on BytewiseCompare (\<lambda>_. True) (fst (f i)) (snd (f i))
      (projr (Block_NewIterator (Block_make (BlockBuilder_build n (ess ! i))))) (length (ess ! i))" if "i < length ess" for i
    by metis
  then show ?thesis by (intro exI [of _ "map f [0..<length ess]"]) simp
qed

lemma block_children:
  assumes "1 \<le> n" and "\<forall>es \<in> set ess. length (BlockBuilder_build n es) < 2 ^ 32"
    and "\<forall>es \<in> set ess. sorted_wrt (\<lambda>a b. BytewiseCompare a b < 0) (map fst es)"
  defines "its \<equiv> map (\<lambda>es. projr (Block_NewIterator (Block_make (BlockBuilder_build n es)))) ess"
  obtains bs where "length bs = length ess" and "map (\<lambda>(ts, ridx). map snd ts) bs = ess"
    and "\<forall>i < length ess.
      (map (\<lambda>(ts, ridx). block_on BytewiseCompare (\<lambda>_. True) ts ridx) bs ! i) (its ! i) (length (ess ! i))"
proof -
  from blocks_on [OF assms(1-3)] obtain bs where bs: "length bs = length ess" "\<And>i. i < length ess \<Longrightarrow> map snd (fst (bs ! i)) = ess ! i"
      "\<And>i. i < length ess \<Longrightarrow> block_on BytewiseCompare (\<lambda>_. True) (fst (bs ! i)) (snd (bs ! i))
        (projr (Block_NewIterator (Block_make (BlockBuilder_build n (ess ! i))))) (length (ess ! i))" by auto
  show ?thesis
    by (rule that [of bs]) (use bs in \<open>auto simp: list_eq_iff_nth_eq split_def its_def\<close>)
qed

text \<open>C13: the merging iterator over any number of built blocks, with no key in two of them, is a cursor on
  the sorted union of their entries: after any sequence of moves (to the first or last entry, to a
  target, forwards and backwards while valid, in any order, so through every change of direction) it
  is valid exactly when the cursor stands on an entry, shows that entry's key and value, and reports
  no error.\<close>

theorem merging_refines_cursor:
  assumes "1 \<le> n" and "\<forall>es \<in> set ess. length (BlockBuilder_build n es) < 2 ^ 32"
    and "\<forall>es \<in> set ess. sorted_wrt (\<lambda>a b. BytewiseCompare a b < 0) (map fst es)"
    and "\<forall>i < length ess. \<forall>k < length ess. i \<noteq> k \<longrightarrow> fst ` set (ess ! i) \<inter> fst ` set (ess ! k) = {}"
    and "set M = set (concat ess)" and "sorted_wrt (\<lambda>a b. BytewiseCompare a b < 0) (map fst M)"
  shows "let I = Merging_methods (Block_Iter_methods BytewiseCompare) BytewiseCompare;
             its = map (\<lambda>es. projr (Block_NewIterator (Block_make (BlockBuilder_build n es)))) ess;
             m = fold (iter_move I) moves (MergingIterator_new (Block_Iter_methods BytewiseCompare) its);
             j = fold (cursor_move BytewiseCompare M) moves (length M)
    in it_status I m = Status_OK \<and> (it_Valid I m \<longleftrightarrow> j < length M) \<and> (j < length M \<longrightarrow> (it_key I m, it_value I m) = M ! j)"
proof -
  let ?its = "map (\<lambda>es. projr (Block_NewIterator (Block_make (BlockBuilder_build n es)))) ess"
  have M: "merge_of BytewiseCompare (\<lambda>_. True) ess M" by (rule merge_ofI) (use assms in simp_all)
  obtain bs where bs: "length bs = length ess" and ess: "map (\<lambda>(ts, ridx). map snd ts) bs = ess"
    and on: "\<forall>i < length ess.
      (map (\<lambda>(ts, ridx). block_on BytewiseCompare (\<lambda>_. True) ts ridx) bs ! i) (?its ! i) (length (ess ! i))"
    by (rule block_children [OF assms(1-3)])
  have "merge_on BytewiseCompare (\<lambda>_. True) (Block_Iter_methods BytewiseCompare) ess
      (map (\<lambda>(ts, ridx). block_on BytewiseCompare (\<lambda>_. True) ts ridx) bs) M (MergingIterator_new (Block_Iter_methods BytewiseCompare) ?its) (length M)"
    using block_merge.merge_on_new [of bs M ?its, unfolded ess, OF M] bs on by simp blast
  from block_merge.merged.moves_on [of bs, unfolded ess, OF this, of moves]
  show ?thesis unfolding Let_def by simp
qed

theorem merging_refines_cursor_witness:
  "let I = Merging_methods (Block_Iter_methods BytewiseCompare) BytewiseCompare;
       its = map (\<lambda>es. projr (Block_NewIterator (Block_make (BlockBuilder_build 2 es))))
         [[(str ''a'', [1 :: byte]), (str ''d'', [4])], [(str ''b'', [2]), (str ''c'', [3])]];
       m = fold (iter_move I) [ToKey (str ''c''), ToPrev, ToPrev, ToNext] (MergingIterator_new (Block_Iter_methods BytewiseCompare) its)
   in it_Valid I m \<and> (it_key I m, it_value I m) = (str ''b'', [2])"
proof -
  let ?ess = "[[(str ''a'', [1]), (str ''d'', [4])], [(str ''b'', [2]), (str ''c'', [3])]] :: (bytes \<times> bytes) list list"
  let ?M = "[(str ''a'', [1]), (str ''b'', [2]), (str ''c'', [3]), (str ''d'', [4])] :: (bytes \<times> bytes) list"
  let ?moves = "[ToKey (str ''c''), ToPrev, ToPrev, ToNext]"
  have "\<forall>es \<in> set ?ess. length (BlockBuilder_build 2 es) = 18" by code_simp
  then have len: "\<forall>es \<in> set ?ess. length (BlockBuilder_build 2 es) < 2 ^ 32" by simp
  have sorted: "\<forall>es \<in> set ?ess. sorted_wrt (\<lambda>a b. BytewiseCompare a b < 0) (map fst es)"
    "sorted_wrt (\<lambda>a b. BytewiseCompare a b < 0) (map fst ?M)" by code_simp+
  have apart: "\<forall>i < length ?ess. \<forall>k < length ?ess. i \<noteq> k \<longrightarrow> fst ` set (?ess ! i) \<inter> fst ` set (?ess ! k) = {}"
    by (auto simp: less_Suc_eq numeral_2_eq_2 str_def)
  have M: "set ?M = set (concat ?ess)" by auto
  have j: "fold (cursor_move BytewiseCompare ?M) ?moves (length ?M) = 1" by code_simp
  from merging_refines_cursor [OF _ len sorted(1) apart M sorted(2), of ?moves] show ?thesis unfolding Let_def j by simp
qed

text \<open>A key in two children is not always yielded twice, although the interface promises \<open>K\<close> times for
  \<open>K\<close> children. For any two built blocks that end with the same key, moving to the last entry and one
  back shows the entries of both, the second block's first; a move forwards from there makes the
  iterator invalid instead of showing the second block's entry again, because a change of direction skips
  the other children's entries with the current key.\<close>

lemma merging_turn_loses_duplicate:
  assumes "1 \<le> n" and "length (BlockBuilder_build n (xs @ [(k, v)])) < 2 ^ 32" and "length (BlockBuilder_build n (ys @ [(k, w)])) < 2 ^ 32"
    and "sorted_wrt (\<lambda>a b. BytewiseCompare a b < 0) (map fst xs @ [k])" and "sorted_wrt (\<lambda>a b. BytewiseCompare a b < 0) (map fst ys @ [k])"
  shows "let I = Merging_methods (Block_Iter_methods BytewiseCompare) BytewiseCompare;
             its = map (\<lambda>es. projr (Block_NewIterator (Block_make (BlockBuilder_build n es)))) [xs @ [(k, v)], ys @ [(k, w)]];
             m1 = it_SeekToLast I (MergingIterator_new (Block_Iter_methods BytewiseCompare) its);
             m2 = it_Prev I m1
    in it_Valid I m1 \<and> (it_key I m1, it_value I m1) = (k, w) \<and> it_Valid I m2 \<and> (it_key I m2, it_value I m2) = (k, v) \<and>
       \<not> it_Valid I (it_Next I m2)"
proof -
  let ?ess = "[xs @ [(k, v)], ys @ [(k, w)]]"
  let ?its = "map (\<lambda>es. projr (Block_NewIterator (Block_make (BlockBuilder_build n es)))) ?ess"
  have built: "\<forall>es \<in> set ?ess. length (BlockBuilder_build n es) < 2 ^ 32"
    "\<forall>es \<in> set ?ess. sorted_wrt (\<lambda>a b. BytewiseCompare a b < 0) (map fst es)" using assms by simp_all
  obtain bs where bs: "length bs = length ?ess" and ess: "map (\<lambda>(ts, ridx). map snd ts) bs = ?ess"
    and on: "\<forall>i < length ?ess.
      (map (\<lambda>(ts, ridx). block_on BytewiseCompare (\<lambda>_. True) ts ridx) bs ! i) (?its ! i) (length (?ess ! i))"
    by (rule block_children [OF assms(1) built])
  let ?ons = "map (\<lambda>(ts, ridx). block_on BytewiseCompare (\<lambda>_. True) ts ridx) bs"
  have "children_on (Block_Iter_methods BytewiseCompare) ?ons
      (mi_children (MergingIterator_new (Block_Iter_methods BytewiseCompare) ?its)) (\<lambda>i. length (?ess ! i))"
    by (rule block_merge.children_on_new [of bs, unfolded ess]) (use bs in \<open>simp_all only: length_map\<close>, rule on [rule_format])
  from block_merge.pair_turn [OF ess _ _ this] bs show ?thesis by (simp add: Merging_methods_def)
qed

end
