(* ===== verification/DB_Iter.thy ===== *)
theory DB_Iter
  imports Memtable Bloom
begin

text \<open>
  The database iterator, \<open>db/db_iter.cc\<close>: over an internal iterator, which shows every entry of the
  database in the order of internal keys, it shows for every user key the newest entry that a snapshot
  sees, unless that is a deletion. A loop of the code that might not end is a partial function: \<open>None\<close>
  would be an endless loop, and there is none.
\<close>

section \<open>Operations\<close>

datatype DBIter_Direction = kForward | kReverse

text \<open>\<open>di_samples\<close> are the keys handed to \<open>db_->RecordReadSample\<close> so far.\<close>

record 'i DBIter =
  di_iter :: 'i
  di_sequence :: u64
  di_status :: Status
  di_saved_key :: bytes
  di_saved_value :: bytes
  di_direction :: DBIter_Direction
  di_valid :: bool
  di_rnd :: u32
  di_bytes_counter :: int
  di_samples :: "bytes list"

definition RandomPeriod :: "u32 \<Rightarrow> u32 \<times> int" where
  "RandomPeriod rnd = (let (rnd, period) = Random_Uniform rnd (2 * kReadBytesPeriod) in (rnd, int (unat period)))"

definition DBIter_new :: "'i \<Rightarrow> u64 \<Rightarrow> u32 \<Rightarrow> 'i DBIter" where
  "DBIter_new it s seed =
     (let (rnd, period) = RandomPeriod (Random_init seed)
      in \<lparr> di_iter = it, di_sequence = s, di_status = Status_OK, di_saved_key = [], di_saved_value = [],
           di_direction = kForward, di_valid = False, di_rnd = rnd, di_bytes_counter = period, di_samples = [] \<rparr>)"

definition DBIter_key :: "'i Iterator \<Rightarrow> 'i DBIter \<Rightarrow> bytes" where
  "DBIter_key I d = (if di_direction d = kForward then ExtractUserKey (it_key I (di_iter d)) else di_saved_key d)"

definition DBIter_value :: "'i Iterator \<Rightarrow> 'i DBIter \<Rightarrow> bytes" where
  "DBIter_value I d = (if di_direction d = kForward then it_value I (di_iter d) else di_saved_value d)"

definition DBIter_status :: "'i Iterator \<Rightarrow> 'i DBIter \<Rightarrow> Status" where
  "DBIter_status I d = (if ok (di_status d) then it_status I (di_iter d) else di_status d)"

definition ClearSavedValue :: "'i DBIter \<Rightarrow> 'i DBIter" where
  "ClearSavedValue d = d\<lparr> di_saved_value := [] \<rparr>"

partial_function (option) sample_while :: "bytes \<Rightarrow> 'i DBIter \<Rightarrow> 'i DBIter option" where
  "sample_while k d =
     (if di_bytes_counter d < 0
      then sample_while k (d\<lparr> di_rnd := fst (RandomPeriod (di_rnd d)),
             di_bytes_counter := di_bytes_counter d + snd (RandomPeriod (di_rnd d)), di_samples := di_samples d @ [k] \<rparr>)
      else Some d)"

definition ParseKey :: "'i Iterator \<Rightarrow> 'i DBIter \<Rightarrow> (ParsedInternalKey option \<times> 'i DBIter) option" where
  "ParseKey I d =
     (let k = it_key I (di_iter d);
          n = int (length k + length (it_value I (di_iter d)));
          d = d\<lparr> di_bytes_counter := di_bytes_counter d - n \<rparr>
      in Option.bind (sample_while k d) (\<lambda>d.
           case ParseInternalKey k of
             None \<Rightarrow> Some (None, d\<lparr> di_status := Corruption (str ''corrupted internal key in DBIter'') [] \<rparr>)
           | Some ikey \<Rightarrow> Some (Some ikey, d)))"

text \<open>The body of the loop of \<open>FindNextUserEntry\<close> up to \<open>iter_->Next()\<close>: \<open>Inl\<close> returns, \<open>Inr\<close> goes on with
  \<open>skipping\<close>. \<open>skip\<close> is always \<open>&saved_key_\<close>.\<close>

definition FindNext_body :: "'i Iterator \<Rightarrow> (bytes \<Rightarrow> bytes \<Rightarrow> int) \<Rightarrow> bool \<Rightarrow> 'i DBIter \<Rightarrow> ('i DBIter + bool \<times> 'i DBIter) option" where
  "FindNext_body I Compare skipping d =
     Option.bind (ParseKey I d) (\<lambda>(parsed, d). Some
       (case parsed of
          None \<Rightarrow> Inr (skipping, d)
        | Some ikey \<Rightarrow>
            if sequence ikey \<le> di_sequence d
            then (case type ikey of
                    kTypeDeletion \<Rightarrow> Inr (True, d\<lparr> di_saved_key := user_key ikey \<rparr>)
                  | kTypeValue \<Rightarrow>
                      if skipping \<and> Compare (user_key ikey) (di_saved_key d) \<le> 0 then Inr (skipping, d)
                      else Inl (d\<lparr> di_saved_key := [], di_valid := True \<rparr>))
            else Inr (skipping, d)))"

partial_function (option) FindNextUserEntry ::
    "'i Iterator \<Rightarrow> (bytes \<Rightarrow> bytes \<Rightarrow> int) \<Rightarrow> bool \<Rightarrow> 'i DBIter \<Rightarrow> 'i DBIter option" where
  "FindNextUserEntry I Compare skipping d =
     Option.bind (FindNext_body I Compare skipping d) (\<lambda>r.
       case r of
         Inl d \<Rightarrow> Some d
       | Inr x \<Rightarrow>
           (if it_Valid I (it_Next I (di_iter (snd x)))
            then FindNextUserEntry I Compare (fst x) ((snd x)\<lparr> di_iter := it_Next I (di_iter (snd x)) \<rparr>)
            else Some ((snd x)\<lparr> di_iter := it_Next I (di_iter (snd x)), di_saved_key := [], di_valid := False \<rparr>)))"

text \<open>The body of the loop of \<open>FindPrevUserEntry\<close>: \<open>Inl\<close> is \<open>break\<close>.\<close>

definition FindPrev_body ::
    "'i Iterator \<Rightarrow> (bytes \<Rightarrow> bytes \<Rightarrow> int) \<Rightarrow> ValueType \<Rightarrow> 'i DBIter \<Rightarrow> (ValueType \<times> 'i DBIter + ValueType \<times> 'i DBIter) option" where
  "FindPrev_body I Compare value_type d =
     Option.bind (ParseKey I d) (\<lambda>(parsed, d). Some
       (case parsed of
          None \<Rightarrow> Inr (value_type, d)
        | Some ikey \<Rightarrow>
            if sequence ikey \<le> di_sequence d
            then (if value_type \<noteq> kTypeDeletion \<and> Compare (user_key ikey) (di_saved_key d) < 0 then Inl (value_type, d)
                  else if type ikey = kTypeDeletion
                       then Inr (type ikey, ClearSavedValue (d\<lparr> di_saved_key := [] \<rparr>))
                       else Inr (type ikey, d\<lparr> di_saved_key := ExtractUserKey (it_key I (di_iter d)),
                                              di_saved_value := it_value I (di_iter d) \<rparr>))
            else Inr (value_type, d)))"

partial_function (option) FindPrev_loop ::
    "'i Iterator \<Rightarrow> (bytes \<Rightarrow> bytes \<Rightarrow> int) \<Rightarrow> ValueType \<Rightarrow> 'i DBIter \<Rightarrow> (ValueType \<times> 'i DBIter) option" where
  "FindPrev_loop I Compare value_type d =
     (if it_Valid I (di_iter d)
      then Option.bind (FindPrev_body I Compare value_type d) (\<lambda>r.
             case r of
               Inl x \<Rightarrow> Some x
             | Inr x \<Rightarrow> FindPrev_loop I Compare (fst x) ((snd x)\<lparr> di_iter := it_Prev I (di_iter (snd x)) \<rparr>))
      else Some (value_type, d))"

definition FindPrevUserEntry :: "'i Iterator \<Rightarrow> (bytes \<Rightarrow> bytes \<Rightarrow> int) \<Rightarrow> 'i DBIter \<Rightarrow> 'i DBIter option" where
  "FindPrevUserEntry I Compare d =
     Option.bind (FindPrev_loop I Compare kTypeDeletion d) (\<lambda>(value_type, d). Some
       (if value_type = kTypeDeletion
        then (ClearSavedValue (d\<lparr> di_saved_key := [], di_valid := False \<rparr>))\<lparr> di_direction := kForward \<rparr>
        else d\<lparr> di_valid := True \<rparr>))"

definition DBIter_Next :: "'i Iterator \<Rightarrow> (bytes \<Rightarrow> bytes \<Rightarrow> int) \<Rightarrow> 'i DBIter \<Rightarrow> 'i DBIter option" where
  "DBIter_Next I Compare d =
     (if di_direction d = kReverse
      then (let d = d\<lparr> di_iter := (if \<not> it_Valid I (di_iter d) then it_SeekToFirst I (di_iter d) else it_Next I (di_iter d)),
                       di_direction := kForward \<rparr>
            in if \<not> it_Valid I (di_iter d) then Some (d\<lparr> di_saved_key := [], di_valid := False \<rparr>)
               else FindNextUserEntry I Compare True d)
      else FindNextUserEntry I Compare True (d\<lparr> di_saved_key := ExtractUserKey (it_key I (di_iter d)) \<rparr>))"

text \<open>The loop of \<open>Prev\<close> that leaves the entries of the current key: the flag says that it ended at a smaller key.\<close>

partial_function (option) Prev_loop :: "'i Iterator \<Rightarrow> (bytes \<Rightarrow> bytes \<Rightarrow> int) \<Rightarrow> 'i DBIter \<Rightarrow> (bool \<times> 'i DBIter) option" where
  "Prev_loop I Compare d =
     (if \<not> it_Valid I (it_Prev I (di_iter d))
      then Some (False, ClearSavedValue (d\<lparr> di_iter := it_Prev I (di_iter d), di_saved_key := [], di_valid := False \<rparr>))
      else if Compare (ExtractUserKey (it_key I (it_Prev I (di_iter d)))) (di_saved_key d) < 0
      then Some (True, d\<lparr> di_iter := it_Prev I (di_iter d) \<rparr>)
      else Prev_loop I Compare (d\<lparr> di_iter := it_Prev I (di_iter d) \<rparr>))"

definition DBIter_Prev :: "'i Iterator \<Rightarrow> (bytes \<Rightarrow> bytes \<Rightarrow> int) \<Rightarrow> 'i DBIter \<Rightarrow> 'i DBIter option" where
  "DBIter_Prev I Compare d =
     (if di_direction d = kForward
      then Option.bind (Prev_loop I Compare (d\<lparr> di_saved_key := ExtractUserKey (it_key I (di_iter d)) \<rparr>)) (\<lambda>(found, d).
             if found then FindPrevUserEntry I Compare (d\<lparr> di_direction := kReverse \<rparr>) else Some d)
      else FindPrevUserEntry I Compare d)"

definition DBIter_Seek :: "'i Iterator \<Rightarrow> (bytes \<Rightarrow> bytes \<Rightarrow> int) \<Rightarrow> 'i DBIter \<Rightarrow> bytes \<Rightarrow> 'i DBIter option" where
  "DBIter_Seek I Compare d target =
     (let d = ClearSavedValue (d\<lparr> di_direction := kForward \<rparr>);
          d = d\<lparr> di_saved_key := AppendInternalKey [] \<lparr> user_key = target, sequence = di_sequence d, type = kValueTypeForSeek \<rparr> \<rparr>;
          d = d\<lparr> di_iter := it_Seek I (di_iter d) (di_saved_key d) \<rparr>
      in if it_Valid I (di_iter d) then FindNextUserEntry I Compare False d else Some (d\<lparr> di_valid := False \<rparr>))"

definition DBIter_SeekToFirst :: "'i Iterator \<Rightarrow> (bytes \<Rightarrow> bytes \<Rightarrow> int) \<Rightarrow> 'i DBIter \<Rightarrow> 'i DBIter option" where
  "DBIter_SeekToFirst I Compare d =
     (let d = ClearSavedValue (d\<lparr> di_direction := kForward \<rparr>);
          d = d\<lparr> di_iter := it_SeekToFirst I (di_iter d) \<rparr>
      in if it_Valid I (di_iter d) then FindNextUserEntry I Compare False d else Some (d\<lparr> di_valid := False \<rparr>))"

definition DBIter_SeekToLast :: "'i Iterator \<Rightarrow> (bytes \<Rightarrow> bytes \<Rightarrow> int) \<Rightarrow> 'i DBIter \<Rightarrow> 'i DBIter option" where
  "DBIter_SeekToLast I Compare d =
     (let d = ClearSavedValue (d\<lparr> di_direction := kReverse \<rparr>);
          d = d\<lparr> di_iter := it_SeekToLast I (di_iter d) \<rparr>
      in FindPrevUserEntry I Compare d)"

definition DBIter_methods :: "'i Iterator \<Rightarrow> (bytes \<Rightarrow> bytes \<Rightarrow> int) \<Rightarrow> 'i DBIter option Iterator" where
  "DBIter_methods I Compare =
     \<lparr> it_Valid = (\<lambda>d. case d of None \<Rightarrow> False | Some d \<Rightarrow> di_valid d),
       it_SeekToFirst = (\<lambda>d. Option.bind d (DBIter_SeekToFirst I Compare)),
       it_SeekToLast = (\<lambda>d. Option.bind d (DBIter_SeekToLast I Compare)),
       it_Seek = (\<lambda>d target. Option.bind d (\<lambda>d. DBIter_Seek I Compare d target)),
       it_Next = (\<lambda>d. Option.bind d (DBIter_Next I Compare)),
       it_Prev = (\<lambda>d. Option.bind d (DBIter_Prev I Compare)),
       it_key = (\<lambda>d. DBIter_key I (the d)),
       it_value = (\<lambda>d. DBIter_value I (the d)),
       it_status = (\<lambda>d. DBIter_status I (the d)) \<rparr>"

definition NewDBIterator :: "'i \<Rightarrow> u64 \<Rightarrow> u32 \<Rightarrow> 'i DBIter option" where
  "NewDBIterator internal_iter s seed = Some (DBIter_new internal_iter s seed)"

section \<open>Sampling ends\<close>

definition seed_ok :: "u32 \<Rightarrow> bool" where
  "seed_ok r \<longleftrightarrow> 0 < unat r \<and> unat r < 2147483647"

lemma RandomPeriod_next: "fst (RandomPeriod r) = Random_Next r" "snd (RandomPeriod r) = int (unat (Random_Next r) mod 2097152)"
proof -
  have "unat (Random_Next r mod 2097152) = unat (Random_Next r) mod 2097152" by (simp add: unat_mod)
  moreover have "snd (RandomPeriod r) = int (unat (Random_Next r mod 2097152))"
    by (simp add: RandomPeriod_def Random_Uniform_def kReadBytesPeriod_def Let_def)
  ultimately show "snd (RandomPeriod r) = int (unat (Random_Next r) mod 2097152)" by metis
qed (simp add: RandomPeriod_def Random_Uniform_def kReadBytesPeriod_def Let_def)

lemma seed_ok_next: "seed_ok r \<Longrightarrow> seed_ok (fst (RandomPeriod r))"
  using Random_Next_nonzero [of r] by (simp add: seed_ok_def RandomPeriod_next)

lemma lehmer_not_again:
  fixes x :: nat
  assumes "0 < x" and "x < 2147483647" and "x mod 2097152 = 0"
  shows "x * 16807 mod 2147483647 mod 2097152 \<noteq> 0"
proof -
  obtain k where k: "x = k * 2097152" using assms(3) by (metis mod_0_imp_dvd dvd_def mult.commute)
  then have "0 < k" "k < 1024" using assms(1,2) by auto
  define q r where "q = k * 16807 div 1024" and "r = k * 16807 mod 1024"
  have "k * 16807 = q * 1024 + r" by (simp add: q_def r_def)
  then have "x * 16807 = (q * 1024 + r) * 2097152" by (simp add: k)
  then have x: "x * 16807 = (q + r * 2097152) + q * 2147483647" by simp
  have q: "q < 16807" "0 < q" unfolding q_def using \<open>0 < k\<close> \<open>k < 1024\<close> by (auto simp: div_less_iff_less_mult div_greater_zero_iff)
  have "r < 1024" by (simp add: r_def)
  then have "q + r * 2097152 < 2147483647" using q by simp
  then have "x * 16807 mod 2147483647 = q + r * 2097152" unfolding x mod_mult_self1 by (rule mod_less)
  then show ?thesis using q by simp
qed

text \<open>Of two draws in a row at least one is positive.\<close>

lemma RandomPeriod_positive:
  assumes "seed_ok r" and "snd (RandomPeriod r) = 0"
  shows "0 < snd (RandomPeriod (fst (RandomPeriod r)))"
proof -
  have ok: "seed_ok (Random_Next r)" using seed_ok_next [OF assms(1)] by (simp add: RandomPeriod_next)
  then have "unat (Random_Next (Random_Next r)) = unat (Random_Next r) * 16807 mod 2147483647"
    by (intro Random_Next_mod) (simp_all add: seed_ok_def)
  then show ?thesis using lehmer_not_again [of "unat (Random_Next r)"] ok assms(2) by (simp add: seed_ok_def RandomPeriod_next)
qed

lemma RandomPeriod_nonneg: "0 \<le> snd (RandomPeriod r)"
  by (simp add: RandomPeriod_next)

definition sampled :: "'i DBIter \<Rightarrow> 'i DBIter \<Rightarrow> bool" where
  "sampled d d' \<longleftrightarrow> (\<exists>r c ss. d' = d\<lparr> di_rnd := r, di_bytes_counter := c, di_samples := ss \<rparr> \<and> seed_ok r \<and> 0 \<le> c)"

lemma sampled_trans: "sampled (d\<lparr> di_rnd := r, di_bytes_counter := c, di_samples := ss \<rparr>) d' \<Longrightarrow> sampled d d'"
  by (force simp: sampled_def)

lemma sample_while_ends: "seed_ok (di_rnd d) \<Longrightarrow> \<exists>d'. sample_while k d = Some d' \<and> sampled d d'"
proof (induction "nat (- di_bytes_counter d)" arbitrary: d rule: less_induct)
  case less
  show ?case
  proof (cases "di_bytes_counter d < 0")
    case False
    then have "sample_while k d = Some d" by (subst sample_while.simps) simp
    moreover have "sampled d d" unfolding sampled_def
      by (intro exI [of _ "di_rnd d"] exI [of _ "di_bytes_counter d"] exI [of _ "di_samples d"]) (use False less.prems in simp)
    ultimately show ?thesis by blast
  next
    case True
    define step where "step d = d\<lparr> di_rnd := fst (RandomPeriod (di_rnd d)),
        di_bytes_counter := di_bytes_counter d + snd (RandomPeriod (di_rnd d)), di_samples := di_samples d @ [k] \<rparr>" for d :: "'a DBIter"
    have unf: "sample_while k d = sample_while k (step d)" if "di_bytes_counter d < 0" for d :: "'a DBIter"
      using that unfolding step_def by (subst sample_while.simps) simp
    have sok: "seed_ok (di_rnd (step d))" if "seed_ok (di_rnd d)" for d :: "'a DBIter" using seed_ok_next [OF that] by (simp add: step_def)
    have st: "sampled d d'" if "sampled (step d) d'" for d d' :: "'a DBIter" using that unfolding step_def by (rule sampled_trans)
    have bc: "di_bytes_counter (step d) = di_bytes_counter d + snd (RandomPeriod (di_rnd d))" for d :: "'a DBIter" by (simp add: step_def)
    show ?thesis
    proof (cases "snd (RandomPeriod (di_rnd d)) = 0")
      case False
      then have "nat (- di_bytes_counter (step d)) < nat (- di_bytes_counter d)" using True RandomPeriod_nonneg [of "di_rnd d"] by (simp add: bc)
      from less.hyps [OF this sok [OF less.prems]] unf [OF True] st show ?thesis by metis
    next
      case zero: True
      have neg: "di_bytes_counter (step d) < 0" using True by (simp add: bc zero)
      have "0 < snd (RandomPeriod (di_rnd (step d)))" using RandomPeriod_positive [OF less.prems zero] by (simp add: step_def)
      then have "nat (- di_bytes_counter (step (step d))) < nat (- di_bytes_counter d)" using neg True by (simp add: bc zero)
      from less.hyps [OF this sok [OF sok [OF less.prems]]] unf [OF True] unf [OF neg] st show ?thesis by metis
    qed
  qed
qed

lemma ParseKey_sampled:
  assumes "seed_ok (di_rnd d)" and "ParseInternalKey (it_key I (di_iter d)) = Some ikey"
  shows "\<exists>d'. ParseKey I d = Some (Some ikey, d') \<and> sampled d d'"
proof -
  let ?d = "d\<lparr> di_bytes_counter := di_bytes_counter d - int (length (it_key I (di_iter d)) + length (it_value I (di_iter d))) \<rparr>"
  have "seed_ok (di_rnd ?d)" using assms(1) by simp
  from sample_while_ends [OF this] obtain d' where d': "sample_while (it_key I (di_iter d)) ?d = Some d'" "sampled ?d d'" by blast
  from d'(2) have "sampled d d'" by (force simp: sampled_def)
  with d'(1) assms(2) show ?thesis by (simp add: ParseKey_def Let_def)
qed

section \<open>What a snapshot shows\<close>

lemma takeWhile_split: "\<forall>x \<in> set xs. P x \<Longrightarrow> \<forall>y \<in> set ys. \<not> P y \<Longrightarrow> takeWhile P (xs @ ys) = xs"
  by (induction xs) (auto simp: takeWhile_eq_Nil_iff)

lemma filter_upt_least:
  assumes "p \<le> i" and "i < n" and "P i" and "\<And>k. p \<le> k \<Longrightarrow> k < i \<Longrightarrow> \<not> P k"
  shows "length (filter P [0..<p]) < length (filter P [0..<n])" and "filter P [0..<n] ! length (filter P [0..<p]) = i"
proof -
  have "[0..<n] = [0..<p] @ [p..<i] @ i # [Suc i..<n]"
    using assms(1,2) by (metis append.assoc le_add_diff_inverse less_imp_le upt_add_eq_append upt_conv_Cons zero_le)
  moreover have "filter P [p..<i] = []" using assms(4) by (simp add: filter_empty_conv)
  ultimately have "filter P [0..<n] = filter P [0..<p] @ i # filter P [Suc i..<n]" using assms(3) by simp
  then show "length (filter P [0..<p]) < length (filter P [0..<n])" and "filter P [0..<n] ! length (filter P [0..<p]) = i" by simp_all
qed

lemma filter_upt_none:
  assumes "p \<le> n" and "\<And>k. p \<le> k \<Longrightarrow> k < n \<Longrightarrow> \<not> P k"
  shows "length (filter P [0..<p]) = length (filter P [0..<n])"
proof -
  have "[0..<n] = [0..<p] @ [p..<n]" using assms(1) upt_add_eq_append [of 0 p "n - p"] by simp
  moreover have "filter P [p..<n] = []" using assms(2) by (simp add: filter_empty_conv)
  ultimately show ?thesis by simp
qed

lemma filter_upt_nth:
  assumes "j < length (filter P [0..<n])"
  shows "filter P [0..<n] ! j < n" and "P (filter P [0..<n] ! j)" and "length (filter P [0..<filter P [0..<n] ! j]) = j"
proof -
  let ?i = "filter P [0..<n] ! j"
  have i: "?i \<in> set (filter P [0..<n])" using assms by (rule nth_mem)
  then show n: "?i < n" and P: "P ?i" by simp_all
  have none: "\<And>k. ?i \<le> k \<Longrightarrow> k < ?i \<Longrightarrow> \<not> P k" by linarith
  note least = filter_upt_least [where P = P, OF order_refl n P none]
  have "distinct (filter P [0..<n])" by simp
  from nth_eq_iff_index_eq [OF this least(1) assms] least(2) show "length (filter P [0..<?i]) = j" by blast
qed

definition ukey :: "(bytes \<times> bytes) list \<Rightarrow> nat \<Rightarrow> bytes" where
  "ukey es i = ExtractUserKey (fst (es ! i))"

definition parsed_key :: "(bytes \<times> bytes) list \<Rightarrow> nat \<Rightarrow> ParsedInternalKey" where
  "parsed_key es i = the (ParseInternalKey (fst (es ! i)))"

definition visible :: "u64 \<Rightarrow> (bytes \<times> bytes) list \<Rightarrow> nat \<Rightarrow> bool" where
  "visible s es i \<longleftrightarrow> sequence (parsed_key es i) \<le> s"

text \<open>An entry is shown when the snapshot sees it, it is a value, and no newer entry of its user key is seen.\<close>

definition shown :: "(bytes \<Rightarrow> bytes \<Rightarrow> int) \<Rightarrow> u64 \<Rightarrow> (bytes \<times> bytes) list \<Rightarrow> nat \<Rightarrow> bool" where
  "shown Compare s es i \<longleftrightarrow> visible s es i \<and> type (parsed_key es i) = kTypeValue \<and>
     (\<forall>j < i. Compare (ukey es j) (ukey es i) = 0 \<longrightarrow> \<not> visible s es j)"

definition shown_at :: "(bytes \<Rightarrow> bytes \<Rightarrow> int) \<Rightarrow> u64 \<Rightarrow> (bytes \<times> bytes) list \<Rightarrow> nat list" where
  "shown_at Compare s es = filter (shown Compare s es) [0..<length es]"

definition user_view :: "(bytes \<Rightarrow> bytes \<Rightarrow> int) \<Rightarrow> u64 \<Rightarrow> (bytes \<times> bytes) list \<Rightarrow> (bytes \<times> bytes) list" where
  "user_view Compare s es = map (\<lambda>i. (ukey es i, snd (es ! i))) (shown_at Compare s es)"

definition parses :: "(bytes \<times> bytes) list \<Rightarrow> bool" where
  "parses es \<longleftrightarrow> (\<forall>e \<in> set es. ParseInternalKey (fst e) \<noteq> None)"

lemma parses_nth:
  assumes "parses es" and "i < length es"
  shows "ParseInternalKey (fst (es ! i)) = Some (parsed_key es i)" and "user_key (parsed_key es i) = ukey es i"
proof -
  show p: "ParseInternalKey (fst (es ! i)) = Some (parsed_key es i)" using assms by (auto simp: parses_def parsed_key_def)
  from ParseInternalKey_Some(1) [OF this] show "user_key (parsed_key es i) = ukey es i" by (metis ukey_def ExtractUserKey_make)
qed

text \<open>The internal iterator stands before the entry \<open>i\<close>, and what is between them the snapshot does not see.\<close>

definition db_before :: "u64 \<Rightarrow> (bytes \<times> bytes) list \<Rightarrow> ('i \<Rightarrow> nat \<Rightarrow> bool) \<Rightarrow> 'i \<Rightarrow> nat \<Rightarrow> bool" where
  "db_before s es ion it i \<longleftrightarrow>
     (\<exists>r \<le> i. ion it (if r = 0 then length es else r - 1) \<and> (\<forall>k. r \<le> k \<longrightarrow> k < i \<longrightarrow> \<not> visible s es k))"

definition db_at :: "u64 \<Rightarrow> (bytes \<times> bytes) list \<Rightarrow> ('i \<Rightarrow> nat \<Rightarrow> bool) \<Rightarrow> 'i DBIter \<Rightarrow> nat \<Rightarrow> bool" where
  "db_at s es ion d i \<longleftrightarrow>
     (if di_direction d = kForward then ion (di_iter d) i
      else di_saved_key d = ukey es i \<and> di_saved_value d = snd (es ! i) \<and> db_before s es ion (di_iter d) i)"

text \<open>The iterator stands on entry \<open>j\<close> of what the snapshot shows, or is not valid.\<close>

definition db_on ::
    "(bytes \<Rightarrow> bytes \<Rightarrow> int) \<Rightarrow> u64 \<Rightarrow> (bytes \<Rightarrow> bool) \<Rightarrow> (bytes \<times> bytes) list \<Rightarrow> ('i \<Rightarrow> nat \<Rightarrow> bool) \<Rightarrow> 'i DBIter option \<Rightarrow> nat \<Rightarrow> bool" where
  "db_on Compare s uvalid es ion x j \<longleftrightarrow>
     s \<le> kMaxSequenceNumber \<and> parses es \<and> (\<forall>e \<in> set (user_view Compare s es). uvalid (fst e)) \<and>
     (\<exists>d. x = Some d \<and> di_sequence d = s \<and> di_status d = Status_OK \<and> seed_ok (di_rnd d) \<and>
        (if j < length (shown_at Compare s es) then di_valid d \<and> db_at s es ion d (shown_at Compare s es ! j)
         else j = length (shown_at Compare s es) \<and> \<not> di_valid d \<and> (\<exists>p. ion (di_iter d) p)))"

locale db_iterator = user_comparator Compare FindShortestSeparator FindShortSuccessor +
  list_iterator I "InternalKeyCompare Compare" valid es ion
  for Compare FindShortestSeparator FindShortSuccessor and I :: "'i Iterator" and valid es ion +
  fixes uvalid :: "bytes \<Rightarrow> bool"
  assumes seek_valid: "uvalid u \<Longrightarrow> valid (InternalKey_make u s kTypeValue)"
begin

lemma ukey_sorted:
  assumes "ion it q" and "a \<le> b" and "b < length es"
  shows "Compare (ukey es a) (ukey es b) \<le> 0"
proof (cases "a = b")
  case False
  with assms have "InternalKeyCompare Compare (fst (es ! a)) (fst (es ! b)) < 0"
    using on_sorted [OF assms(1)] by (auto simp: sorted_wrt_iff_nth_less)
  then show ?thesis by (auto simp: internal_less_iff ukey_def)
qed (simp add: Compare_self)

text \<open>The entries that \<open>FindNextUserEntry\<close> may stop at, from position \<open>p\<close> with keys up to \<open>k\<close> skipped.\<close>

definition cand :: "u64 \<Rightarrow> nat \<Rightarrow> bool \<Rightarrow> bytes \<Rightarrow> nat \<Rightarrow> bool" where
  "cand s p skipping k i \<longleftrightarrow> visible s es i \<and> type (parsed_key es i) = kTypeValue \<and> \<not> (skipping \<and> Compare (ukey es i) k \<le> 0) \<and>
     (\<forall>j. p \<le> j \<longrightarrow> j < i \<longrightarrow> visible s es j \<longrightarrow> Compare (ukey es j) (ukey es i) \<noteq> 0)"

lemma cand_Suc:
  assumes "p < i" and "\<not> visible s es p \<or> skipping \<and> Compare (ukey es p) k \<le> 0"
  shows "cand s (Suc p) skipping k i = cand s p skipping k i"
proof -
  have "Compare (ukey es p) (ukey es i) \<noteq> 0" if "visible s es p" "\<not> (skipping \<and> Compare (ukey es i) k \<le> 0)"
    using assms(2) that Compare_trans [of "ukey es i" "ukey es p" k] Compare_eq_flip [of "ukey es p" "ukey es i"] by auto
  then show ?thesis unfolding cand_def using assms(1) by (metis Suc_leI Suc_le_lessD less_imp_le_nat order_le_less)
qed

lemma cand_deletion:
  assumes "ion it q" and "p < i" and "i < length es" and "visible s es p" and "skipping \<Longrightarrow> Compare k (ukey es p) \<le> 0"
  shows "cand s (Suc p) True (ukey es p) i = cand s p skipping k i"
proof -
  have le: "Compare (ukey es p) (ukey es i) \<le> 0" using ukey_sorted [OF assms(1)] assms(2,3) by simp
  have flip: "Compare (ukey es i) (ukey es p) \<le> 0 \<longleftrightarrow> Compare (ukey es p) (ukey es i) = 0"
    using le Compare_le_flip [of "ukey es i" "ukey es p"] by auto
  have "\<not> Compare (ukey es i) k \<le> 0" if "skipping" "Compare (ukey es p) (ukey es i) \<noteq> 0"
    using that assms(5) flip Compare_trans [of "ukey es i" k "ukey es p"] by auto
  then show ?thesis unfolding cand_def flip using assms(2,4) by (metis Suc_leI Suc_le_lessD less_imp_le_nat order_le_less)
qed

lemma ParseKey_on:
  assumes "ion (di_iter d) p" and "p < length es" and "parses es" and "seed_ok (di_rnd d)"
  shows "\<exists>d'. ParseKey I d = Some (Some (parsed_key es p), d') \<and> sampled d d'"
  using ParseKey_sampled [OF assms(4)] parses_nth(1) [OF assms(3,2)] key_on [OF assms(1,2)] by simp

definition same_mode :: "'i DBIter \<Rightarrow> 'i DBIter \<Rightarrow> bool" where
  "same_mode d d' \<longleftrightarrow> di_sequence d' = di_sequence d \<and> di_status d' = di_status d \<and> di_direction d' = di_direction d \<and> seed_ok (di_rnd d')"

lemma FindNext_finds:
  assumes "ion (di_iter d) p" and "p < length es" and "parses es" and "seed_ok (di_rnd d)" and "di_sequence d = s"
    and "skipping \<longrightarrow> (\<forall>i. p \<le> i \<longrightarrow> i < length es \<longrightarrow> visible s es i \<longrightarrow> Compare (di_saved_key d) (ukey es i) \<le> 0)"
  shows "\<exists>d' i. FindNextUserEntry I Compare skipping d = Some d' \<and> same_mode d d' \<and> ion (di_iter d') i \<and> p \<le> i \<and> i \<le> length es \<and>
    (di_valid d' \<longleftrightarrow> i < length es) \<and> (i < length es \<longrightarrow> cand s p skipping (di_saved_key d) i) \<and>
    (\<forall>k. p \<le> k \<longrightarrow> k < i \<longrightarrow> \<not> cand s p skipping (di_saved_key d) k)"
  using assms
proof (induction "length es - p" arbitrary: p skipping d)
  case (Suc n)
  obtain d1 where d1: "ParseKey I d = Some (Some (parsed_key es p), d1)" "sampled d d1" using ParseKey_on [OF Suc.prems(1-4)] by blast
  then have c: "di_iter d1 = di_iter d" "di_sequence d1 = s" "di_status d1 = di_status d" "di_saved_key d1 = di_saved_key d"
      "di_direction d1 = di_direction d" "seed_ok (di_rnd d1)" using Suc.prems(5) by (auto simp: sampled_def)
  let ?seen = "visible s es p" and ?t = "type (parsed_key es p)" and ?k = "di_saved_key d"
  let ?hid = "skipping \<and> Compare (ukey es p) ?k \<le> 0"
  have body: "FindNext_body I Compare skipping d = Some
      (if \<not> ?seen then Inr (skipping, d1) else if ?t = kTypeDeletion then Inr (True, d1\<lparr> di_saved_key := ukey es p \<rparr>)
       else if ?hid then Inr (skipping, d1) else Inl (d1\<lparr> di_saved_key := [], di_valid := True \<rparr>))"
    using d1(1) c(2,4) parses_nth(2) [OF Suc.prems(3,2)] by (cases ?t) (auto simp: FindNext_body_def visible_def)
  show ?case
  proof (cases "?seen \<and> ?t = kTypeValue \<and> \<not> ?hid")
    case True
    then have "FindNext_body I Compare skipping d = Some (Inl (d1\<lparr> di_saved_key := [], di_valid := True \<rparr>))" using body by auto
    then have "FindNextUserEntry I Compare skipping d = Some (d1\<lparr> di_saved_key := [], di_valid := True \<rparr>)"
      by (subst FindNextUserEntry.simps) simp
    moreover have "cand s p skipping ?k p" using True by (simp add: cand_def)
    ultimately show ?thesis using Suc.prems(1,2,5) c by (intro exI [of _ "d1\<lparr> di_saved_key := [], di_valid := True \<rparr>"] exI [of _ p]) (simp add: same_mode_def)
  next
    case False
    define sk k where "sk = (if ?seen \<and> ?t = kTypeDeletion then True else skipping)" and "k = (if ?seen \<and> ?t = kTypeDeletion then ukey es p else ?k)"
    define d2 where "d2 = d1\<lparr> di_saved_key := k \<rparr>"
    have "d1 = d1\<lparr> di_saved_key := ?k \<rparr>" using c(4) by simp
    then have body2: "FindNext_body I Compare skipping d = Some (Inr (sk, d2))"
      using body False by (cases ?t) (auto simp: sk_def k_def d2_def)
    have np: "\<not> cand s p skipping ?k p" using False by (auto simp: cand_def)
    have eq: "cand s (Suc p) sk k i = cand s p skipping ?k i" if "p < i" "i < length es" for i
    proof (cases "?seen \<and> ?t = kTypeDeletion")
      case True
      then show ?thesis using cand_deletion [OF Suc.prems(1) that, of s skipping ?k] Suc.prems(2,6) by (simp add: sk_def k_def)
    next
      case other: False
      then have "\<not> ?seen \<or> ?hid" using False by (cases ?t) auto
      with other show ?thesis using cand_Suc [OF that(1), of s skipping ?k] by (simp only: sk_def k_def if_False)
    qed
    have next2: "ion (it_Next I (di_iter d2)) (Suc p)" using Next_on [OF Suc.prems(1,2)] c(1) by (simp add: d2_def)
    let ?d3 = "d2\<lparr> di_iter := it_Next I (di_iter d2) \<rparr>"
    show ?thesis
    proof (cases "Suc p < length es")
      case False
      let ?d' = "d2\<lparr> di_iter := it_Next I (di_iter d2), di_saved_key := [], di_valid := False \<rparr>"
      have fin: "Suc p = length es" using False Suc.prems(2) by simp
      then have "FindNextUserEntry I Compare skipping d = Some ?d'"
        using body2 Valid_on [OF next2] by (subst FindNextUserEntry.simps) simp
      moreover have "\<not> cand s p skipping ?k i" if "p \<le> i" "i < length es" for i using np that fin by (metis less_antisym not_le)
      ultimately show ?thesis using next2 fin c Suc.prems(5) by (intro exI [of _ ?d'] exI [of _ "length es"]) (auto simp: same_mode_def d2_def)
    next
      case more: True
      have rec: "FindNextUserEntry I Compare skipping d = FindNextUserEntry I Compare sk ?d3"
        using body2 Valid_on [OF next2] more by (subst FindNextUserEntry.simps) simp
      have "sk \<longrightarrow> (\<forall>i. Suc p \<le> i \<longrightarrow> i < length es \<longrightarrow> visible s es i \<longrightarrow> Compare (di_saved_key ?d3) (ukey es i) \<le> 0)"
        using Suc.prems(6) ukey_sorted [OF Suc.prems(1), of p] by (auto simp: sk_def k_def d2_def)
      moreover have "n = length es - Suc p" "ion (di_iter ?d3) (Suc p)" "seed_ok (di_rnd ?d3)" "di_sequence ?d3 = s"
        using Suc.hyps(2) next2 c by (simp_all add: d2_def)
      ultimately have "\<exists>d' i. FindNextUserEntry I Compare sk ?d3 = Some d' \<and> same_mode ?d3 d' \<and> ion (di_iter d') i \<and> Suc p \<le> i \<and> i \<le> length es \<and>
          (di_valid d' \<longleftrightarrow> i < length es) \<and> (i < length es \<longrightarrow> cand s (Suc p) sk (di_saved_key ?d3) i) \<and>
          (\<forall>j. Suc p \<le> j \<longrightarrow> j < i \<longrightarrow> \<not> cand s (Suc p) sk (di_saved_key ?d3) j)"
        using Suc.hyps(1) [of "Suc p" ?d3 sk] more Suc.prems(3) by blast
      moreover have "di_saved_key ?d3 = k" by (simp add: d2_def)
      ultimately obtain d' i where r: "FindNextUserEntry I Compare sk ?d3 = Some d'" "same_mode ?d3 d'" "ion (di_iter d') i" "Suc p \<le> i" "i \<le> length es"
          "di_valid d' \<longleftrightarrow> i < length es" "i < length es \<longrightarrow> cand s (Suc p) sk k i" "\<forall>j. Suc p \<le> j \<longrightarrow> j < i \<longrightarrow> \<not> cand s (Suc p) sk k j"
        by metis
      have "\<not> cand s p skipping ?k j" if "p \<le> j" "j < i" for j
        using r(5,8) np eq [of j] that by (cases "j = p") auto
      then show ?thesis using rec r eq [of i] c Suc.prems(5) by (intro exI [of _ d'] exI [of _ i]) (auto simp: same_mode_def d2_def)
    qed
  qed
qed simp

lemma shown_same_group:
  assumes "visible s es p" and "p < i" and "Compare (ukey es p) (ukey es i) = 0"
  shows "\<not> shown Compare s es i"
  using assms by (auto simp: shown_def)

definition prev_found :: "u64 \<Rightarrow> nat \<Rightarrow> ValueType \<Rightarrow> 'i DBIter \<Rightarrow> bool" where
  "prev_found s R vt d \<longleftrightarrow>
     (if vt = kTypeDeletion then (\<forall>k < R. \<not> shown Compare s es k) \<and> (\<exists>p. ion (di_iter d) p)
      else \<exists>i < R. i < length es \<and> shown Compare s es i \<and> (\<forall>k. i < k \<longrightarrow> k < R \<longrightarrow> \<not> shown Compare s es k) \<and>
        di_saved_key d = ukey es i \<and> di_saved_value d = snd (es ! i) \<and> db_before s es ion (di_iter d) i)"

lemma prev_found_up:
  assumes "prev_found s R vt d" and "R \<le> R'" and "\<And>k. R \<le> k \<Longrightarrow> k < R' \<Longrightarrow> \<not> shown Compare s es k"
  shows "prev_found s R' vt d"
proof (cases "vt = kTypeDeletion")
  case True
  then show ?thesis using assms unfolding prev_found_def by (metis not_le)
next
  case False
  with assms(1) obtain i where i: "i < R" "i < length es" "shown Compare s es i" "\<forall>k. i < k \<longrightarrow> k < R \<longrightarrow> \<not> shown Compare s es k"
      "di_saved_key d = ukey es i" "di_saved_value d = snd (es ! i)" "db_before s es ion (di_iter d) i" by (auto simp: prev_found_def)
  have "\<not> shown Compare s es k" if "i < k" "k < R'" for k using i(4) assms(3) [of k] that by (cases "k < R") auto
  then show ?thesis using False i assms(2) unfolding prev_found_def by (simp add: exI [of _ i])
qed

text \<open>The loop of \<open>FindPrevUserEntry\<close> with the entries below \<open>r\<close> to come; \<open>i\<close> is the value saved last.\<close>

lemma FindPrev_finds:
  assumes "ion (di_iter d) (if r = 0 then length es else r - 1)" and "r \<le> length es" and "parses es" and "seed_ok (di_rnd d)" and "di_sequence d = s"
    and "vt = kTypeValue \<longrightarrow> i < length es \<and> r \<le> i \<and> visible s es i \<and> type (parsed_key es i) = kTypeValue \<and> di_saved_key d = ukey es i \<and>
      di_saved_value d = snd (es ! i) \<and> (\<forall>k. r \<le> k \<longrightarrow> k < i \<longrightarrow> \<not> visible s es k)"
  shows "\<exists>vt' d'. FindPrev_loop I Compare vt d = Some (vt', d') \<and> same_mode d d' \<and> prev_found s (if vt = kTypeValue then Suc i else r) vt' d'"
  using assms
proof (induction r arbitrary: d vt i)
  case 0
  have "FindPrev_loop I Compare vt d = Some (vt, d)" using Valid_on [OF 0(1)] by (subst FindPrev_loop.simps) simp
  moreover have "prev_found s (if vt = kTypeValue then Suc i else 0) vt d"
  proof (cases vt)
    case kTypeDeletion
    then show ?thesis using 0(1) by (auto simp: prev_found_def)
  next
    case kTypeValue
    then have "shown Compare s es i" "db_before s es ion (di_iter d) i" using 0 by (auto simp: shown_def db_before_def)
    then show ?thesis using kTypeValue 0(6) unfolding prev_found_def by (auto intro!: exI [of _ i])
  qed
  ultimately show ?case using 0(4) by (auto simp: same_mode_def)
next
  case (Suc p)
  have p: "p < length es" "ion (di_iter d) p" using Suc.prems(1,2) by simp_all
  obtain d1 where d1: "ParseKey I d = Some (Some (parsed_key es p), d1)" "sampled d d1" using ParseKey_on [OF p(2,1) Suc.prems(3,4)] by blast
  then have c: "di_iter d1 = di_iter d" "di_sequence d1 = s" "di_status d1 = di_status d" "di_saved_key d1 = di_saved_key d"
      "di_saved_value d1 = di_saved_value d" "di_direction d1 = di_direction d" "seed_ok (di_rnd d1)" using Suc.prems(5) by (auto simp: sampled_def)
  have kv: "ExtractUserKey (it_key I (di_iter d)) = ukey es p" "it_value I (di_iter d) = snd (es ! p)"
    using key_on [OF p(2,1)] value_on [OF p(2,1)] by (simp_all add: ukey_def)
  let ?R = "if vt = kTypeValue then Suc i else Suc p" and ?t = "type (parsed_key es p)"
  have gap: "\<not> shown Compare s es k" if "Suc p \<le> k" "k < ?R" "visible s es p \<Longrightarrow> \<not> (vt = kTypeValue \<and> Compare (ukey es p) (ukey es i) < 0)"
      "visible s es p \<or> vt = kTypeDeletion" for k
  proof (cases "k = i")
    case True
    with that have v: "vt = kTypeValue" by (cases vt) auto
    have "Compare (ukey es p) (ukey es i) \<le> 0" using ukey_sorted [OF p(2), of p i] Suc.prems(6) v by simp
    then show ?thesis using that v True shown_same_group [of s p i] by auto
  next
    case False
    with that have "vt = kTypeValue" "k < i" by (auto split: if_splits)
    then show ?thesis using Suc.prems(6) that(1) by (simp add: shown_def)
  qed
  have body: "FindPrev_body I Compare vt d = Some
      (if \<not> visible s es p then Inr (vt, d1)
       else if vt \<noteq> kTypeDeletion \<and> Compare (ukey es p) (di_saved_key d) < 0 then Inl (vt, d1)
       else if ?t = kTypeDeletion then Inr (?t, d1\<lparr> di_saved_key := [], di_saved_value := [] \<rparr>)
       else Inr (?t, d1\<lparr> di_saved_key := ukey es p, di_saved_value := snd (es ! p) \<rparr>))"
    using d1(1) c parses_nth(2) [OF Suc.prems(3) p(1)] kv by (auto simp: FindPrev_body_def visible_def ClearSavedValue_def)
  have valid: "it_Valid I (di_iter d)" using Valid_on [OF p(2)] p(1) by simp
  have prev: "ion (it_Prev I (di_iter d)) (if p = 0 then length es else p - 1)" using Prev_on [OF p(2,1)] .
  have step: "\<exists>vt' d'. FindPrev_loop I Compare vt d = Some (vt', d') \<and> same_mode d d' \<and> prev_found s (if vt2 = kTypeValue then Suc i2 else p) vt' d'"
    if b: "FindPrev_body I Compare vt d = Some (Inr (vt2, d1\<lparr> di_saved_key := k, di_saved_value := v \<rparr>))"
      and inv: "vt2 = kTypeValue \<longrightarrow> i2 < length es \<and> p \<le> i2 \<and> visible s es i2 \<and> type (parsed_key es i2) = kTypeValue \<and> k = ukey es i2 \<and>
        v = snd (es ! i2) \<and> (\<forall>k. p \<le> k \<longrightarrow> k < i2 \<longrightarrow> \<not> visible s es k)" for vt2 i2 k v
  proof -
    let ?d = "d1\<lparr> di_saved_key := k, di_saved_value := v, di_iter := it_Prev I (di_iter d) \<rparr>"
    have "FindPrev_loop I Compare vt d = FindPrev_loop I Compare vt2 ?d" using b valid c(1) by (subst FindPrev_loop.simps) simp
    moreover have "\<exists>vt' d'. FindPrev_loop I Compare vt2 ?d = Some (vt', d') \<and> same_mode ?d d' \<and> prev_found s (if vt2 = kTypeValue then Suc i2 else p) vt' d'"
      using Suc.IH [of ?d vt2 i2] prev Suc.prems(2,3) c inv by simp
    ultimately show ?thesis using c Suc.prems(5) by (auto simp: same_mode_def)
  qed
  have still: "d1\<lparr> di_saved_key := di_saved_key d, di_saved_value := di_saved_value d \<rparr> = d1" using c(4,5) by simp
  consider (hidden) "\<not> visible s es p" | (stop) "visible s es p" "vt = kTypeValue" "Compare (ukey es p) (ukey es i) < 0"
    | (go) "visible s es p" "\<not> (vt = kTypeValue \<and> Compare (ukey es p) (ukey es i) < 0)" by blast
  then show ?case
  proof cases
    case hidden
    have low: "vt = kTypeValue \<longrightarrow> p \<le> i \<and> (\<forall>k. p \<le> k \<longrightarrow> k < i \<longrightarrow> \<not> visible s es k)"
      using Suc.prems(6) hidden by (metis Suc_leI Suc_leD le_neq_implies_less)
    have "\<exists>vt' d'. FindPrev_loop I Compare vt d = Some (vt', d') \<and> same_mode d d' \<and> prev_found s (if vt = kTypeValue then Suc i else p) vt' d'"
      using Suc.prems(6) low hidden by (intro step [where k = "di_saved_key d" and v = "di_saved_value d"]) (simp_all add: body still)
    moreover have "prev_found s (Suc p) vt' d'" if "prev_found s p vt' d'" for vt' d'
      by (rule prev_found_up [OF that]) (use hidden in \<open>auto simp: shown_def less_Suc_eq_le\<close>)
    ultimately show ?thesis by (cases "vt = kTypeValue") auto
  next
    case stop
    have e: "Suc p \<le> i" "i < length es" "visible s es i" "type (parsed_key es i) = kTypeValue" "di_saved_key d = ukey es i"
        "di_saved_value d = snd (es ! i)" "\<forall>k. Suc p \<le> k \<longrightarrow> k < i \<longrightarrow> \<not> visible s es k" using Suc.prems(6) stop(2) by simp_all
    have "\<not> visible s es j" if "j < i" "Compare (ukey es j) (ukey es i) = 0" for j
    proof (cases "Suc p \<le> j")
      case False
      then have "Compare (ukey es j) (ukey es p) \<le> 0" using ukey_sorted [OF p(2)] p(1) by simp
      then have "Compare (ukey es j) (ukey es i) < 0" using Compare_le_less_trans [of "ukey es j" "ukey es p" "ukey es i"] stop(3) by simp
      then show ?thesis using that by simp
    qed (use e(7) that in simp)
    then have "shown Compare s es i" using e by (simp add: shown_def)
    moreover have "db_before s es ion (di_iter d1) i" unfolding db_before_def using e p(2) c(1) by (intro exI [of _ "Suc p"]) simp
    ultimately have "prev_found s (Suc i) kTypeValue d1" using e c(4,5) unfolding prev_found_def by (simp add: exI [of _ i])
    moreover have "FindPrev_loop I Compare vt d = Some (vt, d1)" using body stop e(5) valid by (subst FindPrev_loop.simps) simp
    ultimately show ?thesis using c Suc.prems(5) stop(2) by (simp add: same_mode_def)
  next
    case go
    have ng: "\<not> (vt \<noteq> kTypeDeletion \<and> Compare (ukey es p) (di_saved_key d) < 0)" using go(2) Suc.prems(6) by (cases vt) auto
    have gap': "\<not> shown Compare s es k" if "Suc p \<le> k" "k < ?R" for k using gap [OF that] go by blast
    have le: "Suc p \<le> ?R" using Suc.prems(6) by auto
    show ?thesis
    proof (cases ?t)
      case kTypeDeletion
      then have "\<exists>vt' d'. FindPrev_loop I Compare vt d = Some (vt', d') \<and> same_mode d d' \<and> prev_found s (if kTypeDeletion = kTypeValue then Suc i else p) vt' d'"
        using go ng by (intro step [where k = "[]" and v = "[]"]) (simp_all add: body)
      moreover have "prev_found s ?R vt' d'" if "prev_found s p vt' d'" for vt' d'
      proof (rule prev_found_up [OF that])
        show "p \<le> ?R" using le by simp
        show "\<not> shown Compare s es k" if "p \<le> k" "k < ?R" for k
          using gap' [OF _ that(2)] that(1) kTypeDeletion by (cases "k = p") (simp_all add: shown_def)
      qed
      ultimately show ?thesis by auto
    next
      case kTypeValue
      then have "\<exists>vt' d'. FindPrev_loop I Compare vt d = Some (vt', d') \<and> same_mode d d' \<and> prev_found s (if kTypeValue = kTypeValue then Suc p else p) vt' d'"
        using go ng p(1) by (intro step [where k = "ukey es p" and v = "snd (es ! p)"]) (simp_all add: body)
      moreover have "prev_found s ?R vt' d'" if "prev_found s (Suc p) vt' d'" for vt' d'
        by (rule prev_found_up [OF that le]) (rule gap')
      ultimately show ?thesis by auto
    qed
  qed
qed

lemma Prev_loop_leaves:
  assumes "ion (di_iter d) m" and "m \<le> i" and "i < length es" and "di_saved_key d = ukey es i"
    and "\<forall>k. m \<le> k \<longrightarrow> k < i \<longrightarrow> Compare (ukey es k) (ukey es i) = 0" and "seed_ok (di_rnd d)"
  shows "\<exists>found d' r. Prev_loop I Compare d = Some (found, d') \<and> same_mode d d' \<and> r \<le> i \<and> ion (di_iter d') (if r = 0 then length es else r - 1) \<and>
    (\<forall>k. r \<le> k \<longrightarrow> k < i \<longrightarrow> Compare (ukey es k) (ukey es i) = 0) \<and> (if found then r \<noteq> 0 else r = 0 \<and> \<not> di_valid d')"
  using assms
proof (induction m arbitrary: d)
  case 0
  have "0 < length es" using 0(3) by linarith
  from Prev_on [OF 0(1) this] have prev: "ion (it_Prev I (di_iter d)) (length es)" by simp
  let ?d = "ClearSavedValue (d\<lparr> di_iter := it_Prev I (di_iter d), di_saved_key := [], di_valid := False \<rparr>)"
  have "Prev_loop I Compare d = Some (False, ?d)" using Valid_on [OF prev] by (subst Prev_loop.simps) simp
  then show ?case using prev 0
    by (intro exI [of _ False] exI [of _ ?d] exI [of _ 0]) (auto simp: ClearSavedValue_def same_mode_def)
next
  case (Suc m)
  have m: "m < length es" using Suc.prems(2,3) by simp
  have prev: "ion (it_Prev I (di_iter d)) m" using Prev_on [OF Suc.prems(1)] Suc.prems(2,3) by simp
  let ?d = "d\<lparr> di_iter := it_Prev I (di_iter d) \<rparr>"
  have key: "ExtractUserKey (it_key I (it_Prev I (di_iter d))) = ukey es m" using key_on [OF prev m] by (simp add: ukey_def)
  show ?case
  proof (cases "Compare (ukey es m) (ukey es i) < 0")
    case True
    then have "Prev_loop I Compare d = Some (True, ?d)" using Valid_on [OF prev] m key Suc.prems(4) by (subst Prev_loop.simps) simp
    then show ?thesis using prev Suc.prems by (intro exI [of _ True] exI [of _ ?d] exI [of _ "Suc m"]) (simp add: same_mode_def)
  next
    case False
    then have rec: "Prev_loop I Compare d = Prev_loop I Compare ?d" using Valid_on [OF prev] m key Suc.prems(4) by (subst Prev_loop.simps) simp
    have "Compare (ukey es m) (ukey es i) = 0" using False ukey_sorted [OF prev, of m i] Suc.prems(2,3) by simp
    then have "\<forall>k. m \<le> k \<longrightarrow> k < i \<longrightarrow> Compare (ukey es k) (ukey es i) = 0" using Suc.prems(5) by (metis Suc_leI le_neq_implies_less)
    then have "\<exists>found d' r. Prev_loop I Compare ?d = Some (found, d') \<and> same_mode ?d d' \<and> r \<le> i \<and> ion (di_iter d') (if r = 0 then length es else r - 1) \<and>
        (\<forall>k. r \<le> k \<longrightarrow> k < i \<longrightarrow> Compare (ukey es k) (ukey es i) = 0) \<and> (if found then r \<noteq> 0 else r = 0 \<and> \<not> di_valid d')"
      using Suc.IH [of ?d] prev Suc.prems by simp
    then show ?thesis unfolding rec by (simp add: same_mode_def)
  qed
qed

text \<open>Both searches, in terms of the entries shown.\<close>

definition ready :: "u64 \<Rightarrow> 'i DBIter \<Rightarrow> bool" where
  "ready s d \<longleftrightarrow> s \<le> kMaxSequenceNumber \<and> parses es \<and> (\<forall>e \<in> set (user_view Compare s es). uvalid (fst e)) \<and>
     di_sequence d = s \<and> di_status d = Status_OK \<and> seed_ok (di_rnd d)"

lemma readyI: "ready s d \<Longrightarrow> same_mode d d' \<Longrightarrow> ready s d'"
  by (auto simp: ready_def same_mode_def)

lemma db_on_ready: "db_on Compare s uvalid es ion (Some d) j \<longleftrightarrow> ready s d \<and>
   (if j < length (shown_at Compare s es) then di_valid d \<and> db_at s es ion d (shown_at Compare s es ! j)
    else j = length (shown_at Compare s es) \<and> \<not> di_valid d \<and> (\<exists>p. ion (di_iter d) p))"
  by (auto simp: db_on_def ready_def)

lemma FindNext_on:
  assumes "ion (di_iter d) p" and "p < length es" and "ready s d" and "di_direction d = kForward" and "q \<le> length es" and "p \<le> q"
    and "skipping \<longrightarrow> (\<forall>i. p \<le> i \<longrightarrow> i < length es \<longrightarrow> visible s es i \<longrightarrow> Compare (di_saved_key d) (ukey es i) \<le> 0)"
    and "\<And>i. p \<le> i \<Longrightarrow> i < length es \<Longrightarrow> cand s p skipping (di_saved_key d) i \<longleftrightarrow> shown Compare s es i \<and> q \<le> i"
  shows "db_on Compare s uvalid es ion (FindNextUserEntry I Compare skipping d) (length (filter (shown Compare s es) [0..<q]))"
proof -
  have r: "parses es" "seed_ok (di_rnd d)" "di_sequence d = s" using assms(3) by (auto simp: ready_def)
  from FindNext_finds [OF assms(1,2) r assms(7)] obtain d' i where d': "FindNextUserEntry I Compare skipping d = Some d'" "same_mode d d'"
      "ion (di_iter d') i" "p \<le> i" "i \<le> length es" "di_valid d' \<longleftrightarrow> i < length es" "i < length es \<longrightarrow> cand s p skipping (di_saved_key d) i"
      "\<forall>k. p \<le> k \<longrightarrow> k < i \<longrightarrow> \<not> cand s p skipping (di_saved_key d) k" by (elim exE conjE) (rule that)
  have none: "\<not> shown Compare s es k" if "q \<le> k" "k < i" for k using d'(5,8) assms(6) assms(8) [of k] that by auto
  have fwd: "di_direction d' = kForward" using d'(2) assms(4) by (simp add: same_mode_def)
  show ?thesis
  proof (cases "i < length es")
    case True
    then have i: "shown Compare s es i" "q \<le> i" using d'(4,7) assms(8) by auto
    note least = filter_upt_least [where P = "shown Compare s es", OF i(2) True i(1) none]
    show ?thesis unfolding d'(1) db_on_ready shown_at_def
      using least readyI [OF assms(3) d'(2)] d'(3,6) True fwd by (simp add: db_at_def)
  next
    case False
    then have "length (filter (shown Compare s es) [0..<q]) = length (filter (shown Compare s es) [0..<length es])"
      using none d'(5) by (intro filter_upt_none [OF assms(5)]) simp
    then show ?thesis unfolding d'(1) db_on_ready shown_at_def using readyI [OF assms(3) d'(2)] d'(3,6) False by auto
  qed
qed

lemma FindPrev_on:
  assumes "ion (di_iter d) (if r = 0 then length es else r - 1)" and "r \<le> length es" and "ready s d" and "di_direction d = kReverse"
  defines "n \<equiv> length (filter (shown Compare s es) [0..<r])"
  shows "db_on Compare s uvalid es ion (FindPrevUserEntry I Compare d) (if n = 0 then length (shown_at Compare s es) else n - 1)"
proof -
  have rd: "parses es" "seed_ok (di_rnd d)" "di_sequence d = s" using assms(3) by (auto simp: ready_def)
  from FindPrev_finds [OF assms(1,2) rd, of kTypeDeletion] obtain vt d' where d': "FindPrev_loop I Compare kTypeDeletion d = Some (vt, d')"
      "same_mode d d'" "prev_found s r vt d'" by auto
  note rdy = readyI [OF assms(3) d'(2)]
  show ?thesis
  proof (cases vt)
    case kTypeDeletion
    then have none: "\<forall>k < r. \<not> shown Compare s es k" and p: "\<exists>p. ion (di_iter d') p" using d'(3) by (simp_all add: prev_found_def)
    then have "n = 0" by (simp add: n_def filter_empty_conv)
    then show ?thesis using kTypeDeletion d'(1) rdy p by (simp add: FindPrevUserEntry_def db_on_ready ready_def ClearSavedValue_def)
  next
    case kTypeValue
    then obtain i where i: "i < r" "i < length es" "shown Compare s es i" "\<forall>k. i < k \<longrightarrow> k < r \<longrightarrow> \<not> shown Compare s es k"
        "di_saved_key d' = ukey es i" "di_saved_value d' = snd (es ! i)" "db_before s es ion (di_iter d') i"
      using d'(3) by (auto simp: prev_found_def)
    have none: "\<And>k. i \<le> k \<Longrightarrow> k < i \<Longrightarrow> \<not> shown Compare s es k" by linarith
    note least = filter_upt_least [where P = "shown Compare s es", OF order_refl i(2,3) none]
    have "[0..<r] = [0..<i] @ i # [Suc i..<r]" using i(1) by (metis less_imp_le upt_add_eq_append upt_conv_Cons le_add_diff_inverse zero_le)
    moreover have "filter (shown Compare s es) [Suc i..<r] = []" using i(4) by (auto simp: filter_empty_conv)
    ultimately have n: "n = Suc (length (filter (shown Compare s es) [0..<i]))" using i(3) by (simp add: n_def)
    have rev: "di_direction d' = kReverse" using d'(2) assms(4) by (simp add: same_mode_def)
    show ?thesis using kTypeValue d'(1) rdy n least i rev
      by (simp add: FindPrevUserEntry_def db_on_ready shown_at_def ready_def db_at_def)
  qed
qed

lemma cand_after:
  assumes "ion it q" and "p \<le> i" and "i < length es" and "shown Compare s es i" and "\<forall>k. p \<le> k \<longrightarrow> k < i \<longrightarrow> \<not> visible s es k"
    and "p \<le> k" and "k < length es"
  shows "cand s p True (ukey es i) k \<longleftrightarrow> shown Compare s es k \<and> Suc i \<le> k" and "visible s es k \<Longrightarrow> Compare (ukey es i) (ukey es k) \<le> 0"
proof -
  have above: "i \<le> k" if "visible s es k" using assms(5,6) that by (meson not_le)
  then show "visible s es k \<Longrightarrow> Compare (ukey es i) (ukey es k) \<le> 0" using ukey_sorted [OF assms(1)] assms(7) by blast
  show "cand s p True (ukey es i) k \<longleftrightarrow> shown Compare s es k \<and> Suc i \<le> k"
  proof
    assume c: "cand s p True (ukey es i) k"
    then have v: "visible s es k" "type (parsed_key es k) = kTypeValue" and up: "\<not> Compare (ukey es k) (ukey es i) \<le> 0" by (auto simp: cand_def)
    then have "k \<noteq> i" using Compare_self [of "ukey es i"] by auto
    then have "i < k" using above [OF v(1)] by simp
    moreover have "\<not> visible s es j" if "j < k" "Compare (ukey es j) (ukey es k) = 0" for j
    proof (cases "p \<le> j")
      case True
      then show ?thesis using c that by (auto simp: cand_def)
    next
      case False
      then have "Compare (ukey es j) (ukey es i) \<le> 0" using ukey_sorted [OF assms(1)] assms(2,3) by simp
      moreover have "Compare (ukey es k) (ukey es j) \<le> 0" using that(2) Compare_eq_flip [of "ukey es j" "ukey es k"] by simp
      ultimately show ?thesis using Compare_trans [of "ukey es k" "ukey es j" "ukey es i"] up by simp
    qed
    ultimately show "shown Compare s es k \<and> Suc i \<le> k" using v by (simp add: shown_def)
  next
    assume k: "shown Compare s es k \<and> Suc i \<le> k"
    then have "Compare (ukey es i) (ukey es k) \<le> 0" using ukey_sorted [OF assms(1)] assms(7) by simp
    moreover have "Compare (ukey es i) (ukey es k) \<noteq> 0" using k assms(4) by (auto simp: shown_def)
    ultimately have "\<not> Compare (ukey es k) (ukey es i) \<le> 0" using Compare_le_flip [of "ukey es k" "ukey es i"] by simp
    then show "cand s p True (ukey es i) k" using k unfolding cand_def shown_def by blast
  qed
qed

lemma shown_nth:
  assumes "j < length (shown_at Compare s es)"
  shows "shown_at Compare s es ! j < length es" and "shown Compare s es (shown_at Compare s es ! j)"
    and "length (filter (shown Compare s es) [0..<shown_at Compare s es ! j]) = j"
    and "length (filter (shown Compare s es) [0..<Suc (shown_at Compare s es ! j)]) = Suc j"
  using filter_upt_nth [OF assms [unfolded shown_at_def], folded shown_at_def] by simp_all

lemma db_on_inner:
  assumes "db_on Compare s uvalid es ion (Some d) j"
  obtains p where "ion (di_iter d) p"
  using assms by (auto simp: db_on_ready db_at_def db_before_def split: if_splits)

lemma Next_shown:
  assumes "db_on Compare s uvalid es ion (Some d) j" and "j < length (shown_at Compare s es)"
  shows "db_on Compare s uvalid es ion (DBIter_Next I Compare d) (Suc j)"
proof -
  let ?i = "shown_at Compare s es ! j"
  note i = shown_nth [OF assms(2)]
  have rdy: "ready s d" and at: "db_at s es ion d ?i" using assms by (simp_all add: db_on_ready)
  show ?thesis
  proof (cases "di_direction d")
    case kForward
    then have on: "ion (di_iter d) ?i" using at by (simp add: db_at_def)
    let ?d = "d\<lparr> di_saved_key := ukey es ?i \<rparr>"
    have none: "\<forall>k. ?i \<le> k \<longrightarrow> k < ?i \<longrightarrow> \<not> visible s es k" by simp
    note c = cand_after [OF on order_refl i(1,2) none]
    have "db_on Compare s uvalid es ion (FindNextUserEntry I Compare True ?d) (length (filter (shown Compare s es) [0..<Suc ?i]))"
      by (rule FindNext_on [where p = ?i]) (use on i(1) rdy kForward c in \<open>simp_all add: ready_def\<close>)
    from this [unfolded i(4)] show ?thesis using kForward key_on [OF on i(1)] by (simp add: DBIter_Next_def ukey_def)
  next
    case kReverse
    then obtain r where r: "r \<le> ?i" "ion (di_iter d) (if r = 0 then length es else r - 1)" "\<forall>k. r \<le> k \<longrightarrow> k < ?i \<longrightarrow> \<not> visible s es k"
        and key: "di_saved_key d = ukey es ?i" using at by (auto simp: db_at_def db_before_def)
    let ?it = "if \<not> it_Valid I (di_iter d) then it_SeekToFirst I (di_iter d) else it_Next I (di_iter d)"
    let ?d = "d\<lparr> di_iter := ?it, di_direction := kForward \<rparr>"
    have on: "ion ?it r"
    proof (cases "r = 0")
      case True
      then show ?thesis using r(2) Valid_on [OF r(2)] SeekToFirst_on [OF r(2)] by simp
    next
      case False
      then have "r - 1 < length es" using r(1) i(1) by simp
      then show ?thesis using r(2) Valid_on [OF r(2)] Next_on [OF r(2)] False by simp
    qed
    note c = cand_after [OF on r(1) i(1,2) r(3)]
    have rl: "r < length es" using r(1) i(1) by simp
    have "db_on Compare s uvalid es ion (FindNextUserEntry I Compare True ?d) (length (filter (shown Compare s es) [0..<Suc ?i]))"
      by (rule FindNext_on [where p = r]) (use on i(1) rdy rl c key r(1) in \<open>simp_all add: ready_def\<close>)
    moreover have "DBIter_Next I Compare d = FindNextUserEntry I Compare True ?d"
      using kReverse Valid_on [OF on] rl by (simp add: DBIter_Next_def Let_def)
    ultimately show ?thesis unfolding i(4) by simp
  qed
qed

lemma Prev_shown:
  assumes "db_on Compare s uvalid es ion (Some d) j" and "j < length (shown_at Compare s es)"
  shows "db_on Compare s uvalid es ion (DBIter_Prev I Compare d) (if j = 0 then length (shown_at Compare s es) else j - 1)"
proof -
  let ?i = "shown_at Compare s es ! j"
  note i = shown_nth [OF assms(2)]
  have rdy: "ready s d" and at: "db_at s es ion d ?i" using assms by (simp_all add: db_on_ready)
  show ?thesis
  proof (cases "di_direction d")
    case kForward
    then have on: "ion (di_iter d) ?i" using at by (simp add: db_at_def)
    let ?d = "d\<lparr> di_saved_key := ukey es ?i \<rparr>"
    have "\<exists>found d' r. Prev_loop I Compare ?d = Some (found, d') \<and> same_mode ?d d' \<and> r \<le> ?i \<and> ion (di_iter d') (if r = 0 then length es else r - 1) \<and>
        (\<forall>k. r \<le> k \<longrightarrow> k < ?i \<longrightarrow> Compare (ukey es k) (ukey es ?i) = 0) \<and> (if found then r \<noteq> 0 else r = 0 \<and> \<not> di_valid d')"
      by (rule Prev_loop_leaves [where m = ?i]) (use on i(1) rdy in \<open>simp_all add: ready_def\<close>)
    then obtain found d' r where l: "Prev_loop I Compare ?d = Some (found, d')" "same_mode ?d d'" "r \<le> ?i"
        "ion (di_iter d') (if r = 0 then length es else r - 1)" "\<forall>k. r \<le> k \<longrightarrow> k < ?i \<longrightarrow> Compare (ukey es k) (ukey es ?i) = 0"
        "if found then r \<noteq> 0 else r = 0 \<and> \<not> di_valid d'" by (elim exE conjE) (rule that)
    have none: "\<not> shown Compare s es k" if "r \<le> k" "k < ?i" for k using l(5) i(2) that by (auto simp: shown_def)
    have n: "length (filter (shown Compare s es) [0..<r]) = j" using filter_upt_none [where P = "shown Compare s es", OF l(3) none] i(3) by simp
    have rdy': "ready s d'" using rdy l(2) by (auto simp: ready_def same_mode_def)
    show ?thesis
    proof (cases found)
      case True
      let ?d' = "d'\<lparr> di_direction := kReverse \<rparr>"
      have "db_on Compare s uvalid es ion (FindPrevUserEntry I Compare ?d')
          (if length (filter (shown Compare s es) [0..<r]) = 0 then length (shown_at Compare s es) else length (filter (shown Compare s es) [0..<r]) - 1)"
        by (rule FindPrev_on) (use l(3,4) i(1) rdy' in \<open>simp_all add: ready_def split del: if_split\<close>)
      then show ?thesis using True kForward l(1) key_on [OF on i(1)] unfolding n by (simp add: DBIter_Prev_def ukey_def)
    next
      case False
      then have "j = 0" using l(6) n by simp
      moreover have "DBIter_Prev I Compare d = Some d'" using False kForward l(1) key_on [OF on i(1)] by (simp add: DBIter_Prev_def ukey_def)
      ultimately show ?thesis using rdy' l(4,6) False by (auto simp: db_on_ready)
    qed
  next
    case kReverse
    then obtain r where r: "r \<le> ?i" "ion (di_iter d) (if r = 0 then length es else r - 1)" "\<forall>k. r \<le> k \<longrightarrow> k < ?i \<longrightarrow> \<not> visible s es k"
      using at by (auto simp: db_at_def db_before_def)
    have none: "\<not> shown Compare s es k" if "r \<le> k" "k < ?i" for k using r(3) that by (simp add: shown_def)
    have n: "length (filter (shown Compare s es) [0..<r]) = j" using filter_upt_none [where P = "shown Compare s es", OF r(1) none] i(3) by simp
    have "r \<le> length es" using r(1) i(1) by simp
    from FindPrev_on [OF r(2) this rdy kReverse] show ?thesis unfolding n using kReverse by (simp add: DBIter_Prev_def)
  qed
qed

text \<open>\<open>Seek\<close>: the entries before the internal key of the target are those of smaller user keys and those
  the snapshot does not see.\<close>

lemma seek_sides:
  fixes target :: bytes
  assumes "ion it q" and "parses es" and "s \<le> kMaxSequenceNumber"
  defines "p \<equiv> seek_pos (InternalKeyCompare Compare) (InternalKey_make target s kTypeValue) (map fst es)"
  shows "i < p \<Longrightarrow> visible s es i \<Longrightarrow> Compare (ukey es i) target < 0"
    and "p \<le> i \<Longrightarrow> i < length es \<Longrightarrow> 0 \<le> Compare (ukey es i) target"
proof -
  let ?k = "InternalKey_make target s kTypeValue"
  show "Compare (ukey es i) target < 0" if i: "i < p" "visible s es i"
  proof -
    have len: "i < length es" by (rule order_less_le_trans [OF i(1)]) (simp add: p_def)
    have "InternalKeyCompare Compare (fst (es ! i)) ?k < 0" using seek_pos_less [of i "InternalKeyCompare Compare" ?k "map fst es"] i(1) len by (simp add: p_def)
    then have "Compare (ukey es i) target < 0 \<or> PackSequenceAndType s kTypeValue < ExtractTag (fst (es ! i))" by (auto simp: internal_less_iff ukey_def)
    moreover have "ExtractTag (fst (es ! i)) \<le> PackSequenceAndType s kTypeValue"
    proof -
      note k = ParseInternalKey_Some [OF parses_nth(1) [OF assms(2) len]]
      have "ExtractTag (fst (es ! i)) = PackSequenceAndType (sequence (parsed_key es i)) (type (parsed_key es i))" using k(1) by (metis ExtractTag_make)
      then show ?thesis using PackSequenceAndType_le_iff [OF k(3) assms(3)] i(2) by (simp add: visible_def)
    qed
    ultimately show ?thesis by (meson leD)
  qed
  show "0 \<le> Compare (ukey es i) target" if i: "p \<le> i" "i < length es"
  proof -
    have "\<not> InternalKeyCompare Compare (fst (es ! p)) ?k < 0"
      using seek_pos_nth [of "InternalKeyCompare Compare" ?k "map fst es"] i by (simp add: p_def)
    then have "\<not> Compare (ukey es p) target < 0" by (auto simp: internal_less_iff ukey_def)
    then show ?thesis using Compare_le_less_trans [of "ukey es p" "ukey es i" target] ukey_sorted [OF assms(1) i] by force
  qed
qed

lemma Seek_shown:
  assumes "db_on Compare s uvalid es ion (Some d) j" and "uvalid target"
  shows "db_on Compare s uvalid es ion (DBIter_Seek I Compare d target) (seek_pos Compare target (map fst (user_view Compare s es)))"
proof -
  let ?k = "InternalKey_make target s kTypeValue"
  define p where "p = seek_pos (InternalKeyCompare Compare) ?k (map fst es)"
  obtain q where q: "ion (di_iter d) q" using db_on_inner [OF assms(1)] .
  have rdy: "ready s d" using assms(1) by (simp add: db_on_ready)
  then have ok: "parses es" "s \<le> kMaxSequenceNumber" by (simp_all add: ready_def)
  note side = seek_sides [where target = target, OF q ok, folded p_def]
  have on: "ion (it_Seek I (di_iter d) ?k) p" unfolding p_def by (rule Seek_on [OF q seek_valid [OF assms(2)]])
  have plen: "p \<le> length es" by (simp add: p_def)
  let ?P = "shown Compare s es"
  have "[0..<length es] = [0..<p] @ [p..<length es]" using plen upt_add_eq_append [of 0 p "length es - p"] by simp
  then have sh: "shown_at Compare s es = filter ?P [0..<p] @ filter ?P [p..<length es]" by (simp add: shown_at_def)
  have lo: "\<forall>i \<in> set (filter ?P [0..<p]). Compare (ukey es i) target < 0" using side(1) by (auto simp: shown_def)
  have hi: "\<forall>i \<in> set (filter ?P [p..<length es]). \<not> Compare (ukey es i) target < 0" using side(2) by force
  have pos: "seek_pos Compare target (map fst (user_view Compare s es)) = length (filter ?P [0..<p])"
    unfolding seek_pos_def user_view_def sh map_append
    by (subst takeWhile_split) (use lo hi in auto)
  let ?d = "d\<lparr> di_direction := kForward, di_saved_value := [], di_saved_key := ?k, di_iter := it_Seek I (di_iter d) ?k \<rparr>"
  have step: "DBIter_Seek I Compare d target = (if p < length es then FindNextUserEntry I Compare False ?d else Some (?d\<lparr> di_valid := False \<rparr>))"
    using Valid_on [OF on] rdy by (simp add: DBIter_Seek_def Let_def ClearSavedValue_def ready_def kValueTypeForSeek_def InternalKey_make_def)
  have rdy': "ready s ?d" using rdy by (simp add: ready_def)
  show ?thesis
  proof (cases "p < length es")
    case True
    have c: "cand s p False ?k i \<longleftrightarrow> ?P i \<and> p \<le> i" if "p \<le> i" "i < length es" for i
    proof -
      have "Compare (ukey es j) (ukey es i) \<noteq> 0" if "j < p" "visible s es j" for j
      proof
        assume "Compare (ukey es j) (ukey es i) = 0"
        then have "Compare (ukey es i) (ukey es j) \<le> 0" using Compare_eq_flip [of "ukey es j" "ukey es i"] by simp
        then show False using Compare_le_less_trans [of "ukey es i" "ukey es j" target] side(1) [OF that] side(2) [OF \<open>p \<le> i\<close> \<open>i < length es\<close>] by simp
      qed
      then show ?thesis unfolding cand_def shown_def using that(1) by (metis not_le)
    qed
    have "db_on Compare s uvalid es ion (FindNextUserEntry I Compare False ?d) (length (filter ?P [0..<p]))"
      by (rule FindNext_on [where p = p]) (use on True rdy' c in simp_all)
    then show ?thesis unfolding step pos using True by simp
  next
    case False
    then have "p = length es" using plen by simp
    then show ?thesis unfolding step pos db_on_ready using False rdy' on
      by (auto simp: db_on_ready shown_at_def ready_def)
  qed
qed

lemma user_view_sorted:
  assumes "ion it q"
  shows "sorted_wrt (\<lambda>a b. Compare a b < 0) (map fst (user_view Compare s es))"
proof -
  have up: "sorted_wrt (<) (shown_at Compare s es)" by (simp add: shown_at_def sorted_wrt_filter)
  have "Compare (ukey es a) (ukey es b) < 0" if "a < b" "b < length es" "shown Compare s es a" "shown Compare s es b" for a b
  proof -
    have "Compare (ukey es a) (ukey es b) \<noteq> 0" using that by (auto simp: shown_def)
    then show ?thesis using ukey_sorted [OF assms, of a b] that by simp
  qed
  then have "sorted_wrt (\<lambda>a b. Compare (ukey es a) (ukey es b) < 0) (shown_at Compare s es)"
    by (rule sorted_wrt_mono_rel [OF _ up, rotated]) (auto simp: shown_at_def)
  then show ?thesis by (simp add: user_view_def sorted_wrt_map)
qed

lemma SeekToFirst_shown:
  assumes "ready s d" and "ion (di_iter d) q"
  shows "db_on Compare s uvalid es ion (DBIter_SeekToFirst I Compare d) 0"
proof -
  let ?d = "d\<lparr> di_direction := kForward, di_saved_value := [], di_iter := it_SeekToFirst I (di_iter d) \<rparr>"
  have on: "ion (di_iter ?d) 0" using SeekToFirst_on [OF assms(2)] by simp
  have rdy: "ready s ?d" using assms(1) by (simp add: ready_def)
  have step: "DBIter_SeekToFirst I Compare d = (if es \<noteq> [] then FindNextUserEntry I Compare False ?d else Some (?d\<lparr> di_valid := False \<rparr>))"
    using Valid_on [OF on] by (simp add: DBIter_SeekToFirst_def Let_def ClearSavedValue_def)
  show ?thesis
  proof (cases "es = []")
    case True
    then have s0: "shown_at Compare s es = []" and d: "DBIter_SeekToFirst I Compare d = Some (?d\<lparr> di_valid := False \<rparr>)"
      by (simp_all add: shown_at_def step)
    show ?thesis unfolding d db_on_ready s0 using on rdy by (auto simp: ready_def)
  next
    case False
    have "db_on Compare s uvalid es ion (FindNextUserEntry I Compare False ?d) (length (filter (shown Compare s es) [0..<0]))"
      by (rule FindNext_on [where p = 0]) (use on False rdy in \<open>auto simp: cand_def shown_def\<close>)
    then show ?thesis unfolding step using False by simp
  qed
qed

lemma SeekToLast_shown:
  assumes "ready s d" and "ion (di_iter d) q"
  shows "db_on Compare s uvalid es ion (DBIter_SeekToLast I Compare d) (length (shown_at Compare s es) - 1)"
proof -
  let ?d = "d\<lparr> di_direction := kReverse, di_saved_value := [], di_iter := it_SeekToLast I (di_iter d) \<rparr>"
  have on: "ion (di_iter ?d) (if length es = 0 then length es else length es - 1)"
    using SeekToLast_on [OF assms(2)] by (cases "es = []") simp_all
  have rdy: "ready s ?d" using assms(1) by (simp add: ready_def)
  have step: "DBIter_SeekToLast I Compare d = FindPrevUserEntry I Compare ?d" by (simp add: DBIter_SeekToLast_def Let_def ClearSavedValue_def)
  from FindPrev_on [OF on order_refl rdy] show ?thesis unfolding step shown_at_def [symmetric] by (cases "shown_at Compare s es = []") simp_all
qed

lemma db_list_iterator:
  "list_iterator (DBIter_methods I Compare) Compare uvalid (user_view Compare s es) (db_on Compare s uvalid es ion)"
proof -
  have len: "length (user_view Compare s es) = length (shown_at Compare s es)" by (simp add: user_view_def)
  have inner: "\<exists>d p. x = Some d \<and> db_on Compare s uvalid es ion (Some d) j \<and> ready s d \<and> ion (di_iter d) p"
    if on: "db_on Compare s uvalid es ion x j" for x j
  proof -
    from on obtain d where d: "x = Some d" by (auto simp: db_on_def)
    obtain p where "ion (di_iter d) p" using db_on_inner [OF on [unfolded d]] .
    then show ?thesis using on d by (auto simp: db_on_ready)
  qed
  show ?thesis
  proof (unfold_locales, goal_cases)
    case (1 x j)
    then show ?case by (auto simp: db_on_def len split: if_splits)
  next
    case (2 x j)
    then show ?case using inner user_view_sorted by blast
  next
    case (3 x j e)
    then show ?case by (simp add: db_on_def)
  next
    case (4 x j)
    then show ?case by (auto simp: db_on_def len DBIter_methods_def split: if_splits)
  next
    case (5 x j)
    then obtain d where d: "x = Some d" "db_at s es ion d (shown_at Compare s es ! j)" by (auto simp: db_on_def len)
    have j: "j < length (shown_at Compare s es)" using 5 len by simp
    have i: "shown_at Compare s es ! j < length es" by (rule shown_nth [OF j])
    have "user_view Compare s es ! j = (ukey es (shown_at Compare s es ! j), snd (es ! (shown_at Compare s es ! j)))"
      using j by (simp add: user_view_def)
    then show ?case using d key_on [OF _ i] value_on [OF _ i]
      by (auto simp: DBIter_methods_def DBIter_key_def DBIter_value_def db_at_def ukey_def split: if_splits)
  next
    case (6 x j)
    from inner [OF this] show ?case using status_on by (auto simp: DBIter_methods_def DBIter_status_def ready_def ok_def Status_OK_def)
  next
    case (7 x j)
    from inner [OF 7(1)] show ?case using Next_shown 7(2) len by (auto simp: DBIter_methods_def)
  next
    case (8 x j)
    from inner [OF 8(1)] obtain d where d: "x = Some d" "db_on Compare s uvalid es ion (Some d) j" by blast
    have "it_Prev (DBIter_methods I Compare) x = DBIter_Prev I Compare d" by (simp add: DBIter_methods_def d(1))
    then show ?case unfolding len using Prev_shown [OF d(2)] 8(2) [unfolded len] by (simp only:)
  next
    case (9 x j)
    from inner [OF 9] obtain d p where d: "x = Some d" "ready s d" "ion (di_iter d) p" by blast
    then show ?case using SeekToFirst_shown [OF d(2,3)] by (simp add: DBIter_methods_def)
  next
    case (10 x j)
    from inner [OF 10] obtain d p where d: "x = Some d" "ready s d" "ion (di_iter d) p" by blast
    then show ?case using SeekToLast_shown [OF d(2,3)] len by (simp add: DBIter_methods_def)
  next
    case (11 x j target)
    from inner [OF 11(1)] show ?case using Seek_shown 11(2) by (auto simp: DBIter_methods_def)
  qed
qed

lemma db_on_new:
  assumes "ion it q" and "parses es" and "s \<le> kMaxSequenceNumber" and "\<forall>e \<in> set es. uvalid (ExtractUserKey (fst e))"
  shows "db_on Compare s uvalid es ion (NewDBIterator it s seed) (length (user_view Compare s es))"
proof -
  have "seed_ok (Random_init seed)" using Random_init_bounds [of seed] by (simp add: seed_ok_def)
  from seed_ok_next [OF this] have "ready s (DBIter_new it s seed)"
    using assms by (auto simp: ready_def DBIter_new_def user_view_def shown_at_def ukey_def split_beta)
  moreover have "\<not> di_valid (DBIter_new it s seed)" "di_iter (DBIter_new it s seed) = it" by (simp_all add: DBIter_new_def split_beta)
  ultimately show ?thesis using assms(1) by (auto simp: NewDBIterator_def db_on_ready user_view_def)
qed

end

sublocale db_iterator \<subseteq> db_cursor: list_iterator "DBIter_methods I Compare" Compare uvalid "user_view Compare s es" "db_on Compare s uvalid es ion" for s
  by (rule db_list_iterator)

section \<open>Over a memtable\<close>

sublocale user_comparator \<subseteq> mem_db: db_iterator Compare FindShortestSeparator FindShortSuccessor
    "MemTableIterator_methods Compare table" mem_key_ok es "mem_on Compare table L es" "\<lambda>u. length u + 8 < 2 ^ 32" for table es L
  by unfold_locales (simp add: mem_key_ok_def)

text \<open>What a snapshot shows of the entries of a list of operations is their newest values.\<close>

lemma op_parsed:
  assumes "mem_op_ok x" and "es ! i = op_entry x"
  shows "parsed_key es i = \<lparr> user_key = fst (snd (snd x)), sequence = fst x, type = fst (snd x) \<rparr>" and "ukey es i = fst (snd (snd x))"
    and "snd (es ! i) = snd (snd (snd x))" and "ExtractTag (fst (es ! i)) = PackSequenceAndType (fst x) (fst (snd x))"
  using assms by (cases x; simp add: parsed_key_def ukey_def mem_op_ok_def ParseInternalKey_make)+

context user_comparator
begin

lemma user_view_newest:
  assumes "sorted_wrt (\<lambda>a b. InternalKeyCompare Compare a b < 0) (map fst es)" and "set es = op_entry ` set xs"
    and "\<forall>x \<in> set xs. mem_op_ok x" and "distinct (map fst xs)"
  shows "(u, v) \<in> set (user_view Compare s es) \<longleftrightarrow> (\<exists>q. newest Compare u s xs = Some (q, kTypeValue, u, v))"
proof -
  have op: "\<exists>x \<in> set xs. es ! i = op_entry x \<and> mem_op_ok x" if "i < length es" for i
    using assms(2,3) nth_mem [OF that] by auto
  have at: "\<exists>i < length es. es ! i = op_entry x" if "x \<in> set xs" for x
    using that assms(2) by (metis image_eqI in_set_conv_nth)
  have order: "PackSequenceAndType (fst y) (fst (snd y)) < PackSequenceAndType (fst x) (fst (snd x)) \<longleftrightarrow> i < j"
    if "i < length es" "j < length es" "es ! i = op_entry x" "es ! j = op_entry y" "mem_op_ok x" "mem_op_ok y" "i \<noteq> j"
      "Compare (fst (snd (snd x))) (fst (snd (snd y))) = 0" for i j x y
  proof -
    have less: "InternalKeyCompare Compare (fst (es ! a)) (fst (es ! b)) < 0" if "a < b" "b < length es" for a b
      using assms(1) that by (auto simp: sorted_wrt_iff_nth_less)
    have c: "Compare (fst (snd (snd y))) (fst (snd (snd x))) = 0" using Compare_eq_flip that(8) by simp
    note k = op_parsed(2,4) [OF that(5,3), unfolded ukey_def] op_parsed(2,4) [OF that(6,4), unfolded ukey_def]
    show ?thesis using less [of i j] less [of j i] that(1,2,7,8) c by (auto simp: internal_less_iff k dest: order.asym)
  qed
  have same: "x = y" if "x \<in> set xs" "y \<in> set xs" "fst x = fst y" for x y using assms(4) that by (metis distinct_map inj_onD)
  show ?thesis
  proof
    assume "(u, v) \<in> set (user_view Compare s es)"
    then obtain i where i: "i < length es" "shown Compare s es i" "u = ukey es i" "v = snd (es ! i)" by (auto simp: user_view_def shown_at_def)
    from op [OF i(1)] obtain x where x: "x \<in> set xs" "es ! i = op_entry x" "mem_op_ok x" by blast
    note px = op_parsed [OF x(3,2)]
    have vis: "op_visible Compare u s x" using i(2,3) px Compare_self by (simp add: op_visible_def shown_def visible_def)
    then have "newest Compare u s xs \<noteq> None" using x(1) unfolding newest_props(1) by blast
    then obtain y where y: "newest Compare u s xs = Some y" by blast
    note yp = newest_props(2) [OF y]
    have "y = x"
    proof (rule ccontr)
      assume "y \<noteq> x"
      then have lt: "fst x < fst y" using yp vis x(1) same by (metis order_le_neq_trans)
      from at yp obtain j where j: "j < length es" "es ! j = op_entry y" by blast
      have oky: "mem_op_ok y" using yp assms(3) by blast
      have eq: "Compare (fst (snd (snd y))) (fst (snd (snd x))) = 0" using yp i(3) px(2) by (simp add: op_visible_def)
      have "i \<noteq> j" using lt px(1) op_parsed(1) [OF oky j(2)] by auto
      moreover have "PackSequenceAndType (fst x) (fst (snd x)) < PackSequenceAndType (fst y) (fst (snd y))"
        using PackSequenceAndType_le_imp [of "fst y" "fst x"] lt oky x(3) by (metis (no_types, lifting) case_prod_beta mem_op_ok_def not_le)
      ultimately have "j < i" using order [OF j(1) i(1) j(2) x(2) oky x(3)] eq by blast
      moreover have "visible s es j" "Compare (ukey es j) (ukey es i) = 0" using yp eq op_parsed(1,2) [OF oky j(2)] px(2) by (simp_all add: visible_def op_visible_def)
      ultimately show False using i(2) by (auto simp: shown_def)
    qed
    then show "\<exists>q. newest Compare u s xs = Some (q, kTypeValue, u, v)"
      using y i px by (cases x) (auto simp: shown_def)
  next
    assume "\<exists>q. newest Compare u s xs = Some (q, kTypeValue, u, v)"
    then obtain q where n: "newest Compare u s xs = Some (q, kTypeValue, u, v)" by blast
    let ?x = "(q, kTypeValue, u, v)"
    note xp = newest_props(2) [OF n]
    from at xp obtain i where i: "i < length es" "es ! i = op_entry ?x" by blast
    have okx: "mem_op_ok ?x" using xp assms(3) by blast
    note px = op_parsed [OF okx i(2)]
    have "\<not> visible s es j" if j: "j < i" "Compare (ukey es j) (ukey es i) = 0" for j
    proof
      assume vis: "visible s es j"
      have jl: "j < length es" using j(1) i(1) by simp
      from op [OF this] obtain y where y: "y \<in> set xs" "es ! j = op_entry y" "mem_op_ok y" by blast
      note py = op_parsed [OF y(3,2)]
      have eq: "Compare (fst (snd (snd y))) u = 0" using j(2) px(2) py(2) by simp
      then have le: "fst y \<le> q" using xp y(1) vis py(1) by (auto simp: op_visible_def visible_def)
      have "PackSequenceAndType q kTypeValue < PackSequenceAndType (fst y) (fst (snd y))"
        using order [OF jl i(1) y(2) i(2) y(3) okx] j(1) eq by simp
      moreover have "PackSequenceAndType (fst y) (fst (snd y)) \<le> PackSequenceAndType q kTypeValue"
        using le okx y(3) PackSequenceAndType_le_iff [of "fst y" q] by (simp add: mem_op_ok_def split_beta)
      ultimately show False by simp
    qed
    then have "shown Compare s es i" using xp px(1) by (simp add: shown_def visible_def op_visible_def)
    then show "(u, v) \<in> set (user_view Compare s es)" using i px(2,3) unfolding user_view_def shown_at_def by force
  qed
qed

end

section \<open>Properties\<close>

text \<open>C12: the database iterator shows a snapshot of the database. Over a memtable that holds any operations with
  distinct sequence numbers, the iterator at any snapshot (with any seed of its sampler) is a cursor on a
  list of user keys and values that is strictly sorted and holds exactly the newest values the snapshot
  sees, with deleted and overwritten ones left out: after any sequence of moves, through every change of
  direction, every loop of the iterator has ended, it is valid exactly when the cursor is on an entry,
  shows that entry, and reports no error.\<close>

theorem db_iterator_shows_snapshot:
  assumes "\<forall>x \<in> set xs. mem_op_ok x" and "distinct (map fst xs)" and "s \<le> kMaxSequenceNumber"
    and "\<forall>k. ToKey k \<in> set moves \<longrightarrow> length k + 8 < 2 ^ 32"
  shows "\<exists>mem us. MemTable_Adds BytewiseCompare MemTable_new xs = Some mem \<and> sorted_wrt (\<lambda>a b. BytewiseCompare a b < 0) (map fst us) \<and>
    (\<forall>u v. (u, v) \<in> set us \<longleftrightarrow> (\<exists>q. newest BytewiseCompare u s xs = Some (q, kTypeValue, u, v))) \<and>
    (let I = DBIter_methods (MemTableIterator_methods BytewiseCompare (mem_table mem)) BytewiseCompare;
         d = fold (iter_move I) moves (NewDBIterator MemTable_NewIterator s seed);
         j = fold (cursor_move BytewiseCompare us) moves (length us)
     in d \<noteq> None \<and> it_status I d = Status_OK \<and> (it_Valid I d \<longleftrightarrow> j < length us) \<and> (j < length us \<longrightarrow> (it_key I d, it_value I d) = us ! j))"
proof -
  obtain mem L where mem: "MemTable_Adds BytewiseCompare MemTable_new xs = Some mem" "mem_holds BytewiseCompare mem xs L"
    using bytewise_user.MemTable_Adds_holds [OF assms(1,2)] by blast
  obtain es where es: "set es = op_entry ` set xs" "mem_on BytewiseCompare (mem_table mem) L es None (length es)"
    using bytewise_user.mem_holds_on [OF mem(2)] by blast
  let ?us = "user_view BytewiseCompare s es"
  have "parses es" "\<forall>e \<in> set es. length (ExtractUserKey (fst e)) + 8 < 2 ^ 32"
    unfolding parses_def es(1) using assms(1) by (auto simp: mem_op_ok_def ParseInternalKey_make)
  from bytewise_user.mem_db.db_on_new [OF es(2) this(1) assms(3) this(2), of seed]
  have "db_on BytewiseCompare s (\<lambda>u. length u + 8 < 2 ^ 32) es (mem_on BytewiseCompare (mem_table mem) L es)
      (NewDBIterator MemTable_NewIterator s seed) (length ?us)" by (simp add: MemTable_NewIterator_def)
  note run = bytewise_user.mem_db.db_cursor.moves_on [OF this, of moves]
  have v: "\<And>k. ToKey k \<in> set moves \<Longrightarrow> length k + 8 < 2 ^ 32" using assms(4) by blast
  let ?d = "fold (iter_move (DBIter_methods (MemTableIterator_methods BytewiseCompare (mem_table mem)) BytewiseCompare)) moves
      (NewDBIterator MemTable_NewIterator s seed)"
  have some: "?d \<noteq> None" using run(1) [OF v] by (auto simp: db_on_def)
  note view = bytewise_user.user_view_newest [OF bytewise_user.mem_iter.on_sorted [OF es(2)] es(1) assms(1,2), of _ _ s]
  show ?thesis
    by (rule exI [of _ mem], rule exI [of _ ?us], unfold Let_def, intro conjI allI mem(1) bytewise_user.mem_db.user_view_sorted [OF es(2)] view some)
      (use run(2-4) [OF v] in simp_all)
qed

theorem db_iterator_shows_snapshot_witness:
  "\<exists>mem us. MemTable_Adds BytewiseCompare MemTable_new
      [(1, kTypeValue, str ''a'', str ''old''), (2, kTypeValue, str ''b'', str ''x''), (3, kTypeValue, str ''a'', str ''new''),
       (4, kTypeDeletion, str ''b'', []), (5, kTypeValue, str ''c'', str ''late'')] = Some mem \<and>
    (str ''a'', str ''new'') \<in> set us \<and>
    (let I = DBIter_methods (MemTableIterator_methods BytewiseCompare (mem_table mem)) BytewiseCompare;
         d = fold (iter_move I) [ToLast, ToPrev, ToFirst] (NewDBIterator MemTable_NewIterator 4 301)
     in d \<noteq> None \<and> it_status I d = Status_OK \<and> (us \<noteq> [] \<longrightarrow> (it_key I d, it_value I d) = us ! 0))"
proof -
  let ?xs = "[(1, kTypeValue, str ''a'', str ''old''), (2, kTypeValue, str ''b'', str ''x''), (3, kTypeValue, str ''a'', str ''new''),
       (4, kTypeDeletion, str ''b'', []), (5, kTypeValue, str ''c'', str ''late'')] :: mem_op list"
  have ok: "\<forall>x \<in> set ?xs. mem_op_ok x" by (simp add: mem_op_ok_def kMaxSequenceNumber_eq str_def)
  have seq: "(4 :: u64) \<le> kMaxSequenceNumber" by (simp add: kMaxSequenceNumber_eq)
  have d: "distinct (map fst ?xs)" by simp
  have mv: "\<forall>k. ToKey k \<in> set [ToLast, ToPrev, ToFirst] \<longrightarrow> length k + 8 < 2 ^ 32" by simp
  have a: "newest BytewiseCompare (str ''a'') 4 ?xs = Some (3, kTypeValue, str ''a'', str ''new'')" by code_simp
  obtain mem us where m: "MemTable_Adds BytewiseCompare MemTable_new ?xs = Some mem"
      "\<forall>u v. (u, v) \<in> set us \<longleftrightarrow> (\<exists>q. newest BytewiseCompare u 4 ?xs = Some (q, kTypeValue, u, v))"
      "let I = DBIter_methods (MemTableIterator_methods BytewiseCompare (mem_table mem)) BytewiseCompare;
         d = fold (iter_move I) [ToLast, ToPrev, ToFirst] (NewDBIterator MemTable_NewIterator 4 301);
         j = fold (cursor_move BytewiseCompare us) [ToLast, ToPrev, ToFirst] (length us)
       in d \<noteq> None \<and> it_status I d = Status_OK \<and> (it_Valid I d \<longleftrightarrow> j < length us) \<and> (j < length us \<longrightarrow> (it_key I d, it_value I d) = us ! j)"
    using db_iterator_shows_snapshot [OF ok d seq mv, of 301] by (elim exE conjE) (rule that)
  have "fold (cursor_move BytewiseCompare us) [ToLast, ToPrev, ToFirst] (length us) = 0" by simp
  from m(3) [unfolded Let_def this] m(2) a
  show ?thesis unfolding Let_def by (intro exI [of _ mem] exI [of _ us] conjI m(1)) auto
qed

text \<open>C36: recording read samples always ends: \<open>RandomPeriod\<close> may draw a period of zero bytes, but never twice in a
  row, so from any state of the generator that its constructor and any number of draws reach, and for
  any deficit of the byte counter, the loop of \<open>ParseKey\<close> ends with a counter that is not negative.\<close>

theorem read_sampling_ends:
  "\<exists>d'. sample_while k (d\<lparr> di_rnd := (Random_Next ^^ n) (Random_init seed), di_bytes_counter := c \<rparr>) = Some d' \<and> 0 \<le> di_bytes_counter d'"
proof -
  have "seed_ok ((Random_Next ^^ n) (Random_init seed))"
    by (induction n) (use Random_init_bounds [of seed] in \<open>simp_all add: seed_ok_def Random_Next_nonzero\<close>)
  then show ?thesis using sample_while_ends [of "d\<lparr> di_rnd := (Random_Next ^^ n) (Random_init seed), di_bytes_counter := c \<rparr>" k]
    by (auto simp: sampled_def)
qed

end
