(* ===== verification/Handle_Table.thy ===== *)
theory Handle_Table
  imports Bloom "HOL-Library.Monad_Syntax"
begin

text \<open>
  The handles and the hash table of the sharded LRU cache of \<open>util/cache.cc\<close>. Handles (\<open>LRUHandle\<close>) live in an explicit heap from addresses
  to records; a pointer is an address. The chains of the hash table (\<open>next_hash\<close>) and the circular list of
  the cache (\<open>next\<close>, \<open>prev\<close>, from the oldest entry \<open>lru_.next\<close> to the newest \<open>lru_.prev\<close>) are lists of
  addresses. An operation returns \<open>None\<close> when it reads or writes a freed handle or an assertion fails, so that the
  properties can say that this does not happen. The table is shown to be a map from a hash and a key to
  the handle with that hash and key: resizing keeps it, insertion replaces, removal removes.
\<close>

unbundle bit_operations_syntax

section \<open>Handles\<close>

record LRUHandle =
  h_value :: nat
  h_charge :: u64
  h_refs :: u32
  h_hash :: u32
  h_key :: bytes

type_synonym handle_heap = "nat \<rightharpoonup> LRUHandle"

section \<open>The hash table\<close>

record HandleTable =
  ht_length :: u32
  ht_elems :: u32
  ht_list :: "nat list list"

text \<open>The walk down one chain: the position of the slot found, the end of the chain when there is none.\<close>

fun chain_find :: "handle_heap \<Rightarrow> bytes \<Rightarrow> u32 \<Rightarrow> nat list \<Rightarrow> nat option" where
  "chain_find H key hash [] = Some 0"
| "chain_find H key hash (p # ps) =
     do { h \<leftarrow> H p;
          if h_hash h \<noteq> hash \<or> key \<noteq> h_key h then map_option Suc (chain_find H key hash ps) else Some 0 }"

definition FindPointer :: "handle_heap \<Rightarrow> HandleTable \<Rightarrow> bytes \<Rightarrow> u32 \<Rightarrow> (nat \<times> nat) option" where
  "FindPointer H t key hash =
     (let i = unat (hash AND (ht_length t - 1))
      in if i < length (ht_list t) then map_option (Pair i) (chain_find H key hash (ht_list t ! i)) else None)"

definition slot_of :: "HandleTable \<Rightarrow> nat \<times> nat \<Rightarrow> nat option" where
  "slot_of t p = (let ch = ht_list t ! fst p in if snd p < length ch then Some (ch ! snd p) else None)"

definition HandleTable_Lookup :: "handle_heap \<Rightarrow> HandleTable \<Rightarrow> bytes \<Rightarrow> u32 \<Rightarrow> nat option option" where
  "HandleTable_Lookup H t key hash = map_option (slot_of t) (FindPointer H t key hash)"

text \<open>\<open>Resize\<close>: the new length is doubled from 4 until it reaches the number of elements (in 32 bits, where
  it would never stop above \<open>2 ^ 31\<close>); every handle is pushed onto the front of its new chain.\<close>

partial_function (option) grow_length :: "u32 \<Rightarrow> u32 \<Rightarrow> u32 option" where
  "grow_length new_length elems =
     (if new_length < elems then grow_length (new_length * 2) elems else Some new_length)"

fun rehash_chain :: "handle_heap \<Rightarrow> u32 \<Rightarrow> nat list \<Rightarrow> nat list list \<times> u32 \<Rightarrow> (nat list list \<times> u32) option" where
  "rehash_chain H n [] acc = Some acc"
| "rehash_chain H n (p # ps) acc =
     do { h \<leftarrow> H p;
          let i = unat (h_hash h AND (n - 1));
          rehash_chain H n ps ((fst acc)[i := p # fst acc ! i], snd acc + 1) }"

fun rehash_list :: "handle_heap \<Rightarrow> u32 \<Rightarrow> nat list list \<Rightarrow> nat list list \<times> u32 \<Rightarrow> (nat list list \<times> u32) option" where
  "rehash_list H n [] acc = Some acc"
| "rehash_list H n (ch # chs) acc = do { acc' \<leftarrow> rehash_chain H n ch acc; rehash_list H n chs acc' }"

definition Resize :: "handle_heap \<Rightarrow> HandleTable \<Rightarrow> HandleTable option" where
  "Resize H t =
     do { n \<leftarrow> grow_length 4 (ht_elems t);
          (new_list, count) \<leftarrow> rehash_list H n (ht_list t) (replicate (unat n) [], 0);
          if ht_elems t = count then Some (t\<lparr>ht_length := n, ht_list := new_list\<rparr>) else None }"

definition HandleTable_new :: "handle_heap \<Rightarrow> HandleTable option" where
  "HandleTable_new H = Resize H \<lparr>ht_length = 0, ht_elems = 0, ht_list = []\<rparr>"

definition HandleTable_Insert ::
  "handle_heap \<Rightarrow> HandleTable \<Rightarrow> nat \<Rightarrow> (nat option \<times> HandleTable) option" where
  "HandleTable_Insert H t h =
     do { d \<leftarrow> H h;
          (i, j) \<leftarrow> FindPointer H t (h_key d) (h_hash d);
          let ch = ht_list t ! i;
          let old = slot_of t (i, j);
          let t' = t\<lparr>ht_list := (ht_list t)[i := take j ch @ h # drop (Suc j) ch]\<rparr>;
          if old \<noteq> None then Some (old, t')
          else let t'' = t'\<lparr>ht_elems := ht_elems t' + 1\<rparr>
               in if ht_length t'' < ht_elems t'' then map_option (Pair old) (Resize H t'')
                  else Some (old, t'') }"

definition HandleTable_Remove ::
  "handle_heap \<Rightarrow> HandleTable \<Rightarrow> bytes \<Rightarrow> u32 \<Rightarrow> (nat option \<times> HandleTable) option" where
  "HandleTable_Remove H t key hash =
     do { (i, j) \<leftarrow> FindPointer H t key hash;
          let ch = ht_list t ! i;
          let result = slot_of t (i, j);
          if result = None then Some (result, t)
          else Some (result, t\<lparr>ht_list := (ht_list t)[i := take j ch @ drop (Suc j) ch],
                               ht_elems := ht_elems t - 1\<rparr>) }"

section \<open>The hash table is a map\<close>

definition ht_members :: "HandleTable \<Rightarrow> nat set" where
  "ht_members t = (\<Union>ch \<in> set (ht_list t). set ch)"

definition ident :: "handle_heap \<Rightarrow> nat \<Rightarrow> u32 \<times> bytes" where
  "ident H e = (h_hash (the (H e)), h_key (the (H e)))"

definition home :: "handle_heap \<Rightarrow> u32 \<Rightarrow> nat \<Rightarrow> nat" where
  "home H n e = unat (h_hash (the (H e)) AND (n - 1))"

text \<open>The chains: every handle is live and stands once, in the chain its hash selects.\<close>

definition chains_ok :: "handle_heap \<Rightarrow> u32 \<Rightarrow> nat list list \<Rightarrow> bool" where
  "chains_ok H n chs \<longleftrightarrow>
     (\<exists>k. k \<le> 31 \<and> n = 2 ^ k) \<and> length chs = unat n \<and>
     (\<forall>i < length chs. distinct (chs ! i) \<and> (\<forall>e \<in> set (chs ! i). e \<in> dom H \<and> home H n e = i))"

definition table_ok :: "handle_heap \<Rightarrow> HandleTable \<Rightarrow> bool" where
  "table_ok H t \<longleftrightarrow>
     chains_ok H (ht_length t) (ht_list t) \<and> inj_on (ident H) (ht_members t) \<and>
     ht_elems t = of_nat (card (ht_members t))"

text \<open>The handle with a given hash and key among a set of handles.\<close>

definition selects :: "handle_heap \<Rightarrow> nat set \<Rightarrow> u32 \<times> bytes \<Rightarrow> nat option \<Rightarrow> bool" where
  "selects H M k r \<longleftrightarrow>
     (case r of None \<Rightarrow> (\<forall>e \<in> M. ident H e \<noteq> k) | Some e \<Rightarrow> e \<in> M \<and> ident H e = k)"

lemma selects_unique:
  assumes "inj_on (ident H) M" "selects H M k r" "selects H M k r'"
  shows "r = r'"
  using assms by (auto simp: selects_def inj_on_def split: option.splits)

lemma power_two_word:
  assumes "k \<le> 31"
  shows "unat ((2 :: u32) ^ k) = 2 ^ k"
proof -
  have "(2 :: nat) ^ k < 2 ^ LENGTH(32)"
    using assms by (intro power_strict_increasing) auto
  from unat_of_nat_small [OF this] show ?thesis
    by simp
qed

lemma AND_mask_less:
  assumes "k \<le> 31"
  shows "unat (x AND ((2 :: u32) ^ k - 1)) < 2 ^ k"
proof -
  have "unat (x AND mask k :: u32) < 2 ^ k"
    by (simp add: unsigned_take_bit_eq flip: take_bit_eq_mask)
  then show ?thesis
    by (simp add: mask_eq_exp_minus_1)
qed

lemma home_less:
  assumes "chains_ok H n chs"
  shows "unat (x AND (n - 1)) < length chs"
  using assms AND_mask_less power_two_word by (auto simp: chains_ok_def)

lemma chains_ok_home:
  assumes "chains_ok H n chs" "ch \<in> set chs" "e \<in> set ch"
  shows "home H n e < length chs" "chs ! home H n e = ch" "e \<in> dom H"
proof -
  from assms(2) obtain i where "i < length chs" "chs ! i = ch"
    by (metis in_set_conv_nth)
  moreover from this have "home H n e = i \<and> e \<in> dom H"
    using assms(1,3) by (auto simp: chains_ok_def)
  ultimately show "home H n e < length chs" "chs ! home H n e = ch" "e \<in> dom H"
    by auto
qed

lemma chain_find_spec:
  assumes "set ch \<subseteq> dom H"
  shows "\<exists>j \<le> length ch. chain_find H key hash ch = Some j \<and> (\<forall>e \<in> set (take j ch). ident H e \<noteq> (hash, key)) \<and>
           (j < length ch \<longrightarrow> ident H (ch ! j) = (hash, key))"
  using assms
proof (induction ch)
  case (Cons p ch)
  then obtain h where h: "H p = Some h"
    by auto
  from Cons obtain j where j: "j \<le> length ch" "chain_find H key hash ch = Some j"
    "\<forall>e \<in> set (take j ch). ident H e \<noteq> (hash, key)" "j < length ch \<longrightarrow> ident H (ch ! j) = (hash, key)"
    by auto
  show ?case
  proof (cases "ident H p = (hash, key)")
    case True
    then show ?thesis
      using h by (intro exI [of _ 0]) (auto simp: ident_def)
  next
    case False
    then show ?thesis
      using h j by (intro exI [of _ "Suc j"]) (auto simp: ident_def)
  qed
qed simp

lemma FindPointer_spec:
  assumes "table_ok H t"
  obtains i j where "FindPointer H t key hash = Some (i, j)" "i < length (ht_list t)" "j \<le> length (ht_list t ! i)"
    "i = unat (hash AND (ht_length t - 1))"
    "selects H (ht_members t) (hash, key) (slot_of t (i, j))"
    "\<forall>e. e \<in> ht_members t \<and> ident H e = (hash, key) \<longrightarrow> e \<in> set (ht_list t ! i)"
proof -
  define i where "i = unat (hash AND (ht_length t - 1))"
  have ok: "chains_ok H (ht_length t) (ht_list t)"
    using assms by (simp add: table_ok_def)
  have i: "i < length (ht_list t)"
    unfolding i_def using ok by (rule home_less)
  have "set (ht_list t ! i) \<subseteq> dom H"
    using ok i by (auto simp: chains_ok_def)
  then obtain j where j: "j \<le> length (ht_list t ! i)" "chain_find H key hash (ht_list t ! i) = Some j"
    "\<forall>e \<in> set (take j (ht_list t ! i)). ident H e \<noteq> (hash, key)"
    "j < length (ht_list t ! i) \<longrightarrow> ident H (ht_list t ! i ! j) = (hash, key)"
    using chain_find_spec by blast
  have here: "e \<in> set (ht_list t ! i)" if "e \<in> ht_members t \<and> ident H e = (hash, key)" for e
  proof -
    from that obtain ch where ch: "ch \<in> set (ht_list t)" "e \<in> set ch"
      by (auto simp: ht_members_def)
    have "home H (ht_length t) e = i"
      using that by (simp add: home_def ident_def i_def)
    then show ?thesis
      using chains_ok_home [OF ok ch] ch by simp
  qed
  have "selects H (ht_members t) (hash, key) (slot_of t (i, j))"
  proof (cases "j < length (ht_list t ! i)")
    case True
    then show ?thesis
      using j i by (auto simp: selects_def slot_of_def ht_members_def Let_def intro!: bexI [of _ "ht_list t ! i"])
  next
    case False
    then show ?thesis
      using j here by (auto simp: selects_def slot_of_def)
  qed
  moreover have "FindPointer H t key hash = Some (i, j)"
    using i j(2) by (simp add: FindPointer_def i_def [symmetric] Let_def)
  ultimately show thesis
    using that [of i j] i j(1) here i_def by blast
qed

lemma HandleTable_Lookup_spec:
  assumes "table_ok H t"
  obtains r where "HandleTable_Lookup H t key hash = Some r" "selects H (ht_members t) (hash, key) r"
  using FindPointer_spec [OF assms, of key hash] by (metis HandleTable_Lookup_def option.map(2))

definition chain_members :: "nat list list \<Rightarrow> nat set" where
  "chain_members chs = set (concat chs)"

lemma ht_members_eq: "ht_members t = chain_members (ht_list t)"
  by (simp add: ht_members_def chain_members_def)

lemma chain_members_iff:
  assumes "chains_ok H n chs"
  shows "e \<in> chain_members chs \<longleftrightarrow> home H n e < length chs \<and> e \<in> set (chs ! home H n e)"
proof
  assume "e \<in> chain_members chs"
  then obtain ch where "ch \<in> set chs" "e \<in> set ch"
    by (auto simp: chain_members_def)
  then show "home H n e < length chs \<and> e \<in> set (chs ! home H n e)"
    using chains_ok_home [OF assms, of ch e] by simp
next
  assume "home H n e < length chs \<and> e \<in> set (chs ! home H n e)"
  then show "e \<in> chain_members chs"
    using nth_mem by (auto simp: chain_members_def)
qed

lemma chain_members_nth: "i < length chs \<Longrightarrow> e \<in> set (chs ! i) \<Longrightarrow> e \<in> chain_members chs"
  using nth_mem by (auto simp: chain_members_def)

lemma chains_ok_update:
  assumes "chains_ok H n chs" "i < length chs" "distinct xs" "\<forall>e \<in> set xs. e \<in> dom H \<and> home H n e = i"
  shows "chains_ok H n (chs[i := xs])"
    and "chain_members (chs[i := xs]) = (chain_members chs - set (chs ! i)) \<union> set xs"
proof -
  show ok: "chains_ok H n (chs[i := xs])"
    using assms by (auto simp: chains_ok_def nth_list_update)
  have home: "\<forall>e \<in> set (chs ! i). home H n e = i"
    using assms(1,2) by (simp add: chains_ok_def)
  show "chain_members (chs[i := xs]) = (chain_members chs - set (chs ! i)) \<union> set xs"
  proof (rule set_eqI)
    fix e
    show "e \<in> chain_members (chs[i := xs]) \<longleftrightarrow> e \<in> (chain_members chs - set (chs ! i)) \<union> set xs"
      using assms(2,4) home
      by (auto simp: chain_members_iff [OF ok] chain_members_iff [OF assms(1)] nth_list_update)
  qed
qed

lemma distinct_concat_indexed:
  assumes "\<forall>i < length chs. distinct (chs ! i) \<and> (\<forall>e \<in> set (chs ! i). f e = i)"
  shows "distinct (concat chs)"
  using assms
proof (induction chs rule: rev_induct)
  case (snoc ch chs)
  have old: "distinct (chs ! i) \<and> (\<forall>e \<in> set (chs ! i). f e = i)" if "i < length chs" for i
    using snoc.prems that by (auto simp: nth_append dest!: spec [of _ i])
  have new: "distinct ch \<and> (\<forall>e \<in> set ch. f e = length chs)"
    using snoc.prems by (auto dest!: spec [of _ "length chs"])
  have "f e < length chs" if "e \<in> set (concat chs)" for e
  proof -
    from that obtain i where "i < length chs" "e \<in> set (chs ! i)"
      by (auto simp: in_set_conv_nth [of _ chs])
    then show ?thesis
      using old [of i] by auto
  qed
  then show ?case
    using snoc.IH old new by fastforce
qed simp

lemma chains_ok_distinct:
  assumes "chains_ok H n chs"
  shows "distinct (concat chs)"
  using assms by (intro distinct_concat_indexed [where f = "home H n"]) (auto simp: chains_ok_def)

lemma chains_ok_dom:
  assumes "chains_ok H n chs"
  shows "chain_members chs \<subseteq> dom H"
  using assms chains_ok_home(3) by (fastforce simp: chain_members_def)

lemma grow_length_ok:
  assumes "k \<le> 31" "elems \<le> 2 ^ 31"
  shows "\<exists>k' \<le> 31. grow_length (2 ^ k) elems = Some (2 ^ k')"
  using assms
proof (induction "31 - k" arbitrary: k)
  case 0
  then show ?case
    by (subst grow_length.simps) (auto simp: not_less)
next
  case (Suc d)
  show ?case
  proof (cases "(2 :: u32) ^ k < elems")
    case True
    have "\<exists>k' \<le> 31. grow_length (2 ^ Suc k) elems = Some (2 ^ k')"
      using Suc by (intro Suc.hyps(1)) auto
    then show ?thesis
      using True by (subst grow_length.simps) (simp add: mult.commute)
  next
    case False
    then show ?thesis
      using Suc.prems by (subst grow_length.simps) auto
  qed
qed

lemma rehash_chain_append:
  "rehash_chain H n (xs @ ys) acc = Option.bind (rehash_chain H n xs acc) (rehash_chain H n ys)"
  by (induction xs arbitrary: acc) (auto simp: Let_def split: option.splits bind_splits)

lemma rehash_list_concat: "rehash_list H n chs = rehash_chain H n (concat chs)"
  by (induction chs) (rule ext, simp add: rehash_chain_append)+

lemma rehash_chain_spec:
  assumes "chains_ok H n chs" "distinct ps" "set ps \<subseteq> dom H" "set ps \<inter> chain_members chs = {}"
  shows "\<exists>chs'. rehash_chain H n ps (chs, c) = Some (chs', c + of_nat (length ps)) \<and> chains_ok H n chs' \<and>
           chain_members chs' = chain_members chs \<union> set ps"
  using assms
proof (induction ps arbitrary: chs c)
  case (Cons p ps)
  then obtain h where h: "H p = Some h"
    by auto
  define i where "i = home H n p"
  have i: "i < length chs"
    unfolding i_def home_def using Cons.prems(1) by (rule home_less)
  have p: "p \<notin> set (chs ! i)"
    using Cons.prems(4) chain_members_nth [OF i] by auto
  have upd: "\<forall>e \<in> set (p # chs ! i). e \<in> dom H \<and> home H n e = i" "distinct (p # chs ! i)"
    using Cons.prems(1) i p h by (auto simp: chains_ok_def i_def)
  note new = chains_ok_update [OF Cons.prems(1) i upd(2,1)]
  have members: "chain_members (chs[i := p # chs ! i]) = insert p (chain_members chs)"
    using new(2) chain_members_nth [OF i] by auto
  have "\<exists>chs'. rehash_chain H n ps (chs[i := p # chs ! i], c + 1) = Some (chs', c + 1 + of_nat (length ps)) \<and>
          chains_ok H n chs' \<and> chain_members chs' = chain_members (chs[i := p # chs ! i]) \<union> set ps"
    using Cons.prems members by (intro Cons.IH new(1)) auto
  then show ?case
    using h members by (auto simp: i_def home_def Let_def add.assoc)
qed simp

lemma Resize_spec:
  assumes "distinct (concat (ht_list t))" "set (concat (ht_list t)) \<subseteq> dom H"
    "inj_on (ident H) (set (concat (ht_list t)))" "ht_elems t = of_nat (length (concat (ht_list t)))"
    "length (concat (ht_list t)) \<le> 2 ^ 31"
  shows "\<exists>t'. Resize H t = Some t' \<and> table_ok H t' \<and> ht_members t' = ht_members t"
proof -
  have "ht_elems t \<le> 2 ^ 31"
    using assms(4,5) by (simp add: word_le_nat_alt unat_of_nat_small)
  then obtain k where k: "k \<le> 31" "grow_length 4 (ht_elems t) = Some (2 ^ k)"
    using grow_length_ok [of 2 "ht_elems t"] by auto
  define n :: u32 where "n = 2 ^ k"
  have empty: "chains_ok H n (replicate (unat n) [])" "chain_members (replicate (unat n) []) = {}"
    using k by (auto simp: chains_ok_def n_def chain_members_def)
  obtain chs' where chs': "rehash_list H n (ht_list t) (replicate (unat n) [], 0) = Some (chs', ht_elems t)"
    "chains_ok H n chs'" "chain_members chs' = set (concat (ht_list t))"
    using rehash_chain_spec [OF empty(1) assms(1,2), of 0] empty(2) assms(4)
    unfolding rehash_list_concat by auto
  have "card (chain_members chs') = length (concat (ht_list t))"
    unfolding chs'(3) using assms(1) by (rule distinct_card)
  then show ?thesis
    using k(2) chs' assms(3,4)
    by (simp add: Resize_def n_def [symmetric] table_ok_def ht_members_eq chain_members_def)
qed

lemma HandleTable_new_ok:
  "\<exists>t. HandleTable_new H = Some t \<and> table_ok H t \<and> ht_members t = {}"
  unfolding HandleTable_new_def using Resize_spec [of "\<lparr>ht_length = 0, ht_elems = 0, ht_list = []\<rparr>" H]
  by (simp add: ht_members_def)

lemma finite_ht_members [simp]: "finite (ht_members t)"
  by (simp add: ht_members_def)

lemma split_at_distinct:
  assumes "distinct xs" "j < length xs"
  shows "set (take j xs @ drop (Suc j) xs) = set xs - {xs ! j}" "distinct (take j xs @ drop (Suc j) xs)"
proof -
  have xs: "xs = take j xs @ xs ! j # drop (Suc j) xs"
    using assms(2) by (simp add: id_take_nth_drop)
  have "distinct (take j xs @ xs ! j # drop (Suc j) xs)"
    using assms(1) xs by simp
  moreover have "set xs = insert (xs ! j) (set (take j xs) \<union> set (drop (Suc j) xs))"
    by (subst xs) auto
  ultimately show "set (take j xs @ drop (Suc j) xs) = set xs - {xs ! j}"
    "distinct (take j xs @ drop (Suc j) xs)"
    by auto
qed

lemma chains_ok_nth:
  assumes "chains_ok H n chs" "i < length chs"
  shows "distinct (chs ! i)" "e \<in> set (chs ! i) \<Longrightarrow> e \<in> dom H" "e \<in> set (chs ! i) \<Longrightarrow> home H n e = i"
  using assms by (auto simp: chains_ok_def)

text \<open>One slot of a chain replaced by at most one handle.\<close>

lemma chains_ok_splice:
  assumes ok: "chains_ok H n chs" and i: "i < length chs" and j: "j \<le> length (chs ! i)"
    and xs: "distinct xs" "set xs \<inter> set (chs ! i) = {}" "\<forall>e \<in> set xs. e \<in> dom H \<and> home H n e = i"
  defines "old \<equiv> (if j < length (chs ! i) then {chs ! i ! j} else {})"
  shows "chains_ok H n (chs[i := take j (chs ! i) @ xs @ drop (Suc j) (chs ! i)])"
    and "chain_members (chs[i := take j (chs ! i) @ xs @ drop (Suc j) (chs ! i)]) =
           (chain_members chs - old) \<union> set xs"
proof -
  let ?ch = "chs ! i"
  let ?new = "take j ?ch @ xs @ drop (Suc j) ?ch"
  have rest: "set (take j ?ch @ drop (Suc j) ?ch) = set ?ch - old" "distinct (take j ?ch @ drop (Suc j) ?ch)"
    using split_at_distinct [OF chains_ok_nth(1) [OF ok i], of j] j chains_ok_nth(1) [OF ok i]
    by (cases "j < length ?ch"; simp add: old_def)+
  have new: "set ?new = (set ?ch - old) \<union> set xs" "distinct ?new"
    using rest xs by auto
  have homes: "\<forall>e \<in> set ?new. e \<in> dom H \<and> home H n e = i"
    using new(1) xs(3) chains_ok_nth(2,3) [OF ok i] by auto
  note upd = chains_ok_update [OF ok i new(2) homes]
  show "chains_ok H n (chs[i := ?new])"
    by (rule upd(1))
  have "old \<subseteq> set ?ch" "set ?ch \<subseteq> chain_members chs"
    using chain_members_nth [OF i] by (auto simp: old_def)
  then show "chain_members (chs[i := ?new]) = (chain_members chs - old) \<union> set xs"
    unfolding upd(2) new(1) using xs(2) by auto
qed

lemma slot_of_set:
  "set_option (slot_of t (i, j)) = (if j < length (ht_list t ! i) then {ht_list t ! i ! j} else {})"
  by (simp add: slot_of_def Let_def)

lemma HandleTable_Remove_spec:
  assumes "table_ok H t"
  shows "\<exists>r t'. HandleTable_Remove H t key hash = Some (r, t') \<and> selects H (ht_members t) (hash, key) r \<and>
           table_ok H t' \<and> ht_members t' = ht_members t - set_option r"
proof -
  obtain i j where p: "FindPointer H t key hash = Some (i, j)" "i < length (ht_list t)"
    "j \<le> length (ht_list t ! i)" "selects H (ht_members t) (hash, key) (slot_of t (i, j))"
    using FindPointer_spec [OF assms, of key hash] by metis
  have ok: "chains_ok H (ht_length t) (ht_list t)"
    using assms by (simp add: table_ok_def)
  define t' where "t' = t\<lparr>ht_list := (ht_list t)[i := take j (ht_list t ! i) @ drop (Suc j) (ht_list t ! i)],
    ht_elems := ht_elems t - 1\<rparr>"
  have chains: "chains_ok H (ht_length t') (ht_list t')"
    using chains_ok_splice(1) [OF ok p(2,3), of "[]"] by (simp add: t'_def)
  have members: "ht_members t' = ht_members t - set_option (slot_of t (i, j))"
    using chains_ok_splice(2) [OF ok p(2,3), of "[]"] unfolding slot_of_set by (simp add: ht_members_eq t'_def)
  show ?thesis
  proof (cases "slot_of t (i, j)")
    case None
    then show ?thesis
      using p assms by (simp add: HandleTable_Remove_def)
  next
    case (Some e)
    then have e: "e \<in> ht_members t"
      using p(4) by (simp add: selects_def)
    then have "card (ht_members t) = Suc (card (ht_members t'))"
      using members Some card.remove [OF finite_ht_members e] by simp
    moreover have "inj_on (ident H) (ht_members t')"
      using assms members by (auto simp: table_ok_def intro: inj_on_subset)
    moreover have "ht_elems t' = ht_elems t - 1"
      by (simp add: t'_def)
    ultimately have "table_ok H t'"
      using assms chains by (simp add: table_ok_def)
    then show ?thesis
      using p Some members by (simp add: HandleTable_Remove_def t'_def Let_def)
  qed
qed

lemma inj_on_replace:
  assumes "inj_on (ident H) M" "selects H M (ident H h) old"
  shows "inj_on (ident H) (insert h (M - set_option old))"
proof -
  have "e = the old" if "e \<in> M" "ident H e = ident H h" for e
    using that assms by (auto simp: selects_def inj_on_def split: option.splits)
  moreover have "e \<notin> M - set_option old" if "ident H e = ident H h" "e = the old" for e
    using that assms(2) by (auto simp: selects_def split: option.splits)
  ultimately have "ident H h \<notin> ident H ` (M - set_option old)"
    by (metis (no_types, lifting) DiffD1 imageE)
  then show ?thesis
    using inj_on_subset [OF assms(1)] by (simp add: inj_on_insert image_def)
qed

lemma HandleTable_Insert_spec:
  assumes ok: "table_ok H t" and h: "H h = Some d" "h \<notin> ht_members t" and few: "card (ht_members t) < 2 ^ 31"
  shows "\<exists>old t'. HandleTable_Insert H t h = Some (old, t') \<and> selects H (ht_members t) (ident H h) old \<and>
           table_ok H t' \<and> ht_members t' = insert h (ht_members t - set_option old)"
proof -
  have d: "ident H h = (h_hash d, h_key d)"
    using h by (simp add: ident_def)
  obtain i j where p: "FindPointer H t (h_key d) (h_hash d) = Some (i, j)" "i < length (ht_list t)"
    "j \<le> length (ht_list t ! i)" "i = unat (h_hash d AND (ht_length t - 1))"
    "selects H (ht_members t) (ident H h) (slot_of t (i, j))"
    using FindPointer_spec [OF ok, of "h_key d" "h_hash d"] d by metis
  have chs: "chains_ok H (ht_length t) (ht_list t)"
    using ok by (simp add: table_ok_def)
  let ?old = "slot_of t (i, j)"
  define t' where "t' = t\<lparr>ht_list := (ht_list t)[i := take j (ht_list t ! i) @ h # drop (Suc j) (ht_list t ! i)]\<rparr>"
  have one: "set [h] \<inter> set (ht_list t ! i) = {}" "\<forall>e \<in> set [h]. e \<in> dom H \<and> home H (ht_length t) e = i"
    using h chain_members_nth [OF p(2)] p(4) by (auto simp: ht_members_eq home_def)
  have chains: "chains_ok H (ht_length t) (ht_list t')"
    using chains_ok_splice(1) [OF chs p(2,3) _ one] by (simp add: t'_def)
  have members: "ht_members t' = insert h (ht_members t - set_option ?old)"
    using chains_ok_splice(2) [OF chs p(2,3) _ one] unfolding slot_of_set by (simp add: ht_members_eq t'_def)
  have inj: "inj_on (ident H) (ht_members t')"
    unfolding members using ok p(5) by (intro inj_on_replace) (simp_all add: table_ok_def)
  show ?thesis
  proof (cases "?old")
    case (Some e)
    then have e: "e \<in> ht_members t"
      using p(5) by (simp add: selects_def)
    have "card (ht_members t') = card (ht_members t)"
      using members Some h(2) card.remove [OF finite_ht_members e] by simp
    then have "table_ok H t'"
      using ok chains inj by (simp add: table_ok_def t'_def)
    then show ?thesis
      using p h Some members by (simp add: HandleTable_Insert_def t'_def Let_def)
  next
    case None
    define t'' where "t'' = t'\<lparr>ht_elems := ht_elems t' + 1\<rparr>"
    have same: "ht_members t'' = ht_members t'" "ht_list t'' = ht_list t'"
      by (auto simp: t''_def ht_members_def)
    have card: "card (ht_members t') = Suc (card (ht_members t))"
      using members None h(2) by simp
    have elems: "ht_elems t'' = of_nat (card (ht_members t'))"
      using ok card by (simp add: table_ok_def t''_def t'_def)
    have len: "length (concat (ht_list t'')) = card (ht_members t')"
      using chains_ok_distinct [OF chains] same(2)
      by (metis chain_members_def distinct_card ht_members_eq)
    have "\<exists>t3. Resize H t'' = Some t3 \<and> table_ok H t3 \<and> ht_members t3 = ht_members t''"
      by (rule Resize_spec)
        (use chains_ok_distinct [OF chains] chains_ok_dom [OF chains] inj elems len card few same in
          \<open>simp_all add: ht_members_eq chain_members_def\<close>)
    moreover have "table_ok H t''"
      using chains inj elems same by (simp add: table_ok_def t''_def t'_def)
    ultimately show ?thesis
      using p h None members same by (auto simp: HandleTable_Insert_def t''_def t'_def Let_def)
  qed
qed

lemma table_ok_heap:
  assumes "table_ok H t" "\<forall>e \<in> ht_members t. e \<in> dom H' \<and> ident H' e = ident H e"
  shows "table_ok H' t"
proof -
  have "inj_on (ident H') (ht_members t) = inj_on (ident H) (ht_members t)"
    using assms(2) by (auto simp: inj_on_def)
  moreover have "chains_ok H' (ht_length t) (ht_list t)"
    using assms chain_members_nth by (auto simp: table_ok_def chains_ok_def home_def ident_def ht_members_eq)
  ultimately show ?thesis
    using assms(1) by (simp add: table_ok_def)
qed

end
