(* ===== verification/LRU_Cache.thy ===== *)
theory LRU_Cache
  imports Handle_Table
begin

text \<open>
  One shard of the cache (\<open>LRUCache\<close> of \<open>util/cache.cc\<close>): its list in order of use, its table and the
  charges. What \<open>malloc\<close> returns is an argument of \<open>Insert\<close>; the calls of the deleters are recorded. The
  mutex makes each operation atomic. The invariant counts the references to every live handle of the
  shard, and each operation is shown to keep it and to change the list as an LRU cache should.
\<close>

section \<open>One shard\<close>

record cache_mem =
  cm_heap :: handle_heap
  cm_deleted :: "(bytes \<times> nat) list"

record LRUCache =
  lc_capacity :: u64
  lc_usage :: u64
  lc_lru :: "nat list"
  lc_table :: HandleTable

type_synonym lru_state = "cache_mem \<times> LRUCache"

definition LRUCache_new :: "handle_heap \<Rightarrow> LRUCache option" where
  "LRUCache_new H =
     map_option (\<lambda>t. \<lparr>lc_capacity = 0, lc_usage = 0, lc_lru = [], lc_table = t\<rparr>) (HandleTable_new H)"

definition SetCapacity :: "u64 \<Rightarrow> LRUCache \<Rightarrow> LRUCache" where
  "SetCapacity capacity c = c\<lparr>lc_capacity := capacity\<rparr>"

definition LRU_Remove :: "nat \<Rightarrow> LRUCache \<Rightarrow> LRUCache" where
  "LRU_Remove e c = c\<lparr>lc_lru := remove1 e (lc_lru c)\<rparr>"

definition LRU_Append :: "nat \<Rightarrow> LRUCache \<Rightarrow> LRUCache" where
  "LRU_Append e c = c\<lparr>lc_lru := lc_lru c @ [e]\<rparr>"

definition LRU_Unref :: "nat \<Rightarrow> lru_state \<Rightarrow> lru_state option" where
  "LRU_Unref e s =
     do { h \<leftarrow> cm_heap (fst s) e;
          if h_refs h = 0 then None
          else let r = h_refs h - 1; m = fst s; c = snd s
               in if r \<le> 0
                  then Some (m\<lparr>cm_heap := (cm_heap m)(e := None),
                               cm_deleted := cm_deleted m @ [(h_key h, h_value h)]\<rparr>,
                             c\<lparr>lc_usage := lc_usage c - h_charge h\<rparr>)
                  else Some (m\<lparr>cm_heap := (cm_heap m)(e \<mapsto> h\<lparr>h_refs := r\<rparr>)\<rparr>, c) }"

fun destroy_loop :: "nat list \<Rightarrow> lru_state \<Rightarrow> lru_state option" where
  "destroy_loop [] s = Some s"
| "destroy_loop (e # es) s =
     do { h \<leftarrow> cm_heap (fst s) e;
          if h_refs h \<noteq> 1 then None else do { s' \<leftarrow> LRU_Unref e s; destroy_loop es s' } }"

definition LRUCache_destroy :: "lru_state \<Rightarrow> lru_state option" where
  "LRUCache_destroy s = destroy_loop (lc_lru (snd s)) s"

definition LRUCache_Lookup :: "bytes \<Rightarrow> u32 \<Rightarrow> lru_state \<Rightarrow> (nat option \<times> lru_state) option" where
  "LRUCache_Lookup key hash s =
     do { r \<leftarrow> HandleTable_Lookup (cm_heap (fst s)) (lc_table (snd s)) key hash;
          case r of
            None \<Rightarrow> Some (None, s)
          | Some e \<Rightarrow>
              do { h \<leftarrow> cm_heap (fst s) e;
                   Some (Some e, (fst s)\<lparr>cm_heap := (cm_heap (fst s))(e \<mapsto> h\<lparr>h_refs := h_refs h + 1\<rparr>)\<rparr>,
                         LRU_Append e (LRU_Remove e (snd s))) } }"

definition LRUCache_Release :: "nat \<Rightarrow> lru_state \<Rightarrow> lru_state option" where
  "LRUCache_Release handle s = LRU_Unref handle s"

text \<open>The last loop of \<open>Insert\<close>: the oldest entries leave while the cache is above its capacity.\<close>

definition evict_oldest :: "nat \<Rightarrow> lru_state \<Rightarrow> lru_state option" where
  "evict_oldest old s =
     do { h \<leftarrow> cm_heap (fst s) old;
          let c = LRU_Remove old (snd s);
          (r, t) \<leftarrow> HandleTable_Remove (cm_heap (fst s)) (lc_table c) (h_key h) (h_hash h);
          LRU_Unref old (fst s, c\<lparr>lc_table := t\<rparr>) }"

partial_function (option) evict_loop :: "lru_state \<Rightarrow> lru_state option" where
  "evict_loop s =
     (if lc_capacity (snd s) < lc_usage (snd s) \<and> lc_lru (snd s) \<noteq> []
      then Option.bind (evict_oldest (hd (lc_lru (snd s))) s) evict_loop
      else Some s)"

definition LRUCache_Insert ::
  "nat \<Rightarrow> bytes \<Rightarrow> u32 \<Rightarrow> nat \<Rightarrow> u64 \<Rightarrow> lru_state \<Rightarrow> (nat \<times> lru_state) option" where
  "LRUCache_Insert e key hash value charge s =
     do { let h = \<lparr>h_value = value, h_charge = charge, h_refs = 2, h_hash = hash, h_key = key\<rparr>;
          let m = (fst s)\<lparr>cm_heap := (cm_heap (fst s))(e \<mapsto> h)\<rparr>;
          let c = LRU_Append e (snd s);
          let c = c\<lparr>lc_usage := lc_usage c + charge\<rparr>;
          (old, t) \<leftarrow> HandleTable_Insert (cm_heap m) (lc_table c) e;
          let c = c\<lparr>lc_table := t\<rparr>;
          s' \<leftarrow> (case old of None \<Rightarrow> Some (m, c) | Some old \<Rightarrow> LRU_Unref old (m, LRU_Remove old c));
          s'' \<leftarrow> evict_loop s';
          Some (e, s'') }"

definition LRUCache_Erase :: "bytes \<Rightarrow> u32 \<Rightarrow> lru_state \<Rightarrow> lru_state option" where
  "LRUCache_Erase key hash s =
     do { (r, t) \<leftarrow> HandleTable_Remove (cm_heap (fst s)) (lc_table (snd s)) key hash;
          let c = (snd s)\<lparr>lc_table := t\<rparr>;
          case r of None \<Rightarrow> Some (fst s, c) | Some e \<Rightarrow> LRU_Unref e (fst s, LRU_Remove e c) }"

text \<open>\<open>Prune\<close> reads the successor of an entry before it unlinks the entry, and unlinks no other one: it
  visits the entries of the list it started with.\<close>

definition prune_entry :: "nat \<Rightarrow> lru_state \<Rightarrow> lru_state option" where
  "prune_entry e s =
     do { h \<leftarrow> cm_heap (fst s) e;
          if h_refs h = 1
          then do { (r, t) \<leftarrow> HandleTable_Remove (cm_heap (fst s)) (lc_table (snd s)) (h_key h) (h_hash h);
                    LRU_Unref e (fst s, LRU_Remove e ((snd s)\<lparr>lc_table := t\<rparr>)) }
          else Some s }"

fun prune_loop :: "nat list \<Rightarrow> lru_state \<Rightarrow> lru_state option" where
  "prune_loop [] s = Some s"
| "prune_loop (e # es) s = do { s' \<leftarrow> prune_entry e s; prune_loop es s' }"

definition LRUCache_Prune :: "lru_state \<Rightarrow> lru_state option" where
  "LRUCache_Prune s = prune_loop (lc_lru (snd s)) s"

section \<open>Reference counts and charges\<close>

text \<open>The handles of one shard are those whose hash satisfies \<open>P\<close>. Every one is live because something
  refers to it: \<open>cnt\<close> counts the references (clients and the cache itself), the usage is the sum of the
  charges of all live handles, those that left the cache but are still held included.\<close>

definition owned :: "(u32 \<Rightarrow> bool) \<Rightarrow> handle_heap \<Rightarrow> nat set" where
  "owned P H = {e. \<exists>h. H e = Some h \<and> P (h_hash h)}"

definition ref_inv :: "(u32 \<Rightarrow> bool) \<Rightarrow> (nat \<Rightarrow> nat) \<Rightarrow> handle_heap \<Rightarrow> u64 \<Rightarrow> bool" where
  "ref_inv P cnt H u \<longleftrightarrow>
     finite (owned P H) \<and>
     (\<forall>e \<in> owned P H. 0 < cnt e \<and> cnt e < 2 ^ 32 \<and> h_refs (the (H e)) = of_nat (cnt e)) \<and>
     (\<forall>e. 0 < cnt e \<longrightarrow> e \<in> dom H) \<and>
     u = (\<Sum>e \<in> owned P H. h_charge (the (H e)))"

text \<open>What operations do to the heap: handles of other shards are untouched; a handle that stays keeps
  everything but its reference count.\<close>

definition evolves :: "(u32 \<Rightarrow> bool) \<Rightarrow> handle_heap \<Rightarrow> handle_heap \<Rightarrow> bool" where
  "evolves P H H' \<longleftrightarrow>
     (\<forall>x. x \<notin> owned P H \<longrightarrow> H' x = H x) \<and>
     (\<forall>x h'. H' x = Some h' \<longrightarrow> (\<exists>h. H x = Some h \<and> h' = h\<lparr>h_refs := h_refs h'\<rparr>))"

lemma evolves_refl [simp]: "evolves P H H"
  by (auto simp: evolves_def)

lemma evolves_entry:
  assumes "evolves P H H'" "x \<in> dom H'"
  shows "x \<in> dom H" "h_value (the (H' x)) = h_value (the (H x))" "h_charge (the (H' x)) = h_charge (the (H x))"
    "h_hash (the (H' x)) = h_hash (the (H x))" "h_key (the (H' x)) = h_key (the (H x))" "ident H' x = ident H x"
proof -
  obtain h' where h': "H' x = Some h'"
    using assms(2) by auto
  then obtain h where h: "H x = Some h" "H' x = Some h'" "h' = h\<lparr>h_refs := h_refs h'\<rparr>"
    using assms(1) unfolding evolves_def by blast
  show "x \<in> dom H"
    using h by auto
  have same: "h_value h' = h_value h \<and> h_charge h' = h_charge h \<and> h_hash h' = h_hash h \<and> h_key h' = h_key h"
    by (subst (1 2 3 4) h(3)) simp
  then show "h_value (the (H' x)) = h_value (the (H x))" "h_charge (the (H' x)) = h_charge (the (H x))"
    "h_hash (the (H' x)) = h_hash (the (H x))" "h_key (the (H' x)) = h_key (the (H x))" "ident H' x = ident H x"
    using h(1,2) by (simp_all add: ident_def)
qed

lemma owned_iff: "e \<in> owned P H \<longleftrightarrow> e \<in> dom H \<and> P (h_hash (the (H e)))"
  by (auto simp: owned_def)

lemma owned_evolves:
  assumes "evolves P H H'" "e \<in> owned P H'"
  shows "e \<in> owned P H"
  using assms(2) evolves_entry(1,4) [OF assms(1), of e] by (simp add: owned_iff)

lemma evolves_trans:
  assumes "evolves P H H'" "evolves P H' H''"
  shows "evolves P H H''"
proof -
  have "H'' x = H x" if "x \<notin> owned P H" for x
    using that assms owned_evolves [OF assms(1), of x] unfolding evolves_def by metis
  moreover have "\<exists>h. H x = Some h \<and> h'' = h\<lparr>h_refs := h_refs h''\<rparr>" if x: "H'' x = Some h''" for x h''
  proof -
    from x obtain h' where h': "H' x = Some h'" "h'' = h'\<lparr>h_refs := h_refs h''\<rparr>"
      using assms(2) unfolding evolves_def by blast
    then obtain h where h: "H x = Some h" "h' = h\<lparr>h_refs := h_refs h'\<rparr>"
      using assms(1) unfolding evolves_def by blast
    have "h'' = h\<lparr>h_refs := h_refs h''\<rparr>"
      by (subst h'(2), subst h(2)) simp
    then show ?thesis
      using h(1) by blast
  qed
  ultimately show ?thesis
    by (simp add: evolves_def)
qed

lemma LRU_Unref_spec:
  assumes inv: "ref_inv P cnt (cm_heap m) (lc_usage c)" and e: "e \<in> owned P (cm_heap m)"
  shows "\<exists>m' u. LRU_Unref e (m, c) = Some (m', c\<lparr>lc_usage := u\<rparr>) \<and>
           ref_inv P (cnt(e := cnt e - 1)) (cm_heap m') u \<and> evolves P (cm_heap m) (cm_heap m') \<and>
           dom (cm_heap m') = (if cnt e = 1 then dom (cm_heap m) - {e} else dom (cm_heap m)) \<and>
           u = lc_usage c - (if cnt e = 1 then h_charge (the (cm_heap m e)) else 0) \<and>
           cm_deleted m' = cm_deleted m @ (if cnt e = 1 then [(h_key (the (cm_heap m e)), h_value (the (cm_heap m e)))] else [])"
proof -
  let ?H = "cm_heap m"
  obtain h where h: "?H e = Some h" "P (h_hash h)"
    using e by (auto simp: owned_def)
  have cnt: "0 < cnt e" "cnt e < 2 ^ 32" "h_refs h = of_nat (cnt e)"
    using inv e h by (auto simp: ref_inv_def)
  have "unat (h_refs h) = cnt e"
    unfolding cnt(3) by (rule unat_of_nat_small) (use cnt(2) in simp)
  then have nz: "h_refs h \<noteq> 0"
    using cnt(1) by auto
  have pred: "h_refs h - 1 = of_nat (cnt e - 1)"
    using cnt by (simp add: of_nat_diff)
  have zero: "h_refs h - 1 \<le> 0 \<longleftrightarrow> cnt e = 1"
  proof -
    have "unat (h_refs h - 1) = cnt e - 1"
      unfolding pred by (rule unat_of_nat_small) (use cnt(2) in simp)
    then show ?thesis
      using cnt(1) by (auto simp: word_le_nat_alt)
  qed
  show ?thesis
  proof (cases "cnt e = 1")
    case True
    have owned': "owned P (?H(e := None)) = owned P ?H - {e}"
      by (auto simp: owned_def)
    have "ref_inv P (cnt(e := cnt e - 1)) (?H(e := None)) (lc_usage c - h_charge h)"
      using inv e h True sum.remove [OF _ e, of "\<lambda>e. h_charge (the (?H e))"]
      by (auto simp: ref_inv_def owned')
    moreover have "evolves P ?H (?H(e := None))"
      using e by (auto simp: evolves_def)
    ultimately show ?thesis
      using h nz zero True by (auto simp: LRU_Unref_def Let_def)
  next
    case False
    let ?H' = "?H(e \<mapsto> h\<lparr>h_refs := h_refs h - 1\<rparr>)"
    have owned': "owned P ?H' = owned P ?H"
      using h by (auto simp: owned_def)
    have charge: "(\<Sum>x \<in> owned P ?H. h_charge (the (?H' x))) = (\<Sum>x \<in> owned P ?H. h_charge (the (?H x)))"
      using h by (intro sum.cong) auto
    have "ref_inv P (cnt(e := cnt e - 1)) ?H' (lc_usage c)"
      using inv cnt False pred unfolding ref_inv_def owned' charge by auto
    moreover have "evolves P ?H ?H'"
      using e h by (auto simp: evolves_def)
    moreover have "dom ?H' = dom ?H" "c = c\<lparr>lc_usage := lc_usage c\<rparr>"
      using h by auto
    ultimately show ?thesis
      using h nz zero False by (intro exI [of _ "m\<lparr>cm_heap := ?H'\<rparr>"] exI [of _ "lc_usage c"]) (simp add: LRU_Unref_def Let_def)
  qed
qed

section \<open>The invariant of a shard\<close>

definition cache_cnt :: "(nat \<Rightarrow> nat) \<Rightarrow> nat list \<Rightarrow> nat \<Rightarrow> nat" where
  "cache_cnt held lru e = held e + (if e \<in> set lru then 1 else 0)"

definition list_inv :: "(u32 \<Rightarrow> bool) \<Rightarrow> (nat \<Rightarrow> nat) \<Rightarrow> lru_state \<Rightarrow> bool" where
  "list_inv P held s \<longleftrightarrow>
     ref_inv P (cache_cnt held (lc_lru (snd s))) (cm_heap (fst s)) (lc_usage (snd s)) \<and>
     distinct (lc_lru (snd s)) \<and> set (lc_lru (snd s)) \<subseteq> owned P (cm_heap (fst s))"

definition lru_inv :: "(u32 \<Rightarrow> bool) \<Rightarrow> (nat \<Rightarrow> nat) \<Rightarrow> lru_state \<Rightarrow> bool" where
  "lru_inv P held s \<longleftrightarrow>
     list_inv P held s \<and> table_ok (cm_heap (fst s)) (lc_table (snd s)) \<and>
     ht_members (lc_table (snd s)) = set (lc_lru (snd s))"

text \<open>The charge given back when the entries \<open>xs\<close> leave the cache: that of the entries no client holds.\<close>

definition freed :: "(nat \<Rightarrow> nat) \<Rightarrow> handle_heap \<Rightarrow> nat list \<Rightarrow> u64" where
  "freed held H xs = (\<Sum>x \<leftarrow> xs. if held x = 0 then h_charge (the (H x)) else 0)"

lemma freed_simps [simp]:
  "freed held H [] = 0"
  "freed held H (x # xs) = (if held x = 0 then h_charge (the (H x)) else 0) + freed held H xs"
  "freed held H (xs @ ys) = freed held H xs + freed held H ys"
  by (simp_all add: freed_def)

lemma freed_cong:
  "(\<And>x. x \<in> set xs \<Longrightarrow> held x = 0 \<Longrightarrow> h_charge (the (H' x)) = h_charge (the (H x))) \<Longrightarrow> freed held H' xs = freed held H xs"
  unfolding freed_def by (rule arg_cong [where f = sum_list], rule map_cong) auto

lemma freed_evolves: "evolves P H H' \<Longrightarrow> set xs \<subseteq> dom H' \<Longrightarrow> freed held H' xs = freed held H xs"
  by (rule freed_cong) (blast intro: evolves_entry(3))

text \<open>An entry leaves the cache: unlinked from the list and the table, then its reference given up.\<close>

lemma unlink_spec:
  assumes inv: "list_inv P held (m, c)" and e: "e \<in> set (lc_lru c)"
    and table: "table_ok (cm_heap m) (lc_table c')" "ht_members (lc_table c') = set (lc_lru c) - {e}"
    and c': "lc_lru c' = remove1 e (lc_lru c)" "lc_usage c' = lc_usage c"
  shows "\<exists>m' u. LRU_Unref e (m, c') = Some (m', c'\<lparr>lc_usage := u\<rparr>) \<and> lru_inv P held (m', c'\<lparr>lc_usage := u\<rparr>) \<and>
           evolves P (cm_heap m) (cm_heap m') \<and> u = lc_usage c - freed held (cm_heap m) [e] \<and>
           (\<forall>x. x \<in> dom (cm_heap m) \<and> (held x > 0 \<or> x \<noteq> e) \<longrightarrow> x \<in> dom (cm_heap m'))"
proof -
  have props: "distinct (lc_lru c)" "set (lc_lru c) \<subseteq> owned P (cm_heap m)"
    "ref_inv P (cache_cnt held (lc_lru c)) (cm_heap m) (lc_usage c')"
    using inv c' by (simp_all add: list_inv_def)
  from LRU_Unref_spec [OF props(3)] e props(2) obtain m' u where
    unref: "LRU_Unref e (m, c') = Some (m', c'\<lparr>lc_usage := u\<rparr>)"
      "ref_inv P ((cache_cnt held (lc_lru c))(e := cache_cnt held (lc_lru c) e - 1)) (cm_heap m') u"
      "evolves P (cm_heap m) (cm_heap m')"
      "dom (cm_heap m') = (if cache_cnt held (lc_lru c) e = 1 then dom (cm_heap m) - {e} else dom (cm_heap m))"
      "u = lc_usage c' - (if cache_cnt held (lc_lru c) e = 1 then h_charge (the (cm_heap m e)) else 0)"
    by blast
  have cnt: "(cache_cnt held (lc_lru c))(e := cache_cnt held (lc_lru c) e - 1) = cache_cnt held (lc_lru c')"
    using e props(1) c'(1) by (auto simp: cache_cnt_def fun_eq_iff)
  have lru': "set (lc_lru c') = set (lc_lru c) - {e}" "distinct (lc_lru c')"
    using props(1) c'(1) by simp_all
  have live: "x \<in> dom (cm_heap m') \<and> ident (cm_heap m') x = ident (cm_heap m) x" if "x \<in> set (lc_lru c')" for x
  proof -
    have "x \<in> dom (cm_heap m')"
      using that lru'(1) unref(4) props(2) by (auto simp: owned_def)
    then show ?thesis
      using evolves_entry(6) [OF unref(3)] by blast
  qed
  have "x \<in> owned P (cm_heap m')" if x: "x \<in> set (lc_lru c')" for x
    using live [OF x] x lru'(1) props(2) by (auto simp: owned_iff ident_def)
  then have "list_inv P held (m', c'\<lparr>lc_usage := u\<rparr>)"
    using unref(2) cnt lru'(2) by (auto simp: list_inv_def)
  moreover have "table_ok (cm_heap m') (lc_table c')"
    using table(1) by (rule table_ok_heap) (use table(2) lru'(1) live in auto)
  ultimately have "lru_inv P held (m', c'\<lparr>lc_usage := u\<rparr>)"
    using table(2) lru'(1) by (simp add: lru_inv_def)
  moreover have "x \<in> dom (cm_heap m')" if "x \<in> dom (cm_heap m)" "held x > 0 \<or> x \<noteq> e" for x
    using that unref(4) e by (auto simp: cache_cnt_def split: if_splits)
  moreover have "u = lc_usage c - freed held (cm_heap m) [e]"
    using unref(5) e c'(2) by (simp add: cache_cnt_def)
  ultimately show ?thesis
    using unref(1,3) by blast
qed

lemma lru_invD:
  assumes "lru_inv P held (m, c)"
  shows "list_inv P held (m, c)" "table_ok (cm_heap m) (lc_table c)" "ht_members (lc_table c) = set (lc_lru c)"
    "distinct (lc_lru c)" "set (lc_lru c) \<subseteq> owned P (cm_heap m)" "inj_on (ident (cm_heap m)) (set (lc_lru c))"
  using assms by (auto simp: lru_inv_def list_inv_def table_ok_def)

lemma lru_inv_live:
  assumes "lru_inv P held (m, c)" "e \<in> set (lc_lru c)"
  obtains h where "cm_heap m e = Some h" "P (h_hash h)" "ident (cm_heap m) e = (h_hash h, h_key h)"
  using lru_invD(5) [OF assms(1)] assms(2) by (fastforce simp: owned_def ident_def)

lemma distinct_filter_eq: "distinct xs \<Longrightarrow> e \<in> set xs \<Longrightarrow> filter (\<lambda>x. x = e) xs = [e]"
  by (induction xs) (auto simp: filter_empty_conv)

text \<open>The list without the entry of a given hash and key, and that entry.\<close>

definition without_key :: "handle_heap \<Rightarrow> u32 \<times> bytes \<Rightarrow> nat list \<Rightarrow> nat list" where
  "without_key H k xs = filter (\<lambda>x. ident H x \<noteq> k) xs"

lemma without_key_selects:
  assumes "distinct xs" "inj_on (ident H) (set xs)" "selects H (set xs) k r"
  shows "without_key H k xs = (case r of None \<Rightarrow> xs | Some e \<Rightarrow> remove1 e xs)"
proof (cases r)
  case None
  then show ?thesis
    using assms(3) by (simp add: without_key_def selects_def)
next
  case (Some e)
  then have e: "e \<in> set xs" "ident H e = k"
    using assms(3) by (simp_all add: selects_def)
  then have "x \<in> set xs \<Longrightarrow> (ident H x \<noteq> k) = (e \<noteq> x)" for x
    using assms(2) by (auto simp: inj_on_def)
  then show ?thesis
    using Some assms(1) by (simp add: without_key_def distinct_remove1_removeAll removeAll_filter_not_eq cong: filter_cong)
qed

definition with_key :: "handle_heap \<Rightarrow> u32 \<times> bytes \<Rightarrow> nat list \<Rightarrow> nat list" where
  "with_key H k xs = filter (\<lambda>x. ident H x = k) xs"

lemma with_key_selects:
  assumes "distinct xs" "inj_on (ident H) (set xs)" "selects H (set xs) k r"
  shows "with_key H k xs = (case r of None \<Rightarrow> [] | Some e \<Rightarrow> [e])"
proof (cases r)
  case None
  then show ?thesis
    using assms(3) by (auto simp: with_key_def selects_def filter_empty_conv)
next
  case (Some e)
  then have e: "e \<in> set xs" "ident H e = k"
    using assms(3) by (simp_all add: selects_def)
  then have "filter (\<lambda>x. ident H x = k) xs = filter (\<lambda>x. x = e) xs"
    using assms(2) by (intro filter_cong) (auto simp: inj_on_def)
  then show ?thesis
    using Some e(1) assms(1) by (simp add: with_key_def distinct_filter_eq)
qed

lemma cached_entry_removed:
  assumes inv: "lru_inv P held (m, c)" and e: "e \<in> set (lc_lru c)" "cm_heap m e = Some h"
  shows "\<exists>t'. HandleTable_Remove (cm_heap m) (lc_table c) (h_key h) (h_hash h) = Some (Some e, t') \<and>
           table_ok (cm_heap m) t' \<and> ht_members t' = set (lc_lru c) - {e}"
proof -
  obtain r t' where r: "HandleTable_Remove (cm_heap m) (lc_table c) (h_key h) (h_hash h) = Some (r, t')"
    "selects (cm_heap m) (set (lc_lru c)) (h_hash h, h_key h) r" "table_ok (cm_heap m) t'"
    "ht_members t' = set (lc_lru c) - set_option r"
    using HandleTable_Remove_spec [OF lru_invD(2) [OF inv], of "h_key h" "h_hash h"] lru_invD(3) [OF inv] by auto
  have "selects (cm_heap m) (set (lc_lru c)) (h_hash h, h_key h) (Some e)"
    using e by (simp add: selects_def ident_def)
  then have "r = Some e"
    using selects_unique [OF lru_invD(6) [OF inv] r(2)] by simp
  then show ?thesis
    using r by simp
qed

lemma evict_oldest_spec:
  assumes inv: "lru_inv P held (m, c)" and lru: "lc_lru c = e # es"
  shows "\<exists>s'. evict_oldest e (m, c) = Some s' \<and> lru_inv P held s' \<and> lc_lru (snd s') = es \<and>
           lc_capacity (snd s') = lc_capacity c \<and> evolves P (cm_heap m) (cm_heap (fst s')) \<and>
           lc_usage (snd s') = lc_usage c - freed held (cm_heap m) [e]"
proof -
  obtain h where h: "cm_heap m e = Some h"
    using lru_inv_live [OF inv, of e] lru by auto
  obtain t' where t': "HandleTable_Remove (cm_heap m) (lc_table c) (h_key h) (h_hash h) = Some (Some e, t')"
    "table_ok (cm_heap m) t'" "ht_members t' = set (lc_lru c) - {e}"
    using cached_entry_removed [OF inv _ h] lru by auto
  define c' where "c' = c\<lparr>lc_lru := es, lc_table := t'\<rparr>"
  obtain m' u where "LRU_Unref e (m, c') = Some (m', c'\<lparr>lc_usage := u\<rparr>)" "lru_inv P held (m', c'\<lparr>lc_usage := u\<rparr>)"
    "evolves P (cm_heap m) (cm_heap m')" "u = lc_usage c - freed held (cm_heap m) [e]"
    using unlink_spec [OF lru_invD(1) [OF inv], of e c'] t' lru by (auto simp: c'_def)
  moreover have "evict_oldest e (m, c) = LRU_Unref e (m, c')"
    using h t'(1) lru by (simp add: evict_oldest_def LRU_Remove_def c'_def Let_def)
  ultimately show ?thesis
    by (auto simp: c'_def)
qed

text \<open>The loop takes as many entries from the oldest end as needed and no more.\<close>

lemma evict_loop_spec:
  assumes "lru_inv P held (m, c)"
  shows "\<exists>s' n. evict_loop (m, c) = Some s' \<and> lru_inv P held s' \<and> n \<le> length (lc_lru c) \<and> lc_lru (snd s') = drop n (lc_lru c) \<and>
           lc_capacity (snd s') = lc_capacity c \<and> evolves P (cm_heap m) (cm_heap (fst s')) \<and>
           lc_usage (snd s') = lc_usage c - freed held (cm_heap m) (take n (lc_lru c)) \<and>
           (\<forall>i < n. lc_capacity c < lc_usage c - freed held (cm_heap m) (take i (lc_lru c))) \<and>
           (lc_usage (snd s') \<le> lc_capacity c \<or> lc_lru (snd s') = [])"
  using assms
proof (induction "lc_lru c" arbitrary: m c)
  case Nil
  then show ?case
    by (subst evict_loop.simps) auto
next
  case (Cons e es)
  show ?case
  proof (cases "lc_capacity c < lc_usage c")
    case False
    then show ?thesis
      using Cons.prems by (subst evict_loop.simps) (auto intro!: exI [of _ 0])
  next
    case True
    obtain m1 c1 where one: "evict_oldest e (m, c) = Some (m1, c1)" "lru_inv P held (m1, c1)" "lc_lru c1 = es"
      "lc_capacity c1 = lc_capacity c" "evolves P (cm_heap m) (cm_heap m1)" "lc_usage c1 = lc_usage c - freed held (cm_heap m) [e]"
      using evict_oldest_spec [OF Cons.prems Cons.hyps(2) [symmetric]] by (metis prod.collapse fst_conv snd_conv)
    obtain s' n where s': "evict_loop (m1, c1) = Some s'" "lru_inv P held s'" "n \<le> length es" "lc_lru (snd s') = drop n es"
      "lc_capacity (snd s') = lc_capacity c" "evolves P (cm_heap m1) (cm_heap (fst s'))"
      "lc_usage (snd s') = lc_usage c1 - freed held (cm_heap m1) (take n es)"
      "\<forall>i < n. lc_capacity c < lc_usage c1 - freed held (cm_heap m1) (take i es)"
      "lc_usage (snd s') \<le> lc_capacity c \<or> lc_lru (snd s') = []"
      using Cons.hyps(1) [OF one(3) [symmetric] one(2)] unfolding one(3,4) by blast
    have "set es \<subseteq> dom (cm_heap m1)"
      using lru_invD(5) [OF one(2)] one(3) by (auto simp: owned_iff)
    then have same: "lc_usage c1 - freed held (cm_heap m1) (take i es) = lc_usage c - freed held (cm_heap m) (take (Suc i) (e # es))" for i
      using freed_evolves [OF one(5), of "take i es"] set_take_subset [of i es] one(6) by (simp add: algebra_simps)
    have "\<forall>i < Suc n. lc_capacity c < lc_usage c - freed held (cm_heap m) (take i (e # es))"
      using s'(8) True unfolding same by (simp add: All_less_Suc2)
    moreover have "evict_loop (m, c) = Some s'"
      using True one(1) s'(1) Cons.hyps(2) by (subst evict_loop.simps) (simp flip: Cons.hyps(2))
    ultimately show ?thesis
      using s'(2-5,7,9) evolves_trans [OF one(5) s'(6)] unfolding same Cons.hyps(2) [symmetric]
      by (intro exI [of _ s'] exI [of _ "Suc n"]) simp
  qed
qed

lemma Lookup_spec:
  assumes inv: "lru_inv P held (m, c)" and few: "\<forall>e. held e < 2 ^ 32 - 2"
  shows "\<exists>r m' c'. LRUCache_Lookup key hash (m, c) = Some (r, m', c') \<and>
           selects (cm_heap m) (set (lc_lru c)) (hash, key) r \<and>
           lru_inv P (case r of None \<Rightarrow> held | Some e \<Rightarrow> held(e := held e + 1)) (m', c') \<and>
           lc_lru c' = (case r of None \<Rightarrow> lc_lru c | Some e \<Rightarrow> without_key (cm_heap m) (hash, key) (lc_lru c) @ [e]) \<and>
           lc_capacity c' = lc_capacity c \<and> lc_usage c' = lc_usage c \<and> evolves P (cm_heap m) (cm_heap m') \<and>
           dom (cm_heap m') = dom (cm_heap m)"
proof -
  let ?H = "cm_heap m"
  obtain r where r: "HandleTable_Lookup ?H (lc_table c) key hash = Some r"
    "selects ?H (set (lc_lru c)) (hash, key) r"
    using HandleTable_Lookup_spec [OF lru_invD(2) [OF inv], of key hash] lru_invD(3) [OF inv] by metis
  show ?thesis
  proof (cases r)
    case None
    then show ?thesis
      using r inv by (simp add: LRUCache_Lookup_def)
  next
    case (Some e)
    then have e: "e \<in> set (lc_lru c)"
      using r(2) by (simp add: selects_def)
    obtain h where h: "?H e = Some h" "P (h_hash h)"
      using lru_inv_live [OF inv e] by metis
    define H' where "H' = ?H(e \<mapsto> h\<lparr>h_refs := h_refs h + 1\<rparr>)"
    define lru' where "lru' = remove1 e (lc_lru c) @ [e]"
    have lru': "set lru' = set (lc_lru c)" "distinct lru'"
      using lru_invD(4) [OF inv] e by (auto simp: lru'_def)
    have evo: "evolves P ?H H'" "dom H' = dom ?H" "owned P H' = owned P ?H"
      using h by (auto simp: evolves_def H'_def owned_def)
    have charge: "(\<Sum>x \<in> owned P ?H. h_charge (the (H' x))) = (\<Sum>x \<in> owned P ?H. h_charge (the (?H x)))"
      using h by (intro sum.cong) (auto simp: H'_def)
    have old: "ref_inv P (cache_cnt held (lc_lru c)) ?H (lc_usage c)"
      using lru_invD(1) [OF inv] by (simp add: list_inv_def)
    have cnt: "cache_cnt (held(e := held e + 1)) lru' = (cache_cnt held (lc_lru c))(e := cache_cnt held (lc_lru c) e + 1)"
      by (auto simp: cache_cnt_def lru'(1) fun_eq_iff)
    have small: "cache_cnt held (lc_lru c) e + 1 < 2 ^ 32"
      using few [rule_format, of e] by (simp add: cache_cnt_def)
    have refs: "h_refs h = of_nat (cache_cnt held (lc_lru c) e)"
      using old h by (auto simp: ref_inv_def owned_def)
    have "ref_inv P (cache_cnt (held(e := held e + 1)) lru') H' (lc_usage c)"
      using old h small refs unfolding ref_inv_def evo(2,3) charge cnt
      by (auto simp: H'_def owned_iff)
    moreover have "table_ok H' (lc_table c)"
      using lru_invD(2) [OF inv]
      by (rule table_ok_heap) (use lru_invD(3,5) [OF inv] evo(2) evolves_entry(6) [OF evo(1)] in \<open>auto simp: owned_iff\<close>)
    ultimately have "lru_inv P (held(e := held e + 1)) (m\<lparr>cm_heap := H'\<rparr>, c\<lparr>lc_lru := lru'\<rparr>)"
      using lru' lru_invD(3,5) [OF inv] evo(3) by (simp add: lru_inv_def list_inv_def)
    moreover have "LRUCache_Lookup key hash (m, c) = Some (Some e, m\<lparr>cm_heap := H'\<rparr>, c\<lparr>lc_lru := lru'\<rparr>)"
      using r Some h by (simp add: LRUCache_Lookup_def LRU_Append_def LRU_Remove_def H'_def lru'_def)
    moreover have "lru' = without_key ?H (hash, key) (lc_lru c) @ [e]"
      using without_key_selects [OF lru_invD(4,6) [OF inv] r(2)] Some by (simp add: lru'_def)
    ultimately show ?thesis
      using r(2) Some evo by simp
  qed
qed

lemma Release_spec:
  assumes inv: "lru_inv P held (m, c)" and e: "e \<in> owned P (cm_heap m)" "held e > 0"
  shows "\<exists>m' c'. LRUCache_Release e (m, c) = Some (m', c') \<and> lru_inv P (held(e := held e - 1)) (m', c') \<and>
           lc_lru c' = lc_lru c \<and> lc_capacity c' = lc_capacity c \<and> evolves P (cm_heap m) (cm_heap m') \<and>
           cm_deleted m' = cm_deleted m @
             (if held e = 1 \<and> e \<notin> set (lc_lru c) then [(h_key (the (cm_heap m e)), h_value (the (cm_heap m e)))] else [])"
proof -
  have "ref_inv P (cache_cnt held (lc_lru c)) (cm_heap m) (lc_usage c)"
    using lru_invD(1) [OF inv] by (simp add: list_inv_def)
  from LRU_Unref_spec [OF this e(1)] obtain m' u where
    unref: "LRU_Unref e (m, c) = Some (m', c\<lparr>lc_usage := u\<rparr>)"
      "ref_inv P ((cache_cnt held (lc_lru c))(e := cache_cnt held (lc_lru c) e - 1)) (cm_heap m') u"
      "evolves P (cm_heap m) (cm_heap m')"
      "dom (cm_heap m') = (if cache_cnt held (lc_lru c) e = 1 then dom (cm_heap m) - {e} else dom (cm_heap m))"
      "cm_deleted m' = cm_deleted m @ (if cache_cnt held (lc_lru c) e = 1
         then [(h_key (the (cm_heap m e)), h_value (the (cm_heap m e)))] else [])"
    by blast
  have cnt: "(cache_cnt held (lc_lru c))(e := cache_cnt held (lc_lru c) e - 1) = cache_cnt (held(e := held e - 1)) (lc_lru c)"
    using e(2) by (auto simp: cache_cnt_def fun_eq_iff)
  have live: "x \<in> dom (cm_heap m') \<and> ident (cm_heap m') x = ident (cm_heap m) x" if "x \<in> set (lc_lru c)" for x
  proof -
    have "x \<in> dom (cm_heap m')"
      using that unref(4) lru_invD(5) [OF inv] e(2) by (auto simp: owned_def cache_cnt_def split: if_splits)
    then show ?thesis
      using evolves_entry(6) [OF unref(3)] by blast
  qed
  have "x \<in> owned P (cm_heap m')" if x: "x \<in> set (lc_lru c)" for x
    using live [OF x] x lru_invD(5) [OF inv] by (auto simp: owned_iff ident_def)
  then have "list_inv P (held(e := held e - 1)) (m', c\<lparr>lc_usage := u\<rparr>)"
    using unref(2) cnt lru_invD(4) [OF inv] by (auto simp: list_inv_def)
  moreover have "table_ok (cm_heap m') (lc_table c)"
    using lru_invD(2) [OF inv] by (rule table_ok_heap) (use lru_invD(3) [OF inv] live in auto)
  ultimately have "lru_inv P (held(e := held e - 1)) (m', c\<lparr>lc_usage := u\<rparr>)"
    using lru_invD(3) [OF inv] by (simp add: lru_inv_def)
  moreover have "cache_cnt held (lc_lru c) e = 1 \<longleftrightarrow> held e = 1 \<and> e \<notin> set (lc_lru c)"
    using e(2) by (simp add: cache_cnt_def)
  ultimately show ?thesis
    using unref(1,3,5) by (simp add: LRUCache_Release_def)
qed

lemma Erase_spec:
  assumes inv: "lru_inv P held (m, c)"
  shows "\<exists>m' c'. LRUCache_Erase key hash (m, c) = Some (m', c') \<and> lru_inv P held (m', c') \<and>
           lc_lru c' = without_key (cm_heap m) (hash, key) (lc_lru c) \<and> lc_capacity c' = lc_capacity c \<and>
           evolves P (cm_heap m) (cm_heap m')"
proof -
  obtain r t' where r: "HandleTable_Remove (cm_heap m) (lc_table c) key hash = Some (r, t')"
    "selects (cm_heap m) (set (lc_lru c)) (hash, key) r" "table_ok (cm_heap m) t'"
    "ht_members t' = set (lc_lru c) - set_option r"
    using HandleTable_Remove_spec [OF lru_invD(2) [OF inv], of key hash] lru_invD(3) [OF inv] by auto
  note rest = without_key_selects [OF lru_invD(4,6) [OF inv] r(2)]
  show ?thesis
  proof (cases r)
    case None
    then show ?thesis
      using r rest inv by (simp add: LRUCache_Erase_def lru_inv_def list_inv_def)
  next
    case (Some e)
    define c' where "c' = c\<lparr>lc_table := t', lc_lru := remove1 e (lc_lru c)\<rparr>"
    have "e \<in> set (lc_lru c)"
      using r(2) Some by (simp add: selects_def)
    then obtain m' u where "LRU_Unref e (m, c') = Some (m', c'\<lparr>lc_usage := u\<rparr>)"
      "lru_inv P held (m', c'\<lparr>lc_usage := u\<rparr>)" "evolves P (cm_heap m) (cm_heap m')"
      using unlink_spec [OF lru_invD(1) [OF inv], of e c'] r Some by (auto simp: c'_def)
    moreover have "LRUCache_Erase key hash (m, c) = LRU_Unref e (m, c')"
      using r(1) Some by (simp add: LRUCache_Erase_def LRU_Remove_def c'_def Let_def)
    ultimately show ?thesis
      using rest Some by (simp add: c'_def)
  qed
qed

lemma prune_entry_spec:
  assumes inv: "lru_inv P held (m, c)" and e: "e \<in> set (lc_lru c)"
  shows "\<exists>m' c'. prune_entry e (m, c) = Some (m', c') \<and> lru_inv P held (m', c') \<and>
           lc_lru c' = filter (\<lambda>x. x = e \<longrightarrow> held x > 0) (lc_lru c) \<and> lc_capacity c' = lc_capacity c \<and>
           evolves P (cm_heap m) (cm_heap m')"
proof -
  obtain h where h: "cm_heap m e = Some h" "P (h_hash h)"
    using lru_inv_live [OF inv e] by metis
  have cnt: "h_refs h = of_nat (Suc (held e))" "Suc (held e) < 2 ^ 32"
    using lru_invD(1) [OF inv] e h by (force simp: list_inv_def ref_inv_def owned_def cache_cnt_def)+
  have "unat (h_refs h) = Suc (held e)"
    unfolding cnt(1) by (rule unat_of_nat_small) (use cnt(2) in simp)
  then have one: "h_refs h = 1 \<longleftrightarrow> held e = 0"
    by (metis One_nat_def cnt(1) nat.inject of_nat_1 unsigned_1)
  show ?thesis
  proof (cases "held e = 0")
    case False
    moreover from this have "filter (\<lambda>x. x = e \<longrightarrow> held x > 0) (lc_lru c) = lc_lru c"
      by (auto simp: filter_id_conv)
    ultimately show ?thesis
      using h one inv by (simp add: prune_entry_def)
  next
    case True
    obtain t' where t': "HandleTable_Remove (cm_heap m) (lc_table c) (h_key h) (h_hash h) = Some (Some e, t')"
      "table_ok (cm_heap m) t'" "ht_members t' = set (lc_lru c) - {e}"
      using cached_entry_removed [OF inv e h(1)] by auto
    define c' where "c' = c\<lparr>lc_table := t', lc_lru := remove1 e (lc_lru c)\<rparr>"
    obtain m' u where "LRU_Unref e (m, c') = Some (m', c'\<lparr>lc_usage := u\<rparr>)"
      "lru_inv P held (m', c'\<lparr>lc_usage := u\<rparr>)" "evolves P (cm_heap m) (cm_heap m')"
      using unlink_spec [OF lru_invD(1) [OF inv] e, of c'] t' by (auto simp: c'_def)
    moreover have "prune_entry e (m, c) = LRU_Unref e (m, c')"
      using h t'(1) True one by (simp add: prune_entry_def LRU_Remove_def c'_def)
    moreover have "remove1 e (lc_lru c) = filter (\<lambda>x. x = e \<longrightarrow> held x > 0) (lc_lru c)"
      using lru_invD(4) [OF inv] True
      by (simp add: distinct_remove1_removeAll removeAll_filter_not_eq) (rule filter_cong, auto)
    ultimately show ?thesis
      by (simp add: c'_def)
  qed
qed

lemma prune_loop_spec:
  assumes "lru_inv P held (m, c)" "set es \<subseteq> set (lc_lru c)" "distinct es"
  shows "\<exists>m' c'. prune_loop es (m, c) = Some (m', c') \<and> lru_inv P held (m', c') \<and>
           lc_lru c' = filter (\<lambda>x. x \<in> set es \<longrightarrow> held x > 0) (lc_lru c) \<and> lc_capacity c' = lc_capacity c \<and>
           evolves P (cm_heap m) (cm_heap m')"
  using assms
proof (induction es arbitrary: m c)
  case (Cons e es)
  obtain m1 c1 where one: "prune_entry e (m, c) = Some (m1, c1)" "lru_inv P held (m1, c1)"
    "lc_lru c1 = filter (\<lambda>x. x = e \<longrightarrow> held x > 0) (lc_lru c)" "lc_capacity c1 = lc_capacity c"
    "evolves P (cm_heap m) (cm_heap m1)"
    using prune_entry_spec [OF Cons.prems(1), of e] Cons.prems(2) by auto
  obtain m' c' where rest: "prune_loop es (m1, c1) = Some (m', c')" "lru_inv P held (m', c')"
    "lc_lru c' = filter (\<lambda>x. x \<in> set es \<longrightarrow> held x > 0) (lc_lru c1)" "lc_capacity c' = lc_capacity c1"
    "evolves P (cm_heap m1) (cm_heap m')"
    using Cons.IH [OF one(2)] Cons.prems one(3) by auto
  have "lc_lru c' = filter (\<lambda>x. x \<in> set (e # es) \<longrightarrow> held x > 0) (lc_lru c)"
    unfolding rest(3) one(3) filter_filter by (rule filter_cong) auto
  then show ?case
    using one rest evolves_trans [OF one(5) rest(5)] by simp
qed simp

lemma Prune_spec:
  assumes "lru_inv P held (m, c)"
  shows "\<exists>m' c'. LRUCache_Prune (m, c) = Some (m', c') \<and> lru_inv P held (m', c') \<and>
           lc_lru c' = filter (\<lambda>x. held x > 0) (lc_lru c) \<and> lc_capacity c' = lc_capacity c \<and>
           evolves P (cm_heap m) (cm_heap m')"
proof -
  have "filter (\<lambda>x. x \<in> set (lc_lru c) \<longrightarrow> held x > 0) (lc_lru c) = filter (\<lambda>x. held x > 0) (lc_lru c)"
    by (rule filter_cong) auto
  then show ?thesis
    using prune_loop_spec [OF assms order_refl lru_invD(4) [OF assms]] by (simp add: LRUCache_Prune_def)
qed

text \<open>The first half of \<open>Insert\<close>: the new entry is linked and replaces the old one of the same key.\<close>

lemma insert_linked:
  fixes key :: bytes and v :: nat and charge :: u64 and hash :: u32
  assumes inv: "lru_inv P held (m, c)" and fresh: "cm_heap m e = None" and P: "P hash"
  defines "h \<equiv> \<lparr>h_value = v, h_charge = charge, h_refs = 2, h_hash = hash, h_key = key\<rparr>"
  shows "held e = 0" "e \<notin> set (lc_lru c)"
    "list_inv P (held(e := 1)) (m\<lparr>cm_heap := (cm_heap m)(e \<mapsto> h)\<rparr>,
       c\<lparr>lc_lru := lc_lru c @ [e], lc_usage := lc_usage c + charge, lc_table := t\<rparr>)"
    "table_ok ((cm_heap m)(e \<mapsto> h)) (lc_table c)"
proof -
  let ?H = "cm_heap m"
  have old: "ref_inv P (cache_cnt held (lc_lru c)) ?H (lc_usage c)"
    using lru_invD(1) [OF inv] by (simp add: list_inv_def)
  have "\<not> 0 < cache_cnt held (lc_lru c) e"
    using old fresh by (auto simp: ref_inv_def)
  then show e: "held e = 0" "e \<notin> set (lc_lru c)"
    by (auto simp: cache_cnt_def split: if_splits)
  have cnt: "cache_cnt (held(e := 1)) (lc_lru c @ [e]) = (cache_cnt held (lc_lru c))(e := 2)"
    using e by (auto simp: cache_cnt_def fun_eq_iff)
  have own: "owned P (?H(e \<mapsto> h)) = insert e (owned P ?H)" "e \<notin> owned P ?H"
    using fresh P by (auto simp: owned_def h_def)
  have "(\<Sum>x \<in> owned P ?H. h_charge (the ((?H(e \<mapsto> h)) x))) = (\<Sum>x \<in> owned P ?H. h_charge (the (?H x)))"
    using own(2) by (intro sum.cong) auto
  then have "ref_inv P (cache_cnt (held(e := 1)) (lc_lru c @ [e])) (?H(e \<mapsto> h)) (lc_usage c + charge)"
    using old own unfolding cnt ref_inv_def own(1) by (auto simp: h_def add.commute)
  then show "list_inv P (held(e := 1)) (m\<lparr>cm_heap := ?H(e \<mapsto> h)\<rparr>,
      c\<lparr>lc_lru := lc_lru c @ [e], lc_usage := lc_usage c + charge, lc_table := t\<rparr>)"
    using lru_invD(4,5) [OF inv] e own by (auto simp: list_inv_def)
  show "table_ok (?H(e \<mapsto> h)) (lc_table c)"
    using lru_invD(2) [OF inv]
    by (rule table_ok_heap) (use lru_invD(3,5) [OF inv] e in \<open>auto simp: owned_iff ident_def\<close>)
qed

lemma Insert_spec:
  fixes key :: bytes and v :: nat and charge :: u64 and hash :: u32
  assumes inv: "lru_inv P held (m, c)" and fresh: "cm_heap m e = None" and P: "P hash"
    and few: "length (lc_lru c) < 2 ^ 31"
  defines "H1 \<equiv> (cm_heap m)(e \<mapsto> \<lparr>h_value = v, h_charge = charge, h_refs = 2, h_hash = hash, h_key = key\<rparr>)"
  defines "L \<equiv> without_key (cm_heap m) (hash, key) (lc_lru c) @ [e]"
  defines "U \<equiv> \<lambda>i. lc_usage c + charge - freed (held(e := 1)) (cm_heap m) (with_key (cm_heap m) (hash, key) (lc_lru c) @ take i L)"
  shows "\<exists>m' c' n. LRUCache_Insert e key hash v charge (m, c) = Some (e, m', c') \<and>
           lru_inv P (held(e := held e + 1)) (m', c') \<and>
           n \<le> length L \<and> lc_lru c' = drop n L \<and> lc_usage c' = U n \<and> (\<forall>i < n. lc_capacity c < U i) \<and>
           lc_capacity c' = lc_capacity c \<and> (lc_usage c' \<le> lc_capacity c \<or> lc_lru c' = []) \<and> evolves P H1 (cm_heap m')"
proof -
  let ?m1 = "m\<lparr>cm_heap := H1\<rparr>"
  note new = insert_linked(1,2) [OF inv fresh P]
  note linked = insert_linked(3,4) [OF inv fresh P, where key = key and v = v and charge = charge, folded H1_def]
  have e1: "H1 e \<noteq> None" "ident H1 e = (hash, key)"
    by (auto simp: H1_def ident_def)
  have same: "ident H1 x = ident (cm_heap m) x" if "x \<in> set (lc_lru c)" for x
    using that new(2) by (auto simp: H1_def ident_def)
  have "card (ht_members (lc_table c)) < 2 ^ 31"
    using few lru_invD(3,4) [OF inv] by (simp add: distinct_card)
  then obtain old t' where t': "HandleTable_Insert H1 (lc_table c) e = Some (old, t')"
    "selects H1 (set (lc_lru c)) (hash, key) old" "table_ok H1 t'"
    "ht_members t' = insert e (set (lc_lru c) - set_option old)"
    using HandleTable_Insert_spec [OF linked(2), of e] e1 new(2) lru_invD(3) [OF inv] by auto
  have sel: "selects (cm_heap m) (set (lc_lru c)) (hash, key) old"
    using t'(2) same by (auto simp: selects_def split: option.splits)
  note rest = without_key_selects [OF lru_invD(4,6) [OF inv] sel] with_key_selects [OF lru_invD(4,6) [OF inv] sel]
  define c1 where "c1 = c\<lparr>lc_lru := lc_lru c @ [e], lc_usage := lc_usage c + charge, lc_table := t'\<rparr>"
  have li: "list_inv P (held(e := 1)) (?m1, c1)"
    unfolding c1_def by (rule linked(1))
  have "\<exists>m2 c2. (case old of None \<Rightarrow> Some (?m1, c1) | Some old \<Rightarrow> LRU_Unref old (?m1, LRU_Remove old c1)) = Some (m2, c2) \<and>
          lru_inv P (held(e := 1)) (m2, c2) \<and> lc_lru c2 = without_key (cm_heap m) (hash, key) (lc_lru c) @ [e] \<and>
          lc_capacity c2 = lc_capacity c \<and> evolves P H1 (cm_heap m2) \<and>
          lc_usage c2 = lc_usage c + charge - freed (held(e := 1)) H1 (with_key (cm_heap m) (hash, key) (lc_lru c))"
  proof (cases old)
    case None
    then show ?thesis
      using li t' rest by (simp add: lru_inv_def c1_def)
  next
    case (Some x)
    then have x: "x \<in> set (lc_lru c)" "x \<noteq> e"
      using t'(2) new(2) by (auto simp: selects_def)
    define c2 where "c2 = LRU_Remove x c1"
    have "\<exists>m' u. LRU_Unref x (?m1, c2) = Some (m', c2\<lparr>lc_usage := u\<rparr>) \<and>
        lru_inv P (held(e := 1)) (m', c2\<lparr>lc_usage := u\<rparr>) \<and> evolves P (cm_heap ?m1) (cm_heap m') \<and>
        u = lc_usage c1 - freed (held(e := 1)) (cm_heap ?m1) [x] \<and>
        (\<forall>y. y \<in> dom (cm_heap ?m1) \<and> ((held(e := 1)) y > 0 \<or> y \<noteq> x) \<longrightarrow> y \<in> dom (cm_heap m'))"
      by (rule unlink_spec [OF li]) (use t' x Some in \<open>auto simp: c1_def c2_def LRU_Remove_def\<close>)
    then show ?thesis
      using Some rest x by (auto simp: c2_def c1_def LRU_Remove_def remove1_append)
  qed
  then obtain m2 c2 where two: "(case old of None \<Rightarrow> Some (?m1, c1) | Some old \<Rightarrow> LRU_Unref old (?m1, LRU_Remove old c1)) = Some (m2, c2)"
    "lru_inv P (held(e := 1)) (m2, c2)" "lc_lru c2 = without_key (cm_heap m) (hash, key) (lc_lru c) @ [e]"
    "lc_capacity c2 = lc_capacity c" "evolves P H1 (cm_heap m2)"
    "lc_usage c2 = lc_usage c + charge - freed (held(e := 1)) H1 (with_key (cm_heap m) (hash, key) (lc_lru c))"
    by blast
  have L: "lc_lru c2 = L"
    using two(3) by (simp add: L_def)
  obtain m' c' n where three: "evict_loop (m2, c2) = Some (m', c')" "lru_inv P (held(e := 1)) (m', c')"
    "n \<le> length L" "lc_lru c' = drop n L" "lc_capacity c' = lc_capacity c" "evolves P (cm_heap m2) (cm_heap m')"
    "lc_usage c' = lc_usage c2 - freed (held(e := 1)) (cm_heap m2) (take n L)"
    "\<forall>i < n. lc_capacity c < lc_usage c2 - freed (held(e := 1)) (cm_heap m2) (take i L)"
    "lc_usage c' \<le> lc_capacity c \<or> lc_lru c' = []"
    using evict_loop_spec [OF two(2)] unfolding two(4) L by (metis prod.collapse fst_conv snd_conv)
  have "set L \<subseteq> dom (cm_heap m2)"
    using lru_invD(5) [OF two(2)] L by (auto simp: owned_iff)
  then have "freed (held(e := 1)) (cm_heap m2) (take i L) = freed (held(e := 1)) H1 (take i L)" for i
    using freed_evolves [OF two(5), of "take i L"] set_take_subset [of i L] by simp
  moreover have "freed (held(e := 1)) H1 xs = freed (held(e := 1)) (cm_heap m) xs" for xs
    by (rule freed_cong) (auto simp: H1_def split: if_splits)
  ultimately have U: "lc_usage c2 - freed (held(e := 1)) (cm_heap m2) (take i L) = U i" for i
    using two(6) by (simp add: U_def algebra_simps)
  have "LRUCache_Insert e key hash v charge (m, c) = Some (e, m', c')"
    using t'(1) two(1) three(1) by (simp add: LRUCache_Insert_def LRU_Append_def H1_def c1_def Let_def cong: option.case_cong)
  then show ?thesis
    using three(2-5,7-9) new(1) evolves_trans [OF two(5) three(6)] unfolding U by auto
qed

lemma LRUCache_new_spec:
  "\<exists>c. LRUCache_new Map.empty = Some c \<and> lc_lru c = [] \<and>
     (\<forall>P cap ds. lru_inv P (\<lambda>_. 0) (\<lparr>cm_heap = Map.empty, cm_deleted = ds\<rparr>, SetCapacity cap c))"
  using HandleTable_new_ok [of Map.empty]
  by (auto simp: LRUCache_new_def SetCapacity_def lru_inv_def list_inv_def ref_inv_def cache_cnt_def owned_def)

end
