(* ===== verification/Sharded_Cache.thy ===== *)
theory Sharded_Cache
  imports LRU_Cache
begin

text \<open>
  The sharded cache (\<open>ShardedLRUCache\<close> of \<open>util/cache.cc\<close>): sixteen shards over one heap of handles, a
  key going to the shard its hash selects. The properties are about the cache in use by clients that
  insert, look up, release and erase.
\<close>

unbundle bit_operations_syntax

section \<open>The shards\<close>

definition kNumShardBits :: nat where
  "kNumShardBits = 4"

definition kNumShards :: nat where
  "kNumShards = push_bit kNumShardBits 1"

record ShardedLRUCache =
  sc_shards :: "LRUCache list"
  sc_last_id :: u64

type_synonym sharded_state = "cache_mem \<times> ShardedLRUCache"

definition HashSlice :: "bytes \<Rightarrow> u32" where
  "HashSlice s = Hash s 0"

definition Shard :: "u32 \<Rightarrow> u32" where
  "Shard hash = drop_bit (32 - kNumShardBits) hash"

definition ShardedLRUCache_new :: "handle_heap \<Rightarrow> u64 \<Rightarrow> ShardedLRUCache option" where
  "ShardedLRUCache_new H capacity =
     (let per_shard = (capacity + of_nat (kNumShards - 1)) div of_nat kNumShards
      in map_option (\<lambda>c. \<lparr>sc_shards = replicate kNumShards (SetCapacity per_shard c), sc_last_id = 0\<rparr>)
           (LRUCache_new H))"

text \<open>A call of a method of shard \<open>i\<close>.\<close>

definition put_shard :: "nat \<Rightarrow> ShardedLRUCache \<Rightarrow> lru_state \<Rightarrow> sharded_state" where
  "put_shard i sc s = (fst s, sc\<lparr>sc_shards := (sc_shards sc)[i := snd s]\<rparr>)"

definition Sharded_Insert ::
  "nat \<Rightarrow> bytes \<Rightarrow> nat \<Rightarrow> u64 \<Rightarrow> sharded_state \<Rightarrow> (nat \<times> sharded_state) option" where
  "Sharded_Insert e key value charge s =
     (let hash = HashSlice key; i = unat (Shard hash)
      in map_option (\<lambda>(h, s'). (h, put_shard i (snd s) s'))
           (LRUCache_Insert e key hash value charge (fst s, sc_shards (snd s) ! i)))"

definition Sharded_Lookup :: "bytes \<Rightarrow> sharded_state \<Rightarrow> (nat option \<times> sharded_state) option" where
  "Sharded_Lookup key s =
     (let hash = HashSlice key; i = unat (Shard hash)
      in map_option (\<lambda>(h, s'). (h, put_shard i (snd s) s'))
           (LRUCache_Lookup key hash (fst s, sc_shards (snd s) ! i)))"

definition Sharded_Release :: "nat \<Rightarrow> sharded_state \<Rightarrow> sharded_state option" where
  "Sharded_Release handle s =
     do { h \<leftarrow> cm_heap (fst s) handle;
          let i = unat (Shard (h_hash h));
          map_option (put_shard i (snd s)) (LRUCache_Release handle (fst s, sc_shards (snd s) ! i)) }"

definition Sharded_Erase :: "bytes \<Rightarrow> sharded_state \<Rightarrow> sharded_state option" where
  "Sharded_Erase key s =
     (let hash = HashSlice key; i = unat (Shard hash)
      in map_option (put_shard i (snd s)) (LRUCache_Erase key hash (fst s, sc_shards (snd s) ! i)))"

definition Sharded_Value :: "nat \<Rightarrow> sharded_state \<Rightarrow> nat option" where
  "Sharded_Value handle s = map_option h_value (cm_heap (fst s) handle)"

definition NewId :: "ShardedLRUCache \<Rightarrow> u64 \<times> ShardedLRUCache" where
  "NewId sc = (let i = sc_last_id sc + 1 in (i, sc\<lparr>sc_last_id := i\<rparr>))"

fun prune_shards :: "nat list \<Rightarrow> sharded_state \<Rightarrow> sharded_state option" where
  "prune_shards [] s = Some s"
| "prune_shards (i # is) s =
     do { s' \<leftarrow> LRUCache_Prune (fst s, sc_shards (snd s) ! i); prune_shards is (put_shard i (snd s) s') }"

definition Sharded_Prune :: "sharded_state \<Rightarrow> sharded_state option" where
  "Sharded_Prune s = prune_shards [0..<kNumShards] s"

definition TotalCharge :: "LRUCache \<Rightarrow> u64" where
  "TotalCharge c = lc_usage c"

definition Sharded_TotalCharge :: "sharded_state \<Rightarrow> u64" where
  "Sharded_TotalCharge s = foldl (\<lambda>total i. total + TotalCharge (sc_shards (snd s) ! i)) 0 [0..<kNumShards]"

section \<open>All shards\<close>

definition in_shard :: "nat \<Rightarrow> u32 \<Rightarrow> bool" where
  "in_shard i hash \<longleftrightarrow> unat (Shard hash) = i"

lemma Shard_less: "unat (Shard hash) < kNumShards"
proof -
  have "unat hash < 2 ^ LENGTH(32)"
    by (rule unsigned_less)
  then show ?thesis
    by (simp add: Shard_def kNumShards_def kNumShardBits_def unat_drop_bit_div push_bit_eq_mult less_mult_imp_div_less)
qed

definition shard_inv :: "(nat \<Rightarrow> nat) \<Rightarrow> sharded_state \<Rightarrow> bool" where
  "shard_inv held s \<longleftrightarrow>
     length (sc_shards (snd s)) = kNumShards \<and>
     (\<forall>i < kNumShards. lru_inv (in_shard i) held (fst s, sc_shards (snd s) ! i)) \<and>
     (\<forall>e h. cm_heap (fst s) e = Some h \<longrightarrow> h_hash h = HashSlice (h_key h))"

definition shard_change :: "(u32 \<Rightarrow> bool) \<Rightarrow> handle_heap \<Rightarrow> handle_heap \<Rightarrow> bool" where
  "shard_change P H H' \<longleftrightarrow>
     (\<forall>x. x \<notin> owned P H \<union> owned P H' \<longrightarrow> H' x = H x) \<and>
     (\<forall>x \<in> owned P H. x \<in> dom H' \<longrightarrow> x \<in> owned P H') \<and>
     (\<forall>x \<in> owned P H'. x \<in> owned P H \<or> H x = None)"

lemma evolves_change:
  assumes "evolves P H H'"
  shows "shard_change P H H'"
proof -
  have "x \<in> owned P H'" if "x \<in> owned P H" "x \<in> dom H'" for x
    using that evolves_entry(4) [OF assms that(2)] by (simp add: owned_iff)
  then show ?thesis
    using assms owned_evolves [OF assms] by (auto simp: shard_change_def evolves_def)
qed

lemma evolves_change_new:
  assumes evo: "evolves P (H(e \<mapsto> h)) H'" and fresh: "H e = None" and P: "P (h_hash h)"
  shows "shard_change P H H'"
proof -
  have own: "owned P (H(e \<mapsto> h)) = insert e (owned P H)" "e \<notin> owned P H"
    using fresh P by (auto simp: owned_def)
  have step: "shard_change P (H(e \<mapsto> h)) H'"
    using evo by (rule evolves_change)
  have "H' x = H x" if x: "x \<notin> owned P H \<union> owned P H'" for x
  proof (cases "x = e")
    case True
    have "e \<in> dom H' \<longrightarrow> e \<in> owned P H'"
      using step own(1) by (simp add: shard_change_def)
    then show ?thesis
      using True x fresh by (auto simp: domIff)
  next
    case False
    then have "H' x = (H(e \<mapsto> h)) x"
      using step x own(1) unfolding shard_change_def by blast
    then show ?thesis
      using False by simp
  qed
  moreover have "x \<in> owned P H'" if "x \<in> owned P H" "x \<in> dom H'" for x
    using step that own(1) by (simp add: shard_change_def)
  moreover have "x \<in> owned P H \<or> H x = None" if "x \<in> owned P H'" for x
    using owned_evolves [OF evo that] own(1) fresh by auto
  ultimately show ?thesis
    by (simp add: shard_change_def)
qed

lemma other_shard_owned:
  assumes "shard_change (in_shard i) H H'" "i \<noteq> j"
  shows "owned (in_shard j) H' = owned (in_shard j) H" "x \<in> owned (in_shard j) H \<Longrightarrow> H' x = H x"
proof -
  have disj: "x \<notin> owned (in_shard i) G" if "x \<in> owned (in_shard j) G" for x G
    using that assms(2) by (auto simp: owned_iff in_shard_def)
  have 1: "H' x = H x" if x: "x \<in> owned (in_shard j) H" for x
  proof -
    have "H x \<noteq> None"
      using x by (auto simp: owned_iff)
    then have "x \<notin> owned (in_shard i) H'"
      using assms(1) disj [OF x] unfolding shard_change_def by metis
    then show ?thesis
      using assms(1) disj [OF x] by (simp add: shard_change_def)
  qed
  have 2: "H' x = H x" if x: "x \<in> owned (in_shard j) H'" for x
  proof -
    have "x \<in> dom H'"
      using x by (simp add: owned_iff)
    then have "x \<notin> owned (in_shard i) H"
      using assms(1) disj [OF x] unfolding shard_change_def by metis
    then show ?thesis
      using assms(1) disj [OF x] by (simp add: shard_change_def)
  qed
  show "owned (in_shard j) H' = owned (in_shard j) H"
  proof (rule set_eqI)
    fix x
    show "x \<in> owned (in_shard j) H' \<longleftrightarrow> x \<in> owned (in_shard j) H"
      using 1 [of x] 2 [of x] by (metis domIff owned_iff)
  qed
  show "x \<in> owned (in_shard j) H \<Longrightarrow> H' x = H x"
    by (rule 1)
qed

lemma lru_inv_frame:
  assumes inv: "lru_inv P held (m, c)" and own: "owned P (cm_heap m') = owned P (cm_heap m)"
    and same: "\<And>x. x \<in> owned P (cm_heap m) \<Longrightarrow> cm_heap m' x = cm_heap m x \<and> held' x = held x"
    and live: "\<And>x. 0 < held' x \<Longrightarrow> x \<in> dom (cm_heap m')"
  shows "lru_inv P held' (m', c)"
proof -
  have lru: "x \<in> owned P (cm_heap m)" if "x \<in> set (lc_lru c)" for x
    using that lru_invD(5) [OF inv] by auto
  have ri: "ref_inv P (cache_cnt held (lc_lru c)) (cm_heap m) (lc_usage c)"
    using lru_invD(1) [OF inv] by (simp add: list_inv_def)
  have "(\<Sum>e \<in> owned P (cm_heap m). h_charge (the (cm_heap m' e))) = (\<Sum>e \<in> owned P (cm_heap m). h_charge (the (cm_heap m e)))"
    using same by (intro sum.cong) auto
  moreover have "e \<in> dom (cm_heap m')" if "0 < cache_cnt held' (lc_lru c) e" for e
    using that live [of e] lru [of e] same [of e] by (auto simp: cache_cnt_def owned_iff split: if_splits)
  moreover have "0 < cache_cnt held' (lc_lru c) e \<and> cache_cnt held' (lc_lru c) e < 2 ^ 32 \<and>
      h_refs (the (cm_heap m' e)) = of_nat (cache_cnt held' (lc_lru c) e)" if "e \<in> owned P (cm_heap m)" for e
    using that ri same [OF that] by (auto simp: ref_inv_def cache_cnt_def split: if_splits)
  ultimately have "ref_inv P (cache_cnt held' (lc_lru c)) (cm_heap m') (lc_usage c)"
    using ri unfolding ref_inv_def own by simp
  moreover have "table_ok (cm_heap m') (lc_table c)"
    using lru_invD(2) [OF inv]
    by (rule table_ok_heap) (use lru_invD(3) [OF inv] lru same in \<open>auto simp: ident_def owned_iff domIff\<close>)
  ultimately show ?thesis
    using lru_invD(3,4,5) [OF inv] own by (simp add: lru_inv_def list_inv_def)
qed

lemma shard_inv_update:
  assumes inv: "shard_inv held (m, sc)" and i: "i < kNumShards" and new: "lru_inv (in_shard i) held' (m', c')"
    and change: "shard_change (in_shard i) (cm_heap m) (cm_heap m')"
    and held: "\<And>x. x \<notin> owned (in_shard i) (cm_heap m) \<union> owned (in_shard i) (cm_heap m') \<Longrightarrow> held' x = held x"
    and hash: "\<And>x. x \<in> owned (in_shard i) (cm_heap m') \<Longrightarrow>
      h_hash (the (cm_heap m' x)) = HashSlice (h_key (the (cm_heap m' x)))"
  shows "shard_inv held' (put_shard i sc (m', c'))"
proof -
  have live: "x \<in> dom (cm_heap m')" if "0 < held' x" for x
    using that lru_invD(1) [OF new] by (auto simp: list_inv_def ref_inv_def cache_cnt_def)
  have "lru_inv (in_shard j) held' (m', sc_shards sc ! j)" if j: "j < kNumShards" "i \<noteq> j" for j
  proof (rule lru_inv_frame)
    show "lru_inv (in_shard j) held (m, sc_shards sc ! j)"
      using inv j(1) by (simp add: shard_inv_def)
    show "owned (in_shard j) (cm_heap m') = owned (in_shard j) (cm_heap m)"
      by (rule other_shard_owned(1) [OF change j(2)])
    fix x
    assume x: "x \<in> owned (in_shard j) (cm_heap m)"
    then have "x \<notin> owned (in_shard i) (cm_heap m)" "x \<notin> owned (in_shard i) (cm_heap m')"
      using other_shard_owned(1) [OF change j(2)] j(2) by (auto simp: owned_iff in_shard_def set_eq_iff)
    then show "cm_heap m' x = cm_heap m x \<and> held' x = held x"
      using other_shard_owned(2) [OF change j(2) x] held by simp
  qed (rule live)
  moreover have "h_hash h = HashSlice (h_key h)" if h: "cm_heap m' e = Some h" for e h
  proof (cases "e \<in> owned (in_shard i) (cm_heap m')")
    case True
    then show ?thesis
      using hash [OF True] h by simp
  next
    case False
    then have "e \<notin> owned (in_shard i) (cm_heap m)"
      using change h by (auto simp: shard_change_def)
    then show ?thesis
      using False change h inv by (auto simp: shard_change_def shard_inv_def)
  qed
  ultimately show ?thesis
    using inv i new by (auto simp: shard_inv_def put_shard_def nth_list_update)
qed

text \<open>What the cache holds: the key and value of every entry on a list.\<close>

definition entry_of :: "handle_heap \<Rightarrow> nat \<Rightarrow> bytes \<times> nat" where
  "entry_of H e = (h_key (the (H e)), h_value (the (H e)))"

definition entries :: "sharded_state \<Rightarrow> (bytes \<times> nat) set" where
  "entries s = (\<Union>i < kNumShards. entry_of (cm_heap (fst s)) ` set (lc_lru (sc_shards (snd s) ! i)))"

abbreviation shard_index :: "bytes \<Rightarrow> nat" where
  "shard_index key \<equiv> unat (Shard (HashSlice key))"

lemma shard_invD:
  assumes "shard_inv held (m, sc)" "i < kNumShards"
  shows "lru_inv (in_shard i) held (m, sc_shards sc ! i)" "length (sc_shards sc) = kNumShards"
    "cm_heap m e = Some h \<Longrightarrow> h_hash h = HashSlice (h_key h)"
  using assms by (auto simp: shard_inv_def)

lemma entries_update:
  assumes inv: "shard_inv held (m, sc)" and i: "i < kNumShards"
    and change: "shard_change (in_shard i) (cm_heap m) (cm_heap m')"
    and new: "\<And>e. e \<in> set (lc_lru c') \<Longrightarrow> entry_of (cm_heap m') e \<in> X"
    and x: "x \<in> entries (put_shard i sc (m', c'))"
  shows "x \<in> X \<or> x \<in> entries (m, sc) \<and> shard_index (fst x) \<noteq> i"
proof -
  from x obtain j e where j: "j < kNumShards" "e \<in> set (lc_lru ((sc_shards sc)[i := c'] ! j))"
    "x = entry_of (cm_heap m') e"
    by (auto simp: entries_def put_shard_def)
  show ?thesis
  proof (cases "j = i")
    case True
    then show ?thesis
      using j new shard_invD(2) [OF inv i] i by simp
  next
    case False
    then have e: "e \<in> set (lc_lru (sc_shards sc ! j))"
      using j(2) by simp
    then have own: "e \<in> owned (in_shard j) (cm_heap m)"
      using lru_invD(5) [OF shard_invD(1) [OF inv j(1)]] by auto
    have "cm_heap m' e = cm_heap m e"
      by (rule other_shard_owned(2) [OF change _ own]) (use False in simp)
    then have "x = entry_of (cm_heap m) e"
      using j(3) by (simp add: entry_of_def)
    moreover have "shard_index (fst (entry_of (cm_heap m) e)) = j"
      using own shard_invD(3) [OF inv i] by (auto simp: owned_def entry_of_def in_shard_def)
    ultimately show ?thesis
      using e j(1) False by (auto simp: entries_def)
  qed
qed

text \<open>How an operation of the shard that owns \<open>key\<close> shows in the whole cache.\<close>

lemma shard_op:
  assumes inv: "shard_inv held (m, sc)" and i: "i < kNumShards"
    and new: "lru_inv (in_shard i) held' (m', c')" "evolves (in_shard i) (cm_heap m) (cm_heap m')"
    and held: "\<forall>x. held' x \<noteq> held x \<longrightarrow> x \<in> owned (in_shard i) (cm_heap m)"
    and lru: "set (lc_lru c') \<subseteq> set (lc_lru (sc_shards sc ! i))"
  shows "shard_inv held' (put_shard i sc (m', c'))"
    and "entries (put_shard i sc (m', c')) \<subseteq> entries (m, sc)"
    and "\<And>x. x \<in> dom (cm_heap m') \<Longrightarrow> h_value (the (cm_heap m' x)) = h_value (the (cm_heap m x))"
proof -
  have dom: "x \<in> dom (cm_heap m')" if "x \<in> set (lc_lru c')" for x
    using that lru_invD(5) [OF new(1)] by (auto simp: owned_iff)
  show "shard_inv held' (put_shard i sc (m', c'))"
    using inv i new(1) evolves_change [OF new(2)]
  proof (rule shard_inv_update)
    show "h_hash (the (cm_heap m' x)) = HashSlice (h_key (the (cm_heap m' x)))"
      if "x \<in> owned (in_shard i) (cm_heap m')" for x
      using that evolves_entry(1,4,5) [OF new(2), of x] shard_invD(3) [OF inv i] by (auto simp: owned_iff)
  qed (use held in auto)
  show "entries (put_shard i sc (m', c')) \<subseteq> entries (m, sc)"
  proof
    fix x
    assume x: "x \<in> entries (put_shard i sc (m', c'))"
    have "entry_of (cm_heap m') e \<in> entries (m, sc)" if "e \<in> set (lc_lru c')" for e
      using that dom [OF that] evolves_entry(2,5) [OF new(2) dom [OF that]] lru i
      by (auto simp: entries_def entry_of_def intro!: bexI [of _ i])
    from entries_update [OF inv i evolves_change [OF new(2)] this x] show "x \<in> entries (m, sc)"
      by blast
  qed
  show "h_value (the (cm_heap m' x)) = h_value (the (cm_heap m x))" if "x \<in> dom (cm_heap m')" for x
    using that by (rule evolves_entry(2) [OF new(2)])
qed

lemma Sharded_Lookup_ok:
  assumes inv: "shard_inv held (m, sc)" and few: "\<forall>e. held e < 2 ^ 32 - 2"
  shows "\<exists>r m' sc'. Sharded_Lookup key (m, sc) = Some (r, m', sc') \<and>
           shard_inv (case r of None \<Rightarrow> held | Some e \<Rightarrow> held(e := held e + 1)) (m', sc') \<and>
           entries (m', sc') \<subseteq> entries (m, sc) \<and>
           (\<forall>x \<in> dom (cm_heap m'). h_value (the (cm_heap m' x)) = h_value (the (cm_heap m x))) \<and>
           (case r of None \<Rightarrow> key \<notin> fst ` entries (m, sc)
            | Some e \<Rightarrow> e \<in> dom (cm_heap m') \<and> (key, h_value (the (cm_heap m' e))) \<in> entries (m, sc))"
proof -
  define i where "i = shard_index key"
  have i: "i < kNumShards"
    by (simp add: i_def Shard_less)
  let ?c = "sc_shards sc ! i"
  obtain r m' c' where op: "LRUCache_Lookup key (HashSlice key) (m, ?c) = Some (r, m', c')"
    "selects (cm_heap m) (set (lc_lru ?c)) (HashSlice key, key) r"
    "lru_inv (in_shard i) (case r of None \<Rightarrow> held | Some e \<Rightarrow> held(e := held e + 1)) (m', c')"
    "lc_lru c' = (case r of None \<Rightarrow> lc_lru ?c | Some e \<Rightarrow> without_key (cm_heap m) (HashSlice key, key) (lc_lru ?c) @ [e])"
    "evolves (in_shard i) (cm_heap m) (cm_heap m')" "dom (cm_heap m') = dom (cm_heap m)"
    using Lookup_spec [OF shard_invD(1) [OF inv i] few, of key "HashSlice key"] by blast
  have lru: "set (lc_lru c') \<subseteq> set (lc_lru ?c)"
    using op(2,4) by (auto simp: selects_def without_key_def split: option.splits)
  have held: "\<forall>x. (case r of None \<Rightarrow> held | Some e \<Rightarrow> held(e := held e + 1)) x \<noteq> held x \<longrightarrow>
      x \<in> owned (in_shard i) (cm_heap m)"
    using op(2) lru_invD(5) [OF shard_invD(1) [OF inv i]]
    by (auto simp: selects_def split: option.splits if_splits)
  note res = shard_op [OF inv i op(3,5) held lru]
  have found: "case r of None \<Rightarrow> key \<notin> fst ` entries (m, sc)
            | Some e \<Rightarrow> e \<in> dom (cm_heap m') \<and> (key, h_value (the (cm_heap m' e))) \<in> entries (m, sc)"
  proof (cases r)
    case None
    have "ident (cm_heap m) e \<noteq> (HashSlice key, key)" if j: "j < kNumShards" "e \<in> set (lc_lru (sc_shards sc ! j))" for e j
    proof
      assume e: "ident (cm_heap m) e = (HashSlice key, key)"
      have "e \<in> owned (in_shard j) (cm_heap m)"
        using lru_invD(5) [OF shard_invD(1) [OF inv j(1)]] j(2) by auto
      then have "j = i"
        using e by (auto simp: owned_def ident_def in_shard_def i_def)
      then show False
        using op(2) None j(2) e by (auto simp: selects_def)
    qed
    moreover have "ident (cm_heap m) e = (HashSlice key, key)"
      if "fst (entry_of (cm_heap m) e) = key" "j < kNumShards" "e \<in> set (lc_lru (sc_shards sc ! j))" for e j
      using that lru_invD(5) [OF shard_invD(1) [OF inv that(2)]] shard_invD(3) [OF inv i]
      by (force simp: ident_def entry_of_def owned_def)
    ultimately show ?thesis
      using None by (fastforce simp: entries_def)
  next
    case (Some e)
    then have e: "e \<in> set (lc_lru ?c)" "ident (cm_heap m) e = (HashSlice key, key)"
      using op(2) by (auto simp: selects_def)
    then have d: "e \<in> dom (cm_heap m')"
      using lru_invD(5) [OF shard_invD(1) [OF inv i]] op(6) by (auto simp: owned_iff)
    have "(key, h_value (the (cm_heap m' e))) = entry_of (cm_heap m) e"
      using e(2) res(3) [OF d] by (simp add: entry_of_def ident_def)
    then show ?thesis
      using Some d e(1) i by (auto simp: entries_def)
  qed
  have run: "Sharded_Lookup key (m, sc) = Some (r, put_shard i sc (m', c'))"
    using op(1) by (simp add: Sharded_Lookup_def i_def Let_def)
  show ?thesis
    using run res found unfolding put_shard_def by auto
qed

lemma Sharded_Release_ok:
  assumes inv: "shard_inv held (m, sc)" and e: "0 < held e"
  shows "\<exists>m' sc'. Sharded_Release e (m, sc) = Some (m', sc') \<and> shard_inv (held(e := held e - 1)) (m', sc') \<and>
           entries (m', sc') \<subseteq> entries (m, sc) \<and>
           (\<forall>x \<in> dom (cm_heap m'). h_value (the (cm_heap m' x)) = h_value (the (cm_heap m x)))"
proof -
  have "e \<in> dom (cm_heap m)"
    using lru_invD(1) [OF shard_invD(1) [OF inv Shard_less]] e by (auto simp: list_inv_def ref_inv_def cache_cnt_def)
  then obtain h where h: "cm_heap m e = Some h"
    by auto
  define i where "i = unat (Shard (h_hash h))"
  have i: "i < kNumShards"
    by (simp add: i_def Shard_less)
  have own: "e \<in> owned (in_shard i) (cm_heap m)"
    using h by (simp add: owned_def in_shard_def i_def)
  obtain m' c' where op: "LRUCache_Release e (m, sc_shards sc ! i) = Some (m', c')"
    "lru_inv (in_shard i) (held(e := held e - 1)) (m', c')" "lc_lru c' = lc_lru (sc_shards sc ! i)"
    "evolves (in_shard i) (cm_heap m) (cm_heap m')"
    using Release_spec [OF shard_invD(1) [OF inv i] own e] by blast
  have run: "Sharded_Release e (m, sc) = Some (put_shard i sc (m', c'))"
    using op(1) h by (simp add: Sharded_Release_def i_def Let_def)
  have held: "\<forall>x. (held(e := held e - 1)) x \<noteq> held x \<longrightarrow> x \<in> owned (in_shard i) (cm_heap m)"
    using own by simp
  have "set (lc_lru c') \<subseteq> set (lc_lru (sc_shards sc ! i))"
    using op(3) by simp
  note res = shard_op [OF inv i op(2,4) held this]
  show ?thesis
    using run res(2,3) res(1) unfolding put_shard_def fst_conv snd_conv by blast
qed

lemma Sharded_Erase_ok:
  assumes inv: "shard_inv held (m, sc)"
  shows "\<exists>m' sc'. Sharded_Erase key (m, sc) = Some (m', sc') \<and> shard_inv held (m', sc') \<and>
           entries (m', sc') \<subseteq> {x \<in> entries (m, sc). fst x \<noteq> key} \<and>
           (\<forall>x \<in> dom (cm_heap m'). h_value (the (cm_heap m' x)) = h_value (the (cm_heap m x)))"
proof -
  define i where "i = shard_index key"
  have i: "i < kNumShards"
    by (simp add: i_def Shard_less)
  let ?c = "sc_shards sc ! i"
  obtain m' c' where op: "LRUCache_Erase key (HashSlice key) (m, ?c) = Some (m', c')"
    "lru_inv (in_shard i) held (m', c')" "lc_lru c' = without_key (cm_heap m) (HashSlice key, key) (lc_lru ?c)"
    "evolves (in_shard i) (cm_heap m) (cm_heap m')"
    using Erase_spec [OF shard_invD(1) [OF inv i], of key "HashSlice key"] by blast
  have "set (lc_lru c') \<subseteq> set (lc_lru ?c)"
    using op(3) by (auto simp: without_key_def)
  note res = shard_op [OF inv i op(2,4) _ this]
  have "fst (entry_of (cm_heap m') e) \<noteq> key" if e: "e \<in> set (lc_lru c')" for e
  proof -
    have "e \<in> dom (cm_heap m')"
      using e lru_invD(5) [OF op(2)] by (auto simp: owned_iff)
    note same = evolves_entry(1,5) [OF op(4) this]
    have "ident (cm_heap m) e \<noteq> (HashSlice key, key)"
      using e op(3) by (simp add: without_key_def)
    then show ?thesis
      using same shard_invD(3) [OF inv i] by (auto simp: entry_of_def ident_def)
  qed
  then have "x \<in> {x. fst x \<noteq> key}" if "x \<in> entries (put_shard i sc (m', c'))" for x
    using entries_update [OF inv i evolves_change [OF op(4)], of c' "{x. fst x \<noteq> key}" x] that
    by (auto simp: i_def)
  moreover have run: "Sharded_Erase key (m, sc) = Some (put_shard i sc (m', c'))"
    using op(1) by (simp add: Sharded_Erase_def i_def Let_def)
  ultimately show ?thesis
    using res by (auto simp: put_shard_def)
qed

lemma prune_shards_ok:
  assumes "shard_inv held (m, sc)" "set is \<subseteq> {..<kNumShards}"
  shows "\<exists>m' sc'. prune_shards is (m, sc) = Some (m', sc') \<and> shard_inv held (m', sc') \<and>
           entries (m', sc') \<subseteq> entries (m, sc) \<and>
           (\<forall>x \<in> dom (cm_heap m'). x \<in> dom (cm_heap m) \<and> h_value (the (cm_heap m' x)) = h_value (the (cm_heap m x)))"
  using assms
proof (induction "is" arbitrary: m sc)
  case (Cons i "is")
  then have i: "i < kNumShards"
    by simp
  obtain m1 c1 where op: "LRUCache_Prune (m, sc_shards sc ! i) = Some (m1, c1)" "lru_inv (in_shard i) held (m1, c1)"
    "lc_lru c1 = filter (\<lambda>x. held x > 0) (lc_lru (sc_shards sc ! i))" "evolves (in_shard i) (cm_heap m) (cm_heap m1)"
    using Prune_spec [OF shard_invD(1) [OF Cons.prems(1) i]] by blast
  have "set (lc_lru c1) \<subseteq> set (lc_lru (sc_shards sc ! i))"
    using op(3) by auto
  note res = shard_op [OF Cons.prems(1) i op(2,4) _ this]
  let ?sc1 = "sc\<lparr>sc_shards := (sc_shards sc)[i := c1]\<rparr>"
  obtain m' sc' where rest: "prune_shards is (m1, ?sc1) = Some (m', sc')" "shard_inv held (m', sc')"
    "entries (m', sc') \<subseteq> entries (m1, ?sc1)"
    "\<forall>x \<in> dom (cm_heap m'). x \<in> dom (cm_heap m1) \<and> h_value (the (cm_heap m' x)) = h_value (the (cm_heap m1 x))"
    using Cons.IH [of m1 ?sc1] Cons.prems(2) res(1) by (auto simp: put_shard_def)
  have "\<forall>x \<in> dom (cm_heap m'). x \<in> dom (cm_heap m) \<and> h_value (the (cm_heap m' x)) = h_value (the (cm_heap m x))"
    using rest(4) res(3) evolves_entry(1) [OF op(4)] by simp
  then show ?case
    using op(1) rest(1-3) res(2) by (auto simp: put_shard_def)
qed auto

text \<open>How \<open>Insert\<close> leaves the list of a shard: the old entry of the key is gone, the new one comes last, and
  the first \<open>n\<close> entries of the result are evicted, as few as bring the usage down to the capacity.\<close>

definition evicted :: "(nat \<Rightarrow> nat) \<Rightarrow> handle_heap \<Rightarrow> u32 \<times> bytes \<Rightarrow> u64 \<Rightarrow> LRUCache \<Rightarrow> nat \<Rightarrow> nat \<Rightarrow> LRUCache \<Rightarrow> bool" where
  "evicted held H k charge c e n c' \<longleftrightarrow>
     (let entries = without_key H k (lc_lru c) @ [e];
          usage = \<lambda>i. lc_usage c + charge - freed held H (with_key H k (lc_lru c) @ take i entries)
      in n \<le> length entries \<and> lc_lru c' = drop n entries \<and> lc_usage c' = usage n \<and>
         (\<forall>i < n. lc_capacity c < usage i) \<and> (lc_usage c' \<le> lc_capacity c \<or> lc_lru c' = []))"

lemma Sharded_Insert_ok:
  assumes inv: "shard_inv held (m, sc)" and fresh: "cm_heap m e = None"
    and few: "length (lc_lru (sc_shards sc ! shard_index key)) < 2 ^ 31"
  shows "\<exists>m' sc'. Sharded_Insert e key v charge (m, sc) = Some (e, m', sc') \<and>
           shard_inv (held(e := held e + 1)) (m', sc') \<and>
           entries (m', sc') \<subseteq> insert (key, v) {x \<in> entries (m, sc). fst x \<noteq> key} \<and>
           (\<forall>x \<in> dom (cm_heap m'). h_value (the (cm_heap m' x)) = (if x = e then v else h_value (the (cm_heap m x)))) \<and>
           (let c = sc_shards sc ! shard_index key; c' = sc_shards sc' ! shard_index key
            in \<exists>n. evicted (held(e := 1)) (cm_heap m) (HashSlice key, key) charge c e n c')"
proof -
  define i where "i = shard_index key"
  have i: "i < kNumShards"
    by (simp add: i_def Shard_less)
  let ?c = "sc_shards sc ! i"
  let ?h = "\<lparr>h_value = v, h_charge = charge, h_refs = 2, h_hash = HashSlice key, h_key = key\<rparr>"
  have P: "in_shard i (HashSlice key)"
    by (simp add: in_shard_def i_def)
  obtain m' c' n where op: "LRUCache_Insert e key (HashSlice key) v charge (m, ?c) = Some (e, m', c')"
    "lru_inv (in_shard i) (held(e := held e + 1)) (m', c')"
    "lc_lru c' = drop n (without_key (cm_heap m) (HashSlice key, key) (lc_lru ?c) @ [e])"
    "evicted (held(e := 1)) (cm_heap m) (HashSlice key, key) charge ?c e n c'"
    "evolves (in_shard i) ((cm_heap m)(e \<mapsto> ?h)) (cm_heap m')"
    using Insert_spec [OF shard_invD(1) [OF inv i] fresh P few [folded i_def]] unfolding evicted_def Let_def by blast
  have change: "shard_change (in_shard i) (cm_heap m) (cm_heap m')"
    by (rule evolves_change_new [OF op(5) fresh]) (simp add: P)
  have "e \<in> dom (cm_heap m')"
    using lru_invD(1) [OF op(2)] by (auto simp: list_inv_def ref_inv_def cache_cnt_def dest!: spec [of _ e])
  then have own: "e \<in> owned (in_shard i) (cm_heap m')"
    using evolves_entry(4) [OF op(5), of e] P by (auto simp: owned_iff)
  have hash: "h_hash (the (cm_heap m' x)) = HashSlice (h_key (the (cm_heap m' x)))" if x: "x \<in> dom (cm_heap m')" for x
    using evolves_entry(1,4,5) [OF op(5) x] shard_invD(3) [OF inv i] by (auto split: if_splits)
  have si: "shard_inv (held(e := held e + 1)) (put_shard i sc (m', c'))"
  proof (rule shard_inv_update [OF inv i op(2) change])
    show "(held(e := held e + 1)) x = held x" if "x \<notin> owned (in_shard i) (cm_heap m) \<union> owned (in_shard i) (cm_heap m')" for x
      using that own by auto
  qed (simp add: hash owned_iff)
  have entry: "entry_of (cm_heap m') x \<in> insert (key, v) {y \<in> entries (m, sc). fst y \<noteq> key}"
    if x: "x \<in> set (lc_lru c')" for x
  proof -
    have d: "x \<in> dom (cm_heap m')"
      using x lru_invD(5) [OF op(2)] by (auto simp: owned_iff)
    note same = evolves_entry(1,2,5) [OF op(5) d]
    have "x = e \<or> x \<in> set (lc_lru ?c) \<and> ident (cm_heap m) x \<noteq> (HashSlice key, key)"
      using x op(3) by (auto simp: without_key_def dest!: in_set_dropD)
    then show ?thesis
    proof (cases "x = e")
      case False
      then have "x \<in> set (lc_lru ?c)" "ident (cm_heap m) x \<noteq> (HashSlice key, key)"
        using \<open>x = e \<or> x \<in> set (lc_lru ?c) \<and> ident (cm_heap m) x \<noteq> (HashSlice key, key)\<close> by auto
      moreover have "entry_of (cm_heap m') x = entry_of (cm_heap m) x"
        using same False by (simp add: entry_of_def)
      moreover have "fst (entry_of (cm_heap m) x) \<noteq> key"
        using same(1) False calculation(2) shard_invD(3) [OF inv i] by (auto simp: entry_of_def ident_def)
      ultimately show ?thesis
        using i by (auto simp: entries_def)
    qed (use same in \<open>simp add: entry_of_def\<close>)
  qed
  have "entries (put_shard i sc (m', c')) \<subseteq> insert (key, v) {x \<in> entries (m, sc). fst x \<noteq> key}"
    using entries_update [OF inv i change entry] by (fastforce simp: i_def)
  moreover have "h_value (the (cm_heap m' x)) = (if x = e then v else h_value (the (cm_heap m x)))"
    if x: "x \<in> dom (cm_heap m')" for x
    using evolves_entry(2) [OF op(5) x] by auto
  moreover have "Sharded_Insert e key v charge (m, sc) = Some (e, put_shard i sc (m', c'))"
    using op(1) by (simp add: Sharded_Insert_def i_def Let_def)
  ultimately show ?thesis
    using si op(3,4) i shard_invD(2) [OF inv i] by (auto simp: put_shard_def i_def [symmetric] Let_def)
qed

section \<open>Clients of the cache\<close>

text \<open>The cache in use. Beside the state of the code a world records what the clients know: how many
  references they hold on each handle, the value each handle was promised to have, and for each key the
  value it was last inserted with and not erased. A client releases only what it holds, \<open>malloc\<close> returns
  unused memory, and neither the number of entries of a shard nor that of references to one handle comes
  near the width of its counter.\<close>

record cache_world =
  w_state :: sharded_state
  w_held :: "nat \<Rightarrow> nat"
  w_val :: "nat \<Rightarrow> nat"
  w_latest :: "bytes \<rightharpoonup> nat"

definition cache_world_new :: "ShardedLRUCache \<Rightarrow> cache_world" where
  "cache_world_new sc = \<lparr>w_state = (\<lparr>cm_heap = Map.empty, cm_deleted = []\<rparr>, sc), w_held = (\<lambda>_. 0),
     w_val = (\<lambda>_. 0), w_latest = Map.empty\<rparr>"

inductive cache_step :: "cache_world \<Rightarrow> cache_world \<Rightarrow> bool" where
  step_Insert:
    "cm_heap (fst (w_state w)) e = None \<Longrightarrow>
     length (lc_lru (sc_shards (snd (w_state w)) ! shard_index key)) < 2 ^ 31 \<Longrightarrow>
     Sharded_Insert e key v charge (w_state w) = Some (r, s') \<Longrightarrow>
     cache_step w \<lparr>w_state = s', w_held = (w_held w)(r := w_held w r + 1), w_val = (w_val w)(r := v),
                   w_latest = (w_latest w)(key \<mapsto> v)\<rparr>"
| step_Lookup_hit:
    "\<forall>x. w_held w x < 2 ^ 32 - 2 \<Longrightarrow> Sharded_Lookup key (w_state w) = Some (Some e, s') \<Longrightarrow>
     cache_step w (w\<lparr>w_state := s', w_held := (w_held w)(e := w_held w e + 1),
                     w_val := (w_val w)(e := the (w_latest w key))\<rparr>)"
| step_Lookup_miss:
    "\<forall>x. w_held w x < 2 ^ 32 - 2 \<Longrightarrow> Sharded_Lookup key (w_state w) = Some (None, s') \<Longrightarrow>
     cache_step w (w\<lparr>w_state := s'\<rparr>)"
| step_Release:
    "0 < w_held w e \<Longrightarrow> Sharded_Release e (w_state w) = Some s' \<Longrightarrow>
     cache_step w (w\<lparr>w_state := s', w_held := (w_held w)(e := w_held w e - 1)\<rparr>)"
| step_Erase:
    "Sharded_Erase key (w_state w) = Some s' \<Longrightarrow>
     cache_step w (w\<lparr>w_state := s', w_latest := (w_latest w)(key := None)\<rparr>)"
| step_Prune:
    "Sharded_Prune (w_state w) = Some s' \<Longrightarrow> cache_step w (w\<lparr>w_state := s'\<rparr>)"
| step_NewId:
    "NewId (snd (w_state w)) = (i, sc') \<Longrightarrow> cache_step w (w\<lparr>w_state := (fst (w_state w), sc')\<rparr>)"

inductive cache_reachable :: "u64 \<Rightarrow> cache_world \<Rightarrow> bool" for capacity where
  reach_new: "ShardedLRUCache_new Map.empty capacity = Some sc \<Longrightarrow> cache_reachable capacity (cache_world_new sc)"
| reach_step: "cache_reachable capacity w \<Longrightarrow> cache_step w w' \<Longrightarrow> cache_reachable capacity w'"

definition world_inv :: "cache_world \<Rightarrow> bool" where
  "world_inv w \<longleftrightarrow>
     shard_inv (w_held w) (w_state w) \<and>
     (\<forall>(k, v) \<in> entries (w_state w). w_latest w k = Some v) \<and>
     (\<forall>e. 0 < w_held w e \<longrightarrow> h_value (the (cm_heap (fst (w_state w)) e)) = w_val w e)"

lemma shard_inv_held_live:
  assumes "shard_inv held (m, sc)" "0 < held e"
  shows "e \<in> dom (cm_heap m)"
  using lru_invD(1) [OF shard_invD(1) [OF assms(1) Shard_less]] assms(2)
  by (auto simp: list_inv_def ref_inv_def cache_cnt_def)

lemma ShardedLRUCache_new_ok:
  "\<exists>sc. ShardedLRUCache_new Map.empty capacity = Some sc \<and> world_inv (cache_world_new sc)"
proof -
  obtain c where c: "LRUCache_new Map.empty = Some c" "lc_lru c = []"
    "\<And>P cap. lru_inv P (\<lambda>_. 0) (\<lparr>cm_heap = Map.empty, cm_deleted = []\<rparr>, SetCapacity cap c)"
    using LRUCache_new_spec by blast
  then show ?thesis
    by (auto simp: ShardedLRUCache_new_def world_inv_def cache_world_new_def shard_inv_def entries_def
        SetCapacity_def Let_def)
qed

lemma world_inv_step:
  assumes "cache_step w w'" "world_inv w"
  shows "world_inv w'"
proof -
  obtain m sc where s: "w_state w = (m, sc)"
    by (cases "w_state w")
  have inv: "shard_inv (w_held w) (m, sc)" and ent: "\<forall>(k, v) \<in> entries (m, sc). w_latest w k = Some v"
    and val: "\<And>e. 0 < w_held w e \<Longrightarrow> h_value (the (cm_heap m e)) = w_val w e"
    using assms(2) s by (auto simp: world_inv_def)
  show ?thesis
    using assms(1)
  proof cases
    case (step_Insert e key v charge r s')
    obtain m' sc' where op: "s' = (m', sc')" "r = e" "shard_inv ((w_held w)(e := w_held w e + 1)) (m', sc')"
      "entries (m', sc') \<subseteq> insert (key, v) {x \<in> entries (m, sc). fst x \<noteq> key}"
      "\<forall>x \<in> dom (cm_heap m'). h_value (the (cm_heap m' x)) = (if x = e then v else h_value (the (cm_heap m x)))"
      using Sharded_Insert_ok [OF inv, of e key v charge] step_Insert s by auto
    have "h_value (the (cm_heap m' x)) = ((w_val w)(e := v)) x" if "0 < ((w_held w)(e := w_held w e + 1)) x" for x
      using shard_inv_held_live [OF op(3) that] op(5) val [of x] that by (auto split: if_splits)
    then show ?thesis
      using op(3,4) ent unfolding step_Insert(1) op(1,2) by (fastforce simp: world_inv_def)
  next
    case (step_Lookup_hit key e s')
    obtain m' sc' where op: "s' = (m', sc')" "shard_inv ((w_held w)(e := w_held w e + 1)) (m', sc')"
      "entries (m', sc') \<subseteq> entries (m, sc)"
      "\<forall>x \<in> dom (cm_heap m'). h_value (the (cm_heap m' x)) = h_value (the (cm_heap m x))"
      "(key, h_value (the (cm_heap m' e))) \<in> entries (m, sc)"
      using Sharded_Lookup_ok [OF inv step_Lookup_hit(2), of key] step_Lookup_hit s by auto
    have "h_value (the (cm_heap m' x)) = ((w_val w)(e := the (w_latest w key))) x"
      if "0 < ((w_held w)(e := w_held w e + 1)) x" for x
      using shard_inv_held_live [OF op(2) that] op(4,5) val [of x] that ent by (auto split: if_splits)
    then show ?thesis
      using op(2,3) ent unfolding step_Lookup_hit(1) op(1) by (fastforce simp: world_inv_def)
  next
    case (step_Lookup_miss key s')
    obtain m' sc' where op: "s' = (m', sc')" "shard_inv (w_held w) (m', sc')" "entries (m', sc') \<subseteq> entries (m, sc)"
      "\<forall>x \<in> dom (cm_heap m'). h_value (the (cm_heap m' x)) = h_value (the (cm_heap m x))"
      using Sharded_Lookup_ok [OF inv step_Lookup_miss(2), of key] step_Lookup_miss s by auto
    have "h_value (the (cm_heap m' x)) = w_val w x" if "0 < w_held w x" for x
      using shard_inv_held_live [OF op(2) that] op(4) val [OF that] by simp
    then show ?thesis
      using op(2,3) ent unfolding step_Lookup_miss(1) op(1) by (fastforce simp: world_inv_def)
  next
    case (step_Release e s')
    obtain m' sc' where op: "s' = (m', sc')" "shard_inv ((w_held w)(e := w_held w e - 1)) (m', sc')"
      "entries (m', sc') \<subseteq> entries (m, sc)"
      "\<forall>x \<in> dom (cm_heap m'). h_value (the (cm_heap m' x)) = h_value (the (cm_heap m x))"
      using Sharded_Release_ok [OF inv step_Release(2)] step_Release s by auto
    have "h_value (the (cm_heap m' x)) = w_val w x" if "0 < ((w_held w)(e := w_held w e - 1)) x" for x
      using shard_inv_held_live [OF op(2) that] op(4) val [of x] that by (auto split: if_splits)
    then show ?thesis
      using op(2,3) ent unfolding step_Release(1) op(1) by (fastforce simp: world_inv_def)
  next
    case (step_Erase key s')
    obtain m' sc' where op: "s' = (m', sc')" "shard_inv (w_held w) (m', sc')"
      "entries (m', sc') \<subseteq> {x \<in> entries (m, sc). fst x \<noteq> key}"
      "\<forall>x \<in> dom (cm_heap m'). h_value (the (cm_heap m' x)) = h_value (the (cm_heap m x))"
      using Sharded_Erase_ok [OF inv, of key] step_Erase s by auto
    have "h_value (the (cm_heap m' x)) = w_val w x" if "0 < w_held w x" for x
      using shard_inv_held_live [OF op(2) that] op(4) val [OF that] by simp
    then show ?thesis
      using op(2,3) ent unfolding step_Erase(1) op(1) by (fastforce simp: world_inv_def)
  next
    case (step_Prune s')
    obtain m' sc' where op: "s' = (m', sc')" "shard_inv (w_held w) (m', sc')" "entries (m', sc') \<subseteq> entries (m, sc)"
      "\<forall>x \<in> dom (cm_heap m'). x \<in> dom (cm_heap m) \<and> h_value (the (cm_heap m' x)) = h_value (the (cm_heap m x))"
      using prune_shards_ok [OF inv, of "[0..<kNumShards]"] step_Prune s by (auto simp: Sharded_Prune_def atLeast0LessThan)
    have "h_value (the (cm_heap m' x)) = w_val w x" if "0 < w_held w x" for x
      using shard_inv_held_live [OF op(2) that] op(4) val [OF that] by simp
    then show ?thesis
      using op(2,3) ent unfolding step_Prune(1) op(1) by (fastforce simp: world_inv_def)
  next
    case (step_NewId i sc')
    then have "sc_shards sc' = sc_shards sc"
      using s by (auto simp: NewId_def Let_def)
    then show ?thesis
      using inv ent val s unfolding step_NewId(1) by (simp add: world_inv_def shard_inv_def entries_def)
  qed
qed

lemma reachable_world_inv:
  assumes "cache_reachable capacity w"
  shows "world_inv w"
  using assms
proof induction
  case (reach_new sc)
  then show ?case
    using ShardedLRUCache_new_ok [of capacity] by auto
qed (rule world_inv_step)

lemma total_charge:
  assumes "shard_inv held (m, sc)"
  shows "Sharded_TotalCharge (m, sc) = (\<Sum>e \<in> dom (cm_heap m). h_charge (the (cm_heap m e)))"
proof -
  let ?shard = "\<lambda>e. unat (Shard (h_hash (the (cm_heap m e))))"
  have own: "owned (in_shard i) (cm_heap m) = {e \<in> dom (cm_heap m). ?shard e = i}" for i
    by (auto simp: owned_iff in_shard_def)
  have part: "finite (owned (in_shard i) (cm_heap m)) \<and>
      TotalCharge (sc_shards sc ! i) = (\<Sum>e \<in> owned (in_shard i) (cm_heap m). h_charge (the (cm_heap m e)))"
    if "i < kNumShards" for i
    using lru_invD(1) [OF shard_invD(1) [OF assms that]] by (simp add: list_inv_def ref_inv_def TotalCharge_def)
  have "dom (cm_heap m) = (\<Union>i \<in> {..<kNumShards}. owned (in_shard i) (cm_heap m))"
    using Shard_less by (auto simp: own)
  then have fin: "finite (dom (cm_heap m))"
    using part by simp
  have "Sharded_TotalCharge (m, sc) = (\<Sum>i \<in> {..<kNumShards}. TotalCharge (sc_shards sc ! i))"
    by (simp add: Sharded_TotalCharge_def kNumShards_def kNumShardBits_def push_bit_eq_mult eval_nat_numeral lessThan_Suc upt_rec add_ac)
  also have "\<dots> = (\<Sum>i \<in> {..<kNumShards}. \<Sum>e \<in> {e \<in> dom (cm_heap m). ?shard e = i}. h_charge (the (cm_heap m e)))"
    using part own by (intro sum.cong) auto
  also have "\<dots> = (\<Sum>e \<in> dom (cm_heap m). h_charge (the (cm_heap m e)))"
    using fin Shard_less by (intro sum.group) auto
  finally show ?thesis .
qed

section \<open>Properties\<close>

lemma shard_refs:
  assumes inv: "shard_inv held (m, sc)" and h: "cm_heap m e = Some h"
  shows "unat (h_refs h) = held e + (if e \<in> set (lc_lru (sc_shards sc ! unat (Shard (h_hash h)))) then 1 else 0)"
proof -
  let ?i = "unat (Shard (h_hash h))"
  have "ref_inv (in_shard ?i) (cache_cnt held (lc_lru (sc_shards sc ! ?i))) (cm_heap m) (lc_usage (sc_shards sc ! ?i))"
    using lru_invD(1) [OF shard_invD(1) [OF inv Shard_less]] by (simp add: list_inv_def)
  moreover have "e \<in> owned (in_shard ?i) (cm_heap m)"
    using h by (simp add: owned_def in_shard_def)
  ultimately have cnt: "cache_cnt held (lc_lru (sc_shards sc ! ?i)) e < 2 ^ LENGTH(32)"
    "h_refs h = of_nat (cache_cnt held (lc_lru (sc_shards sc ! ?i)) e)"
    using h by (auto simp: ref_inv_def)
  have "unat (h_refs h) = cache_cnt held (lc_lru (sc_shards sc ! ?i)) e"
    unfolding cnt(2) using cnt(1) by (rule unat_of_nat_small)
  then show ?thesis
    by (simp add: cache_cnt_def)
qed

text \<open>C21: In every state that clients of the cache can reach, a handle a client holds is live and has the
  value it was promised, whatever was inserted, replaced, erased, evicted or pruned since; the reference
  count of every live handle is the number of references clients hold, plus one while the cache lists the
  entry; and the total charge is the sum of the charges of all live handles, the ones that left the cache
  while held included.\<close>

theorem cache_handles_sound:
  assumes "cache_reachable capacity w"
  shows "(\<forall>e. 0 < w_held w e \<longrightarrow> Sharded_Value e (w_state w) = Some (w_val w e)) \<and>
    (\<forall>e h. cm_heap (fst (w_state w)) e = Some h \<longrightarrow>
       unat (h_refs h) = w_held w e +
         (if e \<in> set (lc_lru (sc_shards (snd (w_state w)) ! unat (Shard (h_hash h)))) then 1 else 0)) \<and>
    Sharded_TotalCharge (w_state w) =
      (\<Sum>e \<in> dom (cm_heap (fst (w_state w))). h_charge (the (cm_heap (fst (w_state w)) e)))"
proof -
  obtain m sc where s: "w_state w = (m, sc)"
    by (cases "w_state w")
  have inv: "shard_inv (w_held w) (m, sc)" and val: "\<And>e. 0 < w_held w e \<Longrightarrow> h_value (the (cm_heap m e)) = w_val w e"
    using reachable_world_inv [OF assms] s by (auto simp: world_inv_def)
  have "Sharded_Value e (m, sc) = Some (w_val w e)" if "0 < w_held w e" for e
    using shard_inv_held_live [OF inv that] val [OF that] by (auto simp: Sharded_Value_def)
  then show ?thesis
    using shard_refs [OF inv] total_charge [OF inv] s by simp
qed

lemma cache_after_insert:
  "\<exists>w. cache_reachable capacity w \<and> w_held w 7 = 1 \<and> w_val w 7 = 42 \<and> w_latest w [1] = Some 42 \<and>
     (\<forall>x. w_held w x \<le> 1)"
proof -
  obtain sc where sc: "ShardedLRUCache_new Map.empty capacity = Some sc" "world_inv (cache_world_new sc)"
    using ShardedLRUCache_new_ok by blast
  have inv: "shard_inv (\<lambda>_. 0) (\<lparr>cm_heap = Map.empty, cm_deleted = []\<rparr>, sc)"
    using sc(2) by (simp add: world_inv_def cache_world_new_def)
  have "length (lc_lru (sc_shards sc ! shard_index [1])) = 0"
    using lru_invD(5) [OF shard_invD(1) [OF inv Shard_less [of "HashSlice [1]"]]] by (simp add: owned_def)
  then have few: "length (lc_lru (sc_shards sc ! shard_index [1])) < 2 ^ 31"
    by simp
  obtain s' where s': "Sharded_Insert 7 [1] 42 5 (\<lparr>cm_heap = Map.empty, cm_deleted = []\<rparr>, sc) = Some (7, s')"
    using Sharded_Insert_ok [OF inv _ few, of 7 42 5] by auto
  let ?w = "\<lparr>w_state = s', w_held = (w_held (cache_world_new sc))(7 := w_held (cache_world_new sc) 7 + 1),
      w_val = (w_val (cache_world_new sc))(7 := 42), w_latest = (w_latest (cache_world_new sc))([1] \<mapsto> 42)\<rparr>"
  have "cache_step (cache_world_new sc) ?w"
    by (rule step_Insert) (use few s' in \<open>auto simp: cache_world_new_def\<close>)
  from reach_step [OF reach_new [OF sc(1)] this] show ?thesis
    by (intro exI [of _ ?w] conjI) (simp_all add: cache_world_new_def)
qed

theorem cache_handles_sound_witness:
  "\<exists>w. cache_reachable 64 w \<and> w_held w 7 = 1 \<and> Sharded_Value 7 (w_state w) = Some 42"
proof -
  obtain w where "cache_reachable 64 w" "w_held w 7 = 1" "w_val w 7 = 42"
    using cache_after_insert [of 64] by blast
  then show ?thesis
    using cache_handles_sound [of 64 w] by (intro exI [of _ w]) simp
qed

text \<open>C22: In every reachable state each operation of the cache completes: no assertion fails, no freed
  handle is read or written. \<open>Lookup\<close> finds a handle only for a key that was inserted and not erased
  since, and the handle has the value of the last insertion; \<open>Insert\<close> returns a handle with the value
  inserted; only handles that are held need to be released.\<close>

theorem cache_operations_safe:
  assumes "cache_reachable capacity w" "\<forall>x. w_held w x < 2 ^ 32 - 2"
  shows "(\<exists>r s'. Sharded_Lookup key (w_state w) = Some (r, s') \<and>
            (\<forall>e. r = Some e \<longrightarrow> w_latest w key \<noteq> None \<and> Sharded_Value e s' = w_latest w key)) \<and>
    (cm_heap (fst (w_state w)) e = None \<longrightarrow>
       length (lc_lru (sc_shards (snd (w_state w)) ! shard_index key)) < 2 ^ 31 \<longrightarrow>
       (\<exists>s'. Sharded_Insert e key v charge (w_state w) = Some (e, s') \<and> Sharded_Value e s' = Some v)) \<and>
    (0 < w_held w h \<longrightarrow> (\<exists>s'. Sharded_Release h (w_state w) = Some s')) \<and>
    (\<exists>s'. Sharded_Erase key (w_state w) = Some s') \<and>
    (\<exists>s'. Sharded_Prune (w_state w) = Some s')"
proof -
  obtain m sc where s: "w_state w = (m, sc)"
    by (cases "w_state w")
  have inv: "shard_inv (w_held w) (m, sc)" and ent: "\<forall>(k, v) \<in> entries (m, sc). w_latest w k = Some v"
    using reachable_world_inv [OF assms(1)] s by (auto simp: world_inv_def)
  have "\<exists>r s'. Sharded_Lookup key (m, sc) = Some (r, s') \<and>
      (\<forall>e. r = Some e \<longrightarrow> w_latest w key \<noteq> None \<and> Sharded_Value e s' = w_latest w key)"
    using Sharded_Lookup_ok [OF inv assms(2), of key] ent by (fastforce simp: Sharded_Value_def split: option.splits)
  moreover have "\<exists>s'. Sharded_Insert e key v charge (m, sc) = Some (e, s') \<and> Sharded_Value e s' = Some v"
    if new: "cm_heap m e = None" "length (lc_lru (sc_shards sc ! shard_index key)) < 2 ^ 31"
  proof -
    obtain m' sc' where op: "Sharded_Insert e key v charge (m, sc) = Some (e, m', sc')"
      "shard_inv ((w_held w)(e := w_held w e + 1)) (m', sc')"
      "\<forall>x \<in> dom (cm_heap m'). h_value (the (cm_heap m' x)) = (if x = e then v else h_value (the (cm_heap m x)))"
      using Sharded_Insert_ok [OF inv new, of v charge] by blast
    have "e \<in> dom (cm_heap m')"
      using shard_inv_held_live [OF op(2), of e] by simp
    then have "Sharded_Value e (m', sc') = Some v"
      using bspec [OF op(3), of e] by (auto simp: Sharded_Value_def)
    then show ?thesis
      using op(1) by blast
  qed
  moreover have "\<exists>s'. Sharded_Prune (m, sc) = Some s'"
    using prune_shards_ok [OF inv, of "[0..<kNumShards]"] by (auto simp: Sharded_Prune_def atLeast0LessThan)
  ultimately show ?thesis
    using Sharded_Release_ok [OF inv, of h] Sharded_Erase_ok [OF inv, of key] unfolding s by fastforce
qed

theorem cache_operations_safe_witness:
  "\<exists>w s'. cache_reachable 64 w \<and> Sharded_Release 7 (w_state w) = Some s'"
proof -
  obtain w where w: "cache_reachable 64 w" "w_held w 7 = 1" "\<forall>x. w_held w x \<le> 1"
    using cache_after_insert [of 64] by blast
  then have "\<forall>x. w_held w x < 2 ^ 32 - 2"
    by (auto intro: le_less_trans)
  then show ?thesis
    using cache_operations_safe [of 64 w "[]" 0 0 0 7] w(1,2) by auto
qed

text \<open>C24: \<open>Insert\<close> replaces an entry of the same key, makes the new entry the most recent of its shard, and
  then evicts from the oldest end while the usage is above the capacity: \<open>n\<close> is the least number of
  entries whose removal brings the usage down to the capacity, or all entries when that is not enough
  (what is then still charged belongs to handles clients hold). Only the charges of entries no client
  holds are given back.\<close>

theorem cache_evicts_oldest:
  assumes "cache_reachable capacity w" "w_state w = (m, sc)" "cm_heap m e = None"
    "length (lc_lru (sc_shards sc ! shard_index key)) < 2 ^ 31"
  shows "\<exists>m' sc' n. Sharded_Insert e key v charge (m, sc) = Some (e, m', sc') \<and>
    (let c = sc_shards sc ! shard_index key; c' = sc_shards sc' ! shard_index key;
         ident = (\<lambda>x. (h_hash (the (cm_heap m x)), h_key (the (cm_heap m x))));
         replaced = filter (\<lambda>x. ident x = (HashSlice key, key)) (lc_lru c);
         entries = filter (\<lambda>x. ident x \<noteq> (HashSlice key, key)) (lc_lru c) @ [e];
         usage = (\<lambda>i. lc_usage c + charge -
           (\<Sum>x \<leftarrow> replaced @ take i entries. if x \<noteq> e \<and> w_held w x = 0 then h_charge (the (cm_heap m x)) else 0))
     in n \<le> length entries \<and> lc_lru c' = drop n entries \<and> (lc_lru c' \<noteq> [] \<longrightarrow> last (lc_lru c') = e) \<and>
        lc_usage c' = usage n \<and> (\<forall>i < n. lc_capacity c < usage i) \<and>
        (lc_usage c' \<le> lc_capacity c \<or> lc_lru c' = []))"
proof -
  have inv: "shard_inv (w_held w) (m, sc)"
    using reachable_world_inv [OF assms(1)] assms(2) by (simp add: world_inv_def)
  obtain m' sc' n where op: "Sharded_Insert e key v charge (m, sc) = Some (e, m', sc')"
    "evicted ((w_held w)(e := 1)) (cm_heap m) (HashSlice key, key) charge (sc_shards sc ! shard_index key) e n (sc_shards sc' ! shard_index key)"
    using Sharded_Insert_ok [OF inv assms(3,4), of v charge] unfolding Let_def by blast
  have held: "((w_held w)(e := 1)) x = 0 \<longleftrightarrow> x \<noteq> e \<and> w_held w x = 0" for x
    by simp
  note spec = op(2) [unfolded evicted_def freed_def held without_key_def with_key_def ident_def Let_def]
  have newest: "last (drop n (xs @ [e])) = e" if "drop n (xs @ [e]) \<noteq> []" for xs
    using that by (subst last_drop) auto
  obtain xs where "lc_lru (sc_shards sc' ! shard_index key) = drop n (xs @ [e])"
    using spec by blast
  then have "lc_lru (sc_shards sc' ! shard_index key) \<noteq> [] \<longrightarrow> last (lc_lru (sc_shards sc' ! shard_index key)) = e"
    using newest [of xs] by simp
  with op(1) spec show ?thesis
    unfolding Let_def by blast
qed

theorem cache_evicts_oldest_witness:
  "\<exists>sc m' sc'. ShardedLRUCache_new Map.empty 64 = Some sc \<and>
     Sharded_Insert 9 [1] 42 5 (\<lparr>cm_heap = Map.empty, cm_deleted = []\<rparr>, sc) = Some (9, m', sc')"
proof -
  obtain sc where sc: "ShardedLRUCache_new Map.empty 64 = Some sc" "world_inv (cache_world_new sc)"
    using ShardedLRUCache_new_ok by blast
  have inv: "shard_inv (\<lambda>_. 0) (\<lparr>cm_heap = Map.empty, cm_deleted = []\<rparr>, sc)"
    using sc(2) by (simp add: world_inv_def cache_world_new_def)
  have "lc_lru (sc_shards sc ! shard_index [1]) = []"
    using lru_invD(5) [OF shard_invD(1) [OF inv Shard_less [of "HashSlice [1]"]]] by (simp add: owned_def)
  then show ?thesis
    using cache_evicts_oldest [OF reach_new [OF sc(1)], of "\<lparr>cm_heap = Map.empty, cm_deleted = []\<rparr>" sc 9 "[1]" 42 5] sc(1)
    by (auto simp: cache_world_new_def)
qed

end
