(* ===== verification/Version_Search.thy ===== *)
theory Version_Search
  imports Version_Edit Two_Level
begin

text \<open>
  Searching the files of a version, the first half of \<open>db/version_set.cc\<close>. A file is an element of a
  type \<open>'f\<close> (in the program a pointer to a \<open>FileMetaData\<close>) and an argument \<open>F\<close> reads its metadata. The
  files of a level are a vector; its indices are natural numbers, as a level has far less than \<open>2 ^ 31\<close> files. The first argument \<open>Compare\<close>
  is the user comparator; \<open>InternalKeyCompare Compare\<close> is the order of internal keys.
\<close>

section \<open>Limits\<close>

definition kTargetFileSize :: int where
  "kTargetFileSize = 2 * 1048576"

definition kMaxGrandParentOverlapBytes :: int where
  "kMaxGrandParentOverlapBytes = 10 * kTargetFileSize"

definition kExpandedCompactionByteSizeLimit :: int where
  "kExpandedCompactionByteSizeLimit = 25 * kTargetFileSize"

text \<open>The values of this function are whole numbers below \<open>2 ^ 53\<close>, which a double holds exactly.\<close>

fun MaxBytesForLevel_loop :: "nat \<Rightarrow> nat \<Rightarrow> nat" where
  "MaxBytesForLevel_loop result level =
     (if 1 < level then MaxBytesForLevel_loop (result * 10) (level - 1) else result)"

definition MaxBytesForLevel :: "nat \<Rightarrow> nat" where
  "MaxBytesForLevel level = MaxBytesForLevel_loop (10 * 1048576) level"

definition MaxFileSizeForLevel :: "nat \<Rightarrow> u64" where
  "MaxFileSizeForLevel level = of_int kTargetFileSize"

text \<open>The sum is an \<open>int64_t\<close> to which unsigned sizes are added: it wraps around and is read as a signed
  number.\<close>

definition TotalFileSize :: "('f \<Rightarrow> FileMetaData) \<Rightarrow> 'f list \<Rightarrow> int" where
  "TotalFileSize F files = sint (foldl (\<lambda>sum f. sum + fsize (F f)) 0 files)"

section \<open>Finding files\<close>

abbreviation file_start :: "('f \<Rightarrow> FileMetaData) \<Rightarrow> 'f \<Rightarrow> bytes" where
  "file_start F f \<equiv> ExtractUserKey (smallest (F f))"

abbreviation file_limit :: "('f \<Rightarrow> FileMetaData) \<Rightarrow> 'f \<Rightarrow> bytes" where
  "file_limit F f \<equiv> ExtractUserKey (largest (F f))"

function FindFile_loop ::
  "(bytes \<Rightarrow> bytes \<Rightarrow> int) \<Rightarrow> ('f \<Rightarrow> FileMetaData) \<Rightarrow> 'f list \<Rightarrow> bytes \<Rightarrow> nat \<Rightarrow> nat \<Rightarrow> nat" where
  "FindFile_loop Compare F files key left right =
     (if left < right
      then (let mid = (left + right) div 2
            in if InternalKeyCompare Compare (largest (F (files ! mid))) key < 0
               then FindFile_loop Compare F files key (mid + 1) right
               else FindFile_loop Compare F files key left mid)
      else right)"
  by pat_completeness auto
termination
  by (relation "measure (\<lambda>(Compare, F, files, key, left, right). right - left)") auto

declare FindFile_loop.simps [simp del]

definition FindFile :: "(bytes \<Rightarrow> bytes \<Rightarrow> int) \<Rightarrow> ('f \<Rightarrow> FileMetaData) \<Rightarrow> 'f list \<Rightarrow> bytes \<Rightarrow> nat" where
  "FindFile Compare F files key = FindFile_loop Compare F files key 0 (length files)"

text \<open>A null user key is \<open>None\<close>.\<close>

definition AfterFile :: "(bytes \<Rightarrow> bytes \<Rightarrow> int) \<Rightarrow> ('f \<Rightarrow> FileMetaData) \<Rightarrow> bytes option \<Rightarrow> 'f \<Rightarrow> bool" where
  "AfterFile Compare F ukey f = (case ukey of None \<Rightarrow> False | Some k \<Rightarrow> Compare k (file_limit F f) > 0)"

definition BeforeFile :: "(bytes \<Rightarrow> bytes \<Rightarrow> int) \<Rightarrow> ('f \<Rightarrow> FileMetaData) \<Rightarrow> bytes option \<Rightarrow> 'f \<Rightarrow> bool" where
  "BeforeFile Compare F ukey f = (case ukey of None \<Rightarrow> False | Some k \<Rightarrow> Compare k (file_start F f) < 0)"

fun overlap_scan ::
  "(bytes \<Rightarrow> bytes \<Rightarrow> int) \<Rightarrow> ('f \<Rightarrow> FileMetaData) \<Rightarrow> bytes option \<Rightarrow> bytes option \<Rightarrow> 'f list \<Rightarrow> bool" where
  "overlap_scan Compare F smallest_user_key largest_user_key [] = False"
| "overlap_scan Compare F smallest_user_key largest_user_key (f # fs) =
     (if AfterFile Compare F smallest_user_key f \<or> BeforeFile Compare F largest_user_key f
      then overlap_scan Compare F smallest_user_key largest_user_key fs else True)"

definition SomeFileOverlapsRange ::
  "(bytes \<Rightarrow> bytes \<Rightarrow> int) \<Rightarrow> ('f \<Rightarrow> FileMetaData) \<Rightarrow> bool \<Rightarrow> 'f list \<Rightarrow> bytes option \<Rightarrow> bytes option \<Rightarrow> bool" where
  "SomeFileOverlapsRange Compare F disjoint_sorted_files files smallest_user_key largest_user_key =
     (if \<not> disjoint_sorted_files then overlap_scan Compare F smallest_user_key largest_user_key files
      else (let index = (case smallest_user_key of
                           None \<Rightarrow> 0
                         | Some k \<Rightarrow> FindFile Compare F files (InternalKey_make k kMaxSequenceNumber kValueTypeForSeek))
            in if length files \<le> index then False
               else \<not> BeforeFile Compare F largest_user_key (files ! index)))"

text \<open>\<open>GetOverlappingInputs\<close>: in level 0 a file that reaches beyond the range extends it and the scan starts
  again. Whether the restarts end depends on the comparator.\<close>

definition below :: "(bytes \<Rightarrow> bytes \<Rightarrow> int) \<Rightarrow> bytes \<Rightarrow> bytes option \<Rightarrow> bool" where
  "below Compare k bound = (case bound of None \<Rightarrow> False | Some b \<Rightarrow> Compare k b < 0)"

definition above :: "(bytes \<Rightarrow> bytes \<Rightarrow> int) \<Rightarrow> bytes \<Rightarrow> bytes option \<Rightarrow> bool" where
  "above Compare k bound = (case bound of None \<Rightarrow> False | Some b \<Rightarrow> Compare k b > 0)"

text \<open>A loop whose body says to go on with a new state (\<open>Inl\<close>) or to stop with a result; \<open>None\<close> when it
  does not end.\<close>

partial_function (option) loop_until :: "('s \<Rightarrow> 's + 'r) \<Rightarrow> 's \<Rightarrow> 'r option" where
  "loop_until body s = (case body s of Inl s' \<Rightarrow> loop_until body s' | Inr r \<Rightarrow> Some r)"

record 'f overlap_state =
  os_i :: nat
  os_inputs :: "'f list"
  os_begin :: "bytes option"
  os_end :: "bytes option"

definition GetOverlapping_body ::
  "(bytes \<Rightarrow> bytes \<Rightarrow> int) \<Rightarrow> ('f \<Rightarrow> FileMetaData) \<Rightarrow> nat \<Rightarrow> 'f list \<Rightarrow> 'f overlap_state \<Rightarrow> 'f overlap_state + 'f list" where
  "GetOverlapping_body Compare F level files st =
     (if os_i st < length files
      then (let f = files ! os_i st;
                st = st\<lparr>os_i := os_i st + 1\<rparr>
            in if below Compare (file_limit F f) (os_begin st) then Inl st
               else if above Compare (file_start F f) (os_end st) then Inl st
               else if level = 0 \<and> below Compare (file_start F f) (os_begin st)
               then Inl (st\<lparr>os_begin := Some (file_start F f), os_inputs := [], os_i := 0\<rparr>)
               else if level = 0 \<and> above Compare (file_limit F f) (os_end st)
               then Inl (st\<lparr>os_end := Some (file_limit F f), os_inputs := [], os_i := 0\<rparr>)
               else Inl (st\<lparr>os_inputs := os_inputs st @ [f]\<rparr>))
      else Inr (os_inputs st))"

text \<open>The files of a version: \<open>files_\<close>, by level.\<close>

definition GetOverlappingInputs ::
  "(bytes \<Rightarrow> bytes \<Rightarrow> int) \<Rightarrow> ('f \<Rightarrow> FileMetaData) \<Rightarrow> 'f list list \<Rightarrow> nat \<Rightarrow> InternalKey option \<Rightarrow> InternalKey option \<Rightarrow>
   'f list option" where
  "GetOverlappingInputs Compare F files level bgn nd =
     loop_until (GetOverlapping_body Compare F level (files ! level))
       \<lparr>os_i = 0, os_inputs = [], os_begin = map_option ExtractUserKey bgn, os_end = map_option ExtractUserKey nd\<rparr>"

definition OverlapInLevel ::
  "(bytes \<Rightarrow> bytes \<Rightarrow> int) \<Rightarrow> ('f \<Rightarrow> FileMetaData) \<Rightarrow> 'f list list \<Rightarrow> nat \<Rightarrow> bytes option \<Rightarrow> bytes option \<Rightarrow> bool" where
  "OverlapInLevel Compare F files level smallest_user_key largest_user_key =
     SomeFileOverlapsRange Compare F (0 < level) (files ! level) smallest_user_key largest_user_key"

function PickLevel_loop ::
  "(bytes \<Rightarrow> bytes \<Rightarrow> int) \<Rightarrow> ('f \<Rightarrow> FileMetaData) \<Rightarrow> 'f list list \<Rightarrow> bytes \<Rightarrow> bytes \<Rightarrow> nat \<Rightarrow> nat option" where
  "PickLevel_loop Compare F files small large level =
     (if level < kMaxMemCompactLevel
      then (if OverlapInLevel Compare F files (level + 1) (Some small) (Some large) then Some level
            else if level + 2 < kNumLevels
            then (case GetOverlappingInputs Compare F files (level + 2)
                         (Some (InternalKey_make small kMaxSequenceNumber kValueTypeForSeek))
                         (Some (InternalKey_make large 0 kTypeDeletion)) of
                    None \<Rightarrow> None
                  | Some overlaps \<Rightarrow>
                      if TotalFileSize F overlaps > kMaxGrandParentOverlapBytes then Some level
                      else PickLevel_loop Compare F files small large (level + 1))
            else PickLevel_loop Compare F files small large (level + 1))
      else Some level)"
  by pat_completeness auto
termination
  by (relation "measure (\<lambda>(Compare, F, files, small, large, level). kMaxMemCompactLevel - level)") auto

declare PickLevel_loop.simps [simp del]

definition PickLevelForMemTableOutput ::
  "(bytes \<Rightarrow> bytes \<Rightarrow> int) \<Rightarrow> ('f \<Rightarrow> FileMetaData) \<Rightarrow> 'f list list \<Rightarrow> bytes \<Rightarrow> bytes \<Rightarrow> nat option" where
  "PickLevelForMemTableOutput Compare F files small large =
     (if OverlapInLevel Compare F files 0 (Some small) (Some large) then Some 0
      else PickLevel_loop Compare F files small large 0)"

section \<open>Well-formed levels\<close>

abbreviation key_ok :: "bytes \<Rightarrow> bool" where
  "key_ok k \<equiv> ParseInternalKey k \<noteq> None"

definition file_ok :: "(bytes \<Rightarrow> bytes \<Rightarrow> int) \<Rightarrow> FileMetaData \<Rightarrow> bool" where
  "file_ok Compare f \<longleftrightarrow>
     key_ok (smallest f) \<and> key_ok (largest f) \<and> InternalKeyCompare Compare (smallest f) (largest f) \<le> 0"

text \<open>The files of a level above 0: every file ends before the next one starts. Two neighbours may share a
  user key, the newer entries of it being in the first one.\<close>

definition level_sorted :: "(bytes \<Rightarrow> bytes \<Rightarrow> int) \<Rightarrow> ('f \<Rightarrow> FileMetaData) \<Rightarrow> 'f list \<Rightarrow> bool" where
  "level_sorted Compare F files \<longleftrightarrow>
     (\<forall>f \<in> set files. file_ok Compare (F f)) \<and>
     sorted_wrt (\<lambda>a b. InternalKeyCompare Compare (largest (F a)) (smallest (F b)) < 0) files"

definition overlaps :: "(bytes \<Rightarrow> bytes \<Rightarrow> int) \<Rightarrow> ('f \<Rightarrow> FileMetaData) \<Rightarrow> bytes option \<Rightarrow> bytes option \<Rightarrow> 'f \<Rightarrow> bool" where
  "overlaps Compare F b e f \<longleftrightarrow> \<not> below Compare (file_limit F f) b \<and> \<not> above Compare (file_start F f) e"

text \<open>In level 0 a range grows until no file that overlaps it reaches beyond it.\<close>

definition within :: "(bytes \<Rightarrow> bytes \<Rightarrow> int) \<Rightarrow> ('f \<Rightarrow> FileMetaData) \<Rightarrow> bytes option \<Rightarrow> bytes option \<Rightarrow> 'f \<Rightarrow> bool" where
  "within Compare F b e f \<longleftrightarrow> \<not> below Compare (file_start F f) b \<and> \<not> above Compare (file_limit F f) e"

definition closed_range :: "(bytes \<Rightarrow> bytes \<Rightarrow> int) \<Rightarrow> ('f \<Rightarrow> FileMetaData) \<Rightarrow> 'f list \<Rightarrow> bytes option \<Rightarrow> bytes option \<Rightarrow> bool" where
  "closed_range Compare F files b e \<longleftrightarrow> (\<forall>f \<in> set files. overlaps Compare F b e f \<longrightarrow> within Compare F b e f)"

definition starts_at_or_below :: "(bytes \<Rightarrow> bytes \<Rightarrow> int) \<Rightarrow> bytes option \<Rightarrow> bytes option \<Rightarrow> bool" where
  "starts_at_or_below Compare b' b \<longleftrightarrow> (case b of None \<Rightarrow> b' = None | Some k \<Rightarrow> (case b' of None \<Rightarrow> True | Some k' \<Rightarrow> Compare k' k \<le> 0))"

definition ends_at_or_above :: "(bytes \<Rightarrow> bytes \<Rightarrow> int) \<Rightarrow> bytes option \<Rightarrow> bytes option \<Rightarrow> bool" where
  "ends_at_or_above Compare e' e \<longleftrightarrow> (case e of None \<Rightarrow> e' = None | Some k \<Rightarrow> (case e' of None \<Rightarrow> True | Some k' \<Rightarrow> Compare k k' \<le> 0))"

lemma key_ok_length: "key_ok k \<Longrightarrow> 8 \<le> length k"
  by (auto simp: ParseInternalKey_def split: if_splits)

lemma file_ok_length:
  assumes "file_ok Compare f"
  shows "8 \<le> length (smallest f)" "8 \<le> length (largest f)"
  using assms key_ok_length by (auto simp: file_ok_def)

text \<open>No tag is above that of a key to seek with.\<close>

lemma key_ok_tag:
  assumes "key_ok k"
  shows "ExtractTag k \<le> PackSequenceAndType kMaxSequenceNumber kValueTypeForSeek"
proof -
  from assms obtain p where p: "ParseInternalKey k = Some p"
    by auto
  note k = ParseInternalKey_Some [OF p]
  have "unat (PackSequenceAndType (sequence p) (type p)) = unat (sequence p) * 256 + unat (ValueType_code (type p))"
    by (rule unat_PackSequenceAndType) (rule k(3))
  moreover have "unat (PackSequenceAndType kMaxSequenceNumber kValueTypeForSeek) = unat kMaxSequenceNumber * 256 + 1"
    by (simp add: unat_PackSequenceAndType kValueTypeForSeek_def ValueType_code_def)
  moreover have "unat (ValueType_code (type p)) \<le> 1"
    by (cases "type p") (simp_all add: ValueType_code_def)
  moreover have "unat (sequence p) \<le> unat kMaxSequenceNumber"
    using k(3) by (simp add: word_le_nat_alt)
  ultimately have "unat (ExtractTag (InternalKey_make (user_key p) (sequence p) (type p))) \<le>
      unat (PackSequenceAndType kMaxSequenceNumber kValueTypeForSeek)"
    by simp
  then show ?thesis
    using k(1) by (simp add: word_le_nat_alt)
qed

text \<open>A loop ends when its states decrease, and what its invariant gives at the end holds of the result.\<close>

lemma loop_until_rule:
  assumes "wf R" "I s"
    and "\<And>s s'. I s \<Longrightarrow> body s = Inl s' \<Longrightarrow> I s' \<and> (s', s) \<in> R"
    and "\<And>s r. I s \<Longrightarrow> body s = Inr r \<Longrightarrow> Q r"
  shows "\<exists>r. loop_until body s = Some r \<and> Q r"
  using assms(1,2)
proof (induction s rule: wf_induct_rule)
  case (less s)
  show ?case
  proof (cases "body s")
    case (Inl s')
    with assms(3) [OF less.prems Inl] less.IH [of s'] show ?thesis
      by (subst loop_until.simps) simp
  next
    case (Inr r)
    with assms(4) [OF less.prems Inr] show ?thesis
      by (subst loop_until.simps) simp
  qed
qed

context user_comparator
begin

lemma file_order:
  assumes "file_ok Compare f"
  shows "Compare (ExtractUserKey (smallest f)) (ExtractUserKey (largest f)) \<le> 0"
  using assms by (auto simp: file_ok_def internal_le_iff)

lemma level_sorted_largest:
  assumes "level_sorted Compare F files"
  shows "sorted_wrt (\<lambda>a b. InternalKeyCompare Compare a b < 0) (map (\<lambda>f. largest (F f)) files)"
proof -
  have "InternalKeyCompare Compare (largest (F a)) (largest (F b)) < 0"
    if "b \<in> set files" "InternalKeyCompare Compare (largest (F a)) (smallest (F b)) < 0" "a \<in> set files" for a b
    using that assms icmp.Compare_less_le_trans [of "largest (F a)" "smallest (F b)" "largest (F b)"] file_ok_length
    by (auto simp: level_sorted_def file_ok_def)
  then show ?thesis
    using assms unfolding level_sorted_def sorted_wrt_map
    by (blast intro: sorted_wrt_mono_rel [of files, rotated])
qed

lemma FindFile_loop_seek:
  assumes sorted: "level_sorted Compare F files" and key: "8 \<le> length key"
    and p: "p = seek_pos (InternalKeyCompare Compare) key (map (\<lambda>f. largest (F f)) files)"
    and "left \<le> p" "p \<le> right" "right \<le> length files"
  shows "FindFile_loop Compare F files key left right = p"
  using assms(4-6)
proof (induction "right - left" arbitrary: left right rule: less_induct)
  case less
  define mid where "mid = (left + right) div 2"
  show ?case
  proof (cases "left < right")
    case False
    then show ?thesis
      using less.prems by (simp add: FindFile_loop.simps)
  next
    case True
    then have mid: "left \<le> mid" "mid < right" "mid < length files"
      using less.prems(3) by (auto simp: mid_def)
    have lens: "\<forall>k \<in> set (map (\<lambda>f. largest (F f)) files). 8 \<le> length k"
      using sorted file_ok_length by (auto simp: level_sorted_def)
    have iff: "InternalKeyCompare Compare (largest (F (files ! mid))) key < 0 \<longleftrightarrow> mid < p"
      using icmp.seek_pos_iff [OF level_sorted_largest [OF sorted] lens key, of mid] mid(3) by (simp add: p)
    show ?thesis
    proof (cases "mid < p")
      case True
      have "FindFile_loop Compare F files key (mid + 1) right = p"
        by (rule less.hyps) (use True mid less.prems in auto)
      then show ?thesis
        using True \<open>left < right\<close> iff by (subst FindFile_loop.simps) (simp add: mid_def [symmetric] Let_def)
    next
      case False
      have "FindFile_loop Compare F files key left mid = p"
        by (rule less.hyps) (use False mid less.prems in auto)
      then show ?thesis
        using False \<open>left < right\<close> iff by (subst FindFile_loop.simps) (simp add: mid_def [symmetric] Let_def)
    qed
  qed
qed

lemma FindFile_seek:
  assumes "level_sorted Compare F files" "8 \<le> length key"
  shows "FindFile Compare F files key = seek_pos (InternalKeyCompare Compare) key (map (\<lambda>f. largest (F f)) files)"
  unfolding FindFile_def using assms seek_pos_le_map by (intro FindFile_loop_seek) auto

lemma FindFile_bounds:
  assumes "level_sorted Compare F files" "8 \<le> length key"
  shows "j < FindFile Compare F files key \<Longrightarrow> InternalKeyCompare Compare (largest (F (files ! j))) key < 0"
    and "j < length files \<Longrightarrow> FindFile Compare F files key \<le> j \<Longrightarrow> \<not> InternalKeyCompare Compare (largest (F (files ! j))) key < 0"
    and "FindFile Compare F files key \<le> length files"
proof -
  let ?ks = "map (\<lambda>f. largest (F f)) files"
  have lens: "\<forall>k \<in> set ?ks. 8 \<le> length k"
    using assms(1) file_ok_length by (auto simp: level_sorted_def)
  have le: "seek_pos (InternalKeyCompare Compare) key ?ks \<le> length files"
    by simp
  have iff: "i < length files \<Longrightarrow> i < seek_pos (InternalKeyCompare Compare) key ?ks \<longleftrightarrow>
      InternalKeyCompare Compare (largest (F (files ! i))) key < 0" for i
    using icmp.seek_pos_iff [OF level_sorted_largest [OF assms(1)] lens assms(2), of i] by simp
  show "j < FindFile Compare F files key \<Longrightarrow> InternalKeyCompare Compare (largest (F (files ! j))) key < 0"
    using iff [of j] le by (simp add: FindFile_seek [OF assms])
  show "j < length files \<Longrightarrow> FindFile Compare F files key \<le> j \<Longrightarrow> \<not> InternalKeyCompare Compare (largest (F (files ! j))) key < 0"
    using iff [of j] by (simp add: FindFile_seek [OF assms])
  show "FindFile Compare F files key \<le> length files"
    using le by (simp add: FindFile_seek [OF assms])
qed

lemma overlap_scan_iff:
  "overlap_scan Compare F b e files \<longleftrightarrow> (\<exists>f \<in> set files. overlaps Compare F b e f)"
proof (induction files)
  case (Cons f fs)
  have "AfterFile Compare F b f = below Compare (file_limit F f) b" "BeforeFile Compare F e f = above Compare (file_start F f) e"
    using Compare_less_flip by (auto simp: AfterFile_def BeforeFile_def below_def above_def split: option.splits)
  then show ?case
    using Cons by (auto simp: overlaps_def)
qed simp

text \<open>In a sorted level the user keys of the bounds do not decrease.\<close>

lemma level_sorted_user:
  assumes "level_sorted Compare F files" "i < j" "j < length files"
  shows "Compare (file_limit F (files ! i)) (file_start F (files ! j)) \<le> 0"
    "Compare (file_start F (files ! i)) (file_start F (files ! j)) \<le> 0"
    "Compare (file_limit F (files ! i)) (file_limit F (files ! j)) \<le> 0"
proof -
  have "InternalKeyCompare Compare (largest (F (files ! i))) (smallest (F (files ! j))) < 0"
    using assms by (auto simp: level_sorted_def sorted_wrt_iff_nth_less)
  then show 1: "Compare (file_limit F (files ! i)) (file_start F (files ! j)) \<le> 0"
    by (auto simp: internal_less_iff)
  have ok: "file_ok Compare (F (files ! i))" "file_ok Compare (F (files ! j))"
    using assms by (auto simp: level_sorted_def)
  show "Compare (file_start F (files ! i)) (file_start F (files ! j)) \<le> 0"
    using Compare_trans [OF _ _ _ file_order [OF ok(1)] 1] by simp
  show "Compare (file_limit F (files ! i)) (file_limit F (files ! j)) \<le> 0"
    using Compare_trans [OF _ _ _ 1 file_order [OF ok(2)]] by simp
qed

lemma SomeFileOverlapsRange_iff:
  assumes "disjoint \<Longrightarrow> level_sorted Compare F files"
  shows "SomeFileOverlapsRange Compare F disjoint files b e \<longleftrightarrow> (\<exists>f \<in> set files. overlaps Compare F b e f)"
proof (cases disjoint)
  case False
  then show ?thesis
    by (simp add: SomeFileOverlapsRange_def overlap_scan_iff)
next
  case True
  then have sorted: "level_sorted Compare F files"
    using assms by blast
  define i where "i = (case b of None \<Rightarrow> 0
    | Some k \<Rightarrow> FindFile Compare F files (InternalKey_make k kMaxSequenceNumber kValueTypeForSeek))"
  have first: "j < length files \<Longrightarrow> below Compare (file_limit F (files ! j)) b \<longleftrightarrow> j < i" for j
  proof (cases b)
    case (Some k)
    assume j: "j < length files"
    let ?small = "InternalKey_make k kMaxSequenceNumber kValueTypeForSeek"
    have len: "8 \<le> length ?small"
      by simp
    have "key_ok (largest (F (files ! j)))"
      using sorted j by (auto simp: level_sorted_def file_ok_def)
    then have "InternalKeyCompare Compare (largest (F (files ! j))) ?small < 0 \<longleftrightarrow> Compare (file_limit F (files ! j)) k < 0"
      using key_ok_tag [of "largest (F (files ! j))"] by (auto simp: internal_less_iff)
    then show ?thesis
      using FindFile_bounds(1,2) [OF sorted len, of j] j Some
      by (cases "j < FindFile Compare F files ?small") (auto simp: below_def i_def)
  qed (simp add: below_def i_def)
  have BeforeFile: "BeforeFile Compare F e f = above Compare (file_start F f) e" for f
    using Compare_less_flip by (auto simp: BeforeFile_def above_def split: option.splits)
  have "(\<exists>f \<in> set files. overlaps Compare F b e f) \<longleftrightarrow> i < length files \<and> \<not> above Compare (file_start F (files ! i)) e"
  proof
    assume "\<exists>f \<in> set files. overlaps Compare F b e f"
    then obtain j where j: "j < length files" "i \<le> j" "\<not> above Compare (file_start F (files ! j)) e"
      using first by (auto simp: overlaps_def in_set_conv_nth)
    moreover have "\<not> above Compare (file_start F (files ! i)) e"
    proof (cases "i = j")
      case False
      then have "Compare (file_start F (files ! i)) (file_start F (files ! j)) \<le> 0"
        using level_sorted_user(2) [OF sorted, of i j] j by simp
      then show ?thesis
        using j(3) Compare_trans [of "file_start F (files ! i)" "file_start F (files ! j)"]
        by (auto simp: above_def not_less split: option.splits)
    qed (use j in simp)
    ultimately show "i < length files \<and> \<not> above Compare (file_start F (files ! i)) e"
      by simp
  next
    assume "i < length files \<and> \<not> above Compare (file_start F (files ! i)) e"
    then show "\<exists>f \<in> set files. overlaps Compare F b e f"
      using first [of i] by (auto simp: overlaps_def intro!: bexI [of _ "files ! i"])
  qed
  then show ?thesis
    using True BeforeFile by (simp add: SomeFileOverlapsRange_def i_def [symmetric] Let_def not_le)
qed

text \<open>The files that overlap a range; above level 0 the range stays as it is.\<close>

lemma GetOverlappingInputs_above0:
  assumes "0 < level"
  shows "GetOverlappingInputs Compare F (files :: 'f list list) level b e =
    Some (filter (overlaps Compare F (map_option ExtractUserKey b) (map_option ExtractUserKey e)) (files ! level))"
proof -
  let ?b = "map_option ExtractUserKey b"
  let ?e = "map_option ExtractUserKey e"
  let ?fs = "files ! level"
  let ?body = "GetOverlapping_body Compare F level ?fs"
  define I :: "'f overlap_state \<Rightarrow> bool" where "I s \<longleftrightarrow> os_i s \<le> length ?fs \<and> os_begin s = ?b \<and> os_end s = ?e \<and>
    os_inputs s = filter (overlaps Compare F ?b ?e) (take (os_i s) ?fs)" for s
  have "\<exists>r. loop_until ?body \<lparr>os_i = 0, os_inputs = [], os_begin = ?b, os_end = ?e\<rparr> = Some r \<and>
      r = filter (overlaps Compare F ?b ?e) ?fs"
  proof (rule loop_until_rule [where I = I and R = "measure (\<lambda>s. length ?fs - os_i s)"])
    fix s s'
    assume s: "I s" "?body s = Inl s'"
    then have i: "os_i s < length ?fs"
      by (auto simp: GetOverlapping_body_def split: if_splits)
    then show "I s' \<and> (s', s) \<in> measure (\<lambda>s. length ?fs - os_i s)"
      using s assms by (auto simp: GetOverlapping_body_def I_def Let_def overlaps_def take_Suc_conv_app_nth split: if_splits)
  next
    fix s r
    assume "I s" "?body s = Inr r"
    then show "r = filter (overlaps Compare F ?b ?e) ?fs"
      by (auto simp: GetOverlapping_body_def I_def Let_def split: if_splits)
  qed (simp_all add: I_def)
  then show ?thesis
    by (simp add: GetOverlappingInputs_def)
qed

lemma starts_trans:
  assumes "starts_at_or_below Compare b1 b2" "starts_at_or_below Compare b2 b3"
  shows "starts_at_or_below Compare b1 b3"
  using assms Compare_trans by (auto simp: starts_at_or_below_def split: option.splits)

lemma ends_trans:
  assumes "ends_at_or_above Compare e1 e2" "ends_at_or_above Compare e2 e3"
  shows "ends_at_or_above Compare e1 e3"
  using assms Compare_trans by (auto simp: ends_at_or_above_def split: option.splits)

lemma overlaps_wider:
  assumes "overlaps Compare F b e f" "starts_at_or_below Compare b' b" "ends_at_or_above Compare e' e"
  shows "overlaps Compare F b' e' f"
proof -
  have "\<not> below Compare (file_limit F f) b'"
    using assms(1,2) Compare_less_le_trans [of "file_limit F f"]
    by (auto simp: overlaps_def below_def starts_at_or_below_def split: option.splits)
  moreover have "\<not> above Compare (file_start F f) e'"
    using assms(1,3) Compare_le_less_trans [of _ _ "file_start F f"] Compare_less_flip
    by (fastforce simp: overlaps_def above_def ends_at_or_above_def split: option.splits)
  ultimately show ?thesis
    by (simp add: overlaps_def)
qed

lemma not_below_starts: "\<not> below Compare k B \<longleftrightarrow> starts_at_or_below Compare B (Some k)"
  using Compare_less_flip by (auto simp: below_def starts_at_or_below_def not_less split: option.splits)

lemma not_above_ends: "\<not> above Compare k E \<longleftrightarrow> ends_at_or_above Compare E (Some k)"
  by (auto simp: above_def ends_at_or_above_def not_less split: option.splits)

lemma below_starts: "below Compare k b \<Longrightarrow> starts_at_or_below Compare (Some k) b"
  by (auto simp: below_def starts_at_or_below_def split: option.splits)

lemma greater_flip: "0 < Compare a b \<longleftrightarrow> Compare b a < 0"
  using Compare_less_flip [of b a] by simp

lemma above_ends: "above Compare k e \<Longrightarrow> ends_at_or_above Compare (Some k) e"
  by (auto simp: above_def ends_at_or_above_def greater_flip split: option.splits)

definition goi_inv :: "('f \<Rightarrow> FileMetaData) \<Rightarrow> 'f list \<Rightarrow> bytes option \<Rightarrow> bytes option \<Rightarrow> 'f overlap_state \<Rightarrow> bool" where
  "goi_inv F files b0 e0 s \<longleftrightarrow>
     os_i s \<le> length files \<and>
     os_inputs s = filter (overlaps Compare F (os_begin s) (os_end s)) (take (os_i s) files) \<and>
     (\<forall>f \<in> set (os_inputs s). within Compare F (os_begin s) (os_end s) f) \<and>
     starts_at_or_below Compare (os_begin s) b0 \<and> ends_at_or_above Compare (os_end s) e0 \<and>
     (\<forall>B E. closed_range Compare F files B E \<and> starts_at_or_below Compare B b0 \<and> ends_at_or_above Compare E e0 \<longrightarrow>
        starts_at_or_below Compare B (os_begin s) \<and> ends_at_or_above Compare E (os_end s))"

definition goi_measure :: "('f \<Rightarrow> FileMetaData) \<Rightarrow> 'f list \<Rightarrow> 'f overlap_state \<Rightarrow> nat \<times> nat" where
  "goi_measure F files s =
     (card {f \<in> set files. below Compare (file_start F f) (os_begin s)} +
      card {f \<in> set files. above Compare (file_limit F f) (os_end s)}, length files - os_i s)"

lemma below_shrinks:
  assumes "f \<in> set files" "below Compare (g f) b"
  shows "card {x \<in> set files. below Compare (g x) (Some (g f))} < card {x \<in> set files. below Compare (g x) b}"
proof (rule psubset_card_mono)
  have "below Compare (g x) b" if "below Compare (g x) (Some (g f))" for x
    using that assms(2) Compare_less_trans [of "g x" "g f"] by (auto simp: below_def split: option.splits)
  moreover have "\<not> below Compare (g f) (Some (g f))"
    by (simp add: below_def Compare_self)
  ultimately show "{x \<in> set files. below Compare (g x) (Some (g f))} \<subset> {x \<in> set files. below Compare (g x) b}"
    using assms by auto
qed simp

lemma above_shrinks:
  assumes "f \<in> set files" "above Compare (g f) e"
  shows "card {x \<in> set files. above Compare (g x) (Some (g f))} < card {x \<in> set files. above Compare (g x) e}"
proof (rule psubset_card_mono)
  have "above Compare (g x) e" if "above Compare (g x) (Some (g f))" for x
    using that assms(2) Compare_less_trans [of _ "g f" "g x"] by (auto simp: above_def greater_flip split: option.splits)
  moreover have "\<not> above Compare (g f) (Some (g f))"
    by (simp add: above_def Compare_self)
  ultimately show "{x \<in> set files. above Compare (g x) (Some (g f))} \<subset> {x \<in> set files. above Compare (g x) e}"
    using assms by auto
qed simp

lemma goi_step:
  assumes inv: "goi_inv F files b0 e0 s" and step: "GetOverlapping_body Compare F 0 files s = Inl s'"
  shows "goi_inv F files b0 e0 s'" "(goi_measure F files s', goi_measure F files s) \<in> less_than <*lex*> less_than"
proof -
  have i: "os_i s < length files"
    using step by (auto simp: GetOverlapping_body_def split: if_splits)
  define f where "f = files ! os_i s"
  have f: "f \<in> set files" "take (Suc (os_i s)) files = take (os_i s) files @ [f]"
    using i by (simp_all add: f_def take_Suc_conv_app_nth)
  let ?next = "s\<lparr>os_i := os_i s + 1\<rparr>"
  consider (skip) "\<not> overlaps Compare F (os_begin s) (os_end s) f" "s' = ?next"
    | (grow_begin) "overlaps Compare F (os_begin s) (os_end s) f" "below Compare (file_start F f) (os_begin s)"
        "s' = ?next\<lparr>os_begin := Some (file_start F f), os_inputs := [], os_i := 0\<rparr>"
    | (grow_end) "overlaps Compare F (os_begin s) (os_end s) f" "above Compare (file_limit F f) (os_end s)"
        "s' = ?next\<lparr>os_end := Some (file_limit F f), os_inputs := [], os_i := 0\<rparr>"
    | (take_it) "overlaps Compare F (os_begin s) (os_end s) f" "within Compare F (os_begin s) (os_end s) f"
        "s' = ?next\<lparr>os_inputs := os_inputs s @ [f]\<rparr>"
    using step i by (auto simp: GetOverlapping_body_def Let_def f_def overlaps_def within_def split: if_splits)
  then have "goi_inv F files b0 e0 s' \<and> (goi_measure F files s', goi_measure F files s) \<in> less_than <*lex*> less_than"
  proof cases
    case skip
    then show ?thesis
      using inv i f by (auto simp: goi_inv_def goi_measure_def)
  next
    case take_it
    then show ?thesis
      using inv i f by (auto simp: goi_inv_def goi_measure_def)
  next
    case grow_begin
    have "starts_at_or_below Compare B (Some (file_start F f))"
      if "closed_range Compare F files B E" "starts_at_or_below Compare B b0" "ends_at_or_above Compare E e0" for B E
    proof -
      have "overlaps Compare F B E f"
        using that inv by (intro overlaps_wider [OF grow_begin(1)]) (auto simp: goi_inv_def)
      then show ?thesis
        using that(1) f(1) by (auto simp: closed_range_def within_def not_below_starts)
    qed
    moreover have "starts_at_or_below Compare (Some (file_start F f)) b0"
      using inv by (intro starts_trans [OF below_starts [OF grow_begin(2)]]) (simp add: goi_inv_def)
    ultimately show ?thesis
      using inv grow_begin(3) below_shrinks [where g = "file_start F", OF f(1) grow_begin(2)]
      by (auto simp: goi_inv_def goi_measure_def)
  next
    case grow_end
    have "ends_at_or_above Compare E (Some (file_limit F f))"
      if "closed_range Compare F files B E" "starts_at_or_below Compare B b0" "ends_at_or_above Compare E e0" for B E
    proof -
      have "overlaps Compare F B E f"
        using that inv by (intro overlaps_wider [OF grow_end(1)]) (auto simp: goi_inv_def)
      then show ?thesis
        using that(1) f(1) by (auto simp: closed_range_def within_def not_above_ends)
    qed
    moreover have "ends_at_or_above Compare (Some (file_limit F f)) e0"
      using inv by (intro ends_trans [OF above_ends [OF grow_end(2)]]) (simp add: goi_inv_def)
    ultimately show ?thesis
      using inv grow_end(3) above_shrinks [where g = "file_limit F", OF f(1) grow_end(2)]
      by (auto simp: goi_inv_def goi_measure_def)
  qed
  then show "goi_inv F files b0 e0 s'" "(goi_measure F files s', goi_measure F files s) \<in> less_than <*lex*> less_than"
    by blast+
qed

lemma GetOverlappingInputs_level0:
  shows "\<exists>b' e'. GetOverlappingInputs Compare F files 0 b e = Some (filter (overlaps Compare F b' e') (files ! 0)) \<and>
    closed_range Compare F (files ! 0) b' e' \<and>
    starts_at_or_below Compare b' (map_option ExtractUserKey b) \<and> ends_at_or_above Compare e' (map_option ExtractUserKey e) \<and>
    (\<forall>B E. closed_range Compare F (files ! 0) B E \<and> starts_at_or_below Compare B (map_option ExtractUserKey b) \<and>
       ends_at_or_above Compare E (map_option ExtractUserKey e) \<longrightarrow>
       starts_at_or_below Compare B b' \<and> ends_at_or_above Compare E e')"
proof -
  let ?b = "map_option ExtractUserKey b" and ?e = "map_option ExtractUserKey e" and ?fs = "files ! 0"
  let ?Q = "\<lambda>r. \<exists>b' e'. r = filter (overlaps Compare F b' e') ?fs \<and> closed_range Compare F ?fs b' e' \<and>
    starts_at_or_below Compare b' ?b \<and> ends_at_or_above Compare e' ?e \<and>
    (\<forall>B E. closed_range Compare F ?fs B E \<and> starts_at_or_below Compare B ?b \<and> ends_at_or_above Compare E ?e \<longrightarrow>
       starts_at_or_below Compare B b' \<and> ends_at_or_above Compare E e')"
  have "\<exists>r. loop_until (GetOverlapping_body Compare F 0 ?fs) \<lparr>os_i = 0, os_inputs = [], os_begin = ?b, os_end = ?e\<rparr> = Some r \<and> ?Q r"
  proof (rule loop_until_rule [where I = "goi_inv F ?fs ?b ?e"
        and R = "inv_image (less_than <*lex*> less_than) (goi_measure F ?fs)" and Q = ?Q])
    show "goi_inv F ?fs ?b ?e \<lparr>os_i = 0, os_inputs = [], os_begin = ?b, os_end = ?e\<rparr>"
      by (auto simp: goi_inv_def starts_at_or_below_def ends_at_or_above_def Compare_self split: option.splits)
  next
    fix s s'
    assume "goi_inv F ?fs ?b ?e s" "GetOverlapping_body Compare F 0 ?fs s = Inl s'"
    from goi_step [OF this] show "goi_inv F ?fs ?b ?e s' \<and> (s', s) \<in> inv_image (less_than <*lex*> less_than) (goi_measure F ?fs)"
      by (simp only: in_inv_image simp_thms)
  next
    fix s r
    assume s: "goi_inv F ?fs ?b ?e s" "GetOverlapping_body Compare F 0 ?fs s = Inr r"
    then have "os_i s = length ?fs" "r = os_inputs s"
      by (auto simp: GetOverlapping_body_def goi_inv_def Let_def split: if_splits)
    then show "?Q r"
      using s(1) by (intro exI [of _ "os_begin s"] exI [of _ "os_end s"]) (auto simp: goi_inv_def closed_range_def)
  qed auto
  then show ?thesis
    by (auto simp: GetOverlappingInputs_def)
qed

lemma OverlapInLevel_iff:
  assumes "0 < level \<Longrightarrow> level_sorted Compare F (files ! level)"
  shows "OverlapInLevel Compare F files level b e \<longleftrightarrow> (\<exists>f \<in> set (files ! level). overlaps Compare F b e f)"
  unfolding OverlapInLevel_def using assms by (rule SomeFileOverlapsRange_iff)

lemma PickLevel_loop_spec:
  assumes sorted: "\<forall>l. 0 < l \<longrightarrow> l < kNumLevels \<longrightarrow> level_sorted Compare F (files ! l)" and "level \<le> kMaxMemCompactLevel"
  shows "\<exists>L. PickLevel_loop Compare F files small large level = Some L \<and> level \<le> L \<and> L \<le> kMaxMemCompactLevel \<and>
    (\<forall>l. level < l \<and> l \<le> L \<longrightarrow> (\<forall>f \<in> set (files ! l). \<not> overlaps Compare F (Some small) (Some large) f))"
  using assms(2)
proof (induction "kMaxMemCompactLevel - level" arbitrary: level)
  case 0
  then show ?case
    by (subst PickLevel_loop.simps) auto
next
  case (Suc d)
  then have level: "level < kMaxMemCompactLevel"
    by simp
  then have small: "level + 2 < kNumLevels"
    by (simp add: kMaxMemCompactLevel_def kNumLevels_def)
  let ?overlap = "OverlapInLevel Compare F files (level + 1) (Some small) (Some large)"
  have iff: "?overlap \<longleftrightarrow> (\<exists>f \<in> set (files ! (level + 1)). overlaps Compare F (Some small) (Some large) f)"
    by (rule OverlapInLevel_iff) (use sorted small in simp)
  have goi: "GetOverlappingInputs Compare F files (level + 2) b e =
      Some (filter (overlaps Compare F (map_option ExtractUserKey b) (map_option ExtractUserKey e)) (files ! (level + 2)))" for b e
    by (rule GetOverlappingInputs_above0) simp
  have step: "PickLevel_loop Compare F files small large level =
      (if ?overlap then Some level
       else if TotalFileSize F (filter (overlaps Compare F (Some small) (Some large)) (files ! (level + 2))) > kMaxGrandParentOverlapBytes
       then Some level else PickLevel_loop Compare F files small large (level + 1))"
    using level small by (subst PickLevel_loop.simps) (simp add: goi [simplified])
  obtain L where L: "PickLevel_loop Compare F files small large (level + 1) = Some L" "level + 1 \<le> L" "L \<le> kMaxMemCompactLevel"
    "\<forall>l. level + 1 < l \<and> l \<le> L \<longrightarrow> (\<forall>f \<in> set (files ! l). \<not> overlaps Compare F (Some small) (Some large) f)"
  proof -
    have "d = kMaxMemCompactLevel - (level + 1)"
      using Suc.hyps(2) by simp
    from Suc.hyps(1) [OF this] level that show thesis
      by auto
  qed
  show ?case
  proof (cases "?overlap \<or> TotalFileSize F (filter (overlaps Compare F (Some small) (Some large)) (files ! (level + 2))) > kMaxGrandParentOverlapBytes")
    case True
    then show ?thesis
      using step level by auto
  next
    case False
    have "\<forall>f \<in> set (files ! l). \<not> overlaps Compare F (Some small) (Some large) f" if "level < l" "l \<le> L" for l
    proof (cases "l = level + 1")
      case True
      then show ?thesis
        using False iff by auto
    next
      case False
      then have "level + 1 < l"
        using that(1) by simp
      then show ?thesis
        using L(4) that(2) by blast
    qed
    then show ?thesis
      using step False L(1-3) by auto
  qed
qed

lemma PickLevel_spec:
  assumes "\<forall>l. 0 < l \<longrightarrow> l < kNumLevels \<longrightarrow> level_sorted Compare F (files ! l)"
  shows "\<exists>L. PickLevelForMemTableOutput Compare F files small large = Some L \<and> L \<le> kMaxMemCompactLevel \<and>
    (0 < L \<longrightarrow> (\<forall>l \<le> L. \<forall>f \<in> set (files ! l). \<not> overlaps Compare F (Some small) (Some large) f))"
proof -
  have iff: "OverlapInLevel Compare F files 0 (Some small) (Some large) \<longleftrightarrow>
      (\<exists>f \<in> set (files ! 0). overlaps Compare F (Some small) (Some large) f)"
    by (rule OverlapInLevel_iff) simp
  obtain L where "PickLevel_loop Compare F files small large 0 = Some L" "L \<le> kMaxMemCompactLevel"
    "\<forall>l. 0 < l \<and> l \<le> L \<longrightarrow> (\<forall>f \<in> set (files ! l). \<not> overlaps Compare F (Some small) (Some large) f)"
    using PickLevel_loop_spec [OF assms, of 0 small large] by auto
  then show ?thesis
    using iff by (auto simp: PickLevelForMemTableOutput_def) (metis neq0_conv)
qed

end

section \<open>An example\<close>

text \<open>Level 1 has two files that share a user key.\<close>

definition sample_key :: "u64 \<Rightarrow> InternalKey" where
  "sample_key s = InternalKey_make [1] s kTypeValue"

definition sample_meta :: "nat \<Rightarrow> FileMetaData" where
  "sample_meta n = FileMetaData_new\<lparr>file_number := of_nat n, fsize := 100, smallest := sample_key (of_nat n), largest := sample_key (of_nat n)\<rparr>"

definition sample_levels :: "nat list list" where
  "sample_levels = [[], [9, 5], [], [], [], [], []]"

lemma sample_order:
  "InternalKeyCompare BytewiseCompare (sample_key 9) (sample_key 5) < 0"
  "InternalKeyCompare BytewiseCompare (sample_key n) (sample_key n) \<le> 0"
proof -
  have "PackSequenceAndType 5 kTypeValue < PackSequenceAndType 9 kTypeValue"
    by code_simp
  then show "InternalKeyCompare BytewiseCompare (sample_key 9) (sample_key 5) < 0"
    by (simp add: bytewise_user.internal_less_iff sample_key_def BytewiseCompare_def Slice_compare_eq)
qed (simp add: bytewise_user.internal_self)

lemma sample_key_ok: "n \<in> {5, 9} \<Longrightarrow> key_ok (sample_key n)"
proof -
  assume "n \<in> {5, 9}"
  then have "n \<le> kMaxSequenceNumber"
    by (auto simp: kMaxSequenceNumber_eq)
  then show ?thesis
    by (simp add: sample_key_def ParseInternalKey_make)
qed

lemma sample_sorted: "level_sorted BytewiseCompare sample_meta (sample_levels ! 1)"
  using sample_order sample_key_ok by (simp add: level_sorted_def sample_levels_def file_ok_def sample_meta_def)

lemma sample_levels_nth: "l < kNumLevels \<Longrightarrow> l \<noteq> 1 \<Longrightarrow> sample_levels ! l = []"
  by (auto simp: kNumLevels_def sample_levels_def less_Suc_eq eval_nat_numeral)

lemma sample_all_sorted: "0 < l \<longrightarrow> l < kNumLevels \<longrightarrow> level_sorted BytewiseCompare sample_meta (sample_levels ! l)"
  using sample_sorted sample_levels_nth [of l] by (cases "l = 1") (auto simp: level_sorted_def)

section \<open>Properties\<close>

text \<open>C16: the search for overlapping files ends and finds what it should. Above level 0 \<open>GetOverlappingInputs\<close>
  returns exactly the files of the level that overlap the range. In level 0, where a file that sticks out
  of the range extends it and the search starts again, it ends for every comparator that is an order, and
  returns exactly the files that overlap the least range around the given one that no overlapping file
  sticks out of.\<close>

theorem overlapping_inputs_closed:
  assumes "user_comparator Compare sep succ"
  shows "(\<forall>level > 0. GetOverlappingInputs Compare F files level b e =
      Some (filter (overlaps Compare F (map_option ExtractUserKey b) (map_option ExtractUserKey e)) (files ! level))) \<and>
    (\<exists>b' e'. GetOverlappingInputs Compare F files 0 b e = Some (filter (overlaps Compare F b' e') (files ! 0)) \<and>
       closed_range Compare F (files ! 0) b' e' \<and>
       starts_at_or_below Compare b' (map_option ExtractUserKey b) \<and> ends_at_or_above Compare e' (map_option ExtractUserKey e) \<and>
       (\<forall>B E. closed_range Compare F (files ! 0) B E \<and> starts_at_or_below Compare B (map_option ExtractUserKey b) \<and>
          ends_at_or_above Compare E (map_option ExtractUserKey e) \<longrightarrow>
          starts_at_or_below Compare B b' \<and> ends_at_or_above Compare E e'))"
  using user_comparator.GetOverlappingInputs_above0 [OF assms, of _ F files b e]
    user_comparator.GetOverlappingInputs_level0 [OF assms, of F files b e] by blast

theorem overlapping_inputs_closed_witness:
  "\<exists>inputs. GetOverlappingInputs BytewiseCompare sample_meta sample_levels 0 (Some (sample_key 7)) None = Some inputs"
  using overlapping_inputs_closed [OF bytewise_user.user_comparator_axioms, of sample_meta sample_levels "Some (sample_key 7)" None]
  by blast

text \<open>C20: on the files of a level above 0, which are in order, the overlap test by binary search gives the
  same answer as the scan of all files it replaces; null bounds included.\<close>

theorem overlap_search_is_scan:
  assumes "user_comparator Compare sep succ" "level_sorted Compare F files"
  shows "SomeFileOverlapsRange Compare F True files b e = SomeFileOverlapsRange Compare F False files b e"
  using user_comparator.SomeFileOverlapsRange_iff [OF assms(1), of _ F files b e] assms(2) by simp

theorem overlap_search_is_scan_witness:
  "SomeFileOverlapsRange BytewiseCompare sample_meta True [9, 5] (Some [1]) None =
   SomeFileOverlapsRange BytewiseCompare sample_meta False [9, 5] (Some [1]) None"
proof -
  have "level_sorted BytewiseCompare sample_meta [9, 5]"
    using sample_sorted by (simp add: sample_levels_def)
  from overlap_search_is_scan [OF bytewise_user.user_comparator_axioms this] show ?thesis .
qed

text \<open>C17: a memtable is never written too low. The level \<open>PickLevelForMemTableOutput\<close> chooses is at most
  \<open>kMaxMemCompactLevel\<close>, and when it is not 0 no file of that level or of any level above it overlaps the
  user keys of the memtable, so that the new file neither overlaps its neighbours nor hides older data
  below newer data.\<close>

theorem memtable_output_level_safe:
  assumes "user_comparator Compare sep succ" "\<forall>l. 0 < l \<longrightarrow> l < kNumLevels \<longrightarrow> level_sorted Compare F (files ! l)"
  shows "\<exists>L. PickLevelForMemTableOutput Compare F files small large = Some L \<and> L \<le> kMaxMemCompactLevel \<and>
    (0 < L \<longrightarrow> (\<forall>l \<le> L. \<forall>f \<in> set (files ! l).
       Compare (file_limit F f) small < 0 \<or> Compare large (file_start F f) < 0))"
proof -
  obtain L where L: "PickLevelForMemTableOutput Compare F files small large = Some L" "L \<le> kMaxMemCompactLevel"
    "0 < L \<longrightarrow> (\<forall>l \<le> L. \<forall>f \<in> set (files ! l). \<not> overlaps Compare F (Some small) (Some large) f)"
    using user_comparator.PickLevel_spec [OF assms, of small large] by blast
  have "\<not> overlaps Compare F (Some small) (Some large) f \<longleftrightarrow> Compare (file_limit F f) small < 0 \<or> Compare large (file_start F f) < 0" for f
    using user_comparator.greater_flip [OF assms(1)] by (simp add: overlaps_def below_def above_def)
  with L show ?thesis
    by auto
qed

theorem memtable_output_level_safe_witness:
  "\<exists>L. PickLevelForMemTableOutput BytewiseCompare sample_meta sample_levels [0] [3] = Some L \<and> L \<le> kMaxMemCompactLevel"
proof -
  have "\<forall>l. 0 < l \<longrightarrow> l < kNumLevels \<longrightarrow> level_sorted BytewiseCompare sample_meta (sample_levels ! l)"
    using sample_all_sorted by blast
  from memtable_output_level_safe [OF bytewise_user.user_comparator_axioms this, of "[0]" "[3]"] show ?thesis
    by blast
qed

end
