(* ===== verification/Version_Read.thy ===== *)
theory Version_Read
  imports Version_Search
begin

text \<open>
  Reading a version, \<open>db/version_set.cc\<close>: the iterator over the files of a level, the search of a key through
  the levels, and the read samples. The table cache that opens and reads the files is an argument: its
  \<open>NewIterator\<close> and its \<open>Get\<close>. The iterator of a level is an instance of the two-level iterator.
\<close>

section \<open>Iterating over a level\<close>

text \<open>\<open>LevelFileNumIterator\<close>: the state is \<open>index_\<close>.\<close>

definition LevelFileNum_value :: "('f \<Rightarrow> FileMetaData) \<Rightarrow> 'f \<Rightarrow> bytes" where
  "LevelFileNum_value F f = EncodeFixed64 (file_number (F f)) @ EncodeFixed64 (fsize (F f))"

definition LevelFileNum_methods :: "(bytes \<Rightarrow> bytes \<Rightarrow> int) \<Rightarrow> ('f \<Rightarrow> FileMetaData) \<Rightarrow> 'f list \<Rightarrow> nat Iterator" where
  "LevelFileNum_methods Compare F flist =
     \<lparr> it_Valid = (\<lambda>index. index < length flist),
       it_SeekToFirst = (\<lambda>index. 0),
       it_SeekToLast = (\<lambda>index. if flist = [] then 0 else length flist - 1),
       it_Seek = (\<lambda>index target. FindFile Compare F flist target),
       it_Next = (\<lambda>index. index + 1),
       it_Prev = (\<lambda>index. if index = 0 then length flist else index - 1),
       it_key = (\<lambda>index. largest (F (flist ! index))),
       it_value = (\<lambda>index. LevelFileNum_value F (flist ! index)),
       it_status = (\<lambda>index. Status_OK) \<rparr>"

definition LevelFileNumIterator_new :: "'f list \<Rightarrow> nat" where
  "LevelFileNumIterator_new flist = length flist"

text \<open>\<open>NewIterator\<close> is that of the table cache: number and size of a file to an iterator.\<close>

definition GetFileIterator :: "(u64 \<Rightarrow> u64 \<Rightarrow> 'd) \<Rightarrow> bytes \<Rightarrow> Status + 'd" where
  "GetFileIterator NewIterator file_value =
     (if length file_value \<noteq> 16
      then Inl (NewErrorIterator (Corruption (str ''FileReader invoked with unexpected value'') []))
      else Inr (NewIterator (DecodeFixed64 file_value) (DecodeFixed64 (drop 8 file_value))))"

type_synonym 'd level_iterator = "(nat, Status + 'd) TwoLevelIterator option"

definition NewConcatenatingIterator ::
  "(bytes \<Rightarrow> bytes \<Rightarrow> int) \<Rightarrow> ('f \<Rightarrow> FileMetaData) \<Rightarrow> 'f list \<Rightarrow> 'd level_iterator" where
  "NewConcatenatingIterator Compare F flist =
     Some (TwoLevelIterator_new (LevelFileNum_methods Compare F flist) (LevelFileNumIterator_new flist))"

definition Concatenating_methods ::
  "(bytes \<Rightarrow> bytes \<Rightarrow> int) \<Rightarrow> ('f \<Rightarrow> FileMetaData) \<Rightarrow> 'd Iterator \<Rightarrow> (u64 \<Rightarrow> u64 \<Rightarrow> 'd) \<Rightarrow> 'f list \<Rightarrow> 'd level_iterator Iterator" where
  "Concatenating_methods Compare F D NewIterator flist =
     TwoLevel_methods (LevelFileNum_methods Compare F flist) (sum_methods EmptyIterator D) (GetFileIterator NewIterator)"

text \<open>The iterators \<open>AddIterators\<close> pushes: one for each file of level 0, one for each other level that
  has files, with the files it iterates over.\<close>

definition AddIterators ::
  "(bytes \<Rightarrow> bytes \<Rightarrow> int) \<Rightarrow> ('f \<Rightarrow> FileMetaData) \<Rightarrow> (u64 \<Rightarrow> u64 \<Rightarrow> 'd) \<Rightarrow> 'f list list \<Rightarrow>
   ('d + 'f list \<times> 'd level_iterator) list" where
  "AddIterators Compare F NewIterator files =
     map (\<lambda>f. Inl (NewIterator (file_number (F f)) (fsize (F f)))) (files ! 0) @
     concat (map (\<lambda>level. if files ! level \<noteq> []
                          then [Inr (files ! level, NewConcatenatingIterator Compare F (files ! level))] else [])
               [1..<kNumLevels])"

section \<open>Reading a key\<close>

datatype SaverState = Saver_kNotFound | Saver_kFound | Saver_kDeleted | Saver_kCorrupt

record Saver =
  sv_state :: SaverState
  sv_user_key :: bytes
  sv_value :: bytes

definition SaveValue :: "(bytes \<Rightarrow> bytes \<Rightarrow> int) \<Rightarrow> Saver \<Rightarrow> bytes \<Rightarrow> bytes \<Rightarrow> Saver" where
  "SaveValue Compare s ikey v =
     (case ParseInternalKey ikey of
        None \<Rightarrow> s\<lparr>sv_state := Saver_kCorrupt\<rparr>
      | Some parsed_key \<Rightarrow>
          if Compare (user_key parsed_key) (sv_user_key s) = 0
          then (let s = s\<lparr>sv_state := (if type parsed_key = kTypeValue then Saver_kFound else Saver_kDeleted)\<rparr>
                in if sv_state s = Saver_kFound then s\<lparr>sv_value := v\<rparr> else s)
          else s)"

text \<open>\<open>std::sort\<close> with \<open>NewestFirst\<close>.\<close>

definition NewestFirst :: "('f \<Rightarrow> FileMetaData) \<Rightarrow> 'f \<Rightarrow> 'f \<Rightarrow> bool" where
  "NewestFirst F a b \<longleftrightarrow> file_number (F b) < file_number (F a)"

definition sort_NewestFirst :: "('f \<Rightarrow> FileMetaData) \<Rightarrow> 'f list \<Rightarrow> 'f list" where
  "sort_NewestFirst F files = sort_key (\<lambda>f. - int (unat (file_number (F f)))) files"

definition level0_candidates :: "(bytes \<Rightarrow> bytes \<Rightarrow> int) \<Rightarrow> ('f \<Rightarrow> FileMetaData) \<Rightarrow> 'f list \<Rightarrow> bytes \<Rightarrow> 'f list" where
  "level0_candidates Compare F files ukey =
     sort_NewestFirst F (filter (\<lambda>f. Compare ukey (file_start F f) \<ge> 0 \<and> Compare ukey (file_limit F f) \<le> 0) files)"

definition level_candidates ::
  "(bytes \<Rightarrow> bytes \<Rightarrow> int) \<Rightarrow> ('f \<Rightarrow> FileMetaData) \<Rightarrow> 'f list \<Rightarrow> bytes \<Rightarrow> bytes \<Rightarrow> 'f list" where
  "level_candidates Compare F files ukey ikey =
     (let index = FindFile Compare F files ikey
      in if length files \<le> index then []
         else if Compare ukey (file_start F (files ! index)) < 0 then [] else [files ! index])"

definition Get_files ::
  "(bytes \<Rightarrow> bytes \<Rightarrow> int) \<Rightarrow> ('f \<Rightarrow> FileMetaData) \<Rightarrow> 'f list list \<Rightarrow> bytes \<Rightarrow> bytes \<Rightarrow> nat \<Rightarrow> 'f list" where
  "Get_files Compare F files ukey ikey level =
     (if level = 0 then level0_candidates Compare F (files ! 0) ukey
      else level_candidates Compare F (files ! level) ukey ikey)"

record 'f GetStats =
  seek_file :: "'f option"
  seek_file_level :: int

text \<open>The table cache's \<open>Get\<close>: number, size and key of a lookup to a status and what the saver is called with,
  if it is called. \<open>Get_scan\<close> is the inner loop: \<open>Inl\<close> is a return from \<open>Get\<close>.\<close>

record 'f Get_state =
  gs_stats :: "'f GetStats"
  gs_last_file_read :: "'f option"
  gs_last_file_read_level :: int

type_synonym table_get = "u64 \<Rightarrow> u64 \<Rightarrow> bytes \<Rightarrow> Status \<times> (bytes \<times> bytes) option"

definition Get_file ::
  "(bytes \<Rightarrow> bytes \<Rightarrow> int) \<Rightarrow> ('f \<Rightarrow> FileMetaData) \<Rightarrow> table_get \<Rightarrow> bytes \<Rightarrow> bytes \<Rightarrow> 'f \<Rightarrow> (Status \<times> bytes option) option" where
  "Get_file Compare F TableGet ukey ikey f =
     (let (s, saved) = TableGet (file_number (F f)) (fsize (F f)) ikey;
          saver = \<lparr>sv_state = Saver_kNotFound, sv_user_key = ukey, sv_value = []\<rparr>;
          saver = (case saved of None \<Rightarrow> saver | Some (k, v) \<Rightarrow> SaveValue Compare saver k v)
      in if \<not> ok s then Some (s, if sv_state saver = Saver_kFound then Some (sv_value saver) else None)
         else (case sv_state saver of
                 Saver_kNotFound \<Rightarrow> None
               | Saver_kFound \<Rightarrow> Some (s, Some (sv_value saver))
               | Saver_kDeleted \<Rightarrow> Some (NotFound [] [], None)
               | Saver_kCorrupt \<Rightarrow> Some (Corruption (str ''corrupted key for '') ukey, None)))"

fun Get_scan ::
  "(bytes \<Rightarrow> bytes \<Rightarrow> int) \<Rightarrow> ('f \<Rightarrow> FileMetaData) \<Rightarrow> table_get \<Rightarrow> bytes \<Rightarrow> bytes \<Rightarrow> nat \<Rightarrow> 'f list \<Rightarrow> 'f Get_state \<Rightarrow>
   (Status \<times> bytes option) \<times> 'f Get_state + 'f Get_state" where
  "Get_scan Compare F TableGet ukey ikey level [] st = Inr st"
| "Get_scan Compare F TableGet ukey ikey level (f # fs) st =
     (let st = (if gs_last_file_read st \<noteq> None \<and> seek_file (gs_stats st) = None
                then st\<lparr>gs_stats := \<lparr>seek_file = gs_last_file_read st, seek_file_level = gs_last_file_read_level st\<rparr>\<rparr>
                else st);
          st = st\<lparr>gs_last_file_read := Some f, gs_last_file_read_level := int level\<rparr>
      in case Get_file Compare F TableGet ukey ikey f of
           Some r \<Rightarrow> Inl (r, st)
         | None \<Rightarrow> Get_scan Compare F TableGet ukey ikey level fs st)"

fun Get_levels ::
  "(bytes \<Rightarrow> bytes \<Rightarrow> int) \<Rightarrow> ('f \<Rightarrow> FileMetaData) \<Rightarrow> table_get \<Rightarrow> 'f list list \<Rightarrow> bytes \<Rightarrow> bytes \<Rightarrow> nat list \<Rightarrow> 'f Get_state \<Rightarrow>
   (Status \<times> bytes option) \<times> 'f Get_state" where
  "Get_levels Compare F TableGet files ukey ikey [] st = ((NotFound [] [], None), st)"
| "Get_levels Compare F TableGet files ukey ikey (level # levels) st =
     (if files ! level = [] then Get_levels Compare F TableGet files ukey ikey levels st
      else case Get_scan Compare F TableGet ukey ikey level (Get_files Compare F files ukey ikey level) st of
             Inl r \<Rightarrow> r
           | Inr st \<Rightarrow> Get_levels Compare F TableGet files ukey ikey levels st)"

text \<open>\<open>Version::Get\<close>: the status, the value assigned if one is, and the statistics.\<close>

definition Version_Get ::
  "(bytes \<Rightarrow> bytes \<Rightarrow> int) \<Rightarrow> ('f \<Rightarrow> FileMetaData) \<Rightarrow> table_get \<Rightarrow> 'f list list \<Rightarrow> LookupKey \<Rightarrow>
   Status \<times> bytes option \<times> 'f GetStats" where
  "Version_Get Compare F TableGet files k =
     (let ((s, v), st) = Get_levels Compare F TableGet files (LookupKey_user_key k) (LookupKey_internal_key k) [0..<kNumLevels]
            \<lparr>gs_stats = \<lparr>seek_file = None, seek_file_level = - 1\<rparr>, gs_last_file_read = None, gs_last_file_read_level = - 1\<rparr>
      in (s, v, gs_stats st))"

section \<open>Read samples\<close>

text \<open>\<open>func\<close> returns whether to go on.\<close>

fun each_while :: "('f \<Rightarrow> 's \<Rightarrow> bool \<times> 's) \<Rightarrow> 'f list \<Rightarrow> 's \<Rightarrow> bool \<times> 's" where
  "each_while func [] s = (True, s)"
| "each_while func (f # fs) s = (case func f s of (True, s) \<Rightarrow> each_while func fs s | (False, s) \<Rightarrow> (False, s))"

fun ForEachOverlapping_levels ::
  "(bytes \<Rightarrow> bytes \<Rightarrow> int) \<Rightarrow> ('f \<Rightarrow> FileMetaData) \<Rightarrow> 'f list list \<Rightarrow> bytes \<Rightarrow> bytes \<Rightarrow> (nat \<Rightarrow> 'f \<Rightarrow> 's \<Rightarrow> bool \<times> 's) \<Rightarrow>
   nat list \<Rightarrow> 's \<Rightarrow> 's" where
  "ForEachOverlapping_levels Compare F files ukey ikey func [] s = s"
| "ForEachOverlapping_levels Compare F files ukey ikey func (level # levels) s =
     (if files ! level = [] then ForEachOverlapping_levels Compare F files ukey ikey func levels s
      else case each_while (func level) (level_candidates Compare F (files ! level) ukey ikey) s of
             (True, s) \<Rightarrow> ForEachOverlapping_levels Compare F files ukey ikey func levels s
           | (False, s) \<Rightarrow> s)"

definition ForEachOverlapping ::
  "(bytes \<Rightarrow> bytes \<Rightarrow> int) \<Rightarrow> ('f \<Rightarrow> FileMetaData) \<Rightarrow> 'f list list \<Rightarrow> bytes \<Rightarrow> bytes \<Rightarrow> (nat \<Rightarrow> 'f \<Rightarrow> 's \<Rightarrow> bool \<times> 's) \<Rightarrow> 's \<Rightarrow> 's" where
  "ForEachOverlapping Compare F files ukey ikey func s =
     (case each_while (func 0) (level0_candidates Compare F (files ! 0) ukey) s of
        (True, s) \<Rightarrow> ForEachOverlapping_levels Compare F files ukey ikey func [1..<kNumLevels] s
      | (False, s) \<Rightarrow> s)"

definition sample_match :: "nat \<Rightarrow> 'f \<Rightarrow> 'f GetStats \<times> nat \<Rightarrow> bool \<times> 'f GetStats \<times> nat" where
  "sample_match level f st =
     (let matches = snd st + 1;
          stats = (if matches = 1 then \<lparr>seek_file = Some f, seek_file_level = int level\<rparr> else fst st)
      in (matches < 2, stats, matches))"

text \<open>The first file that matches, when a second one matches too.\<close>

definition sample_stats ::
  "(bytes \<Rightarrow> bytes \<Rightarrow> int) \<Rightarrow> ('f \<Rightarrow> FileMetaData) \<Rightarrow> 'f list list \<Rightarrow> bytes \<Rightarrow> 'f GetStats option" where
  "sample_stats Compare F files ikey =
     (case ParseInternalKey ikey of
        None \<Rightarrow> None
      | Some parsed \<Rightarrow>
          (let (stats, matches) = ForEachOverlapping Compare F files (user_key parsed) ikey sample_match
                 (\<lparr>seek_file = None, seek_file_level = - 1\<rparr>, 0)
           in if 2 \<le> matches then Some stats else None))"

context user_comparator
begin

section \<open>The iterator over a level\<close>

abbreviation "icompare \<equiv> InternalKeyCompare Compare"

definition level_entries :: "('f \<Rightarrow> FileMetaData) \<Rightarrow> 'f list \<Rightarrow> (bytes \<times> bytes) list" where
  "level_entries F flist = map (\<lambda>f. (largest (F f), LevelFileNum_value F f)) flist"

definition level_on :: "('f \<Rightarrow> FileMetaData) \<Rightarrow> 'f list \<Rightarrow> nat \<Rightarrow> nat \<Rightarrow> bool" where
  "level_on F flist index j \<longleftrightarrow> level_sorted Compare F flist \<and> index = j \<and> j \<le> length flist"

lemma LevelFileNum_list_iterator:
  "list_iterator (LevelFileNum_methods Compare F flist) icompare (\<lambda>k. 8 \<le> length k) (level_entries F flist) (level_on F flist)"
proof (unfold_locales, goal_cases)
  case (2 it j)
  then show ?case
    using level_sorted_largest [of F flist] by (simp add: level_on_def level_entries_def comp_def)
next
  case (3 it j e)
  then show ?case
    using file_ok_length by (auto simp: level_on_def level_entries_def level_sorted_def)
next
  case (11 it j target)
  then show ?case
    using FindFile_seek [of F flist target] FindFile_bounds(3) [of F flist target]
    by (simp add: level_on_def level_entries_def LevelFileNum_methods_def comp_def)
qed (auto simp: level_on_def level_entries_def LevelFileNum_methods_def)

text \<open>With the entries of every file at hand, the concatenating iterator is a cursor on the entries of the
  whole level.\<close>

lemma level_two_level:
  assumes "\<forall>f \<in> set flist. list_iterator D icompare (\<lambda>k. 8 \<le> length k) (contents f) (don f)"
  shows "two_level icompare (\<lambda>k. 8 \<le> length k) (LevelFileNum_methods Compare F flist) (sum_methods EmptyIterator D)
       (level_entries F flist) (map contents flist) (level_on F flist) (map (\<lambda>f. right_on (don f)) flist)"
proof (intro two_level.intro two_level_axioms.intro icmp.comparator_axioms)
  show "list_iterator (LevelFileNum_methods Compare F flist) icompare (\<lambda>k. 8 \<le> length k) (level_entries F flist) (level_on F flist)"
    by (rule LevelFileNum_list_iterator)
  fix k
  assume "k < length (level_entries F flist)"
  then have "flist ! k \<in> set flist" "k < length flist"
    by (simp_all add: level_entries_def)
  then show "list_iterator (sum_methods EmptyIterator D) icompare (\<lambda>k. 8 \<le> length k) (map contents flist ! k)
      (map (\<lambda>f. right_on (don f)) flist ! k)"
    using sum_list_iterator [OF bspec [OF assms \<open>flist ! k \<in> set flist\<close>], of EmptyIterator] by simp
qed

end

section \<open>What a version holds\<close>

text \<open>The entries of a file (\<open>contents\<close>) increase strictly and its bounds are its first and last key.\<close>

definition contents_ok :: "(bytes \<Rightarrow> bytes \<Rightarrow> int) \<Rightarrow> FileMetaData \<Rightarrow> (bytes \<times> bytes) list \<Rightarrow> bool" where
  "contents_ok Compare f es \<longleftrightarrow>
     es \<noteq> [] \<and> smallest f = fst (hd es) \<and> largest f = fst (last es) \<and> (\<forall>e \<in> set es. key_ok (fst e)) \<and>
     sorted_wrt (\<lambda>a b. InternalKeyCompare Compare a b < 0) (map fst es)"

text \<open>Entries of one user key: those of a file in a lower level, or of a later file in level 0, are newer.\<close>

definition newer_above ::
  "(bytes \<Rightarrow> bytes \<Rightarrow> int) \<Rightarrow> ('f \<Rightarrow> FileMetaData) \<Rightarrow> ('f \<Rightarrow> (bytes \<times> bytes) list) \<Rightarrow> 'f list list \<Rightarrow> bool" where
  "newer_above Compare F contents files \<longleftrightarrow>
     (\<forall>l l' f g d e. l < kNumLevels \<and> l' < kNumLevels \<and> f \<in> set (files ! l) \<and> g \<in> set (files ! l') \<and>
        (l < l' \<or> l = 0 \<and> l' = 0 \<and> file_number (F g) < file_number (F f)) \<and>
        d \<in> set (contents f) \<and> e \<in> set (contents g) \<and> Compare (ExtractUserKey (fst d)) (ExtractUserKey (fst e)) = 0 \<longrightarrow>
        ExtractTag (fst e) < ExtractTag (fst d))"

definition version_ok ::
  "(bytes \<Rightarrow> bytes \<Rightarrow> int) \<Rightarrow> ('f \<Rightarrow> FileMetaData) \<Rightarrow> ('f \<Rightarrow> (bytes \<times> bytes) list) \<Rightarrow> 'f list list \<Rightarrow> bool" where
  "version_ok Compare F contents files \<longleftrightarrow>
     length files = kNumLevels \<and>
     (\<forall>l < kNumLevels. \<forall>f \<in> set (files ! l). contents_ok Compare (F f) (contents f)) \<and>
     (\<forall>l. 0 < l \<longrightarrow> l < kNumLevels \<longrightarrow> level_sorted Compare F (files ! l)) \<and>
     distinct (map (\<lambda>f. file_number (F f)) (files ! 0)) \<and> newer_above Compare F contents files"

text \<open>A lookup in a file finds its first entry at or after the key, when that has the user key; otherwise it may
  find that entry or none.\<close>

definition table_get_ok ::
  "(bytes \<Rightarrow> bytes \<Rightarrow> int) \<Rightarrow> ('f \<Rightarrow> FileMetaData) \<Rightarrow> ('f \<Rightarrow> (bytes \<times> bytes) list) \<Rightarrow> table_get \<Rightarrow> bytes \<Rightarrow> 'f \<Rightarrow> bool" where
  "table_get_ok Compare F contents TableGet k f \<longleftrightarrow>
     (let (s, saved) = TableGet (file_number (F f)) (fsize (F f)) k;
          j = seek_pos (InternalKeyCompare Compare) k (map fst (contents f))
      in s = Status_OK \<and> (\<forall>e. saved = Some e \<longrightarrow> j < length (contents f) \<and> e = contents f ! j) \<and>
         (j < length (contents f) \<longrightarrow> Compare (ExtractUserKey (fst (contents f ! j))) (ExtractUserKey k) = 0 \<longrightarrow>
            saved = Some (contents f ! j)))"

text \<open>The entries a lookup may see: those of the user key that are not newer than the snapshot.\<close>

definition visible :: "(bytes \<Rightarrow> bytes \<Rightarrow> int) \<Rightarrow> bytes \<Rightarrow> bytes \<times> bytes \<Rightarrow> bool" where
  "visible Compare k e \<longleftrightarrow>
     Compare (ExtractUserKey (fst e)) (ExtractUserKey k) = 0 \<and> ExtractTag (fst e) \<le> ExtractTag k"

definition entry_result :: "bytes \<times> bytes \<Rightarrow> Status \<times> bytes option" where
  "entry_result e = (if type (the (ParseInternalKey (fst e))) = kTypeValue then (Status_OK, Some (snd e)) else (NotFound [] [], None))"

lemma Get_levels_find:
  "fst (Get_levels Compare F TableGet files ukey ikey levels st) =
     (case find (\<lambda>f. Get_file Compare F TableGet ukey ikey f \<noteq> None)
        (concat (map (\<lambda>l. if files ! l = [] then [] else Get_files Compare F files ukey ikey l) levels)) of
        None \<Rightarrow> (NotFound [] [], None)
      | Some f \<Rightarrow> the (Get_file Compare F TableGet ukey ikey f))"
proof -
  have scan: "case Get_scan Compare F TableGet ukey ikey level fs st of
      Inl r \<Rightarrow> \<exists>f. find (\<lambda>f. Get_file Compare F TableGet ukey ikey f \<noteq> None) fs = Some f \<and>
                 fst r = the (Get_file Compare F TableGet ukey ikey f)
    | Inr _ \<Rightarrow> find (\<lambda>f. Get_file Compare F TableGet ukey ikey f \<noteq> None) fs = None" for level fs st
  proof (induction fs arbitrary: st)
    case (Cons f fs)
    obtain st' where st': "Get_scan Compare F TableGet ukey ikey level (f # fs) st =
        (case Get_file Compare F TableGet ukey ikey f of Some r \<Rightarrow> Inl (r, st')
         | None \<Rightarrow> Get_scan Compare F TableGet ukey ikey level fs st')"
      by (simp only: Get_scan.simps Let_def)
    show ?case
    proof (cases "Get_file Compare F TableGet ukey ikey f")
      case None
      then show ?thesis
        using Cons.IH [of st'] unfolding st'
        by (cases "Get_scan Compare F TableGet ukey ikey level fs st'") simp_all
    next
      case (Some r)
      then show ?thesis
        unfolding st' by simp
    qed
  qed simp
  have find_append: "find P (xs @ ys) = (case find P xs of None \<Rightarrow> find P ys | Some x \<Rightarrow> Some x)" for P and xs ys :: "'a list"
    by (induction xs) auto
  show ?thesis
  proof (induction levels arbitrary: st)
    case (Cons l levels)
    then show ?case
      using scan [where level = l and fs = "Get_files Compare F files ukey ikey l" and st = st]
      by (auto simp: find_append split: sum.splits option.splits)
  qed simp
qed

context user_comparator
begin

lemma visible_iff:
  assumes "8 \<le> length (fst e)"
  shows "visible Compare k e \<longleftrightarrow>
    Compare (ExtractUserKey (fst e)) (ExtractUserKey k) = 0 \<and> \<not> InternalKeyCompare Compare (fst e) k < 0"
  by (auto simp: visible_def internal_less_iff not_less)

lemma contents_okD:
  assumes "contents_ok Compare f es"
  shows "file_ok Compare f" "\<And>e. e \<in> set es \<Longrightarrow> InternalKeyCompare Compare (smallest f) (fst e) \<le> 0"
    "\<And>e. e \<in> set es \<Longrightarrow> InternalKeyCompare Compare (fst e) (largest f) \<le> 0" "\<And>e. e \<in> set es \<Longrightarrow> 8 \<le> length (fst e)"
proof -
  have es: "es \<noteq> []" "smallest f = fst (es ! 0)" "largest f = fst (es ! (length es - 1))" "\<forall>e \<in> set es. key_ok (fst e)"
    using assms by (auto simp: contents_ok_def hd_conv_nth last_conv_nth)
  have less: "i < j \<Longrightarrow> j < length es \<Longrightarrow> InternalKeyCompare Compare (fst (es ! i)) (fst (es ! j)) < 0" for i j
    using assms by (auto simp: contents_ok_def sorted_wrt_iff_nth_less)
  have first: "InternalKeyCompare Compare (smallest f) (fst (es ! i)) \<le> 0" if "i < length es" for i
    using less [of 0 i] that es(2) internal_self by (cases "i = 0") auto
  have last: "InternalKeyCompare Compare (fst (es ! i)) (largest f) \<le> 0" if "i < length es" for i
  proof (cases "i = length es - 1")
    case False
    then have "i < length es - 1" "length es - 1 < length es"
      using that by simp_all
    then show ?thesis
      using less [of i "length es - 1"] es(3) by simp
  qed (simp add: es(3) internal_self)
  show "\<And>e. e \<in> set es \<Longrightarrow> InternalKeyCompare Compare (smallest f) (fst e) \<le> 0"
    "\<And>e. e \<in> set es \<Longrightarrow> InternalKeyCompare Compare (fst e) (largest f) \<le> 0"
    using first last by (metis in_set_conv_nth)+
  show "\<And>e. e \<in> set es \<Longrightarrow> 8 \<le> length (fst e)"
    using es(4) key_ok_length by blast
  show "file_ok Compare f"
    using es first [of "length es - 1"] by (auto simp: file_ok_def)
qed

lemma contents_user_bounds:
  assumes "contents_ok Compare f es" "e \<in> set es"
  shows "Compare (ExtractUserKey (smallest f)) (ExtractUserKey (fst e)) \<le> 0"
    "Compare (ExtractUserKey (fst e)) (ExtractUserKey (largest f)) \<le> 0"
  using contents_okD(2,3) [OF assms] by (auto simp: internal_le_iff)

text \<open>What reading one file gives: nothing when it shows the lookup no entry, else its newest visible entry.\<close>

lemma Get_file_spec:
  assumes ok: "contents_ok Compare (F f) (contents f)" and get: "table_get_ok Compare F contents TableGet k f" and k: "8 \<le> length k"
  defines "r \<equiv> Get_file Compare F TableGet (ExtractUserKey k) k f"
  shows "(\<forall>e \<in> set (contents f). \<not> visible Compare k e) \<Longrightarrow> r = None"
    and "\<exists>e \<in> set (contents f). visible Compare k e \<Longrightarrow>
      \<exists>e \<in> set (contents f). visible Compare k e \<and> r = Some (entry_result e) \<and>
        (\<forall>d \<in> set (contents f). visible Compare k d \<longrightarrow> ExtractTag (fst d) \<le> ExtractTag (fst e))"
proof -
  let ?es = "contents f"
  let ?j = "seek_pos icompare k (map fst ?es)"
  obtain s saved where tg: "TableGet (file_number (F f)) (fsize (F f)) k = (s, saved)"
    by (cases "TableGet (file_number (F f)) (fsize (F f)) k")
  have sv: "s = Status_OK" "\<forall>e. saved = Some e \<longrightarrow> ?j < length ?es \<and> e = ?es ! ?j"
    "?j < length ?es \<longrightarrow> Compare (ExtractUserKey (fst (?es ! ?j))) (ExtractUserKey k) = 0 \<longrightarrow> saved = Some (?es ! ?j)"
    using get unfolding table_get_ok_def tg Let_def split_conv by blast+
  have sorted: "sorted_wrt (\<lambda>a b. icompare a b < 0) (map fst ?es)" "\<forall>x \<in> set (map fst ?es). 8 \<le> length x"
    using ok contents_okD(4) [OF ok] by (auto simp: contents_ok_def)
  have pos: "i < length ?es \<Longrightarrow> i < ?j \<longleftrightarrow> icompare (fst (?es ! i)) k < 0" for i
    using icmp.seek_pos_iff [OF sorted k, of i] by simp
  have len: "i < length ?es \<Longrightarrow> 8 \<le> length (fst (?es ! i))" for i
    using contents_okD(4) [OF ok] by simp
  have parse: "\<exists>p. ParseInternalKey (fst e) = Some p \<and> user_key p = ExtractUserKey (fst e)" if e: "e \<in> set ?es" for e
  proof -
    obtain p where "ParseInternalKey (fst e) = Some p"
      using ok e by (cases "ParseInternalKey (fst e)") (auto simp: contents_ok_def)
    then show ?thesis
      using ParseInternalKey_Some(1) ExtractUserKey_make by metis
  qed
  have hit: "r = Some (entry_result e)" if e: "e \<in> set ?es" "saved = Some e" "Compare (ExtractUserKey (fst e)) (ExtractUserKey k) = 0" for e
  proof -
    obtain p where "ParseInternalKey (fst e) = Some p" "user_key p = ExtractUserKey (fst e)"
      using parse [OF e(1)] by blast
    then show ?thesis
      using tg sv(1) e by (cases e; cases "type p") (simp_all add: r_def Get_file_def SaveValue_def entry_result_def Let_def)
  qed
  have miss: "r = None" if "saved = None \<or> (\<exists>e \<in> set ?es. saved = Some e \<and> Compare (ExtractUserKey (fst e)) (ExtractUserKey k) \<noteq> 0)"
    using that
  proof
    assume "\<exists>e \<in> set ?es. saved = Some e \<and> Compare (ExtractUserKey (fst e)) (ExtractUserKey k) \<noteq> 0"
    then obtain e where e: "e \<in> set ?es" "saved = Some e" "Compare (ExtractUserKey (fst e)) (ExtractUserKey k) \<noteq> 0"
      by blast
    obtain p where "ParseInternalKey (fst e) = Some p" "user_key p = ExtractUserKey (fst e)"
      using parse [OF e(1)] by blast
    then show ?thesis
      using tg sv(1) e by (cases e) (simp add: r_def Get_file_def SaveValue_def Let_def)
  qed (simp add: r_def Get_file_def tg sv(1))
  {
    assume none: "\<forall>e \<in> set ?es. \<not> visible Compare k e"
    have "Compare (ExtractUserKey (fst e)) (ExtractUserKey k) \<noteq> 0" if "saved = Some e" for e
    proof -
      have j: "?j < length ?es" "e = ?es ! ?j"
        using sv(2) that by blast+
      then have "\<not> visible Compare k e"
        using none by simp
      then show ?thesis
        using pos [OF j(1)] visible_iff [OF len [OF j(1)]] j(2) by simp
    qed
    then show "r = None"
      using miss sv(2) by (cases saved) auto
  }
  {
    assume "\<exists>e \<in> set ?es. visible Compare k e"
    then obtain i where i: "i < length ?es" "visible Compare k (?es ! i)"
      by (auto simp: in_set_conv_nth)
    then have ij: "?j \<le> i"
      using pos [of i] visible_iff [OF len [OF i(1)]] by (simp add: not_less)
    have j: "?j < length ?es"
      using ij i(1) by simp
    have nle: "icompare (fst (?es ! ?j)) (fst (?es ! i)) \<le> 0" if "?j \<le> i" "i < length ?es" for i
      using that sorted(1) internal_self by (cases "?j = i") (auto simp: sorted_wrt_iff_nth_less less_imp_le)
    have vj: "visible Compare k (?es ! ?j)"
    proof -
      have ge: "\<not> icompare (fst (?es ! ?j)) k < 0"
        using pos [OF j] by simp
      have u: "Compare (ExtractUserKey (fst (?es ! ?j))) (ExtractUserKey k) \<le> 0"
        using nle [OF ij i(1)] i(2) Compare_trans [of "ExtractUserKey (fst (?es ! ?j))" "ExtractUserKey (fst (?es ! i))" "ExtractUserKey k"]
        by (auto simp: internal_le_iff visible_def)
      have "\<not> Compare (ExtractUserKey (fst (?es ! ?j))) (ExtractUserKey k) < 0"
        using ge by (auto simp: internal_less_iff)
      then show ?thesis
        using u ge by (simp add: visible_iff [OF len [OF j]])
    qed
    have "ExtractTag (fst d) \<le> ExtractTag (fst (?es ! ?j))" if d: "d \<in> set ?es" "visible Compare k d" for d
    proof -
      obtain i where i: "i < length ?es" "d = ?es ! i"
        using d(1) by (auto simp: in_set_conv_nth)
      have "?j \<le> i"
        using pos [OF i(1)] d(2) visible_iff [OF len [OF i(1)]] i(2) by (simp add: not_less)
      then have "icompare (fst (?es ! ?j)) (fst d) \<le> 0"
        using nle i by simp
      moreover have "Compare (ExtractUserKey (fst (?es ! ?j))) (ExtractUserKey (fst d)) = 0"
        using vj d(2) Compare_trans [of "ExtractUserKey (fst (?es ! ?j))" "ExtractUserKey k" "ExtractUserKey (fst d)"]
          Compare_trans [of "ExtractUserKey (fst d)" "ExtractUserKey k" "ExtractUserKey (fst (?es ! ?j))"] Compare_eq_flip Compare_le_flip
        by (auto simp: visible_def intro: order.antisym)
      ultimately show ?thesis
        by (auto simp: internal_le_iff)
    qed
    then show "\<exists>e \<in> set ?es. visible Compare k e \<and> r = Some (entry_result e) \<and>
        (\<forall>d \<in> set ?es. visible Compare k d \<longrightarrow> ExtractTag (fst d) \<le> ExtractTag (fst e))"
      using vj hit [of "?es ! ?j"] sv(3) j by (auto simp: visible_def intro!: bexI [of _ "?es ! ?j"])
  }
qed

lemma user_eq_trans: "Compare a b = 0 \<Longrightarrow> Compare b c = 0 \<Longrightarrow> Compare a c = 0"
  using Compare_trans [of a b c] Compare_trans [of c b a] Compare_eq_flip Compare_le_flip
  by (metis order.antisym order.refl)

lemma user_eq_sym: "Compare a b = 0 \<Longrightarrow> Compare b a = 0"
  using Compare_eq_flip by blast

lemma user_eq_le: "Compare a b \<le> 0 \<Longrightarrow> Compare b c = 0 \<Longrightarrow> Compare a c \<le> 0"
  "Compare a b = 0 \<Longrightarrow> Compare b c \<le> 0 \<Longrightarrow> Compare a c \<le> 0"
  using Compare_trans [of a b c] by simp_all

lemma level0_candidates_complete:
  assumes "f \<in> set files" "contents_ok Compare (F f) (contents f)" "e \<in> set (contents f)" "visible Compare k e"
  shows "f \<in> set (level0_candidates Compare F files (ExtractUserKey k))"
proof -
  note b = contents_user_bounds [OF assms(2,3)]
  have u: "Compare (ExtractUserKey (fst e)) (ExtractUserKey k) = 0"
    using assms(4) by (simp add: visible_def)
  have "Compare (ExtractUserKey k) (file_start F f) \<ge> 0"
    using user_eq_le(1) [OF b(1) u] Compare_le_flip by simp
  moreover have "Compare (ExtractUserKey k) (file_limit F f) \<le> 0"
    using user_eq_le(2) [OF user_eq_sym [OF u] b(2)] .
  ultimately show ?thesis
    using assms(1) by (simp add: level0_candidates_def sort_NewestFirst_def)
qed

lemma level_candidates_complete:
  assumes sorted: "level_sorted Compare F files" and ok: "\<forall>f \<in> set files. contents_ok Compare (F f) (contents f)"
    and f: "f \<in> set files" "e \<in> set (contents f)" "visible Compare k e" and k: "8 \<le> length k"
  shows "\<exists>g d. level_candidates Compare F files (ExtractUserKey k) k = [g] \<and> g \<in> set files \<and> d \<in> set (contents g) \<and>
    visible Compare k d \<and> ExtractTag (fst e) \<le> ExtractTag (fst d)"
proof -
  obtain j where j: "j < length files" "f = files ! j"
    using f(1) by (auto simp: in_set_conv_nth)
  define i where "i = FindFile Compare F files k"
  note ok_f = ok [rule_format, OF f(1)]
  have e: "8 \<le> length (fst e)" "\<not> icompare (fst e) k < 0" "Compare (ExtractUserKey (fst e)) (ExtractUserKey k) = 0"
    using contents_okD(4) [OF ok_f f(2)] f(3) visible_iff by auto
  have "\<not> icompare (largest (F f)) k < 0"
    using contents_okD(3) [OF ok_f f(2)] e(1,2) k icmp.Compare_le_less_trans [of "fst e" "largest (F f)" k]
      file_ok_length(2) [OF contents_okD(1) [OF ok_f]] by auto
  then have ij: "i \<le> j"
    using FindFile_bounds(1) [OF sorted k, of j] j by (auto simp: i_def not_less [symmetric])
  then have i: "i < length files"
    using j by simp
  define g where "g = files ! i"
  have g: "g \<in> set files" "contents_ok Compare (F g) (contents g)"
    using i ok by (simp_all add: g_def)
  obtain d where d: "d \<in> set (contents g)" "visible Compare k d" "ExtractTag (fst e) \<le> ExtractTag (fst d)"
  proof (cases "i = j")
    case True
    then show ?thesis
      using that [of e] f j by (simp add: g_def)
  next
    case False
    define d where "d = last (contents g)"
    have dm: "d \<in> set (contents g)" "fst d = largest (F g)"
      using g(2) by (auto simp: d_def contents_ok_def)
    have "icompare (largest (F g)) (smallest (F f)) < 0"
      using sorted False ij j by (simp add: level_sorted_def sorted_wrt_iff_nth_less g_def)
    then have de: "icompare (fst d) (fst e) < 0"
      using contents_okD(2) [OF ok_f f(2)] icmp.Compare_less_le_trans [of "largest (F g)" "smallest (F f)" "fst e"] e(1)
        file_ok_length [OF contents_okD(1) [OF ok_f]] file_ok_length [OF contents_okD(1) [OF g(2)]] dm(2) by simp
    have ge: "\<not> icompare (fst d) k < 0"
      using FindFile_bounds(2) [OF sorted k, of i] i by (simp add: i_def g_def dm(2))
    have "Compare (ExtractUserKey (fst d)) (ExtractUserKey k) \<le> 0"
      by (rule user_eq_le(1) [OF _ e(3)]) (use de in \<open>auto simp: internal_less_iff\<close>)
    moreover have "\<not> Compare (ExtractUserKey (fst d)) (ExtractUserKey k) < 0"
      using ge by (auto simp: internal_less_iff)
    ultimately have du: "Compare (ExtractUserKey (fst d)) (ExtractUserKey k) = 0"
      by simp
    then have "visible Compare k d"
      using ge contents_okD(4) [OF g(2) dm(1)] by (simp add: visible_iff)
    moreover have "ExtractTag (fst e) \<le> ExtractTag (fst d)"
      using de user_eq_trans [OF du user_eq_sym [OF e(3)]] by (auto simp: internal_less_iff)
    ultimately show ?thesis
      using that dm(1) by blast
  qed
  have "Compare (file_start F g) (ExtractUserKey k) \<le> 0"
    using contents_user_bounds(1) [OF g(2) d(1)] d(2) user_eq_le(1) by (auto simp: visible_def)
  then have "\<not> Compare (ExtractUserKey k) (file_start F g) < 0"
    using Compare_le_flip [of "file_start F g" "ExtractUserKey k"] by simp
  then have "level_candidates Compare F files (ExtractUserKey k) k = [g]"
    using i by (simp add: level_candidates_def i_def [symmetric] Let_def g_def [symmetric])
  then show ?thesis
    using g(1) d by blast
qed

definition older :: "('f \<Rightarrow> (bytes \<times> bytes) list) \<Rightarrow> 'f \<Rightarrow> 'f \<Rightarrow> bool" where
  "older contents f g \<longleftrightarrow> (\<forall>d \<in> set (contents f). \<forall>e \<in> set (contents g).
     Compare (ExtractUserKey (fst d)) (ExtractUserKey (fst e)) = 0 \<longrightarrow> ExtractTag (fst e) < ExtractTag (fst d))"

lemma sorted_wrt_concat_map:
  assumes "\<forall>l \<in> set ls. sorted_wrt R (h l)" "sorted_wrt (\<lambda>l l'. \<forall>x \<in> set (h l). \<forall>y \<in> set (h l'). R x y) ls"
  shows "sorted_wrt R (concat (map h ls))"
  using assms by (induction ls) (auto simp: sorted_wrt_append)

lemma Get_files_subset: "set (Get_files Compare F files u k l) \<subseteq> set (files ! l)"
  by (auto simp: Get_files_def level0_candidates_def sort_NewestFirst_def level_candidates_def Let_def split: if_splits)

lemma candidates_ordered:
  assumes ok: "version_ok Compare F contents files"
  shows "sorted_wrt (older contents)
    (concat (map (\<lambda>l. if files ! l = [] then [] else Get_files Compare F files u k l) [0..<kNumLevels]))"
proof (rule sorted_wrt_concat_map, intro ballI)
  have newer: "older contents f g" if "l < kNumLevels" "l' < kNumLevels" "f \<in> set (files ! l)" "g \<in> set (files ! l')"
    "l < l' \<or> l = 0 \<and> l' = 0 \<and> file_number (F g) < file_number (F f)" for f g l l'
    using ok that unfolding version_ok_def newer_above_def older_def by blast
  fix l
  assume l: "l \<in> set [0..<kNumLevels]"
  show "sorted_wrt (older contents) (if files ! l = [] then [] else Get_files Compare F files u k l)"
  proof (cases "l = 0")
    case True
    let ?key = "\<lambda>f. - int (unat (file_number (F f)))"
    let ?fs = "filter (\<lambda>f. Compare u (file_start F f) \<ge> 0 \<and> Compare u (file_limit F f) \<le> 0) (files ! 0)"
    have "sorted (map ?key (sort_key ?key ?fs))"
      by simp
    moreover have "distinct (map ?key (sort_key ?key ?fs))"
    proof -
      have "distinct (map (\<lambda>f. file_number (F f)) ?fs)"
        using ok by (simp add: version_ok_def distinct_map_filter)
      then have "distinct ?fs" "inj_on (\<lambda>f. file_number (F f)) (set ?fs)"
        by (simp_all add: distinct_map)
      moreover have "- int (unat a) = - int (unat b) \<longleftrightarrow> a = b" for a b :: u64
        by (metis neg_equal_iff_equal of_nat_eq_iff word_unat_eq_iff)
      ultimately have "inj_on ?key (set (sort_key ?key ?fs))"
        unfolding set_sort inj_on_def by blast
      then show ?thesis
        using \<open>distinct ?fs\<close> by (simp only: distinct_map distinct_sort)
    qed
    ultimately have "sorted_wrt (<) (map ?key (sort_key ?key ?fs))"
      unfolding strict_sorted_iff by blast
    then have "sorted_wrt (\<lambda>a b. ?key a < ?key b) (sort_key ?key ?fs)"
      by (simp only: sorted_wrt_map)
    then have "sorted_wrt (older contents) (sort_key ?key ?fs)"
    proof (rule sorted_wrt_mono_rel [rotated])
      fix f g
      assume "f \<in> set (sort_key ?key ?fs)" "g \<in> set (sort_key ?key ?fs)" "?key f < ?key g"
      then show "older contents f g"
        by (intro newer [of 0 0]) (auto simp: kNumLevels_def word_less_def)
    qed
    then show ?thesis
      using True by (simp add: Get_files_def level0_candidates_def sort_NewestFirst_def)
  next
    case False
    then show ?thesis
      by (simp add: Get_files_def level_candidates_def Let_def)
  qed
next
  have newer: "older contents f g" if "l < l'" "l' < kNumLevels" "f \<in> set (files ! l)" "g \<in> set (files ! l')" for f g l l'
    using ok that unfolding version_ok_def newer_above_def older_def by (meson order.strict_trans)
  show "sorted_wrt (\<lambda>l l'. \<forall>x \<in> set (if files ! l = [] then [] else Get_files Compare F files u k l).
      \<forall>y \<in> set (if files ! l' = [] then [] else Get_files Compare F files u k l'). older contents x y) [0..<kNumLevels]"
  proof (rule sorted_wrt_mono_rel [of _ "(<)"])
    fix l l'
    assume "l \<in> set [0..<kNumLevels]" "l' \<in> set [0..<kNumLevels]" "l < l'"
    then show "\<forall>x \<in> set (if files ! l = [] then [] else Get_files Compare F files u k l).
        \<forall>y \<in> set (if files ! l' = [] then [] else Get_files Compare F files u k l'). older contents x y"
      using newer [of l l'] Get_files_subset [of F files u k l] Get_files_subset [of F files u k l'] by (auto split: if_splits)
  qed simp
qed

text \<open>\<open>Version::Get\<close> finds the newest visible entry of the whole version.\<close>

lemma Version_Get_spec:
  fixes st :: "'f Get_state"
  assumes ok: "version_ok Compare F contents files"
    and get: "\<forall>l < kNumLevels. \<forall>f \<in> set (files ! l). table_get_ok Compare F contents TableGet k f"
    and k: "k = InternalKey_make u s kValueTypeForSeek"
  defines "r \<equiv> fst (Get_levels Compare F TableGet files u k [0..<kNumLevels] st)"
  defines "es \<equiv> concat (map contents (concat files))"
  shows "(\<forall>e \<in> set es. \<not> visible Compare k e) \<longrightarrow> r = (NotFound [] [], None)"
    and "(\<exists>e \<in> set es. visible Compare k e) \<longrightarrow>
      (\<exists>e \<in> set es. visible Compare k e \<and> r = entry_result e \<and>
         (\<forall>d \<in> set es. visible Compare k d \<longrightarrow> ExtractTag (fst d) \<le> ExtractTag (fst e)))"
proof -
  have uk: "ExtractUserKey k = u" "8 \<le> length k"
    by (simp_all add: k)
  define cands where "cands = concat (map (\<lambda>l. if files ! l = [] then [] else Get_files Compare F files u k l) [0..<kNumLevels])"
  let ?hit = "\<lambda>f. Get_file Compare F TableGet u k f \<noteq> None"
  have r: "r = (case find ?hit cands of None \<Rightarrow> (NotFound [] [], None) | Some f \<Rightarrow> the (Get_file Compare F TableGet u k f))"
    unfolding r_def cands_def by (rule Get_levels_find)
  have mem: "f \<in> set (concat files) \<longleftrightarrow> (\<exists>l < kNumLevels. f \<in> set (files ! l))" for f
  proof -
    have "length files = kNumLevels"
      using ok by (simp add: version_ok_def)
    then show ?thesis
      by (metis concat_eq_concat_iff in_set_conv_nth set_concat UN_E UN_I)
  qed
  have cand: "\<exists>l < kNumLevels. f \<in> set (files ! l)" if "f \<in> set cands" for f
    using that Get_files_subset [of F files u k] unfolding cands_def by (fastforce split: if_splits)
  have co: "contents_ok Compare (F f) (contents f)" "table_get_ok Compare F contents TableGet k f" if "l < kNumLevels" "f \<in> set (files ! l)" for l f
    using ok get that by (auto simp: version_ok_def)
  have hit: "?hit f \<longleftrightarrow> (\<exists>e \<in> set (contents f). visible Compare k e)" if "f \<in> set cands" for f
  proof -
    obtain l where l: "l < kNumLevels" "f \<in> set (files ! l)"
      using cand \<open>f \<in> set cands\<close> by blast
    note spec = Get_file_spec [where contents = contents and F = F, OF co [OF l] uk(2), unfolded uk(1)]
    show ?thesis
    proof (cases "\<exists>e \<in> set (contents f). visible Compare k e")
      case True
      then show ?thesis
        using spec(2) by auto
    next
      case False
      then show ?thesis
        using spec(1) by auto
    qed
  qed
  have complete: "\<exists>g \<in> set cands. \<exists>d \<in> set (contents g). visible Compare k d \<and> ExtractTag (fst e) \<le> ExtractTag (fst d)"
    if e: "e \<in> set es" "visible Compare k e" for e
  proof -
    obtain f where f: "f \<in> set (concat files)" "e \<in> set (contents f)"
      using e(1) by (auto simp: es_def)
    then obtain l where l: "l < kNumLevels" "f \<in> set (files ! l)" "e \<in> set (contents f)"
      using mem by blast
    have ne: "files ! l \<noteq> []"
      using l(2) by auto
    show ?thesis
    proof (cases "l = 0")
      case True
      then have "f \<in> set (Get_files Compare F files u k l)"
        using level0_candidates_complete [where contents = contents and F = F, OF l(2) co(1) [OF l(1,2)] l(3) e(2)] uk(1) by (simp add: Get_files_def)
      then have "f \<in> set cands"
        using l(1) ne by (auto simp: cands_def)
      then show ?thesis
        using l(3) e(2) by blast
    next
      case False
      then have sorted: "level_sorted Compare F (files ! l)"
        using ok l(1) by (simp add: version_ok_def)
      obtain g d where g: "level_candidates Compare F (files ! l) u k = [g]" "d \<in> set (contents g)" "visible Compare k d"
        "ExtractTag (fst e) \<le> ExtractTag (fst d)"
        using level_candidates_complete [where contents = contents and F = F, OF sorted _ l(2,3) e(2) uk(2)] co(1) [OF l(1)] uk(1) by auto
      then have "g \<in> set cands"
        using False l(1) ne by (auto simp: cands_def Get_files_def intro!: bexI [of _ l])
      then show ?thesis
        using g(2-4) by blast
    qed
  qed
  {
    assume none: "\<forall>e \<in> set es. \<not> visible Compare k e"
    have "\<not> ?hit f" if "f \<in> set cands" for f
      using hit [OF that] none cand [OF that] mem [of f] by (auto simp: es_def)
    then have "find ?hit cands = None"
      unfolding find_None_iff by blast
    then have "r = (NotFound [] [], None)"
      using r by simp
  }
  then show "(\<forall>e \<in> set es. \<not> visible Compare k e) \<longrightarrow> r = (NotFound [] [], None)"
    by blast
  {
    assume "\<exists>e \<in> set es. visible Compare k e"
    then have "\<exists>f \<in> set cands. ?hit f"
      using complete hit by blast
    then obtain f where f: "find ?hit cands = Some f"
      by (cases "find ?hit cands") (auto simp: find_None_iff)
    then obtain i where i: "i < length cands" "f = cands ! i" "?hit f" "\<forall>j < i. \<not> ?hit (cands ! j)"
      by (auto simp: find_Some_iff)
    have fc: "f \<in> set cands"
      unfolding i(2) using i(1) by (rule nth_mem)
    obtain l where l: "l < kNumLevels" "f \<in> set (files ! l)"
      using cand [OF fc] by blast
    obtain e where e: "e \<in> set (contents f)" "visible Compare k e" "Get_file Compare F TableGet u k f = Some (entry_result e)"
      "\<forall>d \<in> set (contents f). visible Compare k d \<longrightarrow> ExtractTag (fst d) \<le> ExtractTag (fst e)"
      using Get_file_spec(2) [where contents = contents and F = F, OF co [OF l] uk(2), unfolded uk(1)] hit [OF fc] i(3) by blast
    have "ExtractTag (fst d) \<le> ExtractTag (fst e)" if d: "d \<in> set es" "visible Compare k d" for d
    proof -
      obtain g d' where g: "g \<in> set cands" "d' \<in> set (contents g)" "visible Compare k d'" "ExtractTag (fst d) \<le> ExtractTag (fst d')"
        using complete [OF d] by blast
      then obtain j where j: "j < length cands" "g = cands ! j"
        by (auto simp only: in_set_conv_nth)
      have "i \<le> j"
        using i(4) hit [OF g(1)] g(2,3) j(2) by (meson not_less)
      moreover have "ExtractTag (fst d') \<le> ExtractTag (fst e)" if "i < j"
      proof -
        have "older contents f g"
          using sorted_wrt_nth_less [OF candidates_ordered [OF ok, of u k, folded cands_def] that j(1)] i(2) j(2) by simp
        moreover have "Compare (ExtractUserKey (fst e)) (ExtractUserKey (fst d')) = 0"
          using e(2) g(3) user_eq_trans user_eq_sym by (meson visible_def)
        ultimately show ?thesis
          using e(1) g(2) by (auto simp: older_def less_imp_le)
      qed
      moreover have "ExtractTag (fst d') \<le> ExtractTag (fst e)" if "i = j"
        using that e(4) g(2,3) i(2) j(2) by simp
      ultimately have "ExtractTag (fst d') \<le> ExtractTag (fst e)"
        using le_neq_implies_less [of i j] by blast
      with g(4) show ?thesis
        by (rule order.trans)
    qed
    moreover have "e \<in> set es"
      using e(1) l mem [of f] by (auto simp: es_def)
    ultimately have "\<exists>e \<in> set es. visible Compare k e \<and> r = entry_result e \<and>
        (\<forall>d \<in> set es. visible Compare k d \<longrightarrow> ExtractTag (fst d) \<le> ExtractTag (fst e))"
      using e(2,3) r f by (intro bexI [of _ e]) simp_all
  }
  then show "(\<exists>e \<in> set es. visible Compare k e) \<longrightarrow>
      (\<exists>e \<in> set es. visible Compare k e \<and> r = entry_result e \<and>
         (\<forall>d \<in> set es. visible Compare k d \<longrightarrow> ExtractTag (fst d) \<le> ExtractTag (fst e)))"
    by blast
qed

lemma contents_between:
  assumes sorted: "level_sorted Compare F flist" and ok: "\<forall>f \<in> set flist. contents_ok Compare (F f) (contents f)"
    and "i < j" "j < length flist" "e \<in> set (contents (flist ! j))"
  shows "icompare (largest (F (flist ! i))) (fst e) < 0"
proof -
  have f: "contents_ok Compare (F (flist ! j)) (contents (flist ! j))" "contents_ok Compare (F (flist ! i)) (contents (flist ! i))"
    using ok assms(3,4) by simp_all
  have "icompare (largest (F (flist ! i))) (smallest (F (flist ! j))) < 0"
    using sorted assms(3,4) by (simp add: level_sorted_def sorted_wrt_iff_nth_less)
  then show ?thesis
    using contents_okD(2,4) [OF f(1) assms(5)] file_ok_length [OF contents_okD(1) [OF f(1)]]
      file_ok_length [OF contents_okD(1) [OF f(2)]] icmp.Compare_less_le_trans [of "largest (F (flist ! i))" "smallest (F (flist ! j))" "fst e"]
    by simp
qed

lemma LevelFileNum_value_eq:
  "LevelFileNum_value F f = LevelFileNum_value F g \<longleftrightarrow> (file_number (F f), fsize (F f)) = (file_number (F g), fsize (F g))"
proof -
  have inj: "EncodeFixed64 a = EncodeFixed64 b \<longleftrightarrow> a = b" for a b
    using DecodeFixed64_Encode_end by metis
  show ?thesis
    by (simp add: LevelFileNum_value_def inj)
qed

lemma level_indexed:
  assumes sorted: "level_sorted Compare F flist" and ok: "\<forall>f \<in> set flist. contents_ok Compare (F f) (contents f)"
    and dist: "distinct (map (\<lambda>f. (file_number (F f), fsize (F f))) flist)"
  shows "indexed icompare (\<lambda>k. 8 \<le> length k) (level_entries F flist) (map contents flist)"
proof -
  have co: "i < length flist \<Longrightarrow> contents_ok Compare (F (flist ! i)) (contents (flist ! i))" for i
    using ok by simp
  have "sorted_wrt (\<lambda>a b. icompare (fst a) (fst b) < 0) (concat (map contents flist))"
  proof (rule sorted_wrt_concat_map)
    show "\<forall>f \<in> set flist. sorted_wrt (\<lambda>a b. icompare (fst a) (fst b) < 0) (contents f)"
      using ok by (auto simp: contents_ok_def sorted_wrt_map)
    show "sorted_wrt (\<lambda>f g. \<forall>x \<in> set (contents f). \<forall>y \<in> set (contents g). icompare (fst x) (fst y) < 0) flist"
      unfolding sorted_wrt_iff_nth_less
    proof (intro allI impI ballI)
      fix i j x y
      assume ij: "i < j" "j < length flist" and x: "x \<in> set (contents (flist ! i))" and y: "y \<in> set (contents (flist ! j))"
      then have i: "i < length flist"
        by simp
      show "icompare (fst x) (fst y) < 0"
        using contents_between [OF sorted ok ij y] contents_okD(3,4) [OF co [OF i] x] contents_okD(4) [OF co [OF ij(2)] y]
          file_ok_length [OF contents_okD(1) [OF co [OF i]]]
          icmp.Compare_le_less_trans [of "fst x" "largest (F (flist ! i))" "fst y"] by simp
    qed
  qed
  moreover have "distinct (map snd (level_entries F flist))"
    using dist by (simp add: level_entries_def distinct_map inj_on_def comp_def LevelFileNum_value_eq)
  moreover have "\<forall>e \<in> set (level_entries F flist). 8 \<le> length (fst e)"
    using ok file_ok_length contents_okD(1) by (fastforce simp: level_entries_def)
  moreover have "\<forall>e \<in> set (concat (map contents flist)). 8 \<le> length (fst e)"
    using ok contents_okD(4) by fastforce
  ultimately show ?thesis
    using contents_okD(3) [OF co] contents_between [OF sorted ok]
    by (simp add: indexed_def sorted_wrt_map level_entries_def)
qed

lemma level_iterator_new:
  assumes "level_sorted Compare F flist" "\<forall>f \<in> set flist. contents_ok Compare (F f) (contents f)"
    "distinct (map (\<lambda>f. (file_number (F f), fsize (F f))) flist)"
    and tl: "two_level icompare (\<lambda>k. 8 \<le> length k) (LevelFileNum_methods Compare F flist) (sum_methods EmptyIterator D)
       (level_entries F flist) (map contents flist) (level_on F flist) (map (\<lambda>f. right_on (don f)) flist)"
    and opens: "\<forall>f \<in> set flist. \<exists>p. don f (NewIterator (file_number (F f)) (fsize (F f))) p"
  shows "tl_on icompare (\<lambda>k. 8 \<le> length k) (LevelFileNum_methods Compare F flist) (sum_methods EmptyIterator D)
       (GetFileIterator NewIterator) (level_entries F flist) (map contents flist) (level_on F flist)
       (map (\<lambda>f. right_on (don f)) flist) (NewConcatenatingIterator Compare F flist) (length (concat (map contents flist)))"
  unfolding NewConcatenatingIterator_def
proof (rule two_level.tl_on_new [OF tl])
  show "level_on F flist (LevelFileNumIterator_new flist) (length flist)"
    using assms(1) by (simp add: level_on_def LevelFileNumIterator_new_def)
  show "indexed icompare (\<lambda>k. 8 \<le> length k) (level_entries F flist) (map contents flist)"
    by (rule level_indexed [OF assms(1-3)])
  have "GetFileIterator NewIterator (LevelFileNum_value F f) = Inr (NewIterator (file_number (F f)) (fsize (F f)))" for f
    by (simp add: GetFileIterator_def LevelFileNum_value_def)
  then show "\<forall>k < length (level_entries F flist). \<exists>p. (map (\<lambda>f. right_on (don f)) flist ! k) (GetFileIterator NewIterator (snd (level_entries F flist ! k))) p"
    using opens by (simp add: level_entries_def right_on_def)
qed

end

definition sample_contents :: "nat \<Rightarrow> (bytes \<times> bytes) list" where
  "sample_contents n = [(sample_key (of_nat n), [of_nat n])]"

definition sample_get :: table_get where
  "sample_get n len k =
     (let es = sample_contents (unat n); j = seek_pos (InternalKeyCompare BytewiseCompare) k (map fst es)
      in (Status_OK, if j < length es then Some (es ! j) else None))"

lemma sample_version: "version_ok BytewiseCompare sample_meta sample_contents sample_levels"
proof -
  have contents: "contents_ok BytewiseCompare (sample_meta f) (sample_contents f)" if "l < kNumLevels" "f \<in> set (sample_levels ! l)" for l f
  proof -
    have "l = 1"
      using that sample_levels_nth [of l] by (cases "l = 1") auto
    then have "f = 9 \<or> f = 5"
      using that(2) by (auto simp: sample_levels_def)
    then show ?thesis
      using sample_key_ok by (auto simp: contents_ok_def sample_contents_def sample_meta_def)
  qed
  have "l = l'" if "l < kNumLevels" "l' < kNumLevels" "f \<in> set (sample_levels ! l)" "g \<in> set (sample_levels ! l')" for l l' f g
    using that sample_levels_nth [of l] sample_levels_nth [of l'] by (cases "l = 1"; cases "l' = 1") auto
  moreover have "l \<noteq> 0" if "f \<in> set (sample_levels ! l)" for l f
    using that by (cases l) (auto simp: sample_levels_def)
  ultimately have "newer_above BytewiseCompare sample_meta sample_contents sample_levels"
    unfolding newer_above_def by blast
  then show ?thesis
    using contents sample_all_sorted by (auto simp: version_ok_def) (simp_all add: sample_levels_def kNumLevels_def)
qed

lemma sample_table_get: "table_get_ok BytewiseCompare sample_meta sample_contents sample_get k f" if "f < 2 ^ 64"
proof -
  have "unat (of_nat f :: u64) = f"
    by (rule unat_of_nat_small) (use that in simp)
  then show ?thesis
    by (auto simp: table_get_ok_def sample_get_def sample_meta_def Let_def)
qed

section \<open>Properties\<close>

text \<open>C14: reading a key finds its newest visible version. In a version whose files hold what their metadata
  says, where the files of every level above 0 are in order and, for each user key, lower levels and later
  files of level 0 hold newer entries, \<open>Version::Get\<close> at a sequence number returns the value of the entry
  with the largest sequence number up to it among all entries of the version, and \<open>NotFound\<close> when that
  entry is a deletion or there is none, although it opens at most one file of each level above 0.\<close>

theorem version_get_newest:
  assumes "user_comparator Compare sep succ" "version_ok Compare F contents files"
    "\<forall>l < kNumLevels. \<forall>f \<in> set (files ! l). table_get_ok Compare F contents TableGet (InternalKey_make u s kValueTypeForSeek) f"
  shows "let (st, v, stats) = Version_Get Compare F TableGet files (LookupKey_make u s);
             k = InternalKey_make u s kValueTypeForSeek;
             es = concat (map contents (concat files))
    in ((\<forall>e \<in> set es. \<not> visible Compare k e) \<longrightarrow> st = NotFound [] [] \<and> v = None) \<and>
       ((\<exists>e \<in> set es. visible Compare k e) \<longrightarrow>
          (\<exists>e \<in> set es. visible Compare k e \<and>
             (\<forall>d \<in> set es. visible Compare k d \<longrightarrow> ExtractTag (fst d) \<le> ExtractTag (fst e)) \<and>
             (st, v) = (if type (the (ParseInternalKey (fst e))) = kTypeValue then (Status_OK, Some (snd e))
                        else (NotFound [] [], None))))"
proof -
  define g where "g = Get_levels Compare F TableGet files u (InternalKey_make u s kValueTypeForSeek) [0..<kNumLevels]
    \<lparr>gs_stats = \<lparr>seek_file = None, seek_file_level = - 1\<rparr>, gs_last_file_read = None, gs_last_file_read_level = - 1\<rparr>"
  have vg: "Version_Get Compare F TableGet files (LookupKey_make u s) = (fst (fst g), snd (fst g), gs_stats (snd g))"
    by (simp add: Version_Get_def LookupKey_views split_beta g_def)
  note spec = user_comparator.Version_Get_spec [OF assms refl, of "\<lparr>gs_stats = \<lparr>seek_file = None, seek_file_level = - 1\<rparr>,
    gs_last_file_read = None, gs_last_file_read_level = - 1\<rparr>", folded g_def, unfolded entry_result_def]
  show ?thesis
    unfolding vg Let_def split_conv prod.collapse
  proof (intro conjI impI)
    assume "\<forall>e \<in> set (concat (map contents (concat files))). \<not> visible Compare (InternalKey_make u s kValueTypeForSeek) e"
    then have "fst g = (NotFound [] [], None)"
      using spec(1) by blast
    then show "fst (fst g) = NotFound [] []" "snd (fst g) = None"
      by simp_all
  qed (use spec(2) in blast)
qed

theorem version_get_newest_witness:
  "fst (Version_Get BytewiseCompare sample_meta sample_get sample_levels (LookupKey_make [1] 7)) = Status_OK \<and>
   fst (snd (Version_Get BytewiseCompare sample_meta sample_get sample_levels (LookupKey_make [1] 7))) = Some [5]"
proof -
  let ?k = "InternalKey_make [1] 7 kValueTypeForSeek"
  let ?es = "concat (map sample_contents (concat sample_levels))"
  have es: "?es = [(sample_key 9, [9]), (sample_key 5, [5])]"
    by (simp add: sample_levels_def sample_contents_def)
  have tags: "\<not> PackSequenceAndType 9 kTypeValue \<le> PackSequenceAndType 7 kTypeValue"
    "PackSequenceAndType 5 kTypeValue \<le> PackSequenceAndType 7 kTypeValue"
    by code_simp+
  have vis: "\<not> visible BytewiseCompare ?k (sample_key 9, [9])" "visible BytewiseCompare ?k (sample_key 5, [5])"
    using tags by (simp_all add: visible_def sample_key_def kValueTypeForSeek_def BytewiseCompare_def Slice_compare_eq)
  have get: "\<forall>l < kNumLevels. \<forall>f \<in> set (sample_levels ! l). table_get_ok BytewiseCompare sample_meta sample_contents sample_get ?k f"
  proof (intro allI impI ballI)
    fix l f
    assume "l < kNumLevels" "f \<in> set (sample_levels ! l)"
    then have "f = 9 \<or> f = 5"
      using sample_levels_nth [of l] by (cases "l = 1") (auto simp: sample_levels_def)
    then show "table_get_ok BytewiseCompare sample_meta sample_contents sample_get ?k f"
      by (intro sample_table_get) auto
  qed
  have "(5 :: u64) \<le> kMaxSequenceNumber"
    by (simp add: kMaxSequenceNumber_eq)
  then have "type (the (ParseInternalKey (sample_key 5))) = kTypeValue"
    by (simp add: sample_key_def ParseInternalKey_make)
  then show ?thesis
    using version_get_newest [OF bytewise_user.user_comparator_axioms sample_version get] vis
    unfolding es by (auto simp: Let_def split_beta)
qed

text \<open>C15: the iterator over a level is a cursor on all entries of the level. When the files are in order, no
  two have the same number and size, and the table cache gives for every file an iterator over its entries,
  then after any sequence of moves the concatenating iterator is where a cursor on the concatenated
  entries of the files is: it opens the right file on every seek and step, skips from file to file in both
  directions, and reports no error.\<close>

theorem level_iterator_refines_cursor:
  assumes "user_comparator Compare sep succ" "level_sorted Compare F flist"
    "\<forall>f \<in> set flist. contents_ok Compare (F f) (contents f)"
    "distinct (map (\<lambda>f. (file_number (F f), fsize (F f))) flist)"
    "\<forall>f \<in> set flist. list_iterator D (InternalKeyCompare Compare) (\<lambda>k. 8 \<le> length k) (contents f) (don f)"
    "\<forall>f \<in> set flist. \<exists>p. don f (NewIterator (file_number (F f)) (fsize (F f))) p"
    "\<forall>k. ToKey k \<in> set moves \<longrightarrow> 8 \<le> length k"
  shows "let I = Concatenating_methods Compare F D NewIterator flist;
             it = fold (iter_move I) moves (NewConcatenatingIterator Compare F flist);
             es = concat (map contents flist);
             j = fold (cursor_move (InternalKeyCompare Compare) es) moves (length es)
    in it_status I it = Status_OK \<and> (it_Valid I it \<longleftrightarrow> j < length es) \<and>
       (j < length es \<longrightarrow> (it_key I it, it_value I it) = es ! j)"
proof -
  note tl = user_comparator.level_two_level [OF assms(1,5), where F = F]
  note on = user_comparator.level_iterator_new [OF assms(1-4) tl assms(6)]
  note moves = list_iterator.moves_on [OF two_level.two_level_list_iterator [OF tl] on, of moves]
  show ?thesis
    using moves(2-4) assms(7) by (auto simp: Let_def Concatenating_methods_def)
qed

theorem level_iterator_refines_cursor_witness:
  "let D = LevelFileNum_methods BytewiseCompare sample_meta [9];
       I = Concatenating_methods BytewiseCompare sample_meta D (\<lambda>n len. 1) [9];
       it = it_SeekToFirst I (NewConcatenatingIterator BytewiseCompare sample_meta [9])
   in it_Valid I it \<and> it_key I it = sample_key 9"
proof -
  let ?D = "LevelFileNum_methods BytewiseCompare sample_meta [9]"
  let ?contents = "\<lambda>f. bytewise_user.level_entries sample_meta [f]"
  let ?don = "\<lambda>f. bytewise_user.level_on sample_meta [9]"
  have sorted: "level_sorted BytewiseCompare sample_meta [9]"
    using sample_sorted by (simp add: sample_levels_def level_sorted_def)
  have ok: "\<forall>f \<in> set [9]. contents_ok BytewiseCompare (sample_meta f) (?contents f)"
    using sample_key_ok by (auto simp: contents_ok_def bytewise_user.level_entries_def sample_meta_def)
  have iter: "\<forall>f \<in> set [9]. list_iterator ?D (InternalKeyCompare BytewiseCompare) (\<lambda>k. 8 \<le> length k) (?contents f) (?don f)"
    using bytewise_user.LevelFileNum_list_iterator [of sample_meta "[9]"] by simp
  have opens: "\<forall>f \<in> set [9]. \<exists>p. ?don f 1 p"
    using sorted by (simp add: bytewise_user.level_on_def)
  have "largest (sample_meta 9) = sample_key 9"
    by (simp add: sample_meta_def)
  then show ?thesis
    using level_iterator_refines_cursor [where moves = "[ToFirst]" and NewIterator = "\<lambda>n len. 1",
        OF bytewise_user.user_comparator_axioms sorted ok _ iter opens]
    by (simp add: bytewise_user.level_entries_def Let_def)
qed

end
