(* ===== verification/Compaction.thy ===== *)
theory Compaction
  imports Version_Read
begin

text \<open>
  Picking compactions, \<open>db/version_set.cc\<close>: which level, which files, and the bookkeeping a compaction
  does while it runs. Files are read through \<open>F\<close> as in \<open>Version_Search\<close>. A compaction score is a fraction of
  whole numbers where the code has a double. What the code does for a version that is not well formed
  (an empty level to compact, no level below) is \<open>None\<close>, as is a search that does not end.
\<close>

declare loop_until.simps [code]

section \<open>Scores\<close>

record 'f Version =
  v_files :: "'f list list"
  v_file_to_compact :: "'f option"
  v_file_to_compact_level :: int
  v_compaction_score :: "(nat \<times> nat) option"
  v_compaction_level :: int

definition Version_new :: "'f Version" where
  "Version_new = \<lparr>v_files = replicate kNumLevels [], v_file_to_compact = None, v_file_to_compact_level = - 1,
     v_compaction_score = None, v_compaction_level = - 1\<rparr>"

text \<open>\<open>None\<close> is the score \<open>- 1\<close>.\<close>

definition score_greater :: "nat \<times> nat \<Rightarrow> (nat \<times> nat) option \<Rightarrow> bool" where
  "score_greater s best = (case best of None \<Rightarrow> True | Some b \<Rightarrow> fst b * snd s < fst s * snd b)"

definition Finalize_score :: "('f \<Rightarrow> FileMetaData) \<Rightarrow> 'f list list \<Rightarrow> nat \<Rightarrow> nat \<times> nat" where
  "Finalize_score F files level =
     (if level = 0 then (length (files ! level), kL0_CompactionTrigger)
      else (unat (of_int (TotalFileSize F (files ! level)) :: u64), MaxBytesForLevel level))"

fun Finalize_loop ::
  "('f \<Rightarrow> FileMetaData) \<Rightarrow> 'f list list \<Rightarrow> nat list \<Rightarrow> int \<times> (nat \<times> nat) option \<Rightarrow> int \<times> (nat \<times> nat) option" where
  "Finalize_loop F files [] best = best"
| "Finalize_loop F files (level # levels) best =
     (let score = Finalize_score F files level
      in Finalize_loop F files levels (if score_greater score (snd best) then (int level, Some score) else best))"

definition Finalize :: "('f \<Rightarrow> FileMetaData) \<Rightarrow> 'f Version \<Rightarrow> 'f Version" where
  "Finalize F v =
     (let (best_level, best_score) = Finalize_loop F (v_files v) [0..<kNumLevels - 1] (- 1, None)
      in v\<lparr>v_compaction_level := best_level, v_compaction_score := best_score\<rparr>)"

definition score_at_least_one :: "(nat \<times> nat) option \<Rightarrow> bool" where
  "score_at_least_one s = (case s of None \<Rightarrow> False | Some s \<Rightarrow> snd s \<le> fst s)"

definition NeedsCompaction :: "'f Version \<Rightarrow> bool" where
  "NeedsCompaction v \<longleftrightarrow> score_at_least_one (v_compaction_score v) \<or> v_file_to_compact v \<noteq> None"

text \<open>Counting seeks: \<open>F\<close> is the store the files are in, \<open>allowed_seeks\<close> of one of them goes down.\<close>

definition UpdateStats ::
  "('f \<Rightarrow> FileMetaData) \<Rightarrow> 'f Version \<Rightarrow> 'f GetStats \<Rightarrow> bool \<times> ('f \<Rightarrow> FileMetaData) \<times> 'f Version" where
  "UpdateStats F v stats =
     (case seek_file stats of
        None \<Rightarrow> (False, F, v)
      | Some f \<Rightarrow>
          (let F = F(f := (F f)\<lparr>allowed_seeks := allowed_seeks (F f) - 1\<rparr>)
           in if allowed_seeks (F f) \<le> 0 \<and> v_file_to_compact v = None
              then (True, F, v\<lparr>v_file_to_compact := Some f, v_file_to_compact_level := seek_file_level stats\<rparr>)
              else (False, F, v)))"

definition RecordReadSample ::
  "(bytes \<Rightarrow> bytes \<Rightarrow> int) \<Rightarrow> ('f \<Rightarrow> FileMetaData) \<Rightarrow> 'f Version \<Rightarrow> bytes \<Rightarrow> bool \<times> ('f \<Rightarrow> FileMetaData) \<times> 'f Version" where
  "RecordReadSample Compare F v ikey =
     (case sample_stats Compare F (v_files v) ikey of
        None \<Rightarrow> (False, F, v)
      | Some stats \<Rightarrow> UpdateStats F v stats)"

section \<open>A compaction\<close>

record 'f Compaction =
  c_level :: nat
  c_max_output_file_size :: u64
  c_input_files :: "'f list list"
  c_edit :: VersionEdit
  c_inputs0 :: "'f list"
  c_inputs1 :: "'f list"
  c_grandparents :: "'f list"
  c_grandparent_index :: nat
  c_seen_key :: bool
  c_overlapped_bytes :: u64
  c_level_ptrs :: "nat list"

definition Compaction_new :: "nat \<Rightarrow> 'f Compaction" where
  "Compaction_new level =
     \<lparr>c_level = level, c_max_output_file_size = MaxFileSizeForLevel level, c_input_files = [], c_edit = VersionEdit_new,
      c_inputs0 = [], c_inputs1 = [], c_grandparents = [], c_grandparent_index = 0, c_seen_key = False,
      c_overlapped_bytes = 0, c_level_ptrs = replicate kNumLevels 0\<rparr>"

definition GetRange ::
  "(bytes \<Rightarrow> bytes \<Rightarrow> int) \<Rightarrow> ('f \<Rightarrow> FileMetaData) \<Rightarrow> 'f list \<Rightarrow> InternalKey \<times> InternalKey" where
  "GetRange Compare F inputs =
     foldl (\<lambda>(sm, la) f.
              (if InternalKeyCompare Compare (smallest (F f)) sm < 0 then smallest (F f) else sm,
               if InternalKeyCompare Compare (largest (F f)) la > 0 then largest (F f) else la))
       (smallest (F (hd inputs)), largest (F (hd inputs))) (tl inputs)"

definition GetRange2 ::
  "(bytes \<Rightarrow> bytes \<Rightarrow> int) \<Rightarrow> ('f \<Rightarrow> FileMetaData) \<Rightarrow> 'f list \<Rightarrow> 'f list \<Rightarrow> InternalKey \<times> InternalKey" where
  "GetRange2 Compare F inputs1 inputs2 = GetRange Compare F (inputs1 @ inputs2)"

text \<open>The attempt to take more files of the level without taking more of the level below.\<close>

definition expand_inputs ::
  "(bytes \<Rightarrow> bytes \<Rightarrow> int) \<Rightarrow> ('f \<Rightarrow> FileMetaData) \<Rightarrow> 'f list list \<Rightarrow> nat \<Rightarrow> 'f list \<Rightarrow> 'f list \<Rightarrow> InternalKey \<times> InternalKey \<Rightarrow>
   ('f list \<times> 'f list) option option" where
  "expand_inputs Compare F files level inputs0 inputs1 all_range =
     (if inputs1 = [] then Some None
      else case GetOverlappingInputs Compare F files level (Some (fst all_range)) (Some (snd all_range)) of
             None \<Rightarrow> None
           | Some expanded0 \<Rightarrow>
               if length inputs0 < length expanded0 \<and>
                  sint (of_int (TotalFileSize F inputs1) + of_int (TotalFileSize F expanded0) :: u64) < kExpandedCompactionByteSizeLimit
               then (let (new_start, new_limit) = GetRange Compare F expanded0
                     in case GetOverlappingInputs Compare F files (level + 1) (Some new_start) (Some new_limit) of
                          None \<Rightarrow> None
                        | Some expanded1 \<Rightarrow>
                            Some (if length expanded1 = length inputs1 then Some (expanded0, expanded1) else None))
               else Some None)"

text \<open>\<open>SetupOtherInputs\<close>, with \<open>compact_pointer_\<close>.\<close>

definition SetupOtherInputs ::
  "(bytes \<Rightarrow> bytes \<Rightarrow> int) \<Rightarrow> ('f \<Rightarrow> FileMetaData) \<Rightarrow> 'f list list \<Rightarrow> bytes list \<Rightarrow> 'f Compaction \<Rightarrow>
   ('f Compaction \<times> bytes list) option" where
  "SetupOtherInputs Compare F files compact_pointer c =
     (let level = c_level c;
          (sm, la) = GetRange Compare F (c_inputs0 c)
      in case GetOverlappingInputs Compare F files (level + 1) (Some sm) (Some la) of
           None \<Rightarrow> None
         | Some inputs1 \<Rightarrow>
             (let all_range = GetRange2 Compare F (c_inputs0 c) inputs1
              in case expand_inputs Compare F files level (c_inputs0 c) inputs1 all_range of
                   None \<Rightarrow> None
                 | Some expanded \<Rightarrow>
                     (let (inputs0, inputs1) = (case expanded of None \<Rightarrow> (c_inputs0 c, inputs1) | Some e \<Rightarrow> e);
                          la = (case expanded of None \<Rightarrow> la | Some e \<Rightarrow> snd (GetRange Compare F (fst e)));
                          all_range = (case expanded of None \<Rightarrow> all_range | Some e \<Rightarrow> GetRange2 Compare F (fst e) (snd e));
                          grandparents = (if level + 2 < kNumLevels
                                          then GetOverlappingInputs Compare F files (level + 2) (Some (fst all_range)) (Some (snd all_range))
                                          else Some (c_grandparents c))
                      in map_option (\<lambda>gs. (c\<lparr>c_inputs0 := inputs0, c_inputs1 := inputs1, c_grandparents := gs,
                                              c_edit := SetCompactPointer level la (c_edit c)\<rparr>,
                                            compact_pointer[level := la])) grandparents)))"

definition pick_after_pointer ::
  "(bytes \<Rightarrow> bytes \<Rightarrow> int) \<Rightarrow> ('f \<Rightarrow> FileMetaData) \<Rightarrow> bytes \<Rightarrow> 'f list \<Rightarrow> 'f list" where
  "pick_after_pointer Compare F pointer fs =
     (case find (\<lambda>f. pointer = [] \<or> InternalKeyCompare Compare (largest (F f)) pointer > 0) fs of
        None \<Rightarrow> [fs ! 0]
      | Some f \<Rightarrow> [f])"

text \<open>\<open>PickCompaction\<close>: the level and its inputs, before \<open>SetupOtherInputs\<close>. \<open>Some None\<close> is a null pointer, no
  compaction to do.\<close>

definition PickInputs ::
  "(bytes \<Rightarrow> bytes \<Rightarrow> int) \<Rightarrow> ('f \<Rightarrow> FileMetaData) \<Rightarrow> 'f Version \<Rightarrow> bytes list \<Rightarrow> (nat \<times> 'f list) option option" where
  "PickInputs Compare F v compact_pointer =
     (let files = v_files v;
          chosen = (if score_at_least_one (v_compaction_score v)
                    then (let level = nat (v_compaction_level v)
                          in Some (level, pick_after_pointer Compare F (compact_pointer ! level) (files ! level)))
                    else case v_file_to_compact v of
                           None \<Rightarrow> None
                         | Some f \<Rightarrow> Some (nat (v_file_to_compact_level v), [f]))
      in case chosen of
           None \<Rightarrow> Some None
         | Some (level, inputs0) \<Rightarrow>
             if level = 0
             then (let (sm, la) = GetRange Compare F inputs0
                   in case GetOverlappingInputs Compare F files 0 (Some sm) (Some la) of
                        None \<Rightarrow> None
                      | Some inputs0 \<Rightarrow> if inputs0 = [] then None else Some (Some (level, inputs0)))
             else Some (Some (level, inputs0)))"

definition PickCompaction ::
  "(bytes \<Rightarrow> bytes \<Rightarrow> int) \<Rightarrow> ('f \<Rightarrow> FileMetaData) \<Rightarrow> 'f Version \<Rightarrow> bytes list \<Rightarrow>
   ('f Compaction \<times> bytes list) option option" where
  "PickCompaction Compare F v compact_pointer =
     (case PickInputs Compare F v compact_pointer of
        None \<Rightarrow> None
      | Some None \<Rightarrow> Some None
      | Some (Some (level, inputs0)) \<Rightarrow>
          map_option Some (SetupOtherInputs Compare F (v_files v) compact_pointer
            ((Compaction_new level)\<lparr>c_input_files := v_files v, c_inputs0 := inputs0\<rparr>)))"

fun limit_inputs :: "('f \<Rightarrow> FileMetaData) \<Rightarrow> u64 \<Rightarrow> u64 \<Rightarrow> 'f list \<Rightarrow> 'f list" where
  "limit_inputs F limit tot [] = []"
| "limit_inputs F limit tot (f # fs) =
     (let tot = tot + fsize (F f) in if limit \<le> tot then [f] else f # limit_inputs F limit tot fs)"

definition CompactRange ::
  "(bytes \<Rightarrow> bytes \<Rightarrow> int) \<Rightarrow> ('f \<Rightarrow> FileMetaData) \<Rightarrow> 'f list list \<Rightarrow> bytes list \<Rightarrow> nat \<Rightarrow> InternalKey option \<Rightarrow>
   InternalKey option \<Rightarrow> ('f Compaction \<times> bytes list) option option" where
  "CompactRange Compare F files compact_pointer level bgn nd =
     (case GetOverlappingInputs Compare F files level bgn nd of
        None \<Rightarrow> None
      | Some inputs \<Rightarrow>
          if inputs = [] then Some None
          else (let inputs = (if 0 < level then limit_inputs F (MaxFileSizeForLevel level) 0 inputs else inputs);
                    c = (Compaction_new level)\<lparr>c_input_files := files, c_inputs0 := inputs\<rparr>
                in map_option Some (SetupOtherInputs Compare F files compact_pointer c)))"

text \<open>The iterators \<open>MakeInputIterator\<close> merges: one for each file of level 0, else one for the files of a level.\<close>

definition MakeInputIterator_list ::
  "(bytes \<Rightarrow> bytes \<Rightarrow> int) \<Rightarrow> ('f \<Rightarrow> FileMetaData) \<Rightarrow> (u64 \<Rightarrow> u64 \<Rightarrow> 'd) \<Rightarrow> 'f Compaction \<Rightarrow>
   ('d + 'f list \<times> 'd level_iterator) list" where
  "MakeInputIterator_list Compare F NewIterator c =
     concat (map (\<lambda>(level, inputs).
                    if inputs = [] then []
                    else if level = 0 then map (\<lambda>f. Inl (NewIterator (file_number (F f)) (fsize (F f)))) inputs
                    else [Inr (inputs, NewConcatenatingIterator Compare F inputs)])
               [(c_level c, c_inputs0 c), (c_level c + 1, c_inputs1 c)])"

section \<open>While a compaction runs\<close>

definition IsTrivialMove :: "('f \<Rightarrow> FileMetaData) \<Rightarrow> 'f Compaction \<Rightarrow> bool" where
  "IsTrivialMove F c \<longleftrightarrow>
     length (c_inputs0 c) = 1 \<and> length (c_inputs1 c) = 0 \<and> TotalFileSize F (c_grandparents c) \<le> kMaxGrandParentOverlapBytes"

definition AddInputDeletions :: "('f \<Rightarrow> FileMetaData) \<Rightarrow> 'f Compaction \<Rightarrow> VersionEdit \<Rightarrow> VersionEdit" where
  "AddInputDeletions F c edit =
     foldl (\<lambda>e f. VersionEdit_DeleteFile (c_level c + 1) (file_number (F f)) e)
       (foldl (\<lambda>e f. VersionEdit_DeleteFile (c_level c) (file_number (F f)) e) edit (c_inputs0 c)) (c_inputs1 c)"

text \<open>The loop over one level: the new \<open>level_ptrs_[lvl]\<close>, and whether the key falls into a file.\<close>

function advance_level ::
  "(bytes \<Rightarrow> bytes \<Rightarrow> int) \<Rightarrow> ('f \<Rightarrow> FileMetaData) \<Rightarrow> bytes \<Rightarrow> 'f list \<Rightarrow> nat \<Rightarrow> nat \<times> bool" where
  "advance_level Compare F ukey fs p =
     (if p < length fs
      then (if Compare ukey (file_limit F (fs ! p)) \<le> 0
            then (p, Compare ukey (file_start F (fs ! p)) \<ge> 0)
            else advance_level Compare F ukey fs (p + 1))
      else (p, False))"
  by pat_completeness auto
termination
  by (relation "measure (\<lambda>(Compare, F, ukey, fs, p). length fs - p)") auto

declare advance_level.simps [simp del]

fun IsBaseLevel_loop ::
  "(bytes \<Rightarrow> bytes \<Rightarrow> int) \<Rightarrow> ('f \<Rightarrow> FileMetaData) \<Rightarrow> bytes \<Rightarrow> 'f list list \<Rightarrow> nat list \<Rightarrow> nat list \<Rightarrow> bool \<times> nat list" where
  "IsBaseLevel_loop Compare F ukey files [] ptrs = (True, ptrs)"
| "IsBaseLevel_loop Compare F ukey files (lvl # lvls) ptrs =
     (let (p, inside) = advance_level Compare F ukey (files ! lvl) (ptrs ! lvl);
          ptrs = ptrs[lvl := p]
      in if inside then (False, ptrs) else IsBaseLevel_loop Compare F ukey files lvls ptrs)"

definition IsBaseLevelForKey ::
  "(bytes \<Rightarrow> bytes \<Rightarrow> int) \<Rightarrow> ('f \<Rightarrow> FileMetaData) \<Rightarrow> bytes \<Rightarrow> 'f Compaction \<Rightarrow> bool \<times> 'f Compaction" where
  "IsBaseLevelForKey Compare F ukey c =
     (let (r, ptrs) = IsBaseLevel_loop Compare F ukey (c_input_files c) [c_level c + 2..<kNumLevels] (c_level_ptrs c)
      in (r, c\<lparr>c_level_ptrs := ptrs\<rparr>))"

function skip_grandparents ::
  "(bytes \<Rightarrow> bytes \<Rightarrow> int) \<Rightarrow> ('f \<Rightarrow> FileMetaData) \<Rightarrow> bytes \<Rightarrow> 'f list \<Rightarrow> bool \<Rightarrow> nat \<Rightarrow> u64 \<Rightarrow> nat \<times> u64" where
  "skip_grandparents Compare F ikey gs seen i overlapped =
     (if i < length gs \<and> InternalKeyCompare Compare ikey (largest (F (gs ! i))) > 0
      then skip_grandparents Compare F ikey gs seen (i + 1) (if seen then overlapped + fsize (F (gs ! i)) else overlapped)
      else (i, overlapped))"
  by pat_completeness auto
termination
  by (relation "measure (\<lambda>(Compare, F, ikey, gs, seen, i, overlapped). length gs - i)") auto

declare skip_grandparents.simps [simp del]

definition ShouldStopBefore ::
  "(bytes \<Rightarrow> bytes \<Rightarrow> int) \<Rightarrow> ('f \<Rightarrow> FileMetaData) \<Rightarrow> bytes \<Rightarrow> 'f Compaction \<Rightarrow> bool \<times> 'f Compaction" where
  "ShouldStopBefore Compare F ikey c =
     (let (i, overlapped) = skip_grandparents Compare F ikey (c_grandparents c) (c_seen_key c) (c_grandparent_index c) (c_overlapped_bytes c);
          c = c\<lparr>c_grandparent_index := i, c_overlapped_bytes := overlapped, c_seen_key := True\<rparr>
      in if sint overlapped > kMaxGrandParentOverlapBytes then (True, c\<lparr>c_overlapped_bytes := 0\<rparr>) else (False, c))"

section \<open>Scores and seeks\<close>

text \<open>What a version says of the file to compact is right: the file is in the level, and there is a level below.\<close>

definition seek_ok :: "'f list list \<Rightarrow> 'f option \<Rightarrow> int \<Rightarrow> bool" where
  "seek_ok files fo level \<longleftrightarrow> (\<forall>f. fo = Some f \<longrightarrow> 0 \<le> level \<and> nat level + 1 < kNumLevels \<and> f \<in> set (files ! nat level))"

definition read_ok :: "'f list list \<Rightarrow> nat \<Rightarrow> 'f Get_state \<Rightarrow> bool" where
  "read_ok files L st \<longleftrightarrow>
     seek_ok files (seek_file (gs_stats st)) (seek_file_level (gs_stats st)) \<and>
     (\<forall>f. gs_last_file_read st = Some f \<longrightarrow> 0 \<le> gs_last_file_read_level st \<and>
        (nat (gs_last_file_read_level st) < L \<or> gs_last_file_read_level st = 0) \<and> f \<in> set (files ! nat (gs_last_file_read_level st)))"

lemma read_ok_mono: "read_ok files L st \<Longrightarrow> L \<le> L' \<Longrightarrow> read_ok files L' st"
  by (auto simp: read_ok_def)

text \<open>The bookkeeping of the search before it opens a file.\<close>

definition scan_mark :: "nat \<Rightarrow> 'f \<Rightarrow> 'f Get_state \<Rightarrow> 'f Get_state" where
  "scan_mark L f st =
     (if gs_last_file_read st \<noteq> None \<and> seek_file (gs_stats st) = None
      then st\<lparr>gs_stats := \<lparr>seek_file = gs_last_file_read st, seek_file_level = gs_last_file_read_level st\<rparr>\<rparr>
      else st)\<lparr>gs_last_file_read := Some f, gs_last_file_read_level := int L\<rparr>"

lemma Get_scan_Cons:
  "Get_scan Compare F TableGet u k L (f # fs) st =
     (case Get_file Compare F TableGet u k f of
        Some r \<Rightarrow> Inl (r, scan_mark L f st)
      | None \<Rightarrow> Get_scan Compare F TableGet u k L fs (scan_mark L f st))"
  by (simp only: Get_scan.simps scan_mark_def Let_def)

lemma read_ok_mark:
  assumes "read_ok files L st" "L < kNumLevels" "f \<in> set (files ! L)"
  shows "read_ok files (Suc L) (scan_mark L f st)" "L = 0 \<Longrightarrow> read_ok files 0 (scan_mark L f st)"
  using assms by (auto simp: read_ok_def seek_ok_def scan_mark_def kNumLevels_def)

definition scan_result :: "('f Get_state \<Rightarrow> bool) \<Rightarrow> 'r \<times> 'f Get_state + 'f Get_state \<Rightarrow> bool" where
  "scan_result P r \<longleftrightarrow> (case r of Inl r \<Rightarrow> P (snd r) | Inr st \<Rightarrow> P st)"

lemma scan_result_simps [simp]: "scan_result P (Inl (r, st)) = P st" "scan_result P (Inr st) = P st"
  by (simp_all add: scan_result_def)

lemma Get_scan_single:
  assumes "read_ok files L st" "L < kNumLevels" "fs = [] \<or> (\<exists>f \<in> set (files ! L). fs = [f])"
  shows "scan_result (read_ok files (Suc L)) (Get_scan Compare F TableGet u k L fs st)"
proof (cases fs)
  case Nil
  then show ?thesis
    using read_ok_mono [OF assms(1), of "Suc L"] by simp
next
  case (Cons f gs)
  then have "gs = []" "read_ok files (Suc L) (scan_mark L f st)"
    using assms read_ok_mark(1) [of files L st f] by auto
  then show ?thesis
    unfolding Cons Get_scan_Cons by (simp split: option.split)
qed

lemma Get_scan_level0:
  assumes "read_ok files 0 st" "set fs \<subseteq> set (files ! 0)"
  shows "scan_result (read_ok files 0) (Get_scan Compare F TableGet u k 0 fs st)"
  using assms
proof (induction fs arbitrary: st)
  case (Cons f fs)
  then have "read_ok files 0 (scan_mark 0 f st)"
    using read_ok_mark(2) [of files 0 st f] by (simp add: kNumLevels_def)
  then show ?case
    unfolding Get_scan_Cons using Cons.IH [of "scan_mark 0 f st"] Cons.prems by (simp split: option.split)
qed simp

lemma scan_result_mono: "scan_result P r \<Longrightarrow> (\<And>st. P st \<Longrightarrow> Q st) \<Longrightarrow> scan_result Q r"
  by (auto simp: scan_result_def split: sum.splits)

lemma Get_files_few:
  "0 < L \<Longrightarrow> Get_files Compare F files u k L = [] \<or> (\<exists>f \<in> set (files ! L). Get_files Compare F files u k L = [f])"
  by (auto simp: Get_files_def level_candidates_def Let_def)

lemma Get_levels_read_ok:
  assumes "read_ok files L st" "L \<le> kNumLevels"
  shows "read_ok files kNumLevels (snd (Get_levels Compare F TableGet files u k [L..<kNumLevels] st))"
  using assms
proof (induction "kNumLevels - L" arbitrary: L st)
  case 0
  then show ?case
    by simp
next
  case (Suc n)
  have L: "L < kNumLevels"
    using Suc.hyps(2) by simp
  note levels = upt_conv_Cons [OF L]
  have IH: "read_ok files (Suc L) st' \<Longrightarrow>
      read_ok files kNumLevels (snd (Get_levels Compare F TableGet files u k [Suc L..<kNumLevels] st'))" for st'
    using Suc.hyps(1) [of "Suc L" st'] Suc.hyps(2) L by simp
  define fs where "fs = Get_files Compare F files u k L"
  have scan: "scan_result (read_ok files (Suc L)) (Get_scan Compare F TableGet u k L fs st)"
  proof (cases "L = 0")
    case True
    have "set fs \<subseteq> set (files ! 0)"
      by (auto simp: fs_def True Get_files_def level0_candidates_def sort_NewestFirst_def)
    from Get_scan_level0 [OF _ this] have "scan_result (read_ok files 0) (Get_scan Compare F TableGet u k 0 fs st)"
      using Suc.prems(1) True by blast
    then show ?thesis
      unfolding True by (rule scan_result_mono) (rule read_ok_mono, assumption, simp)
  next
    case False
    then have "fs = [] \<or> (\<exists>f \<in> set (files ! L). fs = [f])"
      unfolding fs_def by (intro Get_files_few) simp
    then show ?thesis
      by (rule Get_scan_single [OF Suc.prems(1) L])
  qed
  have skip: "read_ok files (Suc L) st"
    using read_ok_mono [OF Suc.prems(1)] by simp
  show ?case
  proof (cases "Get_scan Compare F TableGet u k L fs st")
    case (Inl r)
    then have "read_ok files kNumLevels (snd r)"
      using scan read_ok_mono [of files "Suc L" "snd r" kNumLevels] L by (simp add: scan_result_def)
    then show ?thesis
      using Inl IH [OF skip] by (simp add: levels fs_def)
  next
    case (Inr st')
    then have "read_ok files (Suc L) st'"
      using scan by (simp add: scan_result_def)
    then show ?thesis
      using Inr IH [OF skip] IH [of st'] by (simp add: levels fs_def)
  qed
qed

text \<open>The file a read charges a seek to has a level below it.\<close>

lemma Version_Get_seek_ok:
  "seek_ok files (seek_file (snd (snd (Version_Get Compare F TableGet files k))))
     (seek_file_level (snd (snd (Version_Get Compare F TableGet files k))))"
proof -
  have "read_ok files 0 \<lparr>gs_stats = \<lparr>seek_file = None, seek_file_level = - 1\<rparr>, gs_last_file_read = None, gs_last_file_read_level = - 1\<rparr>"
    by (simp add: read_ok_def seek_ok_def)
  from Get_levels_read_ok [OF this] show ?thesis
    by (simp add: Version_Get_def split_beta Let_def read_ok_def)
qed

definition match_ok :: "'f list list \<Rightarrow> nat \<Rightarrow> 'f GetStats \<times> nat \<Rightarrow> bool" where
  "match_ok files L st \<longleftrightarrow>
     (\<forall>f. seek_file (fst st) = Some f \<longrightarrow> 0 \<le> seek_file_level (fst st) \<and>
        (nat (seek_file_level (fst st)) < L \<or> seek_file_level (fst st) = 0) \<and> f \<in> set (files ! nat (seek_file_level (fst st)))) \<and>
     (2 \<le> snd st \<longrightarrow> seek_ok files (seek_file (fst st)) (seek_file_level (fst st)))"

lemma match_ok_mono: "match_ok files L st \<Longrightarrow> L \<le> L' \<Longrightarrow> match_ok files L' st"
  by (auto simp: match_ok_def)

lemma match_ok_step:
  assumes "match_ok files L st" "L < kNumLevels" "f \<in> set (files ! L)"
  shows "match_ok files (Suc L) (snd (sample_match L f st))" "L = 0 \<Longrightarrow> match_ok files 0 (snd (sample_match L f st))"
  using assms by (auto simp: match_ok_def sample_match_def seek_ok_def Let_def kNumLevels_def)

lemma each_while_level0:
  assumes "match_ok files 0 st" "set fs \<subseteq> set (files ! 0)"
  shows "match_ok files 0 (snd (each_while (sample_match 0) fs st))"
  using assms
proof (induction fs arbitrary: st)
  case (Cons f fs)
  then have "match_ok files 0 (snd (sample_match 0 f st))"
    using match_ok_step(2) [of files 0 st f] by (simp add: kNumLevels_def)
  then show ?case
    using Cons by (cases "sample_match 0 f st") (auto split: bool.split)
qed simp

lemma ForEachOverlapping_levels_ok:
  assumes "match_ok files L st" "L \<le> kNumLevels" "0 < L"
  shows "match_ok files kNumLevels (ForEachOverlapping_levels Compare F files u k sample_match [L..<kNumLevels] st)"
  using assms
proof (induction "kNumLevels - L" arbitrary: L st)
  case 0
  then show ?case
    by simp
next
  case (Suc n)
  have L: "L < kNumLevels"
    using Suc.hyps(2) by simp
  note levels = upt_conv_Cons [OF L]
  have IH: "match_ok files (Suc L) st' \<Longrightarrow>
      match_ok files kNumLevels (ForEachOverlapping_levels Compare F files u k sample_match [Suc L..<kNumLevels] st')" for st'
    using Suc.hyps(1) [of "Suc L" st'] Suc.hyps(2) L by simp
  define fs where "fs = level_candidates Compare F (files ! L) u k"
  have "match_ok files (Suc L) (snd (each_while (sample_match L) fs st))"
  proof (cases fs)
    case Nil
    then show ?thesis
      using match_ok_mono [OF Suc.prems(1), of "Suc L"] by simp
  next
    case (Cons f gs)
    then have "gs = []" "f \<in> set (files ! L)"
      by (auto simp: fs_def level_candidates_def Let_def split: if_splits)
    then show ?thesis
      using match_ok_step(1) [OF Suc.prems(1) L, of f] Cons by (cases "sample_match L f st") (auto split: bool.split)
  qed
  moreover have "match_ok files (Suc L) st"
    using match_ok_mono [OF Suc.prems(1)] by simp
  ultimately show ?case
    using IH match_ok_mono [of files "Suc L" _ kNumLevels] L
    by (cases "each_while (sample_match L) fs st") (auto simp: levels fs_def [symmetric] split: bool.split)
qed

lemma sample_stats_seek_ok:
  assumes "sample_stats Compare F files k = Some stats"
  shows "seek_ok files (seek_file stats) (seek_file_level stats)"
proof -
  obtain p m where p: "ForEachOverlapping Compare F files p k sample_match (\<lparr>seek_file = None, seek_file_level = - 1\<rparr>, 0) = (stats, m)"
    "2 \<le> m"
    using assms by (auto simp: sample_stats_def split: option.splits prod.splits if_splits)
  define st where "st = (\<lparr>seek_file = None :: 'a option, seek_file_level = - 1\<rparr>, 0 :: nat)"
  have "match_ok files 0 st"
    by (simp add: st_def match_ok_def)
  then have "match_ok files 0 (snd (each_while (sample_match 0) (level0_candidates Compare F (files ! 0) p) st))"
    by (rule each_while_level0) (auto simp: level0_candidates_def sort_NewestFirst_def)
  moreover obtain b st' where e: "each_while (sample_match 0) (level0_candidates Compare F (files ! 0) p) st = (b, st')"
    by (metis surj_pair)
  ultimately have "match_ok files 1 st'" "match_ok files kNumLevels st'"
    by (auto intro: match_ok_mono)
  then have "match_ok files kNumLevels (ForEachOverlapping Compare F files p k sample_match st)"
    using ForEachOverlapping_levels_ok [of files 1 st'] e by (simp add: ForEachOverlapping_def kNumLevels_def split: bool.split)
  then show ?thesis
    using p by (simp add: st_def match_ok_def)
qed

lemma UpdateStats_seek_ok:
  assumes "seek_ok (v_files v) (v_file_to_compact v) (v_file_to_compact_level v)"
    "seek_ok (v_files v) (seek_file stats) (seek_file_level stats)" "UpdateStats F v stats = (b, F', v')"
  shows "seek_ok (v_files v') (v_file_to_compact v') (v_file_to_compact_level v')"
  using assms by (auto simp: UpdateStats_def Let_def split: option.splits if_splits)

text \<open>The best score is that of a level with files and a level below it.\<close>

definition score_ok :: "('f \<Rightarrow> FileMetaData) \<Rightarrow> 'f list list \<Rightarrow> int \<times> (nat \<times> nat) option \<Rightarrow> bool" where
  "score_ok F files best \<longleftrightarrow>
     (\<forall>s. snd best = Some s \<longrightarrow> 0 \<le> fst best \<and> nat (fst best) + 1 < kNumLevels \<and> s = Finalize_score F files (nat (fst best)))"

lemma Finalize_loop_score_ok:
  "\<forall>l \<in> set levels. l + 1 < kNumLevels \<Longrightarrow> score_ok F files best \<Longrightarrow> score_ok F files (Finalize_loop F files levels best)"
  by (induction levels arbitrary: best) (auto simp: score_ok_def Let_def)

lemma MaxBytesForLevel_loop_pos: "0 < r \<Longrightarrow> 0 < MaxBytesForLevel_loop r level"
proof (induction r level rule: MaxBytesForLevel_loop.induct)
  case (1 r level)
  then show ?case
    by (subst MaxBytesForLevel_loop.simps) (simp del: MaxBytesForLevel_loop.simps)
qed

lemma Finalize_level:
  assumes "Finalize F v = v" "score_at_least_one (v_compaction_score v)"
  shows "0 \<le> v_compaction_level v" "nat (v_compaction_level v) + 1 < kNumLevels"
    "v_files v ! nat (v_compaction_level v) \<noteq> []"
proof -
  define best where "best = Finalize_loop F (v_files v) [0..<kNumLevels - 1] (- 1, None)"
  have "v\<lparr>v_compaction_level := fst best, v_compaction_score := snd best\<rparr> = v"
    using assms(1) by (simp add: Finalize_def best_def split_beta)
  then have v: "v_compaction_level v = fst best" "v_compaction_score v = snd best"
    by (metis Version.select_convs Version.surjective Version.update_convs)+
  have ok: "score_ok F (v_files v) best"
    unfolding best_def by (rule Finalize_loop_score_ok) (auto simp: score_ok_def)
  from assms(2) v(2) obtain s where s: "snd best = Some s" "snd s \<le> fst s"
    by (auto simp: score_at_least_one_def split: option.splits)
  with ok show l: "0 \<le> v_compaction_level v" "nat (v_compaction_level v) + 1 < kNumLevels"
    by (auto simp: score_ok_def v)
  show "v_files v ! nat (v_compaction_level v) \<noteq> []"
  proof
    assume empty: "v_files v ! nat (v_compaction_level v) = []"
    have "s = Finalize_score F (v_files v) (nat (v_compaction_level v))"
      using ok s(1) by (simp add: score_ok_def v)
    then have "fst s = 0 \<and> 0 < snd s"
      unfolding Finalize_score_def empty by (simp add: TotalFileSize_def kL0_CompactionTrigger_def MaxBytesForLevel_def MaxBytesForLevel_loop_pos
          del: MaxBytesForLevel_loop.simps)
    with s(2) show False
      by simp
  qed
qed

lemma Finalize_score_best:
  assumes "Finalize F v = v" "v_compaction_score v = Some s"
  shows "s = Finalize_score F (v_files v) (nat (v_compaction_level v))"
proof -
  define best where "best = Finalize_loop F (v_files v) [0..<kNumLevels - 1] (- 1, None)"
  have "v\<lparr>v_compaction_level := fst best, v_compaction_score := snd best\<rparr> = v"
    using assms(1) by (simp add: Finalize_def best_def split_beta)
  then have v: "v_compaction_level v = fst best" "v_compaction_score v = snd best"
    by (metis Version.select_convs Version.surjective Version.update_convs)+
  have "score_ok F (v_files v) best"
    unfolding best_def by (rule Finalize_loop_score_ok) (auto simp: score_ok_def)
  then show ?thesis
    using assms(2) unfolding score_ok_def v by blast
qed

section \<open>The inputs of a compaction\<close>

text \<open>More files are taken from a level only when there are inputs from the next one and the sizes stay below the limit.\<close>

definition worth_expanding :: "('f \<Rightarrow> FileMetaData) \<Rightarrow> 'f list \<Rightarrow> 'f list \<Rightarrow> 'f list \<Rightarrow> bool" where
  "worth_expanding F picked inputs0 inputs1 \<longleftrightarrow>
     inputs1 \<noteq> [] \<and> length picked < length inputs0 \<and>
     sint (of_int (TotalFileSize F inputs1) + of_int (TotalFileSize F inputs0) :: u64) < kExpandedCompactionByteSizeLimit"

text \<open>A file that meets the range of user keys from the first to the last one of some inputs.\<close>

definition spanned :: "(bytes \<Rightarrow> bytes \<Rightarrow> int) \<Rightarrow> ('f \<Rightarrow> FileMetaData) \<Rightarrow> 'f list \<Rightarrow> 'f \<Rightarrow> bool" where
  "spanned Compare F inputs g \<longleftrightarrow>
     (\<exists>f \<in> set inputs. Compare (file_start F f) (file_limit F g) \<le> 0) \<and>
     (\<exists>f \<in> set inputs. Compare (file_start F g) (file_limit F f) \<le> 0)"

lemma spanned_mono: "set inputs \<subseteq> set inputs' \<Longrightarrow> spanned Compare F inputs g \<Longrightarrow> spanned Compare F inputs' g"
  by (auto simp: spanned_def)

lemma filter_eq_of_length:
  assumes "\<forall>x \<in> set xs. P x \<longrightarrow> Q x" "length (filter Q xs) = length (filter P xs)"
  shows "filter Q xs = filter P xs"
  using assms
proof (induction xs)
  case (Cons x xs)
  have "length (filter P xs) \<le> length (filter Q xs)"
    using Cons.prems(1) by (induction xs) auto
  then show ?case
    using Cons by (auto split: if_splits)
qed simp

context user_comparator
begin

lemma internal_greater: "InternalKeyCompare Compare a b > 0 \<longleftrightarrow> InternalKeyCompare Compare b a < 0"
  using internal_flip [of a b] by (auto simp: sgn_if split: if_splits)

lemma internal_ge: "0 \<le> InternalKeyCompare Compare a b \<Longrightarrow> InternalKeyCompare Compare b a \<le> 0"
  using internal_flip [of a b] by (auto simp: sgn_if split: if_splits)

lemma GetRange_bounds:
  assumes "inputs \<noteq> []" "\<forall>f \<in> set inputs. file_ok Compare (F f)" "GetRange Compare F inputs = (sm, la)"
  shows "(\<exists>f \<in> set inputs. sm = smallest (F f)) \<and> (\<forall>f \<in> set inputs. InternalKeyCompare Compare sm (smallest (F f)) \<le> 0)"
    "(\<exists>f \<in> set inputs. la = largest (F f)) \<and> (\<forall>f \<in> set inputs. InternalKeyCompare Compare (largest (F f)) la \<le> 0)"
proof -
  define step where "step = (\<lambda>(sm, la) f.
     (if InternalKeyCompare Compare (smallest (F f)) sm < 0 then smallest (F f) else sm,
      if InternalKeyCompare Compare (largest (F f)) la > 0 then largest (F f) else la))"
  define P where "P xs r \<longleftrightarrow>
     ((\<exists>f \<in> set xs. fst r = smallest (F f)) \<and> (\<forall>f \<in> set xs. InternalKeyCompare Compare (fst r) (smallest (F f)) \<le> 0)) \<and>
     ((\<exists>f \<in> set xs. snd r = largest (F f)) \<and> (\<forall>f \<in> set xs. InternalKeyCompare Compare (largest (F f)) (snd r) \<le> 0))" for xs r
  have step: "P (xs @ [x]) (step r x)" if "P xs r" for xs x r
  proof -
    obtain a b where r: "r = (a, b)"
      by fastforce
    have "InternalKeyCompare Compare (if InternalKeyCompare Compare s a < 0 then s else a) c \<le> 0"
      if "InternalKeyCompare Compare a c \<le> 0 \<or> c = s" for s c
      using that internal_trans [of s a c] internal_self internal_ge [of s a] by (auto simp: not_less)
    moreover have "InternalKeyCompare Compare c (if InternalKeyCompare Compare s b > 0 then s else b) \<le> 0"
      if "InternalKeyCompare Compare c b \<le> 0 \<or> c = s" for s c
      using that internal_trans [of c b s] internal_self internal_ge [of s b] by (auto simp: not_less)
    ultimately show ?thesis
      using that by (auto simp: P_def r step_def)
  qed
  have fold: "P (xs @ ys) (foldl step r ys)" if "P xs r" for xs ys r
    using that
  proof (induction ys arbitrary: xs r)
    case (Cons y ys)
    show ?case
      using Cons.IH [OF step [OF Cons.prems, of y]] by simp
  qed simp
  obtain x xs where x: "inputs = x # xs"
    using assms(1) by (cases inputs) auto
  have "P [x] (smallest (F x), largest (F x))"
    by (simp add: P_def internal_self)
  from fold [OF this, of xs] have "P inputs (GetRange Compare F inputs)"
    by (simp add: x GetRange_def step_def)
  then show "(\<exists>f \<in> set inputs. sm = smallest (F f)) \<and> (\<forall>f \<in> set inputs. InternalKeyCompare Compare sm (smallest (F f)) \<le> 0)"
    "(\<exists>f \<in> set inputs. la = largest (F f)) \<and> (\<forall>f \<in> set inputs. InternalKeyCompare Compare (largest (F f)) la \<le> 0)"
    by (auto simp: assms(3) P_def)
qed

lemma GetRange_spanned:
  assumes "inputs \<noteq> []" "\<forall>f \<in> set inputs. file_ok Compare (F f)" "GetRange Compare F inputs = (sm, la)"
  shows "overlaps Compare F (Some (ExtractUserKey sm)) (Some (ExtractUserKey la)) g \<longleftrightarrow> spanned Compare F inputs g"
proof -
  note b = GetRange_bounds [OF assms]
  obtain f where f: "f \<in> set inputs" "sm = smallest (F f)"
    using b(1) by blast
  obtain h where h: "h \<in> set inputs" "la = largest (F h)"
    using b(2) by blast
  have sm: "Compare (ExtractUserKey sm) (file_start F f) \<le> 0" if "f \<in> set inputs" for f
    using b(1) that by (auto simp: internal_le_iff)
  have la: "Compare (file_limit F f) (ExtractUserKey la) \<le> 0" if "f \<in> set inputs" for f
    using b(2) that by (auto simp: internal_le_iff)
  have "\<not> Compare (file_limit F g) (ExtractUserKey sm) < 0 \<longleftrightarrow> (\<exists>f \<in> set inputs. Compare (file_start F f) (file_limit F g) \<le> 0)"
  proof
    assume "\<not> Compare (file_limit F g) (ExtractUserKey sm) < 0"
    then show "\<exists>f \<in> set inputs. Compare (file_start F f) (file_limit F g) \<le> 0"
      using f greater_flip [of "ExtractUserKey sm" "file_limit F g"] by (intro bexI [of _ f]) auto
  next
    assume "\<exists>f \<in> set inputs. Compare (file_start F f) (file_limit F g) \<le> 0"
    then have "Compare (ExtractUserKey sm) (file_limit F g) \<le> 0"
      using sm Compare_trans [of "ExtractUserKey sm" _ "file_limit F g"] by blast
    then show "\<not> Compare (file_limit F g) (ExtractUserKey sm) < 0"
      using greater_flip [of "ExtractUserKey sm" "file_limit F g"] by auto
  qed
  moreover have "\<not> Compare (file_start F g) (ExtractUserKey la) > 0 \<longleftrightarrow> (\<exists>f \<in> set inputs. Compare (file_start F g) (file_limit F f) \<le> 0)"
    using h la Compare_trans [of "file_start F g" _ "ExtractUserKey la"] by (simp add: not_less) blast
  ultimately show ?thesis
    by (simp add: overlaps_def below_def above_def spanned_def)
qed

lemma GetOverlappingInputs_spanned:
  assumes "0 < level" "inputs \<noteq> []" "\<forall>f \<in> set inputs. file_ok Compare (F f)" "GetRange Compare F inputs = (sm, la)"
  shows "GetOverlappingInputs Compare F files level (Some sm) (Some la) = Some (filter (spanned Compare F inputs) (files ! level))"
  using GetOverlappingInputs_above0 [OF assms(1), of F files "Some sm" "Some la"] GetRange_spanned [OF assms(2-4)]
  by (simp cong: filter_cong)

text \<open>Level 0: no other file of the level meets the range of the files taken.\<close>

definition level_closed :: "('f \<Rightarrow> FileMetaData) \<Rightarrow> 'f list list \<Rightarrow> nat \<Rightarrow> 'f list \<Rightarrow> bool" where
  "level_closed F files level inputs \<longleftrightarrow> (level = 0 \<longrightarrow> (\<forall>g \<in> set (files ! 0). spanned Compare F inputs g \<longrightarrow> g \<in> set inputs))"

lemma spanned_self:
  assumes "f \<in> set inputs" "file_ok Compare (F f)"
  shows "spanned Compare F inputs f"
  using assms file_order [OF assms(2)] by (auto simp: spanned_def)

lemma GetOverlappingInputs_level:
  assumes "inputs \<noteq> []" "\<forall>f \<in> set inputs. file_ok Compare (F f)" "GetRange Compare F inputs = (sm, la)"
  shows "\<exists>r. GetOverlappingInputs Compare F files level (Some sm) (Some la) = Some r \<and> set r \<subseteq> set (files ! level) \<and>
    (\<forall>g \<in> set (files ! level). spanned Compare F inputs g \<longrightarrow> g \<in> set r) \<and> level_closed F files level r"
proof (cases "0 < level")
  case True
  then show ?thesis
    using GetOverlappingInputs_spanned [OF True assms, of files] by (auto simp: level_closed_def)
next
  case False
  obtain b' e' where r: "GetOverlappingInputs Compare F files 0 (Some sm) (Some la) = Some (filter (overlaps Compare F b' e') (files ! 0))"
    and closed: "closed_range Compare F (files ! 0) b' e'"
    and wide: "starts_at_or_below Compare b' (Some (ExtractUserKey sm))" "ends_at_or_above Compare e' (Some (ExtractUserKey la))"
    using GetOverlappingInputs_level0 [of F files "Some sm" "Some la"] by auto
  define r where "r = filter (overlaps Compare F b' e') (files ! 0)"
  have all: "\<forall>g \<in> set (files ! 0). spanned Compare F inputs g \<longrightarrow> g \<in> set r"
    using overlaps_wider [OF _ wide, of F] GetRange_spanned [OF assms] by (auto simp: r_def)
  have "g \<in> set r" if g: "g \<in> set (files ! 0)" "spanned Compare F r g" for g
  proof -
    obtain f h where f: "f \<in> set r" "Compare (file_start F f) (file_limit F g) \<le> 0"
      and h: "h \<in> set r" "Compare (file_start F g) (file_limit F h) \<le> 0"
      using g(2) by (auto simp: spanned_def)
    have "\<not> below Compare (file_start F f) b'" "\<not> above Compare (file_limit F h) e'"
      using f(1) h(1) closed by (auto simp: r_def closed_range_def within_def)
    then have b: "starts_at_or_below Compare b' (Some (file_start F f))" and e: "ends_at_or_above Compare e' (Some (file_limit F h))"
      by (simp_all add: not_below_starts not_above_ends)
    have "starts_at_or_below Compare b' (Some (file_limit F g))"
      by (rule starts_trans [OF b]) (simp add: starts_at_or_below_def f(2))
    moreover have "ends_at_or_above Compare e' (Some (file_start F g))"
      by (rule ends_trans [OF e]) (simp add: ends_at_or_above_def h(2))
    ultimately have "overlaps Compare F b' e' g"
      by (simp add: overlaps_def not_below_starts not_above_ends)
    with g(1) show ?thesis
      by (simp add: r_def)
  qed
  then have "level_closed F files level r"
    by (simp add: level_closed_def)
  moreover have "set r \<subseteq> set (files ! 0)"
    by (auto simp: r_def)
  ultimately show ?thesis
    using False all r unfolding r_def [symmetric] by (intro exI [of _ r]) simp
qed

lemma expand_inputs_spec:
  assumes files: "\<forall>f \<in> set (files ! level). file_ok Compare (F f)" "\<forall>f \<in> set (files ! (level + 1)). file_ok Compare (F f)"
    and inputs0: "inputs0 \<noteq> []" "set inputs0 \<subseteq> set (files ! level)"
    and inputs1: "inputs1 = filter (spanned Compare F inputs0) (files ! (level + 1))"
  shows "\<exists>e. expand_inputs Compare F files level inputs0 inputs1 (GetRange2 Compare F inputs0 inputs1) = Some e \<and>
    (\<forall>e0 e1. e = Some (e0, e1) \<longrightarrow> e0 \<noteq> [] \<and> set inputs0 \<subseteq> set e0 \<and> set e0 \<subseteq> set (files ! level) \<and>
       level_closed F files level e0 \<and> worth_expanding F inputs0 e0 e1 \<and> e1 = inputs1 \<and> e1 = filter (spanned Compare F e0) (files ! (level + 1)))"
proof (cases "inputs1 = []")
  case True
  then show ?thesis
    by (simp add: expand_inputs_def)
next
  case False
  obtain a z where all: "GetRange Compare F (inputs0 @ inputs1) = (a, z)"
    by fastforce
  have ok: "\<forall>f \<in> set (inputs0 @ inputs1). file_ok Compare (F f)"
    using files inputs0(2) inputs1 by auto
  obtain e0 where e0: "GetOverlappingInputs Compare F files level (Some a) (Some z) = Some e0"
    "set e0 \<subseteq> set (files ! level)" "\<forall>g \<in> set (files ! level). spanned Compare F (inputs0 @ inputs1) g \<longrightarrow> g \<in> set e0"
    "level_closed F files level e0"
    using GetOverlappingInputs_level [OF _ ok all, of files level] inputs0(1) by blast
  have sub: "set inputs0 \<subseteq> set e0"
    using e0(3) spanned_self [of _ "inputs0 @ inputs1" F] ok inputs0(2) by auto
  then have e0_ne: "e0 \<noteq> []"
    using inputs0(1) by auto
  obtain b y where r0: "GetRange Compare F e0 = (b, y)"
    by fastforce
  have e1: "GetOverlappingInputs Compare F files (level + 1) (Some b) (Some y) = Some (filter (spanned Compare F e0) (files ! (level + 1)))"
    by (rule GetOverlappingInputs_spanned [OF _ e0_ne _ r0]) (use files(1) e0(2) in auto)
  have same: "filter (spanned Compare F e0) (files ! (level + 1)) = inputs1"
    if "length (filter (spanned Compare F e0) (files ! (level + 1))) = length inputs1"
    unfolding inputs1 by (rule filter_eq_of_length) (use spanned_mono [OF sub] that inputs1 in auto)
  show ?thesis
    using False e0 sub e0_ne same e1 by (auto simp: expand_inputs_def GetRange2_def all r0 worth_expanding_def)
qed

text \<open>What \<open>SetupOtherInputs\<close> makes of the files picked.\<close>

definition inputs_ok :: "('f \<Rightarrow> FileMetaData) \<Rightarrow> 'f list list \<Rightarrow> 'f list \<Rightarrow> 'f Compaction \<Rightarrow> bool" where
  "inputs_ok F files picked c \<longleftrightarrow>
     set picked \<subseteq> set (c_inputs0 c) \<and> set (c_inputs0 c) \<subseteq> set (files ! c_level c) \<and> level_closed F files (c_level c) (c_inputs0 c) \<and>
     c_inputs1 c = filter (spanned Compare F (c_inputs0 c)) (files ! (c_level c + 1)) \<and>
     c_inputs1 c = filter (spanned Compare F picked) (files ! (c_level c + 1)) \<and>
     (c_inputs0 c = picked \<or> worth_expanding F picked (c_inputs0 c) (c_inputs1 c)) \<and>
     (c_level c + 2 < kNumLevels \<longrightarrow>
        c_grandparents c = filter (spanned Compare F (c_inputs0 c @ c_inputs1 c)) (files ! (c_level c + 2)))"

lemma SetupOtherInputs_spec:
  assumes files: "\<forall>l < kNumLevels. \<forall>f \<in> set (files ! l). file_ok Compare (F f)" and level: "c_level c + 1 < kNumLevels"
    and inputs0: "c_inputs0 c \<noteq> []" "set (c_inputs0 c) \<subseteq> set (files ! c_level c)" "level_closed F files (c_level c) (c_inputs0 c)"
  shows "\<exists>c' la. SetupOtherInputs Compare F files cp c = Some (c', cp[c_level c := la]) \<and>
    c_level c' = c_level c \<and> c_input_files c' = c_input_files c \<and> c_level_ptrs c' = c_level_ptrs c \<and>
    c_edit c' = SetCompactPointer (c_level c) la (c_edit c) \<and> inputs_ok F files (c_inputs0 c) c' \<and>
    (\<exists>f \<in> set (c_inputs0 c'). la = largest (F f)) \<and> (\<forall>f \<in> set (c_inputs0 c'). InternalKeyCompare Compare (largest (F f)) la \<le> 0)"
proof -
  let ?l = "c_level c" and ?i0 = "c_inputs0 c"
  have "?l < kNumLevels"
    using level by simp
  then have ok: "\<forall>f \<in> set (files ! ?l). file_ok Compare (F f)" "\<forall>f \<in> set (files ! (?l + 1)). file_ok Compare (F f)"
    using files level by blast+
  obtain sm la where r: "GetRange Compare F ?i0 = (sm, la)"
    by fastforce
  have ok0: "\<forall>f \<in> set ?i0. file_ok Compare (F f)"
    using ok(1) inputs0(2) by auto
  define i1 where "i1 = filter (spanned Compare F ?i0) (files ! (?l + 1))"
  have i1: "GetOverlappingInputs Compare F files (?l + 1) (Some sm) (Some la) = Some i1"
    unfolding i1_def by (rule GetOverlappingInputs_spanned [OF _ inputs0(1) ok0 r]) simp
  obtain e where e: "expand_inputs Compare F files ?l ?i0 i1 (GetRange2 Compare F ?i0 i1) = Some e"
    "\<forall>e0 e1. e = Some (e0, e1) \<longrightarrow> e0 \<noteq> [] \<and> set ?i0 \<subseteq> set e0 \<and> set e0 \<subseteq> set (files ! ?l) \<and>
       level_closed F files ?l e0 \<and> worth_expanding F ?i0 e0 e1 \<and> e1 = i1 \<and> e1 = filter (spanned Compare F e0) (files ! (?l + 1))"
    using expand_inputs_spec [OF ok inputs0(1,2) i1_def] by blast
  define j0 where "j0 = (case e of None \<Rightarrow> ?i0 | Some e \<Rightarrow> fst e)"
  have j0: "j0 \<noteq> []" "set ?i0 \<subseteq> set j0" "set j0 \<subseteq> set (files ! ?l)" "level_closed F files ?l j0"
    "i1 = filter (spanned Compare F j0) (files ! (?l + 1))" "\<forall>e'. e = Some e' \<longrightarrow> e' = (j0, i1)"
    "j0 = ?i0 \<or> worth_expanding F ?i0 j0 i1"
    using e(2) inputs0 i1_def by (auto simp: j0_def split: option.splits)
  have okj: "\<forall>f \<in> set j0. file_ok Compare (F f)" and okall: "\<forall>f \<in> set (j0 @ i1). file_ok Compare (F f)"
    using j0(3) ok by (auto simp: i1_def)
  define la' where "la' = snd (GetRange Compare F j0)"
  have la': "(\<exists>f \<in> set j0. la' = largest (F f)) \<and> (\<forall>f \<in> set j0. InternalKeyCompare Compare (largest (F f)) la' \<le> 0)"
    using GetRange_bounds(2) [OF j0(1) okj, of "fst (GetRange Compare F j0)" la'] by (simp add: la'_def)
  have gp: "GetOverlappingInputs Compare F files (?l + 2) (Some (fst (GetRange Compare F (j0 @ i1)))) (Some (snd (GetRange Compare F (j0 @ i1)))) =
      Some (filter (spanned Compare F (j0 @ i1)) (files ! (?l + 2)))"
    by (rule GetOverlappingInputs_spanned [OF _ _ okall]) (use j0(1) in auto)
  define gs where "gs = (if ?l + 2 < kNumLevels then filter (spanned Compare F (j0 @ i1)) (files ! (?l + 2)) else c_grandparents c)"
  define c' where "c' = c\<lparr>c_inputs0 := j0, c_inputs1 := i1, c_grandparents := gs, c_edit := SetCompactPointer ?l la' (c_edit c)\<rparr>"
  have "SetupOtherInputs Compare F files cp c = Some (c', cp[?l := la'])"
  proof (cases e)
    case None
    then show ?thesis
      using e(1) gp i1 by (simp add: SetupOtherInputs_def r j0_def la'_def c'_def gs_def GetRange2_def Let_def)
  next
    case (Some a)
    then have "a = (j0, i1)"
      using j0(6) by simp
    then show ?thesis
      using e(1) Some gp i1 by (simp add: SetupOtherInputs_def r la'_def c'_def gs_def GetRange2_def Let_def)
  qed
  moreover have "inputs_ok F files ?i0 c'"
    using j0(2-5,7) i1_def by (simp add: inputs_ok_def c'_def gs_def)
  ultimately show ?thesis
    using la' by (intro exI [of _ c'] exI [of _ la']) (auto simp: c'_def)
qed

lemma PickCompaction_spec:
  assumes files: "\<forall>l < kNumLevels. \<forall>f \<in> set (v_files v ! l). file_ok Compare (F f)"
    and v: "Finalize F v = v" "seek_ok (v_files v) (v_file_to_compact v) (v_file_to_compact_level v)" and needed: "NeedsCompaction v"
  shows "\<exists>c la picked. PickInputs Compare F v cp = Some (Some (c_level c, picked)) \<and>
    PickCompaction Compare F v cp = Some (Some (c, cp[c_level c := la])) \<and>
    c_level c + 1 < kNumLevels \<and> c_input_files c = v_files v \<and> picked \<noteq> [] \<and> inputs_ok F (v_files v) picked c \<and>
    (\<exists>f \<in> set (c_inputs0 c). la = largest (F f)) \<and> (\<forall>f \<in> set (c_inputs0 c). InternalKeyCompare Compare (largest (F f)) la \<le> 0)"
proof -
  define chosen where "chosen = (if score_at_least_one (v_compaction_score v)
      then (let level = nat (v_compaction_level v)
            in Some (level, pick_after_pointer Compare F (cp ! level) (v_files v ! level)))
      else case v_file_to_compact v of
             None \<Rightarrow> None
           | Some f \<Rightarrow> Some (nat (v_file_to_compact_level v), [f]))"
  have pick_one: "\<exists>f \<in> set fs. pick_after_pointer Compare F p fs = [f]" if "fs \<noteq> []" for p fs
    using that by (auto simp: pick_after_pointer_def find_Some_iff split: option.splits)
  obtain l f where lf: "chosen = Some (l, [f])" "l + 1 < kNumLevels" "f \<in> set (v_files v ! l)"
  proof (cases "score_at_least_one (v_compaction_score v)")
    case True
    note fin = Finalize_level [OF v(1) True]
    show ?thesis
      using pick_one [OF fin(3), of "cp ! nat (v_compaction_level v)"] fin(2) that True by (auto simp: chosen_def Let_def)
  next
    case False
    then obtain f where "v_file_to_compact v = Some f"
      using needed by (auto simp: NeedsCompaction_def)
    then show ?thesis
      using False v(2) that by (auto simp: chosen_def seek_ok_def)
  qed
  have l: "l < kNumLevels"
    using lf(2) by simp
  have okf: "\<forall>f \<in> set [f]. file_ok Compare (F f)"
    using files l lf(3) by auto
  define c0 where "c0 = (Compaction_new l)\<lparr>c_input_files := v_files v\<rparr>"
  define inputs where "inputs = (if l = 0 then GetOverlappingInputs Compare F (v_files v) 0
      (Some (fst (GetRange Compare F [f]))) (Some (snd (GetRange Compare F [f]))) else Some [f])"
  obtain i0 where i0: "inputs = Some i0" "f \<in> set i0" "set i0 \<subseteq> set (v_files v ! l)" "level_closed F (v_files v) l i0"
  proof (cases "l = 0")
    case True
    obtain r where "GetOverlappingInputs Compare F (v_files v) 0 (Some (fst (GetRange Compare F [f]))) (Some (snd (GetRange Compare F [f]))) = Some r"
      "set r \<subseteq> set (v_files v ! 0)" "\<forall>g \<in> set (v_files v ! 0). spanned Compare F [f] g \<longrightarrow> g \<in> set r" "level_closed F (v_files v) 0 r"
      using GetOverlappingInputs_level [OF _ okf prod.collapse [symmetric], of "v_files v" 0] by blast
    then show ?thesis
      using True that lf(3) spanned_self [of f "[f]" F] okf by (auto simp: inputs_def)
  next
    case False
    then show ?thesis
      using that [of "[f]"] lf(3) by (auto simp: inputs_def level_closed_def)
  qed
  define c1 where "c1 = c0\<lparr>c_inputs0 := i0\<rparr>"
  have c1: "c_level c1 = l" "c_inputs0 c1 = i0" "c_input_files c1 = v_files v"
    by (simp_all add: c1_def c0_def Compaction_new_def)
  obtain c' la where s: "SetupOtherInputs Compare F (v_files v) cp c1 = Some (c', cp[l := la])"
    "c_level c' = l" "c_input_files c' = v_files v" "inputs_ok F (v_files v) i0 c'"
    "\<exists>f \<in> set (c_inputs0 c'). la = largest (F f)" "\<forall>f \<in> set (c_inputs0 c'). InternalKeyCompare Compare (largest (F f)) la \<le> 0"
    using SetupOtherInputs_spec [OF files, of c1 cp] i0(2-4) lf(2) unfolding c1 by fastforce
  have ne: "i0 \<noteq> []"
    using i0(2) by auto
  have pick: "PickInputs Compare F v cp = Some (Some (l, i0))"
    using ne i0(1) by (simp add: PickInputs_def chosen_def [symmetric] lf(1) inputs_def split_beta Let_def split: if_splits)
  then have "PickCompaction Compare F v cp = Some (Some (c', cp[l := la]))"
    using s(1) by (simp add: PickCompaction_def c0_def c1_def)
  then show ?thesis
    using s pick ne lf(2) by (intro exI [of _ c'] exI [of _ la] exI [of _ i0]) auto
qed

section \<open>The levels below\<close>

text \<open>Whether a file covers a user key, and the position a level is searched from: what is before it ends below
  the key.\<close>

definition covers :: "('f \<Rightarrow> FileMetaData) \<Rightarrow> bytes \<Rightarrow> 'f \<Rightarrow> bool" where
  "covers F u f \<longleftrightarrow> Compare (file_start F f) u \<le> 0 \<and> Compare u (file_limit F f) \<le> 0"

definition passed :: "('f \<Rightarrow> FileMetaData) \<Rightarrow> bytes \<Rightarrow> 'f list \<Rightarrow> nat \<Rightarrow> bool" where
  "passed F u fs p \<longleftrightarrow> (\<forall>i < p. i < length fs \<longrightarrow> Compare (file_limit F (fs ! i)) u < 0)"

lemma passed_mono: "passed F u fs p \<Longrightarrow> Compare u u' \<le> 0 \<Longrightarrow> passed F u' fs p"
  using Compare_less_le_trans by (auto simp: passed_def)

lemma advance_level_spec:
  assumes sorted: "level_sorted Compare F fs" and "passed F u fs p"
  shows "let (p', inside) = advance_level Compare F u fs p
    in passed F u fs p' \<and> (inside \<longleftrightarrow> (\<exists>f \<in> set fs. covers F u f))"
  using assms(2)
proof (induction "length fs - p" arbitrary: p rule: less_induct)
  case less
  have not_before: "\<not> covers F u (fs ! i)" if "i < p" "i < length fs" for i
    using less.prems that greater_flip [of u "file_limit F (fs ! i)"] by (auto simp: passed_def covers_def)
  show ?case
  proof (cases "p < length fs")
    case False
    then show ?thesis
      using less.prems not_before by (subst advance_level.simps) (auto simp: in_set_conv_nth)
  next
    case True
    show ?thesis
    proof (cases "Compare u (file_limit F (fs ! p)) \<le> 0")
      case le: True
      have "0 \<le> Compare u (file_start F (fs ! p)) \<longleftrightarrow> covers F u (fs ! p)"
        using le greater_flip [of "file_start F (fs ! p)" u] by (auto simp: covers_def)
      moreover have "\<exists>f \<in> set fs. covers F u f" if "covers F u (fs ! p)"
        using that True by (meson nth_mem)
      moreover have "covers F u (fs ! p)" if "i < length fs" "covers F u (fs ! i)" for i
      proof -
        have "p \<le> i"
          using not_before that by (meson not_le)
        then have "Compare (file_start F (fs ! p)) (file_start F (fs ! i)) \<le> 0"
          using level_sorted_user(2) [OF sorted, of p i] that(1) Compare_self by (cases "p = i") auto
        then show ?thesis
          using that(2) le Compare_trans [of "file_start F (fs ! p)" "file_start F (fs ! i)" u] by (simp add: covers_def)
      qed
      ultimately show ?thesis
        using True le less.prems by (subst advance_level.simps) (auto simp: in_set_conv_nth)
    next
      case gt: False
      then have "passed F u fs (p + 1)"
        using less.prems greater_flip [of u "file_limit F (fs ! p)"] by (auto simp: passed_def less_Suc_eq)
      then show ?thesis
        using less.hyps [of "p + 1"] True gt by (subst advance_level.simps) simp
    qed
  qed
qed

definition ptrs_ok :: "('f \<Rightarrow> FileMetaData) \<Rightarrow> 'f list list \<Rightarrow> bytes \<Rightarrow> nat list \<Rightarrow> bool" where
  "ptrs_ok F files u ptrs \<longleftrightarrow> length ptrs = kNumLevels \<and> (\<forall>l < kNumLevels. passed F u (files ! l) (ptrs ! l))"

lemma IsBaseLevel_loop_spec:
  assumes "\<forall>l \<in> set lvls. l < kNumLevels \<and> level_sorted Compare F (files ! l)" "ptrs_ok F files u ptrs"
  shows "let (r, ptrs') = IsBaseLevel_loop Compare F u files lvls ptrs
    in ptrs_ok F files u ptrs' \<and> (r \<longleftrightarrow> (\<forall>l \<in> set lvls. \<forall>f \<in> set (files ! l). \<not> covers F u f))"
  using assms
proof (induction lvls arbitrary: ptrs)
  case (Cons l lvls)
  obtain p inside where adv: "advance_level Compare F u (files ! l) (ptrs ! l) = (p, inside)"
    by fastforce
  have p: "passed F u (files ! l) p" "inside \<longleftrightarrow> (\<exists>f \<in> set (files ! l). covers F u f)"
    using advance_level_spec [of F "files ! l" u "ptrs ! l"] Cons.prems by (auto simp: adv ptrs_ok_def)
  have "ptrs_ok F files u (ptrs[l := p])"
    using Cons.prems p(1) by (auto simp: ptrs_ok_def nth_list_update)
  then show ?case
    using Cons.IH [of "ptrs[l := p]"] Cons.prems p(2) by (auto simp: adv Let_def)
qed simp

end

text \<open>A compaction asks about the user keys of its entries in turn.\<close>

fun base_levels ::
  "(bytes \<Rightarrow> bytes \<Rightarrow> int) \<Rightarrow> ('f \<Rightarrow> FileMetaData) \<Rightarrow> bytes list \<Rightarrow> 'f Compaction \<Rightarrow> bool list" where
  "base_levels Compare F [] c = []"
| "base_levels Compare F (u # us) c = (let (r, c) = IsBaseLevelForKey Compare F u c in r # base_levels Compare F us c)"

context user_comparator
begin

lemma base_levels_spec:
  assumes "\<forall>l. c_level c + 2 \<le> l \<longrightarrow> l < kNumLevels \<longrightarrow> level_sorted Compare F (c_input_files c ! l)"
    "sorted_wrt (\<lambda>a b. Compare a b \<le> 0) us" "\<forall>u \<in> set us. ptrs_ok F (c_input_files c) u (c_level_ptrs c)"
  shows "base_levels Compare F us c =
    map (\<lambda>u. \<forall>l \<in> {c_level c + 2..<kNumLevels}. \<forall>f \<in> set (c_input_files c ! l). \<not> covers F u f) us"
  using assms
proof (induction us arbitrary: c)
  case (Cons u us)
  obtain r ptrs where loop: "IsBaseLevel_loop Compare F u (c_input_files c) [c_level c + 2..<kNumLevels] (c_level_ptrs c) = (r, ptrs)"
    by fastforce
  have r: "ptrs_ok F (c_input_files c) u ptrs"
    "r \<longleftrightarrow> (\<forall>l \<in> {c_level c + 2..<kNumLevels}. \<forall>f \<in> set (c_input_files c ! l). \<not> covers F u f)"
    using IsBaseLevel_loop_spec [of "[c_level c + 2..<kNumLevels]" F "c_input_files c" u "c_level_ptrs c"] Cons.prems loop by auto
  have "ptrs_ok F (c_input_files c) u' ptrs" if "u' \<in> set us" for u'
    using r(1) that Cons.prems(2) passed_mono by (fastforce simp: ptrs_ok_def)
  then show ?case
    using Cons.IH [of "c\<lparr>c_level_ptrs := ptrs\<rparr>"] Cons.prems r(2) loop by (simp add: IsBaseLevelForKey_def Let_def)
qed simp

lemma ptrs_ok_new: "ptrs_ok F files u (replicate kNumLevels 0)"
  by (simp add: ptrs_ok_def passed_def)

end

section \<open>Moving one file down\<close>

text \<open>The version after a trivial move of \<open>f\<close>, as the version edit of the move describes it: \<open>f\<close> leaves its level and
  joins the files of the next.\<close>

definition moved_down :: "'f list list \<Rightarrow> nat \<Rightarrow> 'f \<Rightarrow> 'f list list \<Rightarrow> bool" where
  "moved_down files level f files' \<longleftrightarrow>
     (\<exists>below. set below = insert f (set (files ! (level + 1))) \<and>
        files' = files[level := filter (\<lambda>g. g \<noteq> f) (files ! level), level + 1 := below])"

text \<open>The levels of a version down to level \<open>l\<close>, where \<open>f\<close> is left out.\<close>

definition upper_levels :: "'f list list \<Rightarrow> nat \<Rightarrow> 'f \<Rightarrow> 'f list list" where
  "upper_levels files l f =
     map (\<lambda>i. if i < l then files ! i else if i = l then filter (\<lambda>g. g \<noteq> f) (files ! i) else []) [0..<kNumLevels]"

lemma upper_levels_nth:
  "i < kNumLevels \<Longrightarrow> upper_levels files l f ! i = (if i < l then files ! i else if i = l then filter (\<lambda>g. g \<noteq> f) (files ! i) else [])"
  by (simp add: upper_levels_def)

lemma upper_levels_subset: "i < kNumLevels \<Longrightarrow> set (upper_levels files l f ! i) \<subseteq> set (files ! i)"
  by (auto simp: upper_levels_nth)

lemma newer_aboveD:
  assumes "newer_above Compare F contents files" "l < kNumLevels" "l' < kNumLevels" "f \<in> set (files ! l)" "g \<in> set (files ! l')"
    "l < l' \<or> l = 0 \<and> l' = 0 \<and> file_number (F g) < file_number (F f)" "d \<in> set (contents f)" "e \<in> set (contents g)"
    "Compare (ExtractUserKey (fst d)) (ExtractUserKey (fst e)) = 0"
  shows "ExtractTag (fst e) < ExtractTag (fst d)"
  using assms unfolding newer_above_def by blast

lemma sorted_wrt_related: "sorted_wrt R xs \<Longrightarrow> a \<in> set xs \<Longrightarrow> b \<in> set xs \<Longrightarrow> a \<noteq> b \<Longrightarrow> R a b \<or> R b a"
  by (induction xs) auto

lemma in_concat_nth: "x \<in> set (concat xss) \<longleftrightarrow> (\<exists>i < length xss. x \<in> set (xss ! i))"
  by (metis UN_iff in_set_conv_nth set_concat)

lemma find_append_hit: "find P xs = Some z \<Longrightarrow> find P (xs @ ys) = Some z"
  by (induction xs) auto

context user_comparator
begin

lemma version_ok_upper:
  assumes "version_ok Compare F contents files"
  shows "version_ok Compare F contents (upper_levels files l f)"
proof -
  note sub = upper_levels_subset [of _ files l f]
  have "newer_above Compare F contents (upper_levels files l f)"
    unfolding newer_above_def
  proof (intro allI impI, elim conjE)
    fix i j g h d e
    assume "i < kNumLevels" "j < kNumLevels" "g \<in> set (upper_levels files l f ! i)" "h \<in> set (upper_levels files l f ! j)"
      "i < j \<or> i = 0 \<and> j = 0 \<and> file_number (F h) < file_number (F g)" "d \<in> set (contents g)" "e \<in> set (contents h)"
      "Compare (ExtractUserKey (fst d)) (ExtractUserKey (fst e)) = 0"
    moreover have "newer_above Compare F contents files"
      using assms by (simp add: version_ok_def)
    ultimately show "ExtractTag (fst e) < ExtractTag (fst d)"
      using sub by (intro newer_aboveD [of Compare F contents files i j g h d e]) blast+
  qed
  moreover have "level_sorted Compare F (upper_levels files l f ! i)" if "0 < i" "i < kNumLevels" for i
    using assms that by (auto simp: version_ok_def upper_levels_nth level_sorted_def sorted_wrt_filter)
  moreover have "distinct (map (\<lambda>f. file_number (F f)) (upper_levels files l f ! 0))"
    using assms by (auto simp: version_ok_def upper_levels_nth kNumLevels_def distinct_map_filter)
  moreover have "\<forall>i < kNumLevels. \<forall>g \<in> set (upper_levels files l f ! i). contents_ok Compare (F g) (contents g)"
    using assms sub unfolding version_ok_def by blast
  ultimately show ?thesis
    by (simp add: version_ok_def upper_levels_def)
qed

text \<open>A lookup that finds an entry of the key down to level \<open>l\<close> does not look further.\<close>

lemma Get_levels_upper:
  assumes ok: "version_ok Compare F contents files" and l: "0 < l" "l + 1 < kNumLevels" and moved: "moved_down files l f files'"
    and k: "k = InternalKey_make u s kValueTypeForSeek"
    and get: "\<forall>g \<in> set (files ! l). table_get_ok Compare F contents TableGet k g"
    and g: "g \<in> set (files ! l)" "g \<noteq> f" "e \<in> set (contents g)" "visible Compare k e"
  shows "fst (Get_levels Compare F TableGet files' u k [0..<kNumLevels] st) =
    fst (Get_levels Compare F TableGet (upper_levels files l f) u k [0..<kNumLevels] st)"
proof -
  define upper where "upper = upper_levels files l f"
  define cand where "cand fs i = (if fs ! i = [] then [] else Get_files Compare F fs u k i)" for fs i
  let ?hit = "\<lambda>f. Get_file Compare F TableGet u k f \<noteq> None"
  have len: "length files = kNumLevels"
    using ok by (simp add: version_ok_def)
  have uk: "ExtractUserKey k = u" "8 \<le> length k"
    by (simp_all add: k)
  have "upper ! i = files' ! i" if "i \<le> l" for i
    using moved that l len by (auto simp: moved_down_def upper_def upper_levels_nth)
  then have same: "cand upper i = cand files' i" if "i \<le> l" for i
    using that by (simp add: cand_def Get_files_def)
  have rest: "cand upper i = []" if "l < i" "i < kNumLevels" for i
    using that by (simp add: cand_def upper_def upper_levels_nth)
  have split: "[0..<kNumLevels] = [0..<Suc l] @ [Suc l..<kNumLevels]"
    using upt_add_eq_append [of 0 "Suc l" "kNumLevels - Suc l"] l(2) by simp
  have "g \<in> set (upper ! l)"
    using g(1,2) l(2) by (simp add: upper_def upper_levels_nth)
  moreover have vu: "version_ok Compare F contents upper"
    unfolding upper_def by (rule version_ok_upper [OF ok])
  moreover have lk: "l < kNumLevels"
    using l(2) by simp
  ultimately obtain h x where h: "level_candidates Compare F (upper ! l) u k = [h]" "h \<in> set (upper ! l)" "x \<in> set (contents h)" "visible Compare k x"
    using level_candidates_complete [where contents = contents and F = F and files = "upper ! l" and k = k, OF _ _ _ g(3,4) uk(2)] l(1)
    unfolding uk(1) version_ok_def by blast
  have hl: "h \<in> set (files ! l)" "contents_ok Compare (F h) (contents h)"
    using h(2) upper_levels_subset [OF lk, of files l f] ok lk by (auto simp: upper_def version_ok_def)
  have "?hit h"
    using Get_file_spec(2) [where contents = contents and F = F, OF hl(2) get [rule_format, OF hl(1)] uk(2), unfolded uk(1)] h(3,4) by blast
  moreover have "h \<in> set (concat (map (cand upper) [0..<Suc l]))"
    using h(1,2) l(1) by (auto simp: cand_def Get_files_def)
  ultimately obtain y where y: "find ?hit (concat (map (cand upper) [0..<Suc l])) = Some y"
    by (cases "find ?hit (concat (map (cand upper) [0..<Suc l]))") (auto simp: find_None_iff)
  have prefix: "map (cand upper) [0..<Suc l] = map (cand files') [0..<Suc l]"
    using same by (auto simp: less_Suc_eq_le)
  have "find ?hit (concat (map (cand upper) [0..<kNumLevels])) = Some y" "find ?hit (concat (map (cand files') [0..<kNumLevels])) = Some y"
    unfolding split map_append concat_append using find_append_hit [OF y] find_append_hit [OF y [unfolded prefix]] by blast+
  then show ?thesis
    unfolding Get_levels_find upper_def [symmetric] cand_def by simp
qed

text \<open>The newest entry of a user key goes down with its file while an older one stays: it is not found any more.\<close>

lemma moved_down_hides:
  assumes ok: "version_ok Compare F contents files" and l: "0 < l" "l + 1 < kNumLevels" and moved: "moved_down files l f files'"
    and k: "k = InternalKey_make u s kValueTypeForSeek"
    and get: "\<forall>l < kNumLevels. \<forall>g \<in> set (files ! l). table_get_ok Compare F contents TableGet k g"
    and f: "f \<in> set (files ! l)" "d \<in> set (contents f)"
    and newest: "\<forall>x \<in> set (concat (map contents (concat files))). visible Compare k x \<longrightarrow> x = d \<or> ExtractTag (fst x) < ExtractTag (fst d)"
    and g: "g \<in> set (files ! l)" "g \<noteq> f" "e \<in> set (contents g)" "visible Compare k e"
  shows "\<exists>x \<in> set (concat (map contents (concat files))). visible Compare k x \<and> ExtractTag (fst x) < ExtractTag (fst d) \<and>
    fst (Get_levels Compare F TableGet files' u k [0..<kNumLevels] st) = entry_result x"
proof -
  let ?upper = "upper_levels files l f"
  have lk: "l < kNumLevels" and len: "length files = kNumLevels"
    using l(2) ok by (simp_all add: version_ok_def)
  have get': "\<forall>i < kNumLevels. \<forall>g \<in> set (?upper ! i). table_get_ok Compare F contents TableGet k g"
    using get upper_levels_subset [of _ files l f] by blast
  have mem: "h \<in> set (concat ?upper) \<longleftrightarrow> (\<exists>i < kNumLevels. h \<in> set (?upper ! i))" for h
    unfolding in_concat_nth by (simp add: upper_levels_def)
  have "g \<in> set (concat ?upper)"
    unfolding mem using g(1,2) lk by (intro exI [of _ l]) (simp add: upper_levels_nth)
  then have "\<exists>x \<in> set (concat (map contents (concat ?upper))). visible Compare k x"
    using g(3,4) by auto
  then obtain x where x: "x \<in> set (concat (map contents (concat ?upper)))" "visible Compare k x"
    "fst (Get_levels Compare F TableGet ?upper u k [0..<kNumLevels] st) = entry_result x"
    using Version_Get_spec(2) [OF version_ok_upper [OF ok] get' k, of st] by blast
  obtain h where "h \<in> set (concat ?upper)" "x \<in> set (contents h)"
    using x(1) by auto
  then obtain i where h: "x \<in> set (contents h)" "i < kNumLevels" "h \<in> set (?upper ! i)"
    unfolding mem by blast
  have hi: "h \<in> set (files ! i)" "i \<le> l" "i = l \<longrightarrow> h \<noteq> f"
    using h(2,3) by (auto simp: upper_levels_nth split: if_splits)
  have "x \<noteq> d"
  proof
    assume xd: "x = d"
    show False
    proof (cases "i = l")
      case False
      then have "ExtractTag (fst d) < ExtractTag (fst d)"
        using ok hi f h(1,2) lk xd Compare_self False
        by (intro newer_aboveD [of Compare F contents files i l h f d d]) (auto simp: version_ok_def)
      then show False
        by simp
    next
      case True
      then have sorted: "level_sorted Compare F (files ! l)" and co: "contents_ok Compare (F f) (contents f)" "contents_ok Compare (F h) (contents h)"
        using ok l(1) lk hi(1) f(1) by (auto simp: version_ok_def)
      have "icompare (largest (F a)) (smallest (F b)) < 0 \<or> icompare (largest (F b)) (smallest (F a)) < 0"
        if "a \<in> set (files ! l)" "b \<in> set (files ! l)" "a \<noteq> b" for a b
        using sorted_wrt_related [OF _ that] sorted unfolding level_sorted_def by blast
      moreover have "\<not> icompare (largest (F a)) (smallest (F b)) < 0"
        if "contents_ok Compare (F a) (contents a)" "contents_ok Compare (F b) (contents b)" "d \<in> set (contents a)" "d \<in> set (contents b)" for a b
        using contents_okD(3) [OF that(1,3)] contents_okD(2) [OF that(2,4)] internal_trans [of "smallest (F b)" "fst d" "largest (F a)"]
          internal_flip [of "largest (F a)" "smallest (F b)"] by (auto simp: sgn_if split: if_splits)
      ultimately show False
        using co f h(1) hi True xd by metis
    qed
  qed
  moreover have "x \<in> set (concat (map contents (concat files)))"
    using h(1) hi(1) h(2) len by (auto intro!: bexI [of _ "files ! i"])
  ultimately show ?thesis
    using newest x(2,3) Get_levels_upper [OF ok l moved k _ g, of TableGet st] get lk by (intro bexI [of _ x]) auto
qed

end

definition sample_seek_version :: "nat Version" where
  "sample_seek_version = Version_new\<lparr>v_files := sample_levels, v_file_to_compact := Some 9, v_file_to_compact_level := 1\<rparr>"

definition sample_moved :: "nat list list" where
  "sample_moved = sample_levels[1 := [5], 2 := [9]]"

section \<open>Properties\<close>

text \<open>C18: the inputs of a compaction are closed. When a compaction is needed, of a version whose scores \<open>Finalize\<close>
  computed and whose file to compact is in a level with one below it, \<open>PickCompaction\<close> ends and returns a
  compaction with the following inputs: of its level the files picked and perhaps more, in level 0 every
  file that meets the range of user keys of those taken; of the next level exactly the files that meet
  that range. The attempt to take more files of the first level never changes the inputs of the next:
  they are also exactly the files that meet the range of the files picked; and more files are taken only
  when the next level has inputs and the sizes of all inputs stay below the limit. The grandparents are
  exactly the files of the level after that which meet the range of all inputs. The pointer of the level
  moves to the largest key of the inputs taken from it.\<close>

theorem compaction_inputs_closed:
  assumes "user_comparator Compare sep succ" "\<forall>l < kNumLevels. \<forall>f \<in> set (v_files v ! l). file_ok Compare (F f)"
    "Finalize F v = v" "seek_ok (v_files v) (v_file_to_compact v) (v_file_to_compact_level v)" "NeedsCompaction v"
  shows "\<exists>c la picked. PickInputs Compare F v compact_pointer = Some (Some (c_level c, picked)) \<and>
    PickCompaction Compare F v compact_pointer = Some (Some (c, compact_pointer[c_level c := la])) \<and>
    c_level c + 1 < kNumLevels \<and> c_inputs0 c \<noteq> [] \<and> set picked \<subseteq> set (c_inputs0 c) \<and> set (c_inputs0 c) \<subseteq> set (v_files v ! c_level c) \<and>
    (c_level c = 0 \<longrightarrow> (\<forall>g \<in> set (v_files v ! 0). spanned Compare F (c_inputs0 c) g \<longrightarrow> g \<in> set (c_inputs0 c))) \<and>
    c_inputs1 c = filter (spanned Compare F (c_inputs0 c)) (v_files v ! (c_level c + 1)) \<and>
    c_inputs1 c = filter (spanned Compare F picked) (v_files v ! (c_level c + 1)) \<and>
    (c_inputs0 c = picked \<or> worth_expanding F picked (c_inputs0 c) (c_inputs1 c)) \<and>
    (c_level c + 2 < kNumLevels \<longrightarrow>
       c_grandparents c = filter (spanned Compare F (c_inputs0 c @ c_inputs1 c)) (v_files v ! (c_level c + 2))) \<and>
    (\<exists>f \<in> set (c_inputs0 c). la = largest (F f)) \<and>
    (\<forall>f \<in> set (c_inputs0 c). InternalKeyCompare Compare (largest (F f)) la \<le> 0)"
proof -
  note ok = user_comparator.inputs_ok_def [OF assms(1)] user_comparator.level_closed_def [OF assms(1)]
  obtain c la picked where pc: "PickInputs Compare F v compact_pointer = Some (Some (c_level c, picked))"
    "PickCompaction Compare F v compact_pointer = Some (Some (c, compact_pointer[c_level c := la]))"
    "c_level c + 1 < kNumLevels" "picked \<noteq> []" "user_comparator.inputs_ok Compare F (v_files v) picked c"
    "\<exists>f \<in> set (c_inputs0 c). la = largest (F f)" "\<forall>f \<in> set (c_inputs0 c). InternalKeyCompare Compare (largest (F f)) la \<le> 0"
    using user_comparator.PickCompaction_spec [OF assms, of compact_pointer] by blast
  moreover have "c_inputs0 c \<noteq> []"
    using pc(4,5) unfolding ok by auto
  ultimately show ?thesis
    unfolding ok by (elim conjE) (intro exI conjI, assumption+)
qed

lemma Finalize_idem: "Finalize F (Finalize F v) = Finalize F v"
  by (simp add: Finalize_def split_beta Let_def)

theorem compaction_inputs_closed_witness:
  "\<exists>c cp. PickCompaction BytewiseCompare sample_meta (Finalize sample_meta sample_seek_version) (replicate 7 []) = Some (Some (c, cp)) \<and>
     c_inputs0 c \<noteq> []"
proof -
  let ?v = "Finalize sample_meta sample_seek_version"
  have v: "v_files ?v = sample_levels" "v_file_to_compact ?v = Some 9" "v_file_to_compact_level ?v = 1"
    by (simp_all add: Finalize_def sample_seek_version_def split_beta Let_def)
  have "\<forall>l < kNumLevels. \<forall>f \<in> set (v_files ?v ! l). file_ok BytewiseCompare (sample_meta f)"
    using sample_sorted sample_levels_nth v(1) by (auto simp: level_sorted_def) (metis empty_iff empty_set)
  moreover have "seek_ok (v_files ?v) (v_file_to_compact ?v) (v_file_to_compact_level ?v)"
    unfolding v by (simp add: seek_ok_def sample_levels_def kNumLevels_def)
  moreover have "NeedsCompaction ?v"
    by (simp add: NeedsCompaction_def v)
  ultimately show ?thesis
    using compaction_inputs_closed [OF bytewise_user.user_comparator_axioms _ Finalize_idem, where compact_pointer = "replicate 7 []"] by blast
qed

text \<open>C19: a compaction knows when nothing older is below. Asked for the user keys of its entries in order,
  \<open>IsBaseLevelForKey\<close>, which never moves back in a level, says for each of them whether no file of the levels
  below the output covers the key: the same as a search of all files of these levels.\<close>

theorem base_level_exact:
  assumes "user_comparator Compare sep succ" "sorted_wrt (\<lambda>a b. Compare a b \<le> 0) us" "c_level_ptrs c = replicate kNumLevels 0"
    "\<forall>l. c_level c + 2 \<le> l \<longrightarrow> l < kNumLevels \<longrightarrow> level_sorted Compare F (c_input_files c ! l)"
  shows "base_levels Compare F us c =
    map (\<lambda>u. \<forall>l \<in> {c_level c + 2..<kNumLevels}. \<forall>f \<in> set (c_input_files c ! l).
           \<not> (Compare (file_start F f) u \<le> 0 \<and> Compare u (file_limit F f) \<le> 0)) us"
  using user_comparator.base_levels_spec [OF assms(1,4,2)] user_comparator.ptrs_ok_new [OF assms(1), of F "c_input_files c"]
  by (simp add: assms(3) user_comparator.covers_def [OF assms(1)])

theorem base_level_exact_witness:
  "base_levels BytewiseCompare sample_meta [[0], [1], [1], [2]] ((Compaction_new 0)\<lparr>c_input_files := sample_moved\<rparr>) =
     [True, False, False, True]"
proof -
  let ?c = "(Compaction_new 0)\<lparr>c_input_files := sample_moved\<rparr>"
  have "\<forall>l. c_level ?c + 2 \<le> l \<longrightarrow> l < kNumLevels \<longrightarrow> level_sorted BytewiseCompare sample_meta (c_input_files ?c ! l)"
  proof (intro allI impI)
    fix l
    assume l: "c_level ?c + 2 \<le> l" "l < kNumLevels"
    have "level_sorted BytewiseCompare sample_meta (sample_moved ! l)"
    proof (cases "l = 2")
      case True
      have "file_ok BytewiseCompare (sample_meta 9)"
        using sample_sorted by (simp add: level_sorted_def sample_levels_def)
      with True show ?thesis
        by (simp add: sample_moved_def sample_levels_def level_sorted_def)
    next
      case False
      then have "sample_moved ! l = []"
        using l sample_levels_nth [of l] by (simp add: sample_moved_def Compaction_new_def)
      then show ?thesis
        by (simp add: level_sorted_def)
    qed
    then show "level_sorted BytewiseCompare sample_meta (c_input_files ?c ! l)"
      by simp
  qed
  note spec = base_level_exact [OF bytewise_user.user_comparator_axioms _ _ this, of "[[0], [1], [1], [2]]"]
  have levels: "{2..<kNumLevels} = set [2, 3, 4, 5, 6]"
    by (auto simp: kNumLevels_def)
  have start: "file_start sample_meta 9 = [1]" "file_limit sample_meta 9 = [1]"
    by (simp_all add: sample_key_def sample_meta_def)
  have all: "(\<forall>l \<in> {2..<kNumLevels}. \<forall>f \<in> set (sample_moved ! l). P f) \<longleftrightarrow> P 9" for P :: "nat \<Rightarrow> bool"
    unfolding levels by (simp add: sample_moved_def sample_levels_def eval_nat_numeral)
  have c: "c_level ?c + 2 = 2" "c_input_files ?c = sample_moved"
    by (simp_all add: Compaction_new_def)
  show ?thesis
    by (rule trans [OF spec], unfold c all start)
      (simp_all add: Compaction_new_def BytewiseCompare_def Slice_compare_eq)
qed

text \<open>C40: a compaction above level 0 can separate the entries of one user key. In any well-formed version, take
  any compaction that \<open>PickCompaction\<close> chooses above level 0 and that is a trivial move of one file. When the
  newest entry of a user key visible at a sequence number is in that file and another file of the level has
  an older entry of the key, then \<open>Version::Get\<close> finds the newest entry before the move, and an older
  one after it: the file is moved without its neighbour, so the newer entry ends up below the older.\<close>

theorem trivial_move_hides_newest:
  assumes "user_comparator Compare sep succ" "version_ok Compare F contents (v_files v)"
    "\<forall>l < kNumLevels. \<forall>f \<in> set (v_files v ! l). table_get_ok Compare F contents TableGet (InternalKey_make u s kValueTypeForSeek) f"
    "Finalize F v = v" "seek_ok (v_files v) (v_file_to_compact v) (v_file_to_compact_level v)"
    "PickCompaction Compare F v compact_pointer = Some (Some (c, cp))" "IsTrivialMove F c" "0 < c_level c" "c_inputs0 c = [f]"
    "moved_down (v_files v) (c_level c) f files'"
    "d \<in> set (contents f)" "visible Compare (InternalKey_make u s kValueTypeForSeek) d"
    "\<forall>x \<in> set (concat (map contents (concat (v_files v)))).
       visible Compare (InternalKey_make u s kValueTypeForSeek) x \<longrightarrow> x = d \<or> ExtractTag (fst x) < ExtractTag (fst d)"
    "g \<in> set (v_files v ! c_level c)" "g \<noteq> f" "e \<in> set (contents g)" "visible Compare (InternalKey_make u s kValueTypeForSeek) e"
  shows "let (st, val, stats) = Version_Get Compare F TableGet (v_files v) (LookupKey_make u s);
             (st', val', stats') = Version_Get Compare F TableGet files' (LookupKey_make u s)
    in (st, val) = entry_result d \<and>
       (\<exists>x \<in> set (concat (map contents (concat (v_files v)))). ExtractTag (fst x) < ExtractTag (fst d) \<and> (st', val') = entry_result x)"
proof -
  let ?k = "InternalKey_make u s kValueTypeForSeek"
  let ?init = "\<lparr>gs_stats = \<lparr>seek_file = None, seek_file_level = - 1\<rparr>, gs_last_file_read = None, gs_last_file_read_level = - 1\<rparr>"
  have run: "Version_Get Compare F TableGet fs (LookupKey_make u s) =
      (let g = Get_levels Compare F TableGet fs u ?k [0..<kNumLevels] ?init in (fst (fst g), snd (fst g), gs_stats (snd g)))" for fs
    by (simp add: Version_Get_def LookupKey_views split_beta Let_def)
  have ok: "\<forall>l < kNumLevels. \<forall>f \<in> set (v_files v ! l). file_ok Compare (F f)"
    using assms(2) user_comparator.contents_okD(1) [OF assms(1)] by (auto simp: version_ok_def)
  have "NeedsCompaction v"
  proof (rule ccontr)
    assume "\<not> NeedsCompaction v"
    then have "PickCompaction Compare F v compact_pointer = Some None"
      by (simp add: NeedsCompaction_def PickCompaction_def PickInputs_def)
    with assms(6) show False
      by simp
  qed
  then obtain picked where pc: "c_level c + 1 < kNumLevels" "user_comparator.inputs_ok Compare F (v_files v) picked c"
    using user_comparator.PickCompaction_spec [OF assms(1) ok assms(4,5), of compact_pointer] assms(6) by auto
  then have f: "f \<in> set (v_files v ! c_level c)"
    using assms(9) unfolding user_comparator.inputs_ok_def [OF assms(1)] by simp
  have "c_level c < length (v_files v)"
    using pc(1) assms(2) by (simp add: version_ok_def)
  then have d: "d \<in> set (concat (map contents (concat (v_files v))))"
    using f assms(11) by (auto intro!: bexI [of _ "v_files v ! c_level c"])
  then obtain x where x: "x \<in> set (concat (map contents (concat (v_files v))))" "visible Compare ?k x"
    "fst (Get_levels Compare F TableGet (v_files v) u ?k [0..<kNumLevels] ?init) = entry_result x"
    "\<forall>y \<in> set (concat (map contents (concat (v_files v)))). visible Compare ?k y \<longrightarrow> ExtractTag (fst y) \<le> ExtractTag (fst x)"
    using user_comparator.Version_Get_spec(2) [OF assms(1-3) refl, of ?init] assms(12) by blast
  have "x = d"
    using assms(13) x(1,2,4) d assms(12) by (meson leD)
  moreover note user_comparator.moved_down_hides [OF assms(1,2,8) pc(1) assms(10) refl assms(3) f assms(11,13,14-17), of ?init]
  ultimately show ?thesis
    using x(3) unfolding run Let_def by auto
qed

text \<open>The file to compact of the sample version is moved: no level is too large.\<close>

lemma sample_trivial_move:
  "\<exists>c cp. PickCompaction BytewiseCompare sample_meta (Finalize sample_meta sample_seek_version) (replicate 7 []) = Some (Some (c, cp)) \<and>
     c_level c = 1 \<and> c_inputs0 c = [9] \<and> IsTrivialMove sample_meta c"
proof -
  let ?v = "Finalize sample_meta sample_seek_version"
  have "\<not> score_at_least_one (v_compaction_score ?v)"
  proof
    assume s: "score_at_least_one (v_compaction_score ?v)"
    then obtain x where x: "v_compaction_score ?v = Some x" "snd x \<le> fst x"
      by (auto simp: score_at_least_one_def split: option.splits)
    have files: "v_files ?v = sample_levels"
      by (simp add: Finalize_def sample_seek_version_def split_beta Let_def)
    have "v_files ?v ! nat (v_compaction_level ?v) \<noteq> []"
      using Finalize_level(3) [OF Finalize_idem s] .
    then have "nat (v_compaction_level ?v) = 1"
      using Finalize_level(2) [OF Finalize_idem s] sample_levels_nth [of "nat (v_compaction_level ?v)"] files by fastforce
    moreover have "x = Finalize_score sample_meta (v_files ?v) (nat (v_compaction_level ?v))"
      using Finalize_score_best [OF Finalize_idem x(1)] .
    ultimately have "x = Finalize_score sample_meta sample_levels 1"
      by (simp add: files)
    with x(2) show False
      by (simp add: Finalize_score_def sample_levels_def TotalFileSize_def sample_meta_def MaxBytesForLevel_def)
  qed
  then have "PickCompaction BytewiseCompare sample_meta ?v (replicate 7 []) = PickCompaction BytewiseCompare sample_meta sample_seek_version (replicate 7 [])"
    by (simp add: PickCompaction_def PickInputs_def)
      (simp add: Finalize_def split_beta Let_def sample_seek_version_def Version_new_def score_at_least_one_def)
  moreover have "map_option (map_option (\<lambda>(c, cp). (c_level c, c_inputs0 c, IsTrivialMove sample_meta c)))
      (PickCompaction BytewiseCompare sample_meta sample_seek_version (replicate 7 [])) = Some (Some (1, [9], True))"
    by code_simp
  ultimately show ?thesis
    by auto
qed

theorem trivial_move_hides_newest_witness:
  "\<exists>c cp. PickCompaction BytewiseCompare sample_meta (Finalize sample_meta sample_seek_version) (replicate 7 []) = Some (Some (c, cp)) \<and>
     moved_down sample_levels (c_level c) 9 sample_moved \<and>
     fst (snd (Version_Get BytewiseCompare sample_meta sample_get sample_levels (LookupKey_make [1] 10))) = Some [9] \<and>
     fst (snd (Version_Get BytewiseCompare sample_meta sample_get sample_moved (LookupKey_make [1] 10))) \<noteq> Some [9]"
proof -
  let ?v = "Finalize sample_meta sample_seek_version" and ?k = "InternalKey_make [1] 10 kValueTypeForSeek"
  obtain c cp where c: "PickCompaction BytewiseCompare sample_meta ?v (replicate 7 []) = Some (Some (c, cp))"
    "c_level c = 1" "c_inputs0 c = [9]" "IsTrivialMove sample_meta c"
    using sample_trivial_move by blast
  have v: "v_files ?v = sample_levels" "v_file_to_compact ?v = Some 9" "v_file_to_compact_level ?v = 1"
    by (simp_all add: Finalize_def sample_seek_version_def split_beta Let_def)
  have seek: "seek_ok (v_files ?v) (v_file_to_compact ?v) (v_file_to_compact_level ?v)"
    unfolding v by (simp add: seek_ok_def sample_levels_def kNumLevels_def)
  have get: "\<forall>l < kNumLevels. \<forall>f \<in> set (v_files ?v ! l). table_get_ok BytewiseCompare sample_meta sample_contents sample_get ?k f"
  proof (intro allI impI ballI)
    fix l f
    assume "l < kNumLevels" "f \<in> set (v_files ?v ! l)"
    then have "f = 9 \<or> f = 5"
      using sample_levels_nth [of l] v(1) by (cases "l = 1") (auto simp: sample_levels_def)
    then show "table_get_ok BytewiseCompare sample_meta sample_contents sample_get ?k f"
      using sample_table_get [of f ?k] by auto
  qed
  have moved: "moved_down (v_files ?v) (c_level c) 9 sample_moved"
    unfolding v c(2) moved_down_def by (intro exI [of _ "[9]"]) (simp add: sample_levels_def sample_moved_def numeral_2_eq_2)
  have all: "set (concat (map sample_contents (concat (v_files ?v)))) = {(sample_key 9, [9]), (sample_key 5, [5])}"
    unfolding v by (simp add: sample_levels_def sample_contents_def)
  have tags: "ExtractTag (sample_key 5) < ExtractTag (sample_key 9)" "visible BytewiseCompare ?k (sample_key 9, [9])" "visible BytewiseCompare ?k (sample_key 5, [5])"
    by code_simp+
  have newest: "\<forall>x \<in> set (concat (map sample_contents (concat (v_files ?v)))).
      visible BytewiseCompare ?k x \<longrightarrow> x = (sample_key 9, [9]) \<or> ExtractTag (fst x) < ExtractTag (fst (sample_key 9, [9] :: bytes))"
    unfolding all using tags(1) by simp
  have res: "entry_result (sample_key 9, [9]) = (Status_OK, Some [9])" "entry_result (sample_key 5, [5]) = (Status_OK, Some [5])"
    by code_simp+
  have ok: "version_ok BytewiseCompare sample_meta sample_contents (v_files ?v)"
    unfolding v by (rule sample_version)
  have mem: "(sample_key 9, [9]) \<in> set (sample_contents 9)" "5 \<in> set (v_files ?v ! c_level c)" "(5 :: nat) \<noteq> 9" "(sample_key 5, [5]) \<in> set (sample_contents 5)"
    "0 < c_level c"
    unfolding v c(2) by (simp_all add: sample_contents_def sample_levels_def)
  note hides = trivial_move_hides_newest [OF bytewise_user.user_comparator_axioms ok get Finalize_idem seek c(1,4) mem(5) c(3) moved
      mem(1) tags(2) newest mem(2-4) tags(3)]
  have "let (st, val, stats) = Version_Get BytewiseCompare sample_meta sample_get sample_levels (LookupKey_make [1] 10);
        (st', val', stats') = Version_Get BytewiseCompare sample_meta sample_get sample_moved (LookupKey_make [1] 10)
      in (st, val) = (Status_OK, Some [9]) \<and> (\<exists>x \<in> {(sample_key 9, [9]), (sample_key 5, [5])}.
        ExtractTag (fst x) < ExtractTag (fst (sample_key 9, [9] :: bytes)) \<and> (st', val') = entry_result x)"
    using hides unfolding all [unfolded v(1)] v(1) res(1) .
  then show ?thesis
    using c(1) moved unfolding v by (auto simp: res split: prod.splits)
qed

text \<open>C23: a file is charged for seeks only where it can be compacted. Whatever file a read or a read sample makes
  the file to compact is in the level recorded with it, and there is a level below that one.\<close>

theorem seek_compaction_has_level_below:
  assumes "seek_ok (v_files v) (v_file_to_compact v) (v_file_to_compact_level v)"
  shows "(let (b, F', v') = UpdateStats F v (snd (snd (Version_Get Compare F TableGet (v_files v) k)))
          in seek_ok (v_files v') (v_file_to_compact v') (v_file_to_compact_level v')) \<and>
    (let (b, F', v') = RecordReadSample Compare F v ikey
     in seek_ok (v_files v') (v_file_to_compact v') (v_file_to_compact_level v'))"
proof
  show "let (b, F', v') = UpdateStats F v (snd (snd (Version_Get Compare F TableGet (v_files v) k)))
      in seek_ok (v_files v') (v_file_to_compact v') (v_file_to_compact_level v')"
    using UpdateStats_seek_ok [OF assms Version_Get_seek_ok] by (fastforce split: prod.split)
  show "let (b, F', v') = RecordReadSample Compare F v ikey
      in seek_ok (v_files v') (v_file_to_compact v') (v_file_to_compact_level v')"
  proof (cases "sample_stats Compare F (v_files v) ikey")
    case None
    then show ?thesis
      using assms by (simp add: RecordReadSample_def)
  next
    case (Some stats)
    then show ?thesis
      using UpdateStats_seek_ok [OF assms sample_stats_seek_ok [OF Some]] by (fastforce simp: RecordReadSample_def split: prod.split)
  qed
qed

theorem seek_compaction_has_level_below_witness:
  "let (b, F', v') = RecordReadSample BytewiseCompare sample_meta (Version_new\<lparr>v_files := sample_levels\<rparr>) (sample_key 7)
   in seek_ok (v_files v') (v_file_to_compact v') (v_file_to_compact_level v')"
proof -
  have "seek_ok (v_files (Version_new\<lparr>v_files := sample_levels\<rparr>)) (v_file_to_compact (Version_new\<lparr>v_files := sample_levels\<rparr>))
      (v_file_to_compact_level (Version_new\<lparr>v_files := sample_levels\<rparr>))"
    by (simp add: Version_new_def seek_ok_def)
  from seek_compaction_has_level_below [OF this] show ?thesis
    by blast
qed

end
