(* ===== verification/Spec2Isabelle.thy ===== *)
theory Spec2Isabelle
  imports Prelude Coding Comparator Logging Crc32c Bloom Arena Dbformat Memenv Log_File Write_Batch
    Version_Edit Iterator Block Filter_Block Table_Format Table_Builder Two_Level Table Skip_List
    Memtable Merger DB_Iter Handle_Table LRU_Cache Sharded_Cache Version_Search Version_Read
    Compaction
begin

text \<open>
  Verification of LevelDB, the C++ key-value store under \<open>src/leveldb_source_code\<close> (the repository's
  annotated copy; its annotations, documents and benchmarks hold no logic of their own).

  \<^bold>\<open>How the program is put together.\<close> A write is a batch of operations (\<open>db/write_batch.cc\<close>). The batch is
  appended to a log file as one record (\<open>db/log_writer.cc\<close>, read back by \<open>db/log_reader.cc\<close> after a crash)
  and replayed into the memtable (\<open>db/memtable.cc\<close>), a skip list (\<open>db/skiplist.h\<close>) of entries ordered by
  internal key (\<open>db/dbformat.cc\<close>: user key, sequence number, type). A full memtable is written to a
  sorted table: data blocks with prefix-compressed keys (\<open>table/block_builder.cc\<close>, \<open>table/block.cc\<close>), a
  filter over the keys (\<open>util/bloom.cc\<close>), an index block. The set of live tables is a version, changed by
  version edits (\<open>db/version_edit.cc\<close>) that are themselves records of a log. A version keeps its tables in
  seven levels; a read searches them from the top (\<open>Version::Get\<close> of \<open>db/version_set.cc\<close>), and a compaction
  merges a few files of one level with those they overlap in the next (\<open>PickCompaction\<close>). Open tables and
  blocks are kept in a cache (\<open>util/cache.cc\<close>). A scan merges the memtables and the tables through
  iterators (\<open>table/merger.cc\<close>, \<open>table/two_level_iterator.cc\<close>) and shows the user keys of one snapshot
  (\<open>db/db_iter.cc\<close>).

  \<^bold>\<open>Conventions.\<close> Bytes are \<^typ>\<open>8 word\<close>, integers of the file formats keep their width as words, so
  wrap-around is the machine's. A \<open>Slice\<close> or a \<open>std::string\<close> is a list of bytes; a pointer into a buffer is
  an offset or the rest of the buffer, and every bound the code checks is a branch of the model. A
  \<open>size_t\<close> offset into a buffer is a natural number where the buffer is assumed shorter than 4 GiB (this is
  a hypothesis of the theorems that need it). Errors are values: a \<open>Status\<close>, an \<open>option\<close> or a sum. Objects
  are records passed and returned; where pointers are shared (skip list nodes, files of the in-memory
  environment, handles of the cache) there is an explicit store; files of a version are read through a
  function from their addresses to their metadata. An abstract class (\<open>Comparator\<close>, \<open>Iterator\<close>) is an argument or a
  record of methods, and what its implementations promise is a locale. Atomic accesses of the skip list
  are sequentially consistent. Assertions of the code are preconditions. Three definitions are simpler than
  the code in a way the theorems exclude or that is stated beside them: the circular list of the cache is
  a list of addresses, the compaction score is a fraction of whole numbers instead of a double, and the
  search among the files of a level counts in natural numbers (the code's 32-bit sum wraps from \<open>2 ^ 31\<close>
  files).

  \<^bold>\<open>Theories.\<close>
  \<^item> \<open>Prelude\<close>: byte and word types, byte strings, the rule collections and the generic lemmas on lists
    and words.
  \<^item> \<open>Coding\<close>: \<open>util/coding.cc\<close>: fixed-width and variable-length integers, length-prefixed strings.
    Every encoder is undone by its decoder, and truncated input is rejected.
  \<^item> \<open>Comparator\<close>: \<open>include/leveldb/slice.h\<close>, \<open>util/comparator.cc\<close>: the locales \<open>comparator\<close> (a total
    preorder on valid keys) and \<open>separating_comparator\<close> (what \<open>FindShortestSeparator\<close> and
    \<open>FindShortSuccessor\<close> promise), and the bytewise comparator as their first instance.
  \<^item> \<open>Logging\<close>: \<open>util/logging.cc\<close>, \<open>util/status.cc\<close>: decimal numbers with overflow detection, statuses.
  \<^item> \<open>Crc32c\<close>: \<open>util/crc32c.cc\<close>: the four-table checksum equals division by the Castagnoli polynomial;
    masking is undone by unmasking.
  \<^item> \<open>Bloom\<close>: \<open>util/hash.cc\<close>, \<open>util/bloom.cc\<close>, \<open>util/random.h\<close>: the hash, the filter policy (no key of
    a filter is missed; locale \<open>filter_policy\<close>), the random number generator.
  \<^item> \<open>Arena\<close>: \<open>util/arena.cc\<close>: no two allocations overlap, aligned ones are aligned, for any allocator
    below that keeps what C++ promises.
  \<^item> \<open>Dbformat\<close>: \<open>db/dbformat.cc\<close>: internal keys and their order; any user comparator that keeps its
    contract yields an internal comparator that keeps it.
  \<^item> \<open>Memenv\<close>: \<open>include/leveldb/env.h\<close>, \<open>helpers/memenv/memenv.cc\<close>: the file interfaces as locales, and
    the in-memory files with reference counts that implement them.
  \<^item> \<open>Log_File\<close>: \<open>db/log_writer.cc\<close>, \<open>db/log_reader.cc\<close>: records split over 32 KiB blocks; reading back
    a log gives its records, a log cut off anywhere gives a prefix of them, and the reader ends on any
    bytes.
  \<^item> \<open>Write_Batch\<close>: \<open>db/write_batch.cc\<close>: batches replay the operations they were built from; corrupt
    batches are detected.
  \<^item> \<open>Version_Edit\<close>: \<open>db/version_edit.cc\<close>: the manifest record, its serialisation and its parser.
  \<^item> \<open>Iterator\<close>: \<open>include/leveldb/iterator.h\<close>, \<open>table/iterator.cc\<close>, \<open>table/iterator_wrapper.h\<close>: the
    methods as a record, the contract as the locale \<open>list_iterator\<close> (a cursor on a sorted list), the
    empty iterator, the caching wrapper.
  \<^item> \<open>Block\<close>: \<open>table/block_builder.cc\<close>, \<open>table/block.cc\<close>: a block shows the entries it was built from,
    in both directions, and \<open>Seek\<close> finds the first entry not below its target.
  \<^item> \<open>Filter_Block\<close>: \<open>table/filter_block.cc\<close>: the filter of a data block's offset never misses a key of
    that block.
  \<^item> \<open>Table_Format\<close>: \<open>table/format.cc\<close>: block handles, the footer, and reading a block with its
    checksum and compression.
  \<^item> \<open>Table_Builder\<close>: \<open>table/table_builder.cc\<close>: what a finished table file holds, for every file that
    does not fail and every comparator whose separators keep their contract.
  \<^item> \<open>Two_Level\<close>: \<open>table/two_level_iterator.cc\<close>: over an index that separates its blocks the two-level
    iterator is a cursor on all their entries, across empty blocks, and its loops end.
  \<^item> \<open>Table\<close>: \<open>table/table.cc\<close>: a table built and opened shows the entries it was built from, and
    lookups find the entry they should through index and filter.
  \<^item> \<open>Skip_List\<close>: \<open>db/skiplist.h\<close>: insertion and search over a store of nodes, and a reader interleaved
    with the writer at every atomic step (an inductive step relation).
  \<^item> \<open>Memtable\<close>: \<open>db/memtable.cc\<close>: \<open>Get\<close> returns the newest entry not above the snapshot; iteration is
    in internal key order.
  \<^item> \<open>Merger\<close>: \<open>table/merger.cc\<close>: over children with no key in common the merging iterator refines a
    cursor on their sorted union, through every change of direction; a key in two children can be lost
    by a change of direction.
  \<^item> \<open>DB_Iter\<close>: \<open>db/db_iter.cc\<close>: over any internal iterator that keeps the contract, the database
    iterator is a cursor on what a snapshot shows, in both directions; every loop ends.
  \<^item> \<open>Handle_Table\<close>: \<open>util/cache.cc\<close>: the hash table of the cache is a map from keys to handles,
    through every resize.
  \<^item> \<open>LRU_Cache\<close>: \<open>util/cache.cc\<close>: one shard: reference counts, charges and the order of eviction.
  \<^item> \<open>Sharded_Cache\<close>: \<open>util/cache.cc\<close>: all shards in use by clients: handles stay valid while held,
    lookups return the last value inserted, no operation gets stuck.
  \<^item> \<open>Version_Search\<close>: \<open>db/version_set.cc\<close>: finding files by key and by range; the overlap searches are
    right and end.
  \<^item> \<open>Version_Read\<close>: \<open>db/version_set.cc\<close>: reading a version: \<open>Get\<close> returns the newest visible entry of
    all levels, the iterator of a level is a cursor on its entries.
  \<^item> \<open>Compaction\<close>: \<open>db/version_set.cc\<close>: picking a compaction: its inputs are closed under overlap, the
    test for older entries below is exact, and what a move of one file can break.

  \<^bold>\<open>Interfaces.\<close> The locales are \<open>comparator\<close>, \<open>separating_comparator\<close>, \<open>user_comparator\<close>,
  \<open>filter_policy\<close>, \<open>user_filter_policy\<close>, the file interfaces \<open>sequential_file\<close>, \<open>random_access_file\<close>,
  \<open>writable_file\<close> and \<open>reliable_file\<close>, \<open>list_iterator\<close> (what every iterator promises), \<open>mergeable\<close>,
  \<open>two_level\<close> and \<open>db_iterator\<close> (what a composed iterator needs of those below it) and \<open>table_writer\<close>. Each
  is interpreted on the model's own definitions, and the properties are facts of these interpretations.

  \<^bold>\<open>Loops.\<close> There is no fuel. A loop whose bound is in its data is a total function with a measure
  (block searches, the writer's and parsers' loops); a loop that corrupt data or a cyclic list could keep
  running (reading the next log record, searching the skip list, collecting overlapping files of level 0,
  evicting from the cache, skipping entries in the database iterator) is a partial function into \<open>option\<close>,
  and the properties about it state that it returns.

  \<^bold>\<open>Not modelled.\<close> The database object (\<open>db/db_impl.cc\<close>): its threads, mutex and write queue schedule the
  components above, and the rule by which a compaction drops entries; the manifest side of
  \<open>db/version_set.cc\<close> (\<open>LogAndApply\<close>, \<open>Recover\<close>, reference counts of versions); file names
  (\<open>db/filename.cc\<close>), the table cache and \<open>BuildTable\<close>: calls to the environment around components that are
  modelled. The operating system (\<open>util/env_posix.cc\<close>, \<open>port/\<close>): system calls, locks and threads;
  the C binding (\<open>db/c.cc\<close>), the command line tools (\<open>db/leveldbutil.cc\<close>), the benchmarks and the tests:
  glue with no state of its own; \<open>util/histogram.cc\<close>: floating-point statistics for the benchmarks.
\<close>

end
